(* ===== verification/Prelude.thy ===== *)
theory Prelude
  imports Main "HOL-Library.Word"
begin

text \<open>
  Shared vocabulary of the RustyPI development: Rust's integer widths, \<open>Result\<close>, byte
  strings and the pieces of \<open>core\<close> and \<open>alloc\<close> the sources call (slices, \<open>get\<close>,
  \<open>copy_from_slice\<close>, \<open>resize\<close>, \<open>to_le_bytes\<close> and its kin, \<open>from_utf8\<close>), with the
  generic lemmas every component uses.

  A \<open>usize\<close> that counts or indexes is a \<open>nat\<close>; an integer whose bits or wrap-around matter is a
  word of its width. A panic is \<open>None\<close> of an outer \<open>option\<close>; a \<open>Result\<close> is a value of
  \<open>result\<close>; Rust's \<open>Option\<close> is \<open>option\<close>. A \<open>&str\<close> or \<open>String\<close> is what it is in
  memory, the list of its UTF-8 bytes.
\<close>

unbundle bit_operations_syntax

named_theorems byte_simps \<open>round trips and lengths of byte encodings\<close>
named_theorems slice_simps \<open>slices of concatenations and updates\<close>

type_synonym u8 = "8 word"
type_synonym u16 = "16 word"
type_synonym u32 = "32 word"
type_synonym u64 = "64 word"
type_synonym byte = u8
type_synonym rstr = "byte list"

subsection \<open>Results\<close>

datatype ('a, 'e) result = Ok 'a | Err 'e

primrec result_bind :: "('a, 'e) result \<Rightarrow> ('a \<Rightarrow> ('b, 'e) result) \<Rightarrow> ('b, 'e) result" where
  "result_bind (Ok x) f = f x"
| "result_bind (Err e) f = Err e"

primrec ok_or :: "'a option \<Rightarrow> 'e \<Rightarrow> ('a, 'e) result" where
  "ok_or None e = Err e"
| "ok_or (Some x) e = Ok x"

lemma result_bind_Ok_iff [simp]:
  "result_bind r f = Ok y \<longleftrightarrow> (\<exists>x. r = Ok x \<and> f x = Ok y)"
  by (cases r) auto

lemma ok_or_Ok_iff [simp]: "ok_or x e = Ok y \<longleftrightarrow> x = Some y"
  by (cases x) auto

subsection \<open>Slices and vectors\<close>

definition slice :: "nat \<Rightarrow> nat \<Rightarrow> 'a list \<Rightarrow> 'a list" where
  \<comment> \<open>\<open>&xs[a..b]\<close> where that is in range\<close>
  "slice a b xs = take (b - a) (drop a xs)"

definition get_range :: "'a list \<Rightarrow> nat \<Rightarrow> nat \<Rightarrow> 'a list option" where
  \<comment> \<open>\<open>xs.get(a..b)\<close>\<close>
  "get_range xs a b = (if a \<le> b \<and> b \<le> length xs then Some (slice a b xs) else None)"

definition get_at :: "'a list \<Rightarrow> nat \<Rightarrow> 'a option" where
  \<comment> \<open>\<open>xs.get(i)\<close>\<close>
  "get_at xs i = (if i < length xs then Some (xs ! i) else None)"

definition overwrite :: "nat \<Rightarrow> 'a list \<Rightarrow> 'a list \<Rightarrow> 'a list" where
  \<comment> \<open>\<open>xs[at..at + ys.len()].copy_from_slice(ys)\<close> where that is in range\<close>
  "overwrite at ys xs = take at xs @ ys @ drop (at + length ys) xs"

definition resize :: "nat \<Rightarrow> 'a \<Rightarrow> 'a list \<Rightarrow> 'a list" where
  \<comment> \<open>\<open>Vec::resize\<close>\<close>
  "resize n x xs = take n xs @ replicate (n - length xs) x"

fun position :: "('a \<Rightarrow> bool) \<Rightarrow> 'a list \<Rightarrow> nat option" where
  \<comment> \<open>\<open>Iterator::position\<close>\<close>
  "position P [] = None"
| "position P (x # xs) = (if P x then Some 0 else map_option Suc (position P xs))"

lemma length_slice [slice_simps]: "length (slice a b xs) = min (b - a) (length xs - a)"
  by (simp add: slice_def)

lemma slice_nth [slice_simps]: "i < b - a \<Longrightarrow> a + i < length xs \<Longrightarrow> slice a b xs ! i = xs ! (a + i)"
  by (simp add: slice_def)

lemma slice_append_left [slice_simps]: "b \<le> length xs \<Longrightarrow> slice a b (xs @ ys) = slice a b xs"
  by (simp add: slice_def)

lemma slice_append_right [slice_simps]:
  "length xs \<le> a \<Longrightarrow> slice a b (xs @ ys) = slice (a - length xs) (b - length xs) ys"
  by (simp add: slice_def)

lemma slice_all [slice_simps]: "length xs \<le> b \<Longrightarrow> slice 0 b xs = xs"
  by (simp add: slice_def)

lemma length_overwrite [slice_simps]:
  "at + length ys \<le> length xs \<Longrightarrow> length (overwrite at ys xs) = length xs"
  by (simp add: overwrite_def)

lemma nth_overwrite [slice_simps]:
  "at + length ys \<le> length xs \<Longrightarrow> i < length xs \<Longrightarrow>
   overwrite at ys xs ! i = (if at \<le> i \<and> i < at + length ys then ys ! (i - at) else xs ! i)"
  by (auto simp: overwrite_def nth_append min_def)

lemma length_resize [simp]: "length (resize n x xs) = n"
  by (simp add: resize_def)

lemma get_range_Some:
  "get_range xs a b = Some ys \<longleftrightarrow> a \<le> b \<and> b \<le> length xs \<and> ys = slice a b xs"
  by (auto simp: get_range_def)

lemma get_at_Some: "get_at xs i = Some x \<longleftrightarrow> i < length xs \<and> x = xs ! i"
  by (auto simp: get_at_def)

lemma position_Some:
  "position P xs = Some i \<Longrightarrow> i < length xs \<and> P (xs ! i) \<and> (\<forall>j<i. \<not> P (xs ! j))"
proof (induction xs arbitrary: i)
  case (Cons x xs)
  then show ?case
    by (cases i) (auto split: if_splits simp: less_Suc_eq_0_disj)
qed simp

lemma position_None: "position P xs = None \<longleftrightarrow> (\<forall>x \<in> set xs. \<not> P x)"
  by (induction xs) auto

lemma rotated_range: "0 < m \<Longrightarrow> (\<lambda>i. (k + i) mod m) ` {0..<m} = {0..<m :: nat}"
proof (intro equalityI subsetI)
  fix w assume "0 < m" and "w \<in> {0..<m}"
  moreover have "k + (m - k mod m) = Suc (k div m) * m"
    using div_mult_mod_eq [of k m] mod_less_divisor [OF \<open>0 < m\<close>, of k]
    unfolding mult_Suc by linarith
  ultimately have "(k + (w + (m - k mod m)) mod m) mod m = w"
    by (metis (no_types) add.left_commute atLeastLessThan_iff mod_add_right_eq mod_less mod_mult_self1)
  with \<open>0 < m\<close> show "w \<in> (\<lambda>i. (k + i) mod m) ` {0..<m}"
    by (intro image_eqI [where x = "(w + (m - k mod m)) mod m"]) auto
qed auto

lemma div_round_up:
  fixes x m :: nat
  assumes "0 < m" and "x mod m \<noteq> 0"
  shows "(x + (m - 1)) div m = Suc (x div m)"
proof -
  have "x + (m - 1) = (x mod m - 1) + Suc (x div m) * m"
    using assms div_mult_mod_eq [of x m] unfolding mult_Suc by linarith
  moreover have "x mod m - 1 < m"
    using mod_less_divisor [OF assms(1), of x] by linarith
  ultimately show ?thesis
    by (metis (no_types) add.commute add_0 assms(1) div_less div_mult_self1 neq0_conv)
qed

lemma div_round_up_exact: "0 < m \<Longrightarrow> x mod m = 0 \<Longrightarrow> (x + (m - 1)) div m = x div (m :: nat)"
  using div_mult_self1 [of m "m - 1" "x div m"] div_mult_mod_eq [of x m]
  by (simp add: add.commute del: div_mult_self1 div_mult_self2 div_mult_self3 div_mult_self4
      Nat.add_diff_assoc Nat.add_diff_assoc2 Nat.diff_diff_right diff_diff_left)

lemma div_round_up_le:
  assumes m: "0 < (m :: nat)"
  shows "x \<le> (x + (m - 1)) div m * m"
proof (cases "x mod m = 0")
  case True
  then show ?thesis using div_round_up_exact [OF m True] div_mult_mod_eq [of x m]
    by (metis add_0_right order_refl)
next
  case False
  have "x < m + m * (x div m)" using m by (rule dividend_less_times_div)
  then have "x \<le> Suc (x div m) * m" by (simp add: mult.commute)
  then show ?thesis using div_round_up [OF m False] by (simp only:)
qed

lemma div_round_up_least:
  assumes "0 < m" and "x \<le> k * (m :: nat)"
  shows "(x + (m - 1)) div m \<le> k"
proof -
  have "x + (m - 1) < Suc k * m" using assms by simp
  then have "(x + (m - 1)) div m < Suc k" by (rule less_mult_imp_div_less)
  then show ?thesis by simp
qed

subsection \<open>Widths\<close>

lemma unat_bound: "unat (w :: 'a::len word) < 2 ^ LENGTH('a)"
  by (rule unsigned_less)

lemma unat_ucast_up:
  assumes "LENGTH('a) \<le> LENGTH('b)"
  shows "unat (ucast (w :: 'a::len word) :: 'b::len word) = unat w"
proof -
  have "unat w < 2 ^ LENGTH('b)"
    by (rule less_le_trans [OF unat_bound]) (use assms in simp)
  then show ?thesis by (simp add: unsigned_ucast_eq take_bit_nat_eq_self)
qed

lemma unat_u8_less [simp]: "unat (w :: u8) < 256"
  using unat_bound [of w] by simp

lemma unat_u16_less [simp]: "unat (w :: u16) < 65536"
  using unat_bound [of w] by simp

lemma unat_u32_less [simp]: "unat (w :: u32) < 4294967296"
  using unat_bound [of w] by simp

subsection \<open>Integers as bytes\<close>

primrec to_le :: "nat \<Rightarrow> 'a::len word \<Rightarrow> byte list" where
  \<comment> \<open>\<open>to_le_bytes\<close> of an integer of \<open>n\<close> bytes\<close>
  "to_le 0 w = []"
| "to_le (Suc n) w = ucast w # to_le n (drop_bit 8 w)"

primrec from_le :: "byte list \<Rightarrow> 'a::len word" where
  \<comment> \<open>\<open>from_le_bytes\<close>\<close>
  "from_le [] = 0"
| "from_le (b # bs) = ucast b OR push_bit 8 (from_le bs)"

definition to_be :: "nat \<Rightarrow> 'a::len word \<Rightarrow> byte list" where
  "to_be n w = rev (to_le n w)"

definition from_be :: "byte list \<Rightarrow> 'a::len word" where
  "from_be bs = from_le (rev bs)"

lemma length_to_le [byte_simps, simp]: "length (to_le n w) = n"
  by (induction n arbitrary: w) auto

lemma length_to_be [byte_simps, simp]: "length (to_be n w) = n"
  by (simp add: to_be_def)

lemma from_le_to_le_take: "from_le (to_le n w) = take_bit (8 * n) (w :: 'a::len word)"
proof (induction n arbitrary: w)
  case (Suc n)
  show ?case
    by (rule bit_eqI)
       (auto simp: Suc bit_or_iff bit_push_bit_iff bit_take_bit_iff bit_drop_bit_eq bit_ucast_iff
         simp flip: ucast_eq dest: bit_imp_le_length)
qed simp

lemma from_le_to_le [byte_simps]:
  "LENGTH('a) \<le> 8 * n \<Longrightarrow> from_le (to_le n w) = (w :: 'a::len word)"
  by (simp add: from_le_to_le_take take_bit_word_eq_self)

lemma from_be_to_be [byte_simps]:
  "LENGTH('a) \<le> 8 * n \<Longrightarrow> from_be (to_be n w) = (w :: 'a::len word)"
  by (simp add: from_be_def to_be_def from_le_to_le)

lemma bit_from_le:
  "bit (from_le bs :: 'a::len word) i \<longleftrightarrow>
     i < LENGTH('a) \<and> i < 8 * length bs \<and> bit (bs ! (i div 8)) (i mod 8)"
proof (induction bs arbitrary: i)
  case (Cons b bs)
  show ?case
  proof (cases "i < 8")
    case True
    then show ?thesis
      by (auto simp: bit_or_iff bit_push_bit_iff bit_ucast_iff)
  next
    case False
    then have "i div 8 = Suc ((i - 8) div 8)" "i mod 8 = (i - 8) mod 8"
      by (auto simp: le_div_geq le_mod_geq)
    moreover have "\<not> bit b i"
      using False by (auto dest: bit_imp_le_length)
    ultimately show ?thesis
      using False by (auto simp: bit_or_iff bit_push_bit_iff bit_ucast_iff Cons.IH)
  qed
qed simp

lemma to_le_nth: "k < n \<Longrightarrow> to_le n w ! k = ucast (drop_bit (8 * k) w)"
  by (induction n arbitrary: w k) (auto simp: nth_Cons drop_bit_drop_bit add.commute split: nat.splits)

lemma to_le_from_le [byte_simps]:
  assumes "length bs = n" and "8 * n \<le> LENGTH('a)"
  shows "to_le n (from_le bs :: 'a::len word) = bs"
proof (rule nth_equalityI)
  fix k assume "k < length (to_le n (from_le bs :: 'a word))"
  then have k: "k < n" by simp
  show "to_le n (from_le bs :: 'a word) ! k = bs ! k"
  proof (rule bit_eqI)
    fix j assume "possible_bit TYPE(byte) j"
    then have "j < 8" by simp
    with k assms have "8 * k + j < LENGTH('a)" "8 * k + j < 8 * length bs" by auto
    with \<open>j < 8\<close> k show "bit (to_le n (from_le bs :: 'a word) ! k) j = bit (bs ! k) j"
      by (simp add: to_le_nth bit_ucast_iff bit_drop_bit_eq bit_from_le)
  qed
qed (simp add: assms)

lemma to_be_from_be [byte_simps]:
  "length bs = n \<Longrightarrow> 8 * n \<le> LENGTH('a) \<Longrightarrow> to_be n (from_be bs :: 'a::len word) = bs"
  by (simp add: to_be_def from_be_def to_le_from_le)

end
