(* ===== verification/Utf8.thy ===== *)
theory Utf8
  imports Prelude
begin

text \<open>
  UTF-8 as Rust's \<open>core::str\<close> sees it: which byte strings \<open>from_utf8\<close> accepts, where a
  character may be cut (\<open>is_char_boundary\<close>), and the loop both \<open>session.rs\<close> and the ABI's
  \<open>DirEntry::new\<close> use to shorten a string without cutting a character in two.
\<close>

subsection \<open>Definitions\<close>

definition utf8_cont :: "byte \<Rightarrow> bool" where
  \<comment> \<open>a continuation byte, \<open>0x80..=0xBF\<close>\<close>
  "utf8_cont b \<longleftrightarrow> 128 \<le> b \<and> b \<le> 191"

definition utf8_second3 :: "byte \<Rightarrow> byte \<Rightarrow> bool" where
  \<comment> \<open>the second byte of a three-byte character: no overlong forms, no surrogates\<close>
  "utf8_second3 b c \<longleftrightarrow>
     (if b = 224 then 160 \<le> c \<and> c \<le> 191 else if b = 237 then 128 \<le> c \<and> c \<le> 159 else utf8_cont c)"

definition utf8_second4 :: "byte \<Rightarrow> byte \<Rightarrow> bool" where
  \<comment> \<open>the second byte of a four-byte character: no overlong forms, nothing past \<open>U+10FFFF\<close>\<close>
  "utf8_second4 b c \<longleftrightarrow>
     (if b = 240 then 144 \<le> c \<and> c \<le> 191 else if b = 244 then 128 \<le> c \<and> c \<le> 143 else utf8_cont c)"

definition utf8_char :: "byte list \<Rightarrow> nat option" where
  \<comment> \<open>the length of the well-formed character a byte string starts with\<close>
  "utf8_char bs =
     (case bs of
        [] \<Rightarrow> None
      | b # r \<Rightarrow>
          if b < 128 then Some 1
          else if 194 \<le> b \<and> b \<le> 223 then
            (case r of c # _ \<Rightarrow> if utf8_cont c then Some 2 else None | _ \<Rightarrow> None)
          else if 224 \<le> b \<and> b \<le> 239 then
            (case r of c # d # _ \<Rightarrow> if utf8_second3 b c \<and> utf8_cont d then Some 3 else None
             | _ \<Rightarrow> None)
          else if 240 \<le> b \<and> b \<le> 244 then
            (case r of c # d # e # _ \<Rightarrow>
               if utf8_second4 b c \<and> utf8_cont d \<and> utf8_cont e then Some 4 else None
             | _ \<Rightarrow> None)
          else None)"

lemma utf8_char_bounds: "utf8_char bs = Some n \<Longrightarrow> 0 < n \<and> n \<le> length bs"
  by (auto simp: utf8_char_def split: list.splits if_splits)

function utf8_valid :: "byte list \<Rightarrow> bool" where
  \<comment> \<open>whether \<open>core::str::from_utf8\<close> accepts the bytes\<close>
  "utf8_valid bs =
     (bs = [] \<or> (case utf8_char bs of None \<Rightarrow> False | Some n \<Rightarrow> utf8_valid (drop n bs)))"
  by pat_completeness auto
termination
  by (relation "measure length") (auto dest: utf8_char_bounds)

declare utf8_valid.simps [simp del]

definition is_char_boundary :: "byte list \<Rightarrow> nat \<Rightarrow> bool" where
  \<comment> \<open>\<open>str::is_char_boundary\<close>\<close>
  "is_char_boundary s i \<longleftrightarrow>
     i = 0 \<or> i = length s \<or> (i < length s \<and> \<not> utf8_cont (s ! i))"

primrec floor_char_boundary :: "byte list \<Rightarrow> nat \<Rightarrow> nat" where
  \<comment> \<open>\<open>while !s.is_char_boundary(end) { end -= 1; }\<close>\<close>
  "floor_char_boundary s 0 = 0"
| "floor_char_boundary s (Suc n) =
     (if is_char_boundary s (Suc n) then Suc n else floor_char_boundary s n)"

subsection \<open>Lemmas\<close>

lemma utf8_second_cont:
  "utf8_second3 b c \<Longrightarrow> utf8_cont c" "utf8_second4 b c \<Longrightarrow> utf8_cont c"
  unfolding utf8_second3_def utf8_second4_def utf8_cont_def
  by (auto split: if_splits elim: order_trans [rotated] order_trans)

lemma utf8_char_cases:
  assumes "utf8_char bs = Some n"
  obtains b r where "bs = b # r" "n = 1"
  | b c r where "bs = b # c # r" "n = 2" "utf8_cont c"
  | b c d r where "bs = b # c # d # r" "n = 3" "utf8_cont c" "utf8_cont d"
  | b c d e r where "bs = b # c # d # e # r" "n = 4" "utf8_cont c" "utf8_cont d" "utf8_cont e"
  using assms unfolding utf8_char_def
  by (auto split: list.splits if_splits dest: utf8_second_cont)

lemma utf8_char_prefix:
  assumes "utf8_char bs = Some n"
  shows "utf8_char (take n bs @ t) = Some n"
  using assms
proof (rule utf8_char_cases)
  fix b r assume "bs = b # r" "n = 1"
  with assms show ?thesis by (simp add: utf8_char_def split: if_splits list.splits)
next
  fix b c r assume "bs = b # c # r" "n = 2"
  with assms show ?thesis by (simp add: utf8_char_def split: if_splits list.split_asm)
next
  fix b c d r assume "bs = b # c # d # r" "n = 3"
  with assms show ?thesis by (simp add: utf8_char_def split: if_splits list.split_asm)
next
  fix b c d e r assume "bs = b # c # d # e # r" "n = 4"
  with assms show ?thesis by (auto simp: utf8_char_def split: if_splits list.split_asm)
qed

lemma utf8_char_take:
  "utf8_char bs = Some n \<Longrightarrow> n \<le> m \<Longrightarrow> utf8_char (take m bs) = Some n"
  using utf8_char_prefix [of bs n "drop n (take m bs)"]
  by (metis append_take_drop_id min.absorb1 take_take)

lemma utf8_char_append: "utf8_char xs = Some n \<Longrightarrow> utf8_char (xs @ ys) = Some n"
  using utf8_char_prefix [of xs n "drop n xs @ ys"] by (metis append.assoc append_take_drop_id)

lemma utf8_char_cont:
  assumes "utf8_char bs = Some n" and "0 < i" and "i < n"
  shows "utf8_cont (bs ! i)"
  using assms(1)
  by (rule utf8_char_cases) (use assms(2,3) in \<open>auto simp: nth_Cons' less_Suc_eq numeral_eq_Suc\<close>)

lemma utf8_char_ascii [simp]: "b < 128 \<Longrightarrow> utf8_char (b # bs) = Some 1"
  by (simp add: utf8_char_def)

lemma utf8_valid_Nil [simp]: "utf8_valid []"
  by (simp add: utf8_valid.simps)

lemma utf8_valid_ascii [simp]: "b < 128 \<Longrightarrow> utf8_valid (b # bs) \<longleftrightarrow> utf8_valid bs"
  by (subst utf8_valid.simps) simp

lemma utf8_valid_append: "utf8_valid xs \<Longrightarrow> utf8_valid ys \<Longrightarrow> utf8_valid (xs @ ys)"
proof (induction xs rule: utf8_valid.induct)
  case (1 xs)
  show ?case
  proof (cases "xs = []")
    case False
    with "1.prems"(1) obtain n where n: "utf8_char xs = Some n" "utf8_valid (drop n xs)"
      by (auto simp: utf8_valid.simps [of xs] split: option.splits)
    with utf8_char_bounds have len: "n \<le> length xs" by blast
    from n(1) have "utf8_char (xs @ ys) = Some n" by (rule utf8_char_append)
    with "1.IH" [OF n] "1.prems"(2) len False show ?thesis
      by (subst utf8_valid.simps) simp
  qed (use "1.prems" in simp)
qed

text \<open>Cutting a string at a character boundary leaves a string.\<close>

lemma utf8_valid_take:
  "utf8_valid s \<Longrightarrow> is_char_boundary s i \<Longrightarrow> utf8_valid (take i s)"
proof (induction s arbitrary: i rule: utf8_valid.induct)
  case (1 s)
  show ?case
  proof (cases "s = [] \<or> i = 0 \<or> i = length s")
    case True
    with "1.prems" show ?thesis by auto
  next
    case False
    with "1.prems" obtain n where n: "utf8_char s = Some n" "utf8_valid (drop n s)"
      by (auto simp: utf8_valid.simps [of s] split: option.splits)
    have i: "0 < i" "i < length s" "\<not> utf8_cont (s ! i)"
      using False "1.prems"(2) by (auto simp: is_char_boundary_def)
    have "n \<le> i"
      using utf8_char_cont [OF n(1) i(1)] i(3) by (meson not_le)
    moreover have "is_char_boundary (drop n s) (i - n)"
      using i \<open>n \<le> i\<close> by (auto simp: is_char_boundary_def)
    ultimately have "utf8_valid (drop n (take i s))"
      using "1.IH" n False by (simp add: drop_take)
    with utf8_char_take [OF n(1) \<open>n \<le> i\<close>] show ?thesis
      by (subst utf8_valid.simps) simp
  qed
qed

lemma floor_char_boundary_le: "floor_char_boundary s n \<le> n"
  by (induction n) auto

lemma floor_char_boundary_boundary: "is_char_boundary s (floor_char_boundary s n)"
  by (induction n) (auto simp: is_char_boundary_def)

lemma floor_char_boundary_greatest:
  "is_char_boundary s i \<Longrightarrow> i \<le> n \<Longrightarrow> i \<le> floor_char_boundary s n"
  by (induction n) (auto simp: le_Suc_eq)

end
