(* ===== verification/Abi.thy ===== *)
theory Abi
  imports Prelude Utf8
begin

text \<open>
  The system call interface, \<open>rustypi-abi/src/lib.rs\<close>: the address space layout, the call
  numbers, \<open>Syscall\<close> and its registers (\<open>encode\<close>, \<open>decode\<close>), \<open>Errno\<close>, the packing of a
  result into \<open>x0\<close>, \<open>ExitStatus\<close>, \<open>ScreenSize\<close> and \<open>DirEntry\<close>. The theorems are the
  round trips the two sides of the interface rely on, for every value and not only the samples
  of the unit tests, and what each decoder refuses.
\<close>

subsection \<open>Layout and limits\<close>

definition PAGE_SIZE :: nat where "PAGE_SIZE = 4096"
definition USER_BASE :: nat where "USER_BASE = 0x80000000"
definition USER_END :: nat where "USER_END = 0xC0000000"
definition STACK_TOP :: nat where "STACK_TOP = USER_END - PAGE_SIZE"
definition STACK_SIZE :: nat where "STACK_SIZE = 64 * 1024"
definition PROGRAM_END :: nat where "PROGRAM_END = STACK_TOP - STACK_SIZE - PAGE_SIZE"
definition MAX_WRITE :: nat where "MAX_WRITE = 256"
definition MAX_READ :: nat where "MAX_READ = 256"
definition MAX_PATH :: nat where "MAX_PATH = 256"
definition MAX_FILE :: nat where "MAX_FILE = 4 * 1024 * 1024"
definition MAX_HANDLES :: nat where "MAX_HANDLES = 16"
definition PIPE_CAPACITY :: nat where "PIPE_CAPACITY = 4096"

subsection \<open>Calls and registers\<close>

datatype number =
    NExit | NWrite | NYield | NSleep | NUptime | NMap | NRead | NRandom | NOpen | NOpenDir
  | NReadDir | NClose | NSpawn | NWait | NPipe | NOpenScreen | NDraw | NCreate | NRemove
  | NMakeDir | NChangeDir | NCurrentDir

fun number_raw :: "number \<Rightarrow> u64" where
  "number_raw NExit = 0" | "number_raw NWrite = 1" | "number_raw NYield = 2"
| "number_raw NSleep = 3" | "number_raw NUptime = 4" | "number_raw NMap = 5"
| "number_raw NRead = 6" | "number_raw NRandom = 7" | "number_raw NOpen = 8"
| "number_raw NOpenDir = 9" | "number_raw NReadDir = 10" | "number_raw NClose = 11"
| "number_raw NSpawn = 12" | "number_raw NWait = 13" | "number_raw NPipe = 14"
| "number_raw NOpenScreen = 15" | "number_raw NDraw = 16" | "number_raw NCreate = 17"
| "number_raw NRemove = 18" | "number_raw NMakeDir = 19" | "number_raw NChangeDir = 20"
| "number_raw NCurrentDir = 21"

definition from_raw :: "u64 \<Rightarrow> number option" where
  "from_raw raw =
     (if raw = 0 then Some NExit else if raw = 1 then Some NWrite
      else if raw = 2 then Some NYield else if raw = 3 then Some NSleep
      else if raw = 4 then Some NUptime else if raw = 5 then Some NMap
      else if raw = 6 then Some NRead else if raw = 7 then Some NRandom
      else if raw = 8 then Some NOpen else if raw = 9 then Some NOpenDir
      else if raw = 10 then Some NReadDir else if raw = 11 then Some NClose
      else if raw = 12 then Some NSpawn else if raw = 13 then Some NWait
      else if raw = 14 then Some NPipe else if raw = 15 then Some NOpenScreen
      else if raw = 16 then Some NDraw else if raw = 17 then Some NCreate
      else if raw = 18 then Some NRemove else if raw = 19 then Some NMakeDir
      else if raw = 20 then Some NChangeDir else if raw = 21 then Some NCurrentDir
      else None)"

datatype syscall =
    Exit (code: u32)  \<comment> \<open>an \<open>i32\<close>, by its bits\<close>
  | Write u64 u64 u64
  | Yield
  | Sleep u64
  | Uptime
  | Map u64
  | Read u64 u64 u64
  | Random u64 u64
  | Open u64 u64
  | OpenDir u64 u64
  | ReadDir u64 u64
  | Close u64
  | Spawn u64 u64 u64 u64 u64 u64
  | Wait u64
  | Pipe u64
  | OpenScreen u64
  | Draw u64 u64 u64 u64 u64 u64
  | Create u64 u64
  | Remove u64 u64
  | MakeDir u64 u64
  | ChangeDir u64 u64
  | CurrentDir u64 u64

type_synonym args6 = "u64 \<times> u64 \<times> u64 \<times> u64 \<times> u64 \<times> u64"

record registers =
  reg_number :: u64
  reg_args :: args6

fun syscall_number :: "syscall \<Rightarrow> number" where
  "syscall_number (Exit _) = NExit"
| "syscall_number (Write _ _ _) = NWrite"
| "syscall_number Yield = NYield"
| "syscall_number (Sleep _) = NSleep"
| "syscall_number Uptime = NUptime"
| "syscall_number (Map _) = NMap"
| "syscall_number (Read _ _ _) = NRead"
| "syscall_number (Random _ _) = NRandom"
| "syscall_number (Open _ _) = NOpen"
| "syscall_number (OpenDir _ _) = NOpenDir"
| "syscall_number (ReadDir _ _) = NReadDir"
| "syscall_number (Close _) = NClose"
| "syscall_number (Spawn _ _ _ _ _ _) = NSpawn"
| "syscall_number (Wait _) = NWait"
| "syscall_number (Pipe _) = NPipe"
| "syscall_number (OpenScreen _) = NOpenScreen"
| "syscall_number (Draw _ _ _ _ _ _) = NDraw"
| "syscall_number (Create _ _) = NCreate"
| "syscall_number (Remove _ _) = NRemove"
| "syscall_number (MakeDir _ _) = NMakeDir"
| "syscall_number (ChangeDir _ _) = NChangeDir"
| "syscall_number (CurrentDir _ _) = NCurrentDir"

fun encode_args :: "syscall \<Rightarrow> args6" where
  "encode_args (Exit c) = (scast c, 0, 0, 0, 0, 0)"
| "encode_args (Random ptr len) = (ptr, len, 0, 0, 0, 0)"
| "encode_args (Read handle ptr len) = (handle, ptr, len, 0, 0, 0)"
| "encode_args (Write handle ptr len) = (handle, ptr, len, 0, 0, 0)"
| "encode_args (Pipe ends) = (ends, 0, 0, 0, 0, 0)"
| "encode_args (OpenScreen sz) = (sz, 0, 0, 0, 0, 0)"
| "encode_args (Draw handle x y width height pixels) = (handle, x, y, width, height, pixels)"
| "encode_args (Open path len) = (path, len, 0, 0, 0, 0)"
| "encode_args (OpenDir path len) = (path, len, 0, 0, 0, 0)"
| "encode_args (Create path len) = (path, len, 0, 0, 0, 0)"
| "encode_args (Remove path len) = (path, len, 0, 0, 0, 0)"
| "encode_args (MakeDir path len) = (path, len, 0, 0, 0, 0)"
| "encode_args (ChangeDir path len) = (path, len, 0, 0, 0, 0)"
| "encode_args (CurrentDir buf len) = (buf, len, 0, 0, 0, 0)"
| "encode_args (ReadDir handle entry) = (handle, entry, 0, 0, 0, 0)"
| "encode_args (Close handle) = (handle, 0, 0, 0, 0, 0)"
| "encode_args (Wait handle) = (handle, 0, 0, 0, 0, 0)"
| "encode_args (Spawn path path_len args args_len input output) =
     (path, path_len, args, args_len, input, output)"
| "encode_args (Sleep micros) = (micros, 0, 0, 0, 0, 0)"
| "encode_args (Map len) = (len, 0, 0, 0, 0, 0)"
| "encode_args Yield = (0, 0, 0, 0, 0, 0)"
| "encode_args Uptime = (0, 0, 0, 0, 0, 0)"

definition encode :: "syscall \<Rightarrow> registers" where
  "encode c = \<lparr>reg_number = number_raw (syscall_number c), reg_args = encode_args c\<rparr>"

subsection \<open>Errors and results\<close>

datatype errno =
    NoSys | Invalid | Fault | NoMemory | NotFound | IsADirectory | NotADirectory | BadHandle
  | TooMany | Io | NotExecutable | BrokenPipe | NoDevice | Busy | NoSpace | Protected
  | AlreadyExists | NotEmpty | Unknown

fun errno_code :: "errno \<Rightarrow> u64" where
  "errno_code NoSys = 1" | "errno_code Invalid = 2" | "errno_code Fault = 3"
| "errno_code NoMemory = 4" | "errno_code NotFound = 5" | "errno_code IsADirectory = 6"
| "errno_code NotADirectory = 7" | "errno_code BadHandle = 8" | "errno_code TooMany = 9"
| "errno_code Io = 10" | "errno_code NotExecutable = 11" | "errno_code BrokenPipe = 12"
| "errno_code NoDevice = 13" | "errno_code Busy = 14" | "errno_code NoSpace = 15"
| "errno_code Protected = 16" | "errno_code AlreadyExists = 17" | "errno_code NotEmpty = 18"
| "errno_code Unknown = 4095"

definition from_code :: "u64 \<Rightarrow> errno" where
  "from_code c =
     (if c = 1 then NoSys else if c = 2 then Invalid else if c = 3 then Fault
      else if c = 4 then NoMemory else if c = 5 then NotFound else if c = 6 then IsADirectory
      else if c = 7 then NotADirectory else if c = 8 then BadHandle else if c = 9 then TooMany
      else if c = 10 then Io else if c = 11 then NotExecutable else if c = 12 then BrokenPipe
      else if c = 13 then NoDevice else if c = 14 then Busy else if c = 15 then NoSpace
      else if c = 16 then Protected else if c = 17 then AlreadyExists
      else if c = 18 then NotEmpty else Unknown)"

fun decode_number :: "number \<Rightarrow> args6 \<Rightarrow> (syscall, errno) result" where
  "decode_number NExit (a0, _) =
     (if - (2 ^ 31) \<le> sint a0 \<and> sint a0 < 2 ^ 31 then Ok (Exit (ucast a0)) else Err Invalid)"
| "decode_number NWrite (a0, a1, a2, _) = Ok (Write a0 a1 a2)"
| "decode_number NYield _ = Ok Yield"
| "decode_number NSleep (a0, _) = Ok (Sleep a0)"
| "decode_number NUptime _ = Ok Uptime"
| "decode_number NMap (a0, _) = Ok (Map a0)"
| "decode_number NRead (a0, a1, a2, _) = Ok (Read a0 a1 a2)"
| "decode_number NRandom (a0, a1, _) = Ok (Random a0 a1)"
| "decode_number NOpen (a0, a1, _) = Ok (Open a0 a1)"
| "decode_number NOpenDir (a0, a1, _) = Ok (OpenDir a0 a1)"
| "decode_number NReadDir (a0, a1, _) = Ok (ReadDir a0 a1)"
| "decode_number NClose (a0, _) = Ok (Close a0)"
| "decode_number NSpawn (a0, a1, a2, a3, a4, a5) = Ok (Spawn a0 a1 a2 a3 a4 a5)"
| "decode_number NWait (a0, _) = Ok (Wait a0)"
| "decode_number NPipe (a0, _) = Ok (Pipe a0)"
| "decode_number NOpenScreen (a0, _) = Ok (OpenScreen a0)"
| "decode_number NDraw (a0, a1, a2, a3, a4, a5) = Ok (Draw a0 a1 a2 a3 a4 a5)"
| "decode_number NCreate (a0, a1, _) = Ok (Create a0 a1)"
| "decode_number NRemove (a0, a1, _) = Ok (Remove a0 a1)"
| "decode_number NMakeDir (a0, a1, _) = Ok (MakeDir a0 a1)"
| "decode_number NChangeDir (a0, a1, _) = Ok (ChangeDir a0 a1)"
| "decode_number NCurrentDir (a0, a1, _) = Ok (CurrentDir a0 a1)"

definition decode :: "registers \<Rightarrow> (syscall, errno) result" where
  "decode r = result_bind (ok_or (from_raw (reg_number r)) NoSys) (\<lambda>n. decode_number n (reg_args r))"

definition MAX_RESULT :: u64 where "MAX_RESULT = 0x7FFFFFFFFFFFFFFF"

definition encode_result :: "(u64, errno) result \<Rightarrow> u64 option" where
  \<comment> \<open>\<open>None\<close>: the assertion that the value fits panics\<close>
  "encode_result r =
     (case r of
        Ok v \<Rightarrow> if v \<le> MAX_RESULT then Some v else None
      | Err e \<Rightarrow> Some (- errno_code e))"

definition decode_result :: "u64 \<Rightarrow> (u64, errno) result" where
  "decode_result x0 = (if x0 \<le> MAX_RESULT then Ok x0 else Err (from_code (- x0)))"

subsection \<open>Exit statuses\<close>

datatype exit_status = Code u32 | Crashed | Killed

fun status_encode :: "exit_status \<Rightarrow> u64" where
  "status_encode (Code c) = push_bit 32 0 OR ucast c"
| "status_encode Crashed = push_bit 32 1"
| "status_encode Killed = push_bit 32 2"

definition status_decode :: "u64 \<Rightarrow> exit_status option" where
  "status_decode v =
     (if drop_bit 32 v = 0 then Some (Code (ucast v))
      else if drop_bit 32 v = 1 \<and> (ucast v :: u32) = 0 then Some Crashed
      else if drop_bit 32 v = 2 \<and> (ucast v :: u32) = 0 then Some Killed
      else None)"

subsection \<open>Screen sizes and directory entries\<close>

record screen_size =
  width :: u32
  height :: u32

definition screen_bytes :: "screen_size \<Rightarrow> byte list" where
  "screen_bytes s = overwrite 4 (to_le 4 (height s)) (overwrite 0 (to_le 4 (width s)) (replicate 8 0))"

definition MAX_NAME :: nat where "MAX_NAME = 248"

record dir_entry =
  de_size :: u64
  de_name_len :: u16
  de_kind :: u8
  de_reserved :: "byte list"
  de_name :: "byte list"

definition dir_entry_empty :: dir_entry where
  "dir_entry_empty =
     \<lparr>de_size = 0, de_name_len = 0, de_kind = 0, de_reserved = replicate 5 0,
      de_name = replicate MAX_NAME 0\<rparr>"

definition dir_entry_new :: "rstr \<Rightarrow> bool \<Rightarrow> u64 \<Rightarrow> dir_entry" where
  "dir_entry_new name is_dir sz =
     (let len = floor_char_boundary name (min (length name) MAX_NAME);
          entry = dir_entry_empty\<lparr>de_size := sz, de_name_len := of_nat len,
                                  de_kind := (if is_dir then 1 else 0)\<rparr>
      in entry\<lparr>de_name := overwrite 0 (take len name) (de_name entry)\<rparr>)"

definition dir_entry_name :: "dir_entry \<Rightarrow> rstr" where
  "dir_entry_name e =
     (let s = take (min (unat (de_name_len e)) MAX_NAME) (de_name e)
      in if utf8_valid s then s else [])"

definition dir_entry_is_dir :: "dir_entry \<Rightarrow> bool" where
  "dir_entry_is_dir e \<longleftrightarrow> de_kind e = 1"

definition dir_entry_bytes :: "dir_entry \<Rightarrow> byte list" where
  \<comment> \<open>the \<open>repr(C)\<close> layout on the little-endian Pi, which has no padding\<close>
  "dir_entry_bytes e =
     to_le 8 (de_size e) @ to_le 2 (de_name_len e) @ [de_kind e] @ de_reserved e @ de_name e"


subsection \<open>Lemmas\<close>

lemma from_raw_number_raw [simp]: "from_raw (number_raw n) = Some n"
  by (cases n) (simp_all add: from_raw_def)

lemma from_raw_Some: "from_raw raw = Some n \<Longrightarrow> number_raw n = raw"
  by (auto simp: from_raw_def split: if_splits)

lemma from_raw_None: "from_raw raw = None \<longleftrightarrow> 21 < raw"
proof
  assume none: "from_raw raw = None"
  show "21 < raw"
  proof (rule ccontr)
    assume "\<not> 21 < raw"
    then have "unat raw < 22" by (simp add: word_le_nat_alt not_less)
    then obtain k :: nat where k: "raw = of_nat k" and "k < 22" 
      by (intro that [of "unat raw"]) simp_all
    then have "k = 0 \<or> k = 1 \<or> k = 2 \<or> k = 3 \<or> k = 4 \<or> k = 5 \<or> k = 6 \<or> k = 7 \<or> k = 8 \<or> k = 9
      \<or> k = 10 \<or> k = 11 \<or> k = 12 \<or> k = 13 \<or> k = 14 \<or> k = 15 \<or> k = 16 \<or> k = 17 \<or> k = 18 \<or> k = 19
      \<or> k = 20 \<or> k = 21"
      by presburger
    with none k show False by (elim disjE) (simp_all add: from_raw_def)
  qed
next
  assume "21 < raw"
  then show "from_raw raw = None" by (auto simp: from_raw_def)
qed

lemma sint_scast_bounds: "- (2 ^ 31) \<le> sint (scast (c :: u32) :: u64) \<and> sint (scast c :: u64) < 2 ^ 31"
  using sint_ge [of c] sint_lt [of c] by (simp add: sint_up_scast is_up)

lemma ucast_scast_u32 [simp]: "ucast (scast (c :: u32) :: u64) = c"
  by (rule bit_word_eqI) (simp add: bit_ucast_iff bit_word_scast_iff)

lemma decode_number_encode_args [simp]:
  "decode_number (syscall_number c) (encode_args c) = Ok c"
  using sint_scast_bounds by (cases c) simp_all

lemma errno_code_bounds: "1 \<le> errno_code e" "errno_code e \<le> 4095"
  by (cases e; simp)+

lemma from_code_errno_code [simp]: "from_code (errno_code e) = e"
  by (cases e) (simp_all add: from_code_def)

lemma neg_errno_code_big: "MAX_RESULT < - errno_code e"
  by (cases e) (simp_all add: MAX_RESULT_def)

lemma status_encode_fits: "status_encode s \<le> MAX_RESULT"
proof (cases s)
  case (Code c)
  have "unat (ucast c :: u64) < 2 ^ 32"
    by (simp add: unat_ucast_up)
  with Code show ?thesis by (simp add: MAX_RESULT_def word_le_nat_alt)
qed (simp_all add: MAX_RESULT_def)

lemma status_decode_encode [simp]: "status_decode (status_encode s) = Some s"
proof (cases s)
  case (Code c)
  have "drop_bit 32 (ucast c :: u64) = 0" "ucast (ucast c :: u64) = c"
    by (rule bit_word_eqI; auto simp: bit_simps dest: bit_imp_le_length)+
  with Code show ?thesis by (simp add: status_decode_def)
qed (simp_all add: status_decode_def)

lemma length_de_name_new [simp]: "length (de_name (dir_entry_new name d sz)) = MAX_NAME"
proof -
  let ?len = "floor_char_boundary name (min (length name) MAX_NAME)"
  have "?len \<le> min (length name) MAX_NAME" by (rule floor_char_boundary_le)
  then show ?thesis
    by (simp add: dir_entry_new_def dir_entry_empty_def Let_def overwrite_def)
qed

lemma dir_entry_name_new:
  assumes "utf8_valid name"
  shows "dir_entry_name (dir_entry_new name d sz) =
         take (floor_char_boundary name (min (length name) MAX_NAME)) name"
proof -
  let ?len = "floor_char_boundary name (min (length name) MAX_NAME)"
  have len: "?len \<le> length name" "?len \<le> 248"
    using floor_char_boundary_le [of name "min (length name) MAX_NAME"] by (auto simp: MAX_NAME_def)
  then have "unat (of_nat ?len :: u16) = ?len"
    by (simp add: unat_of_nat)
  moreover have "utf8_valid (take ?len name)"
    using assms floor_char_boundary_boundary by (rule utf8_valid_take)
  ultimately show ?thesis
    using len by (simp add: dir_entry_name_def dir_entry_new_def dir_entry_empty_def MAX_NAME_def
        overwrite_def Let_def)
qed

subsection \<open>Properties\<close>

text \<open>C32: every system call survives the trip through the registers: the kernel decodes
  exactly the call the program encoded, for all arguments, and nothing else encodes to the same
  registers.\<close>
theorem decode_encode: "decode (encode c) = Ok c"
  by (simp add: decode_def encode_def)

text \<open>C33: what the kernel refuses: \<open>NoSys\<close> for exactly the numbers above the last call,
  \<open>Invalid\<close> for exactly an \<open>Exit\<close> whose register is no sign-extended \<open>i32\<close>, and no
  other error. A call that is decoded has the number that was asked for.\<close>
theorem decode_refusals:
  "(decode r = Err NoSys \<longleftrightarrow> 21 < reg_number r) \<and>
   (decode r = Err Invalid \<longleftrightarrow>
      reg_number r = 0 \<and> \<not> (- (2 ^ 31) \<le> sint (fst (reg_args r)) \<and> sint (fst (reg_args r)) < 2 ^ 31)) \<and>
   (\<forall>e. decode r = Err e \<longrightarrow> e = NoSys \<or> e = Invalid) \<and>
   (\<forall>c. decode r = Ok c \<longrightarrow> number_raw (syscall_number c) = reg_number r)"
proof (cases "from_raw (reg_number r)")
  case None
  then have "decode r = Err NoSys" by (simp add: decode_def)
  moreover from None have "21 < reg_number r" by (simp add: from_raw_None)
  ultimately show ?thesis by auto
next
  case (Some n)
  then have "number_raw n = reg_number r" "\<not> 21 < reg_number r"
    by (auto dest: from_raw_Some simp flip: from_raw_None)
  moreover have "decode r = decode_number n (reg_args r)"
    using Some by (simp add: decode_def)
  moreover obtain a0 a1 a2 a3 a4 a5 where "reg_args r = (a0, a1, a2, a3, a4, a5)"
    by (cases "reg_args r") auto
  ultimately show ?thesis by (cases n) auto
qed

theorem decode_refusals_witness:
  "decode \<lparr>reg_number = 22, reg_args = (0, 0, 0, 0, 0, 0)\<rparr> = Err NoSys
   \<and> decode \<lparr>reg_number = 0, reg_args = (0x80000000, 0, 0, 0, 0, 0)\<rparr> = Err Invalid
   \<and> number_raw (syscall_number (Sleep 5)) = reg_number (encode (Sleep 5))"
  using decode_refusals [of "\<lparr>reg_number = 22, reg_args = (0, 0, 0, 0, 0, 0)\<rparr>"]
    decode_refusals [of "\<lparr>reg_number = 0, reg_args = (0x80000000, 0, 0, 0, 0, 0)\<rparr>"]
    decode_refusals [of "encode (Sleep 5)"]
  by (simp add: encode_def)

text \<open>the packing of results into \<open>x0\<close>: every result but an oversized value is packed,
  and unpacks to itself; an oversized value is a kernel bug and panics. An exit status packs into
  a value that fits, and comes back as itself.\<close>
theorem results_roundtrip:
  "map_option decode_result (encode_result r) =
     (case r of Ok v \<Rightarrow> if v \<le> MAX_RESULT then Some r else None | Err _ \<Rightarrow> Some r) \<and>
   map_option decode_result (encode_result (Ok (status_encode s))) = Some (Ok (status_encode s)) \<and>
   status_decode (status_encode s) = Some s"
  using neg_errno_code_big status_encode_fits
  by (auto simp: encode_result_def decode_result_def not_le [symmetric] split: result.splits)

text \<open>a directory entry keeps its name up to the longest whole-character prefix of at most
  \<open>MAX_NAME\<close> bytes, its kind and its size, and always fills the 264 bytes programs read.\<close>
theorem dir_entry_roundtrip:
  assumes "utf8_valid name"
  shows "(\<exists>n. dir_entry_name (dir_entry_new name d sz) = take n name
           \<and> n \<le> MAX_NAME \<and> n \<le> length name \<and> is_char_boundary name n
           \<and> (\<forall>i \<le> MAX_NAME. is_char_boundary name i \<longrightarrow> i \<le> n))
    \<and> dir_entry_is_dir (dir_entry_new name d sz) = d
    \<and> de_size (dir_entry_new name d sz) = sz
    \<and> length (dir_entry_bytes (dir_entry_new name d sz)) = 264"
proof -
  let ?n = "floor_char_boundary name (min (length name) MAX_NAME)"
  have "\<forall>i \<le> MAX_NAME. is_char_boundary name i \<longrightarrow> i \<le> ?n"
    by (auto simp: is_char_boundary_def intro!: floor_char_boundary_greatest)
  moreover have "?n \<le> MAX_NAME" "?n \<le> length name"
    using floor_char_boundary_le [of name "min (length name) MAX_NAME"] by auto
  ultimately have "\<exists>n. dir_entry_name (dir_entry_new name d sz) = take n name
           \<and> n \<le> MAX_NAME \<and> n \<le> length name \<and> is_char_boundary name n
           \<and> (\<forall>i \<le> MAX_NAME. is_char_boundary name i \<longrightarrow> i \<le> n)"
    using dir_entry_name_new [OF assms] floor_char_boundary_boundary by blast
  then show ?thesis
    by (simp add: dir_entry_bytes_def)
       (simp add: dir_entry_is_dir_def dir_entry_new_def dir_entry_empty_def Let_def MAX_NAME_def)
qed

theorem dir_entry_roundtrip_witness:
  "dir_entry_is_dir (dir_entry_new [98, 105, 110] True 0)
   \<and> length (dir_entry_bytes (dir_entry_new [98, 105, 110] True 0)) = 264"
  using dir_entry_roundtrip [of "[98, 105, 110]" True 0] by simp

end
