(* ===== verification/Frames.thy ===== *)
theory Frames
  imports Prelude Abi
begin

text \<open>
  The physical page frame allocator, \<open>rustypi-core/src/frames.rs\<close>: one bit per 4KB frame in
  64-bit words, next-fit search over the words. The abstract view of the state is the set of
  allocated frame addresses; the theorems say that \<open>allocate\<close> and \<open>free\<close> are exactly "take one
  out of the free ones" and "give it back", with every error of \<open>free\<close> characterised. The trait
  \<open>FrameSource\<close> of \<open>paging.rs\<close>, through which address spaces use the allocator, is the
  locale \<open>frame_source\<close>, interpreted here on this allocator (as \<open>src/sys/memory.rs\<close> does).
\<close>

subsection \<open>The allocator\<close>

datatype frame_error = NotAFrame | NotAllocated

record frame_stats =
  fs_total :: nat
  fs_free :: nat

record frames =
  fr_base :: u64       \<comment> \<open>physical address of frame 0\<close>
  fr_count :: nat
  fr_used :: "u64 list" \<comment> \<open>bit \<open>n\<close> is set while frame \<open>n\<close> is allocated\<close>
  fr_free :: nat
  fr_next :: nat       \<comment> \<open>where the next search starts, in words\<close>

definition PAGE :: u64 where "PAGE = 4096"

definition next_multiple_of :: "u64 \<Rightarrow> u64 \<Rightarrow> u64" where
  "next_multiple_of x n = (if x mod n = 0 then x else x + (n - x mod n))"

definition saturating_sub :: "u64 \<Rightarrow> u64 \<Rightarrow> u64" where
  "saturating_sub x y = (if x < y then 0 else x - y)"

definition trailing_ones :: "u64 \<Rightarrow> nat" where
  "trailing_ones w = length (takeWhile (bit w) [0..<64])"

definition frames_new :: "u64 \<Rightarrow> u64 \<Rightarrow> frames" where
  "frames_new start end =
     (let base = next_multiple_of start PAGE;
          count = unat (saturating_sub end base div PAGE);
          used = replicate ((count + 63) div 64) 0;
          used = (if count mod 64 \<noteq> 0
                  then used[length used - 1 := push_bit (count mod 64) (- 1)] else used)
      in \<lparr>fr_base = base, fr_count = count, fr_used = used, fr_free = count, fr_next = 0\<rparr>)"

definition frames_find :: "frames \<Rightarrow> nat option" where
  \<comment> \<open>\<open>(0..words).map(|i| (self.next + i) % words).find(|&w| self.used[w] != !0)\<close>\<close>
  "frames_find f =
     (let words = length (fr_used f)
      in find (\<lambda>w. fr_used f ! w \<noteq> - 1) (map (\<lambda>i. (fr_next f + i) mod words) [0..<words]))"

definition frames_allocate :: "frames \<Rightarrow> (u64 \<times> frames) option" where
  "frames_allocate f =
     (case frames_find f of
        None \<Rightarrow> None
      | Some word \<Rightarrow>
          let bt = trailing_ones (fr_used f ! word)
          in Some (fr_base f + of_nat (word * 64 + bt) * PAGE,
                   f\<lparr>fr_used := (fr_used f)[word := fr_used f ! word OR push_bit bt 1],
                     fr_free := fr_free f - 1,
                     fr_next := word\<rparr>))"

definition frames_free :: "u64 \<Rightarrow> frames \<Rightarrow> (frames, frame_error) result" where
  "frames_free frame f =
     (if frame < fr_base f then Err NotAFrame
      else let offset = frame - fr_base f; n = unat (offset div PAGE)
        in if offset mod PAGE \<noteq> 0 \<or> n \<ge> fr_count f then Err NotAFrame
           else let word = n div 64; bt = n mod 64
             in if fr_used f ! word AND push_bit bt 1 = 0 then Err NotAllocated
                else Ok (f\<lparr>fr_used := (fr_used f)[word := fr_used f ! word AND NOT (push_bit bt 1)],
                           fr_free := fr_free f + 1\<rparr>))"

definition frames_stats :: "frames \<Rightarrow> frame_stats" where
  "frames_stats f = \<lparr>fs_total = fr_count f, fs_free = fr_free f\<rparr>"

text \<open>The kernel's \<open>FrameSource\<close>, \<open>PageFrames\<close> in \<open>src/sys/memory.rs\<close>: the allocator
  behind a lock, absent until \<open>init\<close>. Freeing panics (\<open>None\<close>) rather than report an error.\<close>

definition page_frames_allocate :: "frames option \<Rightarrow> (u64 \<times> frames option) option" where
  "page_frames_allocate slot =
     (case slot of None \<Rightarrow> None
      | Some f \<Rightarrow> map_option (\<lambda>(a, f'). (a, Some f')) (frames_allocate f))"

definition page_frames_free :: "u64 \<Rightarrow> frames option \<Rightarrow> frames option option" where
  "page_frames_free frame slot =
     (case slot of None \<Rightarrow> None
      | Some f \<Rightarrow> (case frames_free frame f of Ok f' \<Rightarrow> Some (Some f') | Err _ \<Rightarrow> None))"

definition page_frames_stats :: "frames option \<Rightarrow> frame_stats" where
  "page_frames_stats slot =
     (case slot of None \<Rightarrow> \<lparr>fs_total = 0, fs_free = 0\<rparr> | Some f \<Rightarrow> frames_stats f)"

fun release_all :: "(u64 \<Rightarrow> 's \<Rightarrow> 's option) \<Rightarrow> u64 list \<Rightarrow> 's \<Rightarrow> 's option" where
  \<comment> \<open>\<open>for frame in frames { source.free(frame) }\<close>, as dropping an address space does\<close>
  "release_all free [] s = Some s"
| "release_all free (a # as) s = (case free a s of None \<Rightarrow> None | Some s' \<Rightarrow> release_all free as s')"

subsection \<open>The abstract view and the invariant\<close>

definition frame_used :: "frames \<Rightarrow> nat \<Rightarrow> bool" where
  "frame_used f n \<longleftrightarrow> bit (fr_used f ! (n div 64)) (n mod 64)"

definition frame_addr :: "frames \<Rightarrow> nat \<Rightarrow> u64" where
  "frame_addr f n = fr_base f + of_nat n * PAGE"

definition frames_pool :: "frames \<Rightarrow> u64 set" where
  "frames_pool f = frame_addr f ` {..<fr_count f}"

definition frames_live :: "frames \<Rightarrow> u64 set" where
  "frames_live f = frame_addr f ` {n. n < fr_count f \<and> frame_used f n}"

definition frames_inv :: "frames \<Rightarrow> bool" where
  "frames_inv f \<longleftrightarrow>
     length (fr_used f) = (fr_count f + 63) div 64 \<and>
     (\<forall>n. fr_count f \<le> n \<longrightarrow> n < 64 * length (fr_used f) \<longrightarrow> frame_used f n) \<and>
     fr_free f = card {n. n < fr_count f \<and> \<not> frame_used f n} \<and>
     fr_base f mod PAGE = 0 \<and>
     unat (fr_base f) + fr_count f * 4096 \<le> 2 ^ 48"

subsection \<open>Lemmas\<close>

lemma trailing_ones_less:
  assumes "w \<noteq> - 1"
  shows "trailing_ones w < 64"
proof -
  have "\<exists>i<64. \<not> bit w i"
  proof (rule ccontr)
    assume "\<not> (\<exists>i<64. \<not> bit w i)"
    then have "w = - 1" by (intro bit_word_eqI) simp
    with assms show False ..
  qed
  then have "length (takeWhile (bit w) [0..<64]) < length [0..<64]"
    using length_takeWhile_le [of "bit w" "[0..<64]"] takeWhile_eq_all_conv [of "bit w" "[0..<64]"]
    by (metis atLeastLessThan_iff le_neq_implies_less length_takeWhile_le set_upt takeWhile_eq_take
        take_all_iff order_refl zero_le)
  then show ?thesis by (simp add: trailing_ones_def)
qed

lemma trailing_ones_not_bit: "w \<noteq> - 1 \<Longrightarrow> \<not> bit w (trailing_ones w)"
  using trailing_ones_less [of w] nth_length_takeWhile [of "bit w" "[0..<64]"]
  by (simp add: trailing_ones_def)


lemma frames_find_Some:
  "frames_find f = Some w \<Longrightarrow> w < length (fr_used f) \<and> fr_used f ! w \<noteq> - 1"
  by (auto simp: frames_find_def Let_def find_Some_iff intro!: mod_less_divisor)

lemma frames_find_None:
  "frames_find f = None \<longleftrightarrow> (\<forall>w < length (fr_used f). fr_used f ! w = - 1)"
  using rotated_range [of "length (fr_used f)" "fr_next f"]
  by (cases "length (fr_used f) = 0") (auto simp: frames_find_def Let_def find_None_iff)

lemma frame_used_update:
  assumes "w < length (fr_used f)"
  shows "frame_used (f\<lparr>fr_used := (fr_used f)[w := v]\<rparr>) n =
     (if n div 64 = w then bit v (n mod 64) else frame_used f n)"
  using assms by (auto simp: frame_used_def nth_list_update)

lemma frame_used_cong [simp]:
  "frame_used (f\<lparr>fr_free := x\<rparr>) = frame_used f"
  "frame_used (f\<lparr>fr_next := y\<rparr>) = frame_used f"
  by (auto simp: frame_used_def fun_eq_iff)

lemma bit_mask_one: "b < 64 \<Longrightarrow> bit (2 ^ b :: u64) i \<longleftrightarrow> i = b"
  by (auto simp: bit_exp_iff)

lemma and_mask_zero: "b < 64 \<Longrightarrow> (w :: u64) AND push_bit b 1 = 0 \<longleftrightarrow> \<not> bit w b"
  by (metis and_exp_eq_0_iff_not_bit push_bit_of_1)

lemma frame_addr_unat:
  assumes "frames_inv f" and "n \<le> fr_count f"
  shows "unat (frame_addr f n) = unat (fr_base f) + n * 4096"
proof -
  have "unat (fr_base f) + n * 4096 < 2 ^ 64"
    using assms mult_le_mono1 [OF assms(2), of 4096] by (simp add: frames_inv_def)
  then show ?thesis
    by (simp add: frame_addr_def PAGE_def unat_word_ariths unat_of_nat)
qed

lemma frame_addr_inj:
  "frames_inv f \<Longrightarrow> inj_on (frame_addr f) {..fr_count f}"
  by (rule inj_onI) (metis frame_addr_unat add_left_cancel atMost_iff mult_cancel2 zero_neq_numeral)

lemma frames_live_addr:
  "frames_inv f \<Longrightarrow> n < fr_count f \<Longrightarrow> frame_addr f n \<in> frames_live f \<longleftrightarrow> frame_used f n"
  unfolding frames_live_def
  by (subst inj_on_image_mem_iff [OF frame_addr_inj]) auto

lemma frames_allocate_cases:
  assumes inv: "frames_inv f" and alloc: "frames_allocate f = Some (a, f')"
  obtains n where "n < fr_count f" "\<not> frame_used f n" "a = frame_addr f n"
    "f' = f\<lparr>fr_used := fr_used f', fr_free := fr_free f - 1, fr_next := fr_next f'\<rparr>"
    "length (fr_used f') = length (fr_used f)"
    "\<And>m. frame_used f' m \<longleftrightarrow> frame_used f m \<or> m = n"
proof -
  obtain w where w: "frames_find f = Some w"
    using alloc by (auto simp: frames_allocate_def split: option.splits)
  define b where "b = trailing_ones (fr_used f ! w)"
  from frames_find_Some [OF w] have wl: "w < length (fr_used f)" and nf: "fr_used f ! w \<noteq> - 1"
    by auto
  from nf have b: "b < 64" "\<not> bit (fr_used f ! w) b"
    unfolding b_def by (rule trailing_ones_less, rule trailing_ones_not_bit)
  have eqs: "a = frame_addr f (w * 64 + b)"
    "f' = f\<lparr>fr_used := (fr_used f)[w := fr_used f ! w OR push_bit b 1],
            fr_free := fr_free f - 1, fr_next := w\<rparr>"
    using alloc w by (auto simp: frames_allocate_def frame_addr_def b_def Let_def)
  show thesis
  proof (rule that [of "w * 64 + b"])
    show nu: "\<not> frame_used f (w * 64 + b)"
      using b by (simp add: frame_used_def)
    have "w * 64 + b < 64 * length (fr_used f)"
      using wl b(1) by linarith
    with nu inv show "w * 64 + b < fr_count f"
      unfolding frames_inv_def by (meson not_le)
    show "frame_used f' m \<longleftrightarrow> frame_used f m \<or> m = w * 64 + b" for m
    proof -
      have "m = w * 64 + b \<longleftrightarrow> m div 64 = w \<and> m mod 64 = b"
        using b(1) by auto
      then show ?thesis
        using b(1) wl by (auto simp: eqs frame_used_def nth_list_update bit_or_iff bit_mask_one)
    qed
  qed (use eqs in simp_all)
qed

lemma frame_used_free_card:
  assumes "n < c" and "\<not> U n" and "\<And>m. U' m \<longleftrightarrow> U m \<or> m = n"
  shows "Suc (card {m. m < c \<and> \<not> U' m}) = card {m. m < (c :: nat) \<and> \<not> U m}"
proof -
  have "{m. m < c \<and> \<not> U m} = insert n {m. m < c \<and> \<not> U' m}"
    using assms by auto
  with assms show ?thesis by simp
qed

lemma frames_allocate_inv:
  assumes inv: "frames_inv f" and alloc: "frames_allocate f = Some (a, f')"
  shows "frames_inv f' \<and> a \<in> frames_pool f - frames_live f \<and> frames_live f' = insert a (frames_live f)
     \<and> frames_pool f' = frames_pool f \<and> fr_count f' = fr_count f \<and> Suc (fr_free f') = fr_free f"
proof (rule frames_allocate_cases [OF assms])
  fix n
  assume n: "n < fr_count f" "\<not> frame_used f n" "a = frame_addr f n"
    and f': "f' = f\<lparr>fr_used := fr_used f', fr_free := fr_free f - 1, fr_next := fr_next f'\<rparr>"
    and len: "length (fr_used f') = length (fr_used f)"
    and used: "\<And>m. frame_used f' m \<longleftrightarrow> frame_used f m \<or> m = n"
  have same: "fr_count f' = fr_count f" "fr_base f' = fr_base f" "fr_free f' = fr_free f - 1"
    by (subst f', simp)+
  then have addr: "frame_addr f' = frame_addr f" by (simp add: frame_addr_def fun_eq_iff)
  have card: "Suc (card {m. m < fr_count f \<and> \<not> frame_used f' m}) =
      card {m. m < fr_count f \<and> \<not> frame_used f m}"
    by (rule frame_used_free_card [OF n(1,2) used])
  have "{m. m < fr_count f \<and> frame_used f' m} = insert n {m. m < fr_count f \<and> frame_used f m}"
    using n(1) by (auto simp: used)
  then have "frames_live f' = insert a (frames_live f)"
    by (simp add: frames_live_def same addr n(3))
  moreover have "frames_inv f'"
    using inv card by (auto simp: frames_inv_def same len used)
  moreover have "a \<in> frames_pool f - frames_live f"
    using n inv by (auto simp: frames_pool_def frames_live_addr)
  moreover have "Suc (fr_free f') = fr_free f"
    using inv card by (simp add: frames_inv_def same)
  ultimately show ?thesis by (simp add: frames_pool_def same addr)
qed

lemma frames_allocate_None_iff:
  assumes inv: "frames_inv f"
  shows "frames_allocate f = None \<longleftrightarrow> fr_free f = 0"
proof
  assume "frames_allocate f = None"
  then have "frames_find f = None"
    by (auto simp: frames_allocate_def Let_def split: option.splits)
  then have full: "\<forall>w < length (fr_used f). fr_used f ! w = - 1" by (simp add: frames_find_None)
  have "frame_used f n" if "n < fr_count f" for n
    using full that inv by (simp add: frame_used_def frames_inv_def)
  then show "fr_free f = 0" using inv by (simp add: frames_inv_def)
next
  assume "fr_free f = 0"
  show "frames_allocate f = None"
  proof (rule ccontr)
    assume "frames_allocate f \<noteq> None"
    then obtain a f' where "frames_allocate f = Some (a, f')" by auto
    with frames_allocate_inv [OF inv this] \<open>fr_free f = 0\<close> show False by simp
  qed
qed

lemma frame_addr_offset:
  assumes inv: "frames_inv f" and "n < fr_count f"
  shows "\<not> frame_addr f n < fr_base f" "(frame_addr f n - fr_base f) mod PAGE = 0"
    "unat ((frame_addr f n - fr_base f) div PAGE) = n"
proof -
  have addr: "unat (frame_addr f n) = unat (fr_base f) + n * 4096"
    using assms by (simp add: frame_addr_unat)
  then have le: "fr_base f \<le> frame_addr f n" by (simp add: word_le_nat_alt)
  then have off: "unat (frame_addr f n - fr_base f) = n * 4096"
    using addr by (simp add: unat_sub)
  show "\<not> frame_addr f n < fr_base f" using le by simp
  show "unat ((frame_addr f n - fr_base f) div PAGE) = n"
    by (simp add: unat_div off PAGE_def)
  have "unat ((frame_addr f n - fr_base f) mod PAGE) = 0"
    by (simp add: unat_mod off PAGE_def)
  then show "(frame_addr f n - fr_base f) mod PAGE = 0"
    by (simp add: unat_eq_0)
qed

lemma frames_pool_iff:
  assumes inv: "frames_inv f"
  shows "a \<in> frames_pool f \<longleftrightarrow> \<not> a < fr_base f \<and> (a - fr_base f) mod PAGE = 0
     \<and> unat ((a - fr_base f) div PAGE) < fr_count f"
proof
  assume "a \<in> frames_pool f"
  with frame_addr_offset [OF inv] show "\<not> a < fr_base f \<and> (a - fr_base f) mod PAGE = 0
     \<and> unat ((a - fr_base f) div PAGE) < fr_count f"
    by (auto simp: frames_pool_def)
next
  assume a: "\<not> a < fr_base f \<and> (a - fr_base f) mod PAGE = 0
     \<and> unat ((a - fr_base f) div PAGE) < fr_count f"
  have "a = fr_base f + ((a - fr_base f) div PAGE * PAGE + (a - fr_base f) mod PAGE)"
    by (simp only: div_mult_mod_eq) simp
  with a have "a = frame_addr f (unat ((a - fr_base f) div PAGE))"
    by (simp add: frame_addr_def)
  with a show "a \<in> frames_pool f" by (auto simp: frames_pool_def)
qed

lemma frames_free_Err:
  assumes "frames_inv f"
  shows "a \<notin> frames_pool f \<Longrightarrow> frames_free a f = Err NotAFrame"
    and "a \<in> frames_pool f - frames_live f \<Longrightarrow> frames_free a f = Err NotAllocated"
proof -
  assume "a \<notin> frames_pool f"
  then show "frames_free a f = Err NotAFrame"
    by (auto simp: frames_free_def Let_def frames_pool_iff [OF assms])
next
  assume a: "a \<in> frames_pool f - frames_live f"
  then obtain n where n: "n < fr_count f" "a = frame_addr f n" by (auto simp: frames_pool_def)
  with a assms have "\<not> frame_used f n" by (simp add: frames_live_addr)
  then show "frames_free a f = Err NotAllocated"
    using n frame_addr_offset [OF assms n(1)]
    by (simp add: frames_free_def Let_def frame_used_def and_exp_eq_0_iff_not_bit)
qed

lemma frames_free_Ok:
  assumes inv: "frames_inv f" and live: "a \<in> frames_live f"
  obtains f' where "frames_free a f = Ok f'" "frames_inv f'" "frames_live f' = frames_live f - {a}"
    "frames_pool f' = frames_pool f" "fr_count f' = fr_count f" "fr_free f' = Suc (fr_free f)"
proof -
  obtain n where n: "n < fr_count f" "frame_used f n" "a = frame_addr f n"
    using live by (auto simp: frames_live_def)
  define f' where "f' = f\<lparr>fr_used := (fr_used f)[n div 64 := fr_used f ! (n div 64) AND NOT (2 ^ (n mod 64))],
                           fr_free := fr_free f + 1\<rparr>"
  have len: "n div 64 < length (fr_used f)" using n(1) inv by (simp add: frames_inv_def)
  have ok: "frames_free a f = Ok f'"
    using n frame_addr_offset [OF inv n(1)]
    by (simp add: frames_free_def Let_def frame_used_def f'_def and_exp_eq_0_iff_not_bit)
  have split: "m = n \<longleftrightarrow> m div 64 = n div 64 \<and> m mod 64 = n mod 64" for m
    by (metis div_mult_mod_eq)
  have used: "frame_used f m \<longleftrightarrow> frame_used f' m \<or> m = n" for m
    using len n(2) unfolding split
    by (auto simp: f'_def frame_used_def nth_list_update bit_and_iff bit_not_iff bit_mask_one
        dest: bit_imp_le_length)
  have nu: "\<not> frame_used f' n"
    using len by (simp add: f'_def frame_used_def bit_and_iff bit_not_iff bit_mask_one)
  have same: "fr_count f' = fr_count f" "frame_addr f' = frame_addr f" "fr_free f' = Suc (fr_free f)"
    "length (fr_used f') = length (fr_used f)" "fr_base f' = fr_base f"
    by (simp_all add: f'_def frame_addr_def fun_eq_iff)
  have "Suc (card {m. m < fr_count f \<and> \<not> frame_used f m}) = card {m. m < fr_count f \<and> \<not> frame_used f' m}"
    by (rule frame_used_free_card [OF n(1) nu used])
  with inv used n(1) have inv': "frames_inv f'"
    unfolding frames_inv_def same by (metis not_le)
  have "{m. m < fr_count f \<and> frame_used f' m} = {m. m < fr_count f \<and> frame_used f m} - {n}"
    using used nu by auto
  moreover have "frame_addr f ` ({m. m < fr_count f \<and> frame_used f m} - {n}) =
      frame_addr f ` {m. m < fr_count f \<and> frame_used f m} - frame_addr f ` {n}"
    by (rule inj_on_image_set_diff [OF frame_addr_inj [OF inv]]) (use n(1) in auto)
  ultimately have "frames_live f' = frames_live f - {a}"
    by (simp add: frames_live_def same n(3))
  with ok inv' show thesis
    by (rule that) (simp_all add: frames_pool_def same)
qed

lemma next_multiple_of_page:
  assumes "unat start \<le> 2 ^ 48"
  shows "next_multiple_of start PAGE mod PAGE = 0"
    and "unat (next_multiple_of start PAGE) = (unat start + 4095) div 4096 * 4096"
proof -
  let ?r = "unat start mod 4096"
  have r: "unat (start mod PAGE) = ?r" by (simp add: unat_mod PAGE_def)
  have up: "unat (next_multiple_of start PAGE) = (unat start + 4095) div 4096 * 4096"
  proof (cases "?r = 0")
    case True
    then show ?thesis
      using r by (auto simp: next_multiple_of_def unat_eq_0 [symmetric])
  next
    case False
    have "start mod PAGE \<le> PAGE" using r by (simp add: word_le_nat_alt PAGE_def)
    then have "unat (PAGE - start mod PAGE) = 4096 - ?r" using r by (simp add: unat_sub PAGE_def)
    moreover have "unat start + (4096 - ?r) < 2 ^ 64" using assms by simp
    ultimately have "unat (start + (PAGE - start mod PAGE)) = unat start + (4096 - ?r)"
      by (simp add: unat_word_ariths)
    also have "unat start + (4096 - ?r) = Suc (unat start div 4096) * 4096"
    proof -
      have "?r < 4096" by simp
      then show ?thesis
        using div_mult_mod_eq [of "unat start" 4096] unfolding mult_Suc by linarith
    qed
    also have "\<dots> = (unat start + 4095) div 4096 * 4096"
      using div_round_up [of 4096 "unat start"] False by simp
    finally show ?thesis
      using False r by (auto simp: next_multiple_of_def unat_eq_0 [symmetric])
  qed
  then show "unat (next_multiple_of start PAGE) = (unat start + 4095) div 4096 * 4096" .
  have "unat (next_multiple_of start PAGE mod PAGE) = 0"
    using up by (simp add: unat_mod PAGE_def)
  then show "next_multiple_of start PAGE mod PAGE = 0" by (simp add: unat_eq_0)
qed

lemma frame_used_new:
  assumes "n < 64 * length (fr_used (frames_new start end))"
  shows "frame_used (frames_new start end) n \<longleftrightarrow> fr_count (frames_new start end) \<le> n"
proof -
  define c where "c = fr_count (frames_new start end)"
  define us where "us = replicate ((c + 63) div 64) (0 :: u64)"
  have used: "fr_used (frames_new start end) =
      (if c mod 64 \<noteq> 0 then us[length us - 1 := push_bit (c mod 64) (- 1)] else us)"
    by (simp add: frames_new_def c_def us_def Let_def)
  have n: "n < 64 * ((c + 63) div 64)"
    using assms by (auto simp: used us_def split: if_splits)
  have us: "length us = (c + 63) div 64" "k < length us \<Longrightarrow> us ! k = 0" for k
    by (simp_all add: us_def)
  have last: "c mod 64 \<noteq> 0 \<Longrightarrow> (c + 63) div 64 = Suc (c div 64)"
    using div_round_up [of 64 c] by simp
  show ?thesis
  proof (cases "c mod 64 \<noteq> 0 \<and> n div 64 = c div 64")
    case True
    then have "c \<le> n \<longleftrightarrow> c mod 64 \<le> n mod 64"
      by (metis add_le_cancel_left mult_div_mod_eq)
    with True show ?thesis
      by (simp add: frame_used_def used us(1) last bit_not_iff bit_mask_iff not_less flip: c_def)
  next
    case False
    have "n < c \<and> (c mod 64 \<noteq> 0 \<longrightarrow> n div 64 < c div 64)"
    proof (cases "c mod 64 = 0")
      case True
      then have "(c + 63) div 64 = c div 64" using div_round_up_exact [of 64 c] by simp
      with n True show ?thesis using div_mult_mod_eq [of c 64] by simp
    next
      case nz: False
      then have "n < Suc (c div 64) * 64" using n last by simp
      then have "n div 64 < Suc (c div 64)" by (rule less_mult_imp_div_less)
      with False nz have less: "n div 64 < c div 64" by simp
      then have "n < c" by (meson div_le_mono linorder_not_less)
      with less show ?thesis by simp
    qed
    then show ?thesis
      using us by (auto simp: frame_used_def used last nth_list_update simp flip: c_def)
  qed
qed

lemma frames_new_fields:
  assumes "unat start \<le> 2 ^ 48"
  shows "unat (fr_base (frames_new start end)) = (unat start + 4095) div 4096 * 4096"
    and "fr_base (frames_new start end) mod PAGE = 0"
    and "fr_count (frames_new start end) = (unat end - unat (fr_base (frames_new start end))) div 4096"
    and "length (fr_used (frames_new start end)) = (fr_count (frames_new start end) + 63) div 64"
    and "fr_free (frames_new start end) = fr_count (frames_new start end)"
proof -
  let ?b = "next_multiple_of start PAGE"
  have "unat (saturating_sub end ?b div PAGE) = (unat end - unat ?b) div 4096"
  proof (cases "end < ?b")
    case True
    then have "unat end - unat ?b = 0" by (simp add: word_less_nat_alt)
    with True show ?thesis by (simp add: saturating_sub_def)
  next
    case False
    then have "unat (end - ?b) = unat end - unat ?b" by (simp add: unat_sub not_less)
    with False show ?thesis by (simp add: saturating_sub_def unat_div PAGE_def)
  qed
  then show "fr_count (frames_new start end) = (unat end - unat (fr_base (frames_new start end))) div 4096"
    by (simp add: frames_new_def Let_def)
qed (use next_multiple_of_page [OF assms] in \<open>simp_all add: frames_new_def Let_def\<close>)

lemma frame_unused_new:
  assumes "unat start \<le> 2 ^ 48" and "n < fr_count (frames_new start end)"
  shows "\<not> frame_used (frames_new start end) n"
proof -
  have "n < 64 * length (fr_used (frames_new start end))"
    using assms frames_new_fields(4) [OF assms(1)] by simp
  then show ?thesis using assms(2) by (simp add: frame_used_new)
qed

lemma whole_pages:
  assumes k: "k = (s + 4095) div 4096"
  shows "(\<lambda>n. k * 4096 + n * 4096) ` {..<(e - k * 4096) div 4096} =
   {p :: nat. p mod 4096 = 0 \<and> s \<le> p \<and> p + 4096 \<le> e}" (is "?L = ?R")
proof (intro equalityI subsetI)
  have low: "s \<le> k * 4096" using div_round_up_le [of 4096 s] by (simp add: k)
  fix p assume "p \<in> ?L"
  then obtain n where p: "p = k * 4096 + n * 4096" and "n < (e - k * 4096) div 4096" by auto
  then have "Suc n * 4096 \<le> e - k * 4096"
    by (metis Suc_leI less_eq_div_iff_mult_less_eq zero_less_numeral)
  then have "k * 4096 + Suc n * 4096 \<le> e" unfolding mult_Suc by linarith
  with low show "p \<in> ?R" using p by simp
next
  fix p assume "p \<in> ?R"
  then obtain j where j: "p = j * 4096" "s \<le> j * 4096" "j * 4096 + 4096 \<le> e"
    by (auto simp: mod_eq_0_iff_dvd elim!: dvdE)
  then have kj: "k \<le> j" using div_round_up_least [of 4096 s j] by (simp add: k)
  with j have "Suc (j - k) * 4096 \<le> e - k * 4096" by (simp add: diff_mult_distrib)
  then have "j - k < (e - k * 4096) div 4096"
    by (metis Suc_le_lessD less_eq_div_iff_mult_less_eq zero_less_numeral)
  with j(1) kj show "p \<in> ?L"
    by (intro image_eqI [where x = "j - k"]) (auto simp flip: add_mult_distrib)
qed

lemma frames_new_inv:
  assumes "unat start \<le> 2 ^ 48" and "unat end \<le> 2 ^ 48"
  shows "frames_inv (frames_new start end) \<and> frames_live (frames_new start end) = {}"
proof
  let ?f = "frames_new start end"
  note fields = frames_new_fields [OF assms(1), of "end"]
  show "frames_live ?f = {}"
    using frame_unused_new [OF assms(1)] by (auto simp: frames_live_def)
  have "{n. n < fr_count ?f \<and> \<not> frame_used ?f n} = {..<fr_count ?f}"
    using frame_unused_new [OF assms(1)] by auto
  moreover have "unat (fr_base ?f) + fr_count ?f * 4096 \<le> 2 ^ 48"
  proof (cases "unat (fr_base ?f) \<le> unat end")
    case True
    have "fr_count ?f * 4096 \<le> unat end - unat (fr_base ?f)"
      by (simp add: fields(3))
    with True assms(2) show ?thesis by linarith
  next
    case False
    then have "fr_count ?f = 0" by (simp add: fields(3))
    moreover have "(unat start + 4095) div 4096 * 4096 \<le> 2 ^ 48" using assms(1) by simp
    ultimately show ?thesis by (simp add: fields(1))
  qed
  ultimately show "frames_inv ?f"
    unfolding frames_inv_def
    by (intro conjI allI impI fields(2,4)) (simp_all add: fields(5) frame_used_new)
qed

subsection \<open>The interface: \<open>FrameSource\<close>\<close>

text \<open>What an address space relies on: a frame it gets is page aligned, within the 48 bits a
  descriptor has for it, and nobody else's; a frame it has can be given back.\<close>

locale frame_source =
  fixes allocate :: "'s \<Rightarrow> (u64 \<times> 's) option"
    and free :: "u64 \<Rightarrow> 's \<Rightarrow> 's option"
    and live :: "'s \<Rightarrow> u64 set"
    and inv :: "'s \<Rightarrow> bool"
  assumes allocate_fresh: "inv s \<Longrightarrow> allocate s = Some (a, s') \<Longrightarrow>
      inv s' \<and> a \<notin> live s \<and> live s' = insert a (live s)"
    and live_frame: "inv s \<Longrightarrow> a \<in> live s \<Longrightarrow> unat a mod 4096 = 0 \<and> unat a + 4096 \<le> 2 ^ 48"
    and free_live: "inv s \<Longrightarrow> a \<in> live s \<Longrightarrow>
      \<exists>s'. free a s = Some s' \<and> inv s' \<and> live s' = live s - {a}"
begin

lemma allocate_frame:
  "inv s \<Longrightarrow> allocate s = Some (a, s') \<Longrightarrow> unat a mod 4096 = 0 \<and> unat a + 4096 \<le> 2 ^ 48"
  using allocate_fresh [of s a s'] live_frame [of s' a] by simp

text \<open>Two frames of one source are the same page or share no byte.\<close>

lemma live_disjoint:
  assumes "inv s" "a \<in> live s" "b \<in> live s" "a \<noteq> b"
  shows "unat a + 4096 \<le> unat b \<or> unat b + 4096 \<le> unat a"
proof -
  obtain i j where ij: "unat a = 4096 * i" "unat b = 4096 * j"
    using live_frame [OF assms(1,2)] live_frame [OF assms(1,3)] by (metis mod_0_imp_dvd dvd_def)
  have "i \<noteq> j" using assms(4) ij by (metis unsigned_word_eqI)
  then have "Suc i \<le> j \<or> Suc j \<le> i" by linarith
  then have "4096 * Suc i \<le> 4096 * j \<or> 4096 * Suc j \<le> 4096 * i" by (auto dest: mult_le_mono2)
  with ij show ?thesis by (simp add: add.commute)
qed

text \<open>Giving back a list of different live frames never fails, and frees exactly those.\<close>

lemma release_all_live:
  "inv s \<Longrightarrow> distinct as \<Longrightarrow> set as \<subseteq> live s \<Longrightarrow>
   \<exists>s'. release_all free as s = Some s' \<and> inv s' \<and> live s' = live s - set as"
proof (induction as arbitrary: s)
  case (Cons a as)
  then obtain s' where s': "free a s = Some s'" "inv s'" "live s' = live s - {a}"
    using free_live [of s a] by auto
  with Cons.prems have "set as \<subseteq> live s'" by auto
  with Cons.IH [of s'] Cons.prems s' obtain t
    where "release_all free as s' = Some t" "inv t" "live t = live s' - set as" by auto
  with s' show ?case by auto
qed simp

end

definition page_frames_live :: "frames option \<Rightarrow> u64 set" where
  "page_frames_live slot = (case slot of None \<Rightarrow> {} | Some f \<Rightarrow> frames_live f)"

definition page_frames_inv :: "frames option \<Rightarrow> bool" where
  "page_frames_inv slot = (case slot of None \<Rightarrow> True | Some f \<Rightarrow> frames_inv f)"

lemma frames_live_bounds:
  assumes inv: "frames_inv f" and "a \<in> frames_live f"
  shows "unat a mod 4096 = 0 \<and> unat a + 4096 \<le> 2 ^ 48"
proof -
  obtain n where n: "n < fr_count f" "a = frame_addr f n"
    using assms(2) by (auto simp: frames_live_def)
  have "unat (fr_base f) mod 4096 = 0"
    using inv unat_mod [of "fr_base f" PAGE] by (simp add: frames_inv_def PAGE_def)
  moreover have "unat (fr_base f) + fr_count f * 4096 \<le> 2 ^ 48"
    using inv by (simp add: frames_inv_def)
  moreover have "unat a = unat (fr_base f) + n * 4096"
    using n inv by (simp add: frame_addr_unat)
  ultimately show ?thesis using n(1) by (simp add: mod_add_eq [symmetric])
qed

interpretation page_frames: frame_source page_frames_allocate page_frames_free page_frames_live page_frames_inv
proof
  fix s a s'
  assume "page_frames_inv s" "page_frames_allocate s = Some (a, s')"
  then obtain f f' where "s = Some f" "s' = Some f'" "frames_inv f" "frames_allocate f = Some (a, f')"
    by (auto simp: page_frames_inv_def page_frames_allocate_def split: option.splits)
  with frames_allocate_inv [of f a f']
  show "page_frames_inv s' \<and> a \<notin> page_frames_live s \<and> page_frames_live s' = insert a (page_frames_live s)"
    by (simp add: page_frames_inv_def page_frames_live_def)
next
  fix s a
  assume *: "page_frames_inv s" "a \<in> page_frames_live s"
  then show "unat a mod 4096 = 0 \<and> unat a + 4096 \<le> 2 ^ 48"
    using frames_live_bounds
    by (auto simp: page_frames_inv_def page_frames_live_def split: option.splits)
  from * obtain f where f: "s = Some f" "frames_inv f" "a \<in> frames_live f"
    by (auto simp: page_frames_inv_def page_frames_live_def split: option.splits)
  show "\<exists>s'. page_frames_free a s = Some s' \<and> page_frames_inv s' \<and> page_frames_live s' = page_frames_live s - {a}"
    by (rule frames_free_Ok [OF f(2,3)])
       (simp add: f(1) page_frames_free_def page_frames_inv_def page_frames_live_def)
qed

subsection \<open>Properties\<close>

text \<open>C13: the frame allocator implements "a set of allocated frames". From any well-formed
  state, \<open>allocate\<close> fails exactly when no frame is free; otherwise it returns a managed frame that
  was not allocated, marks exactly that one, and leaves one free frame less. \<open>free\<close> of an
  allocated frame undoes that; anything else is the documented error, with nothing changed.\<close>
theorem frames_refine_set:
  assumes "frames_inv f"
  shows "(frames_allocate f = None \<longleftrightarrow> fr_free f = 0)
    \<and> (\<forall>a f'. frames_allocate f = Some (a, f') \<longrightarrow>
          frames_inv f' \<and> a \<in> frames_pool f - frames_live f \<and> frames_live f' = insert a (frames_live f)
          \<and> frames_pool f' = frames_pool f \<and> Suc (fr_free f') = fr_free f)
    \<and> (\<forall>a. a \<notin> frames_pool f \<longrightarrow> frames_free a f = Err NotAFrame)
    \<and> (\<forall>a. a \<in> frames_pool f - frames_live f \<longrightarrow> frames_free a f = Err NotAllocated)
    \<and> (\<forall>a. a \<in> frames_live f \<longrightarrow> (\<exists>f'. frames_free a f = Ok f' \<and> frames_inv f'
          \<and> frames_live f' = frames_live f - {a} \<and> frames_pool f' = frames_pool f
          \<and> fr_free f' = Suc (fr_free f)))"
proof (intro conjI allI impI)
  show "frames_allocate f = None \<longleftrightarrow> fr_free f = 0"
    using assms by (rule frames_allocate_None_iff)
next
  fix a assume "a \<in> frames_live f"
  then show "\<exists>f'. frames_free a f = Ok f' \<and> frames_inv f' \<and> frames_live f' = frames_live f - {a}
      \<and> frames_pool f' = frames_pool f \<and> fr_free f' = Suc (fr_free f)"
    by (rule frames_free_Ok [OF assms]) auto
qed (use frames_allocate_inv [OF assms] frames_free_Err [OF assms] in auto)

theorem frames_refine_set_witness:
  "frames_inv (frames_new 0x1000000 0x1004000) \<and> frames_free 1 (frames_new 0x1000000 0x1004000) = Err NotAFrame"
proof -
  have inv: "frames_inv (frames_new 0x1000000 0x1004000)"
    by (rule conjunct1 [OF frames_new_inv]) simp_all
  have "1 \<notin> frames_pool (frames_new 0x1000000 0x1004000)"
    using frames_pool_iff [OF inv, of 1] by (simp add: frames_new_def next_multiple_of_def PAGE_def Let_def)
  with frames_refine_set [OF inv] inv show ?thesis by blast
qed

text \<open>a new allocator manages exactly the whole pages of the range it is given, all of
  them free; every one is handed out exactly once before allocation fails.\<close>
theorem frames_new_whole_pages:
  assumes "unat start \<le> 2 ^ 48" and "unat end \<le> 2 ^ 48"
  shows "frames_inv (frames_new start end) \<and> frames_live (frames_new start end) = {}
    \<and> unat ` frames_pool (frames_new start end) =
        {p. p mod 4096 = 0 \<and> unat start \<le> p \<and> p + 4096 \<le> unat end}
    \<and> frames_stats (frames_new start end) =
        \<lparr>fs_total = card (frames_pool (frames_new start end)),
         fs_free = card (frames_pool (frames_new start end))\<rparr>"
proof -
  let ?f = "frames_new start end"
  note inv = frames_new_inv [OF assms]
  note fields = frames_new_fields [OF assms(1), of "end"]
  have "unat ` frames_pool ?f = (\<lambda>n. unat (fr_base ?f) + n * 4096) ` {..<fr_count ?f}"
    using frame_addr_unat [OF conjunct1 [OF inv]] by (auto simp: frames_pool_def image_image intro!: image_cong)
  also have "\<dots> = {p. p mod 4096 = 0 \<and> unat start \<le> p \<and> p + 4096 \<le> unat end}"
    unfolding fields(3) unfolding fields(1) by (rule whole_pages [OF refl])
  finally have "unat ` frames_pool ?f = {p. p mod 4096 = 0 \<and> unat start \<le> p \<and> p + 4096 \<le> unat end}" .
  moreover have "card (frames_pool ?f) = fr_count ?f"
    unfolding frames_pool_def
    by (subst card_image [OF inj_on_subset [OF frame_addr_inj [OF conjunct1 [OF inv]]]]) auto
  ultimately show ?thesis
    using inv by (simp add: frames_stats_def fields(5))
qed

theorem frames_new_whole_pages_witness:
  "unat ` frames_pool (frames_new 0x1000001 0x1003005) =
     {p. p mod 4096 = 0 \<and> 0x1000001 \<le> p \<and> p + 4096 \<le> 0x1003005}"
  using frames_new_whole_pages [of "0x1000001" "0x1003005"] by simp

end
