(* ===== verification/Heap_Model.thy ===== *)
theory Heap_Model
  imports Prelude
begin

text \<open>
  The kernel heap, \<open>rustypi-core/src/heap.rs\<close>: a first-fit allocator whose free blocks form a
  linked list, sorted by address, kept in the free memory itself. The model keeps the pointers:
  \<open>hp_mem\<close> maps the address of a block header to what is stored there, address 0 is the null
  pointer, and reading a header that was never written is undefined (\<open>None\<close> of the outer
  \<open>option\<close>, as is running forever); the panic on a double free is the value \<open>Panic\<close>.

  Addresses and sizes are unbounded naturals. A \<open>Layout\<close> is at most \<open>isize::MAX\<close> bytes and
  the heap's memory lies below \<open>2^63\<close>, so no sum of the two overflows a \<open>usize\<close>.

  The specification is a list of blocks: \<open>first_fit\<close> and \<open>insert_range\<close> below, connected to
  the pointer program by the chain predicate \<open>chain\<close>. \<open>Heap_Proofs\<close> holds the refinement and
  the theorems.
\<close>

subsection \<open>The allocator\<close>

definition BLOCK_ALIGN :: nat where "BLOCK_ALIGN = 16"

record free_block =
  fb_size :: nat
  fb_next :: nat

record stats =
  hs_total :: nat
  hs_used :: nat
  hs_largest_free :: nat

record heap =
  hp_head :: nat
  hp_total :: nat
  hp_used :: nat
  hp_mem :: "nat \<Rightarrow> free_block option"

record layout =
  lay_size :: nat
  lay_align :: nat

datatype 'a outcome = Done 'a | Panic

definition align_up :: "nat \<Rightarrow> nat \<Rightarrow> nat" where
  "align_up value align = nat ((int value + int align - 1) AND NOT (int align - 1))"

definition align_down :: "nat \<Rightarrow> nat \<Rightarrow> nat" where
  \<comment> \<open>\<open>end & !(BLOCK_ALIGN - 1)\<close>\<close>
  "align_down value align = nat (int value AND NOT (int align - 1))"

definition block_size :: "layout \<Rightarrow> nat" where
  "block_size l = align_up (max (lay_size l) 1) BLOCK_ALIGN"

definition heap_empty :: "(nat \<Rightarrow> free_block option) \<Rightarrow> heap" where
  "heap_empty m = \<lparr>hp_head = 0, hp_total = 0, hp_used = 0, hp_mem = m\<rparr>"

text \<open>\<open>free\<close>: the search for the blocks around the range, then the merge.\<close>

partial_function (option) free_find ::
  "(nat \<Rightarrow> free_block option) \<Rightarrow> nat \<Rightarrow> nat \<Rightarrow> nat \<Rightarrow> (nat \<times> nat) option" where
  "free_find m start prev nxt =
     (if nxt \<noteq> 0 \<and> nxt < start
      then (case m nxt of None \<Rightarrow> None | Some b \<Rightarrow> free_find m start nxt (fb_next b))
      else Some (prev, nxt))"

definition heap_free :: "nat \<Rightarrow> nat \<Rightarrow> heap \<Rightarrow> heap outcome option" where
  "heap_free start size0 h =
     Option.bind (free_find (hp_mem h) start 0 (hp_head h)) (\<lambda>(prev, nxt).
     Option.bind (if prev = 0 then Some 0 else map_option (\<lambda>b. prev + fb_size b) (hp_mem h prev))
       (\<lambda>prev_end.
     let end = start + size0
     in if start < prev_end \<or> (nxt \<noteq> 0 \<and> end > nxt) then Some Panic
        else
     Option.bind (if nxt \<noteq> 0 \<and> end = nxt
                  then map_option (\<lambda>b. (size0 + fb_size b, fb_next b)) (hp_mem h nxt)
                  else Some (size0, nxt)) (\<lambda>(sz, after).
     if prev \<noteq> 0 \<and> prev_end = start
     then map_option (\<lambda>b. Done (h\<lparr>hp_mem := (hp_mem h)(prev \<mapsto> \<lparr>fb_size = fb_size b + sz, fb_next = after\<rparr>)\<rparr>))
            (hp_mem h prev)
     else let m = (hp_mem h)(start \<mapsto> \<lparr>fb_size = sz, fb_next = after\<rparr>)
          in if prev = 0 then Some (Done (h\<lparr>hp_mem := m, hp_head := start\<rparr>))
             else map_option (\<lambda>b. Done (h\<lparr>hp_mem := m(prev \<mapsto> b\<lparr>fb_next := start\<rparr>)\<rparr>)) (m prev))))"

definition heap_init :: "nat \<Rightarrow> nat \<Rightarrow> heap \<Rightarrow> heap outcome option" where
  \<comment> \<open>a range that ends before it starts underflows, which panics\<close>
  "heap_init start0 end0 h =
     (let start = align_up start0 BLOCK_ALIGN; end = align_down end0 BLOCK_ALIGN
      in if end < start then Some Panic
         else heap_free start (end - start) (h\<lparr>hp_head := 0, hp_total := end - start, hp_used := 0\<rparr>))"

definition heap_extend :: "nat \<Rightarrow> nat \<Rightarrow> heap \<Rightarrow> heap outcome option" where
  "heap_extend start0 end0 h =
     (let start = align_up start0 BLOCK_ALIGN; end = align_down end0 BLOCK_ALIGN
      in if end > start
         then heap_free start (end - start) (h\<lparr>hp_total := hp_total h + (end - start)\<rparr>)
         else Some (Done h))"

text \<open>\<open>alloc\<close>: \<open>link\<close> is the pointer that leads to the block looked at, the head or the \<open>next\<close>
  field of the block before.\<close>

datatype link = LHead | LNext nat

definition read_link :: "heap \<Rightarrow> link \<Rightarrow> nat option" where
  "read_link h l = (case l of LHead \<Rightarrow> Some (hp_head h) | LNext p \<Rightarrow> map_option fb_next (hp_mem h p))"

definition write_link :: "heap \<Rightarrow> link \<Rightarrow> nat \<Rightarrow> heap option" where
  "write_link h l v =
     (case l of
        LHead \<Rightarrow> Some (h\<lparr>hp_head := v\<rparr>)
      | LNext p \<Rightarrow> map_option (\<lambda>b. h\<lparr>hp_mem := (hp_mem h)(p \<mapsto> b\<lparr>fb_next := v\<rparr>)\<rparr>) (hp_mem h p))"

definition alloc_take :: "heap \<Rightarrow> link \<Rightarrow> nat \<Rightarrow> free_block \<Rightarrow> nat \<Rightarrow> nat \<Rightarrow> heap option" where
  \<comment> \<open>the body of the \<open>if start + size <= block_end\<close>: carve \<open>start..start + size\<close> out of \<open>block\<close>\<close>
  "alloc_take h l block b start sz =
     (let block_end = block + fb_size b; end = start + sz;
          (h1, rest) = (if end < block_end
                        then (h\<lparr>hp_mem := (hp_mem h)(end \<mapsto> \<lparr>fb_size = block_end - end, fb_next = fb_next b\<rparr>)\<rparr>, end)
                        else (h, fb_next b))
      in map_option (\<lambda>h2. h2\<lparr>hp_used := hp_used h2 + sz\<rparr>)
           (if start > block
            then Some (h1\<lparr>hp_mem := (hp_mem h1)(block \<mapsto> \<lparr>fb_size = start - block, fb_next = rest\<rparr>)\<rparr>)
            else write_link h1 l rest))"

partial_function (option) alloc_loop :: "heap \<Rightarrow> nat \<Rightarrow> nat \<Rightarrow> link \<Rightarrow> (nat \<times> heap) option" where
  "alloc_loop h sz align l =
     (case read_link h l of
        None \<Rightarrow> None
      | Some block \<Rightarrow>
          if block = 0 then Some (0, h)
          else (case hp_mem h block of
                  None \<Rightarrow> None
                | Some b \<Rightarrow>
                    let start = align_up block align
                    in if start + sz \<le> block + fb_size b
                       then map_option (\<lambda>h'. (start, h')) (alloc_take h l block b start sz)
                       else alloc_loop h sz align (LNext block)))"

definition heap_alloc :: "layout \<Rightarrow> heap \<Rightarrow> (nat \<times> heap) option" where
  "heap_alloc l h = alloc_loop h (block_size l) (max (lay_align l) BLOCK_ALIGN) LHead"

definition heap_dealloc :: "nat \<Rightarrow> layout \<Rightarrow> heap \<Rightarrow> heap outcome option" where
  "heap_dealloc ptr l h =
     (let sz = block_size l
      in map_option
           (\<lambda>r. case r of Panic \<Rightarrow> Panic
                 | Done h' \<Rightarrow> if hp_used h' < sz then Panic \<comment> \<open>the subtraction overflows\<close>
                            else Done (h'\<lparr>hp_used := hp_used h' - sz\<rparr>))
           (heap_free ptr sz h))"

partial_function (option) largest_loop :: "(nat \<Rightarrow> free_block option) \<Rightarrow> nat \<Rightarrow> nat \<Rightarrow> nat option" where
  "largest_loop m block acc =
     (if block = 0 then Some acc
      else (case m block of None \<Rightarrow> None
            | Some b \<Rightarrow> largest_loop m (fb_next b) (max acc (fb_size b))))"

definition heap_stats :: "heap \<Rightarrow> stats option" where
  "heap_stats h =
     map_option (\<lambda>n. \<lparr>hs_total = hp_total h, hs_used = hp_used h, hs_largest_free = n\<rparr>)
       (largest_loop (hp_mem h) (hp_head h) 0)"

subsection \<open>The specification: a list of free blocks\<close>

type_synonym blocks = "(nat \<times> nat) list"

primrec seg :: "(nat \<Rightarrow> free_block option) \<Rightarrow> nat \<Rightarrow> blocks \<Rightarrow> nat \<Rightarrow> bool" where
  \<comment> \<open>from pointer \<open>p\<close>, the headers of exactly these blocks lead to pointer \<open>q\<close>\<close>
  "seg m p [] q \<longleftrightarrow> p = q"
| "seg m p (b # bs) q \<longleftrightarrow>
     p = fst b \<and> p \<noteq> 0 \<and> (\<exists>nx. m p = Some \<lparr>fb_size = snd b, fb_next = nx\<rparr> \<and> seg m nx bs q)"

abbreviation free_list :: "heap \<Rightarrow> blocks \<Rightarrow> bool" where
  "free_list h bs \<equiv> seg (hp_mem h) (hp_head h) bs 0"

definition covered :: "blocks \<Rightarrow> nat set" where
  "covered bs = (\<Union>(s, n) \<in> set bs. {s..<s + n})"

definition block_ok :: "nat \<times> nat \<Rightarrow> bool" where
  "block_ok b \<longleftrightarrow> 0 < fst b \<and> 0 < snd b \<and> 16 dvd fst b \<and> 16 dvd snd b"

definition wf_blocks :: "blocks \<Rightarrow> bool" where
  \<comment> \<open>in address order, with a gap between neighbours: what touches is merged\<close>
  "wf_blocks bs \<longleftrightarrow> sorted_wrt (\<lambda>b c. fst b + snd b < fst c) bs \<and> (\<forall>b \<in> set bs. block_ok b)"

fun first_fit :: "nat \<Rightarrow> nat \<Rightarrow> blocks \<Rightarrow> (nat \<times> blocks) option" where
  "first_fit sz align [] = None"
| "first_fit sz align ((s, n) # bs) =
     (let st = align_up s align; e = st + sz
      in if e \<le> s + n
         then Some (st, (if s < st then [(s, st - s)] else [])
                         @ (if e < s + n then [(e, s + n - e)] else []) @ bs)
         else map_option (\<lambda>(p, r). (p, (s, n) # r)) (first_fit sz align bs))"

definition blocks_end :: "blocks \<Rightarrow> nat" where
  "blocks_end pre = (if pre = [] then 0 else fst (last pre) + snd (last pre))"

definition absorb :: "nat \<Rightarrow> nat \<Rightarrow> blocks \<Rightarrow> nat \<times> blocks" where
  "absorb st sz post =
     (if post \<noteq> [] \<and> st + sz = fst (hd post) then (sz + snd (hd post), tl post) else (sz, post))"

definition join_left :: "nat \<Rightarrow> blocks \<Rightarrow> nat \<times> blocks \<Rightarrow> blocks" where
  "join_left st pre = (\<lambda>(sz, post).
     if pre \<noteq> [] \<and> blocks_end pre = st
     then butlast pre @ (fst (last pre), snd (last pre) + sz) # post
     else pre @ (st, sz) # post)"

definition insert_at :: "nat \<Rightarrow> nat \<Rightarrow> blocks \<Rightarrow> blocks \<Rightarrow> blocks option" where
  "insert_at st sz pre post =
     (if st < blocks_end pre \<or> (post \<noteq> [] \<and> fst (hd post) < st + sz) then None
      else Some (join_left st pre (absorb st sz post)))"

definition insert_range :: "nat \<Rightarrow> nat \<Rightarrow> blocks \<Rightarrow> blocks option" where
  "insert_range st sz bs =
     insert_at st sz (takeWhile (\<lambda>b. fst b < st) bs) (dropWhile (\<lambda>b. fst b < st) bs)"

end
