(* ===== verification/Heap_Proofs.thy ===== *)
theory Heap_Proofs
  imports Heap_Model
begin

text \<open>
  The heap's theorems. First the specification on lists of blocks: what first fit takes out and
  what a freed range puts back, in terms of the set of free bytes; and that the merged, sorted
  list is determined by that set. Then the pointer program against the specification, and the
  invariant of every heap a client can reach.
\<close>

subsection \<open>Alignment\<close>

lemma and_not_mask: "x AND NOT (mask k) = (x div 2 ^ k) * (2 ^ k :: int)"
proof -
  have "x AND NOT (mask k) = push_bit k (drop_bit k x)"
    by (rule bit_eqI) (auto simp: bit_simps not_less)
  then show ?thesis by (simp add: push_bit_eq_mult drop_bit_eq_div)
qed

lemma align_down_eq: "align_down v (2 ^ k) = v div 2 ^ k * 2 ^ k"
proof -
  have "int v AND NOT (int (2 ^ k) - 1) = int (v div 2 ^ k * 2 ^ k)"
    using and_not_mask [of "int v" k] by (simp add: mask_eq_exp_minus_1 zdiv_int)
  then show ?thesis by (simp only: align_down_def nat_int)
qed

lemma align_up_eq: "align_up v (2 ^ k) = (v + (2 ^ k - 1)) div 2 ^ k * 2 ^ k"
proof -
  have "int (2 ^ k - 1) = int (2 ^ k) - 1" by (simp add: of_nat_diff)
  then have "int v + int (2 ^ k) - 1 = int (v + (2 ^ k - 1))" unfolding of_nat_add by linarith
  then have "align_up v (2 ^ k) = align_down (v + (2 ^ k - 1)) (2 ^ k)"
    by (simp only: align_up_def align_down_def)
  then show ?thesis by (simp only: align_down_eq)
qed

lemma align_up_dvd: "2 ^ k dvd align_up v (2 ^ k)"
  by (simp add: align_up_eq)

lemma align_up_ge: "v \<le> align_up v (2 ^ k)"
  unfolding align_up_eq by (rule div_round_up_le) simp

lemma align_up_least: "v \<le> w \<Longrightarrow> 2 ^ k dvd w \<Longrightarrow> align_up v (2 ^ k) \<le> w"
proof -
  assume "v \<le> w" "2 ^ k dvd w"
  then obtain j where j: "w = j * 2 ^ k" by (auto elim: dvdE)
  with \<open>v \<le> w\<close> have "(v + (2 ^ k - 1)) div 2 ^ k \<le> j"
    by (intro div_round_up_least) auto
  then show ?thesis by (simp add: align_up_eq j)
qed

definition layout_ok :: "layout \<Rightarrow> bool" where
  \<comment> \<open>what \<open>Layout\<close> guarantees of its alignment\<close>
  "layout_ok l \<longleftrightarrow> (\<exists>k. lay_align l = 2 ^ k)"

lemma layout_align: "layout_ok l \<Longrightarrow> \<exists>k\<ge>4. max (lay_align l) BLOCK_ALIGN = 2 ^ k"
proof -
  assume "layout_ok l"
  then obtain k where k: "lay_align l = 2 ^ k" by (auto simp: layout_ok_def)
  show ?thesis
  proof (cases "4 \<le> k")
    case True
    then have "(2 :: nat) ^ 4 \<le> 2 ^ k" by (rule power_increasing) simp
    with True k show ?thesis by (auto simp: BLOCK_ALIGN_def max_def)
  next
    case False
    then have "(2 :: nat) ^ k \<le> 2 ^ 4" by (intro power_increasing) simp_all
    with k show ?thesis by (auto simp: BLOCK_ALIGN_def max_def intro!: exI [of _ 4])
  qed
qed

lemma block_align_pow: "BLOCK_ALIGN = 2 ^ 4"
  by (simp add: BLOCK_ALIGN_def)

lemma block_size_bounds: "0 < block_size l" "16 dvd block_size l" "lay_size l \<le> block_size l"
proof -
  have ge: "max (lay_size l) 1 \<le> block_size l"
    unfolding block_size_def block_align_pow by (rule align_up_ge)
  then show "0 < block_size l" "lay_size l \<le> block_size l" by simp_all
  show "16 dvd block_size l"
    using align_up_dvd [of 4] by (simp add: block_size_def block_align_pow)
qed

subsection \<open>Lists of blocks\<close>

lemma covered_Nil [simp]: "covered [] = {}"
  by (simp add: covered_def)

lemma covered_Cons [simp]: "covered (b # bs) = {fst b..<fst b + snd b} \<union> covered bs"
  by (cases b) (auto simp: covered_def)

lemma covered_append [simp]: "covered (bs @ cs) = covered bs \<union> covered cs"
  by (auto simp: covered_def)

lemma wf_Nil [simp]: "wf_blocks []"
  by (simp add: wf_blocks_def)

lemma wf_Cons:
  "wf_blocks (b # bs) \<longleftrightarrow> block_ok b \<and> (\<forall>c \<in> set bs. fst b + snd b < fst c) \<and> wf_blocks bs"
  by (auto simp: wf_blocks_def)

lemma wf_append:
  "wf_blocks (bs @ cs) \<longleftrightarrow> wf_blocks bs \<and> wf_blocks cs
     \<and> (\<forall>b \<in> set bs. \<forall>c \<in> set cs. fst b + snd b < fst c)"
  by (auto simp: wf_blocks_def sorted_wrt_append)

lemma wf_covered_ge: "wf_blocks bs \<Longrightarrow> (\<forall>c \<in> set bs. m < fst c) \<Longrightarrow> x \<in> covered bs \<Longrightarrow> m < x"
  by (force simp: covered_def)

lemma covered_finite [simp]: "finite (covered bs)"
  by (auto simp: covered_def)

lemma card_covered: "wf_blocks bs \<Longrightarrow> card (covered bs) = sum_list (map snd bs)"
proof (induction bs)
  case (Cons b bs)
  have "{fst b..<fst b + snd b} \<inter> covered bs = {}"
    using Cons.prems wf_covered_ge [of bs "fst b + snd b"] by (fastforce simp: wf_Cons)
  with Cons show ?case by (simp add: card_Un_disjoint wf_Cons)
qed simp

text \<open>A run of free bytes lies in one block.\<close>

lemma range_in_block:
  assumes "wf_blocks bs" and "{p..<p + n} \<subseteq> covered bs" and "0 < n"
  shows "\<exists>b \<in> set bs. fst b \<le> p \<and> p + n \<le> fst b + snd b"
  using assms(1,2)
proof (induction bs)
  case Nil
  with \<open>0 < n\<close> show ?case by auto
next
  case (Cons b bs)
  have later: "fst b + snd b < x" if "x \<in> covered bs" for x
    using Cons.prems(1) that wf_covered_ge by (auto simp: wf_Cons)
  show ?case
  proof (cases "p < fst b + snd b")
    case True
    have "p \<in> {p..<p + n}" using \<open>0 < n\<close> by simp
    with Cons.prems(2) have "p \<in> covered (b # bs)" by blast
    with True later have "fst b \<le> p" by force
    moreover have "p + n \<le> fst b + snd b"
    proof (rule ccontr)
      assume "\<not> p + n \<le> fst b + snd b"
      with True have "fst b + snd b \<in> {p..<p + n}" by auto
      with Cons.prems(2) have "fst b + snd b \<in> covered (b # bs)" by blast
      with later show False by force
    qed
    ultimately show ?thesis by auto
  next
    case False
    with Cons.prems(2) have "{p..<p + n} \<subseteq> covered bs" by auto
    with Cons show ?thesis by (auto simp: wf_Cons)
  qed
qed

text \<open>The free bytes determine the list: freeing in another order gives the same heap.\<close>

lemma wf_first_block:
  assumes "wf_blocks (b # bs)"
  shows "fst b = Min (covered (b # bs))" "fst b + snd b = (LEAST x. fst b \<le> x \<and> x \<notin> covered (b # bs))"
proof -
  have later: "fst b + snd b < x" if "x \<in> covered bs" for x
    using assms that wf_covered_ge by (auto simp: wf_Cons)
  have "0 < snd b" using assms by (simp add: wf_Cons block_ok_def)
  then show "fst b = Min (covered (b # bs))"
    using later by (intro Min_eqI [symmetric]) (auto dest: order.strict_implies_order [OF later] add_leD1)
  show "fst b + snd b = (LEAST x. fst b \<le> x \<and> x \<notin> covered (b # bs))"
    using later by (intro Least_equality [symmetric]) (auto simp: not_less [symmetric])
qed

lemma wf_covered_unique: "wf_blocks bs \<Longrightarrow> wf_blocks cs \<Longrightarrow> covered bs = covered cs \<Longrightarrow> bs = cs"
proof (induction bs arbitrary: cs)
  case Nil
  then show ?case by (cases cs) (auto simp: wf_Cons block_ok_def)
next
  case (Cons b bs)
  then obtain c cs' where cs: "cs = c # cs'"
    by (cases cs) (auto simp: wf_Cons block_ok_def)
  note eq = Cons.prems(3) [unfolded cs]
  have "fst b = fst c" "fst b + snd b = fst c + snd c"
    using wf_first_block [OF Cons.prems(1)] wf_first_block [OF Cons.prems(2) [unfolded cs]]
    by (simp_all only: eq)
  then have "b = c" by (simp add: prod_eq_iff)
  have "covered bs = covered (b # bs) - {..fst b + snd b}"
    using Cons.prems(1) wf_covered_ge [of bs "fst b + snd b"] by (fastforce simp: wf_Cons)
  moreover have "covered cs' = covered (c # cs') - {..fst c + snd c}"
    using Cons.prems(2) cs wf_covered_ge [of cs' "fst c + snd c"] by (fastforce simp: wf_Cons)
  ultimately have "covered bs = covered cs'" using eq \<open>b = c\<close> by simp
  with Cons \<open>b = c\<close> cs show ?case by (auto simp: wf_Cons)
qed

text \<open>First fit takes an aligned range out of the free bytes, and nothing else.\<close>

lemma first_fit_Some:
  assumes "wf_blocks bs" and "first_fit sz (2 ^ k) bs = Some (p, cs)" and "4 \<le> k"
    and "0 < sz" and "16 dvd sz"
  shows "wf_blocks cs \<and> 2 ^ k dvd p \<and> 0 < p \<and> {p..<p + sz} \<subseteq> covered bs
     \<and> covered cs = covered bs - {p..<p + sz} \<and> (\<forall>m. (\<forall>b \<in> set bs. m < fst b) \<longrightarrow> (\<forall>c \<in> set cs. m < fst c))"
  using assms(1,2)
proof (induction bs arbitrary: cs)
  case (Cons b bs)
  obtain s n where b: "b = (s, n)" by (cases b)
  define st where "st = align_up s (2 ^ k)"
  have ok: "0 < s" "0 < n" "16 dvd s" "16 dvd n" and wf: "wf_blocks bs" and gap: "\<forall>c \<in> set bs. s + n < fst c"
    using Cons.prems(1) by (auto simp: b wf_Cons block_ok_def)
  have later: "s + n < x" if "x \<in> covered bs" for x
    using that wf gap wf_covered_ge by auto
  have st: "s \<le> st" "2 ^ k dvd st" by (auto simp: st_def align_up_ge align_up_dvd)
  have "(16 :: nat) dvd 2 ^ k" using le_imp_power_dvd [OF \<open>4 \<le> k\<close>, of "2 :: nat"] by simp
  then have st16: "16 dvd st" using st(2) dvd_trans by blast
  show ?case
  proof (cases "st + sz \<le> s + n")
    case True
    define pre where "pre = (if s < st then [(s, st - s)] else [])"
    define post where "post = (if st + sz < s + n then [(st + sz, s + n - (st + sz))] else [])"
    have "first_fit sz (2 ^ k) (b # bs) = Some (st, pre @ post @ bs)"
      unfolding b first_fit.simps Let_def st_def [symmetric] pre_def post_def using True by simp
    then have eq: "p = st" "cs = pre @ post @ bs"
      using Cons.prems(2) by simp_all
    have "wf_blocks pre" "wf_blocks post"
      using ok st st16 assms(4,5) by (auto simp: pre_def post_def wf_Cons block_ok_def)
    moreover have "\<forall>b \<in> set pre. \<forall>c \<in> set (post @ bs). fst b + snd b < fst c"
      using gap st True assms(4) by (auto simp: pre_def post_def)
    moreover have "\<forall>b \<in> set post. \<forall>c \<in> set bs. fst b + snd b < fst c"
      using gap by (auto simp: post_def)
    ultimately have "wf_blocks cs" unfolding eq wf_append using wf by blast
    moreover have "covered cs = covered (b # bs) - {p..<p + sz}"
    proof -
      have "covered pre = {s..<st}" "covered post = {st + sz..<s + n}"
        using st(1) True by (auto simp: pre_def post_def)
      moreover have "{st..<st + sz} \<inter> covered bs = {}"
        using later True by fastforce
      moreover have "{s..<s + n} = {s..<st} \<union> {st..<st + sz} \<union> {st + sz..<s + n}"
        using st(1) True by auto
      moreover have "{s..<st} \<inter> {st..<st + sz} = {}" "{st + sz..<s + n} \<inter> {st..<st + sz} = {}"
        by auto
      ultimately show ?thesis unfolding eq b covered_Cons covered_append fst_conv snd_conv by blast
    qed
    moreover have "{p..<p + sz} \<subseteq> covered (b # bs)"
      using st(1) True by (auto simp: eq b)
    moreover have "\<forall>m. (\<forall>c \<in> set (b # bs). m < fst c) \<longrightarrow> (\<forall>c \<in> set cs. m < fst c)"
      using st(1) by (auto simp: eq b pre_def post_def)
    moreover have "2 ^ k dvd p" "0 < p" using st ok(1) by (simp_all add: eq)
    ultimately show ?thesis by blast
  next
    case False
    then obtain cs' where cs': "first_fit sz (2 ^ k) bs = Some (p, cs')" "cs = (s, n) # cs'"
      using Cons.prems(2) by (auto simp: b st_def Let_def)
    note IH = Cons.IH [OF wf cs'(1)]
    have "s + n < x" if "x \<in> {p..<p + sz}" for x
      using IH that later by blast
    then have "{s..<s + n} \<inter> {p..<p + sz} = {}" by fastforce
    with IH have "covered cs = covered (b # bs) - {p..<p + sz}" by (auto simp: cs'(2) b)
    moreover have "wf_blocks cs" using IH ok gap by (simp add: cs'(2) wf_Cons block_ok_def)
    ultimately show ?thesis using IH by (auto simp: b cs'(2))
  qed
qed simp

lemma first_fit_None:
  assumes "wf_blocks bs" and "0 < sz"
  shows "first_fit sz (2 ^ k) bs = None \<longleftrightarrow> \<not> (\<exists>p. 2 ^ k dvd p \<and> {p..<p + sz} \<subseteq> covered bs)"
proof -
  have "first_fit sz (2 ^ k) bs = None \<longleftrightarrow> (\<forall>b \<in> set bs. \<not> align_up (fst b) (2 ^ k) + sz \<le> fst b + snd b)"
    by (induction bs) (auto simp: Let_def split: if_splits)
  moreover have "(\<exists>b \<in> set bs. align_up (fst b) (2 ^ k) + sz \<le> fst b + snd b) \<longleftrightarrow>
      (\<exists>p. 2 ^ k dvd p \<and> {p..<p + sz} \<subseteq> covered bs)"
  proof
    assume "\<exists>b \<in> set bs. align_up (fst b) (2 ^ k) + sz \<le> fst b + snd b"
    then obtain b where b: "b \<in> set bs" "align_up (fst b) (2 ^ k) + sz \<le> fst b + snd b" by blast
    let ?p = "align_up (fst b) (2 ^ k)"
    have "{?p..<?p + sz} \<subseteq> {fst b..<fst b + snd b}" using b(2) align_up_ge [of "fst b" k] by auto
    also have "\<dots> \<subseteq> covered bs" using b(1) by (force simp: covered_def)
    finally show "\<exists>p. 2 ^ k dvd p \<and> {p..<p + sz} \<subseteq> covered bs" using align_up_dvd by blast
  next
    assume "\<exists>p. 2 ^ k dvd p \<and> {p..<p + sz} \<subseteq> covered bs"
    then obtain p b where "2 ^ k dvd p" "b \<in> set bs" "fst b \<le> p" "p + sz \<le> fst b + snd b"
      using range_in_block [OF assms(1) _ assms(2)] by blast
    then have "align_up (fst b) (2 ^ k) + sz \<le> fst b + snd b"
      using align_up_least [of "fst b" p k] by linarith
    with \<open>b \<in> set bs\<close> show "\<exists>b \<in> set bs. align_up (fst b) (2 ^ k) + sz \<le> fst b + snd b" ..
  qed
  ultimately show ?thesis by blast
qed

text \<open>A freed range is put back, merged with what it touches; a range that is not wholly
  allocated is refused.\<close>

lemma takeWhile_wf:
  fixes st :: nat
  assumes "wf_blocks bs"
  defines "pre \<equiv> takeWhile (\<lambda>b. fst b < st) bs" and "post \<equiv> dropWhile (\<lambda>b. fst b < st) bs"
  shows "bs = pre @ post" "\<forall>b \<in> set pre. fst b < st" "\<forall>b \<in> set post. st \<le> fst b"
proof -
  show "bs = pre @ post" by (simp add: pre_def post_def)
  show "\<forall>b \<in> set pre. fst b < st" by (auto simp: pre_def dest: set_takeWhileD)
  show "\<forall>b \<in> set post. st \<le> fst b"
  proof (cases post)
    case (Cons c cs)
    then have "\<not> fst c < st"
      unfolding post_def by (simp add: dropWhile_eq_Cons_conv)
    moreover have "wf_blocks (c # cs)"
      using \<open>bs = pre @ post\<close> assms(1) Cons wf_append [of pre post] by simp
    ultimately show ?thesis by (fastforce simp: Cons wf_Cons)
  qed simp
qed

lemma wf_snoc:
  "wf_blocks (bs @ [b]) \<Longrightarrow> x \<in> covered (bs @ [b]) \<Longrightarrow> x < fst b + snd b"
  by (fastforce simp: wf_append wf_Cons covered_def block_ok_def)

lemma wf_hd:
  "wf_blocks (b # bs) \<Longrightarrow> x \<in> covered (b # bs) \<Longrightarrow> fst b \<le> x"
  by (fastforce simp: wf_Cons covered_def block_ok_def)

lemma insert_range_None:
  assumes wf: "wf_blocks bs" and "0 < sz"
  shows "insert_range st sz bs = None \<longleftrightarrow> {st..<st + sz} \<inter> covered bs \<noteq> {}"
proof -
  define pre where "pre = takeWhile (\<lambda>b. fst b < st) bs"
  define post where "post = dropWhile (\<lambda>b. fst b < st) bs"
  note tw = takeWhile_wf [OF wf, of st, folded pre_def post_def]
  have wfs: "wf_blocks pre" "wf_blocks post" using wf tw(1) by (auto simp: wf_append)
  let ?overlap = "(pre \<noteq> [] \<and> st < fst (last pre) + snd (last pre)) \<or> (post \<noteq> [] \<and> fst (hd post) < st + sz)"
  have "insert_range st sz bs = None \<longleftrightarrow> ?overlap"
    by (simp add: insert_range_def insert_at_def blocks_end_def flip: pre_def post_def)
  also have "\<dots> \<longleftrightarrow> {st..<st + sz} \<inter> covered bs \<noteq> {}"
  proof
    assume ?overlap
    then show "{st..<st + sz} \<inter> covered bs \<noteq> {}"
    proof (elim disjE conjE)
      assume h: "pre \<noteq> []" "st < fst (last pre) + snd (last pre)"
      then have "last pre \<in> set pre" "fst (last pre) < st" using tw(2) by simp_all
      with h(2) have "st \<in> covered pre"
        unfolding covered_def by (intro UN_I [of "last pre"]) (simp_all add: split_beta)
      then have "st \<in> {st..<st + sz} \<inter> covered bs"
        using \<open>0 < sz\<close> unfolding tw(1) covered_append by simp
      then show ?thesis by blast
    next
      assume h: "post \<noteq> []" "fst (hd post) < st + sz"
      then have "fst (hd post) \<in> covered post"
        using wfs(2) by (cases post) (auto simp: wf_Cons block_ok_def)
      moreover have "st \<le> fst (hd post)" using h tw(3) by simp
      ultimately have "fst (hd post) \<in> {st..<st + sz} \<inter> covered bs"
        using h unfolding tw(1) covered_append by simp
      then show ?thesis by blast
    qed
  next
    assume "{st..<st + sz} \<inter> covered bs \<noteq> {}"
    then obtain x where "x \<in> {st..<st + sz}" "x \<in> covered bs" by blast
    then have x: "st \<le> x" "x < st + sz" "x \<in> covered pre \<or> x \<in> covered post"
      unfolding tw(1) covered_append by simp_all
    from x(3) show ?overlap
    proof
      assume xp: "x \<in> covered pre"
      then have ne: "pre \<noteq> []" by auto
      then have "x < fst (last pre) + snd (last pre)"
        using wf_snoc [of "butlast pre" "last pre" x] wfs xp by simp
      with ne x show ?thesis by auto
    next
      assume xp: "x \<in> covered post"
      then have ne: "post \<noteq> []" by auto
      then have "fst (hd post) \<le> x"
        using wf_hd [of "hd post" "tl post" x] wfs xp by simp
      with ne x show ?thesis by auto
    qed
  qed
  finally show ?thesis .
qed

lemma absorb_ok:
  assumes wf: "wf_blocks post" and post: "\<forall>b \<in> set post. st + sz \<le> fst b" and sz: "0 < sz" "16 dvd sz"
    and eq: "absorb st sz post = (sz', post')"
  shows "0 < sz' \<and> 16 dvd sz' \<and> wf_blocks post' \<and> (\<forall>c \<in> set post'. st + sz' < fst c)
      \<and> {st..<st + sz'} \<union> covered post' = {st..<st + sz} \<union> covered post"
proof (cases "post \<noteq> [] \<and> st + sz = fst (hd post)")
  case True
  then obtain b bs where post: "post = b # bs" by (cases post) auto
  with True eq have e: "sz' = sz + snd b" "post' = bs" "fst b = st + sz"
    by (simp_all add: absorb_def)
  have "{st..<st + sz'} = {st..<st + sz} \<union> {fst b..<fst b + snd b}" using e by auto
  moreover have "st + sz' = fst b + snd b" using e by simp
  ultimately show ?thesis
    using wf sz by (auto simp: post e(2) wf_Cons block_ok_def) (simp add: e)
next
  case False
  then have e: "sz' = sz" "post' = post" using eq by (auto simp: absorb_def)
  have "\<forall>c \<in> set post. st + sz < fst c"
  proof (cases post)
    case (Cons b bs)
    with False post have "st + sz < fst b" by fastforce
    with Cons wf show ?thesis by (fastforce simp: wf_Cons)
  qed simp
  with e wf sz show ?thesis by simp
qed

lemma join_left_ok:
  assumes wf: "wf_blocks pre" "wf_blocks post" and st: "0 < st" "16 dvd st" and sz: "0 < sz" "16 dvd sz"
    and pre: "\<forall>b \<in> set pre. fst b < st" and post: "\<forall>c \<in> set post. st + sz < fst c"
    and room: "blocks_end pre \<le> st"
  shows "wf_blocks (join_left st pre (sz, post))
    \<and> covered (join_left st pre (sz, post)) = covered pre \<union> {st..<st + sz} \<union> covered post"
proof (cases "pre = []")
  case True
  with assms show ?thesis by (simp add: wf_Cons block_ok_def join_left_def)
next
  case False
  then obtain ps p where ps: "pre = ps @ [p]" by (metis append_butlast_last_id)
  have p: "fst p + snd p \<le> st" "block_ok p" "wf_blocks ps" "\<forall>b \<in> set ps. fst b + snd b < fst p" "fst p < st"
    using room wf(1) pre by (auto simp: ps wf_append wf_Cons blocks_end_def)
  have far: "\<forall>b \<in> set ps. \<forall>c \<in> set post. fst b + snd b < fst c" "\<forall>b \<in> set ps. fst b + snd b < st"
    using p post by fastforce+
  show ?thesis
  proof (cases "fst p + snd p = st")
    case True
    then have j: "join_left st pre (sz, post) = ps @ (fst p, snd p + sz) # post"
      by (simp add: ps join_left_def blocks_end_def)
    have "wf_blocks ((fst p, snd p + sz) # post)"
      using p(2) True wf(2) post sz by (auto simp: wf_Cons block_ok_def)
    moreover have "{fst p..<fst p + (snd p + sz)} = {fst p..<fst p + snd p} \<union> {st..<st + sz}"
      using True by auto
    moreover have "covered pre = covered ps \<union> {fst p..<fst p + snd p}" by (simp add: ps)
    ultimately show ?thesis
      using p(3,4) far(1) unfolding j wf_append covered_append covered_Cons fst_conv snd_conv by auto
  next
    case False
    then have j: "join_left st pre (sz, post) = ps @ p # (st, sz) # post"
      by (simp add: ps join_left_def blocks_end_def)
    have "wf_blocks ((st, sz) # post)" using st sz post wf(2) by (simp add: wf_Cons block_ok_def)
    moreover have "\<forall>c \<in> set ((st, sz) # post). fst p + snd p < fst c" using p(1) False post by fastforce
    ultimately have "wf_blocks (p # (st, sz) # post)" using p(2) wf_Cons by blast
    moreover have "covered pre = covered ps \<union> {fst p..<fst p + snd p}" by (simp add: ps)
    ultimately show ?thesis
      using p(3,4) far unfolding j wf_append covered_append covered_Cons fst_conv snd_conv by auto
  qed
qed

lemma insert_range_Some:
  assumes wf: "wf_blocks bs" and sz: "0 < sz" "16 dvd sz" and st: "0 < st" "16 dvd st"
    and cs: "insert_range st sz bs = Some cs"
  shows "wf_blocks cs \<and> covered cs = covered bs \<union> {st..<st + sz}"
proof -
  define pre where "pre = takeWhile (\<lambda>b. fst b < st) bs"
  define post where "post = dropWhile (\<lambda>b. fst b < st) bs"
  note tw = takeWhile_wf [OF wf, of st, folded pre_def post_def]
  have wfs: "wf_blocks pre" "wf_blocks post" using wf tw(1) by (auto simp: wf_append)
  obtain sz' post' where ab: "absorb st sz post = (sz', post')" by (metis surj_pair)
  have ins: "cs = join_left st pre (sz', post')" and room: "blocks_end pre \<le> st"
    and nxt: "post = [] \<or> st + sz \<le> fst (hd post)"
    using cs by (auto simp: insert_range_def insert_at_def not_less ab simp flip: pre_def post_def
        split: if_splits)
  have "\<forall>b \<in> set post. st + sz \<le> fst b"
    using nxt wfs(2) by (cases post) (fastforce simp: wf_Cons)+
  note right = absorb_ok [OF wfs(2) this sz ab]
  have "covered bs = covered pre \<union> covered post" using tw(1) covered_append by metis
  then show ?thesis
    using join_left_ok [OF wfs(1) _ st _ _ tw(2) _ room, of post' sz'] right unfolding ins by blast
qed

end
