(* ===== verification/Heap_Refine.thy ===== *)
theory Heap_Refine
  imports Heap_Proofs
begin

text \<open>
  The heap's pointer program against its specification: \<open>alloc\<close> does to the linked list what
  \<open>first_fit\<close> does to the list of blocks, \<open>free\<close> what \<open>insert_range\<close> does, and neither writes
  outside free memory.
\<close>

subsection \<open>Pointers and lists\<close>

definition ptr :: "blocks \<Rightarrow> nat" where
  "ptr bs = (case bs of [] \<Rightarrow> 0 | b # _ \<Rightarrow> fst b)"

definition link_to :: "blocks \<Rightarrow> link" where
  "link_to xs = (if xs = [] then LHead else LNext (fst (last xs)))"

lemma ptr_simps [simp]: "ptr [] = 0" "ptr (b # bs) = fst b"
  by (simp_all add: ptr_def)

lemma seg_append: "seg m p (xs @ ys) q \<longleftrightarrow> (\<exists>r. seg m p xs r \<and> seg m r ys q)"
  by (induction xs arbitrary: p) auto

lemma seg_ptr: "seg m p bs 0 \<Longrightarrow> p = ptr bs"
  by (cases bs) auto

lemma seg_split: "seg m p (xs @ ys) 0 \<longleftrightarrow> seg m p xs (ptr ys) \<and> seg m (ptr ys) ys 0"
  using seg_append [of m p xs ys 0] seg_ptr by metis

lemma seg_frame: "(\<And>b. b \<in> set bs \<Longrightarrow> m' (fst b) = m (fst b)) \<Longrightarrow> seg m' p bs q = seg m p bs q"
proof (induction bs arbitrary: p)
  case (Cons b bs)
  then have "m' (fst b) = m (fst b)" "\<And>p. seg m' p bs q = seg m p bs q" by simp_all
  then show ?case by (simp cong: conj_cong)
qed simp

lemma seg_header: "seg m p (xs @ b # ys) 0 \<Longrightarrow> m (fst b) = Some \<lparr>fb_size = snd b, fb_next = ptr ys\<rparr> \<and> 0 < fst b"
  using seg_ptr by (fastforce simp: seg_append)

lemma wf_distinct: "wf_blocks bs \<Longrightarrow> distinct (map fst bs)"
  by (induction bs) (fastforce simp: wf_Cons)+

lemma wf_header_covered: "wf_blocks bs \<Longrightarrow> b \<in> set bs \<Longrightarrow> fst b \<in> covered bs"
  by (force simp: wf_blocks_def covered_def block_ok_def)

lemma wf_not_header:
  assumes "wf_blocks (xs @ b # ys)" and "fst b < a" and "a < fst b + snd b" and "c \<in> set xs \<union> set ys"
  shows "fst c \<noteq> a"
  using assms by (fastforce simp: wf_append wf_Cons)

lemma write_link_ok:
  assumes "seg (hp_mem h) (hp_head h) xs r" and "distinct (map fst xs)"
  shows "\<exists>h'. write_link h (link_to xs) v = Some h' \<and> seg (hp_mem h') (hp_head h') xs v
    \<and> (\<forall>a. a \<notin> fst ` set xs \<longrightarrow> hp_mem h' a = hp_mem h a)
    \<and> hp_total h' = hp_total h \<and> hp_used h' = hp_used h"
proof (cases xs rule: rev_cases)
  case Nil
  then show ?thesis by (simp add: write_link_def link_to_def)
next
  case (snoc ys y)
  let ?m = "(hp_mem h)(fst y \<mapsto> \<lparr>fb_size = snd y, fb_next = v\<rparr>)"
  have y: "seg (hp_mem h) (hp_head h) ys (fst y)" "fst y \<noteq> 0"
    "hp_mem h (fst y) = Some \<lparr>fb_size = snd y, fb_next = r\<rparr>"
    using assms(1) by (auto simp: snoc seg_append)
  have "fst y \<notin> fst ` set ys" using assms(2) by (simp add: snoc)
  then have "\<And>b. b \<in> set ys \<Longrightarrow> fst b \<noteq> fst y" by (metis imageI)
  then have "seg ?m (hp_head h) ys (fst y)"
    using y(1) seg_frame [of ys ?m "hp_mem h"] by simp
  then have "seg ?m (hp_head h) xs v" using y by (auto simp: snoc seg_append)
  with y(3) show ?thesis by (simp add: write_link_def link_to_def snoc)
qed

lemma read_link_to: "seg (hp_mem h) (hp_head h) xs r \<Longrightarrow> read_link h (link_to xs) = Some r"
  by (cases xs rule: rev_cases) (auto simp: read_link_def link_to_def seg_append)

subsection \<open>Allocation refines first fit\<close>

lemma alloc_take_ok:
  assumes list: "free_list h (xs @ (s, n) # ys)" and wf: "wf_blocks (xs @ (s, n) # ys)"
    and st: "s \<le> st" "st + sz \<le> s + n" "0 < sz"
  shows "\<exists>h'. alloc_take h (link_to xs) s \<lparr>fb_size = n, fb_next = ptr ys\<rparr> st sz = Some h'
    \<and> free_list h' (xs @ (if s < st then [(s, st - s)] else [])
        @ (if st + sz < s + n then [(st + sz, s + n - (st + sz))] else []) @ ys)
    \<and> hp_used h' = hp_used h + sz \<and> hp_total h' = hp_total h
    \<and> (\<forall>a. a \<notin> covered (xs @ (s, n) # ys) \<longrightarrow> hp_mem h' a = hp_mem h a)"
proof -
  define tail where "tail = (if st + sz < s + n then [(st + sz, s + n - (st + sz))] else [])"
  define m1 where "m1 = (if st + sz < s + n
    then (hp_mem h)(st + sz \<mapsto> \<lparr>fb_size = s + n - (st + sz), fb_next = ptr ys\<rparr>) else hp_mem h)"
  have old: "seg (hp_mem h) (hp_head h) xs s" "seg (hp_mem h) (ptr ys) ys 0" "0 < s"
    using list seg_ptr [of "hp_mem h" _ ys] by (auto simp: seg_split)
  have far: "fst c \<noteq> st + sz" if "c \<in> set xs \<union> set ys" "st + sz < s + n" for c
    using wf_not_header [OF wf, of "st + sz"] that st by simp
  have m1: "seg m1 (hp_head h) xs s" "seg m1 (ptr (tail @ ys)) (tail @ ys) 0"
    "\<And>a. a \<notin> {s..<s + n} \<Longrightarrow> m1 a = hp_mem h a"
  proof -
    have keep: "m1 (fst c) = hp_mem h (fst c)" if "c \<in> set xs \<union> set ys" for c
      using far that by (simp add: m1_def)
    then show "seg m1 (hp_head h) xs s" using old(1) seg_frame [of xs m1 "hp_mem h"] by simp
    have "seg m1 (ptr ys) ys 0" using old(2) seg_frame [of ys m1 "hp_mem h"] keep by simp
    then show "seg m1 (ptr (tail @ ys)) (tail @ ys) 0"
      using st by (auto simp: tail_def m1_def)
    show "\<And>a. a \<notin> {s..<s + n} \<Longrightarrow> m1 a = hp_mem h a" using st by (auto simp: m1_def)
  qed
  define h1 where "h1 = h\<lparr>hp_mem := m1\<rparr>"
  have take: "alloc_take h (link_to xs) s \<lparr>fb_size = n, fb_next = ptr ys\<rparr> st sz =
      map_option (\<lambda>h2. h2\<lparr>hp_used := hp_used h2 + sz\<rparr>)
        (if s < st then Some (h1\<lparr>hp_mem := m1(s \<mapsto> \<lparr>fb_size = st - s, fb_next = ptr (tail @ ys)\<rparr>)\<rparr>)
         else write_link h1 (link_to xs) (ptr (tail @ ys)))"
    by (simp add: alloc_take_def h1_def m1_def tail_def Let_def)
  have order: "\<forall>c \<in> set xs. fst c + snd c < s" "\<forall>c \<in> set ys. s + n < fst c"
    using wf by (auto simp: wf_append wf_Cons)
  have tail_gt: "s < fst c" if "c \<in> set (tail @ ys)" for c
    using that order(2) st by (fastforce simp: tail_def split: if_splits)
  have heads: "fst c \<noteq> s" if "c \<in> set xs \<union> set (tail @ ys)" for c
    using that order(1) tail_gt by fastforce
  show ?thesis
  proof (cases "s < st")
    case True
    let ?m = "m1(s \<mapsto> \<lparr>fb_size = st - s, fb_next = ptr (tail @ ys)\<rparr>)"
    have "seg ?m (hp_head h) xs s" "seg ?m (ptr (tail @ ys)) (tail @ ys) 0"
      using m1(1,2) heads seg_frame [of xs ?m m1] seg_frame [of "tail @ ys" ?m m1] by simp_all
    then have "seg ?m (hp_head h) (xs @ (s, st - s) # tail @ ys) 0"
      using old(3) by (simp add: seg_split [of _ _ xs])
    with True m1(3) st show ?thesis by (auto simp: take h1_def simp flip: tail_def)
  next
    case False
    then have "st = s" using st by simp
    obtain h' where h': "write_link h1 (link_to xs) (ptr (tail @ ys)) = Some h'"
      "seg (hp_mem h') (hp_head h') xs (ptr (tail @ ys))"
      "\<And>a. a \<notin> fst ` set xs \<Longrightarrow> hp_mem h' a = m1 a" "hp_total h' = hp_total h" "hp_used h' = hp_used h"
      using write_link_ok [of h1 xs s "ptr (tail @ ys)"] m1(1) wf wf_distinct [of xs]
      by (auto simp: h1_def wf_append)
    have "fst c \<notin> fst ` set xs" if "c \<in> set (tail @ ys)" for c
      using that order(1) tail_gt by fastforce
    then have "seg (hp_mem h') (ptr (tail @ ys)) (tail @ ys) 0"
      using m1(2) h'(3) seg_frame [of "tail @ ys" "hp_mem h'" m1] by simp
    then have "free_list h' (xs @ tail @ ys)" using h'(2) seg_append by blast
    moreover have "hp_mem h' a = hp_mem h a" if "a \<notin> covered (xs @ (s, n) # ys)" for a
    proof -
      have "a \<notin> fst ` set xs"
        using that wf wf_header_covered [of xs] by (auto simp: wf_append)
      then show ?thesis using that h'(3) m1(3) by simp
    qed
    ultimately show ?thesis
      using False h'(4,5) by (auto simp: take h'(1) simp flip: tail_def)
  qed
qed

lemma alloc_loop_ok:
  assumes "free_list h (xs @ ys)" and "wf_blocks (xs @ ys)" and "0 < sz"
  shows "case first_fit sz (2 ^ k) ys of
      None \<Rightarrow> alloc_loop h sz (2 ^ k) (link_to xs) = Some (0, h)
    | Some (p, cs) \<Rightarrow> \<exists>h'. alloc_loop h sz (2 ^ k) (link_to xs) = Some (p, h')
        \<and> free_list h' (xs @ cs) \<and> hp_used h' = hp_used h + sz \<and> hp_total h' = hp_total h
        \<and> (\<forall>a. a \<notin> covered (xs @ ys) \<longrightarrow> hp_mem h' a = hp_mem h a)"
  using assms(1,2)
proof (induction ys arbitrary: xs)
  case Nil
  then show ?case by (simp add: alloc_loop.simps read_link_to)
next
  case (Cons b ys)
  obtain s n where b: "b = (s, n)" by (cases b)
  let ?st = "align_up s (2 ^ k)"
  have "seg (hp_mem h) (hp_head h) xs s" using Cons.prems(1) by (simp add: b seg_split)
  then have link: "read_link h (link_to xs) = Some s" by (rule read_link_to)
  have hd: "hp_mem h s = Some \<lparr>fb_size = n, fb_next = ptr ys\<rparr>" "0 < s"
    using seg_header [OF Cons.prems(1)] by (simp_all add: b)
  show ?case
  proof (cases "?st + sz \<le> s + n")
    case True
    have "alloc_loop h sz (2 ^ k) (link_to xs) =
        map_option (\<lambda>h'. (?st, h')) (alloc_take h (link_to xs) s \<lparr>fb_size = n, fb_next = ptr ys\<rparr> ?st sz)"
      using True hd by (subst alloc_loop.simps) (simp add: link Let_def)
    moreover note alloc_take_ok [OF Cons.prems [unfolded b] align_up_ge True \<open>0 < sz\<close>]
    ultimately show ?thesis using True by (auto simp: b Let_def)
  next
    case False
    have next_link: "link_to (xs @ [b]) = LNext s" by (simp add: link_to_def b)
    have "alloc_loop h sz (2 ^ k) (link_to xs) = alloc_loop h sz (2 ^ k) (link_to (xs @ [b]))"
      using False hd by (subst alloc_loop.simps) (simp add: link next_link Let_def)
    moreover have "first_fit sz (2 ^ k) (b # ys) =
        map_option (\<lambda>(p, r). (p, b # r)) (first_fit sz (2 ^ k) ys)"
      using False by (simp add: b Let_def)
    ultimately show ?thesis
      using Cons.IH [of "xs @ [b]"] Cons.prems by (auto split: option.splits prod.splits)
  qed
qed


subsection \<open>Freeing refines the insertion of a range\<close>

lemma free_find_ok:
  "seg m p bs 0 \<Longrightarrow> free_find m st prev p =
     Some (if takeWhile (\<lambda>b. fst b < st) bs = [] then prev else fst (last (takeWhile (\<lambda>b. fst b < st) bs)),
           ptr (dropWhile (\<lambda>b. fst b < st) bs))"
proof (induction bs arbitrary: p prev)
  case (Cons b bs)
  then obtain nx where "p = fst b" "p \<noteq> 0" "m p = Some \<lparr>fb_size = snd b, fb_next = nx\<rparr>" "seg m nx bs 0"
    by auto
  then show ?case using Cons.IH [of nx p] by (subst free_find.simps) auto
qed (simp add: free_find.simps)

lemma heap_free_eq:
  fixes st :: nat and bs :: blocks
  defines "pre \<equiv> takeWhile (\<lambda>b. fst b < st) bs" and "post \<equiv> dropWhile (\<lambda>b. fst b < st) bs"
  assumes list: "free_list h bs" and "absorb st sz post = (sz', post')"
  shows "heap_free st sz h =
    (if st < blocks_end pre \<or> (post \<noteq> [] \<and> fst (hd post) < st + sz) then Some Panic
     else if pre \<noteq> [] \<and> blocks_end pre = st
          then Some (Done (h\<lparr>hp_mem := (hp_mem h)(fst (last pre) \<mapsto>
                 \<lparr>fb_size = snd (last pre) + sz', fb_next = ptr post'\<rparr>)\<rparr>))
          else map_option Done
                 (write_link (h\<lparr>hp_mem := (hp_mem h)(st \<mapsto> \<lparr>fb_size = sz', fb_next = ptr post'\<rparr>)\<rparr>)
                    (link_to pre) st))"
proof -
  define prev where "prev = (if pre = [] then 0 else fst (last pre))"
  have bs: "bs = pre @ post" by (simp add: pre_def post_def)
  have find: "free_find (hp_mem h) st 0 (hp_head h) = Some (prev, ptr post)"
    using free_find_ok [OF list, of st 0] by (simp add: pre_def post_def prev_def)
  have pre: "prev \<noteq> 0 \<and> (\<exists>nx. hp_mem h prev = Some \<lparr>fb_size = snd (last pre), fb_next = nx\<rparr>)" if "pre \<noteq> []"
  proof -
    obtain ps q where "pre = ps @ [q]" using \<open>pre \<noteq> []\<close> by (metis append_butlast_last_id)
    then show ?thesis
      using seg_header [of "hp_mem h" "hp_head h" ps q post] list by (auto simp: bs prev_def)
  qed
  have post: "ptr post = fst (hd post) \<and> ptr post \<noteq> 0
      \<and> hp_mem h (ptr post) = Some \<lparr>fb_size = snd (hd post), fb_next = ptr (tl post)\<rparr>" if "post \<noteq> []"
    using that seg_header [of "hp_mem h" "hp_head h" pre "hd post" "tl post"] list
    by (cases post) (auto simp: bs)
  have prev_end: "(if prev = 0 then Some 0 else map_option (\<lambda>b. prev + fb_size b) (hp_mem h prev))
      = Some (blocks_end pre)"
    using pre by (cases "pre = []") (auto simp: prev_def blocks_end_def)
  have next0: "ptr post \<noteq> 0 \<longleftrightarrow> post \<noteq> []" "ptr post \<noteq> 0 \<Longrightarrow> ptr post = fst (hd post)"
    using post by (cases post; simp)+
  have right: "(if ptr post \<noteq> 0 \<and> st + sz = ptr post
      then map_option (\<lambda>b. (sz + fb_size b, fb_next b)) (hp_mem h (ptr post)) else Some (sz, ptr post))
      = Some (sz', ptr post')"
    using assms(4) post next0 by (auto simp: absorb_def split: if_splits)
  have prev0: "prev \<noteq> 0 \<longleftrightarrow> pre \<noteq> []" using pre by (auto simp: prev_def)
  have guard: "(st < blocks_end pre \<or> (ptr post \<noteq> 0 \<and> ptr post < st + sz)) \<longleftrightarrow>
      (st < blocks_end pre \<or> (post \<noteq> [] \<and> fst (hd post) < st + sz))"
    using next0 by auto
  have step: "heap_free st sz h =
    (if st < blocks_end pre \<or> (ptr post \<noteq> 0 \<and> ptr post < st + sz) then Some Panic
     else if prev \<noteq> 0 \<and> blocks_end pre = st
     then map_option (\<lambda>b. Done (h\<lparr>hp_mem := (hp_mem h)(prev \<mapsto>
              \<lparr>fb_size = fb_size b + sz', fb_next = ptr post'\<rparr>)\<rparr>)) (hp_mem h prev)
     else if prev = 0
     then Some (Done (h\<lparr>hp_mem := (hp_mem h)(st \<mapsto> \<lparr>fb_size = sz', fb_next = ptr post'\<rparr>), hp_head := st\<rparr>))
     else map_option (\<lambda>b. Done (h\<lparr>hp_mem := (hp_mem h)(st \<mapsto> \<lparr>fb_size = sz', fb_next = ptr post'\<rparr>,
              prev \<mapsto> b\<lparr>fb_next := st\<rparr>)\<rparr>))
            (((hp_mem h)(st \<mapsto> \<lparr>fb_size = sz', fb_next = ptr post'\<rparr>)) prev))"
    by (simp only: heap_free_def find Option.bind.simps prod.case prev_end Let_def right)
  show ?thesis
  proof (cases "pre = []")
    case True
    then show ?thesis
      using prev0 unfolding step guard by (simp add: link_to_def write_link_def)
  next
    case False
    moreover have "fst (last pre) < st"
      using last_in_set [OF False] set_takeWhileD unfolding pre_def by fast
    ultimately show ?thesis
      using pre prev0 unfolding step guard
      by (auto simp: prev_def link_to_def write_link_def option.map_comp comp_def)
  qed
qed

lemma absorb_subset: "absorb st sz post = (sz', post') \<Longrightarrow> set post' \<subseteq> set post"
  by (cases post) (auto simp: absorb_def split: if_splits)

lemma absorb_seg: "absorb st sz post = (sz', post') \<Longrightarrow> seg m (ptr post) post 0 \<Longrightarrow> seg m (ptr post') post' 0"
  using seg_ptr by (cases post) (auto simp: absorb_def split: if_splits)

lemma heap_free_ok:
  assumes list: "free_list h bs" and wf: "wf_blocks bs" and st: "0 < st" "16 dvd st" and sz: "0 < sz" "16 dvd sz"
  shows "case insert_range st sz bs of
      None \<Rightarrow> heap_free st sz h = Some Panic
    | Some cs \<Rightarrow> \<exists>h'. heap_free st sz h = Some (Done h') \<and> free_list h' cs
        \<and> hp_used h' = hp_used h \<and> hp_total h' = hp_total h
        \<and> (\<forall>a. a \<notin> covered cs \<longrightarrow> hp_mem h' a = hp_mem h a)"
proof (cases "insert_range st sz bs")
  define pre where "pre = takeWhile (\<lambda>b. fst b < st) bs"
  define post where "post = dropWhile (\<lambda>b. fst b < st) bs"
  note tw = takeWhile_wf [OF wf, of st, folded pre_def post_def]
  obtain sz' post' where ab: "absorb st sz post = (sz', post')" by (metis surj_pair)
  note eq = heap_free_eq [OF list, of st sz, folded pre_def post_def, OF ab]
  {
    case None
    then show ?thesis
      unfolding eq by (auto simp: insert_range_def insert_at_def simp flip: pre_def post_def split: if_splits)
  next
    case (Some cs)
    have cs: "cs = join_left st pre (sz', post')"
      and room: "\<not> (st < blocks_end pre \<or> (post \<noteq> [] \<and> fst (hd post) < st + sz))"
      using Some by (auto simp: insert_range_def insert_at_def ab simp flip: pre_def post_def split: if_splits)
    have segs: "seg (hp_mem h) (hp_head h) pre (ptr post)" "seg (hp_mem h) (ptr post') post' 0"
      using list tw(1) absorb_seg [OF ab] by (auto simp: seg_split)
    have wfs: "wf_blocks pre" "wf_blocks post" using wf tw(1) by (auto simp: wf_append)
    have ok: "wf_blocks cs" "covered cs = covered bs \<union> {st..<st + sz}"
      using insert_range_Some [OF wf sz st Some] by auto
    have post': "st \<le> fst c" if "c \<in> set post'" for c using that absorb_subset [OF ab] tw(3) by auto
    show ?thesis
    proof (cases "pre \<noteq> [] \<and> blocks_end pre = st")
      case True
      then obtain ps q where ps: "pre = ps @ [q]" by (metis append_butlast_last_id)
      let ?h = "h\<lparr>hp_mem := (hp_mem h)(fst q \<mapsto> \<lparr>fb_size = snd q + sz', fb_next = ptr post'\<rparr>)\<rparr>"
      have q: "fst q < st" "fst q \<noteq> 0" "seg (hp_mem h) (hp_head h) ps (fst q)"
        using tw(2) segs(1) by (auto simp: ps seg_append)
      have "fst b \<noteq> fst q" if "b \<in> set ps \<union> set post'" for b
        using that q(1) post' wfs(1) by (fastforce simp: ps wf_append)
      then have "seg (hp_mem ?h) (hp_head h) ps (fst q)" "seg (hp_mem ?h) (ptr post') post' 0"
        using q(3) segs(2) seg_frame [of ps "hp_mem ?h" "hp_mem h"] seg_frame [of post' "hp_mem ?h" "hp_mem h"]
        by simp_all
      then have "free_list ?h cs" using True q(2) by (simp add: cs join_left_def ps seg_append)
      moreover have "fst q \<in> covered cs"
        using ok(2) wf_header_covered [OF wf, of q] tw(1) by (auto simp: ps)
      ultimately show ?thesis using Some room True by (auto simp: eq ps)
    next
      case False
      let ?h = "h\<lparr>hp_mem := (hp_mem h)(st \<mapsto> \<lparr>fb_size = sz', fb_next = ptr post'\<rparr>)\<rparr>"
      have join: "cs = pre @ (st, sz') # post'" using False by (auto simp: cs join_left_def)
      have ne: "fst b \<noteq> st" if "b \<in> set pre \<union> set post'" for b
        using that ok(1) by (fastforce simp: join wf_append wf_Cons block_ok_def)
      have "seg (hp_mem ?h) (hp_head ?h) pre (ptr post)" "seg (hp_mem ?h) (ptr post') post' 0"
        using segs ne seg_frame [of pre "hp_mem ?h" "hp_mem h"] seg_frame [of post' "hp_mem ?h" "hp_mem h"]
        by simp_all
      then obtain h' where h': "write_link ?h (link_to pre) st = Some h'" "seg (hp_mem h') (hp_head h') pre st"
        "\<And>a. a \<notin> fst ` set pre \<Longrightarrow> hp_mem h' a = hp_mem ?h a" "hp_total h' = hp_total h" "hp_used h' = hp_used h"
        using write_link_ok [of ?h pre "ptr post" st] wf_distinct [OF wfs(1)] by auto
      have out: "fst b \<notin> fst ` set pre" if "b \<in> set ((st, sz') # post')" for b
        using that tw(2) post' by fastforce
      have "seg (hp_mem h') (ptr post') post' 0"
        using \<open>seg (hp_mem ?h) (ptr post') post' 0\<close> seg_frame [of post' "hp_mem h'" "hp_mem ?h"] h'(3) out by simp
      then have "free_list h' cs"
        using h'(2) h'(3) [OF out [of "(st, sz')"]] st by (simp add: join seg_append)
      moreover have "hp_mem h' a = hp_mem h a" if "a \<notin> covered cs" for a
      proof -
        have "a \<notin> fst ` set pre" using that ok(1) wf_header_covered [OF ok(1)] by (auto simp: join)
        moreover have "a \<noteq> st" using that ok(2) sz by auto
        ultimately show ?thesis using h'(3) by simp
      qed
      ultimately show ?thesis using Some room False h' by (auto simp: eq)
    qed
  }
qed


lemma heap_free_disjoint:
  assumes "free_list h bs" "wf_blocks bs" "0 < st" "16 dvd st" "0 < sz" "16 dvd sz"
    and "{st..<st + sz} \<inter> covered bs = {}"
  shows "\<exists>h' cs. heap_free st sz h = Some (Done h') \<and> free_list h' cs \<and> wf_blocks cs
    \<and> covered cs = covered bs \<union> {st..<st + sz} \<and> hp_used h' = hp_used h \<and> hp_total h' = hp_total h
    \<and> (\<forall>a. a \<notin> covered cs \<longrightarrow> hp_mem h' a = hp_mem h a)"
proof -
  obtain cs where cs: "insert_range st sz bs = Some cs"
    using insert_range_None [OF assms(2,5), of st] assms(7) by auto
  have "\<exists>h'. heap_free st sz h = Some (Done h') \<and> free_list h' cs
        \<and> hp_used h' = hp_used h \<and> hp_total h' = hp_total h
        \<and> (\<forall>a. a \<notin> covered cs \<longrightarrow> hp_mem h' a = hp_mem h a)"
    using heap_free_ok [OF assms(1-6)] cs by simp
  then show ?thesis using insert_range_Some [OF assms(2,5,6,3,4) cs] by blast
qed

lemma heap_free_overlap:
  assumes "free_list h bs" "wf_blocks bs" "0 < st" "16 dvd st" "0 < sz" "16 dvd sz"
    and "{st..<st + sz} \<inter> covered bs \<noteq> {}"
  shows "heap_free st sz h = Some Panic"
  using insert_range_None [OF assms(2,5), of st] assms(7) heap_free_ok [OF assms(1-6)] by simp

lemma largest_loop_ok:
  "seg m p bs 0 \<Longrightarrow> largest_loop m p acc = Some (fold max (map snd bs) acc)"
proof (induction bs arbitrary: p acc)
  case (Cons b bs)
  then obtain nx where "p = fst b" "p \<noteq> 0" "m p = Some \<lparr>fb_size = snd b, fb_next = nx\<rparr>" "seg m nx bs 0"
    by auto
  then show ?case using Cons.IH [of nx] by (subst largest_loop.simps) (simp add: max.commute)
qed (simp add: largest_loop.simps)

end
