(* ===== verification/Heap.thy ===== *)
theory Heap
  imports Heap_Refine
begin

text \<open>
  The heap as its clients see it: \<open>heap_run h R L\<close> says that a client which was given the
  bytes \<open>R\<close>, holds the blocks \<open>L\<close> and writes only into those can have heap \<open>h\<close>. The theorems
  say that allocation returns an aligned, unused block whenever there is one, that no two live
  blocks overlap, that a live block can always be freed and free memory never twice, and that the
  free list depends on what is free and not on the history.
\<close>

definition live_range :: "nat \<Rightarrow> layout \<Rightarrow> nat set" where
  "live_range p l = {p..<p + block_size l}"

definition live_bytes :: "(nat \<rightharpoonup> layout) \<Rightarrow> nat set" where
  "live_bytes L = (\<Union>p \<in> dom L. live_range p (the (L p)))"

inductive heap_run :: "heap \<Rightarrow> nat set \<Rightarrow> (nat \<rightharpoonup> layout) \<Rightarrow> bool" where
  run_empty: "heap_run (heap_empty m) {} Map.empty"
| run_init: "0 < start \<Longrightarrow> align_up start BLOCK_ALIGN < align_down end BLOCK_ALIGN \<Longrightarrow>
    heap_init start end h = Some (Done h') \<Longrightarrow>
    heap_run h' {align_up start BLOCK_ALIGN..<align_down end BLOCK_ALIGN} Map.empty"
| run_extend: "heap_run h R L \<Longrightarrow> 0 < start \<Longrightarrow> {start..<end} \<inter> R = {} \<Longrightarrow>
    heap_extend start end h = Some (Done h') \<Longrightarrow>
    heap_run h' (R \<union> {align_up start BLOCK_ALIGN..<align_down end BLOCK_ALIGN}) L"
| run_alloc: "heap_run h R L \<Longrightarrow> layout_ok l \<Longrightarrow> heap_alloc l h = Some (p, h') \<Longrightarrow> p \<noteq> 0 \<Longrightarrow>
    heap_run h' R (L(p \<mapsto> l))"
| run_alloc_null: "heap_run h R L \<Longrightarrow> layout_ok l \<Longrightarrow> heap_alloc l h = Some (0, h') \<Longrightarrow> heap_run h' R L"
| run_dealloc: "heap_run h R L \<Longrightarrow> L p = Some l \<Longrightarrow> heap_dealloc p l h = Some (Done h') \<Longrightarrow>
    heap_run h' R (L(p := None))"
| run_write: "heap_run h R L \<Longrightarrow> (\<And>a. a \<notin> live_bytes L \<Longrightarrow> m a = hp_mem h a) \<Longrightarrow>
    heap_run (h\<lparr>hp_mem := m\<rparr>) R L"

definition heap_inv :: "heap \<Rightarrow> nat set \<Rightarrow> (nat \<rightharpoonup> layout) \<Rightarrow> blocks \<Rightarrow> bool" where
  "heap_inv h R L bs \<longleftrightarrow> free_list h bs \<and> wf_blocks bs \<and> covered bs = R - live_bytes L
     \<and> finite R \<and> live_bytes L \<subseteq> R
     \<and> (\<forall>p l. L p = Some l \<longrightarrow> layout_ok l \<and> 0 < p \<and> 16 dvd p \<and> lay_align l dvd p)
     \<and> (\<forall>p q l k. L p = Some l \<longrightarrow> L q = Some k \<longrightarrow> p \<noteq> q \<longrightarrow> live_range p l \<inter> live_range q k = {})
     \<and> hp_used h = card (live_bytes L) \<and> hp_total h = card R"

lemma live_bytes_mem: "x \<in> live_bytes L \<longleftrightarrow> (\<exists>p l. L p = Some l \<and> x \<in> live_range p l)"
  by (force simp: live_bytes_def dom_def)

lemma live_bytes_upd:
  assumes "L p = None"
  shows "live_bytes (L(p \<mapsto> l)) = live_bytes L \<union> live_range p l"
proof (rule set_eqI)
  fix x
  show "x \<in> live_bytes (L(p \<mapsto> l)) \<longleftrightarrow> x \<in> live_bytes L \<union> live_range p l"
    using assms unfolding live_bytes_mem Un_iff by (metis fun_upd_apply option.distinct(1) option.inject)
qed

lemma live_bytes_del:
  assumes "L p = Some l" and "\<And>q k. L q = Some k \<Longrightarrow> q \<noteq> p \<Longrightarrow> live_range q k \<inter> live_range p l = {}"
  shows "live_bytes (L(p := None)) = live_bytes L - live_range p l"
proof (intro set_eqI iffI)
  fix x
  assume "x \<in> live_bytes (L(p := None))"
  then obtain q k where "L q = Some k" "q \<noteq> p" "x \<in> live_range q k"
    by (auto simp: live_bytes_mem split: if_splits)
  with assms(2) show "x \<in> live_bytes L - live_range p l" by (auto simp: live_bytes_mem)
next
  fix x
  assume "x \<in> live_bytes L - live_range p l"
  then obtain q k where "L q = Some k" "x \<in> live_range q k" and "x \<notin> live_range p l"
    by (auto simp: live_bytes_mem)
  moreover then have "q \<noteq> p" using assms(1) by auto
  ultimately show "x \<in> live_bytes (L(p := None))" by (auto simp: live_bytes_mem)
qed

lemma mem_live_range: "p \<in> live_range p l"
  using block_size_bounds(1) [of l] by (simp add: live_range_def)

lemma card_live_range [simp]: "card (live_range p l) = block_size l" "finite (live_range p l)"
  by (simp_all add: live_range_def)

subsection \<open>Each operation keeps the invariant\<close>

lemma inv_alloc:
  assumes inv: "heap_inv h R L bs" and l: "layout_ok l"
  shows "(heap_alloc l h = Some (0, h)
      \<and> \<not> (\<exists>p. max (lay_align l) 16 dvd p \<and> live_range p l \<subseteq> R - live_bytes L))
    \<or> (\<exists>p h' cs. heap_alloc l h = Some (p, h') \<and> 0 < p \<and> lay_align l dvd p
        \<and> live_range p l \<subseteq> R - live_bytes L \<and> heap_inv h' R (L(p \<mapsto> l)) cs
        \<and> (\<forall>a \<in> live_bytes L. hp_mem h' a = hp_mem h a))"
proof -
  obtain k where k: "4 \<le> k" "max (lay_align l) BLOCK_ALIGN = 2 ^ k" using layout_align [OF l] by blast
  note sz = block_size_bounds [of l]
  have wf: "wf_blocks bs" and list: "free_list h ([] @ bs)" and cov: "covered bs = R - live_bytes L"
    using inv by (auto simp: heap_inv_def)
  have eq: "heap_alloc l h = alloc_loop h (block_size l) (2 ^ k) (link_to [])"
    by (simp add: heap_alloc_def k(2) link_to_def)
  show ?thesis
  proof (cases "first_fit (block_size l) (2 ^ k) bs")
    case None
    then have "heap_alloc l h = Some (0, h)"
      using alloc_loop_ok [OF list, of "block_size l" k] wf sz(1) by (simp add: eq)
    with None show ?thesis
      using first_fit_None [OF wf sz(1), of k] k(2) by (simp add: cov live_range_def BLOCK_ALIGN_def)
  next
    case (Some r)
    obtain p cs where "r = (p, cs)" by (cases r)
    with Some have ff: "first_fit (block_size l) (2 ^ k) bs = Some (p, cs)" by simp
    note fs = first_fit_Some [OF wf ff k(1) sz(1,2)]
    obtain h' where h': "heap_alloc l h = Some (p, h')" "free_list h' cs" "hp_used h' = hp_used h + block_size l"
      "hp_total h' = hp_total h" "\<And>a. a \<notin> covered bs \<Longrightarrow> hp_mem h' a = hp_mem h a"
      using alloc_loop_ok [OF list, of "block_size l" k] wf sz(1) ff by (auto simp: eq)
    have rng: "live_range p l \<subseteq> R - live_bytes L" using fs cov by (simp add: live_range_def)
    have al: "lay_align l dvd p" "16 dvd p"
    proof -
      obtain j where j: "lay_align l = 2 ^ j" using l by (auto simp: layout_ok_def)
      moreover from j k(2) have "(2 :: nat) ^ j \<le> 2 ^ k" by (metis max.cobounded1)
      then have "j \<le> k" by simp
      ultimately have "lay_align l dvd 2 ^ k" "(16 :: nat) dvd 2 ^ k"
        using le_imp_power_dvd [OF k(1), of "2 :: nat"] by (simp_all add: le_imp_power_dvd)
      with fs show "lay_align l dvd p" "16 dvd p" using dvd_trans by blast+
    qed
    have "p \<notin> live_bytes L" using rng mem_live_range [of p l] by blast
    then have fresh: "L p = None"
      using mem_live_range [of p] live_bytes_mem [of p L] by (cases "L p") auto
    have bytes: "live_bytes (L(p \<mapsto> l)) = live_bytes L \<union> live_range p l" by (rule live_bytes_upd [of L, OF fresh])
    have disj: "live_range q m \<inter> live_range p l = {}" if "L q = Some m" for q m
      using rng that by (fastforce simp: live_bytes_mem)
    have fin: "finite (live_bytes L)" using inv finite_subset by (auto simp: heap_inv_def)
    have "hp_used h' = card (live_bytes (L(p \<mapsto> l)))"
      using h'(3) inv fin rng unfolding bytes
      by (subst card_Un_disjoint) (auto simp: heap_inv_def)
    moreover have "covered cs = R - live_bytes (L(p \<mapsto> l))"
      using fs cov unfolding bytes by (auto simp: live_range_def)
    ultimately have "heap_inv h' R (L(p \<mapsto> l)) cs"
      using inv h' fs rng l al disj bytes unfolding heap_inv_def
      by (auto simp: Int_commute split: if_splits)
    moreover have "\<forall>a \<in> live_bytes L. hp_mem h' a = hp_mem h a" using h'(5) cov by auto
    ultimately show ?thesis using h'(1) fs al rng by blast
  qed
qed


lemma inv_dealloc:
  assumes inv: "heap_inv h R L bs" and l: "L p = Some l"
  shows "\<exists>h' cs. heap_dealloc p l h = Some (Done h') \<and> heap_inv h' R (L(p := None)) cs
    \<and> (\<forall>a \<in> live_bytes (L(p := None)). hp_mem h' a = hp_mem h a)"
proof -
  note sz = block_size_bounds [of l]
  have wf: "wf_blocks bs" "free_list h bs" and cov: "covered bs = R - live_bytes L" and p: "0 < p" "16 dvd p"
    and disj: "\<And>q k. L q = Some k \<Longrightarrow> q \<noteq> p \<Longrightarrow> live_range q k \<inter> live_range p l = {}"
    and sub: "live_bytes L \<subseteq> R" "finite R" and used: "hp_used h = card (live_bytes L)"
    using inv l unfolding heap_inv_def by auto
  have rng: "live_range p l \<subseteq> live_bytes L" using l live_bytes_mem by blast
  have bytes: "live_bytes (L(p := None)) = live_bytes L - live_range p l"
    using live_bytes_del [of L p l, OF l disj] .
  have "{p..<p + block_size l} \<inter> covered bs = {}" using rng cov by (auto simp: live_range_def)
  from heap_free_disjoint [OF wf(2,1) p sz(1,2) this]
  obtain h' cs where h': "heap_free p (block_size l) h = Some (Done h')" "free_list h' cs" "wf_blocks cs"
    "covered cs = covered bs \<union> live_range p l" "hp_used h' = hp_used h" "hp_total h' = hp_total h"
    "\<And>a. a \<notin> covered cs \<Longrightarrow> hp_mem h' a = hp_mem h a"
    unfolding live_range_def by blast
  have fin: "finite (live_bytes L)" using sub finite_subset by blast
  have "block_size l \<le> hp_used h"
    using card_mono [OF fin rng] used by simp
  then have dealloc: "heap_dealloc p l h = Some (Done (h'\<lparr>hp_used := hp_used h' - block_size l\<rparr>))"
    using h'(1,5) by (simp add: heap_dealloc_def)
  have "covered cs = R - live_bytes (L(p := None))" using h'(4) cov rng sub unfolding bytes by blast
  moreover have "hp_used h' - block_size l = card (live_bytes (L(p := None)))"
    using h'(5) used fin rng unfolding bytes by (simp add: card_Diff_subset)
  ultimately have "heap_inv (h'\<lparr>hp_used := hp_used h' - block_size l\<rparr>) R (L(p := None)) cs"
    using inv h' bytes unfolding heap_inv_def by auto
  moreover have "\<forall>a \<in> live_bytes (L(p := None)). hp_mem h' a = hp_mem h a"
    using h'(7) \<open>covered cs = R - live_bytes (L(p := None))\<close> by auto
  ultimately show ?thesis using dealloc by auto
qed

lemma range_align:
  assumes "0 < start"
  shows "0 < align_up start BLOCK_ALIGN" "16 dvd align_up start BLOCK_ALIGN" "16 dvd align_down e BLOCK_ALIGN"
    "{align_up start BLOCK_ALIGN..<align_down e BLOCK_ALIGN} \<subseteq> {start..<e}"
proof -
  have "start \<le> align_up start BLOCK_ALIGN" "align_down e BLOCK_ALIGN \<le> e"
    unfolding block_align_pow align_down_eq by (rule align_up_ge) (rule div_times_less_eq_dividend)
  with assms show "0 < align_up start BLOCK_ALIGN"
    "{align_up start BLOCK_ALIGN..<align_down e BLOCK_ALIGN} \<subseteq> {start..<e}" by auto
  show "16 dvd align_up start BLOCK_ALIGN" "16 dvd align_down e BLOCK_ALIGN"
    using align_up_dvd [of 4 start] unfolding block_align_pow align_down_eq by simp_all
qed

lemma inv_init:
  assumes "0 < start" and lt: "align_up start BLOCK_ALIGN < align_down e BLOCK_ALIGN"
  shows "\<exists>h' cs. heap_init start e h = Some (Done h')
    \<and> heap_inv h' {align_up start BLOCK_ALIGN..<align_down e BLOCK_ALIGN} Map.empty cs"
proof -
  let ?s = "align_up start BLOCK_ALIGN" and ?e = "align_down e BLOCK_ALIGN"
  let ?h = "h\<lparr>hp_head := 0, hp_total := ?e - ?s, hp_used := 0\<rparr>"
  note al = range_align [OF assms(1)]
  obtain h' cs where h': "heap_free ?s (?e - ?s) ?h = Some (Done h')" "free_list h' cs" "wf_blocks cs"
    "covered cs = {?s..<?e}" "hp_used h' = 0" "hp_total h' = ?e - ?s"
    using heap_free_disjoint [of ?h "[]" ?s "?e - ?s"] al lt by (auto simp: dvd_diff_nat)
  then show ?thesis
    using lt by (auto simp: heap_init_def Let_def heap_inv_def live_bytes_def)
qed

lemma inv_extend:
  assumes inv: "heap_inv h R L bs" and "0 < start" and disj: "{start..<e} \<inter> R = {}"
  shows "\<exists>h' cs. heap_extend start e h = Some (Done h')
    \<and> heap_inv h' (R \<union> {align_up start BLOCK_ALIGN..<align_down e BLOCK_ALIGN}) L cs
    \<and> (\<forall>a \<in> live_bytes L. hp_mem h' a = hp_mem h a)"
proof -
  let ?s = "align_up start BLOCK_ALIGN" and ?e = "align_down e BLOCK_ALIGN"
  note al = range_align [OF assms(2)]
  show ?thesis
  proof (cases "?s < ?e")
    case True
    let ?h = "h\<lparr>hp_total := hp_total h + (?e - ?s)\<rparr>"
    have out: "{?s..<?e} \<inter> R = {}" using al(4) disj by blast
    have wf: "wf_blocks bs" "free_list ?h bs" and cov: "covered bs = R - live_bytes L"
      and sub: "live_bytes L \<subseteq> R" "finite R"
      using inv unfolding heap_inv_def by auto
    have eq: "{?s..<?s + (?e - ?s)} = {?s..<?e}" using True by auto
    have "{?s..<?e} \<inter> covered bs = {}" using out cov by blast
    moreover have "0 < ?e - ?s" "16 dvd ?e - ?s" using True al(2,3) by (simp_all add: dvd_diff_nat)
    ultimately obtain h' cs where h': "heap_free ?s (?e - ?s) ?h = Some (Done h')" "free_list h' cs" "wf_blocks cs"
      "covered cs = covered bs \<union> {?s..<?e}" "hp_used h' = hp_used h" "hp_total h' = hp_total h + (?e - ?s)"
      "\<And>a. a \<notin> covered cs \<Longrightarrow> hp_mem h' a = hp_mem h a"
      using heap_free_disjoint [OF wf(2,1) al(1,2), of "?e - ?s"] unfolding eq by auto
    have cov': "covered cs = R \<union> {?s..<?e} - live_bytes L" using h'(4) cov out sub by blast
    have "card (R \<union> {?s..<?e}) = card R + (?e - ?s)"
      using out sub(2) by (subst card_Un_disjoint) auto
    then have "heap_inv h' (R \<union> {?s..<?e}) L cs"
      using inv h' cov' unfolding heap_inv_def by auto
    moreover have "\<forall>a \<in> live_bytes L. hp_mem h' a = hp_mem h a" using h'(7) cov' by auto
    moreover have "heap_extend start e h = Some (Done h')" using True h'(1) by (simp add: heap_extend_def Let_def)
    ultimately show ?thesis by blast
  next
    case False
    then show ?thesis using inv by (auto simp: heap_extend_def Let_def)
  qed
qed

lemma inv_write:
  assumes inv: "heap_inv h R L bs" and m: "\<And>a. a \<notin> live_bytes L \<Longrightarrow> m a = hp_mem h a"
  shows "heap_inv (h\<lparr>hp_mem := m\<rparr>) R L bs"
proof -
  have wf: "wf_blocks bs" "free_list h bs" and cov: "covered bs = R - live_bytes L"
    using inv by (auto simp: heap_inv_def)
  have "m (fst b) = hp_mem h (fst b)" if "b \<in> set bs" for b
    using m wf_header_covered [OF wf(1) that] cov by simp
  then have "seg m (hp_head h) bs 0" using wf(2) seg_frame [of bs m "hp_mem h"] by simp
  with inv show ?thesis by (simp add: heap_inv_def)
qed

lemma heap_run_inv: "heap_run h R L \<Longrightarrow> \<exists>bs. heap_inv h R L bs"
proof (induction rule: heap_run.induct)
  case (run_empty m)
  have "heap_inv (heap_empty m) {} Map.empty []" by (simp add: heap_inv_def heap_empty_def live_bytes_def)
  then show ?case ..
next
  case (run_init start e h h')
  then show ?case using inv_init [of start e h] by (metis option.inject outcome.inject)
next
  case (run_extend h R L start e h')
  then show ?case using inv_extend [of h R L _ start e] by (metis option.inject outcome.inject)
next
  case (run_alloc h R L l p h')
  then show ?case using inv_alloc [of h R L _ l] by (metis option.inject prod.inject)
next
  case (run_alloc_null h R L l h')
  then show ?case using inv_alloc [of h R L _ l] by (metis option.inject prod.inject less_irrefl)
next
  case (run_dealloc h R L p l h')
  then show ?case using inv_dealloc [of h R L _ p l] by (metis option.inject outcome.inject)
next
  case (run_write h R L m)
  then show ?case using inv_write by blast
qed


lemma seg_unique: "seg m p bs 0 \<Longrightarrow> seg m p cs 0 \<Longrightarrow> bs = cs"
proof (induction bs arbitrary: p cs)
  case Nil
  then show ?case by (cases cs) auto
next
  case (Cons b bs)
  then obtain nx where b: "p = fst b" "p \<noteq> 0" "m p = Some \<lparr>fb_size = snd b, fb_next = nx\<rparr>" "seg m nx bs 0"
    by auto
  with Cons.prems(2) obtain c cs' where "cs = c # cs'" "fst c = fst b" "snd c = snd b" "seg m nx cs' 0"
    by (cases cs) auto
  with Cons.IH b(4) show ?case by (auto simp: prod_eq_iff)
qed

lemma heap_run_list:
  assumes "heap_run h R L" and "free_list h bs"
  shows "wf_blocks bs" "covered bs = R - live_bytes L"
  using heap_run_inv [OF assms(1)] seg_unique [OF assms(2)] unfolding heap_inv_def by auto

lemma fold_max_bounds:
  fixes xs :: "nat list"
  shows "acc \<le> fold max xs acc" "x \<in> set xs \<Longrightarrow> x \<le> fold max xs acc" "fold max xs acc \<in> insert acc (set xs)"
proof -
  have "fold max xs acc = Max (insert acc (set xs))" for acc
    by (metis Max.set_eq_fold list.set(2))
  then show "acc \<le> fold max xs acc" "x \<in> set xs \<Longrightarrow> x \<le> fold max xs acc"
    "fold max xs acc \<in> insert acc (set xs)"
    using Max_in [of "insert acc (set xs)"] by (simp_all del: Max_insert)
qed

lemma block_covered: "b \<in> set bs \<Longrightarrow> {fst b..<fst b + snd b} \<subseteq> covered bs"
  by (induction bs) auto

lemma largest_free:
  assumes "wf_blocks bs"
  shows "(\<exists>p. {p..<p + fold max (map snd bs) 0} \<subseteq> covered bs)
    \<and> (\<forall>p n. {p..<p + n} \<subseteq> covered bs \<longrightarrow> n \<le> fold max (map snd bs) 0)"
proof (intro conjI allI impI)
  let ?n = "fold max (map snd bs) 0"
  show "\<exists>p. {p..<p + ?n} \<subseteq> covered bs"
  proof (cases "?n = 0")
    case False
    then obtain b where "b \<in> set bs" "snd b = ?n"
      using fold_max_bounds(3) [of "map snd bs" 0] by auto
    then have "{fst b..<fst b + ?n} \<subseteq> covered bs" using block_covered by metis
    then show ?thesis ..
  qed simp
  fix p n
  assume sub: "{p..<p + n} \<subseteq> covered bs"
  show "n \<le> ?n"
  proof (cases "n = 0")
    case False
    then obtain b where "b \<in> set bs" "fst b \<le> p" "p + n \<le> fst b + snd b"
      using range_in_block [OF assms sub] by auto
    then have "n \<le> snd b" "snd b \<le> ?n" using fold_max_bounds(2) [of "snd b" "map snd bs" 0] by auto
    then show ?thesis by simp
  qed simp
qed

subsection \<open>Properties\<close>

text \<open>A heap of one page, as \<open>init\<close> leaves it, and the same heap with a 100-byte block taken.\<close>

definition page_heap :: heap where
  "page_heap = \<lparr>hp_head = 4096, hp_total = 4096, hp_used = 0,
     hp_mem = [4096 \<mapsto> \<lparr>fb_size = 4096, fb_next = 0\<rparr>]\<rparr>"

lemma page_heap_run: "heap_run page_heap {4096..<8192} Map.empty"
proof -
  have "heap_init 4090 8200 (heap_empty Map.empty) = Some (Done page_heap)"
    by (simp add: heap_init_def heap_empty_def heap_free_def free_find.simps page_heap_def
        align_up_def align_down_def BLOCK_ALIGN_def Let_def)
  moreover have "align_up 4090 BLOCK_ALIGN = 4096" "align_down 8200 BLOCK_ALIGN = 8192"
    by (simp_all add: align_up_def align_down_def BLOCK_ALIGN_def)
  ultimately show ?thesis using run_init [of 4090 8200 "heap_empty Map.empty" page_heap] by simp
qed

definition small_layout :: layout where
  "small_layout = \<lparr>lay_size = 100, lay_align = 64\<rparr>"

lemma small_layout_ok: "layout_ok small_layout" "block_size small_layout = 112"
  by (auto simp: layout_ok_def small_layout_def block_size_def align_up_def BLOCK_ALIGN_def
      intro!: exI [of _ 6])

lemma page_heap_list: "free_list page_heap [(4096, 4096)]"
  by (simp add: page_heap_def)


text \<open>C3: allocation always returns. It fails, changing nothing, only if no suitably aligned
  range of the block's size is free; otherwise the new block is aligned, lies in unused memory of
  the heap, the contents of every live block stay as they are, and the heap is again one that the
  client may go on using, with the block added.\<close>
theorem heap_alloc_correct:
  assumes "heap_run h R L" and "layout_ok l"
  shows "(heap_alloc l h = Some (0, h)
      \<and> \<not> (\<exists>p. max (lay_align l) 16 dvd p \<and> {p..<p + block_size l} \<subseteq> R - live_bytes L))
    \<or> (\<exists>p h'. heap_alloc l h = Some (p, h') \<and> p \<noteq> 0 \<and> lay_align l dvd p
        \<and> lay_size l \<le> block_size l \<and> {p..<p + block_size l} \<subseteq> R - live_bytes L
        \<and> (\<forall>a \<in> live_bytes L. hp_mem h' a = hp_mem h a) \<and> heap_run h' R (L(p \<mapsto> l)))"
proof -
  obtain bs where "heap_inv h R L bs" using heap_run_inv [OF assms(1)] ..
  from inv_alloc [OF this assms(2)] show ?thesis
    using run_alloc [OF assms] block_size_bounds(3) [of l] unfolding live_range_def by (metis less_not_refl)
qed

theorem heap_alloc_correct_witness:
  "\<exists>p h'. heap_alloc small_layout page_heap = Some (p, h') \<and> p \<noteq> 0 \<and> 64 dvd p"
proof -
  have "2048 dvd (4096 :: nat)" "{4096..<4096 + 112} \<subseteq> {4096..<8192 :: nat} - live_bytes Map.empty"
    by (auto simp: live_bytes_def)
  then have "\<exists>p. max (lay_align small_layout) 16 dvd p
      \<and> {p..<p + block_size small_layout} \<subseteq> {4096..<8192} - live_bytes Map.empty"
    unfolding small_layout_ok(2) by (intro exI [of _ 4096]) (simp add: small_layout_def)
  then show ?thesis
    using heap_alloc_correct [OF page_heap_run small_layout_ok(1)]
    unfolding small_layout_ok(2) by (auto simp: small_layout_def)
qed

text \<open>C19: a live block can always be freed, without a panic and without touching the other
  live blocks; and a free whose range overlaps memory that is already free (a double free, say) is
  always caught by the panic, with no write to memory before it.\<close>
theorem heap_dealloc_correct:
  assumes "heap_run h R L"
  shows "(\<forall>p l. L p = Some l \<longrightarrow>
      (\<exists>h'. heap_dealloc p l h = Some (Done h') \<and> heap_run h' R (L(p := None))
         \<and> (\<forall>a \<in> live_bytes (L(p := None)). hp_mem h' a = hp_mem h a)))
    \<and> (\<forall>p l. p \<noteq> 0 \<longrightarrow> 16 dvd p \<longrightarrow> {p..<p + block_size l} \<inter> (R - live_bytes L) \<noteq> {} \<longrightarrow>
         heap_dealloc p l h = Some Panic)"
proof -
  obtain bs where inv: "heap_inv h R L bs" using heap_run_inv [OF assms] ..
  have "heap_dealloc p l h = Some Panic"
    if "p \<noteq> 0" "16 dvd p" "{p..<p + block_size l} \<inter> (R - live_bytes L) \<noteq> {}" for p l
    using heap_free_overlap [of h bs p "block_size l"] that block_size_bounds [of l] inv
    by (simp add: heap_dealloc_def heap_inv_def)
  moreover have "\<exists>h'. heap_dealloc p l h = Some (Done h') \<and> heap_run h' R (L(p := None))
         \<and> (\<forall>a \<in> live_bytes (L(p := None)). hp_mem h' a = hp_mem h a)" if "L p = Some l" for p l
    using inv_dealloc [OF inv that] run_dealloc [OF assms that] by blast
  ultimately show ?thesis by blast
qed

theorem heap_dealloc_correct_witness:
  "heap_dealloc 4160 small_layout page_heap = Some Panic"
proof -
  have "{4160..<4160 + 112} \<inter> ({4096..<8192} - live_bytes Map.empty) \<noteq> ({} :: nat set)"
    by (auto simp: live_bytes_def)
  then show ?thesis
    using heap_dealloc_correct [OF page_heap_run] unfolding small_layout_ok(2) [symmetric] by simp
qed

text \<open>C20: in every heap a client can reach, live blocks are aligned, hold what was asked for,
  lie in the heap's memory and never overlap; and \<open>stats\<close> returns the bytes the heap was given, the
  bytes the live blocks take, and the length of the longest run of free bytes.\<close>
theorem heap_live_blocks:
  assumes "heap_run h R L"
  shows "(\<forall>p l. L p = Some l \<longrightarrow> p \<noteq> 0 \<and> lay_align l dvd p \<and> lay_size l \<le> block_size l
      \<and> {p..<p + block_size l} \<subseteq> R)
    \<and> (\<forall>p q l k. L p = Some l \<longrightarrow> L q = Some k \<longrightarrow> p \<noteq> q \<longrightarrow>
         {p..<p + block_size l} \<inter> {q..<q + block_size k} = {})
    \<and> (\<exists>s. heap_stats h = Some s \<and> hs_total s = card R \<and> hs_used s = card (live_bytes L)
         \<and> (\<exists>p. {p..<p + hs_largest_free s} \<subseteq> R - live_bytes L)
         \<and> (\<forall>p n. {p..<p + n} \<subseteq> R - live_bytes L \<longrightarrow> n \<le> hs_largest_free s))"
proof -
  obtain bs where inv: "heap_inv h R L bs" using heap_run_inv [OF assms] ..
  then have list: "free_list h bs" "wf_blocks bs" "covered bs = R - live_bytes L"
    by (auto simp: heap_inv_def)
  have "heap_stats h = Some \<lparr>hs_total = card R, hs_used = card (live_bytes L),
      hs_largest_free = fold max (map snd bs) 0\<rparr>"
    using inv by (simp add: heap_stats_def largest_loop_ok [OF list(1)] heap_inv_def)
  moreover note largest_free [OF list(2), unfolded list(3)]
  moreover have "{p..<p + block_size l} \<subseteq> R" if "L p = Some l" for p l
    using inv that live_bytes_mem [of _ L] unfolding heap_inv_def live_range_def by blast
  ultimately show ?thesis
    using inv block_size_bounds(3) unfolding heap_inv_def live_range_def by auto
qed

theorem heap_live_blocks_witness:
  "\<exists>s. heap_stats page_heap = Some s \<and> hs_total s = 4096 \<and> hs_used s = 0 \<and> 4096 \<le> hs_largest_free s"
proof -
  obtain s where s: "heap_stats page_heap = Some s" "hs_total s = card {4096..<8192 :: nat}"
    "hs_used s = card (live_bytes Map.empty)"
    "\<And>p n. {p..<p + n} \<subseteq> {4096..<8192} - live_bytes Map.empty \<Longrightarrow> n \<le> hs_largest_free s"
    using heap_live_blocks [OF page_heap_run] by blast
  then show ?thesis using s(4) [of 4096 4096] by (simp add: live_bytes_def)
qed

text \<open>freed blocks are merged completely: the free list is determined by which bytes are
  free, whatever the order of allocations and frees was. In particular a heap of one region whose
  blocks have all been freed has one free block again, the whole region.\<close>
theorem heap_free_list_canonical:
  assumes "heap_run h R L" and "free_list h bs"
  shows "(\<forall>h2 K cs. heap_run h2 R K \<longrightarrow> live_bytes K = live_bytes L \<longrightarrow> free_list h2 cs \<longrightarrow> cs = bs)
    \<and> (\<forall>a e. R = {a..<e} \<longrightarrow> a < e \<longrightarrow> L = Map.empty \<longrightarrow> bs = [(a, e - a)])"
proof (intro conjI allI impI)
  note here = heap_run_list [OF assms]
  fix h2 K cs
  assume "heap_run h2 R K" "live_bytes K = live_bytes L" "free_list h2 cs"
  with heap_run_list [of h2 R K cs] here show "cs = bs" by (simp add: wf_covered_unique)
next
  note here = heap_run_list [OF assms]
  fix a e :: nat
  assume R: "R = {a..<e}" "a < e" "L = Map.empty"
  then have cov: "covered bs = {a..<e}" using here by (simp add: live_bytes_def)
  then obtain b where b: "b \<in> set bs" "fst b \<le> a" "a + (e - a) \<le> fst b + snd b"
    using range_in_block [OF here(1), of a "e - a"] R by auto
  have "{fst b..<fst b + snd b} \<subseteq> {a..<e}" using block_covered [OF b(1)] cov by simp
  with b R(2) have "b = (a, e - a)" by (auto simp: prod_eq_iff)
  with b(1) here(1) have "wf_blocks [(a, e - a)]" by (auto simp: wf_blocks_def)
  with here(1) cov show "bs = [(a, e - a)]" using R(2) by (intro wf_covered_unique) auto
qed

theorem heap_free_list_canonical_witness:
  "free_list page_heap [(4096, 4096)] \<and> [(4096, 4096)] = [(4096 :: nat, 8192 - 4096 :: nat)]"
proof
  show "free_list page_heap [(4096, 4096)]" by (rule page_heap_list)
  have "(4096 :: nat) < 8192" by simp
  then show "[(4096, 4096)] = [(4096 :: nat, 8192 - 4096 :: nat)]"
    using heap_free_list_canonical [OF page_heap_run page_heap_list] by metis
qed

end
