(* ===== verification/Sched.thy ===== *)
theory Sched
  imports Prelude
begin

text \<open>
  The scheduling policy, \<open>rustypi-core/src/sched.rs\<close>: \<open>RunQueue\<close> with every operation. A task
  is its index in the task list; \<open>None\<close> as the result of an operation is a panic (a core that
  has not started, or does not exist). Counters are \<open>u64\<close> words.

  The lemmas give the effect of each operation on a task's state and flags; the properties say
  that choosing the next task is a fair round robin which idles only when nothing can run, and
  that no wake-up is lost, whatever other cores do between a task's decision to wait and the
  wait itself.
\<close>

subsection \<open>State\<close>

type_synonym task_id = nat
type_synonym event = u32
type_synonym generation = u64

datatype state = Running | Ready | Sleeping u64 | Waiting event | Blocked | Finished

record entry =
  en_name :: rstr
  en_state :: state
  en_ticks :: u64
  en_window_ticks :: u64
  en_recent_ticks :: u64
  en_wake_pending :: bool
  en_interrupt_pending :: bool

record task_info =
  ti_id :: task_id
  ti_name :: rstr
  ti_state :: state
  ti_core :: "nat option"
  ti_ticks :: u64
  ti_recent_ticks :: u64

record run_queue =
  rq_tasks :: "entry option list"
  rq_current :: "task_id option list"
  rq_idle :: "task_id option list"
  rq_generations :: "u64 list"
  rq_window_elapsed :: u64

definition CPU_WINDOW :: u64 where "CPU_WINDOW = 100"

definition entry_new :: "rstr \<Rightarrow> state \<Rightarrow> entry" where
  "entry_new name st = \<lparr>en_name = name, en_state = st, en_ticks = 0, en_window_ticks = 0,
     en_recent_ticks = 0, en_wake_pending = False, en_interrupt_pending = False\<rparr>"

fun state_name :: "state \<Rightarrow> string" where
  "state_name Running = ''running''"
| "state_name Ready = ''ready''"
| "state_name (Sleeping _) = ''sleeping''"
| "state_name (Waiting _) = ''waiting''"
| "state_name Blocked = ''blocked''"
| "state_name Finished = ''finished''"

subsection \<open>Operations\<close>

definition rq_new :: "rstr \<Rightarrow> nat \<Rightarrow> run_queue option" where
  \<comment> \<open>\<open>current[0]\<close> panics for no cores\<close>
  "rq_new name cores =
     (if cores = 0 then None
      else Some \<lparr>rq_tasks = [Some (entry_new name Running)],
                 rq_current = (replicate cores None)[0 := Some 0],
                 rq_idle = replicate cores None, rq_generations = [], rq_window_elapsed = 0\<rparr>)"

definition current :: "run_queue \<Rightarrow> nat \<Rightarrow> task_id option" where
  "current q core = (if core < length (rq_current q) then rq_current q ! core else None)"

definition core_of :: "run_queue \<Rightarrow> task_id \<Rightarrow> nat option" where
  "core_of q tid = position (\<lambda>c. c = Some tid) (rq_current q)"

definition entry_of :: "run_queue \<Rightarrow> task_id \<Rightarrow> entry option" where
  "entry_of q tid = (if tid < length (rq_tasks q) then rq_tasks q ! tid else None)"

definition upd_entry :: "task_id \<Rightarrow> (entry \<Rightarrow> entry) \<Rightarrow> run_queue \<Rightarrow> run_queue" where
  \<comment> \<open>\<open>entry_mut\<close> and an assignment through it; nothing for a task that does not exist\<close>
  "upd_entry tid f q = q\<lparr>rq_tasks := (rq_tasks q)[tid := map_option f (entry_of q tid)]\<rparr>"

definition state_of :: "run_queue \<Rightarrow> task_id \<Rightarrow> state option" where
  "state_of q tid = map_option en_state (entry_of q tid)"

definition set_state :: "task_id \<Rightarrow> state \<Rightarrow> run_queue \<Rightarrow> run_queue" where
  "set_state tid st = upd_entry tid (\<lambda>e. e\<lparr>en_state := st\<rparr>)"

definition add :: "rstr \<Rightarrow> run_queue \<Rightarrow> task_id \<times> run_queue" where
  "add name q = (length (rq_tasks q), q\<lparr>rq_tasks := rq_tasks q @ [Some (entry_new name Ready)]\<rparr>)"

definition add_idle :: "rstr \<Rightarrow> nat \<Rightarrow> run_queue \<Rightarrow> (task_id \<times> run_queue) option" where
  "add_idle name core q =
     (let (tid, q1) = add name q
      in if core < length (rq_idle q1) then Some (tid, q1\<lparr>rq_idle := (rq_idle q1)[core := Some tid]\<rparr>)
         else None)"

definition start_core :: "rstr \<Rightarrow> nat \<Rightarrow> run_queue \<Rightarrow> (task_id \<times> run_queue) option" where
  "start_core name core q =
     (if core < length (rq_current q) \<and> rq_current q ! core = None
      then map_option (\<lambda>(tid, q1). (tid, (set_state tid Running q1)\<lparr>rq_current := (rq_current q1)[core := Some tid]\<rparr>))
             (add_idle name core q)
      else None)"

definition is_idle :: "run_queue \<Rightarrow> task_id \<Rightarrow> bool" where
  "is_idle q tid \<longleftrightarrow> Some tid \<in> set (rq_idle q)"

definition idle_core :: "run_queue \<Rightarrow> nat \<Rightarrow> nat option" where
  "idle_core q except_core =
     find (\<lambda>core. core \<noteq> except_core \<and> (case rq_current q ! core of None \<Rightarrow> False | Some tid \<Rightarrow> is_idle q tid))
       [0..<length (rq_current q)]"

definition take_interrupt :: "nat \<Rightarrow> run_queue \<Rightarrow> (task_id \<times> bool \<times> run_queue) option" where
  "take_interrupt core q =
     map_option (\<lambda>cur. (cur, (case entry_of q cur of None \<Rightarrow> False | Some e \<Rightarrow> en_interrupt_pending e),
                         upd_entry cur (\<lambda>e. e\<lparr>en_interrupt_pending := False\<rparr>) q))
       (current q core)"

definition sleep_current :: "nat \<Rightarrow> u64 \<Rightarrow> run_queue \<Rightarrow> run_queue option" where
  "sleep_current core until_us q =
     map_option (\<lambda>(cur, interrupted, q1). if interrupted then q1 else set_state cur (Sleeping until_us) q1)
       (take_interrupt core q)"

definition generation :: "run_queue \<Rightarrow> event \<Rightarrow> generation" where
  "generation q ev = (case get_at (rq_generations q) (unat ev) of None \<Rightarrow> 0 | Some g \<Rightarrow> g)"

definition wait_current :: "nat \<Rightarrow> event \<Rightarrow> generation \<Rightarrow> run_queue \<Rightarrow> run_queue option" where
  "wait_current core ev seen q =
     map_option (\<lambda>(cur, interrupted, q1).
         if \<not> interrupted \<and> generation q1 ev = seen then set_state cur (Waiting ev) q1 else q1)
       (take_interrupt core q)"

definition block_task :: "task_id \<Rightarrow> run_queue \<Rightarrow> run_queue" where
  "block_task cur q =
     (let woken = (case entry_of q cur of None \<Rightarrow> False | Some e \<Rightarrow> en_wake_pending e);
          q1 = upd_entry cur (\<lambda>e. e\<lparr>en_wake_pending := False\<rparr>) q
      in if woken then q1 else set_state cur Blocked q1)"

definition block_current :: "nat \<Rightarrow> run_queue \<Rightarrow> run_queue option" where
  "block_current core q = map_option (\<lambda>cur. block_task cur q) (current q core)"

definition wake :: "task_id \<Rightarrow> run_queue \<Rightarrow> bool \<times> run_queue" where
  "wake tid q =
     (case entry_of q tid of
        None \<Rightarrow> (False, q)
      | Some e \<Rightarrow>
          if en_state e = Blocked then (True, upd_entry tid (\<lambda>e. e\<lparr>en_state := Ready\<rparr>) q)
          else if en_state e \<noteq> Finished then (False, upd_entry tid (\<lambda>e. e\<lparr>en_wake_pending := True\<rparr>) q)
          else (False, q))"

definition interrupt :: "task_id \<Rightarrow> run_queue \<Rightarrow> bool \<times> run_queue" where
  "interrupt tid q =
     (case entry_of q tid of
        None \<Rightarrow> (False, q)
      | Some e \<Rightarrow>
          (case en_state e of
             Sleeping _ \<Rightarrow> (True, upd_entry tid (\<lambda>e. e\<lparr>en_state := Ready\<rparr>) q)
           | Waiting _ \<Rightarrow> (True, upd_entry tid (\<lambda>e. e\<lparr>en_state := Ready\<rparr>) q)
           | Running \<Rightarrow> (False, upd_entry tid (\<lambda>e. e\<lparr>en_interrupt_pending := True\<rparr>) q)
           | Ready \<Rightarrow> (False, upd_entry tid (\<lambda>e. e\<lparr>en_interrupt_pending := True\<rparr>) q)
           | _ \<Rightarrow> (False, q)))"

definition finish_current :: "nat \<Rightarrow> run_queue \<Rightarrow> run_queue option" where
  "finish_current core q = map_option (\<lambda>cur. set_state cur Finished q) (current q core)"

definition map_entries :: "(entry \<Rightarrow> entry) \<Rightarrow> run_queue \<Rightarrow> run_queue" where
  \<comment> \<open>\<open>for entry in self.tasks.iter_mut().flatten()\<close>\<close>
  "map_entries f q = q\<lparr>rq_tasks := map (map_option f) (rq_tasks q)\<rparr>"

definition notify :: "event \<Rightarrow> run_queue \<Rightarrow> bool \<times> run_queue" where
  "notify ev q =
     (let index = unat ev;
          gens = (if length (rq_generations q) \<le> index then resize (index + 1) 0 (rq_generations q)
                  else rq_generations q);
          q1 = q\<lparr>rq_generations := gens[index := gens ! index + 1]\<rparr>
      in (list_ex (\<lambda>x. case x of None \<Rightarrow> False | Some e \<Rightarrow> en_state e = Waiting ev) (rq_tasks q1),
          map_entries (\<lambda>e. if en_state e = Waiting ev then e\<lparr>en_state := Ready\<rparr> else e) q1))"

definition wake_sleeper :: "u64 \<Rightarrow> entry \<Rightarrow> entry" where
  "wake_sleeper now_us e =
     (case en_state e of
        Sleeping until_us \<Rightarrow> if until_us \<le> now_us then e\<lparr>en_state := Ready\<rparr> else e
      | _ \<Rightarrow> e)"

definition tick :: "nat \<Rightarrow> u64 \<Rightarrow> run_queue \<Rightarrow> run_queue option" where
  "tick core now_us q =
     map_option (\<lambda>cur.
         let q1 = upd_entry cur (\<lambda>e. e\<lparr>en_ticks := en_ticks e + 1, en_window_ticks := en_window_ticks e + 1\<rparr>) q;
             q2 = (if core = 0
                   then let q' = q1\<lparr>rq_window_elapsed := rq_window_elapsed q1 + 1\<rparr>
                        in if rq_window_elapsed q' = CPU_WINDOW
                           then map_entries (\<lambda>e. e\<lparr>en_recent_ticks := en_window_ticks e, en_window_ticks := 0\<rparr>)
                                  (q'\<lparr>rq_window_elapsed := 0\<rparr>)
                           else q'
                   else q1)
         in map_entries (wake_sleeper now_us) q2)
       (current q core)"

definition pickable :: "run_queue \<Rightarrow> (task_id \<Rightarrow> bool) \<Rightarrow> task_id \<Rightarrow> bool" where
  "pickable q busy tid \<longleftrightarrow> state_of q tid = Some Ready \<and> \<not> is_idle q tid \<and> \<not> busy tid"

definition choose_next :: "nat \<Rightarrow> bool \<Rightarrow> (task_id \<Rightarrow> bool) \<Rightarrow> task_id \<Rightarrow> run_queue \<Rightarrow> task_id" where
  "choose_next core preempt busy cur q =
     (let keep_current = (state_of q cur = Some Running \<and> \<not> is_idle q cur)
      in if keep_current \<and> \<not> preempt then cur
         else let count = length (rq_tasks q)
              in case find (pickable q busy) (map (\<lambda>offset. (cur + offset) mod count) [1..<count + 1]) of
                   Some tid \<Rightarrow> tid
                 | None \<Rightarrow> if keep_current then cur
                           else (case rq_idle q ! core of Some tid \<Rightarrow> tid | None \<Rightarrow> cur))"

definition pick_next :: "nat \<Rightarrow> bool \<Rightarrow> (task_id \<Rightarrow> bool) \<Rightarrow> run_queue \<Rightarrow> (task_id \<times> run_queue) option" where
  "pick_next core preempt busy q =
     map_option (\<lambda>cur.
         let current_runnable = (state_of q cur = Some Running);
             nxt = choose_next core preempt busy cur q;
             q1 = (if nxt \<noteq> cur \<and> current_runnable then set_state cur Ready q else q);
             q2 = q1\<lparr>rq_current := (rq_current q1)[core := Some nxt]\<rparr>
         in (nxt, set_state nxt Running q2))
       (current q core)"

definition finished :: "run_queue \<Rightarrow> task_id list" where
  "finished q = filter (\<lambda>tid. core_of q tid = None \<and> state_of q tid = Some Finished) [0..<length (rq_tasks q)]"

definition remove :: "task_id \<Rightarrow> run_queue \<Rightarrow> run_queue" where
  "remove tid q = (if tid < length (rq_tasks q) then q\<lparr>rq_tasks := (rq_tasks q)[tid := None]\<rparr> else q)"

definition tasks :: "run_queue \<Rightarrow> task_info list" where
  "tasks q = List.map_filter (\<lambda>i. map_option (\<lambda>e. \<lparr>ti_id = i, ti_name = en_name e, ti_state = en_state e,
        ti_core = core_of q i, ti_ticks = en_ticks e, ti_recent_ticks = en_recent_ticks e\<rparr>)
      (rq_tasks q ! i)) [0..<length (rq_tasks q)]"

subsection \<open>What the operations do to a task\<close>

named_theorems sched_simps

lemma entry_upd_entry [sched_simps]:
  "entry_of (upd_entry tid f q) i = (if i = tid then map_option f (entry_of q i) else entry_of q i)"
  by (simp add: entry_of_def upd_entry_def)

lemma entry_map_entries [sched_simps]: "entry_of (map_entries f q) i = map_option f (entry_of q i)"
  by (simp add: entry_of_def map_entries_def)

lemma upd_entry_fields [sched_simps]:
  "rq_current (upd_entry tid f q) = rq_current q" "rq_idle (upd_entry tid f q) = rq_idle q"
  "rq_generations (upd_entry tid f q) = rq_generations q" "length (rq_tasks (upd_entry tid f q)) = length (rq_tasks q)"
  "rq_window_elapsed (upd_entry tid f q) = rq_window_elapsed q"
  by (simp_all add: upd_entry_def)

lemma map_entries_fields [sched_simps]:
  "rq_current (map_entries f q) = rq_current q" "rq_idle (map_entries f q) = rq_idle q"
  "rq_generations (map_entries f q) = rq_generations q" "length (rq_tasks (map_entries f q)) = length (rq_tasks q)"
  by (simp_all add: map_entries_def)

lemma entry_other_fields [sched_simps]:
  "entry_of (q\<lparr>rq_current := c\<rparr>) = entry_of q" "entry_of (q\<lparr>rq_idle := d\<rparr>) = entry_of q"
  "entry_of (q\<lparr>rq_generations := g\<rparr>) = entry_of q" "entry_of (q\<lparr>rq_window_elapsed := w\<rparr>) = entry_of q"
  by (simp_all add: entry_of_def fun_eq_iff)

lemma generation_upd [sched_simps]:
  "generation (upd_entry tid f q) = generation q" "generation (map_entries f q) = generation q"
  "generation (set_state tid st q) = generation q"
  by (simp_all add: generation_def set_state_def sched_simps fun_eq_iff)


lemma entry_set_state [sched_simps]:
  "entry_of (set_state tid st q) i =
     (if i = tid then map_option (\<lambda>e. e\<lparr>en_state := st\<rparr>) (entry_of q i) else entry_of q i)"
  by (simp add: set_state_def entry_upd_entry)

lemma state_set_state [sched_simps]:
  "state_of (set_state tid st q) i = (if i = tid then map_option (\<lambda>_. st) (state_of q i) else state_of q i)"
  by (simp add: state_of_def entry_set_state option.map_comp comp_def)

lemma state_other_fields [sched_simps]:
  "state_of (q\<lparr>rq_current := c\<rparr>) = state_of q" "state_of (q\<lparr>rq_idle := d\<rparr>) = state_of q"
  "is_idle (q\<lparr>rq_current := c\<rparr>) = is_idle q" "is_idle (set_state tid st q) = is_idle q"
  "is_idle (upd_entry tid f q) = is_idle q" "is_idle (map_entries f q) = is_idle q"
  by (simp_all add: state_of_def is_idle_def set_state_def sched_simps fun_eq_iff)

lemma current_fields [sched_simps]:
  "current (upd_entry tid f q) = current q" "current (map_entries f q) = current q"
  "current (set_state tid st q) = current q" "current (q\<lparr>rq_generations := g\<rparr>) = current q"
  "current (q\<lparr>rq_window_elapsed := w\<rparr>) = current q" "current (q\<lparr>rq_idle := d\<rparr>) = current q"
  "current (q\<lparr>rq_tasks := ts\<rparr>) = current q"
  by (simp_all add: current_def set_state_def sched_simps fun_eq_iff)

lemma set_state_fields [sched_simps]:
  "rq_current (set_state tid st q) = rq_current q" "rq_idle (set_state tid st q) = rq_idle q"
  "rq_generations (set_state tid st q) = rq_generations q"
  "length (rq_tasks (set_state tid st q)) = length (rq_tasks q)"
  by (simp_all add: set_state_def sched_simps)

lemma entry_add [sched_simps]:
  "entry_of (snd (add name q)) i =
     (if i = length (rq_tasks q) then Some (entry_new name Ready) else entry_of q i)"
  by (simp add: add_def entry_of_def nth_append)

lemma add_idle_eq:
  "add_idle name core q = Some (i, q') \<longleftrightarrow> core < length (rq_idle q) \<and> i = length (rq_tasks q)
     \<and> q' = (snd (add name q))\<lparr>rq_idle := (rq_idle q)[core := Some i]\<rparr>"
  by (auto simp: add_idle_def add_def Let_def)

lemma start_core_eq:
  "start_core name core q = Some (i, q') \<longleftrightarrow> core < length (rq_current q) \<and> rq_current q ! core = None
     \<and> core < length (rq_idle q) \<and> i = length (rq_tasks q)
     \<and> q' = (set_state i Running ((snd (add name q))\<lparr>rq_idle := (rq_idle q)[core := Some i]\<rparr>))
              \<lparr>rq_current := (rq_current q)[core := Some i]\<rparr>"
  by (cases "add_idle name core q") (auto simp: start_core_def add_idle_eq, auto simp: add_idle_def add_def Let_def)

lemma entry_remove [sched_simps]: "entry_of (remove i q) t = (if t = i then None else entry_of q t)"
  by (simp add: remove_def entry_of_def)

lemma wake_sleeper_fields [sched_simps]:
  "en_wake_pending (wake_sleeper now e) = en_wake_pending e"
  "en_interrupt_pending (wake_sleeper now e) = en_interrupt_pending e"
  "en_ticks (wake_sleeper now e) = en_ticks e"
  "en_state (wake_sleeper now e) = (case en_state e of Sleeping u \<Rightarrow> if u \<le> now then Ready else Sleeping u | s \<Rightarrow> s)"
  by (simp_all add: wake_sleeper_def split: state.split)

lemma tick_entry:
  assumes "tick core now q = Some q'" and "entry_of q t = Some e"
  shows "\<exists>e0. entry_of q' t = Some (wake_sleeper now e0) \<and> en_state e0 = en_state e
    \<and> en_wake_pending e0 = en_wake_pending e \<and> en_interrupt_pending e0 = en_interrupt_pending e
    \<and> en_ticks e0 = en_ticks e + (if current q core = Some t then 1 else 0)"
proof -
  obtain cur where cur: "current q core = Some cur" using assms(1) by (auto simp: tick_def)
  show ?thesis
    using assms by (cases "core = 0"; cases "rq_window_elapsed q + 1 = CPU_WINDOW"; cases "t = cur")
      (auto simp: tick_def cur Let_def sched_simps)
qed

lemma entry_bound: "entry_of q i = Some e \<Longrightarrow> i < length (rq_tasks q)"
  by (auto simp: entry_of_def split: if_splits)

lemma state_bound: "state_of q i = Some st \<Longrightarrow> i < length (rq_tasks q)"
  by (auto simp: state_of_def dest: entry_bound)

lemma current_core: "current q core = Some c \<Longrightarrow> core < length (rq_current q)"
  by (auto simp: current_def split: if_splits)

subsection \<open>Round robin\<close>

text \<open>How many places after \<open>cur\<close> task \<open>t\<close> is, counting around; \<open>cur\<close> itself comes last.\<close>

definition ahead :: "nat \<Rightarrow> nat \<Rightarrow> nat \<Rightarrow> nat" where
  "ahead n cur t = (if cur < t then t - cur else t + n - cur)"

lemma ahead_bounds: "cur < n \<Longrightarrow> t < n \<Longrightarrow> 1 \<le> ahead n cur t \<and> ahead n cur t \<le> n"
  by (auto simp: ahead_def)

lemma ahead_mod: "cur < n \<Longrightarrow> t < n \<Longrightarrow> (cur + ahead n cur t) mod n = t"
  by (auto simp: ahead_def)

lemma ahead_unique:
  assumes "cur < n" and "1 \<le> d" and "d \<le> n"
  shows "ahead n cur ((cur + d) mod n) = d"
proof (cases "cur + d < n")
  case False
  then have "(cur + d) mod n = cur + d - n" using assms by (simp add: mod_if)
  with False assms show ?thesis by (auto simp: ahead_def)
qed (use assms in \<open>auto simp: ahead_def\<close>)


lemma find_rotated_Some:
  assumes "cur < n" and "find P (map (\<lambda>offset. (cur + offset) mod n) [1..<n + 1]) = Some t"
  shows "t < n \<and> P t \<and> (\<forall>u<n. P u \<longrightarrow> ahead n cur t \<le> ahead n cur u)"
proof -
  have len: "i < n \<Longrightarrow> map (\<lambda>offset. (cur + offset) mod n) [1..<n + 1] ! i = (cur + Suc i) mod n" for i
    by (simp del: upt_Suc)
  obtain i where i: "i < n" "P t" "t = (cur + Suc i) mod n"
    and first: "\<And>j. j < i \<Longrightarrow> \<not> P ((cur + Suc j) mod n)"
    using assms(2) unfolding find_Some_iff by (auto simp: len simp del: upt_Suc)
  have "ahead n cur t \<le> ahead n cur u" if "u < n" "P u" for u
  proof (rule ccontr)
    assume less: "\<not> ahead n cur t \<le> ahead n cur u"
    have t: "ahead n cur t = Suc i" unfolding i(3) using assms(1) i(1) by (intro ahead_unique) auto
    have u: "1 \<le> ahead n cur u" "(cur + ahead n cur u) mod n = u"
      using ahead_bounds ahead_mod assms(1) that(1) by blast+
    then have "\<not> P ((cur + Suc (ahead n cur u - 1)) mod n)" using less t by (intro first) simp
    with u that(2) show False by simp
  qed
  moreover have "t < n" using i(3) assms(1) by simp
  ultimately show ?thesis using i(2) by blast
qed

lemma find_rotated_None:
  assumes "cur < n"
  shows "find P (map (\<lambda>offset. (cur + offset) mod n) [1..<n + 1]) = None \<longleftrightarrow> (\<forall>u<n. \<not> P u)"
proof -
  have "(\<lambda>offset. (cur + offset) mod n) ` set [1..<n + 1] = {0..<n}"
  proof (intro equalityI subsetI)
    fix u assume "u \<in> {0..<n}"
    then have "u < n" by simp
    note ahead_mod [OF assms this] ahead_bounds [OF assms this]
    then show "u \<in> (\<lambda>offset. (cur + offset) mod n) ` set [1..<n + 1]"
      by (intro image_eqI [of _ _ "ahead n cur u"]) auto
  qed (use assms in auto)
  then show ?thesis unfolding find_None_iff set_map by (metis atLeastLessThan_iff zero_le)
qed

text \<open>The choice, branch by branch.\<close>

lemma choose_next_cases:
  assumes "cur < length (rq_tasks q)"
  shows "let keep = (state_of q cur = Some Running \<and> \<not> is_idle q cur);
             nxt = choose_next core preempt busy cur q; n = length (rq_tasks q)
    in if keep \<and> \<not> preempt then nxt = cur
       else if \<exists>u. pickable q busy u
       then pickable q busy nxt \<and> (\<forall>u. pickable q busy u \<longrightarrow> ahead n cur nxt \<le> ahead n cur u)
       else if keep then nxt = cur
       else nxt = (case rq_idle q ! core of Some i \<Rightarrow> i | None \<Rightarrow> cur)"
proof -
  let ?n = "length (rq_tasks q)"
  have lt: "pickable q busy u \<Longrightarrow> u < ?n" for u by (auto simp: pickable_def dest: state_bound)
  show ?thesis
  proof (cases "find (pickable q busy) (map (\<lambda>offset. (cur + offset) mod ?n) [1..<?n + 1])")
    case None
    then have "\<not> (\<exists>u. pickable q busy u)" using find_rotated_None [OF assms] lt by blast
    with None show ?thesis by (auto simp: choose_next_def Let_def)
  next
    case (Some t)
    note found = find_rotated_Some [OF assms Some]
    have "choose_next core preempt busy cur q =
        (if state_of q cur = Some Running \<and> \<not> is_idle q cur \<and> \<not> preempt then cur else t)"
      using Some by (auto simp: choose_next_def Let_def)
    with found lt show ?thesis by (auto simp: Let_def)
  qed
qed

lemma pick_next_eq:
  "pick_next core preempt busy q = Some (nxt, q') \<longleftrightarrow>
    (\<exists>cur. current q core = Some cur \<and> nxt = choose_next core preempt busy cur q
      \<and> q' = set_state nxt Running ((if nxt \<noteq> cur \<and> state_of q cur = Some Running then set_state cur Ready q else q)
                \<lparr>rq_current := (rq_current q)[core := Some nxt]\<rparr>))"
proof (cases "current q core")
  case (Some cur)
  have "rq_current (if b then set_state cur Ready q else q) = rq_current q" for b
    by (simp add: sched_simps)
  with Some show ?thesis unfolding pick_next_def Let_def by auto
qed (simp add: pick_next_def)

lemma pick_next_state:
  assumes "pick_next core preempt busy q = Some (nxt, q')" and "current q core = Some cur"
  shows "state_of q' i = (if i = nxt then map_option (\<lambda>_. Running) (state_of q i)
      else if i = cur \<and> state_of q cur = Some Running then Some Ready else state_of q i)"
    and "current q' c = (if c = core then Some nxt else current q c)"
    and "rq_idle q' = rq_idle q" and "length (rq_tasks q') = length (rq_tasks q)"
    and "length (rq_current q') = length (rq_current q)"
    and "rq_generations q' = rq_generations q"
proof -
  have q': "q' = set_state nxt Running ((if nxt \<noteq> cur \<and> state_of q cur = Some Running then set_state cur Ready q else q)
                \<lparr>rq_current := (rq_current q)[core := Some nxt]\<rparr>)"
    using assms by (simp add: pick_next_eq)
  show "state_of q' i = (if i = nxt then map_option (\<lambda>_. Running) (state_of q i)
      else if i = cur \<and> state_of q cur = Some Running then Some Ready else state_of q i)"
    by (auto simp: q' sched_simps)
  show "current q' c = (if c = core then Some nxt else current q c)"
    using current_core [OF assms(2)] by (auto simp: q' current_def sched_simps)
  show "rq_idle q' = rq_idle q" "length (rq_tasks q') = length (rq_tasks q)"
    "length (rq_current q') = length (rq_current q)" "rq_generations q' = rq_generations q"
    by (simp_all add: q' sched_simps)
qed


subsection \<open>Interleavings\<close>

text \<open>Everything the cores can do to the queue, each under the scheduler's lock.\<close>

datatype op =
    OpAdd rstr | OpAddIdle rstr nat | OpStartCore rstr nat
  | OpSleep nat u64 | OpWait nat event generation | OpBlock nat | OpFinish nat
  | OpWake task_id | OpInterrupt task_id | OpNotify event | OpTick nat u64
  | OpPick nat bool "task_id list" | OpRemove task_id

fun apply_op :: "op \<Rightarrow> run_queue \<Rightarrow> run_queue option" where
  "apply_op (OpAdd name) q = Some (snd (add name q))"
| "apply_op (OpAddIdle name core) q = map_option snd (add_idle name core q)"
| "apply_op (OpStartCore name core) q = map_option snd (start_core name core q)"
| "apply_op (OpSleep core until_us) q = sleep_current core until_us q"
| "apply_op (OpWait core ev seen) q = wait_current core ev seen q"
| "apply_op (OpBlock core) q = block_current core q"
| "apply_op (OpFinish core) q = finish_current core q"
| "apply_op (OpWake i) q = Some (snd (wake i q))"
| "apply_op (OpInterrupt i) q = Some (snd (interrupt i q))"
| "apply_op (OpNotify ev) q = Some (snd (notify ev q))"
| "apply_op (OpTick core now_us) q = tick core now_us q"
| "apply_op (OpPick core preempt busy) q = map_option snd (pick_next core preempt (\<lambda>i. i \<in> set busy) q)"
| "apply_op (OpRemove i) q = Some (remove i q)"

fun run_ops :: "op list \<Rightarrow> run_queue \<Rightarrow> run_queue option" where
  "run_ops [] q = Some q"
| "run_ops (x # xs) q = Option.bind (apply_op x q) (run_ops xs)"

text \<open>What task \<open>t\<close> does itself, and its removal; everything else happens elsewhere.\<close>

fun by_task :: "task_id \<Rightarrow> op \<Rightarrow> run_queue \<Rightarrow> bool" where
  "by_task t (OpSleep core _) q \<longleftrightarrow> current q core = Some t"
| "by_task t (OpWait core _ _) q \<longleftrightarrow> current q core = Some t"
| "by_task t (OpBlock core) q \<longleftrightarrow> current q core = Some t"
| "by_task t (OpFinish core) q \<longleftrightarrow> current q core = Some t"
| "by_task t (OpRemove i) q \<longleftrightarrow> i = t"
| "by_task t _ q \<longleftrightarrow> False"

inductive elsewhere :: "task_id \<Rightarrow> nat \<Rightarrow> run_queue \<Rightarrow> run_queue \<Rightarrow> bool" for t where
  elsewhere_refl: "elsewhere t 0 q q"
| elsewhere_step: "elsewhere t n q q' \<Longrightarrow> \<not> by_task t x q' \<Longrightarrow> apply_op x q' = Some q'' \<Longrightarrow>
    elsewhere t (Suc n) q q''"

definition notifies :: "event \<Rightarrow> op \<Rightarrow> bool" where
  "notifies ev x \<longleftrightarrow> x = OpNotify ev"

lemma generation_notify:
  "generation (snd (notify ev q)) ev' = generation q ev' + (if ev' = ev then 1 else 0)"
proof (cases "ev' = ev")
  case False
  then have "unat ev' \<noteq> unat ev" by (metis unsigned_word_eqI)
  with False show ?thesis
    by (auto simp: notify_def Let_def generation_def get_at_def resize_def map_entries_def nth_append)
qed (auto simp: notify_def Let_def generation_def get_at_def resize_def map_entries_def nth_append)

lemma generation_eq: "rq_generations q' = rq_generations q \<Longrightarrow> generation q' = generation q"
  by (simp add: generation_def fun_eq_iff)

lemmas op_defs = add_def add_idle_def start_core_def sleep_current_def take_interrupt_def wait_current_def
  block_current_def block_task_def finish_current_def wake_def interrupt_def tick_def remove_def

lemma generations_op:
  assumes "apply_op x q = Some q'" and "\<And>ev. x \<noteq> OpNotify ev"
  shows "rq_generations q' = rq_generations q"
proof (cases x)
  case (OpPick core preempt busy)
  then obtain nxt where "pick_next core preempt (\<lambda>i. i \<in> set busy) q = Some (nxt, q')" using assms(1) by auto
  then show ?thesis using pick_next_state(6) by (auto simp: pick_next_eq)
qed (use assms in \<open>auto simp: op_defs sched_simps Let_def split: if_splits option.splits state.splits\<close>)

lemma generation_op:
  "apply_op x q = Some q' \<Longrightarrow> generation q' ev = generation q ev + (if notifies ev x then 1 else 0)"
proof (cases "\<exists>ev'. x = OpNotify ev'")
  case True
  assume "apply_op x q = Some q'"
  with True show ?thesis by (auto simp: notifies_def generation_notify split: if_splits)
next
  case False
  assume "apply_op x q = Some q'"
  with False show ?thesis
    using generation_eq [OF generations_op] by (auto simp: notifies_def)
qed

text \<open>A pending wake-up or interrupt stays until the task itself takes it.\<close>

definition woken :: "run_queue \<Rightarrow> task_id \<Rightarrow> bool" where
  "woken q t \<longleftrightarrow> (\<exists>e. entry_of q t = Some e \<and> en_wake_pending e)"

definition interrupted :: "run_queue \<Rightarrow> task_id \<Rightarrow> bool" where
  "interrupted q t \<longleftrightarrow> (\<exists>e. entry_of q t = Some e \<and> en_interrupt_pending e)"

lemma pick_next_entry:
  assumes "pick_next core preempt busy q = Some (nxt, q')"
  shows "\<exists>st. entry_of q' t = map_option (\<lambda>e. e\<lparr>en_state := st e\<rparr>) (entry_of q t)"
proof -
  obtain cur where "q' = set_state nxt Running ((if nxt \<noteq> cur \<and> state_of q cur = Some Running then set_state cur Ready q else q)
                \<lparr>rq_current := (rq_current q)[core := Some nxt]\<rparr>)"
    using assms by (auto simp: pick_next_eq)
  moreover have "\<exists>st. map_option (\<lambda>e. e\<lparr>en_state := s\<rparr>) x = map_option (\<lambda>e. e\<lparr>en_state := st e\<rparr>) x" for s and x :: "entry option"
    by (rule exI [of _ "\<lambda>_. s"]) simp
  moreover have "\<exists>st. x = map_option (\<lambda>e. e\<lparr>en_state := st e\<rparr>) x" for x :: "entry option"
    by (rule exI [of _ en_state]) (cases x; simp)
  ultimately show ?thesis
    by (simp add: sched_simps option.map_comp comp_def)
qed

lemma flags_elsewhere_op:
  assumes "apply_op x q = Some q'" and "\<not> by_task t x q" and "entry_of q t = Some e"
  shows "\<exists>e'. entry_of q' t = Some e' \<and> (en_wake_pending e \<longrightarrow> en_wake_pending e')
    \<and> (en_interrupt_pending e \<longrightarrow> en_interrupt_pending e')"
proof (cases x)
  case (OpPick core preempt busy)
  then obtain nxt where "pick_next core preempt (\<lambda>i. i \<in> set busy) q = Some (nxt, q')" using assms(1) by auto
  from pick_next_entry [OF this, of t] assms(3) show ?thesis by auto
next
  case (OpRemove i)
  with assms show ?thesis by (auto simp: entry_remove)
next
  case (OpAdd name)
  with assms show ?thesis using entry_bound [OF assms(3)] by (auto simp: sched_simps)
next
  case (OpAddIdle name core)
  with assms show ?thesis using entry_bound [OF assms(3)] by (auto simp: add_idle_eq sched_simps)
next
  case (OpStartCore name core)
  with assms show ?thesis using entry_bound [OF assms(3)] by (auto simp: start_core_eq sched_simps)
next
  case (OpNotify ev)
  with assms show ?thesis by (auto simp: notify_def Let_def sched_simps)
next
  case (OpTick core now)
  with assms show ?thesis using tick_entry [of core now q q' t e] by (auto simp: sched_simps)
qed (use assms in \<open>auto simp: op_defs sched_simps Let_def split: if_splits option.splits state.splits\<close>)

lemma elsewhere_flags:
  "elsewhere t n q q' \<Longrightarrow> entry_of q t = Some e \<Longrightarrow> \<exists>e'. entry_of q' t = Some e'
    \<and> (en_wake_pending e \<longrightarrow> en_wake_pending e') \<and> (en_interrupt_pending e \<longrightarrow> en_interrupt_pending e')"
proof (induction rule: elsewhere.induct)
  case (elsewhere_step n q q' x q'')
  then show ?case using flags_elsewhere_op by (metis (no_types, lifting))
qed auto

lemma elsewhere_generation:
  "elsewhere t n q q' \<Longrightarrow> \<exists>k\<le>n. generation q' ev = generation q ev + of_nat k"
proof (induction rule: elsewhere.induct)
  case (elsewhere_step n q q' x q'')
  then obtain k where "k \<le> n" "generation q' ev = generation q ev + of_nat k" by blast
  then show ?case
    using generation_op [OF elsewhere_step.hyps(3), of ev]
    by (intro exI [of _ "if notifies ev x then Suc k else k"]) (simp add: algebra_simps)
qed auto


subsection \<open>Turns\<close>




lemma notify_state:
  "state_of (snd (notify ev q)) i =
     map_option (\<lambda>s. if s = Waiting ev then Ready else s) (state_of q i)"
  by (cases "entry_of q i") (auto simp: notify_def Let_def state_of_def sched_simps)

lemma tick_state:
  assumes "tick core now q = Some q'"
  shows "state_of q' i =
    map_option (\<lambda>s. case s of Sleeping u \<Rightarrow> if u \<le> now then Ready else s | _ \<Rightarrow> s) (state_of q i)"
proof (cases "entry_of q i")
  case None
  with assms show ?thesis by (auto simp: tick_def state_of_def sched_simps Let_def)
next
  case (Some e)
  from tick_entry [OF assms this] Some show ?thesis
    by (auto simp: state_of_def sched_simps split: state.split)
qed

lemma wake_state:
  "state_of (snd (wake t q)) i = (if i = t \<and> state_of q t = Some Blocked then Some Ready else state_of q i)"
  by (auto simp: wake_def state_of_def sched_simps split: option.splits)

lemma interrupt_state:
  "state_of (snd (interrupt t q)) i =
     (if i = t then map_option (\<lambda>s. case s of Sleeping _ \<Rightarrow> Ready | Waiting _ \<Rightarrow> Ready | _ \<Rightarrow> s) (state_of q i)
      else state_of q i)"
  by (auto simp: interrupt_def state_of_def sched_simps split: option.splits state.splits)

subsection \<open>Properties\<close>

text \<open>A queue to try them on: a running task, a ready one, and core 0's idle task.\<close>

definition two_tasks :: run_queue where
  "two_tasks = \<lparr>rq_tasks = [Some (entry_new [97] Running), Some (entry_new [98] Ready), Some (entry_new [99] Ready)],
     rq_current = [Some 0, None], rq_idle = [Some 2, None], rq_generations = [], rq_window_elapsed = 0\<rparr>"

lemmas two_tasks_simps = two_tasks_def state_of_def entry_of_def current_def is_idle_def entry_new_def

text \<open>the choice of the next task, on every branch. A running task that is not idle is kept
  unless it is preempted; otherwise the nearest ready task after it in cyclic order is taken that no
  other core is still leaving; if there is none, the running task goes on, and only if it cannot does
  the core idle. The chosen task is the core's current one, a preempted one becomes ready, and no
  other task changes.\<close>
theorem pick_next_spec:
  assumes "current q core = Some cur" and "state_of q cur = Some st" and "rq_idle q ! core = Some idl"
  shows "\<exists>nxt q'. pick_next core preempt busy q = Some (nxt, q') \<and>
    (let keep = (st = Running \<and> \<not> is_idle q cur); n = length (rq_tasks q)
     in (keep \<and> \<not> preempt \<longrightarrow> nxt = cur)
      \<and> (\<not> (keep \<and> \<not> preempt) \<and> (\<exists>u. pickable q busy u) \<longrightarrow>
           pickable q busy nxt \<and> (\<forall>u. pickable q busy u \<longrightarrow> ahead n cur nxt \<le> ahead n cur u))
      \<and> (\<not> (\<exists>u. pickable q busy u) \<longrightarrow> nxt = (if keep then cur else idl)))
    \<and> (\<forall>c. current q' c = (if c = core then Some nxt else current q c))
    \<and> (\<forall>i. state_of q' i = (if i = nxt then map_option (\<lambda>_. Running) (state_of q i)
          else if i = cur \<and> st = Running then Some Ready else state_of q i))"
proof -
  obtain q' where pick: "pick_next core preempt busy q = Some (choose_next core preempt busy cur q, q')"
    using assms(1) by (auto simp: pick_next_eq)
  note st = pick_next_state [OF pick assms(1)]
  have "cur < length (rq_tasks q)" using assms(2) by (rule state_bound)
  note choose_next_cases [OF this, of core preempt busy]
  then show ?thesis
    using pick st(1,2) assms(2,3) by (auto simp: Let_def split: if_splits)
qed

theorem pick_next_spec_witness:
  "\<exists>q'. pick_next 0 True (\<lambda>_. False) two_tasks = Some (1, q') \<and> state_of q' 0 = Some Ready"
proof -
  have "pickable two_tasks (\<lambda>_. False) u \<longleftrightarrow> u = 1" for u
    by (auto simp: pickable_def two_tasks_simps nth_Cons split: nat.splits)
  moreover have "current two_tasks 0 = Some 0" "state_of two_tasks 0 = Some Running"
    "rq_idle two_tasks ! 0 = Some 2" "\<not> is_idle two_tasks 0"
    by (simp_all add: two_tasks_simps)
  ultimately show ?thesis
    using pick_next_spec [of two_tasks 0 0 Running 2 True "\<lambda>_. False"] by (auto simp: Let_def)
qed



text \<open>C22: no wake-up is lost. A task that decides to wait, and only then waits, with any
  interleaving of other operations in between: if the event it waits for was notified after it read
  the generation, or it was woken or interrupted by id, it does not wait.\<close>
theorem no_lost_wakeup:
  assumes "current q3 core = Some t"
  shows "(\<forall>q q1 n m ev q4. elsewhere t n q q1 \<longrightarrow> elsewhere t m (snd (notify ev q1)) q3 \<longrightarrow> n + m < 2 ^ 64 - 1 \<longrightarrow>
        wait_current core ev (generation q ev) q3 = Some q4 \<longrightarrow> state_of q4 t = state_of q3 t)
    \<and> (\<forall>q n q4. state_of q t \<noteq> None \<longrightarrow> state_of q t \<noteq> Some Blocked \<longrightarrow> state_of q t \<noteq> Some Finished \<longrightarrow>
        elsewhere t n (snd (wake t q)) q3 \<longrightarrow>
        block_current core q3 = Some q4 \<longrightarrow> state_of q4 t = state_of q3 t)
    \<and> (\<forall>q n u ev seen. state_of q t \<in> {Some Running, Some Ready} \<longrightarrow>
        elsewhere t n (snd (interrupt t q)) q3 \<longrightarrow>
        map_option (\<lambda>q4. state_of q4 t) (sleep_current core u q3) = Some (state_of q3 t)
        \<and> map_option (\<lambda>q4. state_of q4 t) (wait_current core ev seen q3) = Some (state_of q3 t))"
proof (intro conjI allI impI)
  fix q q1 n m ev q4
  assume els: "elsewhere t n q q1" "elsewhere t m (snd (notify ev q1)) q3" and bound: "n + m < 2 ^ 64 - 1"
    and wait: "wait_current core ev (generation q ev) q3 = Some q4"
  obtain i j where "i \<le> n" "j \<le> m" "generation q3 ev = generation q ev + of_nat (i + j + 1)"
    using elsewhere_generation [OF els(1), of ev] elsewhere_generation [OF els(2), of ev]
    by (auto simp: generation_notify)
  moreover from this bound have "(of_nat (i + j + 1) :: u64) \<noteq> 0"
    by (subst word_of_nat_eq_0_iff) (auto dest: dvd_imp_le)
  ultimately have "generation q3 ev \<noteq> generation q ev" by simp
  with wait assms show "state_of q4 t = state_of q3 t"
    by (auto simp: wait_current_def take_interrupt_def state_of_def sched_simps option.map_comp comp_def)
next
  fix q n q4
  assume st: "state_of q t \<noteq> None" "state_of q t \<noteq> Some Blocked" "state_of q t \<noteq> Some Finished"
    and els: "elsewhere t n (snd (wake t q)) q3" and block: "block_current core q3 = Some q4"
  obtain e where "entry_of (snd (wake t q)) t = Some e" "en_wake_pending e"
    using st by (auto simp: wake_def state_of_def sched_simps)
  with elsewhere_flags [OF els] have "\<exists>e'. entry_of q3 t = Some e' \<and> en_wake_pending e'" by auto
  with block assms show "state_of q4 t = state_of q3 t"
    by (auto simp: block_current_def block_task_def Let_def state_of_def sched_simps)
next
  fix q n u ev seen
  assume st: "state_of q t \<in> {Some Running, Some Ready}" and els: "elsewhere t n (snd (interrupt t q)) q3"
  obtain e where "entry_of (snd (interrupt t q)) t = Some e" "en_interrupt_pending e"
    using st by (auto simp: interrupt_def state_of_def sched_simps)
  with elsewhere_flags [OF els] obtain e' where "entry_of q3 t = Some e'" "en_interrupt_pending e'" by auto
  with assms show "map_option (\<lambda>q4. state_of q4 t) (sleep_current core u q3) = Some (state_of q3 t)"
    "map_option (\<lambda>q4. state_of q4 t) (wait_current core ev seen q3) = Some (state_of q3 t)"
    by (auto simp: sleep_current_def wait_current_def take_interrupt_def state_of_def sched_simps)
qed

theorem no_lost_wakeup_witness:
  "map_option (\<lambda>q. state_of q 0) (wait_current 0 3 (generation two_tasks 3) (snd (notify 3 two_tasks)))
   = Some (Some Running)"
proof -
  have cur: "current (snd (notify 3 two_tasks)) 0 = Some 0"
    by (simp add: notify_def Let_def sched_simps two_tasks_simps)
  have "state_of q4 0 = state_of (snd (notify 3 two_tasks)) 0"
    if "wait_current 0 3 (generation two_tasks 3) (snd (notify 3 two_tasks)) = Some q4" for q4
    using no_lost_wakeup [OF cur] elsewhere_refl [of 0 two_tasks] elsewhere_refl [of 0 "snd (notify 3 two_tasks)"]
      that by fastforce
  moreover have "state_of (snd (notify 3 two_tasks)) 0 = Some Running"
  proof -
    have "state_of two_tasks 0 = Some Running" by (simp add: two_tasks_simps)
    then show ?thesis by (simp add: notify_state)
  qed
  moreover have "\<exists>q4. wait_current 0 3 (generation two_tasks 3) (snd (notify 3 two_tasks)) = Some q4"
    using cur by (simp add: wait_current_def take_interrupt_def)
  ultimately show ?thesis by auto
qed

text \<open>who is made ready, exactly: by \<open>notify\<close> the tasks waiting for that event, by \<open>tick\<close>
  the sleepers whose time has come, by \<open>wake\<close> the task if it is blocked, by \<open>interrupt\<close> the task if it
  sleeps or waits. No other task changes state, and \<open>notify\<close> says whether anyone was waiting.\<close>
theorem ready_exactly:
  "state_of (snd (notify ev q)) i = map_option (\<lambda>s. if s = Waiting ev then Ready else s) (state_of q i)
   \<and> (fst (notify ev q) \<longleftrightarrow> (\<exists>j. state_of q j = Some (Waiting ev)))
   \<and> map_option (\<lambda>q'. state_of q' i) (tick core now q) =
       map_option (\<lambda>_. map_option (\<lambda>s. case s of Sleeping u \<Rightarrow> if u \<le> now then Ready else s | _ \<Rightarrow> s)
         (state_of q i)) (current q core)
   \<and> state_of (snd (wake t q)) i = (if i = t \<and> state_of q t = Some Blocked then Some Ready else state_of q i)
   \<and> state_of (snd (interrupt t q)) i =
       (if i = t then map_option (\<lambda>s. case s of Sleeping _ \<Rightarrow> Ready | Waiting _ \<Rightarrow> Ready | _ \<Rightarrow> s) (state_of q i)
        else state_of q i)"
proof -
  have "fst (notify ev q) \<longleftrightarrow> (\<exists>j. state_of q j = Some (Waiting ev))"
  proof -
    have "fst (notify ev q) \<longleftrightarrow> (\<exists>e. Some e \<in> set (rq_tasks q) \<and> en_state e = Waiting ev)"
      by (force simp: notify_def Let_def list_ex_iff split: option.splits)
    also have "\<dots> \<longleftrightarrow> (\<exists>j. state_of q j = Some (Waiting ev))"
      by (auto simp: state_of_def entry_of_def in_set_conv_nth split: if_splits)
    finally show ?thesis .
  qed
  moreover have "map_option (\<lambda>q'. state_of q' i) (tick core now q) =
       map_option (\<lambda>_. map_option (\<lambda>s. case s of Sleeping u \<Rightarrow> if u \<le> now then Ready else s | _ \<Rightarrow> s)
         (state_of q i)) (current q core)"
  proof (cases "tick core now q")
    case None
    then show ?thesis by (simp add: tick_def)
  next
    case (Some q')
    then obtain cur where "current q core = Some cur" by (auto simp: tick_def)
    with Some tick_state [OF Some] show ?thesis by simp
  qed
  ultimately show ?thesis using notify_state wake_state interrupt_state by simp
qed

end
