(* ===== verification/Sched_Kernel.thy ===== *)
theory Sched_Kernel
  imports Sched
begin

text \<open>
  The kernel's side of scheduling, \<open>src/sched.rs\<close>: the operations tasks and interrupt handlers
  call, each a critical section under the scheduler's lock, and the switch itself. Modelled are the
  run queue, which task's stack each core is still leaving, the preemption counters and the
  lock-free record of what runs where; stacks, register contexts, FP state and page tables are
  not (they do not influence which task runs). \<open>None\<close> is a panic. An operation that makes a task
  ready also says which idle core gets an inter-processor interrupt.

  A waiting task calls two critical sections, one that marks it waiting and one that switches. The
  properties: if nothing comes between the two, a task is never on two cores, nor on a stack that
  another core still uses; but the code lets another core in between, and then it can be.
\<close>

subsection \<open>State and operations\<close>

record kernel =
  k_queue :: run_queue
  k_leaving :: "task_id option list"
  k_preempt_disabled :: "u32 list"
  k_switch_pending :: "bool list"
  k_running :: "task_id option list"

definition CORES :: nat where "CORES = 4"

definition UART_RX :: event where "UART_RX = 1"

definition sched_init :: "rstr \<Rightarrow> kernel option" where
  "sched_init name =
     Option.bind (rq_new name CORES) (\<lambda>q.
     Option.bind (add_idle [105, 100, 108, 101, 48] 0 q) (\<lambda>(_, q1).
     Some \<lparr>k_queue = q1, k_leaving = replicate CORES None, k_preempt_disabled = replicate CORES 0,
           k_switch_pending = replicate CORES False, k_running = replicate CORES None\<rparr>))"

definition k_start_core :: "nat \<Rightarrow> kernel \<Rightarrow> kernel option" where
  "k_start_core core k =
     map_option (\<lambda>(i, q). k\<lparr>k_queue := q, k_running := (k_running k)[core := Some i]\<rparr>)
       (start_core ([105, 100, 108, 101] @ [of_nat (48 + core)]) core (k_queue k))"

definition running_on :: "kernel \<Rightarrow> nat \<Rightarrow> task_id option" where
  "running_on k core = k_running k ! core"

definition kick_idle_core :: "run_queue \<Rightarrow> nat \<Rightarrow> nat option" where
  "kick_idle_core q core = idle_core q core"

definition spawn :: "nat \<Rightarrow> rstr \<Rightarrow> kernel \<Rightarrow> task_id \<times> nat option \<times> kernel" where
  "spawn core name k =
     (let (i, q) = add name (k_queue k) in (i, kick_idle_core q core, k\<lparr>k_queue := q\<rparr>))"

definition k_notify :: "nat \<Rightarrow> event \<Rightarrow> kernel \<Rightarrow> nat option \<times> kernel" where
  "k_notify core ev k =
     (let (woke, q) = notify ev (k_queue k)
      in (if woke then kick_idle_core q core else None, k\<lparr>k_queue := q\<rparr>))"

definition k_interrupt :: "nat \<Rightarrow> task_id \<Rightarrow> kernel \<Rightarrow> nat option \<times> kernel" where
  "k_interrupt core t k =
     (let (woke, q) = interrupt t (k_queue k)
      in (if woke then kick_idle_core q core else None, k\<lparr>k_queue := q\<rparr>))"

definition k_wake :: "nat \<Rightarrow> task_id \<Rightarrow> kernel \<Rightarrow> nat option \<times> kernel" where
  "k_wake core t k =
     (let (woke, q) = wake t (k_queue k)
      in (if woke then kick_idle_core q core else None, k\<lparr>k_queue := q\<rparr>))"

text \<open>The first critical section of \<open>sleep\<close>, \<open>wait_until\<close>, \<open>block\<close> and \<open>exit\<close>; the second is
  \<open>on_yield\<close>.\<close>

datatype suspension = Sleep u64 | Wait event generation | Block | Exit

fun suspend :: "nat \<Rightarrow> suspension \<Rightarrow> kernel \<Rightarrow> kernel option" where
  "suspend core (Sleep until_us) k = map_option (\<lambda>q. k\<lparr>k_queue := q\<rparr>) (sleep_current core until_us (k_queue k))"
| "suspend core (Wait ev seen) k = map_option (\<lambda>q. k\<lparr>k_queue := q\<rparr>) (wait_current core ev seen (k_queue k))"
| "suspend core Block k = map_option (\<lambda>q. k\<lparr>k_queue := q\<rparr>) (block_current core (k_queue k))"
| "suspend core Exit k = map_option (\<lambda>q. k\<lparr>k_queue := q\<rparr>) (finish_current core (k_queue k))"

definition leaving_elsewhere :: "kernel \<Rightarrow> nat \<Rightarrow> task_id \<Rightarrow> bool" where
  "leaving_elsewhere k core i \<longleftrightarrow> (\<exists>other \<in> {0..<length (k_leaving k)}. other \<noteq> core \<and> k_leaving k ! other = Some i)"

fun reap :: "(task_id \<Rightarrow> bool) \<Rightarrow> task_id list \<Rightarrow> run_queue \<Rightarrow> run_queue" where
  "reap keep [] q = q"
| "reap keep (i # is) q = reap keep is (if keep i then q else remove i q)"

definition switch :: "nat \<Rightarrow> bool \<Rightarrow> kernel \<Rightarrow> kernel option" where
  "switch core preempt k =
     Option.bind (current (k_queue k) core) (\<lambda>cur.
     Option.bind (pick_next core preempt (leaving_elsewhere k core) (k_queue k)) (\<lambda>(nxt, q1).
       let q2 = reap (\<lambda>i. i = cur \<or> leaving_elsewhere k core i) (finished q1) q1
       in if entry_of q2 nxt = None then None \<comment> \<open>\<open>expect\<close>: the scheduled task exists\<close>
          else Some (k\<lparr>k_queue := q2, k_running := (k_running k)[core := Some nxt],
                       k_leaving := (if nxt \<noteq> cur then (k_leaving k)[core := Some cur] else k_leaving k)\<rparr>)))"

definition on_yield :: "nat \<Rightarrow> kernel \<Rightarrow> kernel option" where
  "on_yield core k = switch core True k"

definition finish_switch :: "nat \<Rightarrow> kernel \<Rightarrow> kernel" where
  "finish_switch core k = k\<lparr>k_leaving := (k_leaving k)[core := None]\<rparr>"

record serviced =
  sv_uart :: bool
  sv_timer :: bool

definition on_irq :: "nat \<Rightarrow> serviced \<Rightarrow> u64 \<Rightarrow> kernel \<Rightarrow> (nat option \<times> kernel) option" where
  "on_irq core sv now_us k =
     Option.bind (current (k_queue k) core) (\<lambda>cur.
     let (woke, q) = (if sv_uart sv then notify UART_RX (k_queue k) else (False, k_queue k));
         kick = (if woke \<and> \<not> is_idle (k_queue k) cur then kick_idle_core q core else None)
     in Option.bind (if sv_timer sv then tick core now_us q else Some q) (\<lambda>q1.
          let k1 = k\<lparr>k_queue := q1\<rparr>
          in map_option (Pair kick)
               (if 0 < k_preempt_disabled k1 ! core
                then Some (if sv_timer sv then k1\<lparr>k_switch_pending := (k_switch_pending k1)[core := True]\<rparr> else k1)
                else switch core (sv_timer sv) k1)))"

definition no_preempt_enter :: "nat \<Rightarrow> kernel \<Rightarrow> kernel" where
  "no_preempt_enter core k =
     k\<lparr>k_preempt_disabled := (k_preempt_disabled k)[core := k_preempt_disabled k ! core + 1]\<rparr>"

definition no_preempt_exit :: "nat \<Rightarrow> bool \<Rightarrow> kernel \<Rightarrow> bool \<times> kernel" where
  \<comment> \<open>whether to \<open>yield_now\<close>, and the counters; \<open>swap\<close> clears the pending switch\<close>
  "no_preempt_exit core irqs_enabled k =
     (let depth = k_preempt_disabled k ! core - 1;
          k1 = k\<lparr>k_preempt_disabled := (k_preempt_disabled k)[core := depth]\<rparr>
      in if depth = 0 \<and> irqs_enabled
         then (k_switch_pending k ! core, k1\<lparr>k_switch_pending := (k_switch_pending k)[core := False]\<rparr>)
         else (False, k1))"

subsection \<open>The invariant\<close>

definition leaving :: "kernel \<Rightarrow> nat \<Rightarrow> task_id option" where
  "leaving k core = (if core < length (k_leaving k) then k_leaving k ! core else None)"

definition idle_of :: "run_queue \<Rightarrow> nat \<Rightarrow> task_id option" where
  "idle_of q core = (if core < length (rq_idle q) then rq_idle q ! core else None)"

definition on_core :: "kernel \<Rightarrow> nat \<Rightarrow> task_id \<Rightarrow> bool" where
  \<comment> \<open>the core runs on the task's stack\<close>
  "on_core k core t \<longleftrightarrow> current (k_queue k) core = Some t \<or> leaving k core = Some t"

definition one_core :: "kernel \<Rightarrow> bool" where
  "one_core k \<longleftrightarrow> (\<forall>c d t. on_core k c t \<longrightarrow> on_core k d t \<longrightarrow> c = d)"

definition wf_idle :: "kernel \<Rightarrow> bool" where
  "wf_idle k \<longleftrightarrow>
     (\<forall>c t. idle_of (k_queue k) c = Some t \<longrightarrow>
        state_of (k_queue k) t \<in> {Some Running, Some Ready} \<and> (\<forall>d. on_core k d t \<or> idle_of (k_queue k) d = Some t \<longrightarrow> d = c))
     \<and> (\<forall>c. current (k_queue k) c \<noteq> None \<longrightarrow> idle_of (k_queue k) c \<noteq> None)"

text \<open>The invariant with core \<open>c\<close> between its two critical sections, when \<open>c\<close> is some core.\<close>

definition kinv_but :: "nat option \<Rightarrow> kernel \<Rightarrow> bool" where
  "kinv_but x k \<longleftrightarrow>
     length (rq_idle (k_queue k)) = CORES \<and> length (rq_current (k_queue k)) = CORES \<and> length (k_leaving k) = CORES
     \<and> one_core k \<and> wf_idle k
     \<and> (\<forall>c t. on_core k c t \<longrightarrow> state_of (k_queue k) t \<noteq> None)
     \<and> (\<forall>c t. current (k_queue k) c = Some t \<longrightarrow> x \<noteq> Some c \<longrightarrow> state_of (k_queue k) t = Some Running)
     \<and> (\<forall>t. state_of (k_queue k) t = Some Running \<longrightarrow> (\<exists>c. current (k_queue k) c = Some t))"

abbreviation kinv :: "kernel \<Rightarrow> bool" where
  "kinv \<equiv> kinv_but None"

lemma kinvD:
  assumes "kinv_but x k"
  shows "length (rq_idle (k_queue k)) = CORES" "length (rq_current (k_queue k)) = CORES" "length (k_leaving k) = CORES"
    "\<And>c d t. on_core k c t \<Longrightarrow> on_core k d t \<Longrightarrow> c = d"
    "\<And>c t. idle_of (k_queue k) c = Some t \<Longrightarrow> state_of (k_queue k) t \<in> {Some Running, Some Ready}"
    "\<And>c d t. idle_of (k_queue k) c = Some t \<Longrightarrow> on_core k d t \<or> idle_of (k_queue k) d = Some t \<Longrightarrow> d = c"
    "\<And>c t. current (k_queue k) c = Some t \<Longrightarrow> idle_of (k_queue k) c \<noteq> None"
    "\<And>c t. on_core k c t \<Longrightarrow> state_of (k_queue k) t \<noteq> None"
    "\<And>c t. current (k_queue k) c = Some t \<Longrightarrow> x \<noteq> Some c \<Longrightarrow> state_of (k_queue k) t = Some Running"
    "\<And>t. state_of (k_queue k) t = Some Running \<Longrightarrow> \<exists>c. current (k_queue k) c = Some t"
  using assms unfolding kinv_but_def one_core_def wf_idle_def by blast+

lemma is_idle_idle_of: "is_idle q t \<longleftrightarrow> (\<exists>c. idle_of q c = Some t)"
  by (auto simp: is_idle_def idle_of_def in_set_conv_nth split: if_splits)

lemma leaving_elsewhere_iff: "leaving_elsewhere k core i \<longleftrightarrow> (\<exists>d. d \<noteq> core \<and> leaving k d = Some i)"
proof -
  have "leaving k d = Some i \<longleftrightarrow> d < length (k_leaving k) \<and> k_leaving k ! d = Some i" for d
    by (simp add: leaving_def)
  then show ?thesis unfolding leaving_elsewhere_def by auto
qed

lemma reap_entry:
  "entry_of (reap keep is q) t = (if t \<in> set is \<and> \<not> keep t then None else entry_of q t)"
  by (induction "is" arbitrary: q) (auto simp: sched_simps)

lemma reap_fields [simp]:
  "rq_current (reap keep is q) = rq_current q" "rq_idle (reap keep is q) = rq_idle q"
  by (induction "is" arbitrary: q) (auto simp: remove_def)

lemma core_of_None: "core_of q t = None \<longleftrightarrow> (\<forall>c. current q c \<noteq> Some t)"
proof -
  have "core_of q t = None \<longleftrightarrow> (\<forall>c<length (rq_current q). rq_current q ! c \<noteq> Some t)"
    by (simp add: core_of_def position_None all_set_conv_all_nth)
  then show ?thesis by (simp add: current_def)
qed

lemma finished_mem:
  "t \<in> set (finished q) \<longleftrightarrow> state_of q t = Some Finished \<and> (\<forall>c. current q c \<noteq> Some t)"
  by (auto simp: finished_def core_of_None dest: state_bound)


lemma kinv_queue:
  \<comment> \<open>a change of the queue that moves no task between cores and lets no task start or stop running\<close>
  assumes inv: "kinv_but x k" and "rq_current q' = rq_current (k_queue k)" and "rq_idle q' = rq_idle (k_queue k)"
    and none: "\<And>t. state_of (k_queue k) t \<noteq> None \<Longrightarrow> state_of q' t \<noteq> None"
    and run: "\<And>t. state_of q' t = Some Running \<longleftrightarrow> state_of (k_queue k) t = Some Running"
    and ready: "\<And>t. state_of (k_queue k) t = Some Ready \<Longrightarrow> state_of q' t = Some Ready"
  shows "kinv_but x (k\<lparr>k_queue := q'\<rparr>)"
proof -
  note I = kinvD [OF inv]
  have same: "current q' = current (k_queue k)" "idle_of q' = idle_of (k_queue k)"
    using assms(2,3) by (simp_all add: current_def idle_of_def fun_eq_iff)
  then have on: "on_core (k\<lparr>k_queue := q'\<rparr>) = on_core k" by (simp add: on_core_def leaving_def fun_eq_iff)
  have "state_of q' t \<in> {Some Running, Some Ready}" if "idle_of (k_queue k) c = Some t" for c t
    using I(5) [OF that] run ready by auto
  then have "wf_idle (k\<lparr>k_queue := q'\<rparr>)" using I(6,7) unfolding wf_idle_def on by (simp add: same) blast
  then show ?thesis
    using inv none run unfolding kinv_but_def one_core_def on by (simp add: same assms(2,3))
qed

text \<open>A switch completes from any state of the invariant, also between a core's two critical
  sections, and ends in one.\<close>

lemma switch_choice:
  assumes inv: "kinv_but (Some c) k" and cur: "current (k_queue k) c = Some cur"
    and nxt: "nxt = choose_next c preempt (leaving_elsewhere k c) cur (k_queue k)"
  shows "nxt = cur
    \<or> (state_of (k_queue k) nxt = Some Ready \<and> \<not> is_idle (k_queue k) nxt \<and> \<not> leaving_elsewhere k c nxt)
    \<or> idle_of (k_queue k) c = Some nxt"
proof -
  let ?q = "k_queue k" and ?P = "pickable (k_queue k) (leaving_elsewhere k c)"
  note I = kinvD [OF inv]
  have "state_of ?q cur \<noteq> None" using I(8) [of c cur] cur by (simp add: on_core_def)
  then have lt: "cur < length (rq_tasks ?q)" by (auto dest: state_bound)
  have "c < length (rq_idle ?q)" using current_core [OF cur] I(1,2) by simp
  then have idle: "rq_idle ?q ! c = idle_of ?q c" by (simp add: idle_of_def)
  obtain idl where "idle_of ?q c = Some idl" using I(7) [OF cur] by blast
  with choose_next_cases [OF lt, of c preempt "leaving_elsewhere k c"] idle show ?thesis
    unfolding nxt [symmetric] by (auto simp: Let_def pickable_def split: if_splits)
qed

lemma switch_inv:
  assumes inv: "kinv_but (Some c) k" and cur: "current (k_queue k) c = Some cur" and free: "leaving k c = None"
  shows "\<exists>k'. switch c preempt k = Some k' \<and> kinv k'"
proof -
  let ?q = "k_queue k"
  define nxt where "nxt = choose_next c preempt (leaving_elsewhere k c) cur ?q"
  obtain q1 where pick: "pick_next c preempt (leaving_elsewhere k c) ?q = Some (nxt, q1)"
    using cur by (auto simp: pick_next_eq nxt_def)
  note st = pick_next_state [OF pick cur]
  note I = kinvD [OF inv]
  note choice = switch_choice [OF inv cur nxt_def]
  define q2 where "q2 = reap (\<lambda>i. i = cur \<or> leaving_elsewhere k c i) (finished q1) q1"
  have exists: "state_of ?q cur \<noteq> None" using I(8) [of c cur] cur by (simp add: on_core_def)
  have nxt_exists: "state_of ?q nxt \<noteq> None" using choice exists I(5) by fastforce
  have nxt_else: "\<not> on_core k d nxt" if "d \<noteq> c" for d
  proof
    assume on: "on_core k d nxt"
    from choice show False
    proof (elim disjE conjE)
      assume "nxt = cur"
      with on I(4) [of d cur c] cur that show False by (simp add: on_core_def)
    next
      assume "state_of ?q nxt = Some Ready" "\<not> leaving_elsewhere k c nxt"
      with on I(9) [of d nxt] that show False by (auto simp: on_core_def leaving_elsewhere_iff)
    next
      assume "idle_of ?q c = Some nxt"
      with on I(6) [of c nxt d] that show False by blast
    qed
  qed
  have entry2: "entry_of q2 t = (if state_of q1 t = Some Finished \<and> (\<forall>d. current q1 d \<noteq> Some t)
      \<and> t \<noteq> cur \<and> \<not> leaving_elsewhere k c t then None else entry_of q1 t)" for t
    by (simp add: q2_def reap_entry finished_mem)
  have state2: "state_of q2 t = (if state_of q1 t = Some Finished \<and> (\<forall>d. current q1 d \<noteq> Some t)
      \<and> t \<noteq> cur \<and> \<not> leaving_elsewhere k c t then None else state_of q1 t)" for t
    by (simp add: state_of_def [of q2] entry2) (simp add: state_of_def)
  have cur2: "current q2 d = (if d = c then Some nxt else current ?q d)" for d
  proof -
    have "current q2 d = current q1 d" by (simp add: current_def q2_def)
    then show ?thesis using st(2) by simp
  qed
  have idle2: "idle_of q2 = idle_of ?q" by (simp add: idle_of_def q2_def st(3) fun_eq_iff)
  have nxt_run: "state_of q2 nxt = Some Running" using st(1) [of nxt] nxt_exists state2 by auto
  define k' where "k' = k\<lparr>k_queue := q2, k_running := (k_running k)[c := Some nxt],
      k_leaving := (if nxt \<noteq> cur then (k_leaving k)[c := Some cur] else k_leaving k)\<rparr>"
  have sw: "switch c preempt k = Some k'"
    using nxt_run by (auto simp: switch_def cur pick k'_def Let_def state_of_def simp flip: q2_def)
  have c_lt: "c < CORES" using current_core [OF cur] I(2) by simp
  have leav: "leaving k' d = (if d = c then (if nxt \<noteq> cur then Some cur else None) else leaving k d)" for d
    using free c_lt I(3) by (auto simp: leaving_def k'_def)
  have on: "on_core k' d t \<longleftrightarrow> (if d = c then t = nxt \<or> t = cur else on_core k d t)" for d t
  proof -
    have "k_queue k' = q2" by (simp add: k'_def)
    then show ?thesis by (auto simp: on_core_def leav cur2)
  qed
  have cur_else: "\<not> on_core k d cur" if "d \<noteq> c" for d
    using I(4) [of d cur c] cur that by (auto simp: on_core_def)
  have "one_core k'"
    using I(4) nxt_else cur_else unfolding one_core_def on by (metis (full_types))
  moreover have "wf_idle k'"
  proof -
    have "state_of q2 t \<in> {Some Running, Some Ready} \<and> (\<forall>d. on_core k' d t \<or> idle_of q2 d = Some t \<longrightarrow> d = e)"
      if idle: "idle_of ?q e = Some t" for e t
    proof
      have "state_of ?q t \<in> {Some Running, Some Ready}" using I(5) [OF idle] .
      then show "state_of q2 t \<in> {Some Running, Some Ready}" using st(1) [of t] state2 [of t] by auto
      have "t = nxt \<Longrightarrow> e = c"
        using choice I(6) [OF idle, of c] cur idle is_idle_idle_of by (auto simp: on_core_def)
      moreover have "t = cur \<Longrightarrow> e = c" using I(6) [OF idle, of c] cur by (auto simp: on_core_def)
      ultimately show "\<forall>d. on_core k' d t \<or> idle_of q2 d = Some t \<longrightarrow> d = e"
        using I(6) [OF idle] unfolding on idle2 by (metis (full_types))
    qed
    moreover have "idle_of q2 d \<noteq> None" if "current q2 d \<noteq> None" for d
      using that I(7) cur by (auto simp: cur2 idle2 split: if_splits)
    ultimately show ?thesis by (auto simp: wf_idle_def idle2 k'_def)
  qed
  moreover have "state_of q2 t \<noteq> None" if "on_core k' d t" for d t
  proof -
    have "state_of ?q t \<noteq> None" using that I(8) exists nxt_exists by (auto simp: on split: if_splits)
    moreover have "t = cur \<or> (\<exists>e. current q1 e = Some t) \<or> leaving_elsewhere k c t"
    proof (cases "d = c")
      case True
      with that st(2) [of c] show ?thesis by (auto simp: on)
    next
      case False
      with that have "on_core k d t" by (simp add: on)
      with False st(2) [of d] show ?thesis by (auto simp: on_core_def leaving_elsewhere_iff)
    qed
    ultimately show ?thesis using state2 [of t] st(1) [of t] by auto
  qed
  moreover have "state_of q2 t = Some Running" if "current q2 d = Some t" for d t
  proof (cases "d = c")
    case True
    with that nxt_run show ?thesis by (simp add: cur2)
  next
    case False
    then have "current ?q d = Some t" "t \<noteq> nxt" "t \<noteq> cur"
      using that nxt_else cur_else by (auto simp: cur2 on_core_def)
    then show ?thesis using I(9) [of d t] False st(1) [of t] state2 [of t] by auto
  qed
  moreover have "\<exists>d. current q2 d = Some t" if "state_of q2 t = Some Running" for t
  proof (cases "t = nxt")
    case False
    with that have "state_of ?q t = Some Running" "t \<noteq> cur"
      using st(1) [of t] state2 [of t] by (auto split: if_splits)
    then show ?thesis using I(10) cur by (metis cur2 option.inject)
  qed (use cur2 in auto)
  ultimately have "kinv k'"
    unfolding kinv_but_def using I(1-3) st(3,5) by (simp add: k'_def q2_def)
  with sw show ?thesis by blast
qed


lemma suspend_inv:
  assumes inv: "kinv k" and cur: "current (k_queue k) c = Some cur" and "\<not> is_idle (k_queue k) cur"
  shows "\<exists>k1. suspend c s k = Some k1 \<and> kinv_but (Some c) k1
    \<and> current (k_queue k1) c = Some cur \<and> leaving k1 = leaving k"
proof -
  let ?q = "k_queue k"
  note I = kinvD [OF inv]
  have cur_run: "state_of ?q cur = Some Running" using I(9) [OF cur] by simp
  obtain q1 where q1: "suspend c s k = Some (k\<lparr>k_queue := q1\<rparr>)" "rq_current q1 = rq_current ?q" "rq_idle q1 = rq_idle ?q"
    "\<And>i. i \<noteq> cur \<Longrightarrow> state_of q1 i = state_of ?q i" "state_of q1 cur \<noteq> None"
  proof (cases s)
    case (Sleep u)
    then show ?thesis using that cur cur_run
      by (auto simp: sleep_current_def take_interrupt_def state_of_def sched_simps)
  next
    case (Wait ev g)
    then show ?thesis using that cur cur_run
      by (auto simp: wait_current_def take_interrupt_def state_of_def sched_simps)
  next
    case Block
    then show ?thesis using that cur cur_run
      by (auto simp: block_current_def block_task_def Let_def state_of_def sched_simps)
  next
    case Exit
    then show ?thesis using that cur cur_run by (auto simp: finish_current_def state_of_def sched_simps)
  qed
  let ?k = "k\<lparr>k_queue := q1\<rparr>"
  have same: "current q1 = current ?q" "idle_of q1 = idle_of ?q"
    using q1(2,3) by (simp_all add: current_def idle_of_def fun_eq_iff)
  then have on: "on_core ?k = on_core k" by (simp add: on_core_def leaving_def fun_eq_iff)
  have ne: "t \<noteq> cur" if "idle_of ?q d = Some t" for d t using that assms(3) is_idle_idle_of by auto
  have "wf_idle ?k"
    using I(5-7) q1(4) ne unfolding wf_idle_def on by (simp add: same) blast
  moreover have "state_of q1 t = Some Running" if "current ?q d = Some t" "d \<noteq> c" for d t
  proof -
    have "t \<noteq> cur" using that I(4) [of d t c] cur by (auto simp: on_core_def)
    then show ?thesis using that I(9) [of d t] q1(4) by simp
  qed
  moreover have "state_of q1 t \<noteq> None" if "on_core k d t" for d t
    using that I(8) q1(4,5) by metis
  moreover have "\<exists>d. current ?q d = Some t" if "state_of q1 t = Some Running" for t
    using that I(10) q1(4) cur by metis
  ultimately have "kinv_but (Some c) ?k"
    using inv q1(2,3) unfolding kinv_but_def one_core_def on by (simp add: same)
  then show ?thesis using q1(1) cur by (auto simp: same leaving_def fun_eq_iff)
qed

lemma kinv_weaken: "kinv k \<Longrightarrow> kinv_but x k"
  by (auto simp: kinv_but_def)

lemma notify_inv: "kinv k \<Longrightarrow> kinv (k\<lparr>k_queue := snd (notify ev (k_queue k))\<rparr>)"
  by (erule kinv_queue) (auto simp: notify_state, auto simp: notify_def Let_def sched_simps)

lemma wake_inv: "kinv k \<Longrightarrow> kinv (k\<lparr>k_queue := snd (wake t (k_queue k))\<rparr>)"
  by (erule kinv_queue) (auto simp: wake_state, auto simp: wake_def sched_simps split: option.split)

lemma woken_running [simp]:
  "(case s of Sleeping _ \<Rightarrow> Ready | Waiting _ \<Rightarrow> Ready | _ \<Rightarrow> s) = Running \<longleftrightarrow> s = Running"
  "(case s of Sleeping u \<Rightarrow> if u \<le> now then Ready else s | _ \<Rightarrow> s) = Running \<longleftrightarrow> s = Running"
  by (cases s; simp)+

lemma interrupt_inv: "kinv k \<Longrightarrow> kinv (k\<lparr>k_queue := snd (interrupt t (k_queue k))\<rparr>)"
  by (erule kinv_queue)
    (auto simp: interrupt_state split: if_splits,
     auto simp: interrupt_def sched_simps split: option.split state.split)

lemma tick_inv:
  assumes "kinv k" and "tick core now (k_queue k) = Some q'"
  shows "kinv (k\<lparr>k_queue := q'\<rparr>)"
proof (rule kinv_queue [OF assms(1)])
  show "rq_current q' = rq_current (k_queue k)" "rq_idle q' = rq_idle (k_queue k)"
    using assms(2) by (auto simp: tick_def Let_def sched_simps)
qed (auto simp: tick_state [OF assms(2)])

lemma add_inv: "kinv k \<Longrightarrow> kinv (k\<lparr>k_queue := snd (add name (k_queue k))\<rparr>)"
proof (erule kinv_queue)
  have st: "state_of (snd (add name (k_queue k))) t =
      (if t = length (rq_tasks (k_queue k)) then Some Ready else state_of (k_queue k) t)" for t
    by (simp add: state_of_def sched_simps entry_new_def)
  have new: "state_of (k_queue k) (length (rq_tasks (k_queue k))) = None" using state_bound by fastforce
  show "state_of (snd (add name (k_queue k))) t \<noteq> None" if "state_of (k_queue k) t \<noteq> None" for t
    using that by (simp add: st)
  show "(state_of (snd (add name (k_queue k))) t = Some Running) = (state_of (k_queue k) t = Some Running)" for t
    using new by (auto simp: st)
  show "state_of (snd (add name (k_queue k))) t = Some Ready" if "state_of (k_queue k) t = Some Ready" for t
    using that by (simp add: st)
qed (simp_all add: add_def)

lemma start_core_inv:
  assumes inv: "kinv k" and "k_start_core c k = Some k'"
  shows "kinv k'"
proof -
  let ?q = "k_queue k" and ?i = "length (rq_tasks (k_queue k))"
  note I = kinvD [OF inv]
  obtain name q' where q': "start_core name c ?q = Some (?i, q')"
    and k': "k' = k\<lparr>k_queue := q', k_running := (k_running k)[c := Some ?i]\<rparr>"
    using assms(2) by (auto simp: k_start_core_def start_core_eq)
  then have c: "c < CORES" "current ?q c = None" and
    cur': "current q' d = (if d = c then Some ?i else current ?q d)" and
    idle': "idle_of q' d = (if d = c then Some ?i else idle_of ?q d)" and
    st': "state_of q' t = (if t = ?i then Some Running else state_of ?q t)" for d t
    using I(1,2) by (auto simp: start_core_eq current_def idle_of_def sched_simps state_of_def entry_new_def add_def)
      (auto simp: entry_of_def nth_append)
  have new: "state_of ?q ?i = None" using state_bound by fastforce
  have fresh: "\<not> on_core k d ?i" "idle_of ?q d \<noteq> Some ?i" for d using I(5,8) new by fastforce+
  have on: "on_core k' d t \<longleftrightarrow> on_core k d t \<or> (d = c \<and> t = ?i)" for d t
    using c(2) by (auto simp: on_core_def k' cur' leaving_def)
  have "one_core k'" using I(4) fresh(1) unfolding one_core_def on by blast
  moreover have "wf_idle k'"
    using I(5-7) fresh unfolding wf_idle_def on by (auto simp: k' cur' idle' st' split: if_splits)
  moreover have "length (rq_idle q') = CORES" "length (rq_current q') = CORES"
    using q' I(1,2) by (auto simp: start_core_eq sched_simps)
  moreover have "\<forall>t. state_of q' t = Some Running \<longrightarrow> (\<exists>d. current q' d = Some t)"
    using I(10) c(2) by (auto simp: st' cur' split: if_splits) (metis option.distinct(1))+
  ultimately show ?thesis
    using I(3,8,9) c(2) unfolding kinv_but_def on by (auto simp: k' st' cur' split: if_splits)
qed

lemma init_inv: "sched_init name = Some k \<Longrightarrow> kinv k"
proof -
  assume "sched_init name = Some k"
  then have k: "k = \<lparr>k_queue = \<lparr>rq_tasks = [Some (entry_new name Running), Some (entry_new [105, 100, 108, 101, 48] Ready)],
      rq_current = [Some 0, None, None, None], rq_idle = [Some 1, None, None, None], rq_generations = [],
      rq_window_elapsed = 0\<rparr>, k_leaving = [None, None, None, None], k_preempt_disabled = [0, 0, 0, 0],
      k_switch_pending = [False, False, False, False], k_running = [None, None, None, None]\<rparr>"
    by (auto simp: sched_init_def rq_new_def add_idle_def add_def CORES_def Let_def numeral_eq_Suc)
  have cur: "current (k_queue k) c = Some t \<longleftrightarrow> c = 0 \<and> t = 0" for c t
    by (auto simp: k current_def nth_Cons split: nat.splits)
  have idle: "idle_of (k_queue k) c = Some t \<longleftrightarrow> c = 0 \<and> t = 1" for c t
    by (auto simp: k idle_of_def nth_Cons split: nat.splits)
  have leav: "leaving k c = None" for c by (auto simp: k leaving_def nth_Cons split: nat.splits)
  have st: "state_of (k_queue k) t = (if t = 0 then Some Running else if t = 1 then Some Ready else None)" for t
    by (auto simp: k state_of_def entry_of_def nth_Cons entry_new_def split: nat.splits)
  have some: "current (k_queue k) c \<noteq> None \<longleftrightarrow> c = 0" "idle_of (k_queue k) c \<noteq> None \<longleftrightarrow> c = 0" for c
    using cur [of c] idle [of c] by auto
  have len: "length (rq_idle (k_queue k)) = CORES" "length (rq_current (k_queue k)) = CORES" "length (k_leaving k) = CORES"
    by (simp_all add: k CORES_def)
  have on: "on_core k c t \<longleftrightarrow> c = 0 \<and> t = 0" for c t by (simp add: on_core_def cur leav)
  show ?thesis
    unfolding kinv_but_def one_core_def wf_idle_def on cur idle st some using len by auto
qed

lemma kinv_mono:
  assumes inv: "kinv k" and queue: "k_queue k' = k_queue k" "length (k_leaving k') = length (k_leaving k)"
    and sub: "\<And>d t. on_core k' d t \<Longrightarrow> on_core k d t"
  shows "kinv k'"
proof -
  note I = kinvD [OF inv]
  have "one_core k'" using I(4) sub unfolding one_core_def by blast
  moreover have "wf_idle k'" using I(5-7) sub unfolding wf_idle_def queue by blast
  moreover have "\<forall>c t. on_core k' c t \<longrightarrow> state_of (k_queue k) t \<noteq> None" using I(8) sub by blast
  ultimately show ?thesis using I(1-3,9,10) unfolding kinv_but_def queue by simp
qed

lemma finish_switch_inv: "kinv k \<Longrightarrow> kinv (finish_switch c k)"
proof (erule kinv_mono)
  fix d t
  have "leaving (finish_switch c k) d = (if d = c then None else leaving k d)"
    by (simp add: leaving_def finish_switch_def)
  moreover have "k_queue (finish_switch c k) = k_queue k" by (simp add: finish_switch_def)
  ultimately show "on_core (finish_switch c k) d t \<Longrightarrow> on_core k d t"
    by (auto simp: on_core_def split: if_splits)
qed (simp_all add: finish_switch_def)

lemma flags_inv: "kinv k \<Longrightarrow> kinv (k\<lparr>k_preempt_disabled := p\<rparr>)" "kinv k \<Longrightarrow> kinv (k\<lparr>k_switch_pending := s\<rparr>)"
  by (erule kinv_mono; simp add: on_core_def leaving_def split: if_splits)+

subsection \<open>Runs in which waiting and switching are one step\<close>

inductive reach :: "kernel \<Rightarrow> bool" where
  reach_init: "sched_init name = Some k \<Longrightarrow> reach k"
| reach_start: "reach k \<Longrightarrow> k_start_core c k = Some k' \<Longrightarrow> reach k'"
| reach_spawn: "reach k \<Longrightarrow> spawn c name k = (i, kick, k') \<Longrightarrow> reach k'"
| reach_notify: "reach k \<Longrightarrow> k_notify c ev k = (kick, k') \<Longrightarrow> reach k'"
| reach_interrupt: "reach k \<Longrightarrow> k_interrupt c i k = (kick, k') \<Longrightarrow> reach k'"
| reach_wake: "reach k \<Longrightarrow> k_wake c i k = (kick, k') \<Longrightarrow> reach k'"
| reach_yield: "reach k \<Longrightarrow> leaving k c = None \<Longrightarrow> on_yield c k = Some k' \<Longrightarrow> reach k'"
| reach_suspend: "reach k \<Longrightarrow> current (k_queue k) c = Some i \<Longrightarrow> \<not> is_idle (k_queue k) i \<Longrightarrow> leaving k c = None \<Longrightarrow>
    suspend c s k = Some k1 \<Longrightarrow> on_yield c k1 = Some k' \<Longrightarrow> reach k'"
| reach_irq: "reach k \<Longrightarrow> leaving k c = None \<Longrightarrow> on_irq c sv now k = Some (kick, k') \<Longrightarrow> reach k'"
| reach_finish: "reach k \<Longrightarrow> reach (finish_switch c k)"
| reach_hold: "reach k \<Longrightarrow> reach (no_preempt_enter c k)"
| reach_release: "reach k \<Longrightarrow> no_preempt_exit c on k = (due, k') \<Longrightarrow> reach k'"

lemma irq_inv:
  assumes inv: "kinv k" and free: "leaving k c = None" and irq: "on_irq c sv now k = Some (kick, k')"
  shows "kinv k'"
proof -
  define q where "q = snd (if sv_uart sv then notify UART_RX (k_queue k) else (False, k_queue k))"
  have q: "kinv (k\<lparr>k_queue := q\<rparr>)" using inv notify_inv [OF inv] by (simp add: q_def)
  obtain q1 where q1: "(if sv_timer sv then tick c now q else Some q) = Some q1"
    and k': "(if 0 < k_preempt_disabled k ! c
        then Some (if sv_timer sv then k\<lparr>k_queue := q1, k_switch_pending := (k_switch_pending k)[c := True]\<rparr> else k\<lparr>k_queue := q1\<rparr>)
        else switch c (sv_timer sv) (k\<lparr>k_queue := q1\<rparr>)) = Some k'"
    using irq by (auto simp: on_irq_def Let_def bind_eq_Some_conv split_beta cong: if_cong simp flip: q_def)
  have inv1: "kinv (k\<lparr>k_queue := q1\<rparr>)"
    using q q1 tick_inv [OF q, of c now q1] by (auto split: if_splits)
  show ?thesis
  proof (cases "0 < k_preempt_disabled k ! c")
    case True
    with k' inv1 flags_inv(2) [OF inv1, of "(k_switch_pending k)[c := True]"] show ?thesis
      by (auto split: if_splits)
  next
    case False
    with k' have sw: "switch c (sv_timer sv) (k\<lparr>k_queue := q1\<rparr>) = Some k'" by simp
    then obtain cur where "current q1 c = Some cur" by (auto simp: switch_def bind_eq_Some_conv)
    moreover have "leaving (k\<lparr>k_queue := q1\<rparr>) c = None"
      using free by (simp add: leaving_def split: if_splits)
    ultimately show ?thesis
      using switch_inv [OF kinv_weaken [OF inv1], of c cur "sv_timer sv"] sw by auto
  qed
qed

lemma reach_inv: "reach k \<Longrightarrow> kinv k"
proof (induction rule: reach.induct)
  case (reach_init name k)
  then show ?case by (rule init_inv)
next
  case (reach_start k c k')
  then show ?case using start_core_inv by blast
next
  case (reach_spawn k c name i kick k')
  then show ?case using add_inv [of k name] by (auto simp: spawn_def Let_def split: prod.splits)
next
  case (reach_notify k c ev kick k')
  then show ?case using notify_inv [of k ev] by (auto simp: k_notify_def Let_def split: prod.splits)
next
  case (reach_interrupt k c i kick k')
  then show ?case using interrupt_inv [of k i] by (auto simp: k_interrupt_def Let_def split: prod.splits)
next
  case (reach_wake k c i kick k')
  then show ?case using wake_inv [of k i] by (auto simp: k_wake_def Let_def split: prod.splits)
next
  case (reach_yield k c k')
  then obtain cur where "current (k_queue k) c = Some cur" by (auto simp: on_yield_def switch_def bind_eq_Some_conv)
  with reach_yield show ?case
    using switch_inv [OF kinv_weaken, of k c cur True] by (auto simp: on_yield_def)
next
  case (reach_suspend k c i s k1 k')
  from suspend_inv [OF reach_suspend.IH reach_suspend.hyps(2,3), of s] reach_suspend.hyps(4,5)
  have "kinv_but (Some c) k1" "current (k_queue k1) c = Some i" "leaving k1 c = None" by auto
  from switch_inv [OF this, of True] reach_suspend.hyps(6) show ?case by (auto simp: on_yield_def)
next
  case (reach_irq k c sv now kick k')
  then show ?case using irq_inv by blast
next
  case (reach_finish k c)
  show ?case by (rule finish_switch_inv [OF reach_finish.IH])
next
  case (reach_hold k c)
  then show ?case by (simp add: no_preempt_enter_def flags_inv)
next
  case (reach_release k c on due k')
  then show ?case by (auto simp: no_preempt_exit_def Let_def flags_inv split: if_splits)
qed

subsection \<open>Properties\<close>

text \<open>C10: as long as a task's decision to wait and the switch away from it are one step, no task is
  ever current on two cores, or current on one while another is still on its stack; the running
  tasks are exactly the current ones; a task's stack is kept while a core is on it; an idle task
  runs on its own core only; and no switch fails.\<close>
theorem one_task_one_core:
  assumes "reach k"
  shows "(\<forall>c d t. on_core k c t \<longrightarrow> on_core k d t \<longrightarrow> c = d)
    \<and> (\<forall>t. state_of (k_queue k) t = Some Running \<longleftrightarrow> (\<exists>c. current (k_queue k) c = Some t))
    \<and> (\<forall>c t. on_core k c t \<longrightarrow> state_of (k_queue k) t \<noteq> None)
    \<and> (\<forall>c d t. idle_of (k_queue k) c = Some t \<longrightarrow> on_core k d t \<longrightarrow> d = c)
    \<and> (\<forall>c t preempt. current (k_queue k) c = Some t \<longrightarrow> leaving k c = None \<longrightarrow> switch c preempt k \<noteq> None)"
proof -
  note inv = reach_inv [OF assms]
  note I = kinvD [OF inv]
  have "switch c preempt k \<noteq> None" if "current (k_queue k) c = Some t" "leaving k c = None" for c t preempt
    using switch_inv [OF kinv_weaken [OF inv] that] by auto
  moreover have "state_of (k_queue k) t = Some Running \<longleftrightarrow> (\<exists>c. current (k_queue k) c = Some t)" for t
    using I(9) [of _ t] I(10) [of t] by auto
  ultimately show ?thesis using I(4,6,8) by blast
qed


text \<open>A run to try it on: core 1 has started, and core 0's task yields.\<close>

definition booted :: kernel where
  "booted = the (Option.bind (sched_init [109]) (k_start_core 1))"

lemma booted_eq: "Option.bind (sched_init [109]) (k_start_core 1) = Some booted"
proof -
  obtain k0 where k0: "sched_init [109] = Some k0" "length (rq_idle (k_queue k0)) = 4"
    "length (rq_current (k_queue k0)) = 4" "rq_current (k_queue k0) ! 1 = None"
    by (auto simp: sched_init_def rq_new_def add_idle_def add_def CORES_def Let_def)
  then show ?thesis by (auto simp: booted_def k_start_core_def start_core_def add_idle_def add_def Let_def)
qed

lemma booted_reach: "reach booted"
  using booted_eq by (auto simp: bind_eq_Some_conv intro: reach_init reach_start)

lemma booted_queue:
  "k_queue booted = \<lparr>rq_tasks = [Some (entry_new [109] Running), Some (entry_new [105, 100, 108, 101, 48] Ready),
       Some (entry_new [105, 100, 108, 101, 49] Running)],
     rq_current = [Some 0, Some 2, None, None], rq_idle = [Some 1, Some 2, None, None],
     rq_generations = [], rq_window_elapsed = 0\<rparr>"
  "k_leaving booted = [None, None, None, None]" "k_preempt_disabled booted = [0, 0, 0, 0]"
  by (simp_all add: booted_def sched_init_def k_start_core_def start_core_def set_state_def upd_entry_def entry_of_def
      rq_new_def add_idle_def add_def CORES_def Let_def numeral_eq_Suc entry_new_def)

theorem one_task_one_core_witness:
  "switch 0 True booted \<noteq> None \<and> \<not> (on_core booted 0 0 \<and> on_core booted 1 0)"
proof -
  have "current (k_queue booted) 0 = Some 0" "leaving booted 0 = None"
    by (simp_all add: booted_queue current_def leaving_def)
  then show ?thesis using one_task_one_core [OF booted_reach] by (metis zero_neq_one)
qed


end
