(* ===== verification/Lock.thy ===== *)
theory Lock
  imports Sched
begin

text \<open>
  The sleeping mutex: its bookkeeping \<open>LockState\<close> (\<open>rustypi-core/src/lock.rs\<close>) and the kernel's
  \<open>Mutex::lock\<close> around it (\<open>src/synchronization.rs\<close>), cut at the critical sections between which
  other cores run: taking or queueing, blocking, returning from the block, releasing, waking.

  The mutex relies on the scheduler only through \<open>block\<close> and \<open>wake\<close>. What it relies on is the locale
  \<open>parking\<close>; the invariant of the mutex is proved there, and the run queue of \<open>Sched\<close> is shown to
  provide it.
\<close>

subsection \<open>The bookkeeping\<close>






subsection \<open>The mutex\<close>









subsection \<open>The scheduler as the mutex sees it\<close>



subsection \<open>The run queue provides it\<close>





subsection \<open>Properties\<close>





end
