(* ===== verification/Text.thy ===== *)
theory Text
  imports Utf8
begin

text \<open>
  What the code uses of Rust's strings, on their UTF-8 bytes: splitting and trimming at ASCII
  characters, decimal numbers written and parsed, and the division of arbitrary bytes into valid
  and invalid parts (\<open>utf8_chunks\<close>).
\<close>

subsection \<open>Definitions\<close>

definition ascii :: "string \<Rightarrow> rstr" where
  "ascii s = map (\<lambda>c. of_nat (of_char c)) s"

fun split_once :: "byte \<Rightarrow> rstr \<Rightarrow> (rstr \<times> rstr) option" where
  "split_once d [] = None"
| "split_once d (b # bs) =
     (if b = d then Some ([], bs) else map_option (\<lambda>(x, y). (b # x, y)) (split_once d bs))"

fun split_on :: "byte \<Rightarrow> rstr \<Rightarrow> rstr list" where
  \<comment> \<open>\<open>str::split\<close> on an ASCII character\<close>
  "split_on d [] = [[]]"
| "split_on d (b # s) =
     (if b = d then [] # split_on d s
      else case split_on d s of [] \<Rightarrow> [[b]] | p # ps \<Rightarrow> (b # p) # ps)"

fun split_inclusive :: "(byte \<Rightarrow> bool) \<Rightarrow> rstr \<Rightarrow> rstr list" where
  "split_inclusive P [] = []"
| "split_inclusive P (b # bs) =
     (if P b then [b] # split_inclusive P bs
      else case split_inclusive P bs of [] \<Rightarrow> [[b]] | p # ps \<Rightarrow> (b # p) # ps)"

definition strip_suffix :: "(byte \<Rightarrow> bool) \<Rightarrow> rstr \<Rightarrow> rstr option" where
  "strip_suffix P s = (if s \<noteq> [] \<and> P (last s) then Some (butlast s) else None)"

fun dec :: "nat \<Rightarrow> rstr" where
  \<comment> \<open>\<open>Display\<close> of an unsigned number\<close>
  "dec n = (if n < 10 then [of_nat (48 + n)] else dec (n div 10) @ [of_nat (48 + n mod 10)])"

declare dec.simps [simp del]

definition digit :: "byte \<Rightarrow> nat option" where
  "digit b = (if 48 \<le> b \<and> b \<le> 57 then Some (unat b - 48) else None)"

fun parse_digits :: "nat \<Rightarrow> nat \<Rightarrow> rstr \<Rightarrow> nat option" where
  \<comment> \<open>the loop of \<open>from_str_radix\<close>: a bad digit or a value of \<open>limit\<close> or more is an error\<close>
  "parse_digits limit acc [] = Some acc"
| "parse_digits limit acc (b # bs) =
     (case digit b of None \<Rightarrow> None
      | Some d \<Rightarrow> if acc * 10 + d < limit then parse_digits limit (acc * 10 + d) bs else None)"

definition parse_unsigned :: "nat \<Rightarrow> rstr \<Rightarrow> nat option" where
  \<comment> \<open>\<open>str::parse\<close> for an unsigned type with values below \<open>limit\<close>; a leading plus sign is allowed\<close>
  "parse_unsigned limit s =
     (if s = [] \<or> s = [43] then None
      else parse_digits limit 0 (if hd s = 43 then tl s else s))"

definition utf8_bad_len :: "byte list \<Rightarrow> nat" where
  \<comment> \<open>how many bytes \<open>utf8_chunks\<close> takes for one malformed character at the start\<close>
  "utf8_bad_len bs =
     (case bs of
        b # c # d # _ \<Rightarrow>
          if 224 \<le> b \<and> b \<le> 239 \<and> utf8_second3 b c then 2
          else if 240 \<le> b \<and> b \<le> 244 \<and> utf8_second4 b c then (if utf8_cont d then 3 else 2)
          else 1
      | [b, c] \<Rightarrow>
          if 224 \<le> b \<and> b \<le> 239 \<and> utf8_second3 b c \<or> 240 \<le> b \<and> b \<le> 244 \<and> utf8_second4 b c then 2 else 1
      | _ \<Rightarrow> 1)"

function utf8_prefix :: "byte list \<Rightarrow> nat" where
  \<comment> \<open>the length of the longest prefix of whole characters\<close>
  "utf8_prefix bs = (case utf8_char bs of None \<Rightarrow> 0 | Some n \<Rightarrow> n + utf8_prefix (drop n bs))"
  by pat_completeness auto
termination
  by (relation "measure length") (auto dest: utf8_char_bounds)

declare utf8_prefix.simps [simp del]

lemma utf8_bad_len_pos: "0 < utf8_bad_len bs"
  by (auto simp: utf8_bad_len_def split: list.split)

function utf8_chunks :: "byte list \<Rightarrow> (rstr \<times> byte list) list" where
  \<comment> \<open>each chunk is a valid string and the malformed bytes after it\<close>
  "utf8_chunks bs =
     (if bs = [] then []
      else let n = utf8_prefix bs; rest = drop n bs; k = utf8_bad_len rest
           in (take n bs, take k rest) # utf8_chunks (drop k rest))"
  by pat_completeness auto
termination
  by (relation "measure length") (auto simp: utf8_bad_len_pos less_diff_conv2 length_greater_0_conv [symmetric]
      simp del: length_greater_0_conv intro: order_less_le_trans diff_less)

declare utf8_chunks.simps [simp del]

subsection \<open>Lemmas\<close>

lemma split_on_not_Nil [simp]: "split_on d s \<noteq> []"
  by (induction s) (auto split: list.splits)

lemma split_on_append:
  "d \<notin> set p \<Longrightarrow> split_on d (p @ d # s) = p # split_on d s"
  by (induction p) auto

lemma split_on_last: "d \<notin> set p \<Longrightarrow> split_on d p = [p]"
  by (induction p) auto

lemma split_on_parts: "p \<in> set (split_on d s) \<Longrightarrow> d \<notin> set p"
  by (induction d s arbitrary: p rule: split_on.induct) (auto split: if_splits list.splits)

lemma split_on_join: "split_on d (x @ d # y) = split_on d x @ split_on d y"
  by (induction x) (auto simp: append_eq_Cons_conv split: list.splits)

lemma split_once_append: "d \<notin> set x \<Longrightarrow> split_once d (x @ d # y) = Some (x, y)"
  by (induction x) auto

lemma split_once_None: "split_once d x = None \<longleftrightarrow> d \<notin> set x"
  by (induction x) auto

lemma concat_split_inclusive: "concat (split_inclusive P s) = s"
  by (induction s) (auto split: list.splits)

lemma digit_of_nat: "d < 10 \<Longrightarrow> digit (of_nat (48 + d)) = Some d"
  by (auto simp: digit_def word_le_nat_alt unat_of_nat simp del: of_nat_add)

lemma parse_digits_append:
  "parse_digits limit acc (xs @ ys) = Option.bind (parse_digits limit acc xs) (\<lambda>a. parse_digits limit a ys)"
  by (induction xs arbitrary: acc) (auto split: option.splits)

lemma parse_digits_dec: "n < limit \<Longrightarrow> parse_digits limit 0 (dec n) = Some n"
proof (induction n rule: dec.induct)
  case (1 n)
  show ?case
  proof (cases "n < 10")
    case True
    then show ?thesis using 1 digit_of_nat [of n] by (subst dec.simps) (simp del: of_nat_add)
  next
    case False
    then have "parse_digits limit 0 (dec (n div 10)) = Some (n div 10)" using 1 by simp
    moreover have "digit (of_nat (48 + n mod 10)) = Some (n mod 10)" by (rule digit_of_nat) simp
    moreover have "dec n = dec (n div 10) @ [of_nat (48 + n mod 10)]" using False by (subst dec.simps) simp
    ultimately show ?thesis using "1.prems" by (simp add: parse_digits_append del: of_nat_add)
  qed
qed

lemma dec_digits: "b \<in> set (dec n) \<Longrightarrow> 48 \<le> b \<and> b \<le> 57"
proof (induction n rule: dec.induct)
  case (1 n)
  have "48 \<le> (of_nat (48 + d) :: byte) \<and> (of_nat (48 + d) :: byte) \<le> 57" if "d < 10" for d
    using that by (simp add: word_le_nat_alt unat_of_nat del: of_nat_add)
  then show ?case using 1 by (cases "n < 10") (auto simp: dec.simps [of n] simp del: of_nat_add)
qed

lemma dec_not_Nil [simp]: "dec n \<noteq> []"
  by (subst dec.simps) simp

lemma parse_unsigned_dec: "n < limit \<Longrightarrow> parse_unsigned limit (dec n) = Some n"
proof -
  assume n: "n < limit"
  have "hd (dec n) \<in> set (dec n)" by simp
  then have "hd (dec n) \<noteq> 43" using dec_digits by fastforce
  then show ?thesis using parse_digits_dec [OF n] by (auto simp: parse_unsigned_def)
qed

lemma parse_digits_bound: "acc < limit \<Longrightarrow> parse_digits limit acc s = Some n \<Longrightarrow> n < limit"
  by (induction limit acc s rule: parse_digits.induct) (auto split: option.splits if_splits)

lemma parse_unsigned_bound: "0 < limit \<Longrightarrow> parse_unsigned limit s = Some n \<Longrightarrow> n < limit"
  by (auto simp: parse_unsigned_def split: if_splits dest!: parse_digits_bound [rotated])

text \<open>Replacing ASCII characters by ASCII characters keeps a string a string.\<close>

definition ascii_map :: "(byte \<Rightarrow> byte) \<Rightarrow> bool" where
  "ascii_map f \<longleftrightarrow> (\<forall>b. if b < 128 then f b < 128 else f b = b)"

lemma utf8_char_map:
  assumes "ascii_map f"
  shows "utf8_char (map f bs) = utf8_char bs"
proof -
  have lt: "f b < 128 \<longleftrightarrow> b < 128" and id: "\<not> b < 128 \<Longrightarrow> f b = b" for b
    using spec [OF assms [unfolded ascii_map_def], of b] by (cases "b < 128"; simp)+
  have high: "\<not> c < 128" if "utf8_cont c" for c using that by (simp add: utf8_cont_def not_less)
  have low: "\<not> utf8_cont c \<and> \<not> utf8_second3 a c \<and> \<not> utf8_second4 a c" if "c < 128" for a c
    using that high [of c] utf8_second_cont [of a c] by blast
  have cont: "utf8_cont (f b) = utf8_cont b" "utf8_second3 a (f b) = utf8_second3 a b"
    "utf8_second4 a (f b) = utf8_second4 a b" for a b
    using id [of b] low [of "f b" a] low [of b a] lt [of b] by (cases "b < 128"; simp)+
  show ?thesis
  proof (cases bs)
    case (Cons b r)
    show ?thesis
    proof (cases "b < 128")
      case False
      then show ?thesis
        using id [of b] by (simp add: Cons utf8_char_def cont split: list.split)
    qed (use lt [of b] in \<open>simp add: Cons utf8_char_def\<close>)
  qed (simp add: utf8_char_def)
qed

lemma utf8_valid_map: "ascii_map f \<Longrightarrow> utf8_valid (map f bs) = utf8_valid bs"
proof (induction bs rule: utf8_valid.induct)
  case (1 bs)
  then show ?case
    by (subst (1 2) utf8_valid.simps) (auto simp: utf8_char_map drop_map split: option.split)
qed

lemma utf8_valid_concat: "(\<And>s. s \<in> set ss \<Longrightarrow> utf8_valid s) \<Longrightarrow> utf8_valid (concat ss)"
  by (induction ss) (auto intro: utf8_valid_append)

lemma utf8_valid_all_ascii: "(\<And>b. b \<in> set s \<Longrightarrow> b < 128) \<Longrightarrow> utf8_valid s"
  by (induction s) auto

lemma utf8_prefix_valid: "utf8_valid (take (utf8_prefix bs) bs)"
proof (induction bs rule: utf8_prefix.induct)
  case (1 bs)
  show ?case
  proof (cases "utf8_char bs")
    case None
    then show ?thesis by (subst utf8_prefix.simps) simp
  next
    case (Some n)
    let ?k = "utf8_prefix (drop n bs)"
    have p: "utf8_prefix bs = n + ?k" using Some by (subst utf8_prefix.simps) simp
    have "utf8_char (take (n + ?k) bs) = Some n" using Some by (rule utf8_char_take) simp
    moreover have "utf8_valid (drop n (take (n + ?k) bs))" using 1 [OF Some] by (simp add: drop_take)
    ultimately show ?thesis unfolding p by (subst utf8_valid.simps) simp
  qed
qed

lemma utf8_prefix_all: "utf8_valid bs \<Longrightarrow> utf8_prefix bs = length bs"
proof (induction bs rule: utf8_valid.induct)
  case (1 bs)
  show ?case
  proof (cases "bs = []")
    case False
    with "1.prems" obtain n where n: "utf8_char bs = Some n" "utf8_valid (drop n bs)"
      by (auto simp: utf8_valid.simps [of bs] split: option.splits)
    with "1.IH" False utf8_char_bounds [OF n(1)] show ?thesis by (subst utf8_prefix.simps) simp
  qed (simp add: utf8_prefix.simps utf8_char_def)
qed

end
