(* ===== verification/Link.thy ===== *)
theory Link
  imports Text
begin

text \<open>
  The line protocol spoken with the Arduino bridge, \<open>rustypi-core/src/link.rs\<close>: frames written
  piece by piece with a running checksum, the byte-by-byte receiver with its fixed buffer and
  counters, the frame parser, and the sanitised console text of programs. A write goes to a sink
  that does not fail, modelled by the bytes written so far; the event callback is the result.

  The properties: whatever a receiver has seen before, a written frame comes out as exactly that
  frame, with the characters that would break the framing replaced; a damaged byte in the body of a
  frame is always detected; and console text can never start a frame.
\<close>

subsection \<open>Receiving\<close>

definition MAX_LINE :: nat where "MAX_LINE = 160"

record link_stats =
  ls_rx_bytes :: u32
  ls_rx_errors :: u32
  ls_dropped :: u32
  ls_bad_frames :: u32
  ls_overflows :: u32

datatype link_event = Frame rstr rstr | Rejected rstr

record receiver =
  rx_buf :: "byte list"
  rx_len :: nat
  rx_overflow :: bool
  rx_stats :: link_stats

definition receiver_new :: receiver where
  "receiver_new = \<lparr>rx_buf = replicate MAX_LINE 0, rx_len = 0, rx_overflow = False,
     rx_stats = \<lparr>ls_rx_bytes = 0, ls_rx_errors = 0, ls_dropped = 0, ls_bad_frames = 0, ls_overflows = 0\<rparr>\<rparr>"

definition checksum :: "byte list \<Rightarrow> byte" where
  "checksum bytes = fold (\<lambda>b acc. acc XOR b) bytes 0"

definition nibble :: "byte \<Rightarrow> byte option" where
  "nibble c =
     (if 48 \<le> c \<and> c \<le> 57 then Some (c - 48)
      else if 65 \<le> c \<and> c \<le> 70 then Some (c - 65 + 10)
      else if 97 \<le> c \<and> c \<le> 102 then Some (c - 97 + 10)
      else None)"

definition hex_byte :: "byte \<Rightarrow> byte \<Rightarrow> byte option" where
  "hex_byte hi lo =
     Option.bind (nibble hi) (\<lambda>h. Option.bind (nibble lo) (\<lambda>l. Some (push_bit 4 h OR l)))"

definition parse_frame :: "byte list \<Rightarrow> (rstr \<times> rstr) option" where
  "parse_frame line =
     (if length line < 4 \<or> line ! 0 \<noteq> 36 \<or> line ! (length line - 3) \<noteq> 42 then None
      else let body = slice 1 (length line - 3) line
           in Option.bind (hex_byte (line ! (length line - 2)) (line ! (length line - 1))) (\<lambda>expected.
              if checksum body \<noteq> expected \<or> \<not> utf8_valid body then None
              else Some (case split_once 44 body of None \<Rightarrow> (body, []) | Some kp \<Rightarrow> kp)))"

definition receiver_store :: "byte \<Rightarrow> receiver \<Rightarrow> receiver" where
  "receiver_store b r =
     (if rx_len r < MAX_LINE then r\<lparr>rx_buf := (rx_buf r)[rx_len r := b], rx_len := rx_len r + 1\<rparr>
      else r\<lparr>rx_overflow := True\<rparr>)"

definition count_dropped :: "receiver \<Rightarrow> receiver" where
  "count_dropped r = r\<lparr>rx_stats := (rx_stats r)\<lparr>ls_dropped := ls_dropped (rx_stats r) + 1\<rparr>\<rparr>"

definition receiver_discard :: "receiver \<Rightarrow> receiver" where
  "receiver_discard r =
     (if 0 < rx_len r \<or> rx_overflow r then count_dropped r else r)\<lparr>rx_len := 0, rx_overflow := False\<rparr>"

definition receiver_dispatch :: "receiver \<Rightarrow> link_event option \<times> receiver" where
  "receiver_dispatch r =
     (let line = take (rx_len r) (rx_buf r)
      in if line ! 0 \<noteq> 36 then (None, count_dropped r)
         else case parse_frame line of
                Some (kind, payload) \<Rightarrow> (Some (Frame kind payload), r)
              | None \<Rightarrow> (Some (Rejected (ascii ''bad frame'')),
                         r\<lparr>rx_stats := (rx_stats r)\<lparr>ls_bad_frames := ls_bad_frames (rx_stats r) + 1\<rparr>\<rparr>))"

definition receiver_push :: "(byte, byte) result \<Rightarrow> receiver \<Rightarrow> link_event option \<times> receiver" where
  "receiver_push received r0 =
     (let r = r0\<lparr>rx_stats := (rx_stats r0)\<lparr>ls_rx_bytes := ls_rx_bytes (rx_stats r0) + 1\<rparr>\<rparr>
      in case received of
           Err _ \<Rightarrow> (None, receiver_discard
             (r\<lparr>rx_stats := (rx_stats r)\<lparr>ls_rx_errors := ls_rx_errors (rx_stats r) + 1\<rparr>\<rparr>))
         | Ok b \<Rightarrow>
             if b = 13 then (None, r)
             else if b = 10 then
               (let (ev, r1) = (if rx_overflow r
                                then (Some (Rejected (ascii ''line too long'')),
                                      r\<lparr>rx_stats := (rx_stats r)\<lparr>ls_overflows := ls_overflows (rx_stats r) + 1\<rparr>\<rparr>)
                                else if 0 < rx_len r then receiver_dispatch r else (None, r))
                in (ev, r1\<lparr>rx_len := 0, rx_overflow := False\<rparr>))
             else if b = 36 then (None, receiver_store b (receiver_discard r))
             else (None, receiver_store b r))"

subsection \<open>Writing\<close>

definition frame_breaking :: "byte \<Rightarrow> bool" where
  "frame_breaking b \<longleftrightarrow> b = 36 \<or> b = 13 \<or> b = 10"

record frame_writer =
  fw_out :: "byte list"
  fw_sum :: byte
  fw_has_payload :: bool

fun write_pieces :: "rstr list \<Rightarrow> frame_writer \<Rightarrow> frame_writer" where
  "write_pieces [] w = w"
| "write_pieces (piece # ps) w =
     (let (text, replaced) = (case strip_suffix frame_breaking piece of
                                Some t \<Rightarrow> (t, True) | None \<Rightarrow> (piece, False));
          w1 = w\<lparr>fw_sum := fw_sum w XOR checksum text, fw_out := fw_out w @ text\<rparr>;
          w2 = (if replaced then w1\<lparr>fw_sum := fw_sum w1 XOR 63, fw_out := fw_out w1 @ [63]\<rparr> else w1)
      in write_pieces ps w2)"

definition write_str :: "rstr \<Rightarrow> frame_writer \<Rightarrow> frame_writer" where
  "write_str s w =
     (if s = [] then w
      else let w1 = (if fw_has_payload w then w
                     else w\<lparr>fw_has_payload := True, fw_sum := fw_sum w XOR 44, fw_out := fw_out w @ [44]\<rparr>)
           in write_pieces (split_inclusive frame_breaking s) w1)"

definition HEX :: "byte list" where
  "HEX = ascii ''0123456789ABCDEF''"

definition write_frame :: "rstr \<Rightarrow> rstr list \<Rightarrow> byte list \<Rightarrow> byte list" where
  \<comment> \<open>the formatted payload is the sequence of strings the formatter writes\<close>
  "write_frame kind payload out =
     (let w = fold write_str payload \<lparr>fw_out = out @ [36] @ kind, fw_sum = checksum kind, fw_has_payload = False\<rparr>;
          sum = fw_sum w
      in fw_out w @ [42, HEX ! unat (drop_bit 4 sum), HEX ! unat (sum AND 15), 10])"

subsection \<open>Console text\<close>

definition plain_piece :: "rstr \<Rightarrow> rstr" where
  "plain_piece piece = (case strip_suffix (\<lambda>b. b = 36) piece of Some text \<Rightarrow> text @ [63] | None \<Rightarrow> piece)"

definition plain_text :: "byte list \<Rightarrow> rstr" where
  \<comment> \<open>everything emitted, in order\<close>
  "plain_text bytes =
     concat (map (\<lambda>(valid, invalid).
         concat (map plain_piece (split_inclusive (\<lambda>b. b = 36) valid)) @ (if invalid \<noteq> [] then [63] else []))
       (utf8_chunks bytes))"


subsection \<open>Frames as they are written\<close>

lemma fold_xor: "fold (\<lambda>b acc. acc XOR b) bs a = a XOR checksum bs" for a :: byte
proof (induction bs arbitrary: a)
  case (Cons b bs)
  have "checksum (b # bs) = b XOR checksum bs" using Cons [of b] by (simp add: checksum_def)
  then show ?case by (simp add: Cons [of "a XOR b"] xor.assoc)
qed (simp add: checksum_def)

lemma checksum_simps [simp]:
  "checksum [] = 0" "checksum (b # bs) = b XOR checksum bs"
  "checksum (xs @ ys) = checksum xs XOR checksum ys"
proof -
  show "checksum [] = 0" by (simp add: checksum_def)
  show "checksum (b # bs) = b XOR checksum bs" using fold_xor [of bs b] by (simp add: checksum_def)
  show "checksum (xs @ ys) = checksum xs XOR checksum ys"
    unfolding checksum_def [of "xs @ ys"] by (simp add: fold_xor)
qed

definition sanitise :: "byte \<Rightarrow> byte" where
  "sanitise b = (if frame_breaking b then 63 else b)"

definition frame_body :: "rstr \<Rightarrow> rstr \<Rightarrow> byte list" where
  "frame_body kind payload = kind @ (if payload = [] then [] else 44 # map sanitise payload)"

lemma split_inclusive_piece:
  "piece \<in> set (split_inclusive P s) \<Longrightarrow> piece \<noteq> [] \<and> (\<forall>b \<in> set (butlast piece). \<not> P b)"
proof (induction s arbitrary: piece)
  case (Cons b bs)
  show ?case
  proof (cases "P b")
    case True
    with Cons show ?thesis by auto
  next
    case False
    show ?thesis
    proof (cases "split_inclusive P bs")
      case Nil
      with Cons.prems False show ?thesis by auto
    next
      case (Cons p ps)
      with Cons.prems False have "piece = b # p \<or> piece \<in> set ps" by auto
      with Cons.IH [of p] Cons.IH [of piece] Cons False show ?thesis by auto
    qed
  qed
qed simp

lemma map_sanitise_id: "\<forall>b \<in> set s. \<not> frame_breaking b \<Longrightarrow> map sanitise s = s"
  by (simp add: sanitise_def map_idI)

lemma write_pieces_eq:
  assumes "\<And>piece. piece \<in> set ps \<Longrightarrow> piece \<noteq> [] \<and> (\<forall>b \<in> set (butlast piece). \<not> frame_breaking b)"
  shows "write_pieces ps w = w\<lparr>fw_out := fw_out w @ map sanitise (concat ps),
    fw_sum := fw_sum w XOR checksum (map sanitise (concat ps))\<rparr>"
  using assms
proof (induction ps arbitrary: w)
  case (Cons piece ps)
  have piece: "piece = butlast piece @ [last piece]" "map sanitise (butlast piece) = butlast piece"
    using Cons.prems [of piece] by (simp_all add: map_sanitise_id)
  let ?w = "w\<lparr>fw_out := fw_out w @ map sanitise piece, fw_sum := fw_sum w XOR checksum (map sanitise piece)\<rparr>"
  have "map sanitise piece = butlast piece @ [sanitise (last piece)]"
    by (subst piece(1)) (simp only: map_append piece(2) list.map)
  then have step: "write_pieces (piece # ps) w = write_pieces ps ?w"
    using piece(1) Cons.prems [of piece]
    by (cases w; cases "frame_breaking (last piece)") (auto simp: strip_suffix_def Let_def sanitise_def ac_simps)
  have "write_pieces ps ?w = ?w\<lparr>fw_out := fw_out ?w @ map sanitise (concat ps),
      fw_sum := fw_sum ?w XOR checksum (map sanitise (concat ps))\<rparr>"
    by (rule Cons.IH) (rule Cons.prems, simp)
  then show ?case unfolding step by (cases w) (simp add: xor.assoc del: write_pieces.simps)
qed (cases w; simp)

lemma write_str_eq:
  "write_str s w =
     (if s = [] then w
      else let sep = (if fw_has_payload w then [] else [44]) @ map sanitise s
           in w\<lparr>fw_out := fw_out w @ sep, fw_sum := fw_sum w XOR checksum sep, fw_has_payload := True\<rparr>)"
proof -
  have "write_pieces (split_inclusive frame_breaking s) v =
      v\<lparr>fw_out := fw_out v @ map sanitise s, fw_sum := fw_sum v XOR checksum (map sanitise s)\<rparr>" for v
    using write_pieces_eq [OF split_inclusive_piece, where w = v] by (simp add: concat_split_inclusive)
  then show ?thesis by (cases w) (simp add: write_str_def Let_def ac_simps)
qed

lemma write_str_Nil [simp]: "write_str [] w = w"
  by (simp add: write_str_def)

lemma fold_write_str:
  "fold write_str payload w =
     (if concat payload = [] then w
      else let sep = (if fw_has_payload w then [] else [44]) @ map sanitise (concat payload)
           in w\<lparr>fw_out := fw_out w @ sep, fw_sum := fw_sum w XOR checksum sep, fw_has_payload := True\<rparr>)"
proof (induction payload arbitrary: w)
  case (Cons s payload)
  show ?case
  proof (cases "concat payload = []")
    case True
    then have "fold write_str payload w = w" for w by (simp add: Cons del: concat_eq_Nil_conv)
    with True show ?thesis by (cases "s = []") (simp_all add: write_str_eq [of s] Let_def del: concat_eq_Nil_conv)
  next
    case False
    with Cons show ?thesis
      by (cases w; cases "s = []") (simp_all add: write_str_eq [of s] Let_def ac_simps del: concat_eq_Nil_conv)
  qed
qed simp

lemma write_frame_eq:
  "write_frame kind payload out =
     (let body = frame_body kind (concat payload)
      in out @ [36] @ body @ [42, HEX ! unat (drop_bit 4 (checksum body)), HEX ! unat (checksum body AND 15), 10])"
  by (simp add: write_frame_def fold_write_str frame_body_def Let_def ac_simps)

lemma nibble_HEX_all: "\<forall>n \<in> set [0..<16]. nibble (HEX ! n) = Some (of_nat n)"
  by code_simp

lemma nibble_HEX: "n < 16 \<Longrightarrow> nibble (HEX ! n) = Some (of_nat n)"
  using nibble_HEX_all by simp

lemma hex_byte_HEX: "hex_byte (HEX ! unat (drop_bit 4 s)) (HEX ! unat (s AND 15)) = Some s"
proof -
  have "unat s div 16 < 16" using unat_u8_less [of s] by (simp add: less_mult_imp_div_less)
  then have "unat (drop_bit 4 s) < 16" by (simp add: drop_bit_eq_div unat_div)
  moreover have "unat (s AND 15) < 16"
    using word_and_le1 [of s 15] by (simp add: word_le_nat_alt and.commute)
  moreover have "push_bit 4 (drop_bit 4 s) OR (s AND 15) = s"
  proof (rule bit_word_eqI)
    fix n assume n: "n < LENGTH(8)"
    have "bit (15 :: byte) n \<longleftrightarrow> n < 4" using n bit_mask_iff [of 4 n, where 'a = byte] by (simp add: mask_eq_exp_minus_1)
    then show "bit (push_bit 4 (drop_bit 4 s) OR (s AND 15)) n = bit s n"
      using n by (cases "n < 4") (simp_all add: bit_simps)
  qed
  ultimately show ?thesis by (simp add: hex_byte_def nibble_HEX)
qed


subsection \<open>Receiving what was written\<close>

lemma parse_frame_body:
  assumes "utf8_valid body"
  shows "parse_frame ([36] @ body @ [42, HEX ! unat (drop_bit 4 (checksum body)), HEX ! unat (checksum body AND 15)])
    = Some (case split_once 44 body of None \<Rightarrow> (body, []) | Some kp \<Rightarrow> kp)"
proof -
  define line where "line = [36] @ body @ [42, HEX ! unat (drop_bit 4 (checksum body)), HEX ! unat (checksum body AND 15)]"
  have nth: "line ! (length line - 3) = 42" "line ! (length line - 2) = HEX ! unat (drop_bit 4 (checksum body))"
    "line ! (length line - 1) = HEX ! unat (checksum body AND 15)" "line ! 0 = 36" "\<not> length line < 4"
    by (simp_all add: line_def nth_append)
  have sl: "slice 1 (length line - 3) line = body" by (simp add: line_def slice_def)
  have "parse_frame line = Some (case split_once 44 body of None \<Rightarrow> (body, []) | Some kp \<Rightarrow> kp)"
    unfolding parse_frame_def Let_def sl using nth assms hex_byte_HEX [of "checksum body"] by simp
  then show ?thesis by (simp only: line_def)
qed

definition rx_line :: "receiver \<Rightarrow> byte list" where
  "rx_line r = take (rx_len r) (rx_buf r)"

definition rx_inv :: "receiver \<Rightarrow> bool" where
  "rx_inv r \<longleftrightarrow> length (rx_buf r) = MAX_LINE \<and> rx_len r \<le> MAX_LINE"

fun feed :: "byte list \<Rightarrow> receiver \<Rightarrow> link_event list \<times> receiver" where
  "feed [] r = ([], r)"
| "feed (b # bs) r =
     (let (ev, r1) = receiver_push (Ok b) r; (evs, r2) = feed bs r1
      in (case ev of None \<Rightarrow> evs | Some e \<Rightarrow> e # evs, r2))"

lemma store_line:
  "rx_inv r \<Longrightarrow> rx_len r < MAX_LINE \<Longrightarrow>
   rx_inv (receiver_store b r) \<and> rx_line (receiver_store b r) = rx_line r @ [b]
   \<and> rx_len (receiver_store b r) = Suc (rx_len r) \<and> rx_overflow (receiver_store b r) = rx_overflow r"
  by (simp add: rx_inv_def rx_line_def receiver_store_def take_Suc_conv_app_nth)

lemma push_plain:
  "\<not> frame_breaking b \<Longrightarrow> receiver_push (Ok b) r =
     (None, receiver_store b (r\<lparr>rx_stats := (rx_stats r)\<lparr>ls_rx_bytes := ls_rx_bytes (rx_stats r) + 1\<rparr>\<rparr>))"
  by (simp add: receiver_push_def frame_breaking_def Let_def)

lemma feed_plain:
  assumes "rx_inv r" and "\<not> rx_overflow r" and "rx_len r + length bs \<le> MAX_LINE"
    and "\<forall>b \<in> set bs. \<not> frame_breaking b"
  shows "\<exists>r'. feed bs r = ([], r') \<and> rx_inv r' \<and> \<not> rx_overflow r' \<and> rx_line r' = rx_line r @ bs
    \<and> rx_len r' = rx_len r + length bs"
  using assms
proof (induction bs arbitrary: r)
  case (Cons b bs)
  let ?r = "r\<lparr>rx_stats := (rx_stats r)\<lparr>ls_rx_bytes := ls_rx_bytes (rx_stats r) + 1\<rparr>\<rparr>"
  have "rx_inv ?r" "rx_line ?r = rx_line r" "rx_len ?r = rx_len r" "rx_overflow ?r = rx_overflow r"
    using Cons.prems(1) by (simp_all add: rx_inv_def rx_line_def)
  then have s: "rx_inv (receiver_store b ?r)" "rx_line (receiver_store b ?r) = rx_line r @ [b]"
    "rx_len (receiver_store b ?r) = Suc (rx_len r)" "\<not> rx_overflow (receiver_store b ?r)"
    using store_line [of ?r b] Cons.prems(2,3) by auto
  obtain r' where "feed bs (receiver_store b ?r) = ([], r')" "rx_inv r'" "\<not> rx_overflow r'"
    "rx_line r' = (rx_line r @ [b]) @ bs" "rx_len r' = Suc (rx_len r) + length bs"
    using Cons.IH [OF s(1,4)] Cons.prems(3,4) s(2,3) by auto
  then show ?case using Cons.prems(4) push_plain [of b r] by (simp add: Let_def)
qed simp

lemma feed_append:
  "feed (xs @ ys) r = (fst (feed xs r) @ fst (feed ys (snd (feed xs r))), snd (feed ys (snd (feed xs r))))"
  by (induction xs arbitrary: r) (auto simp: Let_def split: prod.splits option.splits)

lemma push_start:
  assumes "rx_inv r"
  shows "\<exists>r'. receiver_push (Ok 36) r = (None, r') \<and> rx_inv r' \<and> \<not> rx_overflow r' \<and> rx_line r' = [36] \<and> rx_len r' = 1"
  using assms
  by (auto simp: receiver_push_def Let_def receiver_discard_def count_dropped_def receiver_store_def rx_inv_def
      rx_line_def MAX_LINE_def take_Suc_conv_app_nth)

lemma push_end:
  assumes "\<not> rx_overflow r" and "0 < rx_len r" and "rx_line r ! 0 = 36" and "parse_frame (rx_line r) = Some (k, p)"
  shows "\<exists>r'. receiver_push (Ok 10) r = (Some (Frame k p), r') \<and> rx_len r' = 0 \<and> \<not> rx_overflow r'
    \<and> rx_buf r' = rx_buf r"
  using assms by (auto simp: receiver_push_def Let_def receiver_dispatch_def rx_line_def)

lemma push_inv: "rx_inv r \<Longrightarrow> rx_inv (snd (receiver_push x r))"
  by (auto simp: receiver_push_def Let_def receiver_dispatch_def receiver_discard_def receiver_store_def
      count_dropped_def rx_inv_def split: result.split option.split)

lemma sanitise_safe: "b \<in> set (map sanitise s) \<Longrightarrow> \<not> frame_breaking b"
  by (auto simp: sanitise_def frame_breaking_def split: if_splits)

lemma sanitise_ascii: "ascii_map sanitise"
  by (auto simp: ascii_map_def sanitise_def frame_breaking_def)

lemma HEX_safe: "n < 16 \<Longrightarrow> \<not> frame_breaking (HEX ! n)"
  using nibble_HEX [of n] by (auto simp: nibble_def frame_breaking_def split: if_splits)

lemma plain_pieces:
  "concat (map plain_piece (split_inclusive (\<lambda>b. b = 36) s)) = map (\<lambda>b. if b = 36 then 63 else b) s"
proof -
  let ?f = "\<lambda>b :: byte. if b = 36 then 63 else b"
  have "plain_piece piece = map ?f piece" if "piece \<in> set (split_inclusive (\<lambda>b. b = 36) s)" for piece
  proof -
    have p: "piece = butlast piece @ [last piece]" "map ?f (butlast piece) = butlast piece"
      using split_inclusive_piece [OF that] by (auto intro: map_idI)
    have "map ?f piece = butlast piece @ [?f (last piece)]" by (subst p(1)) (simp only: map_append p(2) list.map)
    then show ?thesis using p(1) by (auto simp: plain_piece_def strip_suffix_def)
  qed
  then have "map plain_piece (split_inclusive (\<lambda>b. b = 36) s) = map (map ?f) (split_inclusive (\<lambda>b. b = 36) s)"
    by (rule map_cong [OF refl])
  then show ?thesis by (simp only: map_concat [symmetric] concat_split_inclusive)
qed

lemma utf8_chunks_valid: "(v, i) \<in> set (utf8_chunks bs) \<Longrightarrow> utf8_valid v"
proof (induction bs rule: utf8_chunks.induct)
  case (1 bs)
  then show ?case
    using utf8_prefix_valid [of bs] by (subst (asm) (2) utf8_chunks.simps) (auto simp: Let_def split: if_splits)
qed

subsection \<open>Properties\<close>

text \<open>C26: whatever a receiver has been fed before (noise, half a frame, an overlong line), feeding it
  the bytes of a written frame gives exactly one event, that frame: its kind, and its payload with
  every character that would break the framing replaced by a question mark. The receiver is then
  ready for the next line. The kind is text without those characters and without a comma, and the
  line has to fit the buffer.\<close>
theorem frame_roundtrip:
  assumes "rx_inv r" and "utf8_valid kind" and "\<forall>b \<in> set kind. \<not> frame_breaking b \<and> b \<noteq> 44"
    and "\<forall>s \<in> set payload. utf8_valid s"
    and "length (write_frame kind payload []) \<le> MAX_LINE + 1"
  shows "\<exists>r'. feed (write_frame kind payload []) r = ([Frame kind (map sanitise (concat payload))], r')
    \<and> rx_inv r' \<and> rx_len r' = 0 \<and> \<not> rx_overflow r'"
proof -
  define body where "body = frame_body kind (concat payload)"
  define digits where "digits = [42, HEX ! unat (drop_bit 4 (checksum body)), HEX ! unat (checksum body AND 15)]"
  have frame: "write_frame kind payload [] = 36 # (body @ digits) @ [10]"
    by (simp add: write_frame_eq Let_def body_def digits_def)
  have "unat (checksum body) div 16 < 16" using unat_u8_less by (simp add: less_mult_imp_div_less)
  then have "unat (drop_bit 4 (checksum body)) < 16" by (simp add: drop_bit_eq_div unat_div)
  moreover have "unat (checksum body AND 15) < 16"
    using word_and_le1 [of "checksum body" 15] by (simp add: word_le_nat_alt and.commute)
  ultimately have safe: "\<forall>b \<in> set (body @ digits). \<not> frame_breaking b"
    using assms(3) HEX_safe sanitise_safe [of _ "concat payload"]
    by (auto simp: body_def frame_body_def digits_def frame_breaking_def simp del: set_map)
  have valid: "utf8_valid body"
    using assms(2,4) utf8_valid_concat [of payload] utf8_valid_map [OF sanitise_ascii]
    by (auto simp: body_def frame_body_def intro!: utf8_valid_append)
  have split: "(case split_once 44 body of None \<Rightarrow> (body, []) | Some kp \<Rightarrow> kp) = (kind, map sanitise (concat payload))"
    using assms(3) split_once_append [of 44 kind] split_once_None [of 44 kind]
    by (auto simp: body_def frame_body_def)
  obtain r1 where r1: "receiver_push (Ok 36) r = (None, r1)" "rx_inv r1" "\<not> rx_overflow r1" "rx_line r1 = [36]" "rx_len r1 = 1"
    using push_start [OF assms(1)] by blast
  have "rx_len r1 + length (body @ digits) \<le> MAX_LINE" using assms(5) by (simp add: frame r1(5))
  then obtain r2 where r2: "feed (body @ digits) r1 = ([], r2)" "rx_inv r2" "\<not> rx_overflow r2"
    "rx_line r2 = 36 # body @ digits" "rx_len r2 = 1 + length (body @ digits)"
    using feed_plain [OF r1(2,3) _ safe] r1(4,5) by auto
  have "parse_frame (rx_line r2) = Some (kind, map sanitise (concat payload))"
    using parse_frame_body [OF valid] split by (simp add: r2(4) digits_def)
  then obtain r3 where r3: "receiver_push (Ok 10) r2 = (Some (Frame kind (map sanitise (concat payload))), r3)"
    "rx_len r3 = 0" "\<not> rx_overflow r3"
    using push_end [OF r2(3)] r2(4,5) by fastforce
  have "feed ((body @ digits) @ [10]) r1 = ([Frame kind (map sanitise (concat payload))], r3)"
    unfolding feed_append [of "body @ digits"] r2(1) by (simp add: r3(1) Let_def)
  then have "feed (write_frame kind payload []) r = ([Frame kind (map sanitise (concat payload))], r3)"
    unfolding frame feed.simps r1(1) by simp
  moreover have "rx_inv r3" using push_inv [OF r2(2), of "Ok 10"] r3(1) by simp
  ultimately show ?thesis using r3 by blast
qed

theorem frame_roundtrip_witness:
  "\<exists>r'. feed (write_frame (ascii ''END'') [dec 7, ascii '','', ascii ''$2''] [])
     (snd (feed (ascii ''noise $EN'') receiver_new)) = ([Frame (ascii ''END'') (ascii ''7,?2'')], r')"
proof -
  have "rx_inv receiver_new" by (simp add: rx_inv_def receiver_new_def)
  then have "rx_inv (snd (feed bs receiver_new))" for bs
    by (induction bs rule: rev_induct) (simp_all add: feed_append push_inv Let_def split_beta)
  then obtain r where r: "r = snd (feed (ascii ''noise $EN'') receiver_new)" "rx_inv r" by blast
  have "dec 7 = [55]" by (simp add: dec.simps)
  then have "\<exists>r'. feed (write_frame (ascii ''END'') [dec 7, ascii '','', ascii ''$2''] []) r
      = ([Frame (ascii ''END'') (map sanitise (concat [dec 7, ascii '','', ascii ''$2'']))], r')"
    using frame_roundtrip [OF r(2), of "ascii ''END''" "[dec 7, ascii '','', ascii ''$2'']"]
    by (simp add: write_frame_eq frame_body_def) (auto simp: ascii_def frame_breaking_def MAX_LINE_def Let_def)
  moreover have "map sanitise (concat [dec 7, ascii '','', ascii ''$2'']) = ascii ''7,?2''"
    by (simp add: \<open>dec 7 = [55]\<close> ascii_def sanitise_def frame_breaking_def)
  ultimately show ?thesis unfolding r(1) by simp
qed

text \<open>damage to one byte of a frame's body is always detected: the changed line no longer
  parses.\<close>
theorem damaged_byte_detected:
  assumes "parse_frame line = Some kp" and "1 \<le> i" and "i < length line - 3" and "b \<noteq> line ! i"
  shows "parse_frame (line[i := b]) = None"
proof -
  let ?n = "length line" and ?line = "line[i := b]"
  have len: "4 \<le> ?n" using assms(1) by (auto simp: parse_frame_def split: if_splits)
  let ?body = "slice 1 (?n - 3) line"
  have sum: "hex_byte (line ! (?n - 2)) (line ! (?n - 1)) = Some (checksum ?body)"
    using assms(1) by (auto simp: parse_frame_def Let_def bind_eq_Some_conv split: if_splits)
  have ends: "?line ! (?n - 2) = line ! (?n - 2)" "?line ! (?n - 1) = line ! (?n - 1)"
    using assms(2,3) len by auto
  have body: "slice 1 (?n - 3) ?line = ?body[i - 1 := b]"
    using assms(2,3) by (simp add: slice_def drop_update_swap take_update_swap)
  have i: "i - 1 < length ?body" using assms(2,3) by (simp add: slice_def)
  have at: "?body ! (i - 1) = line ! i" using assms(2,3) by (simp add: slice_def)
  have "checksum (?body[i - 1 := b]) \<noteq> checksum ?body"
  proof -
    have split: "?body = take (i - 1) ?body @ line ! i # drop i ?body"
      using id_take_nth_drop [OF i] at assms(2) by simp
    have upd: "?body[i - 1 := b] = take (i - 1) ?body @ b # drop i ?body"
      using upd_conv_take_nth_drop [OF i, of b] assms(2) by simp
    have "checksum (?body[i - 1 := b]) XOR checksum ?body = b XOR line ! i"
      unfolding upd by (subst (3) split) (simp add: ac_simps del: xor_self_eq)
    then show ?thesis using assms(4) by (metis xor_self_eq xor.right_neutral xor.assoc)
  qed
  then show ?thesis
    unfolding parse_frame_def Let_def length_list_update ends sum body by simp
qed


theorem damaged_byte_detected_witness: "parse_frame ((ascii ''$A,x*15'')[3 := 121]) = None"
  using damaged_byte_detected [of "ascii ''$A,x*15''" "(ascii ''A'', ascii ''x'')" 3 121]
  by (simp add: parse_frame_def ascii_def slice_def Let_def hex_byte_def nibble_def)

text \<open>what a program prints can never be mistaken for a frame: the console text holds no dollar
  sign and is valid UTF-8 whatever the bytes were, and text without dollar signs is unchanged.\<close>
theorem plain_text_safe:
  "36 \<notin> set (plain_text bytes) \<and> utf8_valid (plain_text bytes)
   \<and> (utf8_valid bytes \<longrightarrow> 36 \<notin> set bytes \<longrightarrow> plain_text bytes = bytes)"
proof -
  let ?f = "\<lambda>b :: byte. if b = 36 then 63 else b"
  have eq: "plain_text bytes = concat (map (\<lambda>(v, i). map ?f v @ (if i \<noteq> [] then [63] else [])) (utf8_chunks bytes))"
    by (simp add: plain_text_def plain_pieces)
  have "ascii_map ?f" by (simp add: ascii_map_def)
  then have "utf8_valid (plain_text bytes)"
    unfolding eq by (auto intro!: utf8_valid_concat utf8_valid_append simp: utf8_valid_map) (rule utf8_chunks_valid)
  moreover have "36 \<notin> set (plain_text bytes)" unfolding eq by (auto split: if_splits)
  moreover have "plain_text bytes = bytes" if "utf8_valid bytes" "36 \<notin> set bytes"
  proof (cases "bytes = []")
    case False
    then have "utf8_chunks bytes = [(bytes, [])]"
      using utf8_prefix_all [OF that(1)] by (subst utf8_chunks.simps) (simp add: Let_def utf8_chunks.simps)
    then show ?thesis unfolding eq using that(2) by (auto intro: map_idI)
  qed (simp add: plain_text_def utf8_chunks.simps)
  ultimately show ?thesis by blast
qed

theorem plain_text_safe_witness: "plain_text [104, 105] = [104, 105] \<and> 36 \<notin> set (plain_text [36, 255])"
  using plain_text_safe [of "[104, 105]"] plain_text_safe [of "[36, 255]"] by simp

end
