(* ===== verification/Session.thy ===== *)
theory Session
  imports Link
begin

text \<open>
  Requests and replies over the link, \<open>rustypi-core/src/session.rs\<close>: a request is run once however
  often it is retransmitted, and its reply is kept to be sent again. The command is a parameter (what
  it does to the system and which lines it replies with), a reply line is the text the formatter
  produced, and the frames sent are the result.
\<close>

definition MAX_TEXT :: nat where
  "MAX_TEXT = MAX_LINE - length ''$HELP,65535,99,*HH''"

datatype line_kind = Rsp | Help

fun frame_kind :: "line_kind \<Rightarrow> rstr" where
  "frame_kind Rsp = ascii ''RSP''"
| "frame_kind Help = ascii ''HELP''"

type_synonym reply = "(line_kind \<times> rstr) list"

definition reply_line :: "line_kind \<Rightarrow> rstr \<Rightarrow> reply \<Rightarrow> reply" where
  "reply_line kind text lines =
     lines @ [(kind, if length text > MAX_TEXT then take (floor_char_boundary text MAX_TEXT) text else text)]"

definition reply_rsp :: "rstr \<Rightarrow> reply \<Rightarrow> reply" where
  "reply_rsp text = reply_line Rsp text"

record session =
  se_last_seq :: "u16 option"
  se_reply :: reply

definition session_new :: session where
  "session_new = \<lparr>se_last_seq = None, se_reply = []\<rparr>"

definition session_reset :: "session \<Rightarrow> session" where
  "session_reset s = s\<lparr>se_last_seq := None\<rparr>"

definition parse_request :: "rstr \<Rightarrow> (u16 \<times> rstr) option" where
  "parse_request payload =
     (let (seq, text) = (case split_once 44 payload of None \<Rightarrow> (payload, []) | Some st \<Rightarrow> st)
      in map_option (\<lambda>n. (of_nat n, text)) (parse_unsigned 65536 seq))"

definition request_seq :: "rstr \<Rightarrow> u16 option" where
  "request_seq payload = map_option fst (parse_request payload)"

type_synonym frame = "rstr \<times> rstr"

definition send_reply :: "u16 \<Rightarrow> session \<Rightarrow> frame list" where
  "send_reply seq s =
     map (\<lambda>(index, kind, text). (frame_kind kind, dec (unat seq) @ [44] @ dec index @ [44] @ text))
       (enumerate 0 (se_reply s))
     @ [(ascii ''END'', dec (unat seq) @ [44] @ dec (length (se_reply s)))]"

definition session_handle ::
  "rstr \<Rightarrow> (rstr \<Rightarrow> reply \<Rightarrow> 'w \<Rightarrow> 'a option \<times> reply \<times> 'w) \<Rightarrow> session \<Rightarrow> 'w \<Rightarrow>
   'a option \<times> frame list \<times> session \<times> 'w" where
  "session_handle payload run s w =
     (case parse_request payload of
        None \<Rightarrow> (None, [(ascii ''ERR'', ascii ''MSG needs a sequence number'')], s, w)
      | Some (seq, text) \<Rightarrow>
          if se_last_seq s = Some seq then (None, send_reply seq s, s, w)
          else let (action, lines, w') = run text [] w;
                   s' = s\<lparr>se_reply := lines, se_last_seq := Some seq\<rparr>
               in (action, send_reply seq s', s', w'))"

subsection \<open>Lemmas\<close>

lemma parse_request_print:
  "parse_request (dec (unat seq) @ [44] @ text) = Some (seq, text)"
proof -
  have "44 \<notin> set (dec (unat seq))" using dec_digits by fastforce
  moreover have "unat seq < 65536" by simp
  ultimately show ?thesis
    by (simp add: parse_request_def split_once_append parse_unsigned_dec)
qed

lemma reply_line_fits: "(k, text) \<in> set (reply_line kind t lines) \<Longrightarrow> (k, text) \<in> set lines \<or> length text \<le> MAX_TEXT"
  using floor_char_boundary_le [of t MAX_TEXT] by (auto simp: reply_line_def split: if_splits)

fun deliver ::
  "(rstr \<Rightarrow> reply \<Rightarrow> 'w \<Rightarrow> 'a option \<times> reply \<times> 'w) \<Rightarrow> rstr list \<Rightarrow> session \<Rightarrow> 'w \<Rightarrow> frame list list \<times> session \<times> 'w" where
  \<comment> \<open>a sequence of requests as they arrive\<close>
  "deliver run [] s w = ([], s, w)"
| "deliver run (p # ps) s w =
     (let (_, frames, s1, w1) = session_handle p run s w; (rest, s2, w2) = deliver run ps s1 w1
      in (frames # rest, s2, w2))"

lemma handle_retransmit:
  assumes "parse_request payload = Some (seq, text)" and "se_last_seq s = Some seq"
  shows "session_handle payload run s w = (None, send_reply seq s, s, w)"
  using assms by (simp add: session_handle_def)

lemma deliver_retransmits:
  assumes "\<forall>p \<in> set ps. \<exists>text. parse_request p = Some (seq, text)" and "se_last_seq s = Some seq"
  shows "deliver run ps s w = (replicate (length ps) (send_reply seq s), s, w)"
  using assms by (induction ps) (auto simp: handle_retransmit)

subsection \<open>Properties\<close>

text \<open>C25: a request is run exactly once, however often it is retransmitted: after the first delivery
  the system is not touched again, every retransmission is answered with the same complete reply
  (every line numbered in order, then their count), and the next sequence number runs again. An
  unnumbered request changes nothing.\<close>
theorem request_runs_once:
  assumes "se_last_seq s \<noteq> Some seq" and "run text [] w = (action, lines, w')"
  defines "request \<equiv> dec (unat seq) @ [44] @ text"
    and "s' \<equiv> s\<lparr>se_reply := lines, se_last_seq := Some seq\<rparr>"
  shows "session_handle request run s w = (action, send_reply seq s', s', w')
    \<and> deliver run (replicate n request) s' w' = (replicate n (send_reply seq s'), s', w')
    \<and> length (send_reply seq s') = Suc (length lines)
    \<and> (\<forall>i < length lines. send_reply seq s' ! i =
         (frame_kind (fst (lines ! i)), dec (unat seq) @ [44] @ dec i @ [44] @ snd (lines ! i)))
    \<and> last (send_reply seq s') = (ascii ''END'', dec (unat seq) @ [44] @ dec (length lines))
    \<and> (parse_request bad = None \<longrightarrow> session_handle bad run s w =
         (None, [(ascii ''ERR'', ascii ''MSG needs a sequence number'')], s, w))"
proof (intro conjI)
  have p: "parse_request request = Some (seq, text)" unfolding request_def by (rule parse_request_print)
  show "session_handle request run s w = (action, send_reply seq s', s', w')"
    using assms(1,2) p by (simp add: session_handle_def s'_def Let_def)
  show "deliver run (replicate n request) s' w' = (replicate n (send_reply seq s'), s', w')"
    using deliver_retransmits [of "replicate n request" seq s' run w'] p by (simp add: s'_def)
  show "length (send_reply seq s') = Suc (length lines)" by (simp add: send_reply_def s'_def)
  show "\<forall>i < length lines. send_reply seq s' ! i =
         (frame_kind (fst (lines ! i)), dec (unat seq) @ [44] @ dec i @ [44] @ snd (lines ! i))"
    by (simp add: send_reply_def s'_def nth_append nth_enumerate_eq split_beta)
  show "last (send_reply seq s') = (ascii ''END'', dec (unat seq) @ [44] @ dec (length lines))"
    by (simp add: send_reply_def s'_def)
  show "parse_request bad = None \<longrightarrow> session_handle bad run s w =
         (None, [(ascii ''ERR'', ascii ''MSG needs a sequence number'')], s, w)"
    by (simp add: session_handle_def)
qed

definition toggle :: "rstr \<Rightarrow> reply \<Rightarrow> bool \<Rightarrow> unit option \<times> reply \<times> bool" where
  \<comment> \<open>a command that must not run twice\<close>
  "toggle text lines led = (None, reply_rsp (ascii ''ok'') lines, \<not> led)"

theorem request_runs_once_witness:
  "let s' = \<lparr>se_last_seq = Some 7, se_reply = [(Rsp, ascii ''ok'')]\<rparr>
   in session_handle (dec 7 @ [44] @ ascii ''led toggle'') toggle session_new False = (None, send_reply 7 s', s', True)
    \<and> deliver toggle (replicate 3 (dec 7 @ [44] @ ascii ''led toggle'')) s' True = (replicate 3 (send_reply 7 s'), s', True)"
  using request_runs_once [of session_new 7 toggle "ascii ''led toggle''" False None "[(Rsp, ascii ''ok'')]" True 3]
  by (simp add: session_new_def toggle_def reply_rsp_def reply_line_def ascii_def MAX_TEXT_def MAX_LINE_def)

end
