(* ===== verification/Update.thy ===== *)
theory Update
  imports Text
begin

text \<open>
  Receiving a kernel image over UDP, \<open>rustypi-core/src/update.rs\<close>: the announcement, the numbered
  chunks with their acknowledgements, the CRC-32 and the end. Datagrams are byte lists; the image
  is the buffer the chunks are copied into.

  The properties: if every chunk of an image arrives at least once, in any order, with any
  duplicates and unrelated datagrams in between, the end delivers exactly that image; and an image is
  only ever delivered when it is complete and its CRC-32 is the announced one.
\<close>

subsection \<open>The receiver\<close>

definition CHUNK :: nat where "CHUNK = 1024"
definition MAX_IMAGE :: nat where "MAX_IMAGE = 8 * 1024 * 1024"

primrec crc_bits :: "nat \<Rightarrow> u32 \<Rightarrow> u32" where
  "crc_bits 0 crc = crc"
| "crc_bits (Suc n) crc =
     crc_bits n (if crc AND 1 \<noteq> 0 then drop_bit 1 crc XOR 0xEDB88320 else drop_bit 1 crc)"

definition crc32 :: "byte list \<Rightarrow> u32" where
  "crc32 data = NOT (fold (\<lambda>b crc. crc_bits 8 (crc XOR ucast b)) data (NOT 0))"

datatype response = Reply "byte list" | Complete "byte list"

definition refuse :: "string \<Rightarrow> response" where
  "refuse reason = Reply (88 # ascii reason)"

record transfer =
  tr_crc :: u32
  tr_image :: "byte list"
  tr_arrived :: "bool list"
  tr_missing :: nat

type_synonym update_receiver = "transfer option"

definition update_new :: update_receiver where "update_new = None"
definition update_reset :: "update_receiver \<Rightarrow> update_receiver" where "update_reset r = None"

definition word_at :: "byte list \<Rightarrow> nat \<Rightarrow> u32 option" where
  "word_at datagram at = map_option from_le (get_range datagram at (at + 4))"

definition handle_begin :: "byte list \<Rightarrow> update_receiver \<Rightarrow> response \<times> update_receiver" where
  "handle_begin datagram r =
     (case (word_at datagram 1, word_at datagram 5) of
        (Some size0, Some crc) \<Rightarrow>
          (let sz = unat size0
           in if sz = 0 \<or> sz > MAX_IMAGE then (refuse ''bad size'', None)
              else let chunks = (sz + (CHUNK - 1)) div CHUNK
                   in (Reply [75], Some \<lparr>tr_crc = crc, tr_image = replicate sz 0,
                                        tr_arrived = replicate chunks False, tr_missing = chunks\<rparr>))
      | _ \<Rightarrow> (refuse ''short begin'', r))"

definition handle_data :: "byte list \<Rightarrow> update_receiver \<Rightarrow> response \<times> update_receiver" where
  "handle_data datagram r =
     (case r of
        None \<Rightarrow> (refuse ''not begun'', r)
      | Some t \<Rightarrow>
          (case word_at datagram 1 of
             None \<Rightarrow> (refuse ''short data'', r)
           | Some offset0 \<Rightarrow>
               let offset = unat offset0; bytes = drop 5 datagram;
                   expected = min (length (tr_image t) - offset) CHUNK
               in if offset mod CHUNK \<noteq> 0 \<or> offset \<ge> length (tr_image t) \<or> length bytes \<noteq> expected
                  then (refuse ''bad chunk'', r)
                  else let index = offset div CHUNK;
                           t' = (if tr_arrived t ! index then t
                                 else t\<lparr>tr_image := overwrite offset bytes (tr_image t),
                                        tr_arrived := (tr_arrived t)[index := True],
                                        tr_missing := tr_missing t - 1\<rparr>)
                       in (Reply (65 # to_le 4 (of_nat offset :: u32)), Some t')))"

definition handle_end :: "update_receiver \<Rightarrow> response \<times> update_receiver" where
  "handle_end r =
     (case r of
        None \<Rightarrow> (refuse ''not begun'', None)
      | Some t \<Rightarrow>
          if tr_missing t \<noteq> 0 then (refuse ''chunks missing'', Some t)
          else if crc32 (tr_image t) \<noteq> tr_crc t then (refuse ''CRC-32 mismatch'', None)
          else (Complete (tr_image t), None))"

definition update_handle :: "byte list \<Rightarrow> update_receiver \<Rightarrow> response \<times> update_receiver" where
  "update_handle datagram r =
     (if datagram \<noteq> [] \<and> hd datagram = 66 then handle_begin datagram r
      else if datagram \<noteq> [] \<and> hd datagram = 68 then handle_data datagram r
      else if datagram \<noteq> [] \<and> hd datagram = 69 then handle_end r
      else (refuse ''unknown'', r))"

subsection \<open>The sender's datagrams\<close>

definition begin_datagram :: "byte list \<Rightarrow> byte list" where
  "begin_datagram img = 66 # to_le 4 (of_nat (length img) :: u32) @ to_le 4 (crc32 img)"

definition chunk_count :: "nat \<Rightarrow> nat" where
  "chunk_count sz = (sz + (CHUNK - 1)) div CHUNK"

definition chunk_datagram :: "byte list \<Rightarrow> nat \<Rightarrow> byte list" where
  "chunk_datagram img i = 68 # to_le 4 (of_nat (i * CHUNK) :: u32) @ take CHUNK (drop (i * CHUNK) img)"

fun run_update :: "byte list list \<Rightarrow> update_receiver \<Rightarrow> update_receiver" where
  "run_update [] r = r"
| "run_update (d # ds) r = run_update ds (snd (update_handle d r))"

subsection \<open>Lemmas\<close>

lemma chunk_bound: "i < chunk_count sz \<longleftrightarrow> i * CHUNK < sz"
proof -
  have C: "0 < CHUNK" by (simp add: CHUNK_def)
  have "chunk_count sz \<le> i \<longleftrightarrow> sz \<le> i * CHUNK"
  proof
    assume "chunk_count sz \<le> i"
    then have "chunk_count sz * CHUNK \<le> i * CHUNK" by (rule mult_le_mono1)
    with div_round_up_le [OF C, of sz] show "sz \<le> i * CHUNK"
      unfolding chunk_count_def by (rule le_trans)
  next
    assume "sz \<le> i * CHUNK"
    then show "chunk_count sz \<le> i" unfolding chunk_count_def by (rule div_round_up_least [OF C])
  qed
  then show ?thesis by (simp only: not_le [symmetric])
qed

lemma chunk_of_byte: "k < sz \<Longrightarrow> k div CHUNK < chunk_count sz"
  unfolding chunk_bound using div_times_less_eq_dividend [of k CHUNK] by (rule order_le_less_trans)

definition progress :: "byte list \<Rightarrow> transfer \<Rightarrow> bool" where
  \<comment> \<open>\<open>t\<close> is receiving \<open>img\<close>, and what has arrived is right\<close>
  "progress img t \<longleftrightarrow> tr_crc t = crc32 img \<and> length (tr_image t) = length img
     \<and> length (tr_arrived t) = chunk_count (length img)
     \<and> tr_missing t = length (filter Not (tr_arrived t))
     \<and> (\<forall>k < length img. tr_arrived t ! (k div CHUNK) \<longrightarrow> tr_image t ! k = img ! k)"

lemma missing_zero: "progress img t \<Longrightarrow> tr_missing t = 0 \<Longrightarrow> tr_image t = img"
proof (rule nth_equalityI)
  assume p: "progress img t" "tr_missing t = 0"
  then show "length (tr_image t) = length img" by (simp add: progress_def)
  fix k assume "k < length (tr_image t)"
  with p have k: "k < length img" by (simp add: progress_def)
  then have "k div CHUNK < chunk_count (length img)" by (rule chunk_of_byte)
  then have "tr_arrived t ! (k div CHUNK)"
    using p by (auto simp: progress_def filter_empty_conv)
  with p k show "tr_image t ! k = img ! k" by (simp add: progress_def)
qed

lemma filter_not_update:
  "i < length bs \<Longrightarrow> \<not> bs ! i \<Longrightarrow> Suc (length (filter Not (bs[i := True]))) = length (filter Not bs)"
  by (induction bs arbitrary: i) (auto simp: nth_Cons split: nat.splits)

lemma word_at_to_le:
  "length p = at \<Longrightarrow> word_at (p @ to_le 4 w @ rest) at = Some w"
  by (simp add: word_at_def get_range_def slice_def from_le_to_le)

lemma word_at_begin:
  "word_at (begin_datagram img) 1 = Some (of_nat (length img))" "word_at (begin_datagram img) 5 = Some (crc32 img)"
  using word_at_to_le [of "[66]" 1 "of_nat (length img)" "to_le 4 (crc32 img)"]
    word_at_to_le [of "66 # to_le 4 (of_nat (length img) :: u32)" 5 "crc32 img" "[]"]
  by (simp_all add: begin_datagram_def)

lemma begin_progress:
  assumes "0 < length img" and "length img \<le> MAX_IMAGE"
  shows "\<exists>t. update_handle (begin_datagram img) r = (Reply [75], Some t) \<and> progress img t"
proof -
  let ?t = "\<lparr>tr_crc = crc32 img, tr_image = replicate (length img) 0,
    tr_arrived = replicate (chunk_count (length img)) False, tr_missing = chunk_count (length img)\<rparr>"
  have "unat (of_nat (length img) :: u32) = length img" using assms(2) by (simp add: unat_of_nat MAX_IMAGE_def)
  then have "handle_begin (begin_datagram img) r = (Reply [75], Some ?t)"
    using assms unfolding handle_begin_def word_at_begin chunk_count_def by (simp add: Let_def)
  moreover have "begin_datagram img \<noteq> []" "hd (begin_datagram img) = 66" by (simp_all add: begin_datagram_def)
  moreover have "progress img ?t" using chunk_of_byte by (simp add: progress_def)
  ultimately show ?thesis by (simp add: update_handle_def)
qed

lemma chunk_progress:
  assumes img: "length img \<le> MAX_IMAGE" and p: "progress img t" and i: "i < chunk_count (length img)"
  shows "\<exists>t'. update_handle (chunk_datagram img i) (Some t) = (Reply (65 # to_le 4 (of_nat (i * CHUNK) :: u32)), Some t')
    \<and> progress img t' \<and> tr_arrived t' = (tr_arrived t)[i := True]"
proof -
  let ?d = "chunk_datagram img i" and ?o = "i * CHUNK"
  let ?bytes = "take CHUNK (drop ?o img)"
  have o: "?o < length img" using i by (simp add: chunk_bound)
  then have off: "unat (of_nat ?o :: u32) = ?o" using img by (simp add: unat_of_nat MAX_IMAGE_def del: of_nat_mult)
  have d: "word_at ?d 1 = Some (of_nat ?o)" "drop 5 ?d = ?bytes" "?d \<noteq> []" "hd ?d = 68"
    using word_at_to_le [of "[68]" 1 "of_nat ?o" ?bytes] by (simp_all add: chunk_datagram_def)
  have len: "length (tr_image t) = length img" "length (tr_arrived t) = chunk_count (length img)"
    "tr_missing t = length (filter Not (tr_arrived t))"
    "\<And>k. k < length img \<Longrightarrow> tr_arrived t ! (k div CHUNK) \<Longrightarrow> tr_image t ! k = img ! k"
    using p by (auto simp: progress_def)
  have ok: "\<not> (?o mod CHUNK \<noteq> 0 \<or> ?o \<ge> length (tr_image t) \<or> length ?bytes \<noteq> min (length (tr_image t) - ?o) CHUNK)"
    using o by (simp add: len(1) min.commute)
  let ?t = "if tr_arrived t ! i then t
    else t\<lparr>tr_image := overwrite ?o ?bytes (tr_image t), tr_arrived := (tr_arrived t)[i := True], tr_missing := tr_missing t - 1\<rparr>"
  have "?o div CHUNK = i" by (simp add: CHUNK_def)
  then have h: "update_handle ?d (Some t) = (Reply (65 # to_le 4 (of_nat ?o :: u32)), Some ?t)"
    using ok d(3,4) unfolding update_handle_def handle_data_def d(1,2) by (simp add: off Let_def del: of_nat_mult)
  show ?thesis
  proof (cases "tr_arrived t ! i")
    case True
    then have "(tr_arrived t)[i := True] = tr_arrived t" by (metis list_update_id)
    with h p True show ?thesis by simp
  next
    case False
    let ?t' = "t\<lparr>tr_image := overwrite ?o ?bytes (tr_image t), tr_arrived := (tr_arrived t)[i := True], tr_missing := tr_missing t - 1\<rparr>"
    have fits: "?o + length ?bytes \<le> length (tr_image t)" using o by (simp add: len(1))
    have "tr_missing t - 1 = length (filter Not ((tr_arrived t)[i := True]))"
      using filter_not_update [of i "tr_arrived t"] i False by (simp add: len(2,3))
    moreover have "overwrite ?o ?bytes (tr_image t) ! k = img ! k"
      if k: "k < length img" and arr: "(tr_arrived t)[i := True] ! (k div CHUNK)" for k
    proof (cases "k div CHUNK = i")
      case True
      then have "?o \<le> k" "k < ?o + CHUNK"
        using div_mult_mod_eq [of k CHUNK] mod_less_divisor [of CHUNK k] by (auto simp: CHUNK_def)
      with k have "?o \<le> k \<and> k < ?o + length ?bytes" "?bytes ! (k - ?o) = img ! k" by simp_all
      then show ?thesis using nth_overwrite [OF fits] k by (simp add: len(1))
    next
      case False
      then have "\<not> (?o \<le> k \<and> k < ?o + length ?bytes)"
        using div_nat_eqI [of i CHUNK k] by (auto simp: CHUNK_def)
      moreover have "tr_image t ! k = img ! k" using len(4) [OF k] arr False by simp
      moreover have "k < length (tr_image t)" using k by (simp add: len(1))
      ultimately show ?thesis unfolding nth_overwrite [OF fits \<open>k < length (tr_image t)\<close>] by (simp only: if_False)
    qed
    ultimately have "progress img ?t'"
      using p length_overwrite [OF fits] by (simp add: progress_def)
    with h False show ?thesis by simp
  qed
qed

lemma noise_ignored: "d = [] \<or> hd d \<notin> {66, 68, 69} \<Longrightarrow> snd (update_handle d r) = r"
  by (auto simp: update_handle_def)

lemma run_progress:
  assumes "length img \<le> MAX_IMAGE" and "progress img t"
    and "\<forall>d \<in> set ds. (\<exists>i < chunk_count (length img). d = chunk_datagram img i) \<or> d = [] \<or> hd d \<notin> {66, 68, 69}"
  shows "\<exists>t'. run_update ds (Some t) = Some t' \<and> progress img t'
    \<and> (\<forall>i < chunk_count (length img). tr_arrived t ! i \<or> chunk_datagram img i \<in> set ds \<longrightarrow> tr_arrived t' ! i)"
  using assms(2,3)
proof (induction ds arbitrary: t)
  case (Cons d ds)
  have rest: "\<forall>d \<in> set ds. (\<exists>i < chunk_count (length img). d = chunk_datagram img i) \<or> d = [] \<or> hd d \<notin> {66, 68, 69}"
    using Cons.prems(2) by simp
  show ?case
  proof (cases "\<exists>i < chunk_count (length img). d = chunk_datagram img i")
    case True
    then obtain i where i: "i < chunk_count (length img)" "d = chunk_datagram img i" by blast
    from chunk_progress [OF assms(1) Cons.prems(1) i(1)] obtain t1 where
      t1: "snd (update_handle d (Some t)) = Some t1" "progress img t1" "tr_arrived t1 = (tr_arrived t)[i := True]"
      by (auto simp: i(2))
    obtain t' where t': "run_update ds (Some t1) = Some t'" "progress img t'"
      "\<And>j. j < chunk_count (length img) \<Longrightarrow> tr_arrived t1 ! j \<or> chunk_datagram img j \<in> set ds \<Longrightarrow> tr_arrived t' ! j"
      using Cons.IH [OF t1(2) rest] by blast
    have len: "length (tr_arrived t) = chunk_count (length img)" using Cons.prems(1) by (simp add: progress_def)
    have same: "chunk_datagram img j = chunk_datagram img i \<Longrightarrow> j = i" if "j < chunk_count (length img)" for j
    proof -
      assume "chunk_datagram img j = chunk_datagram img i"
      then have "(from_le (to_le 4 (of_nat (j * CHUNK) :: u32)) :: u32) = from_le (to_le 4 (of_nat (i * CHUNK) :: u32))"
        by (simp add: chunk_datagram_def)
      then have "(of_nat (j * CHUNK) :: u32) = of_nat (i * CHUNK)" by (simp add: from_le_to_le)
      then have "unat (of_nat (j * CHUNK) :: u32) = unat (of_nat (i * CHUNK) :: u32)" by simp
      moreover have "j * CHUNK < 2 ^ 32" "i * CHUNK < 2 ^ 32"
        using that i(1) assms(1) unfolding chunk_bound by (simp_all add: MAX_IMAGE_def)
      ultimately show "j = i" by (simp add: unat_of_nat CHUNK_def del: of_nat_mult)
    qed
    have "tr_arrived t' ! j" if "j < chunk_count (length img)" "tr_arrived t ! j \<or> chunk_datagram img j \<in> set (d # ds)" for j
    proof (rule t'(3) [OF that(1)])
      show "tr_arrived t1 ! j \<or> chunk_datagram img j \<in> set ds"
        using that same [OF that(1)] i len unfolding t1(3) by (cases "j = i") auto
    qed
    with t' t1(1) show ?thesis by auto
  next
    case False
    then have noise: "snd (update_handle d (Some t)) = Some t" using Cons.prems(2) by (intro noise_ignored) auto
    have "chunk_datagram img j \<noteq> d" if "j < chunk_count (length img)" for j using False that by blast
    with Cons.IH [OF Cons.prems(1) rest] noise show ?thesis by (auto dest!: sym [of d])
  qed
qed auto

lemma complete_only_matching:
  "update_handle d r = (Complete img, r') \<Longrightarrow>
   \<exists>t. r = Some t \<and> r' = None \<and> tr_image t = img \<and> tr_missing t = 0 \<and> tr_crc t = crc32 img"
  by (auto simp: update_handle_def handle_begin_def handle_data_def handle_end_def refuse_def Let_def
      split: if_splits option.splits)

subsection \<open>Properties\<close>

text \<open>C24: an update whose chunks all arrive at least once, in any order, repeated, and with
  unrelated datagrams in between, is delivered exactly, whatever the receiver was doing before.\<close>
theorem update_delivers_image:
  assumes "0 < length img" and "length img \<le> MAX_IMAGE"
    and "\<forall>d \<in> set ds. (\<exists>i < chunk_count (length img). d = chunk_datagram img i) \<or> d = [] \<or> hd d \<notin> {66, 68, 69}"
    and "\<forall>i < chunk_count (length img). chunk_datagram img i \<in> set ds"
  shows "update_handle [69] (run_update (begin_datagram img # ds) r) = (Complete img, None)"
proof -
  obtain t where t: "update_handle (begin_datagram img) r = (Reply [75], Some t)" "progress img t"
    using begin_progress [OF assms(1,2)] by blast
  obtain t' where t': "run_update ds (Some t) = Some t'" "progress img t'"
    "\<And>i. i < chunk_count (length img) \<Longrightarrow> tr_arrived t' ! i"
    using run_progress [OF assms(2) t(2) assms(3)] assms(4) by blast
  have "filter Not (tr_arrived t') = []"
    using t'(2,3) by (auto simp: progress_def filter_empty_conv in_set_conv_nth)
  then have m: "tr_missing t' = 0" using t'(2) by (simp add: progress_def)
  have "tr_image t' = img" using missing_zero [OF t'(2) m] .
  moreover have "crc32 img = tr_crc t'" using t'(2) by (simp add: progress_def)
  ultimately have "update_handle [69] (Some t') = (Complete img, None)"
    using m by (simp add: update_handle_def handle_end_def)
  then show ?thesis by (simp add: t(1) t'(1))
qed

theorem update_delivers_image_witness:
  "update_handle [69] (run_update [begin_datagram [1, 2, 3], [0], chunk_datagram [1, 2, 3] 0, chunk_datagram [1, 2, 3] 0] None)
   = (Complete [1, 2, 3], None)"
  using update_delivers_image [of "[1, 2, 3]" "[[0], chunk_datagram [1, 2, 3] 0, chunk_datagram [1, 2, 3] 0]" None]
  by (simp add: chunk_count_def CHUNK_def MAX_IMAGE_def)

end
