(* ===== verification/Net.thy ===== *)
theory Net
  imports Text "HOL-Library.Monad_Syntax"
begin

text \<open>
  The vocabulary of the network stack, \<open>rustypi-core/src/net/mod.rs\<close>: addresses, reading fields
  out of a received frame and the Internet checksum (RFC 1071).

  Reading out of range panics in the source; here it is \<open>None\<close> in the option monad, so that a
  parser has type \<open>'a option option\<close>: the outer \<open>None\<close> is a panic, the inner one "not such a
  packet". The checksum accumulator is a 32-bit word as in the code.
\<close>

datatype mac = Mac byte byte byte byte byte byte

fun mac_bytes :: "mac \<Rightarrow> byte list" where
  "mac_bytes (Mac a b c d e f) = [a, b, c, d, e, f]"

definition MAC_BROADCAST :: mac where
  "MAC_BROADCAST = Mac 0xFF 0xFF 0xFF 0xFF 0xFF 0xFF"

definition MAC_DEFAULT :: mac where
  "MAC_DEFAULT = Mac 0 0 0 0 0 0"

definition hex_digit :: "nat \<Rightarrow> byte" where
  "hex_digit n = (if n < 10 then of_nat (48 + n) else of_nat (87 + n))"

definition hex2 :: "byte \<Rightarrow> rstr" where
  \<comment> \<open>\<open>{:02x}\<close>\<close>
  "hex2 b = [hex_digit (unat b div 16), hex_digit (unat b mod 16)]"

fun mac_display :: "mac \<Rightarrow> rstr" where
  "mac_display (Mac a b c d e g) =
     hex2 a @ [58] @ hex2 b @ [58] @ hex2 c @ [58] @ hex2 d @ [58] @ hex2 e @ [58] @ hex2 g"

datatype ipv4 = Ipv4 byte byte byte byte

fun ip_bytes :: "ipv4 \<Rightarrow> byte list" where
  "ip_bytes (Ipv4 a b c d) = [a, b, c, d]"

definition UNSPECIFIED :: ipv4 where "UNSPECIFIED = Ipv4 0 0 0 0"
definition BROADCAST :: ipv4 where "BROADCAST = Ipv4 255 255 255 255"

subsection \<open>Dotted decimal\<close>

definition parse_octet :: "rstr \<Rightarrow> byte option" where
  "parse_octet part =
     (if part = [] \<or> length part > 3 \<or> \<not> (\<forall>b \<in> set part. 48 \<le> b \<and> b \<le> 57) then None
      else map_option of_nat (parse_unsigned 256 part))"

definition ip_parse :: "rstr \<Rightarrow> ipv4 option" where
  "ip_parse text =
     (case split_on 46 text of
        [p, q, r, s] \<Rightarrow>
          do { a \<leftarrow> parse_octet p; b \<leftarrow> parse_octet q; c \<leftarrow> parse_octet r; d \<leftarrow> parse_octet s; Some (Ipv4 a b c d) }
      | _ \<Rightarrow> None)"

fun ip_display :: "ipv4 \<Rightarrow> rstr" where
  "ip_display (Ipv4 a b c d) =
     dec (unat a) @ [46] @ dec (unat b) @ [46] @ dec (unat c) @ [46] @ dec (unat d)"

definition ip_bits :: "ipv4 \<Rightarrow> u32" where
  "ip_bits a = from_be (ip_bytes a)"

definition same_network :: "ipv4 \<Rightarrow> ipv4 \<Rightarrow> ipv4 \<Rightarrow> bool" where
  "same_network a b netmask \<longleftrightarrow> ip_bits a AND ip_bits netmask = ip_bits b AND ip_bits netmask"

subsection \<open>The Internet checksum\<close>

fun net_sum :: "u32 \<Rightarrow> byte list \<Rightarrow> u32" where
  "net_sum acc (a # b # rest) = net_sum (acc + ucast (from_be [a, b] :: u16)) rest"
| "net_sum acc [a] = acc + push_bit 8 (ucast a)"
| "net_sum acc [] = acc"

lemma fold_carry_less:
  fixes acc :: u32
  assumes "drop_bit 16 acc \<noteq> 0"
  shows "unat ((acc AND 0xFFFF) + drop_bit 16 acc) = unat acc mod 65536 + unat acc div 65536"
    and "unat acc mod 65536 + unat acc div 65536 < unat acc"
proof -
  have m: "unat (acc AND 0xFFFF) = unat acc mod 65536"
  proof -
    have "acc AND 0xFFFF = take_bit 16 acc" by (simp add: take_bit_eq_mask mask_eq_exp_minus_1)
    then show ?thesis by (simp add: unsigned_take_bit_eq take_bit_nat_def)
  qed
  have d: "unat (drop_bit 16 acc) = unat acc div 65536"
    by (simp add: drop_bit_eq_div unat_div)
  have "unat acc div 65536 < 65536" using unat_u32_less [of acc] by (simp add: less_mult_imp_div_less)
  moreover have "unat acc mod 65536 < 65536" by simp
  ultimately show "unat ((acc AND 0xFFFF) + drop_bit 16 acc) = unat acc mod 65536 + unat acc div 65536"
    by (subst unat_add_lem [THEN iffD1]) (simp_all add: m d)
  have "unat acc div 65536 \<noteq> 0" using assms by (metis d unat_eq_0)
  then show "unat acc mod 65536 + unat acc div 65536 < unat acc"
    using div_mult_mod_eq [of "unat acc" 65536] by linarith
qed

function finish :: "u32 \<Rightarrow> u16" where
  "finish acc = (if drop_bit 16 acc \<noteq> 0 then finish ((acc AND 0xFFFF) + drop_bit 16 acc) else NOT (ucast acc))"
  by auto
termination
  by (relation "measure unat") (auto simp: fold_carry_less)

declare finish.simps [simp del]

definition inet_checksum :: "byte list \<Rightarrow> u16" where
  "inet_checksum data = finish (net_sum 0 data)"

subsection \<open>Reading fields\<close>

definition u16_at :: "byte list \<Rightarrow> nat \<Rightarrow> u16 option" where
  "u16_at bytes at = do { a \<leftarrow> get_at bytes at; b \<leftarrow> get_at bytes (at + 1); Some (from_be [a, b]) }"

definition ipv4_at :: "byte list \<Rightarrow> nat \<Rightarrow> ipv4 option" where
  "ipv4_at bytes at =
     do { a \<leftarrow> get_at bytes at; b \<leftarrow> get_at bytes (at + 1); c \<leftarrow> get_at bytes (at + 2); d \<leftarrow> get_at bytes (at + 3);
          Some (Ipv4 a b c d) }"

definition mac_of :: "byte list \<Rightarrow> mac" where
  "mac_of bs = Mac (bs ! 0) (bs ! 1) (bs ! 2) (bs ! 3) (bs ! 4) (bs ! 5)"

definition mac_at :: "byte list \<Rightarrow> nat \<Rightarrow> mac option" where
  "mac_at bytes at = map_option mac_of (get_range bytes at (at + 6))"


subsection \<open>Lemmas\<close>

named_theorems net_simps \<open>reading fields of frames built from known bytes\<close>

lemma get_at_Cons [net_simps]: "get_at (x # xs) n = (if n = 0 then Some x else get_at xs (n - 1))"
  by (auto simp: get_at_def nth_Cons split: nat.splits)

lemma get_at_append [net_simps]:
  "get_at (xs @ ys) n = (if n < length xs then Some (xs ! n) else get_at ys (n - length xs))"
  by (auto simp: get_at_def nth_append)

lemma get_at_in: "n < length xs \<Longrightarrow> get_at xs n = Some (xs ! n)"
  by (simp add: get_at_def)

lemma u16_at_in: "at + 1 < length bs \<Longrightarrow> u16_at bs at = Some (from_be [bs ! at, bs ! (at + 1)])"
  by (simp add: u16_at_def get_at_def)

lemma ipv4_at_in:
  "at + 3 < length bs \<Longrightarrow> ipv4_at bs at = Some (Ipv4 (bs ! at) (bs ! (at + 1)) (bs ! (at + 2)) (bs ! (at + 3)))"
  by (simp add: ipv4_at_def get_at_def)

lemma mac_at_in: "at + 6 \<le> length bs \<Longrightarrow> mac_at bs at = Some (mac_of (slice at (at + 6) bs))"
  by (simp add: mac_at_def get_range_def)

lemmas read_in_range = get_at_in u16_at_in ipv4_at_in mac_at_in

lemma to_be_2: "to_be 2 (w :: u16) = [ucast (drop_bit 8 w), ucast w]"
  by (simp add: to_be_def numeral_2_eq_2)

lemma from_be_hi_lo [net_simps, simp]: "from_be [ucast (drop_bit 8 w), ucast w] = (w :: u16)"
  using from_be_to_be [of 2 w] by (simp add: to_be_2)

lemma length_mac_bytes [simp]: "length (mac_bytes m) = 6" by (cases m) simp

lemma length_ip_bytes [simp]: "length (ip_bytes a) = 4" by (cases a) simp

lemma mac_of_bytes [simp]: "mac_of (mac_bytes m) = m"
  by (cases m) (simp add: mac_of_def)

lemma unat_shift_byte:
  assumes "16 \<le> LENGTH('a)"
  shows "unat (push_bit 8 (ucast (a :: u8)) :: 'a::len word) = 256 * unat a"
proof -
  have "unat (ucast a :: 'a word) = unat a" using assms by (simp add: unat_ucast_up)
  moreover have "256 * unat a < 2 ^ LENGTH('a)"
  proof -
    have "256 * unat a < 2 ^ 16" using unat_u8_less [of a] by simp
    also have "(2 :: nat) ^ 16 \<le> 2 ^ LENGTH('a)" using assms by (intro power_increasing) auto
    finally show ?thesis .
  qed
  ultimately show ?thesis
    by (simp only: unsigned_push_bit_eq) (simp add: push_bit_eq_mult take_bit_nat_def mult.commute)
qed

lemma unat_from_be_2: "unat (from_be [a, b] :: u16) = 256 * unat a + unat b"
proof -
  have "(from_be [a, b] :: u16) = push_bit 8 (ucast a) + ucast b"
    by (subst disjunctive_add)
       (auto simp: from_be_def bit_push_bit_iff bit_ucast_iff or.commute dest: bit_imp_le_length)
  moreover have "256 * unat a + unat b < 65536"
    using unat_u8_less [of a] unat_u8_less [of b] by linarith
  ultimately show ?thesis
    by (simp add: unat_word_ariths(1) unat_shift_byte unat_ucast_up)
qed

subsubsection \<open>The sum and its folding\<close>

fun words_sum :: "byte list \<Rightarrow> nat" where
  \<comment> \<open>the sum of the 16-bit big endian words, a last odd byte padded with zero\<close>
  "words_sum (a # b # rest) = 256 * unat a + unat b + words_sum rest"
| "words_sum [a] = 256 * unat a"
| "words_sum [] = 0"

lemma words_sum_append: "even (length xs) \<Longrightarrow> words_sum (xs @ ys) = words_sum xs + words_sum ys"
  by (induction xs rule: words_sum.induct) auto

lemma words_sum_bound: "words_sum bs \<le> 65535 * ((length bs + 1) div 2)"
proof (induction bs rule: words_sum.induct)
  case (1 a b rest)
  have "(length (a # b # rest) + 1) div 2 = Suc ((length rest + 1) div 2)" by simp
  with 1 have "words_sum rest + 65535 \<le> 65535 * ((length (a # b # rest) + 1) div 2)" by simp
  moreover have "256 * unat a + unat b \<le> 65535"
    using unat_u8_less [of a] unat_u8_less [of b] by linarith
  ultimately show ?case by simp
next
  case (2 a)
  have "256 * unat a \<le> 65535" using unat_u8_less [of a] by linarith
  then show ?case by simp
qed simp

lemma net_sum_words:
  "unat acc + words_sum bs < 2 ^ 32 \<Longrightarrow> unat (net_sum acc bs) = unat acc + words_sum bs"
proof (induction acc bs rule: net_sum.induct)
  case (1 acc a b rest)
  have w: "unat (ucast (from_be [a, b] :: u16) :: u32) = 256 * unat a + unat b"
    by (simp add: unat_ucast_up unat_from_be_2)
  have "unat (acc + ucast (from_be [a, b] :: u16)) = unat acc + (256 * unat a + unat b)"
    using 1(2) w by (subst unat_add_lem [THEN iffD1]) simp_all
  with 1 show ?case by simp
next
  case (2 acc a)
  have "unat (push_bit 8 (ucast a) :: u32) = 256 * unat a" by (simp add: unat_shift_byte)
  then show ?case using 2 by (simp, subst unat_add_lem [THEN iffD1], simp_all)
qed simp

lemma finish_folds:
  "\<exists>f \<le> 65535. unat (finish acc) = 65535 - f \<and> f mod 65535 = unat acc mod 65535 \<and> (f = 0 \<longleftrightarrow> unat acc = 0)"
proof (induction acc rule: finish.induct)
  case (1 acc)
  show ?case
  proof (cases "drop_bit 16 acc = 0")
    case True
    have "unat (drop_bit 16 acc) = unat acc div 65536" by (simp add: drop_bit_eq_div unat_div)
    with True have "unat acc div 65536 = 0" by simp
    then have small: "unat acc < 65536" by (simp add: div_eq_0_iff)
    moreover have "unat (NOT (ucast acc :: u16)) = 65535 - unat acc"
    proof -
      have "unat (ucast acc :: u16) = unat acc" using small by (simp add: unsigned_ucast_eq take_bit_nat_eq_self)
      moreover have "NOT (ucast acc :: u16) = - 1 - ucast acc" by (simp add: not_eq_complement)
      moreover have "unat (- 1 :: u16) = 65535" by (simp add: unsigned_minus_1_eq_mask mask_eq_exp_minus_1)
      ultimately show ?thesis by (simp only: unat_sub [OF word_order.extremum])
    qed
    ultimately show ?thesis using True by (intro exI [of _ "unat acc"]) (simp add: finish.simps)
  next
    case False
    let ?n = "unat acc"
    let ?m = "?n mod 65536 + ?n div 65536"
    have "?n = 65535 * (?n div 65536) + ?m" using div_mult_mod_eq [of ?n 65536] by linarith
    then have "?m mod 65535 = ?n mod 65535" by (metis mod_mult_self4)
    moreover have "?m = 0 \<longleftrightarrow> ?n = 0" using div_mult_mod_eq [of ?n 65536] by auto
    moreover have "finish acc = finish ((acc AND 0xFFFF) + drop_bit 16 acc)"
      using False by (subst finish.simps) simp
    ultimately show ?thesis using 1 [OF False] fold_carry_less(1) [OF False] by (simp only:)
  qed
qed

lemma finish_zero: "finish acc = 0 \<longleftrightarrow> 0 < unat acc \<and> unat acc mod 65535 = 0"
proof -
  obtain f where f: "f \<le> 65535" "unat (finish acc) = 65535 - f" "f mod 65535 = unat acc mod 65535" "f = 0 \<longleftrightarrow> unat acc = 0"
    using finish_folds by blast
  have "finish acc = 0 \<longleftrightarrow> f = 65535" using f(1,2) by (metis diff_diff_cancel diff_self_eq_0 diff_zero unat_eq_0)
  also have "\<dots> \<longleftrightarrow> 0 < f \<and> f mod 65535 = 0" using f(1) by (auto simp: mod_eq_0_iff_dvd dvd_def)
  finally show ?thesis using f(3,4) by auto
qed

lemma finish_completes: "(unat acc + unat (finish acc)) mod 65535 = 0" "0 < unat acc + unat (finish acc)"
proof -
  obtain f where f: "f \<le> 65535" "unat (finish acc) = 65535 - f" "f mod 65535 = unat acc mod 65535" "f = 0 \<longleftrightarrow> unat acc = 0"
    using finish_folds by blast
  have "(unat acc + (65535 - f)) mod 65535 = (f + (65535 - f)) mod 65535"
    using f(3) by (metis mod_add_left_eq)
  then show "(unat acc + unat (finish acc)) mod 65535 = 0" using f(1,2) by simp
  show "0 < unat acc + unat (finish acc)" using f by (cases "f = 0") auto
qed

lemma checksum_zero:
  assumes "length bs < 131070"
  shows "inet_checksum bs = 0 \<longleftrightarrow> 0 < words_sum bs \<and> words_sum bs mod 65535 = 0"
proof -
  have "words_sum bs \<le> 65535 * 65535" using words_sum_bound [of bs] assms by linarith
  then have "unat (net_sum 0 bs) = words_sum bs" by (subst net_sum_words) simp_all
  then show ?thesis by (simp add: inet_checksum_def finish_zero)
qed

lemma checksum_inserted:
  assumes "even (length p)" and "length p + 2 + length r < 131070"
  shows "inet_checksum (p @ to_be 2 (inet_checksum (p @ [0, 0] @ r)) @ r) = 0"
proof -
  let ?z = "p @ [0, 0] @ r" and ?c = "inet_checksum (p @ [0, 0] @ r)"
  have "words_sum ?z \<le> 65535 * 65535" using words_sum_bound [of ?z] assms by simp
  then have s: "unat (net_sum 0 ?z) = words_sum ?z" by (subst net_sum_words) simp_all
  have "words_sum (to_be 2 ?c) = unat ?c"
    using unat_from_be_2 [of "ucast (drop_bit 8 ?c)" "ucast ?c"] by (simp add: to_be_2)
  then have "words_sum (p @ to_be 2 ?c @ r) = words_sum ?z + unat ?c"
    using assms(1) by (simp add: words_sum_append)
  moreover have "0 < words_sum ?z + unat ?c" "(words_sum ?z + unat ?c) mod 65535 = 0"
    using finish_completes [of "net_sum 0 ?z"] unfolding s inet_checksum_def by simp_all
  ultimately show ?thesis using assms(2) by (subst checksum_zero) simp_all
qed

definition byte_weight :: "nat \<Rightarrow> nat" where
  "byte_weight i = (if even i then 256 else 1)"

lemma words_sum_update:
  "i < length bs \<Longrightarrow>
   words_sum (bs[i := x]) + byte_weight i * unat (bs ! i) = words_sum bs + byte_weight i * unat x"
proof (induction bs arbitrary: i rule: words_sum.induct)
  case (1 a b rest)
  show ?case
  proof (cases i)
    case 0
    then show ?thesis by (simp add: byte_weight_def)
  next
    case (Suc k)
    show ?thesis
    proof (cases k)
      case 0
      with Suc show ?thesis by (simp add: byte_weight_def)
    next
      case (Suc j)
      have "byte_weight i = byte_weight j" using Suc \<open>i = Suc k\<close> by (simp add: byte_weight_def)
      then show ?thesis using 1(1) [of j] 1(2) Suc \<open>i = Suc k\<close> by simp
    qed
  qed
qed (auto simp: byte_weight_def)

lemma checksum_damage:
  assumes "inet_checksum bs = 0" and "length bs < 131070" and "i < length bs" and "x \<noteq> bs ! i"
  shows "inet_checksum (bs[i := x]) \<noteq> 0"
proof
  let ?w = "byte_weight i"
  assume "inet_checksum (bs[i := x]) = 0"
  then have "words_sum bs mod 65535 = 0" "words_sum (bs[i := x]) mod 65535 = 0"
    using assms(1,2) by (simp_all add: checksum_zero)
  then have "(?w * unat (bs ! i)) mod 65535 = (?w * unat x) mod 65535"
    using words_sum_update [OF assms(3), of x] by (metis add_0 mod_add_left_eq)
  moreover have "?w * unat y < 65535" for y :: byte
  proof -
    have "256 * unat y < 65535" "unat y < 65535" using unat_u8_less [of y] by linarith+
    then show ?thesis by (simp add: byte_weight_def)
  qed
  ultimately have "?w * unat (bs ! i) = ?w * unat x" by (simp only: mod_less)
  then have "unat (bs ! i) = unat x" by (simp add: byte_weight_def split: if_splits)
  with assms(4) show False by (metis unsigned_word_eqI)
qed

lemma dec_short: "n < 256 \<Longrightarrow> length (dec n) \<le> 3"
  by (simp add: dec.simps)

lemma parse_octet_dec: "parse_octet (dec (unat a)) = Some a"
proof -
  have "parse_unsigned 256 (dec (unat a)) = Some (unat a)" by (rule parse_unsigned_dec) simp
  moreover have "\<forall>b \<in> set (dec (unat a)). 48 \<le> b \<and> b \<le> 57" using dec_digits by blast
  ultimately show ?thesis using dec_short [OF unat_u8_less, of a] by (simp add: parse_octet_def)
qed

subsection \<open>Properties\<close>

text \<open>An IPv4 address printed in dotted decimal parses back to itself.\<close>
lemma ip_parse_display: "ip_parse (ip_display a) = Some a"
proof (cases a)
  case (Ipv4 w x y z)
  have "46 \<notin> set (dec n)" for n using dec_digits [of 46 n] by auto
  then have "split_on 46 (ip_display a) = [dec (unat w), dec (unat x), dec (unat y), dec (unat z)]"
    by (simp add: Ipv4 split_on_append split_on_last)
  then show ?thesis by (simp add: ip_parse_def parse_octet_dec Ipv4)
qed

text \<open>the Internet checksum does its job for data of any size a packet can have: put into a
  zeroed field at an even offset it makes the checksum of the whole 0, and once that is so changing
  any single byte makes it different from 0.\<close>
theorem checksum_protects:
  assumes "even (length p)" and "length p + 2 + length r < 131070"
  defines "data \<equiv> p @ to_be 2 (inet_checksum (p @ [0, 0] @ r)) @ r"
  shows "inet_checksum data = 0
    \<and> (\<forall>i x. i < length data \<longrightarrow> x \<noteq> data ! i \<longrightarrow> inet_checksum (data[i := x]) \<noteq> 0)"
  unfolding data_def using assms checksum_inserted checksum_damage by simp

theorem checksum_protects_witness:
  "inet_checksum ([0x45, 0] @ to_be 2 (inet_checksum ([0x45, 0] @ [0, 0] @ [7])) @ [7]) = 0"
  using checksum_protects [of "[0x45, 0]" "[7]"] by simp

end
