(* ===== verification/Net_Proto.thy ===== *)
theory Net_Proto
  imports Net
begin

text \<open>
  The packet formats of the network stack, one parser and one builder each: Ethernet II
  (\<open>net/ethernet.rs\<close>), ARP (\<open>net/arp.rs\<close>), IPv4 (\<open>net/ipv4.rs\<close>), ICMP echo (\<open>net/icmp.rs\<close>) and
  UDP (\<open>net/udp.rs\<close>). The outer \<open>None\<close> of a parser is a panic, the inner one a refusal.

  The locale \<open>wire_format\<close> is what a protocol inside Ethernet has to promise: its parser never
  panics, and reads what its builder wrote even with the padding short frames get. ARP and IPv4 keep
  that promise.
\<close>

subsection \<open>Ethernet\<close>

definition ETH_ARP :: u16 where "ETH_ARP = 0x0806"
definition ETH_IPV4 :: u16 where "ETH_IPV4 = 0x0800"
definition ETH_HEADER :: nat where "ETH_HEADER = 14"
definition MIN_FRAME :: nat where "MIN_FRAME = 60"

record eth_frame =
  ef_dst :: mac
  ef_src :: mac
  ef_type :: u16
  ef_payload :: "byte list"

definition ethernet_parse :: "byte list \<Rightarrow> eth_frame option option" where
  "ethernet_parse bytes =
     (if length bytes < ETH_HEADER then Some None
      else do { dst \<leftarrow> mac_at bytes 0; src \<leftarrow> mac_at bytes 6; ethertype \<leftarrow> u16_at bytes 12;
                Some (Some \<lparr>ef_dst = dst, ef_src = src, ef_type = ethertype, ef_payload = drop ETH_HEADER bytes\<rparr>) })"

definition ethernet_build :: "mac \<Rightarrow> mac \<Rightarrow> u16 \<Rightarrow> byte list \<Rightarrow> byte list" where
  "ethernet_build dst src ethertype payload =
     (let frame = mac_bytes dst @ mac_bytes src @ to_be 2 ethertype @ payload
      in resize (max (length frame) MIN_FRAME) 0 frame)"

subsection \<open>ARP\<close>

definition ARP_REQUEST :: u16 where "ARP_REQUEST = 1"
definition ARP_REPLY :: u16 where "ARP_REPLY = 2"
definition ARP_LENGTH :: nat where "ARP_LENGTH = 28"

record arp =
  arp_op :: u16
  arp_sender_mac :: mac
  arp_sender_ip :: ipv4
  arp_target_mac :: mac
  arp_target_ip :: ipv4

definition arp_parse :: "byte list \<Rightarrow> arp option option" where
  "arp_parse bytes =
     (if length bytes < ARP_LENGTH then Some None
      else do {
        hw \<leftarrow> u16_at bytes 0; proto \<leftarrow> u16_at bytes 2; hlen \<leftarrow> get_at bytes 4; plen \<leftarrow> get_at bytes 5;
        if hw \<noteq> 1 \<or> proto \<noteq> 0x0800 \<or> hlen \<noteq> 6 \<or> plen \<noteq> 4 then Some None
        else do {
          op \<leftarrow> u16_at bytes 6; smac \<leftarrow> mac_at bytes 8; sip \<leftarrow> ipv4_at bytes 14;
          tmac \<leftarrow> mac_at bytes 18; tip \<leftarrow> ipv4_at bytes 24;
          Some (Some \<lparr>arp_op = op, arp_sender_mac = smac, arp_sender_ip = sip, arp_target_mac = tmac, arp_target_ip = tip\<rparr>) } })"

definition arp_to_bytes :: "arp \<Rightarrow> byte list" where
  "arp_to_bytes a =
     [0, 1, 0x08, 0x00, 6, 4] @ to_be 2 (arp_op a) @ mac_bytes (arp_sender_mac a) @ ip_bytes (arp_sender_ip a)
     @ mac_bytes (arp_target_mac a) @ ip_bytes (arp_target_ip a)"

subsection \<open>IPv4\<close>

definition IP_ICMP :: u8 where "IP_ICMP = 1"
definition IP_UDP :: u8 where "IP_UDP = 17"
definition IP_HEADER :: nat where "IP_HEADER = 20"
definition TTL :: u8 where "TTL = 64"
definition DONT_FRAGMENT :: u16 where "DONT_FRAGMENT = 0x4000"
definition FRAGMENTED :: u16 where "FRAGMENTED = 0x3FFF"

record ip_packet =
  ip_src :: ipv4
  ip_dst :: ipv4
  ip_protocol :: u8
  ip_payload :: "byte list"

definition ipv4_parse :: "byte list \<Rightarrow> ip_packet option option" where
  "ipv4_parse bytes =
     (if length bytes < IP_HEADER then Some None
      else do {
        b0 \<leftarrow> get_at bytes 0;
        if drop_bit 4 b0 \<noteq> 4 then Some None
        else do {
          len \<leftarrow> u16_at bytes 2;
          let header = unat (b0 AND 0x0F) * 4; let tot = unat len;
          if header < IP_HEADER \<or> tot < header \<or> tot > length bytes then Some None
          else do {
            head \<leftarrow> get_range bytes 0 header;
            if inet_checksum head \<noteq> 0 then Some None
            else do {
              frag \<leftarrow> u16_at bytes 6;
              if frag AND FRAGMENTED \<noteq> 0 then Some None
              else do {
                src \<leftarrow> ipv4_at bytes 12; dst \<leftarrow> ipv4_at bytes 16; protocol \<leftarrow> get_at bytes 9;
                payload \<leftarrow> get_range bytes header tot;
                Some (Some \<lparr>ip_src = src, ip_dst = dst, ip_protocol = protocol, ip_payload = payload\<rparr>) } } } } })"

definition ipv4_build :: "ipv4 \<Rightarrow> ipv4 \<Rightarrow> u8 \<Rightarrow> u16 \<Rightarrow> byte list \<Rightarrow> byte list" where
  "ipv4_build src dst protocol ident payload =
     (let tot = IP_HEADER + length payload;
          packet = [0x45, 0] @ to_be 2 (of_nat tot :: u16) @ to_be 2 ident @ to_be 2 DONT_FRAGMENT
                   @ [TTL, protocol, 0, 0] @ ip_bytes src @ ip_bytes dst
      in overwrite 10 (to_be 2 (inet_checksum packet)) packet @ payload)"

subsection \<open>ICMP echo\<close>

definition ECHO_REPLY :: u8 where "ECHO_REPLY = 0"
definition ECHO_REQUEST :: u8 where "ECHO_REQUEST = 8"

record echo =
  echo_kind :: u8
  echo_id :: u16
  echo_seq :: u16
  echo_data :: "byte list"

definition echo_parse :: "byte list \<Rightarrow> echo option option" where
  "echo_parse bytes =
     (if length bytes < 8 then Some None
      else do {
        kind \<leftarrow> get_at bytes 0; code \<leftarrow> get_at bytes 1;
        if \<not> (kind = ECHO_REQUEST \<or> kind = ECHO_REPLY) \<or> code \<noteq> 0 \<or> inet_checksum bytes \<noteq> 0 then Some None
        else do { ident \<leftarrow> u16_at bytes 4; seq \<leftarrow> u16_at bytes 6;
                  Some (Some \<lparr>echo_kind = kind, echo_id = ident, echo_seq = seq, echo_data = drop 8 bytes\<rparr>) } })"

definition echo_to_bytes :: "echo \<Rightarrow> byte list" where
  "echo_to_bytes e =
     (let bytes = [echo_kind e, 0, 0, 0] @ to_be 2 (echo_id e) @ to_be 2 (echo_seq e) @ echo_data e
      in overwrite 2 (to_be 2 (inet_checksum bytes)) bytes)"

subsection \<open>UDP\<close>

definition UDP_HEADER :: nat where "UDP_HEADER = 8"

record datagram =
  dg_src_port :: u16
  dg_dst_port :: u16
  dg_payload :: "byte list"

definition datagram_checksum :: "ipv4 \<Rightarrow> ipv4 \<Rightarrow> byte list \<Rightarrow> u16" where
  "datagram_checksum src dst datagram =
     (let acc = net_sum (net_sum 0 (ip_bytes src)) (ip_bytes dst) + (ucast IP_UDP + of_nat (length datagram))
      in finish (net_sum acc datagram))"

definition udp_parse :: "byte list \<Rightarrow> ipv4 \<Rightarrow> ipv4 \<Rightarrow> datagram option option" where
  "udp_parse bytes src dst =
     (if length bytes < UDP_HEADER then Some None
      else do {
        len \<leftarrow> u16_at bytes 4;
        if unat len < UDP_HEADER \<or> unat len > length bytes then Some None
        else do {
          datagram \<leftarrow> get_range bytes 0 (unat len);
          sum \<leftarrow> u16_at bytes 6;
          if sum \<noteq> 0 \<and> datagram_checksum src dst datagram \<noteq> 0 then Some None
          else do { sport \<leftarrow> u16_at bytes 0; dport \<leftarrow> u16_at bytes 2;
                    Some (Some \<lparr>dg_src_port = sport, dg_dst_port = dport, dg_payload = drop UDP_HEADER datagram\<rparr>) } } })"

definition udp_build :: "ipv4 \<Rightarrow> u16 \<Rightarrow> ipv4 \<Rightarrow> u16 \<Rightarrow> byte list \<Rightarrow> byte list" where
  "udp_build src src_port dst dst_port payload =
     (let len = UDP_HEADER + length payload;
          datagram = to_be 2 src_port @ to_be 2 dst_port @ to_be 2 (of_nat len :: u16) @ [0, 0] @ payload;
          c = datagram_checksum src dst datagram;
          checksum = (if c = 0 then 0xFFFF else c)
      in overwrite 6 (to_be 2 checksum) datagram)"

subsection \<open>Lemmas\<close>

lemmas net_constants = ETH_HEADER_def MIN_FRAME_def ARP_LENGTH_def IP_HEADER_def UDP_HEADER_def

text \<open>No bytes make a parser panic.\<close>

lemma ethernet_total: "ethernet_parse bs \<noteq> None"
  by (simp add: ethernet_parse_def read_in_range net_constants)

lemma arp_total: "arp_parse bs \<noteq> None"
  by (simp add: arp_parse_def read_in_range net_constants)

lemma ipv4_total: "ipv4_parse bs \<noteq> None"
proof (cases "length bs < IP_HEADER")
  case False
  then have "get_at bs 0 = Some (bs ! 0)" by (intro get_at_in) (auto simp: net_constants)
  with False show ?thesis by (simp add: ipv4_parse_def read_in_range net_constants Let_def get_range_def)
qed (simp add: ipv4_parse_def)

lemma echo_total: "echo_parse bs \<noteq> None"
proof (cases "length bs < 8")
  case False
  then have "get_at bs 0 = Some (bs ! 0)" by (intro get_at_in) auto
  with False show ?thesis by (simp add: echo_parse_def read_in_range)
qed (simp add: echo_parse_def)

lemma udp_total: "udp_parse bs src dst \<noteq> None"
  by (simp add: udp_parse_def read_in_range net_constants get_range_def)

text \<open>Reading what was built.\<close>

lemma ethernet_roundtrip:
  "\<exists>pad. ethernet_parse (ethernet_build dst src ty payload)
     = Some (Some \<lparr>ef_dst = dst, ef_src = src, ef_type = ty, ef_payload = payload @ pad\<rparr>)"
proof -
  let ?f = "mac_bytes dst @ mac_bytes src @ to_be 2 ty @ payload"
  obtain pad where b: "ethernet_build dst src ty payload = ?f @ pad"
    by (simp add: ethernet_build_def Let_def resize_def)
  have "slice 0 6 (?f @ pad) = mac_bytes dst" "slice 6 12 (?f @ pad) = mac_bytes src" by (simp_all add: slice_def)
  moreover have "u16_at (?f @ pad) 12 = Some ty"
    by (simp add: u16_at_def get_at_append to_be_2 get_at_Cons)
  ultimately have "ethernet_parse (?f @ pad)
     = Some (Some \<lparr>ef_dst = dst, ef_src = src, ef_type = ty, ef_payload = payload @ pad\<rparr>)"
    by (simp add: ethernet_parse_def mac_at_in net_constants)
  then show ?thesis using b by auto
qed

lemma from_be_arp_header: "from_be [0, 1] = (1 :: u16)" "from_be [8, 0] = (0x800 :: u16)"
  by code_simp+

lemma arp_roundtrip: "arp_parse (arp_to_bytes a @ pad) = Some (Some a)"
proof -
  obtain s1 s2 s3 s4 s5 s6 t1 t2 t3 t4 t5 t6 u1 u2 u3 u4 v1 v2 v3 v4 where
    "arp_sender_mac a = Mac s1 s2 s3 s4 s5 s6" "arp_target_mac a = Mac t1 t2 t3 t4 t5 t6"
    "arp_sender_ip a = Ipv4 u1 u2 u3 u4" "arp_target_ip a = Ipv4 v1 v2 v3 v4"
    by (metis ipv4.exhaust mac.exhaust)
  then show ?thesis
    by (cases a) (simp add: arp_parse_def arp_to_bytes_def ARP_LENGTH_def u16_at_def ipv4_at_def mac_at_def get_at_Cons
      get_range_def to_be_2 slice_def mac_of_def from_be_arp_header)
qed

definition ipv4_prefix :: "u16 \<Rightarrow> u16 \<Rightarrow> u8 \<Rightarrow> byte list" where
  \<comment> \<open>the header before its checksum\<close>
  "ipv4_prefix tot ident protocol =
     [0x45, 0] @ to_be 2 tot @ to_be 2 ident @ to_be 2 DONT_FRAGMENT @ [TTL, protocol]"

lemma ipv4_build_parts:
  "ipv4_build src dst protocol ident payload =
    (let p = ipv4_prefix (of_nat (20 + length payload)) ident protocol
     in p @ to_be 2 (inet_checksum (p @ [0, 0] @ ip_bytes src @ ip_bytes dst)) @ ip_bytes src @ ip_bytes dst @ payload)"
  by (simp add: ipv4_build_def Let_def overwrite_def ipv4_prefix_def IP_HEADER_def to_be_2)

lemma ipv4_roundtrip:
  assumes "length payload \<le> 65515"
  shows "ipv4_parse (ipv4_build src dst protocol ident payload @ pad)
    = Some (Some \<lparr>ip_src = src, ip_dst = dst, ip_protocol = protocol, ip_payload = payload\<rparr>)"
proof -
  let ?tot = "of_nat (20 + length payload) :: u16"
  let ?p = "ipv4_prefix ?tot ident protocol"
  let ?c = "inet_checksum (?p @ [0, 0] @ ip_bytes src @ ip_bytes dst)"
  let ?h = "?p @ to_be 2 ?c @ ip_bytes src @ ip_bytes dst"
  let ?b = "?h @ payload @ pad"
  have b: "ipv4_build src dst protocol ident payload @ pad = ?b" by (simp only: ipv4_build_parts Let_def append_assoc)
  have t: "unat ?tot = 20 + length payload" using assms by (simp add: unat_of_nat del: of_nat_add)
  have len: "length ?h = 20" by (simp add: ipv4_prefix_def)
  have sum: "inet_checksum ?h = 0" by (rule checksum_inserted) (simp_all add: ipv4_prefix_def)
  obtain s1 s2 s3 s4 d1 d2 d3 d4 where ips: "src = Ipv4 s1 s2 s3 s4" "dst = Ipv4 d1 d2 d3 d4"
    by (metis ipv4.exhaust)
  have fields: "get_at ?b 0 = Some 0x45" "u16_at ?b 2 = Some ?tot" "u16_at ?b 6 = Some DONT_FRAGMENT"
    "get_at ?b 9 = Some protocol" "ipv4_at ?b 12 = Some src" "ipv4_at ?b 16 = Some dst"
    by (simp_all add: ips ipv4_prefix_def to_be_2 u16_at_def ipv4_at_def get_at_Cons)
  have parts: "get_range ?b 0 20 = Some ?h" "get_range ?b 20 (20 + length payload) = Some payload"
    using len by (simp_all only: get_range_def slice_def) auto
  have vals: "drop_bit 4 (0x45 :: u8) = 4" "unat ((0x45 :: u8) AND 0x0F) * 4 = 20" "DONT_FRAGMENT AND FRAGMENTED = 0"
    by (simp_all add: DONT_FRAGMENT_def FRAGMENTED_def)
  show ?thesis
    unfolding b ipv4_parse_def fields bind.bind_lunit Let_def vals t parts sum IP_HEADER_def
    using len by (simp add: parts)
qed

lemma echo_build_parts:
  "echo_to_bytes e =
    (let r = to_be 2 (echo_id e) @ to_be 2 (echo_seq e) @ echo_data e
     in [echo_kind e, 0] @ to_be 2 (inet_checksum ([echo_kind e, 0] @ [0, 0] @ r)) @ r)"
  by (simp add: echo_to_bytes_def Let_def overwrite_def)

lemma echo_roundtrip:
  assumes "echo_kind e = ECHO_REQUEST \<or> echo_kind e = ECHO_REPLY" and "length (echo_data e) \<le> 65507"
  shows "echo_parse (echo_to_bytes e) = Some (Some e)"
proof -
  let ?r = "to_be 2 (echo_id e) @ to_be 2 (echo_seq e) @ echo_data e"
  let ?c = "inet_checksum ([echo_kind e, 0] @ [0, 0] @ ?r)"
  let ?b = "[echo_kind e, 0] @ to_be 2 ?c @ ?r"
  have b: "echo_to_bytes e = ?b" by (simp only: echo_build_parts Let_def)
  have sum: "inet_checksum ?b = 0" using assms(2) by (intro checksum_inserted) simp_all
  have fields: "get_at ?b 0 = Some (echo_kind e)" "get_at ?b 1 = Some 0" "u16_at ?b 4 = Some (echo_id e)"
    "u16_at ?b 6 = Some (echo_seq e)" "drop 8 ?b = echo_data e"
    by (simp_all add: to_be_2 u16_at_def get_at_Cons)
  show ?thesis
    unfolding b echo_parse_def fields bind.bind_lunit sum using assms(1) by simp
qed

definition pseudo_sum :: "ipv4 \<Rightarrow> ipv4 \<Rightarrow> nat \<Rightarrow> nat" where
  \<comment> \<open>what the pseudo-header adds to the sum\<close>
  "pseudo_sum src dst len = words_sum (ip_bytes src) + words_sum (ip_bytes dst) + 17 + len"

lemma words_sum_ip: "words_sum (ip_bytes a) \<le> 131070"
  using words_sum_bound [of "ip_bytes a"] by simp

lemma datagram_sum:
  assumes "length d \<le> 65535"
  shows "\<exists>acc. datagram_checksum src dst d = finish acc \<and> unat acc = pseudo_sum src dst (length d) + words_sum d"
proof -
  let ?a = "net_sum (net_sum 0 (ip_bytes src)) (ip_bytes dst)"
  let ?b = "?a + (ucast IP_UDP + of_nat (length d))"
  have s: "unat (net_sum 0 (ip_bytes src)) = words_sum (ip_bytes src)"
    using words_sum_ip [of src] by (subst net_sum_words) simp_all
  have a: "unat ?a = words_sum (ip_bytes src) + words_sum (ip_bytes dst)"
    using words_sum_ip [of src] words_sum_ip [of dst] by (subst net_sum_words) (simp_all add: s)
  have "unat (of_nat (length d) :: u32) = length d" using assms by (simp add: unat_of_nat)
  moreover have "unat (ucast IP_UDP :: u32) = 17" by (simp add: unat_ucast_up IP_UDP_def)
  ultimately have l: "unat (ucast IP_UDP + of_nat (length d) :: u32) = 17 + length d"
    using assms by (subst unat_add_lem [THEN iffD1]) simp_all
  have b: "unat ?b = pseudo_sum src dst (length d)"
    using a l assms words_sum_ip [of src] words_sum_ip [of dst]
    by (subst unat_add_lem [THEN iffD1]) (simp_all add: pseudo_sum_def)
  have "words_sum d \<le> 65535 * 32768" using words_sum_bound [of d] assms by linarith
  then have "unat (net_sum ?b d) = pseudo_sum src dst (length d) + words_sum d"
    using b assms words_sum_ip [of src] words_sum_ip [of dst]
    by (subst net_sum_words) (simp_all add: pseudo_sum_def)
  then show ?thesis by (auto simp: datagram_checksum_def Let_def)
qed

lemma udp_build_parts:
  "\<exists>c :: u16. udp_build src sport dst dport payload =
     to_be 2 sport @ to_be 2 dport @ to_be 2 (of_nat (8 + length payload) :: u16) @ to_be 2 c @ payload
   \<and> (length payload \<le> 65527 \<longrightarrow> c \<noteq> 0 \<and> datagram_checksum src dst (udp_build src sport dst dport payload) = 0)"
proof -
  let ?p = "to_be 2 sport @ to_be 2 dport @ to_be 2 (of_nat (8 + length payload) :: u16)"
  let ?z = "?p @ [0, 0] @ payload"
  let ?d = "datagram_checksum src dst ?z"
  define c :: u16 where "c = (if ?d = 0 then 0xFFFF else ?d)"
  let ?b = "?p @ to_be 2 c @ payload"
  have b: "udp_build src sport dst dport payload = ?b"
    by (simp add: udp_build_def UDP_HEADER_def Let_def overwrite_def c_def)
  have len: "length ?z = 8 + length payload" "length ?b = 8 + length payload" by simp_all
  have "datagram_checksum src dst ?b = 0" if small: "length payload \<le> 65527"
  proof -
    obtain acc where acc: "?d = finish acc" "unat acc = pseudo_sum src dst (8 + length payload) + words_sum ?z"
      using datagram_sum [of ?z src dst] small unfolding len by auto
    obtain acc' where acc': "datagram_checksum src dst ?b = finish acc'"
      "unat acc' = pseudo_sum src dst (8 + length payload) + words_sum ?b"
      using datagram_sum [of ?b src dst] small unfolding len by auto
    have "words_sum (to_be 2 c) = unat c"
      using unat_from_be_2 [of "ucast (drop_bit 8 c)" "ucast c"] by (simp add: to_be_2)
    then have "words_sum ?b = words_sum ?z + unat c" by (simp add: words_sum_append)
    then have u: "unat acc' = unat acc + unat c" using acc acc' by simp
    have "0 < unat acc + unat c \<and> (unat acc + unat c) mod 65535 = 0"
    proof (cases "?d = 0")
      case True
      then have "0 < unat acc \<and> unat acc mod 65535 = 0" using acc(1) finish_zero [of acc] by simp
      moreover have "unat c = 65535" using True by (simp add: c_def)
      ultimately show ?thesis by simp
    next
      case False
      then have "c = finish acc" using acc(1) by (simp add: c_def)
      then show ?thesis using finish_completes [of acc] by simp
    qed
    then show ?thesis unfolding acc'(1) finish_zero u .
  qed
  moreover have "c \<noteq> 0" by (simp add: c_def)
  ultimately show ?thesis using b by (intro exI [of _ c]) (simp only:, simp)
qed

lemma udp_roundtrip:
  assumes "length payload \<le> 65527"
  shows "udp_parse (udp_build src sport dst dport payload @ pad) src dst
    = Some (Some \<lparr>dg_src_port = sport, dg_dst_port = dport, dg_payload = payload\<rparr>)"
proof -
  let ?len = "of_nat (8 + length payload) :: u16"
  obtain c :: u16 where c: "udp_build src sport dst dport payload =
      to_be 2 sport @ to_be 2 dport @ to_be 2 ?len @ to_be 2 c @ payload"
    and sum: "c \<noteq> 0" "datagram_checksum src dst (udp_build src sport dst dport payload) = 0"
    using udp_build_parts assms by blast
  let ?d = "udp_build src sport dst dport payload"
  have l: "unat ?len = 8 + length payload" using assms by (simp add: unat_of_nat del: of_nat_add)
  have len: "length ?d = 8 + length payload" "drop 8 ?d = payload" by (simp_all add: c)
  have fields: "u16_at (?d @ pad) 0 = Some sport" "u16_at (?d @ pad) 2 = Some dport"
    "u16_at (?d @ pad) 4 = Some ?len" "u16_at (?d @ pad) 6 = Some c"
    by (simp_all add: c to_be_2 u16_at_def get_at_Cons)
  have d: "get_range (?d @ pad) 0 (8 + length payload) = Some ?d" by (simp add: get_range_def slice_def len)
  show ?thesis
    unfolding udp_parse_def UDP_HEADER_def fields bind.bind_lunit l d sum(2) by (simp add: len)
qed

subsection \<open>Protocols inside Ethernet\<close>

locale wire_format =
  fixes encode :: "'m \<Rightarrow> byte list" and decode :: "byte list \<Rightarrow> 'v option option"
    and view :: "'m \<Rightarrow> 'v" and fits :: "'m \<Rightarrow> bool"
  assumes decode_total: "decode bytes \<noteq> None"
    and decode_encode: "fits m \<Longrightarrow> decode (encode m @ pad) = Some (Some (view m))"
begin

definition take_frame :: "u16 \<Rightarrow> byte list \<Rightarrow> 'v option option" where
  \<comment> \<open>the way a receiver gets at it: the frame's header, its type, then the protocol\<close>
  "take_frame ethertype bytes =
     do { f \<leftarrow> ethernet_parse bytes;
          case f of None \<Rightarrow> Some None
          | Some f \<Rightarrow> if ef_type f = ethertype then decode (ef_payload f) else Some None }"

lemma take_frame_total: "take_frame ethertype bytes \<noteq> None"
  using ethernet_total [of bytes] decode_total by (auto simp: take_frame_def split: option.splits)

lemma take_frame_built:
  "fits m \<Longrightarrow> take_frame ethertype (ethernet_build dst src ethertype (encode m)) = Some (Some (view m))"
  using ethernet_roundtrip [of dst src ethertype "encode m"] decode_encode by (auto simp: take_frame_def)

end

fun ipv4_encode :: "u16 \<times> ip_packet \<Rightarrow> byte list" where
  "ipv4_encode (ident, p) = ipv4_build (ip_src p) (ip_dst p) (ip_protocol p) ident (ip_payload p)"

interpretation arp_wire: wire_format arp_to_bytes arp_parse "\<lambda>a. a" "\<lambda>a. True"
  by unfold_locales (simp_all add: arp_roundtrip arp_total del: not_None_eq)

interpretation ip_wire: wire_format ipv4_encode ipv4_parse snd "\<lambda>m. length (ip_payload (snd m)) \<le> 65515"
proof unfold_locales
  show "ipv4_parse bytes \<noteq> None" for bytes by (rule ipv4_total)
  show "ipv4_parse (ipv4_encode m @ pad) = Some (Some (snd m))" if "length (ip_payload (snd m)) \<le> 65515" for m pad
    using that by (cases m) (simp add: ipv4_roundtrip)
qed

subsection \<open>Properties\<close>

text \<open>No bytes arriving from the network make a parser read out of range: none of the five
  panics, whatever it is given.\<close>
lemma parsers_never_panic:
  "ethernet_parse bs \<noteq> None \<and> arp_parse bs \<noteq> None \<and> ipv4_parse bs \<noteq> None
   \<and> echo_parse bs \<noteq> None \<and> udp_parse bs src dst \<noteq> None"
  using ethernet_total arp_wire.decode_total ip_wire.decode_total echo_total udp_total by blast

text \<open>C29: a UDP datagram sent in an IPv4 packet in an Ethernet frame arrives as it was sent: the
  frame, padded if it is short, parses back through all three layers to the addresses, ports and
  data it was built from. The data has to fit an IPv4 packet.\<close>
theorem udp_through_the_stack:
  fixes dmac smac :: mac and src dst :: ipv4 and ident sport dport :: u16
  assumes "length payload \<le> 65507"
  defines "wire \<equiv> ethernet_build dmac smac ETH_IPV4 (ipv4_build src dst IP_UDP ident (udp_build src sport dst dport payload))"
  shows "\<exists>f p. ethernet_parse wire = Some (Some f) \<and> ef_dst f = dmac \<and> ef_src f = smac \<and> ef_type f = ETH_IPV4
    \<and> ipv4_parse (ef_payload f) = Some (Some p)
    \<and> ip_src p = src \<and> ip_dst p = dst \<and> ip_protocol p = IP_UDP
    \<and> udp_parse (ip_payload p) src dst = Some (Some \<lparr>dg_src_port = sport, dg_dst_port = dport, dg_payload = payload\<rparr>)"
proof -
  let ?d = "udp_build src sport dst dport payload"
  have "length ?d = 8 + length payload"
    using udp_build_parts [of src sport dst dport payload] by auto
  then have "ipv4_parse (ipv4_build src dst IP_UDP ident ?d @ pad)
      = Some (Some \<lparr>ip_src = src, ip_dst = dst, ip_protocol = IP_UDP, ip_payload = ?d\<rparr>)" for pad
    using assms(1) by (intro ipv4_roundtrip) simp
  moreover have "udp_parse ?d src dst = Some (Some \<lparr>dg_src_port = sport, dg_dst_port = dport, dg_payload = payload\<rparr>)"
    using udp_roundtrip [of payload src sport dst dport "[]"] assms(1) by simp
  ultimately show ?thesis
    using ethernet_roundtrip [of dmac smac ETH_IPV4 "ipv4_build src dst IP_UDP ident ?d"] unfolding wire_def by auto
qed

theorem udp_through_the_stack_witness:
  "\<exists>f p. ethernet_parse (ethernet_build MAC_BROADCAST MAC_DEFAULT ETH_IPV4
      (ipv4_build UNSPECIFIED BROADCAST IP_UDP 7 (udp_build UNSPECIFIED 68 BROADCAST 67 [1, 2, 3]))) = Some (Some f)
    \<and> ipv4_parse (ef_payload f) = Some (Some p)
    \<and> udp_parse (ip_payload p) UNSPECIFIED BROADCAST = Some (Some \<lparr>dg_src_port = 68, dg_dst_port = 67, dg_payload = [1, 2, 3]\<rparr>)"
  using udp_through_the_stack [where payload = "[1, 2, 3]" and dmac = MAC_BROADCAST and smac = MAC_DEFAULT
    and src = UNSPECIFIED and dst = BROADCAST and ident = 7 and sport = 68 and dport = 67] by auto

text \<open>a ping is read back as it was built, and a single damaged byte anywhere in it makes the
  parser refuse it (never panic on it or take it).\<close>
theorem echo_roundtrip_damage:
  assumes "echo_kind e = ECHO_REQUEST \<or> echo_kind e = ECHO_REPLY" and "length (echo_data e) \<le> 65507"
  shows "echo_parse (echo_to_bytes e) = Some (Some e)
    \<and> (\<forall>i x. i < length (echo_to_bytes e) \<longrightarrow> x \<noteq> echo_to_bytes e ! i \<longrightarrow>
         echo_parse ((echo_to_bytes e)[i := x]) = Some None)"
proof (intro conjI allI impI)
  show "echo_parse (echo_to_bytes e) = Some (Some e)" using assms by (rule echo_roundtrip)
  fix i x
  let ?b = "echo_to_bytes e" and ?b' = "(echo_to_bytes e)[i := x]"
  assume i: "i < length ?b" "x \<noteq> ?b ! i"
  have len: "length ?b = 8 + length (echo_data e)" by (simp add: echo_build_parts Let_def)
  have "inet_checksum ?b = 0"
    unfolding echo_build_parts Let_def using assms(2) by (intro checksum_inserted) simp_all
  then have "inet_checksum ?b' \<noteq> 0" using i assms(2) len by (intro checksum_damage) simp_all
  moreover have "get_at ?b' 0 \<noteq> None" "get_at ?b' 1 \<noteq> None" using len by (simp_all add: get_at_def)
  ultimately show "echo_parse ?b' = Some None" by (auto simp: echo_parse_def)
qed

theorem echo_roundtrip_damage_witness:
  "echo_parse (echo_to_bytes \<lparr>echo_kind = 8, echo_id = 1, echo_seq = 2, echo_data = [9]\<rparr>)
     = Some (Some \<lparr>echo_kind = 8, echo_id = 1, echo_seq = 2, echo_data = [9]\<rparr>)"
  using echo_roundtrip_damage [of "\<lparr>echo_kind = 8, echo_id = 1, echo_seq = 2, echo_data = [9]\<rparr>"]
  by (simp add: ECHO_REQUEST_def)

end
