(* ===== verification/Net_Apps.thy ===== *)
theory Net_Apps
  imports Net
begin

text \<open>
  What rides on the packets: DHCP messages (\<open>net/dhcp.rs\<close>), DNS (\<open>net/dns.rs\<close>), SNTP
  (\<open>net/sntp.rs\<close>), and below them the controller's framing on its USB endpoints
  (\<open>net/lan7800.rs\<close>). As in \<open>Net\<close>, the outer \<open>None\<close> of a parser is a panic.
\<close>

subsection \<open>DHCP\<close>

definition SERVER_PORT :: u16 where "SERVER_PORT = 67"
definition CLIENT_PORT :: u16 where "CLIENT_PORT = 68"

datatype dhcp_kind = Discover | Offer | Request | Ack | Nak

fun dhcp_code :: "dhcp_kind \<Rightarrow> u8" where
  "dhcp_code Discover = 1" | "dhcp_code Offer = 2" | "dhcp_code Request = 3" | "dhcp_code Ack = 5" | "dhcp_code Nak = 6"

definition DHCP_FIXED :: nat where "DHCP_FIXED = 236"
definition DHCP_MAGIC :: "byte list" where "DHCP_MAGIC = [99, 130, 83, 99]"
definition DHCP_MIN_LENGTH :: nat where "DHCP_MIN_LENGTH = 300"

abbreviation PAD :: u8 where "PAD \<equiv> 0"
abbreviation SUBNET_MASK :: u8 where "SUBNET_MASK \<equiv> 1"
abbreviation ROUTER :: u8 where "ROUTER \<equiv> 3"
abbreviation DNS :: u8 where "DNS \<equiv> 6"
abbreviation REQUESTED_IP :: u8 where "REQUESTED_IP \<equiv> 50"
abbreviation LEASE_TIME :: u8 where "LEASE_TIME \<equiv> 51"
abbreviation MESSAGE_TYPE :: u8 where "MESSAGE_TYPE \<equiv> 53"
abbreviation SERVER_ID :: u8 where "SERVER_ID \<equiv> 54"
abbreviation PARAMETERS :: u8 where "PARAMETERS \<equiv> 55"
abbreviation END_OPTION :: u8 where "END_OPTION \<equiv> 255"

definition dhcp_option :: "u8 \<times> byte list \<Rightarrow> byte list" where
  "dhcp_option cv = [fst cv, of_nat (length (snd cv))] @ snd cv"

definition dhcp_message :: "mac \<Rightarrow> u32 \<Rightarrow> dhcp_kind \<Rightarrow> (u8 \<times> byte list) list \<Rightarrow> byte list" where
  "dhcp_message mac xid kind options =
     (let head = resize DHCP_FIXED 0
            ([1, 1, 6, 0] @ to_be 4 xid @ [0, 0, 0x80, 0] @ replicate 16 0 @ mac_bytes mac);
          bytes = head @ DHCP_MAGIC @ [MESSAGE_TYPE, 1, dhcp_code kind]
                  @ concat (map dhcp_option options)
                  @ [PARAMETERS, 3, SUBNET_MASK, ROUTER, DNS, END_OPTION]
      in resize (max (length bytes) DHCP_MIN_LENGTH) PAD bytes)"

definition dhcp_discover :: "mac \<Rightarrow> u32 \<Rightarrow> byte list" where
  "dhcp_discover mac xid = dhcp_message mac xid Discover []"

definition dhcp_request :: "mac \<Rightarrow> u32 \<Rightarrow> ipv4 \<Rightarrow> ipv4 \<Rightarrow> byte list" where
  "dhcp_request mac xid address server =
     dhcp_message mac xid Request [(REQUESTED_IP, ip_bytes address), (SERVER_ID, ip_bytes server)]"

record dhcp_reply =
  dr_kind :: dhcp_kind
  dr_address :: ipv4
  dr_server :: "ipv4 option"
  dr_netmask :: "ipv4 option"
  dr_router :: "ipv4 option"
  dr_dns :: "ipv4 option"
  dr_lease_secs :: "u32 option"

definition dhcp_take_option :: "u8 \<Rightarrow> byte list \<Rightarrow> dhcp_kind option \<times> dhcp_reply \<Rightarrow> (dhcp_kind option \<times> dhcp_reply) option" where
  \<comment> \<open>one option of a known length\<close>
  "dhcp_take_option code value kr =
     do {
       address \<leftarrow> (if length value \<ge> 4 then map_option Some (ipv4_at value 0) else Some None);
       let (kind, reply) = kr;
       if code = MESSAGE_TYPE \<and> length value = 1 then
         do { v \<leftarrow> get_at value 0;
              Some (if v = 2 then Some Offer else if v = 5 then Some Ack else if v = 6 then Some Nak else None, reply) }
       else if code = SUBNET_MASK then Some (kind, reply\<lparr>dr_netmask := address\<rparr>)
       else if code = ROUTER then Some (kind, reply\<lparr>dr_router := address\<rparr>)
       else if code = DNS then Some (kind, reply\<lparr>dr_dns := address\<rparr>)
       else if code = SERVER_ID then Some (kind, reply\<lparr>dr_server := address\<rparr>)
       else if code = LEASE_TIME \<and> length value = 4 then
         do { hi \<leftarrow> u16_at value 0; lo \<leftarrow> u16_at value 2;
              Some (kind, reply\<lparr>dr_lease_secs := Some (push_bit 16 (ucast hi) OR ucast lo)\<rparr>) }
       else Some (kind, reply)
     }"

function dhcp_options :: "byte list \<Rightarrow> nat \<Rightarrow> dhcp_kind option \<times> dhcp_reply \<Rightarrow> (dhcp_kind option \<times> dhcp_reply) option option" where
  "dhcp_options bytes at kr =
     (if at < length bytes then
        (let code = bytes ! at
         in if code = PAD then dhcp_options bytes (at + 1) kr
            else if code = END_OPTION then Some (Some kr)
            else case get_at bytes (at + 1) of
              None \<Rightarrow> Some None
            | Some len \<Rightarrow>
                (case get_range bytes (at + 2) (at + 2 + unat len) of
                   None \<Rightarrow> Some None
                 | Some value \<Rightarrow>
                     (case dhcp_take_option code value kr of
                        None \<Rightarrow> None
                      | Some kr' \<Rightarrow> dhcp_options bytes (at + (2 + unat len)) kr')))
      else Some (Some kr))"
  by pat_completeness auto
termination
  by (relation "measure (\<lambda>(bytes, at, kr). length bytes - at)") auto

declare dhcp_options.simps [simp del]

definition dhcp_parse_reply :: "byte list \<Rightarrow> u32 \<Rightarrow> mac \<Rightarrow> dhcp_reply option option" where
  "dhcp_parse_reply bytes xid mac =
     (if length bytes < DHCP_FIXED + 4 then Some None
      else do {
        op \<leftarrow> get_at bytes 0; txid \<leftarrow> get_range bytes 4 8; chaddr \<leftarrow> get_range bytes 28 34;
        if op \<noteq> 2 \<or> txid \<noteq> to_be 4 xid \<or> chaddr \<noteq> mac_bytes mac then Some None
        else do {
          magic \<leftarrow> get_range bytes DHCP_FIXED (DHCP_FIXED + 4);
          if magic \<noteq> DHCP_MAGIC then Some None
          else do {
            address \<leftarrow> ipv4_at bytes 16;
            r \<leftarrow> dhcp_options bytes (DHCP_FIXED + 4)
                  (None, \<lparr>dr_kind = Offer, dr_address = address, dr_server = None, dr_netmask = None,
                          dr_router = None, dr_dns = None, dr_lease_secs = None\<rparr>);
            Some (case r of
                    Some (Some kind, reply) \<Rightarrow> Some (reply\<lparr>dr_kind := kind\<rparr>)
                  | _ \<Rightarrow> None) } } })"

subsection \<open>DNS\<close>

definition DNS_PORT :: u16 where "DNS_PORT = 53"
definition DNS_HEADER :: nat where "DNS_HEADER = 12"
definition RECURSION_DESIRED :: u16 where "RECURSION_DESIRED = push_bit 8 1"
definition RESPONSE :: u16 where "RESPONSE = push_bit 15 1"
definition TYPE_A :: u16 where "TYPE_A = 1"
definition CLASS_IN :: u16 where "CLASS_IN = 1"
definition DNS_MAX_NAME :: nat where "DNS_MAX_NAME = 253"
definition MAX_LABEL :: nat where "MAX_LABEL = 63"

fun dns_labels :: "rstr list \<Rightarrow> byte list option" where
  "dns_labels [] = Some []"
| "dns_labels (label # labels) =
     (if label = [] \<or> length label > MAX_LABEL \<or> \<not> (\<forall>b \<in> set label. b < 128) then None
      else map_option (\<lambda>rest. of_nat (length label) # label @ rest) (dns_labels labels))"

definition trim_end_dots :: "rstr \<Rightarrow> rstr" where
  "trim_end_dots name = rev (dropWhile (\<lambda>b. b = 46) (rev name))"

definition dns_query :: "rstr \<Rightarrow> u16 \<Rightarrow> byte list option" where
  "dns_query name0 ident =
     (let name = trim_end_dots name0
      in if name = [] \<or> length name > DNS_MAX_NAME then None
         else map_option (\<lambda>labels. to_be 2 ident @ to_be 2 RECURSION_DESIRED @ [0, 1, 0, 0, 0, 0, 0, 0]
                @ labels @ [0] @ to_be 2 TYPE_A @ to_be 2 CLASS_IN)
              (dns_labels (split_on 46 name)))"

datatype dns_answer = Addresses "ipv4 list" | NoSuchName | Failed u8

fun skip_name :: "nat \<Rightarrow> byte list \<Rightarrow> nat \<Rightarrow> nat option" where
  \<comment> \<open>the first argument is how many rounds of the loop are left\<close>
  "skip_name 0 bytes at = None"
| "skip_name (Suc n) bytes at =
     (case get_at bytes at of
        None \<Rightarrow> None
      | Some len \<Rightarrow>
          if len = 0 then Some (at + 1)
          else if len AND 0xC0 = 0xC0 then (if at + 2 \<le> length bytes then Some (at + 2) else None)
          else if len AND 0xC0 \<noteq> 0 then None
          else skip_name n bytes (at + (1 + unat len)))"

fun dns_questions :: "nat \<Rightarrow> byte list \<Rightarrow> nat \<Rightarrow> nat option" where
  "dns_questions 0 bytes at = Some at"
| "dns_questions (Suc n) bytes at =
     (case skip_name DNS_MAX_NAME bytes at of None \<Rightarrow> None | Some at' \<Rightarrow> dns_questions n bytes (at' + 4))"

fun dns_answers :: "nat \<Rightarrow> byte list \<Rightarrow> nat \<Rightarrow> ipv4 list \<Rightarrow> ipv4 list option option" where
  "dns_answers 0 bytes at addresses = Some (Some addresses)"
| "dns_answers (Suc n) bytes at addresses =
     (case skip_name DNS_MAX_NAME bytes at of
        None \<Rightarrow> Some None
      | Some at \<Rightarrow>
          (case get_range bytes at (at + 10) of
             None \<Rightarrow> Some None
           | Some record \<Rightarrow>
               do {
                 kind \<leftarrow> u16_at record 0; cls \<leftarrow> u16_at record 2; len \<leftarrow> map_option unat (u16_at record 8);
                 case get_range bytes (at + 10) (at + 10 + len) of
                   None \<Rightarrow> Some None
                 | Some data \<Rightarrow>
                     if kind = TYPE_A \<and> cls = CLASS_IN \<and> len = 4
                     then do { a \<leftarrow> ipv4_at data 0; dns_answers n bytes (at + (10 + len)) (addresses @ [a]) }
                     else dns_answers n bytes (at + (10 + len)) addresses
               }))"

definition dns_parse :: "byte list \<Rightarrow> u16 \<Rightarrow> dns_answer option option" where
  "dns_parse bytes ident =
     (if length bytes < DNS_HEADER then Some None
      else do {
        rid \<leftarrow> u16_at bytes 0; flags \<leftarrow> u16_at bytes 2;
        if rid \<noteq> ident \<or> flags AND RESPONSE = 0 then Some None
        else let code = ucast (flags AND 0xF) :: u8
        in if code = 3 then Some (Some NoSuchName)
           else if code \<noteq> 0 then Some (Some (Failed code))
           else do {
             questions \<leftarrow> u16_at bytes 4; answers \<leftarrow> u16_at bytes 6;
             case dns_questions (unat questions) bytes DNS_HEADER of
               None \<Rightarrow> Some None
             | Some at \<Rightarrow> map_option (map_option Addresses) (dns_answers (unat answers) bytes at []) } })"

subsection \<open>SNTP\<close>

definition SNTP_PORT :: u16 where "SNTP_PORT = 123"
definition SNTP_LENGTH :: nat where "SNTP_LENGTH = 48"
definition UNIX_OFFSET :: u64 where "UNIX_OFFSET = 2208988800"
definition SNTP_CLIENT :: u8 where "SNTP_CLIENT = push_bit 3 4 OR 3"
definition MODE_SERVER :: u8 where "MODE_SERVER = 4"

definition sntp_request :: "u64 \<Rightarrow> byte list" where
  "sntp_request cookie = overwrite 40 (to_be 8 cookie) ((replicate SNTP_LENGTH 0)[0 := SNTP_CLIENT])"

definition u32_pair :: "byte list \<Rightarrow> nat \<Rightarrow> u64 option" where
  "u32_pair bytes at = do { hi \<leftarrow> u16_at bytes at; lo \<leftarrow> u16_at bytes (at + 2); Some (push_bit 16 (ucast hi) OR ucast lo) }"

definition sntp_parse :: "byte list \<Rightarrow> u64 \<Rightarrow> u64 \<Rightarrow> u64 option option" where
  "sntp_parse bytes cookie round_trip_us =
     (if length bytes < SNTP_LENGTH then Some None
      else do {
        mode \<leftarrow> get_at bytes 0; stratum \<leftarrow> get_at bytes 1;
        if mode AND 7 \<noteq> MODE_SERVER \<or> stratum = 0 then Some None
        else do {
          originate \<leftarrow> get_range bytes 24 32;
          if originate \<noteq> to_be 8 cookie then Some None
          else do {
            seconds \<leftarrow> u32_pair bytes 40; fraction \<leftarrow> u32_pair bytes 44;
            Some (if seconds < UNIX_OFFSET then None
                  else Some ((seconds - UNIX_OFFSET) * 1000000 + drop_bit 32 (fraction * 1000000) + round_trip_us div 2)) } } })"

subsection \<open>The controller's framing\<close>

definition TX_CMD_A_FCS :: u32 where "TX_CMD_A_FCS = push_bit 22 1"
definition TX_CMD_A_LEN :: u32 where "TX_CMD_A_LEN = 0xFFFFF"
definition RX_CMD_A_ERROR :: u32 where "RX_CMD_A_ERROR = push_bit 22 1"
definition RX_CMD_A_LEN :: u32 where "RX_CMD_A_LEN = 0x3FFF"
definition RX_HEADER :: nat where "RX_HEADER = 4 + 4 + 2"
definition FCS :: nat where "FCS = 4"

definition lan_tx :: "byte list \<Rightarrow> byte list" where
  "lan_tx frame = to_le 4 ((of_nat (length frame) AND TX_CMD_A_LEN) OR TX_CMD_A_FCS) @ to_le 4 (0 :: u32) @ frame"

function lan_rx_loop :: "byte list \<Rightarrow> nat \<Rightarrow> byte list list \<Rightarrow> byte list list" where
  "lan_rx_loop transfer at frames =
     (if at + RX_HEADER \<le> length transfer then
        (let cmd_a = from_le (slice at (at + 4) transfer) :: u32;
             sz = unat (cmd_a AND RX_CMD_A_LEN);
             start = at + RX_HEADER
         in if start + sz > length transfer then frames
            else let frames' = (if cmd_a AND RX_CMD_A_ERROR = 0 \<and> sz > FCS
                                then frames @ [slice start (start + sz - FCS) transfer] else frames);
                     padding = (4 - (sz + 2) mod 4) mod 4
                 in lan_rx_loop transfer (start + sz + padding) frames')
      else frames)"
  by pat_completeness auto
termination
  by (relation "measure (\<lambda>(transfer, at, frames). length transfer - at)") (auto simp: RX_HEADER_def)

declare lan_rx_loop.simps [simp del]

definition lan_rx :: "byte list \<Rightarrow> byte list list" where
  "lan_rx transfer = lan_rx_loop transfer 0 []"

subsection \<open>Lemmas\<close>

lemma get_at_first: "0 < length bs \<Longrightarrow> get_at bs 0 = Some (bs ! 0)"
  by (rule get_at_in)

definition addr_of :: "byte list \<Rightarrow> ipv4 option" where
  "addr_of v = (if length v \<ge> 4 then Some (Ipv4 (v ! 0) (v ! 1) (v ! 2) (v ! 3)) else None)"

definition kind_of :: "byte list \<Rightarrow> dhcp_kind option" where
  "kind_of v = (if v ! 0 = 2 then Some Offer else if v ! 0 = 5 then Some Ack else if v ! 0 = 6 then Some Nak else None)"

definition lease_of :: "byte list \<Rightarrow> u32" where
  "lease_of v = push_bit 16 (ucast (from_be [v ! 0, v ! 1] :: u16)) OR ucast (from_be [v ! 2, v ! 3] :: u16)"

definition dhcp_apply :: "u8 \<Rightarrow> byte list \<Rightarrow> dhcp_kind option \<times> dhcp_reply \<Rightarrow> dhcp_kind option \<times> dhcp_reply" where
  \<comment> \<open>what an option does, when no read is out of range\<close>
  "dhcp_apply code value kr =
     (if code = MESSAGE_TYPE \<and> length value = 1 then (kind_of value, snd kr)
      else (fst kr,
        (if code = SUBNET_MASK then (snd kr)\<lparr>dr_netmask := addr_of value\<rparr>
         else if code = ROUTER then (snd kr)\<lparr>dr_router := addr_of value\<rparr>
         else if code = DNS then (snd kr)\<lparr>dr_dns := addr_of value\<rparr>
         else if code = SERVER_ID then (snd kr)\<lparr>dr_server := addr_of value\<rparr>
         else if code = LEASE_TIME \<and> length value = 4 then (snd kr)\<lparr>dr_lease_secs := Some (lease_of value)\<rparr>
         else snd kr)))"

lemma dhcp_take_Some [simp]: "dhcp_take_option code value kr = Some (dhcp_apply code value kr)"
proof -
  have a: "(if length value \<ge> 4 then map_option Some (ipv4_at value 0) else Some None) = Some (addr_of value)"
    by (simp add: addr_of_def ipv4_at_def get_at_def eval_nat_numeral)
  have g: "length value = 1 \<Longrightarrow> get_at value 0 = Some (value ! 0)" by (simp add: get_at_def)
  have u: "length value = 4 \<Longrightarrow> u16_at value 0 = Some (from_be [value ! 0, value ! 1])"
    "length value = 4 \<Longrightarrow> u16_at value 2 = Some (from_be [value ! 2, value ! 3])"
    by (simp_all add: u16_at_def get_at_def eval_nat_numeral)
  show ?thesis
  proof (cases "code = MESSAGE_TYPE \<and> length value = 1")
    case True
    then show ?thesis unfolding dhcp_take_option_def a bind.bind_lunit Let_def split_beta dhcp_apply_def
      by (simp add: g kind_of_def)
  next
    case not_type: False
    show ?thesis
    proof (cases "code = LEASE_TIME \<and> length value = 4")
      case True
      then show ?thesis unfolding dhcp_take_option_def a bind.bind_lunit Let_def split_beta dhcp_apply_def
        by (simp add: u lease_of_def)
    next
      case False
      show ?thesis unfolding dhcp_take_option_def a bind.bind_lunit Let_def split_beta dhcp_apply_def
          if_not_P [OF not_type] if_not_P [OF False] by simp
    qed
  qed
qed

lemma dhcp_options_total: "\<exists>r. dhcp_options bytes at kr = Some r"
proof (induction bytes at kr rule: dhcp_options.induct)
  case (1 bytes at kr)
  show ?case
    using 1 by (subst dhcp_options.simps) (auto simp: Let_def split: option.splits)
qed

lemma dhcp_total: "dhcp_parse_reply bytes xid mac \<noteq> None"
proof (cases "length bytes < DHCP_FIXED + 4")
  case False
  then have "get_at bytes 0 = Some (bytes ! 0)" by (intro get_at_in) (auto simp: DHCP_FIXED_def)
  moreover obtain address where "ipv4_at bytes 16 = Some address" using False by (simp add: ipv4_at_in DHCP_FIXED_def)
  moreover obtain r where "dhcp_options bytes (DHCP_FIXED + 4)
      (None, \<lparr>dr_kind = Offer, dr_address = address, dr_server = None, dr_netmask = None,
              dr_router = None, dr_dns = None, dr_lease_secs = None\<rparr>) = Some r"
    using dhcp_options_total by blast
  ultimately show ?thesis
    using False by (simp add: dhcp_parse_reply_def get_range_def DHCP_FIXED_def)
qed (simp add: dhcp_parse_reply_def)

lemma dns_answers_total: "dns_answers n bytes at addresses \<noteq> None"
proof (induction n bytes at addresses rule: dns_answers.induct)
  case (2 n bytes at addresses)
  then show ?case
    by (auto simp: read_in_range get_range_def length_slice split: option.splits)
qed simp

lemma dns_total: "dns_parse bytes ident \<noteq> None"
  using dns_answers_total
  by (auto simp: dns_parse_def DNS_HEADER_def read_in_range Let_def split: option.splits)

lemma sntp_total: "sntp_parse bytes cookie rtt \<noteq> None"
proof (cases "length bytes < SNTP_LENGTH")
  case False
  then have "get_at bytes 0 = Some (bytes ! 0)" by (intro get_at_in) (auto simp: SNTP_LENGTH_def)
  with False show ?thesis by (simp add: sntp_parse_def u32_pair_def read_in_range get_range_def SNTP_LENGTH_def)
qed (simp add: sntp_parse_def)

subsubsection \<open>DHCP options\<close>

lemma dhcp_options_encoded:
  assumes "\<forall>(c, v) \<in> set opts. c \<noteq> PAD \<and> c \<noteq> END_OPTION \<and> length v < 256"
  shows "dhcp_options (p @ concat (map dhcp_option opts) @ END_OPTION # junk) (length p) kr
    = Some (Some (fold (\<lambda>(c, v). dhcp_apply c v) opts kr))"
  using assms
proof (induction opts arbitrary: p kr)
  case Nil
  show ?case by (subst dhcp_options.simps) (simp add: Let_def nth_append)
next
  case (Cons cv opts)
  obtain c v where cv: "cv = (c, v)" by fastforce
  with Cons.prems have c: "c \<noteq> PAD" "c \<noteq> END_OPTION" "length v < 256" by auto
  let ?rest = "concat (map dhcp_option opts) @ END_OPTION # junk"
  let ?bytes = "p @ [c, of_nat (length v)] @ v @ ?rest"
  have b: "p @ concat (map dhcp_option (cv # opts)) @ END_OPTION # junk = ?bytes"
    by (simp add: cv dhcp_option_def)
  have n: "unat (of_nat (length v) :: u8) = length v" using c(3) by (simp add: unat_of_nat)
  have "?bytes ! length p = c" "get_at ?bytes (length p + 1) = Some (of_nat (length v))"
    by (simp_all add: nth_append get_at_append get_at_Cons)
  moreover have "get_range ?bytes (length p + 2) (length p + 2 + length v) = Some v"
    by (simp add: get_range_def slice_def)
  ultimately have "dhcp_options ?bytes (length p) kr = dhcp_options ?bytes (length p + (2 + length v)) (dhcp_apply c v kr)"
    using c by (subst dhcp_options.simps) (simp add: Let_def n)
  moreover have "dhcp_options ((p @ [c, of_nat (length v)] @ v) @ ?rest) (length (p @ [c, of_nat (length v)] @ v)) (dhcp_apply c v kr)
      = Some (Some (fold (\<lambda>(c, v). dhcp_apply c v) opts (dhcp_apply c v kr)))"
    using Cons.prems by (intro Cons.IH) auto
  ultimately show ?case unfolding b by (simp add: cv)
qed

definition dhcp_spec :: "(u8 \<times> byte list) list \<Rightarrow> dhcp_kind option \<times> dhcp_reply \<Rightarrow> dhcp_kind option \<times> dhcp_reply" where
  \<comment> \<open>the fields the options set, looked up by code\<close>
  "dhcp_spec opts kr =
     (let field = (\<lambda>c old. case map_of opts c of None \<Rightarrow> old | Some v \<Rightarrow> addr_of v);
          k = (case map_of opts MESSAGE_TYPE of None \<Rightarrow> fst kr | Some v \<Rightarrow> if length v = 1 then kind_of v else fst kr);
          r = snd kr
      in (k, r\<lparr>dr_netmask := field SUBNET_MASK (dr_netmask r), dr_router := field ROUTER (dr_router r),
               dr_dns := field DNS (dr_dns r), dr_server := field SERVER_ID (dr_server r),
               dr_lease_secs := (case map_of opts LEASE_TIME of None \<Rightarrow> dr_lease_secs r
                 | Some v \<Rightarrow> if length v = 4 then Some (lease_of v) else dr_lease_secs r)\<rparr>))"

lemma dhcp_spec_Cons:
  assumes "c \<notin> set (map fst opts)"
  shows "dhcp_spec opts (dhcp_apply c v kr) = dhcp_spec ((c, v) # opts) kr"
proof -
  have n: "map_of opts c = None" using assms by (simp add: map_of_eq_None_iff)
  obtain k r where kr: "kr = (k, r)" by fastforce
  consider "c = MESSAGE_TYPE" | "c = SUBNET_MASK" | "c = ROUTER" | "c = DNS" | "c = SERVER_ID" | "c = LEASE_TIME"
    | "c \<notin> {MESSAGE_TYPE, SUBNET_MASK, ROUTER, DNS, SERVER_ID, LEASE_TIME}" by blast
  then show ?thesis using n unfolding dhcp_spec_def dhcp_apply_def Let_def kr
    by cases (simp_all cong: option.case_cong if_cong)
qed

lemma dhcp_fold_spec:
  "distinct (map fst opts) \<Longrightarrow> fold (\<lambda>(c, v). dhcp_apply c v) opts kr = dhcp_spec opts kr"
proof (induction opts arbitrary: kr)
  case Nil
  then show ?case by (simp add: dhcp_spec_def Let_def)
next
  case (Cons cv opts)
  then show ?case using dhcp_spec_Cons [of "fst cv" opts "snd cv" kr] by (simp add: split_beta)
qed

lemma lease_of_from_be: "length v = 4 \<Longrightarrow> lease_of v = from_be v"
proof -
  assume "length v = 4"
  then obtain a b c d where v: "v = [a, b, c, d]" by (auto simp: length_Suc_conv eval_nat_numeral)
  show ?thesis
  proof (rule bit_word_eqI)
    fix n assume "n < LENGTH(32)"
    then show "bit (lease_of v) n = bit (from_be v :: u32) n"
      by (auto simp: lease_of_def from_be_def v bit_or_iff bit_push_bit_iff bit_ucast_iff dest: bit_imp_le_length)
  qed
qed

subsubsection \<open>DNS names and records\<close>

lemma short_label:
  assumes "0 < length label" and "length label \<le> 63"
  shows "of_nat (length label) \<noteq> (0 :: u8)" and "(of_nat (length label) :: u8) AND 0xC0 = 0"
    and "unat (of_nat (length label) :: u8) = length label"
proof -
  show u: "unat (of_nat (length label) :: u8) = length label" using assms(2) by (simp add: unat_of_nat)
  show "of_nat (length label) \<noteq> (0 :: u8)" using u assms(1) by force
  have "take_bit 6 (of_nat (length label) :: u8) = of_nat (length label)"
    using assms(2) by (simp add: take_bit_of_nat take_bit_nat_eq_self)
  moreover have "take_bit 6 x AND 0xC0 = 0" for x :: u8
    by (simp add: take_bit_eq_mask mask_eq_exp_minus_1 and.assoc)
  ultimately show "(of_nat (length label) :: u8) AND 0xC0 = 0" by metis
qed

lemma skip_labels:
  assumes "dns_labels labels = Some bs" and "length labels < n"
  shows "skip_name n (p @ bs @ 0 # r) (length p) = Some (length p + length bs + 1)"
  using assms
proof (induction labels arbitrary: n p bs)
  case Nil
  then show ?case by (cases n) (simp_all add: get_at_append get_at_Cons)
next
  case (Cons label labels)
  then obtain n' where n: "n = Suc n'" "length labels < n'" by (cases n) auto
  from Cons.prems(1) obtain rest where
    lab: "0 < length label" "length label \<le> 63" "dns_labels labels = Some rest" "bs = of_nat (length label) # label @ rest"
    by (auto simp: MAX_LABEL_def split: if_splits)
  let ?p = "p @ of_nat (length label) # label"
  have "get_at (p @ bs @ 0 # r) (length p) = Some (of_nat (length label))"
    by (simp add: lab(4) get_at_append get_at_Cons)
  then have "skip_name n (p @ bs @ 0 # r) (length p) = skip_name n' (p @ bs @ 0 # r) (length p + (1 + length label))"
    by (simp add: n(1) short_label [OF lab(1,2)])
  also have "\<dots> = skip_name n' (?p @ rest @ 0 # r) (length ?p)" by (simp add: lab(4))
  also have "\<dots> = Some (length ?p + length rest + 1)" using Cons.IH [OF lab(3) n(2)] .
  finally show ?case by (simp add: lab(4))
qed

lemma skip_pointer:
  assumes "get_at bytes at = Some 0xC0" and "at + 2 \<le> length bytes"
  shows "skip_name DNS_MAX_NAME bytes at = Some (at + 2)"
proof -
  have "DNS_MAX_NAME = Suc 252" by (simp add: DNS_MAX_NAME_def)
  then show ?thesis unfolding \<open>DNS_MAX_NAME = Suc 252\<close> skip_name.simps(2) using assms by simp
qed

lemma dns_labels_length: "dns_labels labels = Some bs \<Longrightarrow>
    length bs = sum_list (map length labels) + length labels \<and> length labels \<le> sum_list (map length labels)"
proof (induction labels arbitrary: bs)
  case (Cons label labels)
  then show ?case by (cases label) (auto split: if_splits)
qed simp

lemma split_on_length: "sum_list (map length (split_on d s)) + length (split_on d s) = length s + 1"
proof (induction s)
  case (Cons b s)
  then show ?case by (cases "split_on d s") auto
qed simp

lemma dns_query_question:
  assumes "dns_query name ident = Some q"
  obtains bs where "q = to_be 2 ident @ to_be 2 RECURSION_DESIRED @ [0, 1, 0, 0, 0, 0, 0, 0] @ bs @ [0, 0, 1, 0, 1]"
    and "length bs = length (trim_end_dots name) + 1" "length bs \<le> 254"
    and "\<And>p r. skip_name DNS_MAX_NAME (p @ bs @ 0 # r) (length p) = Some (length p + length bs + 1)"
proof -
  obtain bs where q: "dns_labels (split_on 46 (trim_end_dots name)) = Some bs" "length (trim_end_dots name) \<le> 253"
    "q = to_be 2 ident @ to_be 2 RECURSION_DESIRED @ [0, 1, 0, 0, 0, 0, 0, 0] @ bs @ [0] @ to_be 2 TYPE_A @ to_be 2 CLASS_IN"
    using assms by (auto simp: dns_query_def Let_def DNS_MAX_NAME_def split: if_splits)
  note len = dns_labels_length [OF q(1)] split_on_length [of 46 "trim_end_dots name"]
  have "length (split_on 46 (trim_end_dots name)) < DNS_MAX_NAME" using len q(2) by (simp add: DNS_MAX_NAME_def)
  then have "skip_name DNS_MAX_NAME (p @ bs @ 0 # r) (length p) = Some (length p + length bs + 1)" for p r
    by (rule skip_labels [OF q(1)])
  moreover have "q = to_be 2 ident @ to_be 2 RECURSION_DESIRED @ [0, 1, 0, 0, 0, 0, 0, 0] @ bs @ [0, 0, 1, 0, 1]"
    by (simp add: q(3) to_be_2 TYPE_A_def CLASS_IN_def)
  moreover have "length bs = length (trim_end_dots name) + 1" "length bs \<le> 254" using len q(2) by simp_all
  ultimately show ?thesis using that by blast
qed

type_synonym resource = "u16 \<times> u16 \<times> byte list \<times> byte list"

fun resource_bytes :: "resource \<Rightarrow> byte list" where
  \<comment> \<open>a record as servers send it: the name as a pointer to the question, type, cls, 4 bytes of
     time to live, the data with its length\<close>
  "resource_bytes (ty, cls, ttl, data) =
     [0xC0, 12] @ to_be 2 ty @ to_be 2 cls @ ttl @ to_be 2 (of_nat (length data) :: u16) @ data"

fun resource_address :: "resource \<Rightarrow> ipv4 list" where
  "resource_address (ty, cls, ttl, data) =
     (if ty = TYPE_A \<and> cls = CLASS_IN \<and> length data = 4 then [Ipv4 (data ! 0) (data ! 1) (data ! 2) (data ! 3)] else [])"

fun resource_ok :: "resource \<Rightarrow> bool" where
  "resource_ok (ty, cls, ttl, data) \<longleftrightarrow> length ttl = 4 \<and> length data < 65536"

lemma dns_answers_encoded:
  assumes "\<forall>r \<in> set rs. resource_ok r"
  shows "dns_answers (length rs) (p @ concat (map resource_bytes rs) @ junk) (length p) acc
    = Some (Some (acc @ concat (map resource_address rs)))"
  using assms
proof (induction rs arbitrary: p acc)
  case (Cons r rs)
  obtain ty cls ttl data where r: "r = (ty, cls, ttl, data)" by (cases r)
  with Cons.prems have ok: "length ttl = 4" "length data < 65536" by auto
  let ?len = "of_nat (length data) :: u16"
  let ?head = "to_be 2 ty @ to_be 2 cls @ ttl @ to_be 2 ?len"
  let ?rest = "concat (map resource_bytes rs) @ junk"
  let ?bytes = "p @ [0xC0, 12] @ ?head @ data @ ?rest"
  have b: "p @ concat (map resource_bytes (r # rs)) @ junk = ?bytes" by (simp add: r)
  have "skip_name DNS_MAX_NAME ?bytes (length p) = Some (length p + 2)"
    by (rule skip_pointer) (simp_all add: get_at_append get_at_Cons)
  moreover have "get_range ?bytes (length p + 2) (length p + 2 + 10) = Some ?head"
    using ok by (simp add: get_range_def slice_def)
  moreover have "get_range ?bytes (length p + 2 + 10) (length p + 2 + 10 + length data) = Some data"
    using ok by (simp add: get_range_def slice_def)
  moreover have "u16_at ?head 0 = Some ty" "u16_at ?head 2 = Some cls" "u16_at ?head 8 = Some ?len"
    using ok by (simp_all add: to_be_2 u16_at_def get_at_Cons get_at_append)
  moreover have "unat ?len = length data" using ok by (simp add: unat_of_nat)
  moreover have "length data = 4 \<Longrightarrow> ipv4_at data 0 = Some (Ipv4 (data ! 0) (data ! 1) (data ! 2) (data ! 3))"
    by (simp add: ipv4_at_def get_at_def eval_nat_numeral)
  ultimately have "dns_answers (length (r # rs)) ?bytes (length p) acc
      = dns_answers (length rs) ?bytes (length p + 2 + (10 + length data)) (acc @ resource_address r)"
    by (simp add: r cong: if_cong)
  also have "length p + 2 + (10 + length data) = length (p @ [0xC0, 12] @ ?head @ data)" using ok by simp
  also have "dns_answers (length rs) ?bytes (length (p @ [0xC0, 12] @ ?head @ data)) (acc @ resource_address r)
      = Some (Some (acc @ resource_address r @ concat (map resource_address rs)))"
    using Cons.IH [of "p @ [0xC0, 12] @ ?head @ data" "acc @ resource_address r"] Cons.prems by simp
  finally show ?case unfolding b by simp
qed simp

subsubsection \<open>The controller's framing\<close>

fun rx_wrapped :: "u32 \<times> byte list \<times> byte list \<Rightarrow> byte list" where
  \<comment> \<open>a frame as the controller delivers it: command A (whose low 14 bits are the size), 6 bytes of
     commands B and C, the frame with its FCS, padding\<close>
  "rx_wrapped (cmd_a, bc, frame) =
     to_le 4 cmd_a @ bc @ frame @ replicate ((4 - (length frame + 2) mod 4) mod 4) 0"

fun rx_good :: "u32 \<times> byte list \<times> byte list \<Rightarrow> byte list list" where
  "rx_good (cmd_a, bc, frame) =
     (if cmd_a AND RX_CMD_A_ERROR = 0 \<and> length frame > 4 then [take (length frame - 4) frame] else [])"

fun rx_ok :: "u32 \<times> byte list \<times> byte list \<Rightarrow> bool" where
  "rx_ok (cmd_a, bc, frame) \<longleftrightarrow> length bc = 6 \<and> unat (cmd_a AND RX_CMD_A_LEN) = length frame"

lemma lan_rx_encoded:
  assumes "\<forall>f \<in> set fs. rx_ok f" and "length junk < 10"
  shows "lan_rx_loop (p @ concat (map rx_wrapped fs) @ junk) (length p) acc = acc @ concat (map rx_good fs)"
  using assms
proof (induction fs arbitrary: p acc)
  case Nil
  then show ?case by (subst lan_rx_loop.simps) (simp add: RX_HEADER_def)
next
  case (Cons f fs)
  obtain cmd_a bc frame where f: "f = (cmd_a, bc, frame)" by (cases f)
  with Cons.prems have ok: "length bc = 6" "unat (cmd_a AND RX_CMD_A_LEN) = length frame" by auto
  let ?n = "length frame"
  define k where "k = (4 - (?n + 2) mod 4) mod 4"
  let ?pad = "replicate k (0 :: byte)"
  let ?rest = "concat (map rx_wrapped fs) @ junk"
  let ?t = "p @ to_le 4 cmd_a @ bc @ frame @ ?pad @ ?rest"
  have b: "p @ concat (map rx_wrapped (f # fs)) @ junk = ?t" by (simp add: f k_def)
  have in_range: "length p + 10 \<le> length ?t" "\<not> length p + 10 + ?n > length ?t" using ok by simp_all
  have cmd: "from_le (slice (length p) (length p + 4) ?t) = cmd_a" by (simp add: slice_def from_le_to_le)
  have payload: "4 < ?n \<Longrightarrow> slice (length p + 10) (length p + 10 + ?n - 4) ?t = take (?n - 4) frame"
    using ok(1) by (simp add: slice_def)
  have h: "RX_HEADER = 10" "FCS = 4" by (simp_all add: RX_HEADER_def FCS_def)
  have "lan_rx_loop ?t (length p) acc = lan_rx_loop ?t (length p + 10 + ?n + k) (acc @ rx_good f)"
    unfolding lan_rx_loop.simps [of ?t "length p" acc] h if_P [OF in_range(1)] Let_def cmd ok(2)
      if_not_P [OF in_range(2)] k_def [symmetric]
    by (cases "cmd_a AND RX_CMD_A_ERROR = 0 \<and> ?n > 4") (simp_all only: payload f rx_good.simps if_True if_False append_Nil2 simp_thms)
  also have "length p + 10 + ?n + k = length (p @ to_le 4 cmd_a @ bc @ frame @ ?pad)" using ok by simp
  also have "lan_rx_loop ?t (length (p @ to_le 4 cmd_a @ bc @ frame @ ?pad)) (acc @ rx_good f)
      = acc @ rx_good f @ concat (map rx_good fs)"
    using Cons.IH [of "p @ to_le 4 cmd_a @ bc @ frame @ ?pad" "acc @ rx_good f"] Cons.prems by simp
  finally show ?case unfolding b by simp
qed

subsubsection \<open>SNTP\<close>

lemma u32_pair_in:
  assumes "at + 4 \<le> length bs"
  shows "u32_pair bs at = Some (ucast (from_be (slice at (at + 4) bs) :: u32))"
proof -
  have s: "slice at (at + 4) bs = [bs ! at, bs ! (at + 1), bs ! (at + 2), bs ! (at + 2 + 1)]"
    using assms by (intro nth_equalityI) (auto simp: slice_def nth_Cons numeral_eq_Suc split: nat.splits)
  have "push_bit 16 (ucast (from_be [a, b] :: u16)) OR ucast (from_be [c, d] :: u16)
      = (ucast (from_be [a, b, c, d] :: u32) :: u64)" for a b c d
    by (rule bit_word_eqI)
       (auto simp: from_be_def bit_or_iff bit_push_bit_iff bit_ucast_iff dest: bit_imp_le_length)
  then show ?thesis using assms by (simp add: u32_pair_def u16_at_in s)
qed

lemma sntp_arith:
  fixes s f :: u32 and rtt :: u64
  assumes "2208988800 \<le> unat s"
  shows "\<not> (ucast s :: u64) < UNIX_OFFSET"
    and "unat ((ucast s - UNIX_OFFSET) * 1000000 + drop_bit 32 (ucast f * 1000000 :: u64) + rtt div 2)
      = (unat s - 2208988800) * 1000000 + unat f * 1000000 div 2 ^ 32 + unat rtt div 2"
proof -
  have us: "unat (ucast s :: u64) = unat s" "unat (ucast f :: u64) = unat f" by (simp_all add: unat_ucast_up)
  have o: "unat UNIX_OFFSET = 2208988800" by (simp add: UNIX_OFFSET_def)
  show le: "\<not> (ucast s :: u64) < UNIX_OFFSET" using assms by (simp add: word_less_nat_alt us o)
  have "unat (ucast s - UNIX_OFFSET :: u64) = unat s - 2208988800" using le by (simp add: unat_sub us o)
  moreover have "(unat s - 2208988800) * 1000000 < 2 ^ 53"
  proof -
    have "unat s - 2208988800 < 4294967296" using unat_u32_less [of s] by linarith
    then show ?thesis by simp
  qed
  ultimately have a: "unat ((ucast s - UNIX_OFFSET :: u64) * 1000000) = (unat s - 2208988800) * 1000000"
    by (subst unat_word_ariths(2)) simp
  have "unat f * 1000000 < 2 ^ 53"
  proof -
    have "unat f * 1000000 < 4294967296 * 1000000" using unat_u32_less [of f] by (intro mult_strict_right_mono) auto
    also have "4294967296 * 1000000 < (2 :: nat) ^ 53" by simp
    finally show ?thesis .
  qed
  then have "unat (ucast f * 1000000 :: u64) = unat f * 1000000" by (simp add: unat_word_ariths(2) us)
  then have b: "unat (drop_bit 32 (ucast f * 1000000 :: u64)) = unat f * 1000000 div 2 ^ 32"
    by (simp add: drop_bit_eq_div unat_div)
  have c: "unat (rtt div 2) = unat rtt div 2" by (simp add: unat_div)
  have "(unat s - 2208988800) * 1000000 + unat f * 1000000 div 2 ^ 32 + unat rtt div 2 < 2 ^ 64"
  proof -
    have "unat rtt div 2 < 2 ^ 63" using unat_bound [of rtt] by simp
    moreover have "unat f * 1000000 div 2 ^ 32 < 2 ^ 53" using \<open>unat f * 1000000 < 2 ^ 53\<close> by (rule order_le_less_trans [OF div_le_dividend])
    ultimately show ?thesis using \<open>(unat s - 2208988800) * 1000000 < 2 ^ 53\<close> by simp
  qed
  then show "unat ((ucast s - UNIX_OFFSET) * 1000000 + drop_bit 32 (ucast f * 1000000 :: u64) + rtt div 2)
      = (unat s - 2208988800) * 1000000 + unat f * 1000000 div 2 ^ 32 + unat rtt div 2"
    by (simp only: unat_word_ariths(1) a b c) simp
qed

subsection \<open>Properties\<close>

text \<open>what a DHCP reply says is read field by field: with the options in any order (each at
  most once, unknown ones among them, anything after the end), the address, the kind and each option
  are taken for what the server put there; a reply to another transaction is refused.\<close>
theorem dhcp_reads_reply:
  fixes hdr junk :: "byte list" and opts :: "(u8 \<times> byte list) list" and xid xid' :: u32 and mac :: mac
  assumes "length hdr = 236" and "hdr ! 0 = 2" and "slice 4 8 hdr = to_be 4 xid" and "slice 28 34 hdr = mac_bytes mac"
    and "\<forall>(c, v) \<in> set opts. c \<noteq> PAD \<and> c \<noteq> END_OPTION \<and> length v < 256" and "distinct (map fst opts)"
    and "map_of opts MESSAGE_TYPE = Some [dhcp_code kind]" and "kind \<in> {Offer, Ack, Nak}"
  defines "bytes \<equiv> hdr @ DHCP_MAGIC @ concat (map dhcp_option opts) @ END_OPTION # junk"
  shows "dhcp_parse_reply bytes xid mac = Some (Some \<lparr>
      dr_kind = kind, dr_address = Ipv4 (hdr ! 16) (hdr ! 17) (hdr ! 18) (hdr ! 19),
      dr_server = Option.bind (map_of opts SERVER_ID) addr_of, dr_netmask = Option.bind (map_of opts SUBNET_MASK) addr_of,
      dr_router = Option.bind (map_of opts ROUTER) addr_of, dr_dns = Option.bind (map_of opts DNS) addr_of,
      dr_lease_secs = Option.bind (map_of opts LEASE_TIME) (\<lambda>v. if length v = 4 then Some (from_be v) else None)\<rparr>)
    \<and> (xid' \<noteq> xid \<longrightarrow> dhcp_parse_reply bytes xid' mac = Some None)"
proof
  have len: "240 \<le> length bytes" by (simp add: bytes_def assms(1) DHCP_MAGIC_def)
  have reads: "get_at bytes 0 = Some 2" "get_range bytes 4 8 = Some (to_be 4 xid)"
    "get_range bytes 28 34 = Some (mac_bytes mac)" "get_range bytes 236 240 = Some DHCP_MAGIC"
    "ipv4_at bytes 16 = Some (Ipv4 (hdr ! 16) (hdr ! 17) (hdr ! 18) (hdr ! 19))"
    using assms(1-4) len
    by (simp_all add: get_at_def get_range_def ipv4_at_in, simp_all add: bytes_def nth_append slice_def DHCP_MAGIC_def)
  let ?r0 = "\<lparr>dr_kind = Offer, dr_address = Ipv4 (hdr ! 16) (hdr ! 17) (hdr ! 18) (hdr ! 19), dr_server = None,
    dr_netmask = None, dr_router = None, dr_dns = None, dr_lease_secs = None\<rparr>"
  have "dhcp_options bytes 240 (None, ?r0) = Some (Some (dhcp_spec opts (None, ?r0)))"
    using dhcp_options_encoded [OF assms(5), of "hdr @ DHCP_MAGIC" junk "(None, ?r0)"]
    by (simp add: bytes_def assms(1) DHCP_MAGIC_def dhcp_fold_spec [OF assms(6)])
  moreover have "kind_of [dhcp_code kind] = Some kind" using assms(8) by (auto simp: kind_of_def)
  ultimately show "dhcp_parse_reply bytes xid mac = Some (Some \<lparr>
      dr_kind = kind, dr_address = Ipv4 (hdr ! 16) (hdr ! 17) (hdr ! 18) (hdr ! 19),
      dr_server = Option.bind (map_of opts SERVER_ID) addr_of, dr_netmask = Option.bind (map_of opts SUBNET_MASK) addr_of,
      dr_router = Option.bind (map_of opts ROUTER) addr_of, dr_dns = Option.bind (map_of opts DNS) addr_of,
      dr_lease_secs = Option.bind (map_of opts LEASE_TIME) (\<lambda>v. if length v = 4 then Some (from_be v) else None)\<rparr>)"
    using len reads assms(7)
    by (simp add: dhcp_parse_reply_def DHCP_FIXED_def dhcp_spec_def Let_def lease_of_from_be Option.bind_def
        split: option.splits)
  have "to_be 4 xid \<noteq> to_be 4 xid'" if "xid' \<noteq> xid" using that from_be_to_be [of 4 xid] from_be_to_be [of 4 xid'] by auto
  then show "xid' \<noteq> xid \<longrightarrow> dhcp_parse_reply bytes xid' mac = Some None"
    using len reads by (simp add: dhcp_parse_reply_def DHCP_FIXED_def)
qed

definition dhcp_example :: "byte list" where
  \<comment> \<open>a server's fixed fields: an answer to transaction 7 for the address 0\<close>
  "dhcp_example = [2, 1, 6, 0, 0, 0, 0, 7] @ replicate 8 0 @ [10, 0, 0, 9] @ replicate 216 0"

theorem dhcp_reads_reply_witness:
  "dhcp_parse_reply (dhcp_example @ DHCP_MAGIC @ concat (map dhcp_option [(54, [10, 0, 0, 1]), (53, [5])]) @ 255 # []) 7 MAC_DEFAULT
   = Some (Some \<lparr>dr_kind = Ack, dr_address = Ipv4 10 0 0 9, dr_server = Some (Ipv4 10 0 0 1), dr_netmask = None,
       dr_router = None, dr_dns = None, dr_lease_secs = None\<rparr>)"
proof -
  have e: "length dhcp_example = 236" "dhcp_example ! 0 = 2" "slice 4 8 dhcp_example = to_be 4 (7 :: u32)"
    "slice 28 34 dhcp_example = mac_bytes MAC_DEFAULT"
    "Ipv4 (dhcp_example ! 16) (dhcp_example ! 17) (dhcp_example ! 18) (dhcp_example ! 19) = Ipv4 10 0 0 9"
    by (code_simp, code_simp, code_simp, code_simp, code_simp)
  show ?thesis
    using dhcp_reads_reply [OF e(1-4), of "[(54, [10, 0, 0, 1]), (53, [5])]" Ack "[]" 7]
    unfolding e(5) by (simp add: addr_of_def)
qed

text \<open>a DNS query is a question its own parser walks to the end of, at most 271 bytes long; a
  server's answer to it (the question repeated, any records after it) gives exactly the addresses of
  its IPv4 address records, in order, and an answer to another query is not taken.\<close>
theorem dns_query_answered:
  fixes flags :: u16 and rs :: "resource list" and junk :: "byte list"
  assumes "dns_query name ident = Some q" and "\<forall>r \<in> set rs. resource_ok r" and "length rs < 65536"
    and "flags AND RESPONSE \<noteq> 0" and "flags AND 0xF = 0"
  defines "answer \<equiv> to_be 2 ident @ to_be 2 flags @ [0, 1] @ to_be 2 (of_nat (length rs) :: u16) @ [0, 0, 0, 0]
    @ drop 12 q @ concat (map resource_bytes rs) @ junk"
  shows "length q \<le> 271 \<and> dns_questions 1 q DNS_HEADER = Some (length q)
    \<and> dns_parse answer ident = Some (Some (Addresses (concat (map resource_address rs))))
    \<and> (ident' \<noteq> ident \<longrightarrow> dns_parse answer ident' = Some None)"
proof -
  obtain bs where q: "q = to_be 2 ident @ to_be 2 RECURSION_DESIRED @ [0, 1, 0, 0, 0, 0, 0, 0] @ bs @ [0, 0, 1, 0, 1]"
    and len: "length bs \<le> 254"
    and skip: "\<And>p r. skip_name DNS_MAX_NAME (p @ bs @ 0 # r) (length p) = Some (length p + length bs + 1)"
    using dns_query_question [OF assms(1)] by metis
  let ?h = "to_be 2 ident @ to_be 2 flags @ [0, 1] @ to_be 2 (of_nat (length rs) :: u16) @ [0, 0, 0, 0]"
  let ?q = "?h @ bs @ [0, 0, 1, 0, 1]"
  have one: "from_be [0, 1] = (1 :: u16)" by code_simp
  have a: "answer = ?q @ concat (map resource_bytes rs) @ junk" by (simp add: answer_def q)
  have "dns_questions 1 q DNS_HEADER = Some (length q)"
    using skip [of "to_be 2 ident @ to_be 2 RECURSION_DESIRED @ [0, 1, 0, 0, 0, 0, 0, 0]" "[0, 1, 0, 1]"]
    by (simp add: q DNS_HEADER_def)
  moreover have quest: "dns_questions 1 answer DNS_HEADER = Some (length ?q)"
    using skip [of ?h "[0, 1, 0, 1] @ concat (map resource_bytes rs) @ junk"] by (simp add: a DNS_HEADER_def)
  moreover have "dns_answers (length rs) answer (length ?q) [] = Some (Some (concat (map resource_address rs)))"
    using dns_answers_encoded [OF assms(2), of ?q junk "[]"] unfolding a by (simp only: append_Nil)
  moreover have reads: "u16_at answer 0 = Some ident" "u16_at answer 2 = Some flags" "u16_at answer 4 = Some 1"
    "u16_at answer 6 = Some (of_nat (length rs))" "12 \<le> length answer"
    by (simp_all add: a to_be_2 u16_at_def get_at_Cons one)
  moreover have "unat (of_nat (length rs) :: u16) = length rs" using assms(3) by (simp add: unat_of_nat)
  ultimately have "dns_parse answer ident = Some (Some (Addresses (concat (map resource_address rs))))"
    using assms(4,5) by (simp add: dns_parse_def DNS_HEADER_def)
  moreover have "ident' \<noteq> ident \<longrightarrow> dns_parse answer ident' = Some None"
    using reads by (simp add: dns_parse_def DNS_HEADER_def)
  moreover have "length q \<le> 271" using len by (simp add: q)
  ultimately show ?thesis using \<open>dns_questions 1 q DNS_HEADER = Some (length q)\<close> by blast
qed

theorem dns_query_answered_witness:
  "dns_query (ascii ''pi'') 5 = Some [0, 5, 1, 0, 0, 1, 0, 0, 0, 0, 0, 0, 2, 112, 105, 0, 0, 1, 0, 1]
   \<and> dns_parse (to_be 2 (5 :: u16) @ to_be 2 (0x8180 :: u16) @ [0, 1] @ to_be 2 (of_nat 1 :: u16) @ [0, 0, 0, 0]
        @ drop 12 [0, 5, 1, 0, 0, 1, 0, 0, 0, 0, 0, 0, 2, 112, 105, 0, 0, 1, 0, 1]
        @ concat (map resource_bytes [(1, 1, [0, 0, 0, 9], [10, 0, 0, 7])]) @ []) 5
      = Some (Some (Addresses [Ipv4 10 0 0 7]))"
proof -
  have q: "dns_query (ascii ''pi'') 5 = Some [0, 5, 1, 0, 0, 1, 0, 0, 0, 0, 0, 0, 2, 112, 105, 0, 0, 1, 0, 1]"
    by code_simp
  have f: "(0x8180 :: u16) AND RESPONSE \<noteq> 0" "(0x8180 :: u16) AND 0xF = 0"
    by (simp_all add: RESPONSE_def)
  show ?thesis
    using dns_query_answered [OF q, of "[(1, 1, [0, 0, 0, 9], [10, 0, 0, 7])]" "0x8180" "[]" 5] f q
    by (simp add: TYPE_A_def CLASS_IN_def)
qed

text \<open>the time an SNTP answer gives, in microseconds, is exact and never wraps around whatever
  the answer and the round trip are; an answer before 1970, to another request, in another mode or
  from a server that refuses (stratum 0) gives none.\<close>
theorem sntp_time:
  fixes bytes :: "byte list" and cookie rtt :: u64
  assumes "48 \<le> length bytes"
  defines "s \<equiv> from_be (slice 40 44 bytes) :: u32" and "f \<equiv> from_be (slice 44 48 bytes) :: u32"
    and "answers \<equiv> bytes ! 0 AND 7 = 4 \<and> bytes ! 1 \<noteq> 0 \<and> slice 24 32 bytes = to_be 8 cookie"
  shows "if answers \<and> 2208988800 \<le> unat s
    then \<exists>t. sntp_parse bytes cookie rtt = Some (Some t)
      \<and> unat t = (unat s - 2208988800) * 1000000 + unat f * 1000000 div 2 ^ 32 + unat rtt div 2
    else sntp_parse bytes cookie rtt = Some None"
proof -
  have reads: "get_at bytes 0 = Some (bytes ! 0)" "get_at bytes 1 = Some (bytes ! 1)"
    "get_range bytes 24 32 = Some (slice 24 32 bytes)" "u32_pair bytes 40 = Some (ucast s)" "u32_pair bytes 44 = Some (ucast f)"
    using assms(1) u32_pair_in [of 40 bytes] u32_pair_in [of 44 bytes]
    by (auto simp: get_at_def get_range_def s_def f_def)
  have p: "sntp_parse bytes cookie rtt = Some (if \<not> answers \<or> (ucast s :: u64) < UNIX_OFFSET then None
      else Some ((ucast s - UNIX_OFFSET) * 1000000 + drop_bit 32 (ucast f * 1000000) + rtt div 2))"
    unfolding sntp_parse_def reads bind.bind_lunit
    using assms(1) by (auto simp: SNTP_LENGTH_def MODE_SERVER_def answers_def)
  have "(ucast s :: u64) < UNIX_OFFSET \<longleftrightarrow> unat s < 2208988800"
    by (simp add: word_less_nat_alt unat_ucast_up UNIX_OFFSET_def)
  then show ?thesis unfolding p using sntp_arith(2) [of s f rtt] by auto
qed

theorem sntp_time_witness:
  "sntp_parse (replicate 48 0) 1 5 = Some None"
  using sntp_time [of "replicate 48 0" 1 5] by simp

text \<open>every frame in a transfer from the controller comes out, in order and without its FCS,
  except those marked bad or too short; a rest too short for a header is ignored.\<close>
theorem lan_rx_frames:
  assumes "\<forall>f \<in> set fs. rx_ok f" and "length junk < 10"
  shows "lan_rx (concat (map rx_wrapped fs) @ junk) = concat (map rx_good fs)"
  using lan_rx_encoded [OF assms, of "[]" "[]"] by (simp add: lan_rx_def)

theorem lan_rx_frames_witness:
  "lan_rx (concat (map rx_wrapped [(6, replicate 6 0, [1, 2, 9, 9, 9, 9]), (0x400005, replicate 6 0, [1, 9, 9, 9, 9])]) @ [0, 0])
   = [[1, 2]]"
  using lan_rx_frames [of "[(6, replicate 6 0, [1, 2, 9, 9, 9, 9]), (0x400005, replicate 6 0, [1, 9, 9, 9, 9])]" "[0, 0]"]
  by (simp add: RX_CMD_A_LEN_def RX_CMD_A_ERROR_def)

end
