(* ===== verification/Net_Iface.thy ===== *)
theory Net_Iface
  imports Net_Proto Net_Apps
begin

text \<open>
  One network interface, \<open>rustypi-core/src/net/interface.rs\<close>: ARP, ping, the DHCP client's state
  machine and UDP. Frames go in through \<open>iface_receive\<close> and come out as results. Times are
  microseconds (a 64-bit counter that lasts half a million years, here a \<open>nat\<close>). A frame is a list
  of bytes; \<open>None\<close> is a panic.
\<close>

subsection \<open>State\<close>

record config =
  cf_address :: ipv4
  cf_netmask :: ipv4
  cf_gateway :: "ipv4 option"
  cf_dns :: "ipv4 option"
  cf_lease_secs :: u32

datatype net_event =
    Configured config
  | Unconfigured
  | PingReply ipv4 u16 nat
  | UdpArrived ipv4 u16 u16 "byte list"

definition DHCP_RETRY_US :: nat where "DHCP_RETRY_US = 4000000"
definition DHCP_REQUEST_TRIES :: nat where "DHCP_REQUEST_TRIES = 3"
definition MIN_RENEW_US :: nat where "MIN_RENEW_US = 60000000"
definition ARP_RETRY_US :: nat where "ARP_RETRY_US = 1000000"
definition ARP_GIVE_UP_US :: nat where "ARP_GIVE_UP_US = 3000000"
definition ARP_CACHE :: nat where "ARP_CACHE = 16"
definition PING_TIMEOUT_US :: nat where "PING_TIMEOUT_US = 10000000"

datatype dhcp_state =
    Discovering (ds_xid: u32) (ds_next_try: nat)
  | Requesting (ds_xid: u32) (ds_offered: ipv4) (ds_server: ipv4) (ds_next_try: nat) (ds_tries: nat)
  | Bound (ds_server: ipv4) (ds_renew_at: nat)

record waiting =
  wt_next_hop :: ipv4
  wt_packet :: "byte list"
  wt_queued_at :: nat
  wt_asked_at :: nat

record iface =
  if_mac :: mac
  if_config :: "config option"
  if_dhcp :: dhcp_state
  if_arp :: "(ipv4 \<times> mac) list"
  if_waiting :: "waiting list"
  if_next_id :: u16
  if_ping_id :: u16
  if_pings :: "(u16 \<times> nat) list"
  if_events :: "net_event list"
  if_random :: u32

type_synonym frames_out = "byte list list"

definition iface_new :: "mac \<Rightarrow> u32 \<Rightarrow> iface" where
  "iface_new mac seed =
     \<lparr>if_mac = mac, if_config = None, if_dhcp = Discovering seed 0, if_arp = [], if_waiting = [],
      if_next_id = ucast seed, if_ping_id = ucast (drop_bit 16 seed), if_pings = [], if_events = [],
      if_random = seed OR 1\<rparr>"

definition take_events :: "iface \<Rightarrow> net_event list \<times> iface" where
  "take_events i = (if_events i, i\<lparr>if_events := []\<rparr>)"

definition next_xid :: "iface \<Rightarrow> u32 \<times> iface" where
  "next_xid i =
     (let r1 = if_random i XOR push_bit 13 (if_random i);
          r2 = r1 XOR drop_bit 17 r1;
          r3 = r2 XOR push_bit 5 r2
      in (r3, i\<lparr>if_random := r3\<rparr>))"

definition take_id :: "iface \<Rightarrow> u16 \<times> iface" where
  "take_id i = (if_next_id i + 1, i\<lparr>if_next_id := if_next_id i + 1\<rparr>)"

definition awaiting :: "iface \<Rightarrow> bool" where
  "awaiting i \<longleftrightarrow> if_pings i \<noteq> [] \<or> if_waiting i \<noteq> []"

subsection \<open>Sending\<close>

definition dhcp_frame :: "byte list \<Rightarrow> iface \<Rightarrow> byte list \<times> iface" where
  "dhcp_frame message i =
     (let datagram = udp_build UNSPECIFIED CLIENT_PORT BROADCAST SERVER_PORT message;
          (ident, i') = take_id i;
          packet = ipv4_build UNSPECIFIED BROADCAST IP_UDP ident datagram
      in (ethernet_build MAC_BROADCAST (if_mac i) ETH_IPV4 packet, i'))"

definition arp_request :: "ipv4 \<Rightarrow> iface \<Rightarrow> byte list option" where
  "arp_request ip i =
     (case if_config i of
        None \<Rightarrow> None
      | Some config \<Rightarrow>
          Some (ethernet_build MAC_BROADCAST (if_mac i) ETH_ARP
            (arp_to_bytes \<lparr>arp_op = ARP_REQUEST, arp_sender_mac = if_mac i, arp_sender_ip = cf_address config,
                           arp_target_mac = MAC_DEFAULT, arp_target_ip = ip\<rparr>)))"

definition arp_lookup :: "ipv4 \<Rightarrow> iface \<Rightarrow> mac option" where
  "arp_lookup ip i = map_option snd (List.find (\<lambda>(known, _). known = ip) (rev (if_arp i)))"

definition learn :: "ipv4 \<Rightarrow> mac \<Rightarrow> iface \<Rightarrow> frames_out \<times> iface" where
  "learn ip mac i =
     (let arp1 = filter (\<lambda>(known, _). known \<noteq> ip) (if_arp i);
          arp2 = (if length arp1 = ARP_CACHE then tl arp1 else arp1) @ [(ip, mac)];
          (ready, still) = partition (\<lambda>w. wt_next_hop w = ip) (if_waiting i)
      in (map (\<lambda>w. ethernet_build mac (if_mac i) ETH_IPV4 (wt_packet w)) ready,
          i\<lparr>if_arp := arp2, if_waiting := still\<rparr>))"

definition send_ip :: "ipv4 \<Rightarrow> u8 \<Rightarrow> byte list \<Rightarrow> nat \<Rightarrow> iface \<Rightarrow> frames_out \<times> iface" where
  "send_ip dst protocol payload now i =
     (case if_config i of
        None \<Rightarrow> ([], i)
      | Some config \<Rightarrow>
          (case (if same_network dst (cf_address config) (cf_netmask config) then Some dst else cf_gateway config) of
             None \<Rightarrow> ([], i)
           | Some next_hop \<Rightarrow>
               (let (ident, i1) = take_id i;
                    packet = ipv4_build (cf_address config) dst protocol ident payload
                in case arp_lookup next_hop i1 of
                     Some mac \<Rightarrow> ([ethernet_build mac (if_mac i1) ETH_IPV4 packet], i1)
                   | None \<Rightarrow>
                       (let i2 = i1\<lparr>if_waiting := filter (\<lambda>w. wt_next_hop w \<noteq> next_hop) (if_waiting i1)
                              @ [\<lparr>wt_next_hop = next_hop, wt_packet = packet, wt_queued_at = now, wt_asked_at = now\<rparr>]\<rparr>
                        in (case arp_request next_hop i2 of None \<Rightarrow> [] | Some frame \<Rightarrow> [frame], i2)))))"

definition send_udp :: "ipv4 \<Rightarrow> u16 \<Rightarrow> u16 \<Rightarrow> byte list \<Rightarrow> nat \<Rightarrow> iface \<Rightarrow> frames_out \<times> iface" where
  "send_udp dst port from_port data now i =
     (case if_config i of
        None \<Rightarrow> ([], i)
      | Some config \<Rightarrow> send_ip dst IP_UDP (udp_build (cf_address config) from_port dst port data) now i)"

definition ping :: "ipv4 \<Rightarrow> u16 \<Rightarrow> nat \<Rightarrow> iface \<Rightarrow> frames_out \<times> iface" where
  "ping target seq now i =
     (let data = map of_nat [0..<32];
          echo = echo_to_bytes \<lparr>echo_kind = ECHO_REQUEST, echo_id = if_ping_id i, echo_seq = seq, echo_data = data\<rparr>;
          i1 = i\<lparr>if_pings := filter (\<lambda>(pending, _). pending \<noteq> seq) (if_pings i) @ [(seq, now)]\<rparr>
      in send_ip target IP_ICMP echo now i1)"

subsection \<open>Timers\<close>

definition poll_timers :: "nat \<Rightarrow> frames_out \<Rightarrow> iface \<Rightarrow> frames_out \<times> iface" where
  "poll_timers now out i =
     (let waiting = filter (\<lambda>w. now < wt_queued_at w + ARP_GIVE_UP_US) (if_waiting i);
          due = (\<lambda>w. now \<ge> wt_asked_at w + ARP_RETRY_US);
          ask = map wt_next_hop (filter due waiting);
          i1 = i\<lparr>if_waiting := map (\<lambda>w. if due w then w\<lparr>wt_asked_at := now\<rparr> else w) waiting\<rparr>;
          frames = List.map_filter (\<lambda>ip. arp_request ip i1) ask
      in (out @ frames, i1\<lparr>if_pings := filter (\<lambda>(_, sent). now < sent + PING_TIMEOUT_US) (if_pings i1)\<rparr>))"

function iface_poll :: "nat \<Rightarrow> iface \<Rightarrow> frames_out \<times> iface" where
  "iface_poll now i =
     (case if_dhcp i of
        Discovering xid next_try \<Rightarrow>
          if now \<ge> next_try then
            let (frame, i1) = dhcp_frame (dhcp_discover (if_mac i) xid) (i\<lparr>if_dhcp := Discovering xid (now + DHCP_RETRY_US)\<rparr>)
            in poll_timers now [frame] i1
          else poll_timers now [] i
      | Requesting xid offered server next_try tries \<Rightarrow>
          if now \<ge> next_try then
            if tries \<ge> DHCP_REQUEST_TRIES then
              let (xid', i1) = next_xid i in iface_poll now (i1\<lparr>if_dhcp := Discovering xid' now\<rparr>)
            else
              let (frame, i1) = dhcp_frame (dhcp_request (if_mac i) xid offered server)
                    (i\<lparr>if_dhcp := Requesting xid offered server (now + DHCP_RETRY_US) (tries + 1)\<rparr>)
              in poll_timers now [frame] i1
          else poll_timers now [] i
      | Bound server renew_at \<Rightarrow>
          if now \<ge> renew_at then
            let offered = (case if_config i of None \<Rightarrow> UNSPECIFIED | Some config \<Rightarrow> cf_address config);
                (xid, i1) = next_xid i
            in iface_poll now (i1\<lparr>if_dhcp := Requesting xid offered server now 0\<rparr>)
          else poll_timers now [] i)"
  by pat_completeness auto
termination
  by (relation "measure (\<lambda>(now, i). case if_dhcp i of Discovering _ _ \<Rightarrow> 0
        | Requesting _ _ _ _ tries \<Rightarrow> (if tries \<ge> DHCP_REQUEST_TRIES then 1 else 0) | Bound _ _ \<Rightarrow> 1)")
     (auto simp: DHCP_REQUEST_TRIES_def)

declare iface_poll.simps [simp del]

subsection \<open>Receiving\<close>

definition receive_arp :: "arp \<Rightarrow> iface \<Rightarrow> frames_out \<times> iface" where
  "receive_arp a i =
     (case if_config i of
        None \<Rightarrow> ([], i)
      | Some config \<Rightarrow>
          (let (out1, i1) = (if arp_sender_ip a \<noteq> UNSPECIFIED then learn (arp_sender_ip a) (arp_sender_mac a) i else ([], i));
               out2 = (if arp_op a = ARP_REQUEST \<and> arp_target_ip a = cf_address config
                       then [ethernet_build (arp_sender_mac a) (if_mac i1) ETH_ARP
                              (arp_to_bytes \<lparr>arp_op = ARP_REPLY, arp_sender_mac = if_mac i1, arp_sender_ip = cf_address config,
                                             arp_target_mac = arp_sender_mac a, arp_target_ip = arp_sender_ip a\<rparr>)]
                       else [])
           in (out1 @ out2, i1)))"

definition receive_dhcp :: "byte list \<Rightarrow> nat \<Rightarrow> iface \<Rightarrow> (frames_out \<times> iface) option" where
  "receive_dhcp payload now i =
     (case if_dhcp i of
        Bound _ _ \<Rightarrow> Some ([], i)
      | dhcp \<Rightarrow>
          do {
            parsed \<leftarrow> dhcp_parse_reply payload (ds_xid dhcp) (if_mac i);
            Some (case parsed of
              None \<Rightarrow> ([], i)
            | Some reply \<Rightarrow>
                (case (dhcp, dr_kind reply) of
                   (Discovering xid _, Offer) \<Rightarrow>
                     (case dr_server reply of
                        None \<Rightarrow> ([], i)
                      | Some server \<Rightarrow>
                          (let (frame, i1) = dhcp_frame (dhcp_request (if_mac i) xid (dr_address reply) server)
                                 (i\<lparr>if_dhcp := Requesting xid (dr_address reply) server (now + DHCP_RETRY_US) 1\<rparr>)
                           in ([frame], i1)))
                 | (Requesting _ _ server _ _, Ack) \<Rightarrow>
                     (let lease_secs = (case dr_lease_secs reply of None \<Rightarrow> 3600 | Some s \<Rightarrow> s);
                          config = \<lparr>cf_address = dr_address reply,
                                    cf_netmask = (case dr_netmask reply of None \<Rightarrow> Ipv4 255 255 255 0 | Some m \<Rightarrow> m),
                                    cf_gateway = dr_router reply, cf_dns = dr_dns reply, cf_lease_secs = lease_secs\<rparr>;
                          renew_in = max (unat lease_secs * 1000000 div 2) MIN_RENEW_US;
                          i1 = i\<lparr>if_dhcp := Bound (case dr_server reply of None \<Rightarrow> server | Some s \<Rightarrow> s) (now + renew_in)\<rparr>
                      in ([], if if_config i \<noteq> Some config
                              then i1\<lparr>if_config := Some config, if_events := if_events i @ [Configured config]\<rparr> else i1))
                 | (Requesting _ _ _ _ _, Nak) \<Rightarrow>
                     (let i1 = i\<lparr>if_config := None, if_events := if_events i @ (if if_config i \<noteq> None then [Unconfigured] else [])\<rparr>;
                          (xid, i2) = next_xid i1
                      in ([], i2\<lparr>if_dhcp := Discovering xid now\<rparr>))
                 | _ \<Rightarrow> ([], i))) })"

definition receive_udp :: "ip_packet \<Rightarrow> nat \<Rightarrow> iface \<Rightarrow> (frames_out \<times> iface) option" where
  "receive_udp packet now i =
     do {
       parsed \<leftarrow> udp_parse (ip_payload packet) (ip_src packet) (ip_dst packet);
       case parsed of
         None \<Rightarrow> Some ([], i)
       | Some datagram \<Rightarrow>
           if dg_dst_port datagram = CLIENT_PORT \<and> dg_src_port datagram = SERVER_PORT
           then receive_dhcp (dg_payload datagram) now i
           else if (case if_config i of None \<Rightarrow> False | Some config \<Rightarrow> ip_dst packet = cf_address config)
           then Some ([], i\<lparr>if_events := if_events i
                  @ [UdpArrived (ip_src packet) (dg_src_port datagram) (dg_dst_port datagram) (dg_payload datagram)]\<rparr>)
           else Some ([], i) }"

definition receive_echo :: "mac \<Rightarrow> ip_packet \<Rightarrow> config \<Rightarrow> echo \<Rightarrow> nat \<Rightarrow> iface \<Rightarrow> frames_out \<times> iface" where
  "receive_echo from packet config e now i =
     (if echo_kind e = ECHO_REQUEST then
        (let (out1, i1) = (if same_network (cf_address config) (ip_src packet) (cf_netmask config)
                           then learn (ip_src packet) from i else ([], i));
             reply = echo_to_bytes (e\<lparr>echo_kind := ECHO_REPLY\<rparr>);
             (ident, i2) = take_id i1;
             answer = ipv4_build (cf_address config) (ip_src packet) IP_ICMP ident reply
         in (out1 @ [ethernet_build from (if_mac i2) ETH_IPV4 answer], i2))
      else if echo_kind e = ECHO_REPLY \<and> echo_id e = if_ping_id i then
        (case position (\<lambda>(seq, _). seq = echo_seq e) (if_pings i) of
           None \<Rightarrow> ([], i)
         | Some index \<Rightarrow>
             (let (seq, sent) = if_pings i ! index
              in ([], i\<lparr>if_pings := take index (if_pings i) @ drop (index + 1) (if_pings i),
                        if_events := if_events i @ [PingReply (ip_src packet) seq (now - sent)]\<rparr>)))
      else ([], i))"

definition receive_ipv4 :: "mac \<Rightarrow> ip_packet \<Rightarrow> nat \<Rightarrow> iface \<Rightarrow> (frames_out \<times> iface) option" where
  "receive_ipv4 from packet now i =
     (if ip_protocol packet = IP_UDP then receive_udp packet now i
      else case if_config i of
        None \<Rightarrow> Some ([], i)
      | Some config \<Rightarrow>
          if ip_dst packet \<noteq> cf_address config \<or> ip_protocol packet \<noteq> IP_ICMP then Some ([], i)
          else do {
            parsed \<leftarrow> echo_parse (ip_payload packet);
            Some (case parsed of None \<Rightarrow> ([], i) | Some e \<Rightarrow> receive_echo from packet config e now i) })"

definition iface_receive :: "byte list \<Rightarrow> nat \<Rightarrow> iface \<Rightarrow> (frames_out \<times> iface) option" where
  "iface_receive bytes now i =
     do {
       frame \<leftarrow> ethernet_parse bytes;
       case frame of
         None \<Rightarrow> Some ([], i)
       | Some f \<Rightarrow>
           if ef_dst f \<noteq> if_mac i \<and> ef_dst f \<noteq> MAC_BROADCAST then Some ([], i)
           else if ef_type f = ETH_ARP then
             do { a \<leftarrow> arp_parse (ef_payload f);
                  Some (case a of None \<Rightarrow> ([], i) | Some a \<Rightarrow> receive_arp a i) }
           else if ef_type f = ETH_IPV4 then
             do { p \<leftarrow> ipv4_parse (ef_payload f);
                  case p of None \<Rightarrow> Some ([], i) | Some packet \<Rightarrow> receive_ipv4 (ef_src f) packet now i }
           else Some ([], i) }"

subsection \<open>Lemmas\<close>

lemma receive_dhcp_total: "receive_dhcp payload now i \<noteq> None"
proof -
  obtain r where "dhcp_parse_reply payload (ds_xid (if_dhcp i)) (if_mac i) = Some r" using dhcp_total by blast
  then show ?thesis by (cases "if_dhcp i") (simp_all add: receive_dhcp_def)
qed

lemma receive_udp_total: "receive_udp packet now i \<noteq> None"
proof -
  obtain r where "udp_parse (ip_payload packet) (ip_src packet) (ip_dst packet) = Some r" using udp_total by blast
  then show ?thesis using receive_dhcp_total by (cases r) (simp_all add: receive_udp_def)
qed

lemma receive_ipv4_total: "receive_ipv4 from packet now i \<noteq> None"
proof -
  obtain r where "echo_parse (ip_payload packet) = Some r" using echo_total by blast
  then show ?thesis using receive_udp_total by (cases "if_config i") (simp_all add: receive_ipv4_def)
qed

lemma iface_receive_total: "iface_receive bytes now i \<noteq> None"
proof -
  obtain r where r: "ethernet_parse bytes = Some r" using ethernet_total by blast
  show ?thesis
  proof (cases r)
    case (Some f)
    obtain a p where "arp_parse (ef_payload f) = Some a" "ipv4_parse (ef_payload f) = Some p"
      using arp_total ipv4_total by (metis option.exhaust)
    then show ?thesis using r Some receive_ipv4_total by (cases p) (simp_all add: iface_receive_def)
  qed (simp add: iface_receive_def r)
qed

subsubsection \<open>The invariant\<close>

definition iface_inv :: "iface \<Rightarrow> bool" where
  "iface_inv i \<longleftrightarrow> length (if_arp i) \<le> ARP_CACHE \<and> distinct (map fst (if_arp i))
     \<and> distinct (map wt_next_hop (if_waiting i))
     \<and> fst ` set (if_arp i) \<inter> wt_next_hop ` set (if_waiting i) = {}
     \<and> distinct (map fst (if_pings i))
     \<and> (\<forall>server renew_at. if_dhcp i = Bound server renew_at \<longrightarrow> if_config i \<noteq> None)"

lemma iface_new_inv: "iface_inv (iface_new mac seed)"
  by (simp add: iface_inv_def iface_new_def)

lemma inv_cong:
  assumes "iface_inv i" and "if_arp i' = if_arp i" and "if_waiting i' = if_waiting i" and "if_pings i' = if_pings i"
    and "\<And>server renew_at. if_dhcp i' = Bound server renew_at \<Longrightarrow> if_config i' \<noteq> None"
  shows "iface_inv i'"
  using assms by (simp add: iface_inv_def)

lemma inv_arp: "iface_inv i \<Longrightarrow> length (if_arp i) \<le> ARP_CACHE" "iface_inv i \<Longrightarrow> distinct (map fst (if_arp i))"
  by (simp_all add: iface_inv_def)

lemma inv_waiting: "iface_inv i \<Longrightarrow> distinct (map wt_next_hop (if_waiting i))"
  "iface_inv i \<Longrightarrow> fst ` set (if_arp i) \<inter> wt_next_hop ` set (if_waiting i) = {}"
  by (simp_all add: iface_inv_def)

lemma inv_pings: "iface_inv i \<Longrightarrow> distinct (map fst (if_pings i))"
  by (simp add: iface_inv_def)

lemma inv_bound: "iface_inv i \<Longrightarrow> if_dhcp i = Bound server renew_at \<Longrightarrow> if_config i \<noteq> None"
  by (simp add: iface_inv_def)

lemma iface_invI:
  assumes "length (if_arp i) \<le> ARP_CACHE" and "distinct (map fst (if_arp i))"
    and "distinct (map wt_next_hop (if_waiting i))" and "fst ` set (if_arp i) \<inter> wt_next_hop ` set (if_waiting i) = {}"
    and "distinct (map fst (if_pings i))" and "\<And>server renew_at. if_dhcp i = Bound server renew_at \<Longrightarrow> if_config i \<noteq> None"
  shows "iface_inv i"
  using assms by (simp add: iface_inv_def)

lemma arp_lookup_None: "arp_lookup ip i = None \<longleftrightarrow> ip \<notin> fst ` set (if_arp i)"
  by (auto simp: arp_lookup_def find_None_iff image_iff)

lemma take_id_fields [simp]: "take_id i = (if_next_id i + 1, i\<lparr>if_next_id := if_next_id i + 1\<rparr>)"
  by (simp add: take_id_def)

lemma next_xid_fields: "\<exists>x. next_xid i = (x, i\<lparr>if_random := x\<rparr>)"
  by (simp add: next_xid_def Let_def)

lemma dhcp_frame_fields: "snd (dhcp_frame m i) = i\<lparr>if_next_id := if_next_id i + 1\<rparr>"
  by (simp add: dhcp_frame_def Let_def)

lemma learn_inv:
  assumes "iface_inv i"
  shows "iface_inv (snd (learn ip mac i))"
proof -
  let ?a = "filter (\<lambda>(known, _). known \<noteq> ip) (if_arp i)"
  let ?b = "if length ?a = ARP_CACHE then tl ?a else ?a"
  have a: "length ?a \<le> ARP_CACHE" "distinct (map fst ?a)" "ip \<notin> fst ` set ?a" "fst ` set ?a \<subseteq> fst ` set (if_arp i)"
    using inv_arp [OF assms] by (auto simp: distinct_map_filter intro: le_trans [OF length_filter_le])
  have sub: "set ?b \<subseteq> set ?a" using list.set_sel(2) [of ?a] by (cases ?a) auto
  have b: "Suc (length ?b) \<le> ARP_CACHE" "distinct (map fst ?b)"
    using a(1,2) by (auto simp: ARP_CACHE_def map_tl distinct_tl)
  have "distinct (map fst (?b @ [(ip, mac)]))" using b(2) a(3) sub by (auto simp: image_iff)
  moreover have "fst ` set (?b @ [(ip, mac)]) \<inter> wt_next_hop ` set (filter (\<lambda>w. wt_next_hop w \<noteq> ip) (if_waiting i)) = {}"
    using assms a(4) sub by (fastforce simp: iface_inv_def)
  moreover have "distinct (map wt_next_hop (filter (\<lambda>w. wt_next_hop w \<noteq> ip) (if_waiting i)))"
    using assms by (simp add: iface_inv_def distinct_map_filter)
  ultimately show ?thesis
    using assms b(1) by (simp add: iface_inv_def learn_def Let_def comp_def)
qed

lemma learn_other: "if_config (snd (learn ip mac i)) = if_config i" "if_mac (snd (learn ip mac i)) = if_mac i"
  "if_events (snd (learn ip mac i)) = if_events i" "if_next_id (snd (learn ip mac i)) = if_next_id i"
  "if_dhcp (snd (learn ip mac i)) = if_dhcp i" "if_pings (snd (learn ip mac i)) = if_pings i"
  by (simp_all add: learn_def Let_def)

lemma learn_lookup: "arp_lookup ip (snd (learn ip mac i)) = Some mac"
  by (simp add: learn_def arp_lookup_def Let_def)

lemma learn_sends: "w \<in> set (if_waiting i) \<Longrightarrow> wt_next_hop w = ip \<Longrightarrow>
    ethernet_build mac (if_mac i) ETH_IPV4 (wt_packet w) \<in> set (fst (learn ip mac i))"
  by (auto simp: learn_def Let_def)

lemma send_ip_inv:
  assumes "iface_inv i"
  shows "iface_inv (snd (send_ip dst protocol payload now i))"
proof (cases "if_config i")
  case None
  then show ?thesis using assms by (simp add: send_ip_def)
next
  case (Some config)
  show ?thesis
  proof (cases "if same_network dst (cf_address config) (cf_netmask config) then Some dst else cf_gateway config")
    case None
    then show ?thesis using assms Some by (simp add: send_ip_def split: if_splits)
  next
    case hop: (Some next_hop)
    let ?i1 = "i\<lparr>if_next_id := if_next_id i + 1\<rparr>"
    have i1: "iface_inv ?i1" using assms by (simp add: iface_inv_def)
    show ?thesis
    proof (cases "arp_lookup next_hop ?i1")
      case None
      then have "next_hop \<notin> fst ` set (if_arp i)" by (simp add: arp_lookup_None)
      then have "iface_inv (?i1\<lparr>if_waiting := filter (\<lambda>w. wt_next_hop w \<noteq> next_hop) (if_waiting i) @ [w]\<rparr>)"
        if "wt_next_hop w = next_hop" for w
        using assms that by (auto simp: iface_inv_def distinct_map_filter)
      then show ?thesis using None unfolding send_ip_def Some option.case hop by (simp add: Let_def)
    next
      case (Some m)
      then show ?thesis using i1 unfolding send_ip_def \<open>if_config i = _\<close> option.case hop by (simp add: Let_def)
    qed
  qed
qed

lemma distinct_snoc_filter: "distinct (map f xs) \<Longrightarrow> distinct (map f (filter (\<lambda>x. f x \<noteq> y) xs) @ [y])"
  by (auto simp: distinct_map_filter)

lemma ping_inv: "iface_inv i \<Longrightarrow> iface_inv (snd (ping target seq now i))"
  unfolding ping_def Let_def
  by (rule send_ip_inv) (auto simp: iface_inv_def distinct_map_filter)

lemma send_udp_inv: "iface_inv i \<Longrightarrow> iface_inv (snd (send_udp dst port from_port data now i))"
  by (auto simp: send_udp_def send_ip_inv split: option.split)

lemma poll_timers_inv:
  assumes "iface_inv i"
  shows "iface_inv (snd (poll_timers now out i))"
proof -
  let ?w = "filter (\<lambda>w. now < wt_queued_at w + ARP_GIVE_UP_US) (if_waiting i)"
  let ?f = "\<lambda>w. if now \<ge> wt_asked_at w + ARP_RETRY_US then w\<lparr>wt_asked_at := now\<rparr> else w"
  have hop: "wt_next_hop \<circ> ?f = wt_next_hop" by (simp add: fun_eq_iff)
  have "distinct (map wt_next_hop ?w)" by (rule distinct_map_filter [OF inv_waiting(1) [OF assms]])
  then have "distinct (map wt_next_hop (map ?f ?w))" by (simp add: hop)
  moreover have "wt_next_hop ` set (map ?f ?w) \<subseteq> wt_next_hop ` set (if_waiting i)" by auto
  moreover have "distinct (map fst (filter (\<lambda>(_, sent). now < sent + PING_TIMEOUT_US) (if_pings i)))"
    by (rule distinct_map_filter [OF inv_pings [OF assms]])
  ultimately show ?thesis
    using inv_arp [OF assms] inv_waiting(2) [OF assms] inv_bound [OF assms]
    by (intro iface_invI) (auto simp: poll_timers_def Let_def)
qed

lemma inv_dhcp_frame: "iface_inv i \<Longrightarrow> iface_inv (snd (dhcp_frame m i))"
  by (rule inv_cong) (auto simp: dhcp_frame_fields dest: inv_bound)

lemma inv_not_bound: "iface_inv i \<Longrightarrow> (\<And>server renew_at. d \<noteq> Bound server renew_at) \<Longrightarrow> iface_inv (i\<lparr>if_dhcp := d\<rparr>)"
  by (rule inv_cong) auto

lemma inv_next_xid: "iface_inv i \<Longrightarrow> iface_inv (snd (next_xid i))"
  by (rule inv_cong) (auto simp: next_xid_def Let_def dest: inv_bound)

lemma iface_poll_inv: "iface_inv i \<Longrightarrow> iface_inv (snd (iface_poll now i))"
proof (induction now i rule: iface_poll.induct)
  case (1 now i)
  show ?case
  proof (cases "if_dhcp i")
    case (Discovering xid next_try)
    then show ?thesis using "1.prems"
      by (subst iface_poll.simps) (auto simp: split_beta intro!: poll_timers_inv inv_dhcp_frame inv_not_bound)
  next
    case (Requesting xid offered server next_try tries)
    have "iface_inv (snd (iface_poll now ((snd (next_xid i))\<lparr>if_dhcp := Discovering (fst (next_xid i)) now\<rparr>)))"
      if "now \<ge> next_try" "tries \<ge> DHCP_REQUEST_TRIES"
      using "1.IH"(1) [OF Requesting that, of "next_xid i" "fst (next_xid i)" "snd (next_xid i)"] "1.prems"
      by (simp add: inv_not_bound inv_next_xid)
    then show ?thesis using "1.prems" Requesting
      by (subst iface_poll.simps) (auto simp: split_beta intro!: poll_timers_inv inv_dhcp_frame inv_not_bound)
  next
    case (Bound server renew_at)
    let ?offered = "case if_config i of None \<Rightarrow> UNSPECIFIED | Some config \<Rightarrow> cf_address config"
    have "iface_inv (snd (iface_poll now ((snd (next_xid i))\<lparr>if_dhcp := Requesting (fst (next_xid i)) ?offered server now 0\<rparr>)))"
      if "now \<ge> renew_at"
      using "1.IH"(2) [OF Bound that refl, of "next_xid i" "fst (next_xid i)" "snd (next_xid i)"] "1.prems"
      by (simp add: inv_not_bound inv_next_xid)
    then show ?thesis using "1.prems" Bound
      by (subst iface_poll.simps) (auto simp: split_beta Let_def intro!: poll_timers_inv)
  qed
qed

lemma receive_arp_inv: "iface_inv i \<Longrightarrow> iface_inv (snd (receive_arp a i))"
  using learn_inv by (auto simp: receive_arp_def split_beta Let_def split: option.split)

lemma receive_dhcp_inv:
  assumes "iface_inv i" and "receive_dhcp payload now i = Some r"
  shows "iface_inv (snd r)"
proof -
  obtain p where p: "dhcp_parse_reply payload (ds_xid (if_dhcp i)) (if_mac i) = Some p" using dhcp_total by blast
  show ?thesis
  proof (cases p)
    case None
    then show ?thesis using assms p by (auto simp: receive_dhcp_def split: dhcp_state.splits)
  next
    case (Some reply)
    show ?thesis
    proof (cases "if_dhcp i")
      case (Discovering xid t)
      then show ?thesis using assms p Some
        by (auto simp: receive_dhcp_def split_beta Let_def split: dhcp_kind.splits option.splits
            intro!: inv_dhcp_frame inv_not_bound)
    next
      case (Requesting xid offered server next_try tries)
      then show ?thesis using assms p Some
        by (auto simp: receive_dhcp_def next_xid_def split_beta Let_def split: dhcp_kind.splits if_splits elim!: inv_cong)
    next
      case (Bound server renew_at)
      then show ?thesis using assms by (auto simp: receive_dhcp_def)
    qed
  qed
qed

lemma receive_udp_inv:
  assumes "iface_inv i" and "receive_udp packet now i = Some r"
  shows "iface_inv (snd r)"
proof -
  obtain p where p: "udp_parse (ip_payload packet) (ip_src packet) (ip_dst packet) = Some p" using udp_total by blast
  have e: "iface_inv (i\<lparr>if_events := es\<rparr>)" for es using assms(1) by (rule inv_cong) (auto dest: inv_bound [OF assms(1)])
  show ?thesis using assms p e receive_dhcp_inv [OF assms(1)]
    by (cases p) (auto simp: receive_udp_def split: if_splits)
qed

lemma distinct_map_remove: "distinct (map f xs) \<Longrightarrow> distinct (map f (take n xs @ drop (n + 1) xs))"
proof -
  assume "distinct (map f xs)"
  then have "distinct (map f (take n xs @ drop n xs))" by simp
  then show ?thesis unfolding map_append distinct_append
    using set_drop_subset_set_drop [of n "n + 1" xs] distinct_drop [of "map f (drop n xs)" 1] by (auto simp: drop_map)
qed

lemma receive_echo_inv: "iface_inv i \<Longrightarrow> iface_inv (snd (receive_echo from packet config e now i))"
proof -
  assume inv: "iface_inv i"
  have l: "iface_inv (j\<lparr>if_next_id := n\<rparr>)" if "iface_inv j" for j n
    using that by (rule inv_cong) (auto dest: inv_bound [OF that])
  have "iface_inv (i\<lparr>if_pings := take n (if_pings i) @ drop (n + 1) (if_pings i), if_events := es\<rparr>)" for n es
    using inv_arp [OF inv] inv_waiting [OF inv] distinct_map_remove [OF inv_pings [OF inv], of n] inv_bound [OF inv]
    by (intro iface_invI) auto
  then show ?thesis
    using inv learn_inv [OF inv, THEN l]
    by (auto simp: receive_echo_def split_beta Let_def split: option.split intro!: l learn_inv)
qed

lemma receive_ipv4_inv:
  assumes "iface_inv i" and "receive_ipv4 from packet now i = Some r"
  shows "iface_inv (snd r)"
proof -
  obtain p where p: "echo_parse (ip_payload packet) = Some p" using echo_total by blast
  show ?thesis using assms p receive_udp_inv [OF assms(1)]
    by (auto simp: receive_ipv4_def receive_echo_inv split: if_splits option.splits)
qed

lemma iface_receive_inv:
  assumes "iface_inv i" and "iface_receive bytes now i = Some r"
  shows "iface_inv (snd r)"
proof -
  obtain p where p: "ethernet_parse bytes = Some p" using ethernet_total by blast
  show ?thesis
  proof (cases p)
    case (Some f)
    obtain a q where "arp_parse (ef_payload f) = Some a" "ipv4_parse (ef_payload f) = Some q"
      using arp_total ipv4_total by (metis option.exhaust)
    then show ?thesis using p Some assms receive_ipv4_inv [OF assms(1)] receive_arp_inv [OF assms(1)]
      by (auto simp: iface_receive_def split: if_splits option.splits)
  qed (use assms p in \<open>auto simp: iface_receive_def\<close>)
qed

inductive iface_reach :: "mac \<Rightarrow> iface \<Rightarrow> bool" for mac where
  start: "iface_reach mac (iface_new mac seed)"
| received: "iface_reach mac i \<Longrightarrow> iface_receive bytes now i = Some (out, i') \<Longrightarrow> iface_reach mac i'"
| polled: "iface_reach mac i \<Longrightarrow> iface_poll now i = (out, i') \<Longrightarrow> iface_reach mac i'"
| pinged: "iface_reach mac i \<Longrightarrow> ping target seq now i = (out, i') \<Longrightarrow> iface_reach mac i'"
| sent: "iface_reach mac i \<Longrightarrow> send_udp dst port from_port data now i = (out, i') \<Longrightarrow> iface_reach mac i'"
| taken: "iface_reach mac i \<Longrightarrow> take_events i = (es, i') \<Longrightarrow> iface_reach mac i'"

lemma iface_reach_inv: "iface_reach mac i \<Longrightarrow> iface_inv i"
proof (induction rule: iface_reach.induct)
  case (taken i es i')
  from taken.IH show ?case by (rule inv_cong) (use taken.hyps(2) inv_bound [OF taken.IH] in \<open>auto simp: take_events_def\<close>)
qed (metis iface_new_inv iface_receive_inv iface_poll_inv ping_inv send_udp_inv snd_conv)+

subsubsection \<open>Frames for us\<close>

lemma receive_ip_frame:
  assumes "dmac = if_mac i \<or> dmac = MAC_BROADCAST" and "length payload \<le> 65515"
  shows "iface_receive (ethernet_build dmac smac ETH_IPV4 (ipv4_build src dst protocol ident payload)) now i
    = receive_ipv4 smac \<lparr>ip_src = src, ip_dst = dst, ip_protocol = protocol, ip_payload = payload\<rparr> now i"
proof -
  obtain pad where "ethernet_parse (ethernet_build dmac smac ETH_IPV4 (ipv4_build src dst protocol ident payload))
     = Some (Some \<lparr>ef_dst = dmac, ef_src = smac, ef_type = ETH_IPV4, ef_payload = ipv4_build src dst protocol ident payload @ pad\<rparr>)"
    using ethernet_roundtrip by blast
  moreover have "ETH_IPV4 \<noteq> ETH_ARP" by (simp add: ETH_IPV4_def ETH_ARP_def)
  ultimately show ?thesis using assms by (auto simp: iface_receive_def ipv4_roundtrip)
qed

lemma receive_arp_frame:
  assumes "dmac = if_mac i \<or> dmac = MAC_BROADCAST"
  shows "iface_receive (ethernet_build dmac smac ETH_ARP (arp_to_bytes a)) now i = Some (receive_arp a i)"
proof -
  obtain pad where "ethernet_parse (ethernet_build dmac smac ETH_ARP (arp_to_bytes a))
     = Some (Some \<lparr>ef_dst = dmac, ef_src = smac, ef_type = ETH_ARP, ef_payload = arp_to_bytes a @ pad\<rparr>)"
    using ethernet_roundtrip by blast
  then show ?thesis using assms by (auto simp: iface_receive_def arp_roundtrip)
qed

lemma receive_udp_frame:
  assumes "dmac = if_mac i \<or> dmac = MAC_BROADCAST" and "length payload \<le> 65507"
  shows "iface_receive (ethernet_build dmac smac ETH_IPV4
      (ipv4_build src dst IP_UDP ident (udp_build src sport dst dport payload))) now i
    = (if dport = CLIENT_PORT \<and> sport = SERVER_PORT then receive_dhcp payload now i
       else if \<exists>config. if_config i = Some config \<and> dst = cf_address config
       then Some ([], i\<lparr>if_events := if_events i @ [UdpArrived src sport dport payload]\<rparr>)
       else Some ([], i))"
proof -
  let ?d = "udp_build src sport dst dport payload"
  have "length ?d = 8 + length payload" using udp_build_parts [of src sport dst dport payload] by auto
  then have "iface_receive (ethernet_build dmac smac ETH_IPV4 (ipv4_build src dst IP_UDP ident ?d)) now i
      = receive_udp \<lparr>ip_src = src, ip_dst = dst, ip_protocol = IP_UDP, ip_payload = ?d\<rparr> now i"
    using assms by (simp add: receive_ip_frame receive_ipv4_def)
  moreover have "udp_parse ?d src dst = Some (Some \<lparr>dg_src_port = sport, dg_dst_port = dport, dg_payload = payload\<rparr>)"
    using udp_roundtrip [of payload src sport dst dport "[]"] assms(2) by simp
  ultimately show ?thesis by (auto simp: receive_udp_def split: option.split)
qed

subsection \<open>Properties\<close>

text \<open>C15: no frame from the network can crash the kernel: receiving any bytes in any state of the
  interface, reading any DNS answer and reading any SNTP answer never reads out of range.\<close>
theorem network_never_panics:
  "iface_receive bytes now i \<noteq> None \<and> dns_parse bytes ident \<noteq> None \<and> sntp_parse bytes cookie rtt \<noteq> None"
  using iface_receive_total dns_total sntp_total by blast

text \<open>C27: in every state the interface can get into, whatever arrives and is sent in whatever order,
  the neighbour cache has at most 16 entries and one per address, at most one packet waits per next
  hop and none for a known neighbour, pending pings have different numbers, and a bound DHCP client
  has an address.\<close>
theorem iface_invariant:
  "iface_reach mac i \<Longrightarrow>
   length (if_arp i) \<le> 16 \<and> distinct (map fst (if_arp i)) \<and> distinct (map wt_next_hop (if_waiting i))
   \<and> (\<forall>w \<in> set (if_waiting i). arp_lookup (wt_next_hop w) i = None)
   \<and> distinct (map fst (if_pings i)) \<and> (\<forall>server t. if_dhcp i = Bound server t \<longrightarrow> if_config i \<noteq> None)"
  using iface_reach_inv [of mac i] by (auto simp: iface_inv_def ARP_CACHE_def arp_lookup_None)

theorem iface_invariant_witness:
  "distinct (map wt_next_hop (if_waiting (snd (iface_poll 5 (iface_new MAC_DEFAULT 1)))))"
proof -
  have "iface_reach MAC_DEFAULT (snd (iface_poll 5 (iface_new MAC_DEFAULT 1)))"
    by (rule iface_reach.polled [OF iface_reach.start]) (rule prod.collapse [symmetric])
  from iface_invariant [OF this] show ?thesis by simp
qed

text \<open>a ping for our address is answered: whatever else receiving it causes to be sent, the last
  frame is the echo reply with the request's identifier, number and data, from our address and to
  the address and the MAC the request came from. Configuration and events do not change.\<close>
theorem ping_answered:
  assumes "if_config i = Some config" and "echo_kind e = ECHO_REQUEST" and "length (echo_data e) \<le> 65507"
  shows "\<exists>out ident' i'. iface_receive (ethernet_build (if_mac i) peer ETH_IPV4
        (ipv4_build src (cf_address config) IP_ICMP ident (echo_to_bytes e))) now i
      = Some (out @ [ethernet_build peer (if_mac i) ETH_IPV4
          (ipv4_build (cf_address config) src IP_ICMP ident' (echo_to_bytes (e\<lparr>echo_kind := ECHO_REPLY\<rparr>)))], i')
    \<and> if_config i' = if_config i \<and> if_events i' = if_events i \<and> if_dhcp i' = if_dhcp i"
proof -
  have "length (echo_to_bytes e) = 8 + length (echo_data e)" by (simp add: echo_build_parts Let_def)
  then have "iface_receive (ethernet_build (if_mac i) peer ETH_IPV4
        (ipv4_build src (cf_address config) IP_ICMP ident (echo_to_bytes e))) now i
      = receive_ipv4 peer \<lparr>ip_src = src, ip_dst = cf_address config, ip_protocol = IP_ICMP, ip_payload = echo_to_bytes e\<rparr> now i"
    using assms(3) by (intro receive_ip_frame) auto
  moreover have "echo_parse (echo_to_bytes e) = Some (Some e)" using assms(2,3) by (intro echo_roundtrip) auto
  moreover have "IP_ICMP \<noteq> IP_UDP" by (simp add: IP_ICMP_def IP_UDP_def)
  ultimately show ?thesis
    using assms(1,2) by (simp add: receive_ipv4_def receive_echo_def Let_def split_beta learn_other) blast
qed

theorem ping_answered_witness:
  "\<exists>out ident' i'. iface_receive (ethernet_build MAC_DEFAULT MAC_BROADCAST ETH_IPV4
        (ipv4_build (Ipv4 10 0 0 1) (Ipv4 10 0 0 9) IP_ICMP 3 (echo_to_bytes \<lparr>echo_kind = 8, echo_id = 1, echo_seq = 2, echo_data = [9]\<rparr>))) 0
      ((iface_new MAC_DEFAULT 1)\<lparr>if_config := Some \<lparr>cf_address = Ipv4 10 0 0 9, cf_netmask = Ipv4 255 0 0 0, cf_gateway = None, cf_dns = None, cf_lease_secs = 0\<rparr>\<rparr>)
    = Some (out @ [ethernet_build MAC_BROADCAST MAC_DEFAULT ETH_IPV4
          (ipv4_build (Ipv4 10 0 0 9) (Ipv4 10 0 0 1) IP_ICMP ident' (echo_to_bytes \<lparr>echo_kind = ECHO_REPLY, echo_id = 1, echo_seq = 2, echo_data = [9]\<rparr>))], i')"
  using ping_answered [where i = "(iface_new MAC_DEFAULT 1)\<lparr>if_config := Some \<lparr>cf_address = Ipv4 10 0 0 9, cf_netmask = Ipv4 255 0 0 0, cf_gateway = None, cf_dns = None, cf_lease_secs = 0\<rparr>\<rparr>"
      and e = "\<lparr>echo_kind = 8, echo_id = 1, echo_seq = 2, echo_data = [9]\<rparr>" and peer = MAC_BROADCAST and src = "Ipv4 10 0 0 1" and ident = 3 and now = 0]
  by (simp add: iface_new_def ECHO_REQUEST_def) blast

text \<open>a packet for a neighbour not yet known is not lost: sending it asks for the neighbour with
  ARP, and when any ARP packet from it arrives the packet goes out to its MAC address, after which
  the neighbour is known and nothing waits for it.\<close>
theorem arp_resolves:
  fixes i :: iface and protocol :: u8 and payload :: "byte list" and now later :: nat and smac :: mac
  assumes "if_config i = Some config" and "same_network dst (cf_address config) (cf_netmask config)"
    and "arp_lookup dst i = None" and "dst \<noteq> UNSPECIFIED" and "arp_sender_ip a = dst"
  defines "packet \<equiv> ipv4_build (cf_address config) dst protocol (if_next_id i + 1) payload"
  shows "\<exists>i1 out i2. send_ip dst protocol payload now i = ([ethernet_build MAC_BROADCAST (if_mac i) ETH_ARP
        (arp_to_bytes \<lparr>arp_op = ARP_REQUEST, arp_sender_mac = if_mac i, arp_sender_ip = cf_address config,
          arp_target_mac = MAC_DEFAULT, arp_target_ip = dst\<rparr>)], i1)
    \<and> iface_receive (ethernet_build (if_mac i) smac ETH_ARP (arp_to_bytes a)) later i1 = Some (out, i2)
    \<and> ethernet_build (arp_sender_mac a) (if_mac i) ETH_IPV4 packet \<in> set out
    \<and> arp_lookup dst i2 = Some (arp_sender_mac a) \<and> (\<forall>w \<in> set (if_waiting i2). wt_next_hop w \<noteq> dst)"
proof -
  let ?w = "\<lparr>wt_next_hop = dst, wt_packet = packet, wt_queued_at = now, wt_asked_at = now\<rparr>"
  let ?i1 = "i\<lparr>if_next_id := if_next_id i + 1, if_waiting := filter (\<lambda>w. wt_next_hop w \<noteq> dst) (if_waiting i) @ [?w]\<rparr>"
  have "arp_lookup dst (i\<lparr>if_next_id := if_next_id i + 1\<rparr>) = None" using assms(3) by (simp add: arp_lookup_None)
  then have s: "send_ip dst protocol payload now i = ([ethernet_build MAC_BROADCAST (if_mac i) ETH_ARP
        (arp_to_bytes \<lparr>arp_op = ARP_REQUEST, arp_sender_mac = if_mac i, arp_sender_ip = cf_address config,
          arp_target_mac = MAC_DEFAULT, arp_target_ip = dst\<rparr>)], ?i1)"
    using assms(1,2) by (simp add: send_ip_def Let_def arp_request_def packet_def)
  have r: "iface_receive (ethernet_build (if_mac i) smac ETH_ARP (arp_to_bytes a)) later ?i1 = Some (receive_arp a ?i1)"
    by (rule receive_arp_frame) simp
  have out: "ethernet_build (arp_sender_mac a) (if_mac i) ETH_IPV4 packet \<in> set (fst (learn dst (arp_sender_mac a) ?i1))"
    using learn_sends [of ?w ?i1 dst "arp_sender_mac a"] by simp
  have still: "\<forall>w \<in> set (if_waiting (snd (learn dst (arp_sender_mac a) ?i1))). wt_next_hop w \<noteq> dst"
    by (simp add: learn_def Let_def)
  have rec: "snd (receive_arp a ?i1) = snd (learn dst (arp_sender_mac a) ?i1)"
    "set (fst (learn dst (arp_sender_mac a) ?i1)) \<subseteq> set (fst (receive_arp a ?i1))"
    using assms(1,4,5) by (auto simp: receive_arp_def Let_def split_beta)
  show ?thesis
  proof (intro exI conjI)
    show "send_ip dst protocol payload now i = ([ethernet_build MAC_BROADCAST (if_mac i) ETH_ARP
        (arp_to_bytes \<lparr>arp_op = ARP_REQUEST, arp_sender_mac = if_mac i, arp_sender_ip = cf_address config,
          arp_target_mac = MAC_DEFAULT, arp_target_ip = dst\<rparr>)], ?i1)" by (rule s)
    show "iface_receive (ethernet_build (if_mac i) smac ETH_ARP (arp_to_bytes a)) later ?i1
      = Some (fst (receive_arp a ?i1), snd (receive_arp a ?i1))" using r by (simp only: prod.collapse)
    show "ethernet_build (arp_sender_mac a) (if_mac i) ETH_IPV4 packet \<in> set (fst (receive_arp a ?i1))"
      using out rec(2) by (rule subsetD [rotated])
    show "arp_lookup dst (snd (receive_arp a ?i1)) = Some (arp_sender_mac a)" unfolding rec(1) by (rule learn_lookup)
    show "\<forall>w \<in> set (if_waiting (snd (receive_arp a ?i1))). wt_next_hop w \<noteq> dst" unfolding rec(1) by (rule still)
  qed
qed

definition iface_example :: iface where
  \<comment> \<open>an interface with address 10.0.0.9\<close>
  "iface_example = (iface_new MAC_DEFAULT 7)\<lparr>if_config :=
     Some \<lparr>cf_address = Ipv4 10 0 0 9, cf_netmask = Ipv4 255 0 0 0, cf_gateway = None, cf_dns = None, cf_lease_secs = 0\<rparr>\<rparr>"

theorem arp_resolves_witness:
  "\<exists>i1 out i2. send_ip (Ipv4 10 0 0 1) IP_UDP [1] 0 iface_example = ([ethernet_build MAC_BROADCAST MAC_DEFAULT ETH_ARP
        (arp_to_bytes \<lparr>arp_op = ARP_REQUEST, arp_sender_mac = MAC_DEFAULT, arp_sender_ip = Ipv4 10 0 0 9,
          arp_target_mac = MAC_DEFAULT, arp_target_ip = Ipv4 10 0 0 1\<rparr>)], i1)
    \<and> iface_receive (ethernet_build MAC_DEFAULT MAC_BROADCAST ETH_ARP (arp_to_bytes \<lparr>arp_op = 2, arp_sender_mac = Mac 1 2 3 4 5 6,
        arp_sender_ip = Ipv4 10 0 0 1, arp_target_mac = MAC_DEFAULT, arp_target_ip = Ipv4 10 0 0 9\<rparr>)) 5 i1 = Some (out, i2)
    \<and> arp_lookup (Ipv4 10 0 0 1) i2 = Some (Mac 1 2 3 4 5 6)"
proof -
  have same: "same_network (Ipv4 10 0 0 1) (Ipv4 10 0 0 9) (Ipv4 255 0 0 0)" by code_simp
  show ?thesis
    using arp_resolves [where i = iface_example and dst = "Ipv4 10 0 0 1" and protocol = IP_UDP and payload = "[1]"
        and a = "\<lparr>arp_op = 2, arp_sender_mac = Mac 1 2 3 4 5 6, arp_sender_ip = Ipv4 10 0 0 1,
                  arp_target_mac = MAC_DEFAULT, arp_target_ip = Ipv4 10 0 0 9\<rparr>"
        and now = 0 and later = 5 and smac = MAC_BROADCAST] same
    by (simp add: iface_example_def iface_new_def arp_lookup_def UNSPECIFIED_def) blast
qed

definition dhcp_server_frame :: "mac \<Rightarrow> ipv4 \<Rightarrow> u16 \<Rightarrow> byte list \<Rightarrow> byte list" where
  \<comment> \<open>a server's message, broadcast\<close>
  "dhcp_server_frame smac sip ident message =
     ethernet_build MAC_BROADCAST smac ETH_IPV4
       (ipv4_build sip BROADCAST IP_UDP ident (udp_build sip SERVER_PORT BROADCAST CLIENT_PORT message))"

lemma receive_server_frame:
  "length message \<le> 65507 \<Longrightarrow>
   iface_receive (dhcp_server_frame smac sip ident message) now i = receive_dhcp message now i"
  unfolding dhcp_server_frame_def by (subst receive_udp_frame) simp_all

text \<open>C28: the DHCP conversation: an interface that is looking for an address answers an OFFER for its
  transaction with exactly one frame, the REQUEST for that address to that server, and the ACK that
  follows gives it the address, netmask, router and name server of the ACK (defaults where the
  server said nothing), tells the kernel when that is news, and lets the lease rest for at least a
  minute.\<close>
theorem dhcp_conversation:
  assumes "if_dhcp i = Discovering xid t" and "length offer \<le> 65507" and "length ack \<le> 65507"
    and "dhcp_parse_reply offer xid (if_mac i) = Some (Some r1)" and "dr_kind r1 = Offer" and "dr_server r1 = Some server"
    and "dhcp_parse_reply ack xid (if_mac i) = Some (Some r2)" and "dr_kind r2 = Ack"
  shows "\<exists>i1 i2 config. iface_receive (dhcp_server_frame smac sip ident offer) now i
        = Some ([fst (dhcp_frame (dhcp_request (if_mac i) xid (dr_address r1) server) i)], i1)
    \<and> if_dhcp i1 = Requesting xid (dr_address r1) server (now + DHCP_RETRY_US) 1
    \<and> iface_receive (dhcp_server_frame smac sip ident' ack) later i1 = Some ([], i2)
    \<and> if_config i2 = Some config \<and> cf_address config = dr_address r2 \<and> cf_gateway config = dr_router r2 \<and> cf_dns config = dr_dns r2
    \<and> cf_netmask config = (case dr_netmask r2 of None \<Rightarrow> Ipv4 255 255 255 0 | Some m \<Rightarrow> m)
    \<and> (\<exists>s renew_at. if_dhcp i2 = Bound s renew_at \<and> later + 60000000 \<le> renew_at)
    \<and> if_events i2 = if_events i @ (if if_config i = Some config then [] else [Configured config])"
proof -
  let ?i0 = "i\<lparr>if_dhcp := Requesting xid (dr_address r1) server (now + DHCP_RETRY_US) 1\<rparr>"
  let ?i1 = "?i0\<lparr>if_next_id := if_next_id i + 1\<rparr>"
  let ?lease = "case dr_lease_secs r2 of None \<Rightarrow> 3600 | Some s \<Rightarrow> s"
  let ?config = "\<lparr>cf_address = dr_address r2, cf_netmask = (case dr_netmask r2 of None \<Rightarrow> Ipv4 255 255 255 0 | Some m \<Rightarrow> m),
    cf_gateway = dr_router r2, cf_dns = dr_dns r2, cf_lease_secs = ?lease\<rparr>"
  let ?i2 = "?i1\<lparr>if_dhcp := Bound (case dr_server r2 of None \<Rightarrow> server | Some s \<Rightarrow> s)
      (later + max (unat ?lease * 1000000 div 2) MIN_RENEW_US), if_config := Some ?config,
      if_events := if_events i @ (if if_config i = Some ?config then [] else [Configured ?config])\<rparr>"
  have one: "receive_dhcp offer now i = Some ([fst (dhcp_frame (dhcp_request (if_mac i) xid (dr_address r1) server) i)], ?i1)"
    using assms(1,4-6) by (simp add: receive_dhcp_def dhcp_frame_def Let_def)
  have two: "receive_dhcp ack later ?i1 = Some ([], ?i2)"
    using assms(1,7,8) by (simp add: receive_dhcp_def Let_def)
  show ?thesis
    using assms(2,3) one two
    by (intro exI [of _ ?i1] exI [of _ ?i2] exI [of _ ?config]) (simp add: receive_server_frame MIN_RENEW_US_def)
qed

theorem dhcp_conversation_witness:
  "let offer = dhcp_example @ DHCP_MAGIC @ [54, 4, 10, 0, 0, 1, 53, 1, 2, 255];
       ack = dhcp_example @ DHCP_MAGIC @ [53, 1, 5, 255]
   in \<exists>i1 i2 config. iface_receive (dhcp_server_frame MAC_DEFAULT (Ipv4 10 0 0 1) 1 ack) 9 i1 = Some ([], i2)
     \<and> if_config i2 = Some config \<and> cf_address config = Ipv4 10 0 0 9"
proof -
  let ?offer = "dhcp_example @ DHCP_MAGIC @ [54, 4, 10, 0, 0, 1, 53, 1, 2, 255]"
  let ?ack = "dhcp_example @ DHCP_MAGIC @ [53, 1, 5, 255]"
  let ?r1 = "\<lparr>dr_kind = Offer, dr_address = Ipv4 10 0 0 9, dr_server = Some (Ipv4 10 0 0 1), dr_netmask = None, dr_router = None, dr_dns = None, dr_lease_secs = None\<rparr>"
  let ?r2 = "\<lparr>dr_kind = Ack, dr_address = Ipv4 10 0 0 9, dr_server = None, dr_netmask = None, dr_router = None, dr_dns = None, dr_lease_secs = None\<rparr>"
  have parse: "dhcp_parse_reply ?offer 7 MAC_DEFAULT = Some (Some ?r1)" "dhcp_parse_reply ?ack 7 MAC_DEFAULT = Some (Some ?r2)"
    by (code_simp, code_simp)
  have len: "length ?offer \<le> 65507" "length ?ack \<le> 65507" by (simp_all add: dhcp_example_def DHCP_MAGIC_def)
  show ?thesis
    using dhcp_conversation [of "iface_new MAC_DEFAULT 7" 7 0 ?offer ?ack ?r1 "Ipv4 10 0 0 1" ?r2 MAC_DEFAULT "Ipv4 10 0 0 1" 0 0 1 9]
      parse len by (simp add: iface_new_def Let_def) metis
qed

end
