(* ===== verification/Time.thy ===== *)
theory Time
  imports Text
begin

text \<open>
  Calendar dates, \<open>rustypi-core/src/time.rs\<close>: Howard Hinnant's conversions between days and dates,
  the Swedish summer time, and the date and time words of a FAT directory entry. Years and days are
  \<open>i64\<close> in the source and \<open>int\<close> here: they stay far from its bounds (\<open>from_unix\<close> is called with a
  \<open>u64\<close> divided by 86400). \<open>div_euclid\<close> and \<open>rem_euclid\<close> by a positive number are \<open>div\<close> and \<open>mod\<close>;
  the plain divisions are of numbers that are not negative. A sum of a \<open>u64\<close> wraps around.

  The reference is the calendar itself: the day after a date, and 1970-01-01 plus \<open>n\<close> of them.
\<close>

record date_time =
  dt_year :: int
  dt_month :: int
  dt_day :: int
  dt_hour :: int
  dt_minute :: int
  dt_second :: int
  dt_weekday :: int

definition WEEKDAYS :: "string list" where
  "WEEKDAYS = [''Mon'', ''Tue'', ''Wed'', ''Thu'', ''Fri'', ''Sat'', ''Sun'']"

definition days_from_civil :: "int \<Rightarrow> int \<Rightarrow> int \<Rightarrow> int" where
  "days_from_civil year0 month0 day =
     (let (year1, month) = (if month0 > 12 then (year0 + 1, month0 - 12) else (year0, month0));
          year = (if month \<le> 2 then year1 - 1 else year1);
          era = year div 400;
          yoe = year mod 400;
          mp = (month + 9) mod 12;
          doy = (153 * mp + 2) div 5 + day - 1;
          doe = yoe * 365 + yoe div 4 - yoe div 100 + doy
      in era * 146097 + doe - 719468)"

definition last_sunday :: "int \<Rightarrow> int \<Rightarrow> int" where
  "last_sunday year month =
     (let last = days_from_civil year (month + 1) 1 - 1
      in last - ((last + 3) mod 7 + 1) mod 7)"

definition from_unix :: "nat \<Rightarrow> date_time" where
  "from_unix unix =
     (let days = int (unix div 86400);
          seconds = int (unix mod 86400);
          z = days + 719468;
          era = z div 146097;
          doe = z mod 146097;
          yoe = (doe - doe div 1460 + doe div 36524 - doe div 146096) div 365;
          doy = doe - (365 * yoe + yoe div 4 - yoe div 100);
          mp = (5 * doy + 2) div 153;
          day = doy - (153 * mp + 2) div 5 + 1;
          month = (if mp < 10 then mp + 3 else mp - 9);
          year = yoe + era * 400 + (if month \<le> 2 then 1 else 0)
      in \<lparr>dt_year = year, dt_month = month, dt_day = day, dt_hour = seconds div 3600,
          dt_minute = seconds div 60 mod 60, dt_second = seconds mod 60, dt_weekday = (days + 3) mod 7\<rparr>)"

datatype zone = Utc | Sweden

definition zone_all :: "zone list" where "zone_all = [Utc, Sweden]"

fun zone_name :: "zone \<Rightarrow> rstr" where
  "zone_name Utc = ascii ''utc''"
| "zone_name Sweden = ascii ''sv''"

definition zone_from_name :: "rstr \<Rightarrow> zone option" where
  "zone_from_name name =
     (if name = ascii ''utc'' then Some Utc
      else if name \<in> {ascii ''sv'', ascii ''se'', ascii ''cet''} then Some Sweden else None)"

definition as_i64 :: "nat \<Rightarrow> int" where
  \<comment> \<open>\<open>as i64\<close> of a \<open>u64\<close>\<close>
  "as_i64 n = (if n < 2 ^ 63 then int n else int n - 2 ^ 64)"

fun zone_offset :: "zone \<Rightarrow> nat \<Rightarrow> nat \<times> string" where
  "zone_offset Utc unix = (0, ''UTC'')"
| "zone_offset Sweden unix =
     (let year = dt_year (from_unix unix);
          start = last_sunday year 3 * 86400 + 3600;
          stop = last_sunday year 10 * 86400 + 3600
      in if start \<le> as_i64 unix \<and> as_i64 unix < stop then (7200, ''CEST'') else (3600, ''CET''))"

definition zone_local :: "zone \<Rightarrow> nat \<Rightarrow> date_time \<times> string" where
  "zone_local zone unix = (let (offset, name) = zone_offset zone unix in (from_unix ((unix + offset) mod 2 ^ 64), name))"

definition date_fat :: "date_time \<Rightarrow> u16 \<times> u16" where
  "date_fat d =
     (if dt_year d < 1980 then (push_bit 5 1 OR 1, 0)
      else let year = of_int (min (dt_year d - 1980) 127) :: u16;
               date = push_bit 9 year OR push_bit 5 (of_int (dt_month d)) OR of_int (dt_day d);
               time = push_bit 11 (of_int (dt_hour d)) OR push_bit 5 (of_int (dt_minute d)) OR of_int (dt_second d) div 2
           in (date, time))"

definition dec2 :: "int \<Rightarrow> rstr" where
  \<comment> \<open>\<open>{:02}\<close> of a number that is not negative\<close>
  "dec2 n = (if n < 10 then 48 # dec (nat n) else dec (nat n))"

definition dec_int :: "int \<Rightarrow> rstr" where
  "dec_int n = (if n < 0 then 45 # dec (nat (- n)) else dec (nat n))"

definition date_display :: "date_time \<Rightarrow> rstr" where
  "date_display d =
     ascii (WEEKDAYS ! nat (dt_weekday d)) @ [32] @ dec_int (dt_year d) @ [45] @ dec2 (dt_month d) @ [45] @ dec2 (dt_day d)
     @ [32] @ dec2 (dt_hour d) @ [58] @ dec2 (dt_minute d) @ [58] @ dec2 (dt_second d)"

subsection \<open>The calendar\<close>

definition leap :: "int \<Rightarrow> bool" where
  "leap y \<longleftrightarrow> 4 dvd y \<and> (100 dvd y \<longrightarrow> 400 dvd y)"

definition month_length :: "int \<Rightarrow> int \<Rightarrow> int" where
  "month_length y m = (if m = 2 then (if leap y then 29 else 28) else if m \<in> {4, 6, 9, 11} then 30 else 31)"

type_synonym civil = "int \<times> int \<times> int"

fun next_day :: "civil \<Rightarrow> civil" where
  "next_day (y, m, d) =
     (if d < month_length y m then (y, m, d + 1) else if m < 12 then (y, m + 1, 1) else (y + 1, 1, 1))"

fun valid_date :: "civil \<Rightarrow> bool" where
  "valid_date (y, m, d) \<longleftrightarrow> 1 \<le> m \<and> m \<le> 12 \<and> 1 \<le> d \<and> d \<le> month_length y m"

definition calendar :: "nat \<Rightarrow> civil" where
  \<comment> \<open>the date \<open>n\<close> days after 1970-01-01, day by day\<close>
  "calendar n = (next_day ^^ n) (1970, 1, 1)"

subsection \<open>Lemmas\<close>

lemma month_cases:
  fixes m :: int
  assumes "1 \<le> m" and "m \<le> 12"
  obtains "m = 1" | "m = 2" | "m = 3" | "m = 4" | "m = 5" | "m = 6" | "m = 7" | "m = 8" | "m = 9" | "m = 10" | "m = 11" | "m = 12"
proof -
  have "m = 1 \<or> m = 2 \<or> m = 3 \<or> m = 4 \<or> m = 5 \<or> m = 6 \<or> m = 7 \<or> m = 8 \<or> m = 9 \<or> m = 10 \<or> m = 11 \<or> m = 12"
    using assms by presburger
  then show ?thesis using that by blast
qed

lemma month_length_bounds: "28 \<le> month_length y m" "month_length y m \<le> 31"
  by (auto simp: month_length_def)

definition year_start :: "int \<Rightarrow> int" where
  \<comment> \<open>days before 1 March of a year, counted from 1 March of the year 0\<close>
  "year_start y = 365 * y + y div 4 - y div 100 + y div 400"

lemma year_start_era:
  "(y div 400) * 146097 + (y mod 400 * 365 + y mod 400 div 4 - y mod 400 div 100) = year_start y"
proof -
  obtain e r where er: "e = y div 400" "r = y mod 400" by simp
  have y: "y = r + e * 400" by (simp add: er)
  have "(r + e * 400) div 4 = r div 4 + 100 * e" using div_mult_self1 [of 4 r "100 * e"] by (simp add: algebra_simps)
  moreover have "(r + e * 400) div 100 = r div 100 + 4 * e"
    using div_mult_self1 [of 100 r "4 * e"] by (simp add: algebra_simps)
  ultimately have "y div 4 = r div 4 + 100 * e" "y div 100 = r div 100 + 4 * e" unfolding y by simp_all
  then show ?thesis unfolding year_start_def er(1) [symmetric] er(2) [symmetric] using y by linarith
qed

lemma div_pred: "0 < k \<Longrightarrow> (y - 1) div k = y div k - (if k dvd y then 1 else (0 :: int))"
proof -
  assume k: "0 < k"
  have y: "y = k * (y div k) + y mod k" by simp
  show ?thesis
  proof (cases "y mod k = 0")
    case True
    then have "y - 1 = k * (y div k - 1) + (k - 1)" using y by (simp add: algebra_simps)
    then have "(y - 1) div k = y div k - 1" using k by (intro int_div_pos_eq [where r = "k - 1"]) auto
    then show ?thesis using True by (simp add: dvd_eq_mod_eq_0)
  next
    case False
    have "0 \<le> y mod k - 1" "y mod k - 1 < k" using False k pos_mod_sign [of k y] pos_mod_bound [of k y] by linarith+
    moreover have "y - 1 = k * (y div k) + (y mod k - 1)" using y by linarith
    ultimately have "(y - 1) div k = y div k" by (intro int_div_pos_eq)
    then show ?thesis using False by (simp add: dvd_eq_mod_eq_0)
  qed
qed

lemma year_start_step: "year_start y = year_start (y - 1) + 365 + (if leap y then 1 else 0)"
proof -
  have sums: "365 * y + a - b + c = 365 * (y - 1) + a' - b' + c' + 365 + l"
    if "a' = a - i" "b' = b - j" "c' = c - k" "l = i - j + k" for a b c a' b' c' i j k l
    using that by (simp add: algebra_simps)
  have d: "4 dvd y" if "100 dvd y" using that by (rule dvd_trans [rotated]) simp
  have e: "100 dvd y" if "400 dvd y" using that by (rule dvd_trans [rotated]) simp
  show ?thesis
    unfolding year_start_def
  proof (rule sums)
    show "(y - 1) div 4 = y div 4 - (if 4 dvd y then 1 else 0)" by (rule div_pred) simp
    show "(y - 1) div 100 = y div 100 - (if 100 dvd y then 1 else 0)" by (rule div_pred) simp
    show "(y - 1) div 400 = y div 400 - (if 400 dvd y then 1 else 0)" by (rule div_pred) simp
    show "(if leap y then 1 else 0) = (if 4 dvd y then 1 else 0) - (if 100 dvd y then 1 else 0) + (if 400 dvd y then 1 else (0 :: int))"
    proof -
      have b: "(if P \<and> (Q \<longrightarrow> R) then 1 else 0) = (if P then 1 else 0) - (if Q then 1 else 0) + (if R then 1 else (0 :: int))"
        if "Q \<longrightarrow> P" "R \<longrightarrow> Q" for P Q R
        using that by (cases P; cases Q; cases R) simp_all
      show ?thesis unfolding leap_def by (rule b) (rule impI, erule d, rule impI, erule e)
    qed
  qed
qed

definition march_day :: "int \<Rightarrow> int \<Rightarrow> int" where
  "march_day m d = (153 * ((m + 9) mod 12) + 2) div 5 + d - 1"

definition march_year :: "int \<Rightarrow> int \<Rightarrow> int" where
  "march_year y m = (if m \<le> 2 then y - 1 else y)"

lemma days_from_civil_parts:
  assumes "m \<le> 12"
  shows "days_from_civil y m d = year_start (march_year y m) + march_day m d - 719468"
proof -
  have regroup: "e + (a + x) - c = (e + a) + x - c" for e a x c :: int by simp
  have "\<not> 12 < m" using assms by simp
  then have "days_from_civil y m d = march_year y m div 400 * 146097 +
      ((march_year y m mod 400 * 365 + march_year y m mod 400 div 4 - march_year y m mod 400 div 100) + march_day m d) - 719468"
    unfolding days_from_civil_def Let_def march_day_def march_year_def by (simp only: if_False split_conv)
  then show ?thesis unfolding regroup year_start_era .
qed

lemma days_from_civil_next:
  assumes "valid_date (y, m, d)"
  shows "(case next_day (y, m, d) of (y', m', d') \<Rightarrow> days_from_civil y' m' d') = days_from_civil y m d + 1"
proof (cases "d < month_length y m")
  case True
  then show ?thesis using assms by (simp add: days_from_civil_parts march_day_def)
next
  case False
  then have d: "d = month_length y m" using assms by simp
  from assms have "1 \<le> m" "m \<le> 12" by simp_all
  then show ?thesis using year_start_step [of y]
    by (cases rule: month_cases)
       (simp_all add: days_from_civil_parts d march_day_def march_year_def month_length_def)
qed

lemma valid_next: "valid_date c \<Longrightarrow> valid_date (next_day c)"
  using month_length_bounds by (cases c) (auto intro: order_trans [of _ 28])

subsubsection \<open>Days back to dates\<close>

lemma year_of_era_parts:
  fixes c q r doy :: int
  assumes "0 \<le> c" "c \<le> 3" "0 \<le> q" "q \<le> 24" "0 \<le> r" "r \<le> 3" "0 \<le> doy" "doy \<le> 365"
    and "doy = 365 \<Longrightarrow> r = 3 \<and> (q = 24 \<longrightarrow> c = 3)"
  defines "doe \<equiv> 36524 * c + 1461 * q + 365 * r + doy"
  shows "(doe - doe div 1460 + doe div 36524 - doe div 146096) div 365 = 100 * c + 4 * q + r"
proof -
  have a: "doe div 36524 - doe div 146096 = c"
  proof (cases "q = 24 \<and> r = 3 \<and> doy = 365")
    case True
    then have "doe = 146096" using assms(9) by (simp add: doe_def)
    then show ?thesis using True assms(9) by simp
  next
    case False
    then have "1461 * q + 365 * r + doy < 36524" using assms(3-9) by (cases "q = 24"; cases "r = 3") linarith+
    then have "doe div 36524 = c" "doe div 146096 = 0"
      using assms(1-7) by (auto simp: doe_def intro: int_div_pos_eq [where r = "1461 * q + 365 * r + doy"] div_pos_pos_trivial)
    then show ?thesis by simp
  qed
  define e where "e = 24 * c + q + 365 * r + doy"
  define k where "k = (if e < 1460 then 0 else 1 :: int)"
  have b: "doe div 1460 = 25 * c + q + k"
    using assms(1-8) by (intro int_div_pos_eq [where r = "e - 1460 * k"]) (auto simp: doe_def e_def k_def split: if_splits)
  have "doy \<noteq> 365" if "e < 1460" using assms(1,3,9) that by (auto simp: e_def)
  then have "0 \<le> doy - k" "doy - k < 365" using assms(1-8) by (auto simp: e_def k_def split: if_splits)
  moreover have "doe - doe div 1460 + doe div 36524 - doe div 146096 = 365 * (100 * c + 4 * q + r) + (doy - k)"
    using a b by (simp add: doe_def)
  ultimately show ?thesis by (intro int_div_pos_eq)
qed

lemma year_of_era:
  fixes yoe doy :: int
  assumes "0 \<le> yoe" "yoe < 400" "0 \<le> doy" "doy \<le> 365"
    and "doy = 365 \<Longrightarrow> leap (yoe + 1)"
  defines "doe \<equiv> yoe * 365 + yoe div 4 - yoe div 100 + doy"
  shows "(doe - doe div 1460 + doe div 36524 - doe div 146096) div 365 = yoe" and "0 \<le> doe" and "doe < 146097"
proof -
  obtain c s where s: "yoe = 100 * c + s" "0 \<le> s" "s < 100"
    using mult_div_mod_eq [of 100 yoe] pos_mod_sign [of 100 yoe] pos_mod_bound [of 100 yoe] by (metis zero_less_numeral)
  obtain q r where r: "s = 4 * q + r" "0 \<le> r" "r < 4"
    using mult_div_mod_eq [of 4 s] pos_mod_sign [of 4 s] pos_mod_bound [of 4 s] by (metis zero_less_numeral)
  have ranges: "0 \<le> c" "c \<le> 3" "0 \<le> q" "q \<le> 24" "r \<le> 3" using s r assms(1,2) by linarith+
  have "yoe div 100 = c" by (rule int_div_pos_eq [OF s])
  moreover have "yoe div 4 = 25 * c + q" using s(1) r by (intro int_div_pos_eq [where r = r]) auto
  ultimately have doe: "doe = 36524 * c + 1461 * q + 365 * r + doy" using s(1) r(1) by (simp add: doe_def)
  have last: "r = 3 \<and> (q = 24 \<longrightarrow> c = 3)" if "doy = 365"
  proof -
    have l: "4 dvd yoe + 1" "100 dvd yoe + 1 \<longrightarrow> 400 dvd yoe + 1" using assms(5) [OF that] by (auto simp: leap_def)
    have three: "x = 3" if "4 dvd x + 1" "0 \<le> x" "x < 4" for x :: int
      using zdvd_imp_le [OF that(1)] that(2,3) by linarith
    have "yoe + 1 = (r + 1) + 4 * (25 * c + q)" using s(1) r(1) by simp
    then have "4 dvd r + 1" using l(1) dvd_add_left_iff [of 4 "4 * (25 * c + q)" "r + 1"] by (simp only: dvd_triv_left)
    then have "r = 3" by (rule three) (use r in simp_all)
    moreover have "c = 3" if "q = 24"
    proof -
      have y: "yoe + 1 = 100 * (c + 1)" using s(1) r(1) that \<open>r = 3\<close> by simp
      then have "100 dvd yoe + 1" by simp
      then have "100 * 4 dvd 100 * (c + 1)" using l(2) y by simp
      then have "4 dvd c + 1" by (subst (asm) dvd_mult_cancel_left) simp
      then show ?thesis by (rule three) (use ranges(1,2) in simp_all)
    qed
    ultimately show ?thesis by blast
  qed
  show "(doe - doe div 1460 + doe div 36524 - doe div 146096) div 365 = yoe"
    unfolding doe using year_of_era_parts [OF ranges(1-4) r(2) ranges(5) assms(3,4) last] s(1) r(1) by simp
  show "0 \<le> doe" "doe < 146097" unfolding doe using ranges r assms(3,4) last by linarith+
qed

lemma march_day_recover:
  assumes "valid_date (y, m, d)"
  shows "(5 * march_day m d + 2) div 153 = (m + 9) mod 12" and "march_day m d - (153 * ((m + 9) mod 12) + 2) div 5 + 1 = d"
    and "0 \<le> march_day m d" and "march_day m d \<le> 365" and "march_day m d = 365 \<Longrightarrow> m = 2 \<and> leap y"
proof -
  from assms have m: "1 \<le> m" "m \<le> 12" and d: "1 \<le> d" "d \<le> month_length y m" by simp_all
  show "march_day m d - (153 * ((m + 9) mod 12) + 2) div 5 + 1 = d" by (simp add: march_day_def)
  from m show "(5 * march_day m d + 2) div 153 = (m + 9) mod 12"
  proof (cases rule: month_cases)
    case 2
    then have "d \<le> 29" using d(2) by (simp add: month_length_def split: if_splits)
    then show ?thesis using d(1) 2 by (simp add: march_day_def)
  qed (use d in \<open>simp_all add: march_day_def month_length_def\<close>)
  from m show "0 \<le> march_day m d" by (cases rule: month_cases) (use d in \<open>simp_all add: march_day_def\<close>)
  from m show "march_day m d \<le> 365" by (cases rule: month_cases) (use d in \<open>simp_all add: march_day_def month_length_def split: if_splits\<close>)
  from m show "march_day m d = 365 \<Longrightarrow> m = 2 \<and> leap y"
    by (cases rule: month_cases) (use d in \<open>simp_all add: march_day_def month_length_def split: if_splits\<close>)
qed

lemma from_unix_date:
  assumes "valid_date (y, m, d)" and "int n = days_from_civil y m d" and "s < 86400"
  shows "let t = from_unix (n * 86400 + s) in dt_year t = y \<and> dt_month t = m \<and> dt_day t = d"
proof -
  define Y where "Y = march_year y m"
  define doy where "doy = march_day m d"
  define era where "era = Y div 400"
  define yoe where "yoe = Y mod 400"
  define doe where "doe = yoe * 365 + yoe div 4 - yoe div 100 + doy"
  have m: "1 \<le> m" "m \<le> 12" using assms(1) by simp_all
  note rec = march_day_recover [OF assms(1), folded doy_def]
  have yoe: "0 \<le> yoe" "yoe < 400" by (simp_all add: yoe_def)
  have leap: "leap (yoe + 1)" if "doy = 365"
  proof -
    have "leap (Y + 1)" using rec(5) [OF that] by (simp add: Y_def march_year_def)
    moreover have "Y + 1 = (yoe + 1) + 400 * era" by (simp add: yoe_def era_def)
    then have "k dvd Y + 1 \<longleftrightarrow> k dvd yoe + 1" if "k dvd 400" for k
      using dvd_add_left_iff [of k "400 * era" "yoe + 1"] that by (simp only: dvd_mult2)
    ultimately show ?thesis unfolding leap_def by simp
  qed
  have era_doe: "(doe - doe div 1460 + doe div 36524 - doe div 146096) div 365 = yoe" "0 \<le> doe" "doe < 146097"
    unfolding doe_def by (rule year_of_era [OF yoe rec(3,4) leap]; assumption)+
  have z: "int n + 719468 = 146097 * era + doe"
    using days_from_civil_parts [OF m(2), of y d] year_start_era [of Y] assms(2)
    unfolding Y_def [symmetric] doy_def [symmetric] era_def [symmetric] yoe_def [symmetric] doe_def by linarith
  have zdiv: "(int n + 719468) div 146097 = era" "(int n + 719468) mod 146097 = doe"
    using era_doe(2,3) z by (auto intro: int_div_pos_eq int_mod_pos_eq)
  have doy: "doe - (365 * yoe + yoe div 4 - yoe div 100) = doy" by (simp add: doe_def)
  have days: "int ((n * 86400 + s) div 86400) = int n" using assms(3) by simp
  have Y: "yoe + era * 400 = Y" by (simp add: yoe_def era_def)
  have month: "(if (m + 9) mod 12 < 10 then (m + 9) mod 12 + 3 else (m + 9) mod 12 - 9) = m"
    using m by (cases rule: month_cases) simp_all
  have year: "Y + (if m \<le> 2 then 1 else 0) = y" by (simp add: Y_def march_year_def)
  show ?thesis
    unfolding from_unix_def Let_def days zdiv era_doe(1) doy rec(1,2) month Y year by (simp only: date_time.select_convs simp_thms)
qed

lemma calendar_days:
  "valid_date (calendar n) \<and> (case calendar n of (y, m, d) \<Rightarrow> days_from_civil y m d) = int n"
proof (induction n)
  case 0
  show ?case by (simp add: calendar_def month_length_def days_from_civil_def Let_def)
next
  case (Suc n)
  obtain y m d where c: "calendar n = (y, m, d)" by (cases "calendar n")
  have "calendar (Suc n) = next_day (y, m, d)" using c by (simp add: calendar_def)
  then show ?case using Suc c valid_next [of "(y, m, d)"] days_from_civil_next [of y m d] by simp
qed

lemma last_sunday_correct:
  \<comment> \<open>it is a Sunday (day 6 of the week, 1970-01-01 being day 3) among the last seven days of the month\<close>
  assumes "1 \<le> m" and "m \<le> 11"
  shows "(last_sunday y m + 3) mod 7 = 6"
    and "\<exists>d. month_length y m - 7 < d \<and> d \<le> month_length y m \<and> last_sunday y m = days_from_civil y m d"
proof -
  define last where "last = days_from_civil y (m + 1) 1 - 1"
  define k where "k = ((last + 3) mod 7 + 1) mod 7"
  have k: "0 \<le> k" "k < 7" by (simp_all add: k_def)
  have ls: "last_sunday y m = last - k" by (simp add: last_sunday_def last_def k_def Let_def)
  show "(last_sunday y m + 3) mod 7 = 6" unfolding ls k_def by presburger
  have "valid_date (y, m, month_length y m)" using assms month_length_bounds [of y m] by simp
  then have "days_from_civil y (m + 1) 1 = days_from_civil y m (month_length y m) + 1"
    using days_from_civil_next [of y m "month_length y m"] assms(2) by simp
  then have "last_sunday y m = days_from_civil y m (month_length y m) - k" using ls by (simp add: last_def)
  also have "\<dots> = days_from_civil y m (month_length y m - k)"
    using assms(2) by (simp add: days_from_civil_parts march_day_def)
  finally show "\<exists>d. month_length y m - 7 < d \<and> d \<le> month_length y m \<and> last_sunday y m = days_from_civil y m d"
    using k by (intro exI [of _ "month_length y m - k"]) simp
qed

lemma from_unix_valid:
  "(dt_year (from_unix unix), dt_month (from_unix unix), dt_day (from_unix unix)) = calendar (unix div 86400)"
proof -
  obtain y m d where c: "calendar (unix div 86400) = (y, m, d)" by (cases "calendar (unix div 86400)")
  have "unix = unix div 86400 * 86400 + unix mod 86400" by simp
  moreover have "valid_date (y, m, d)" "int (unix div 86400) = days_from_civil y m d"
    using calendar_days [of "unix div 86400"] c by simp_all
  ultimately show ?thesis using from_unix_date [of y m d "unix div 86400" "unix mod 86400"] c
    by (simp add: Let_def)
qed

lemma from_unix_time:
  "dt_hour (from_unix unix) = int (unix mod 86400) div 3600" "dt_minute (from_unix unix) = int (unix mod 86400) div 60 mod 60"
  "dt_second (from_unix unix) = int (unix mod 86400) mod 60" "dt_weekday (from_unix unix) = (int (unix div 86400) + 3) mod 7"
  by (simp_all only: from_unix_def Let_def date_time.select_convs)

lemma from_unix_ranges:
  defines "t unix \<equiv> from_unix unix"
  shows "1 \<le> dt_month (t unix)" "dt_month (t unix) \<le> 12" "1 \<le> dt_day (t unix)" "dt_day (t unix) \<le> 31"
    "0 \<le> dt_hour (t unix)" "dt_hour (t unix) < 24" "0 \<le> dt_minute (t unix)" "dt_minute (t unix) < 60"
    "0 \<le> dt_second (t unix)" "dt_second (t unix) < 60"
proof -
  have "valid_date (dt_year (t unix), dt_month (t unix), dt_day (t unix))"
    unfolding t_def from_unix_valid using calendar_days by blast
  then show "1 \<le> dt_month (t unix)" "dt_month (t unix) \<le> 12" "1 \<le> dt_day (t unix)" "dt_day (t unix) \<le> 31"
    using month_length_bounds(2) [of "dt_year (t unix)" "dt_month (t unix)"] by simp_all
  have "unix mod 86400 div 3600 < 24" by (rule less_mult_imp_div_less) simp
  then have "int (unix mod 86400 div 3600) < int 24" by (simp only: of_nat_less_iff)
  then show "dt_hour (t unix) < 24" unfolding t_def from_unix_time by (simp only: zdiv_int of_nat_numeral)
  show "0 \<le> dt_hour (t unix)" unfolding t_def from_unix_time by (rule pos_imp_zdiv_nonneg_iff [THEN iffD2]) simp_all
  show "0 \<le> dt_minute (t unix)" "dt_minute (t unix) < 60" "0 \<le> dt_second (t unix)" "dt_second (t unix) < 60"
    unfolding t_def from_unix_time by (rule pos_mod_sign pos_mod_bound, simp)+
qed

subsection \<open>Properties\<close>

text \<open>C31: the date of a Unix time is the calendar's: counting day by day from 1970-01-01 with the
  Gregorian rules for the lengths of months and leap years gives the year, month and day the closed
  formulas compute, for every time; the day of the week advances by one a day from a Thursday; and
  hour, minute and second are in range and make up the seconds of the day.\<close>
theorem from_unix_calendar:
  "(dt_year (from_unix unix), dt_month (from_unix unix), dt_day (from_unix unix)) = calendar (unix div 86400)
   \<and> dt_weekday (from_unix unix) = (3 + int (unix div 86400)) mod 7
   \<and> dt_hour (from_unix unix) * 3600 + dt_minute (from_unix unix) * 60 + dt_second (from_unix unix) = int (unix mod 86400)
   \<and> dt_hour (from_unix unix) \<in> {0..23} \<and> dt_minute (from_unix unix) \<in> {0..59} \<and> dt_second (from_unix unix) \<in> {0..59}"
proof (intro conjI)
  show "(dt_year (from_unix unix), dt_month (from_unix unix), dt_day (from_unix unix)) = calendar (unix div 86400)"
    by (rule from_unix_valid)
  show "dt_weekday (from_unix unix) = (3 + int (unix div 86400)) mod 7"
    by (simp only: from_unix_time add.commute)
  have split: "s div 3600 * 3600 + s div 60 mod 60 * 60 + s mod 60 = s" for s :: int
  proof -
    have regroup: "x * 3600 + y * 60 + z = (x * 60 + y) * 60 + z" for x y z :: int by simp
    have "s div 3600 = s div 60 div 60" using zdiv_zmult2_eq [of 60 s 60] by simp
    then show ?thesis by (simp only: regroup div_mult_mod_eq)
  qed
  show "dt_hour (from_unix unix) * 3600 + dt_minute (from_unix unix) * 60 + dt_second (from_unix unix) = int (unix mod 86400)"
    unfolding from_unix_time by (rule split)
qed (use from_unix_ranges [of unix] in auto)

lemma fat_field:
  \<comment> \<open>three fields of a 16-bit word, \<open>n\<close> and \<open>m\<close> bits wide from the bottom\<close>
  fixes a b c :: u16
  assumes "take_bit n c = c" and "take_bit m b = b" and "n + m \<le> 16" and "take_bit (16 - (n + m)) a = a"
  defines "w \<equiv> push_bit (n + m) a OR push_bit n b OR c"
  shows "drop_bit (n + m) w = a" and "take_bit m (drop_bit n w) = b" and "take_bit n w = c"
proof -
  have bits: "bit c k \<Longrightarrow> k < n" "bit b k \<Longrightarrow> k < m" for k
    using assms(1,2) by (metis bit_take_bit_iff)+
  have bita: "bit a k \<Longrightarrow> n + m + k < 16" for k
  proof -
    assume "bit a k"
    then have "bit (take_bit (16 - (n + m)) a) k" by (simp only: assms(4))
    then have "k < 16 - (n + m)" by (simp only: bit_take_bit_iff)
    then show ?thesis by linarith
  qed
  have bitb: "bit b k \<Longrightarrow> n + k < 16" for k using bits(2) [of k] assms(3) by linarith
  show "drop_bit (n + m) w = a"
    by (rule bit_word_eqI) (use bits(1) [of "n + m + _"] bits(2) [of "m + _"] bita in \<open>auto simp: w_def bit_simps\<close>)
  show "take_bit m (drop_bit n w) = b"
    by (rule bit_word_eqI) (use bits(1) [of "n + _"] bits(2) bitb in \<open>auto simp: w_def bit_simps\<close>)
  show "take_bit n w = c"
    by (rule bit_word_eqI) (use bits(1) assms(3) in \<open>auto simp: w_def bit_simps\<close>)
qed

lemma take_bit_small: "0 \<le> v \<Longrightarrow> v < 2 ^ k \<Longrightarrow> k \<le> 16 \<Longrightarrow> take_bit k (of_int v :: u16) = of_int v \<and> uint (of_int v :: u16) = v"
proof -
  assume v: "0 \<le> v" "v < 2 ^ k" "k \<le> 16"
  have "(2 :: int) ^ k \<le> 2 ^ 16" using v(3) by (intro power_increasing) auto
  then have u: "uint (of_int v :: u16) = v" using v by (simp add: uint_word_of_int_eq take_bit_int_eq_self)
  moreover have "uint (take_bit k (of_int v :: u16)) = v"
    using u v by (simp add: unsigned_take_bit_eq take_bit_int_eq_self)
  ultimately show ?thesis by (metis word_uint_eqI)
qed

text \<open>the FAT date and time words of any Unix time hold, each in its own bits and without
  touching another, the years since 1980 (at most 127), the month, the day, the hour, the minute and
  half the seconds; before 1980 they say 1980-01-01 00:00.\<close>
theorem date_fat_fields:
  defines "t unix \<equiv> from_unix unix"
  shows "let (date, time) = date_fat (t unix)
    in if dt_year (t unix) < 1980 then uint (drop_bit 9 date) = 0 \<and> uint (take_bit 4 (drop_bit 5 date)) = 1 \<and> uint (take_bit 5 date) = 1 \<and> time = 0
       else uint (drop_bit 9 date) = min (dt_year (t unix) - 1980) 127
         \<and> uint (take_bit 4 (drop_bit 5 date)) = dt_month (t unix) \<and> uint (take_bit 5 date) = dt_day (t unix)
         \<and> uint (drop_bit 11 time) = dt_hour (t unix) \<and> uint (take_bit 6 (drop_bit 5 time)) = dt_minute (t unix)
         \<and> uint (take_bit 5 time) = dt_second (t unix) div 2"
proof (cases "dt_year (t unix) < 1980")
  case True
  then show ?thesis by (simp add: date_fat_def)
next
  case False
  let ?u = "t unix"
  note ranges = from_unix_ranges [of unix, folded t_def]
  let ?y = "min (dt_year ?u - 1980) 127"
  have y: "take_bit 7 (of_int ?y :: u16) = of_int ?y" "uint (of_int ?y :: u16) = ?y"
    using take_bit_small [of ?y 7] False by auto
  have m: "take_bit 4 (of_int (dt_month ?u) :: u16) = of_int (dt_month ?u)" "uint (of_int (dt_month ?u) :: u16) = dt_month ?u"
    using take_bit_small [of "dt_month ?u" 4] ranges by auto
  have d: "take_bit 5 (of_int (dt_day ?u) :: u16) = of_int (dt_day ?u)" "uint (of_int (dt_day ?u) :: u16) = dt_day ?u"
    using take_bit_small [of "dt_day ?u" 5] ranges by auto
  have h: "take_bit 5 (of_int (dt_hour ?u) :: u16) = of_int (dt_hour ?u)" "uint (of_int (dt_hour ?u) :: u16) = dt_hour ?u"
    using take_bit_small [of "dt_hour ?u" 5] ranges by auto
  have mi: "take_bit 6 (of_int (dt_minute ?u) :: u16) = of_int (dt_minute ?u)" "uint (of_int (dt_minute ?u) :: u16) = dt_minute ?u"
    using take_bit_small [of "dt_minute ?u" 6] ranges by auto
  have s0: "uint (of_int (dt_second ?u) :: u16) = dt_second ?u" using take_bit_small [of "dt_second ?u" 6] ranges by auto
  have "(of_int (dt_second ?u) :: u16) div 2 = of_int (dt_second ?u div 2)"
    by (rule word_uint_eqI) (use s0 take_bit_small [of "dt_second ?u div 2" 5] ranges in \<open>simp add: uint_div\<close>)
  then have s: "take_bit 5 ((of_int (dt_second ?u) :: u16) div 2) = of_int (dt_second ?u) div 2"
    "uint ((of_int (dt_second ?u) :: u16) div 2) = dt_second ?u div 2"
    using take_bit_small [of "dt_second ?u div 2" 5] ranges by auto
  define D :: u16 where "D = push_bit 9 (of_int ?y) OR push_bit 5 (of_int (dt_month ?u)) OR of_int (dt_day ?u)"
  define T :: u16 where "T = push_bit 11 (of_int (dt_hour ?u)) OR push_bit 5 (of_int (dt_minute ?u)) OR of_int (dt_second ?u) div 2"
  have words: "date_fat ?u = (D, T)" unfolding date_fat_def if_not_P [OF False] Let_def D_def T_def ..
  have date: "drop_bit 9 D = of_int ?y" "take_bit 4 (drop_bit 5 D) = of_int (dt_month ?u)" "take_bit 5 D = of_int (dt_day ?u)"
    using fat_field [OF d(1) m(1), of "of_int ?y"] y(1) unfolding D_def by simp_all
  have time: "drop_bit 11 T = of_int (dt_hour ?u)" "take_bit 6 (drop_bit 5 T) = of_int (dt_minute ?u)"
    "take_bit 5 T = of_int (dt_second ?u) div 2"
    using fat_field [OF s(1) mi(1), of "of_int (dt_hour ?u)"] h(1) unfolding T_def by simp_all
  show ?thesis
    unfolding words Let_def split_conv if_not_P [OF False] date time by (intro conjI y(2) m(2) d(2) h(2) mi(2) s(2))
qed

end
