(* ===== verification/Paging.thy ===== *)
theory Paging
  imports Frames "HOL-Library.Monad_Syntax"
begin

text \<open>
  User address spaces, \<open>rustypi-core/src/paging.rs\<close>: three levels of page tables in physical
  memory, built page by page and walked the way the MMU does, and the copies between kernel
  buffers and program memory.

  Physical memory is an explicit store of bytes, tables included: a table entry is eight bytes of
  it, so a stray write could damage a table. The frame source is a parameter (its \<open>allocate\<close> and
  \<open>free\<close>), its contract the locale \<open>frame_source\<close>. Physical addresses are \<open>u64\<close>, as they are or'ed
  into descriptors; virtual addresses and lengths are \<open>nat\<close> below \<open>2 ^ 64\<close>, the checked additions
  written out. A \<open>BTreeMap\<close> is an association list sorted by key.
\<close>

subsection \<open>Physical memory\<close>

type_synonym memory = "nat \<Rightarrow> byte"

definition copy_in :: "nat \<Rightarrow> byte list \<Rightarrow> memory \<Rightarrow> memory" where
  "copy_in a bs m = (\<lambda>x. if a \<le> x \<and> x < a + length bs then bs ! (x - a) else m x)"

definition copy_out :: "memory \<Rightarrow> nat \<Rightarrow> nat \<Rightarrow> byte list" where
  "copy_out m a n = map (\<lambda>k. m (a + k)) [0..<n]"

definition ENTRIES :: nat where "ENTRIES = 512"

definition table_get :: "memory \<Rightarrow> u64 \<Rightarrow> nat \<Rightarrow> u64" where
  \<comment> \<open>\<open>table(physical).0[i]\<close>\<close>
  "table_get m t i = from_le (copy_out m (unat t + 8 * i) 8)"

definition table_set :: "u64 \<Rightarrow> nat \<Rightarrow> u64 \<Rightarrow> memory \<Rightarrow> memory" where
  "table_set t i w m = copy_in (unat t + 8 * i) (to_le 8 w) m"

subsection \<open>Sorted maps\<close>

fun btree_insert :: "'k::linorder \<Rightarrow> 'v \<Rightarrow> ('k \<times> 'v) list \<Rightarrow> ('k \<times> 'v) list" where
  "btree_insert k v [] = [(k, v)]"
| "btree_insert k v ((k', v') # xs) =
     (if k < k' then (k, v) # (k', v') # xs else if k = k' then (k, v) # xs else (k', v') # btree_insert k v xs)"

subsection \<open>Frames\<close>

record 's machine =
  mc_mem :: memory
  mc_src :: 's

definition zeroed_frame :: "('s \<Rightarrow> (u64 \<times> 's) option) \<Rightarrow> 's machine \<Rightarrow> (u64 \<times> 's machine) option" where
  "zeroed_frame allocate mc =
     (case allocate (mc_src mc) of
        None \<Rightarrow> None
      | Some (frame, src) \<Rightarrow> Some (frame, \<lparr>mc_mem = copy_in (unat frame) (replicate PAGE_SIZE 0) (mc_mem mc), mc_src = src\<rparr>))"

subsection \<open>Descriptors\<close>

definition VALID :: u64 where "VALID = push_bit 0 1"
definition TABLE_OR_PAGE :: u64 where "TABLE_OR_PAGE = push_bit 1 1"
definition ATTR_NORMAL :: u64 where "ATTR_NORMAL = push_bit 2 0"
definition AP_EL0 :: u64 where "AP_EL0 = push_bit 6 1"
definition AP_READ_ONLY :: u64 where "AP_READ_ONLY = push_bit 7 1"
definition INNER_SHAREABLE :: u64 where "INNER_SHAREABLE = push_bit 8 3"
definition ACCESS_FLAG :: u64 where "ACCESS_FLAG = push_bit 10 1"
definition NOT_GLOBAL :: u64 where "NOT_GLOBAL = push_bit 11 1"
definition PRIVILEGED_EXECUTE_NEVER :: u64 where "PRIVILEGED_EXECUTE_NEVER = push_bit 53 1"
definition USER_EXECUTE_NEVER :: u64 where "USER_EXECUTE_NEVER = push_bit 54 1"
definition ADDRESS :: u64 where "ADDRESS = 0x0000FFFFFFFFF000"

datatype access = ReadOnly | ReadWrite | ReadExecute

definition ACCESS_ALL :: "access list" where "ACCESS_ALL = [ReadOnly, ReadWrite, ReadExecute]"

definition descriptor_bits :: "access \<Rightarrow> u64" where
  "descriptor_bits access =
     (let common = VALID OR TABLE_OR_PAGE OR ATTR_NORMAL OR AP_EL0 OR INNER_SHAREABLE OR ACCESS_FLAG OR NOT_GLOBAL
                   OR PRIVILEGED_EXECUTE_NEVER
      in case access of
           ReadOnly \<Rightarrow> common OR AP_READ_ONLY OR USER_EXECUTE_NEVER
         | ReadWrite \<Rightarrow> common OR USER_EXECUTE_NEVER
         | ReadExecute \<Rightarrow> common OR AP_READ_ONLY)"

definition from_descriptor :: "u64 \<Rightarrow> access option" where
  "from_descriptor descriptor = List.find (\<lambda>access. descriptor_bits access = descriptor AND NOT ADDRESS) ACCESS_ALL"

definition writable :: "access \<Rightarrow> bool" where
  "writable access \<longleftrightarrow> access = ReadWrite"

datatype map_error = NotAligned | OutsideWindow | AlreadyMapped | OutOfMemory

subsection \<open>Address spaces\<close>

record space =
  sp_root :: u64
  sp_level2 :: u64
  sp_level3 :: "(nat \<times> u64) list"
  sp_frames :: "(nat \<times> u64) list"

definition level1_index :: "nat \<Rightarrow> nat" where "level1_index va = va div 2 ^ 30 mod ENTRIES"
definition level2_index :: "nat \<Rightarrow> nat" where "level2_index va = va div 2 ^ 21 mod ENTRIES"
definition level3_index :: "nat \<Rightarrow> nat" where "level3_index va = va div 2 ^ 12 mod ENTRIES"

definition space_new ::
  "('s \<Rightarrow> (u64 \<times> 's) option) \<Rightarrow> (u64 \<Rightarrow> 's \<Rightarrow> 's option) \<Rightarrow> u64 list \<Rightarrow> 's machine \<Rightarrow> (space option \<times> 's machine) option" where
  \<comment> \<open>the outer \<open>None\<close> is a panic of \<open>free\<close>, the inner one \<open>OutOfMemory\<close>\<close>
  "space_new allocate free kernel_table mc =
     (case zeroed_frame allocate mc of
        None \<Rightarrow> Some (None, mc)
      | Some (root, mc1) \<Rightarrow>
          (case zeroed_frame allocate mc1 of
             None \<Rightarrow> map_option (\<lambda>src. (None, mc1\<lparr>mc_src := src\<rparr>)) (free root (mc_src mc1))
           | Some (level2, mc2) \<Rightarrow>
               (let mem1 = copy_in (unat root) (concat (map (to_le 8) kernel_table)) (mc_mem mc2);
                    mem2 = table_set root (level1_index USER_BASE) (level2 OR VALID OR TABLE_OR_PAGE) mem1
                in Some (Some \<lparr>sp_root = root, sp_level2 = level2, sp_level3 = [], sp_frames = []\<rparr>,
                         mc2\<lparr>mc_mem := mem2\<rparr>))))"

definition translation_base :: "u8 \<Rightarrow> space \<Rightarrow> u64" where
  "translation_base asid sp = sp_root sp OR push_bit 48 (ucast asid)"

definition space_level3 ::
  "('s \<Rightarrow> (u64 \<times> 's) option) \<Rightarrow> nat \<Rightarrow> space \<Rightarrow> 's machine \<Rightarrow> (u64 \<times> space \<times> 's machine) option" where
  \<comment> \<open>the level 3 table for \<open>va\<close>, made if there is none yet\<close>
  "space_level3 allocate va sp mc =
     (case map_of (sp_level3 sp) (level2_index va) of
        Some level3 \<Rightarrow> Some (level3, sp, mc)
      | None \<Rightarrow>
          (case zeroed_frame allocate mc of
             None \<Rightarrow> None
           | Some (level3, mc1) \<Rightarrow>
               Some (level3, sp\<lparr>sp_level3 := btree_insert (level2_index va) level3 (sp_level3 sp)\<rparr>,
                     mc1\<lparr>mc_mem := table_set (sp_level2 sp) (level2_index va) (level3 OR VALID OR TABLE_OR_PAGE) (mc_mem mc1)\<rparr>)))"

definition space_map ::
  "('s \<Rightarrow> (u64 \<times> 's) option) \<Rightarrow> nat \<Rightarrow> access \<Rightarrow> space \<times> 's machine \<Rightarrow> (unit, map_error) result \<times> space \<times> 's machine" where
  "space_map allocate va access st =
     (let (sp, mc) = st
      in if va mod PAGE_SIZE \<noteq> 0 then (Err NotAligned, sp, mc)
         else if \<not> (USER_BASE \<le> va \<and> va < USER_END) then (Err OutsideWindow, sp, mc)
         else if map_of (sp_frames sp) va \<noteq> None then (Err AlreadyMapped, sp, mc)
         else case space_level3 allocate va sp mc of
                None \<Rightarrow> (Err OutOfMemory, sp, mc)
              | Some (level3, sp1, mc1) \<Rightarrow>
                  (case zeroed_frame allocate mc1 of
                     None \<Rightarrow> (Err OutOfMemory, sp1, mc1)
                   | Some (frame, mc2) \<Rightarrow>
                       (Ok (), sp1\<lparr>sp_frames := btree_insert va frame (sp_frames sp1)\<rparr>,
                        mc2\<lparr>mc_mem := table_set level3 (level3_index va) (frame OR descriptor_bits access) (mc_mem mc2)\<rparr>)))"

fun map_each ::
  "('s \<Rightarrow> (u64 \<times> 's) option) \<Rightarrow> nat list \<Rightarrow> access \<Rightarrow> space \<times> 's machine \<Rightarrow> (unit, map_error) result \<times> space \<times> 's machine" where
  "map_each allocate [] access st = (Ok (), st)"
| "map_each allocate (va # vas) access st =
     (case space_map allocate va access st of
        (Err e, st') \<Rightarrow> (Err e, st')
      | (Ok _, st') \<Rightarrow> map_each allocate vas access st')"

definition map_range ::
  "('s \<Rightarrow> (u64 \<times> 's) option) \<Rightarrow> nat \<Rightarrow> nat \<Rightarrow> access \<Rightarrow> space \<times> 's machine \<Rightarrow> (unit, map_error) result \<times> space \<times> 's machine" where
  "map_range allocate start len access st =
     (if start + len \<ge> 2 ^ 64 then (Err OutsideWindow, st)
      else map_each allocate (map (\<lambda>i. start + i * PAGE_SIZE) [0..<(len + (PAGE_SIZE - 1)) div PAGE_SIZE]) access st)"

definition next_table :: "u64 \<Rightarrow> u64 option" where
  "next_table descriptor =
     (if descriptor AND (VALID OR TABLE_OR_PAGE) = VALID OR TABLE_OR_PAGE then Some (descriptor AND ADDRESS) else None)"

definition descriptor :: "nat \<Rightarrow> space \<Rightarrow> memory \<Rightarrow> u64 option" where
  "descriptor va sp m =
     (if \<not> (USER_BASE \<le> va \<and> va < USER_END) then None
      else do {
        level2 \<leftarrow> next_table (table_get m (sp_root sp) (level1_index va));
        level3 \<leftarrow> next_table (table_get m level2 (level2_index va));
        let d = table_get m level3 (level3_index va);
        if d AND VALID \<noteq> 0 then Some d else None })"

definition translate :: "nat \<Rightarrow> space \<Rightarrow> memory \<Rightarrow> (u64 \<times> access) option" where
  "translate va sp m =
     do { d \<leftarrow> descriptor va sp m;
          access \<leftarrow> from_descriptor d;
          Some ((d AND ADDRESS) OR of_nat (va mod PAGE_SIZE), access) }"

subsection \<open>Copies\<close>

function for_each_piece ::
  "space \<Rightarrow> nat \<Rightarrow> nat \<Rightarrow> (access \<Rightarrow> bool) \<Rightarrow> (nat \<Rightarrow> nat \<Rightarrow> nat \<Rightarrow> memory \<times> byte list \<Rightarrow> memory \<times> byte list) \<Rightarrow>
   nat \<Rightarrow> memory \<times> byte list \<Rightarrow> (unit, nat) result \<times> memory \<times> byte list" where
  \<comment> \<open>the error is the address of the \<open>AccessFault\<close>; the callback sees the memory and the kernel's buffer\<close>
  "for_each_piece sp va len allowed f done0 st =
     (if done0 < len then
        if va + done0 \<ge> 2 ^ 64 then (Err (2 ^ 64 - 1), st)
        else let address = va + done0;
                 piece = min (PAGE_SIZE - address mod PAGE_SIZE) (len - done0)
             in (case translate address sp (fst st) of
                   Some (physical, access) \<Rightarrow>
                     if allowed access then for_each_piece sp va len allowed f (done0 + piece) (f (unat physical) done0 piece st)
                     else (Err address, st)
                 | None \<Rightarrow> (Err address, st))
      else (Ok (), st))"
  by pat_completeness auto
termination
  by (relation "measure (\<lambda>(sp, va, len, allowed, f, done0, st). len - done0)") (auto simp: PAGE_SIZE_def)

declare for_each_piece.simps [simp del]

definition space_load :: "nat \<Rightarrow> byte list \<Rightarrow> space \<Rightarrow> memory \<Rightarrow> (unit, nat) result \<times> memory" where
  "space_load va bytes sp m =
     (let (r, m', _) = for_each_piece sp va (length bytes) (\<lambda>_. True)
            (\<lambda>physical offset len (m, b). (copy_in physical (take len (drop offset bytes)) m, b)) 0 (m, [])
      in (r, m'))"

definition read_user :: "nat \<Rightarrow> byte list \<Rightarrow> space \<Rightarrow> memory \<Rightarrow> (unit, nat) result \<times> byte list" where
  "read_user va buf sp m =
     (let (r, _, buf') = for_each_piece sp va (length buf) (\<lambda>_. True)
            (\<lambda>physical offset len (m, b). (m, overwrite offset (copy_out m physical len) b)) 0 (m, buf)
      in (r, buf'))"

definition write_user :: "nat \<Rightarrow> byte list \<Rightarrow> space \<Rightarrow> memory \<Rightarrow> (unit, nat) result \<times> memory" where
  "write_user va bytes sp m =
     (let (r, m', _) = for_each_piece sp va (length bytes) writable
            (\<lambda>physical offset len (m, b). (copy_in physical (take len (drop offset bytes)) m, b)) 0 (m, [])
      in (r, m'))"

definition space_pages :: "space \<Rightarrow> nat" where
  "space_pages sp = length (sp_frames sp)"

definition space_drop :: "(u64 \<Rightarrow> 's \<Rightarrow> 's option) \<Rightarrow> space \<Rightarrow> 's \<Rightarrow> 's option" where
  "space_drop free sp src =
     release_all free (map snd (sp_frames sp) @ [sp_root sp, sp_level2 sp] @ map snd (sp_level3 sp)) src"

subsection \<open>Lemmas on memory\<close>

lemma copy_out_in_same: "length bs = n \<Longrightarrow> copy_out (copy_in a bs m) a n = bs"
  by (simp add: copy_out_def copy_in_def list_eq_iff_nth_eq)

lemma copy_out_cong: "(\<And>x. a \<le> x \<Longrightarrow> x < a + n \<Longrightarrow> m' x = m x) \<Longrightarrow> copy_out m' a n = copy_out m a n"
  by (simp add: copy_out_def)

lemma copy_in_outside: "\<not> (a \<le> x \<and> x < a + length bs) \<Longrightarrow> copy_in a bs m x = m x"
  unfolding copy_in_def by (rule if_not_P)

definition is_frame :: "u64 \<Rightarrow> bool" where
  "is_frame f \<longleftrightarrow> unat f mod 4096 = 0 \<and> unat f + 4096 \<le> 2 ^ 48"

definition in_frame :: "u64 \<Rightarrow> nat \<Rightarrow> bool" where
  "in_frame f x \<longleftrightarrow> unat f \<le> x \<and> x < unat f + 4096"

lemma frames_disjoint:
  assumes "is_frame f" "is_frame g" "in_frame f x" "in_frame g x"
  shows "f = g"
proof -
  have "unat f = unat g" if "unat f = 4096 * i" "unat g = 4096 * j" for i j
    using that assms(3,4) by (simp add: in_frame_def)
  then have "unat f = unat g" using assms(1,2) by (metis is_frame_def mult_div_mod_eq add_0_right)
  then show ?thesis by (rule unsigned_word_eqI)
qed

definition agree :: "memory \<Rightarrow> memory \<Rightarrow> u64 \<Rightarrow> bool" where
  "agree m m' f \<longleftrightarrow> (\<forall>x. in_frame f x \<longrightarrow> m' x = m x)"

lemma table_get_agree: "agree m m' t \<Longrightarrow> i < 512 \<Longrightarrow> table_get m' t i = table_get m t i"
  unfolding table_get_def by (rule arg_cong [of _ _ from_le], rule copy_out_cong) (simp add: agree_def in_frame_def)

lemma table_get_set: "table_get (table_set t i w m) t i = w"
  by (simp add: table_get_def table_set_def copy_out_in_same from_le_to_le)

lemma table_get_set_other: "i \<noteq> j \<Longrightarrow> table_get (table_set t i w m) t j = table_get m t j"
  unfolding table_get_def table_set_def
  by (rule arg_cong [of _ _ from_le], rule copy_out_cong) (auto simp: copy_in_def)

lemma table_set_agree:
  assumes "is_frame t" "is_frame f" "t \<noteq> f" "i < 512"
  shows "agree m (table_set t i w m) f"
  unfolding agree_def
proof (intro allI impI)
  fix x assume "in_frame f x"
  then have "\<not> in_frame t x" using frames_disjoint assms by blast
  then show "table_set t i w m x = m x"
    using assms(4) unfolding table_set_def by (intro copy_in_outside) (auto simp: in_frame_def)
qed

lemma zero_agree:
  assumes "is_frame f" "is_frame g" "f \<noteq> g"
  shows "agree m (copy_in (unat f) (replicate PAGE_SIZE 0) m) g"
  unfolding agree_def using frames_disjoint [OF assms(1,2)] assms(3)
  by (auto simp: copy_in_def PAGE_SIZE_def in_frame_def)

lemma agree_trans: "agree m m' f \<Longrightarrow> agree m' m'' f \<Longrightarrow> agree m m'' f"
  by (simp add: agree_def)

lemma from_le_zeros: "from_le (replicate n 0) = 0"
  by (induction n) simp_all

lemma table_get_zero:
  "i < 512 \<Longrightarrow> table_get (copy_in (unat f) (replicate PAGE_SIZE 0) m) f i = 0"
proof -
  assume "i < 512"
  then have "copy_out (copy_in (unat f) (replicate PAGE_SIZE 0) m) (unat f + 8 * i) 8 = replicate 8 0"
    by (intro nth_equalityI) (auto simp: copy_out_def copy_in_def PAGE_SIZE_def)
  then show ?thesis by (simp only: table_get_def from_le_zeros)
qed

subsection \<open>Lemmas on descriptors\<close>

lemma address_bit: "bit ADDRESS n \<longleftrightarrow> 12 \<le> n \<and> n < 48"
proof -
  have "ADDRESS = push_bit 12 (mask 36)" by (simp add: ADDRESS_def mask_eq_exp_minus_1)
  then have "bit ADDRESS n \<longleftrightarrow> bit (push_bit 12 (mask 36) :: u64) n" by (simp only:)
  also have "\<dots> \<longleftrightarrow> 12 \<le> n \<and> n < 48" by (auto simp: bit_push_bit_iff bit_mask_iff)
  finally show ?thesis .
qed

lemma frame_bit:
  assumes "is_frame f" and "bit f n"
  shows "12 \<le> n \<and> n < 48"
proof
  have "take_bit 12 (unat f) = 0" using assms(1) by (simp add: is_frame_def take_bit_eq_mod)
  then have "\<not> bit (take_bit 12 (unat f)) n" by simp
  then show "12 \<le> n" using assms(2) by (simp add: bit_take_bit_iff bit_unsigned_iff bit_imp_possible_bit not_less)
  have "take_bit 48 (unat f) = unat f" using assms(1) by (simp add: is_frame_def take_bit_nat_eq_self)
  then have "bit (take_bit 48 (unat f)) n"
    using assms(2) by (simp add: bit_unsigned_iff bit_imp_possible_bit)
  then show "n < 48" by (simp add: bit_take_bit_iff)
qed

lemma frame_or_address:
  assumes "is_frame f" and "b AND ADDRESS = 0"
  shows "(f OR b) AND ADDRESS = f" and "(f OR b) AND NOT ADDRESS = b"
proof -
  have b: "\<not> (bit b n \<and> 12 \<le> n \<and> n < 48)" for n
    using assms(2) by (metis address_bit bit_0_eq bit_and_iff bot_apply bot_bool_def)
  show "(f OR b) AND ADDRESS = f" "(f OR b) AND NOT ADDRESS = b"
    by (rule bit_word_eqI; use b frame_bit [OF assms(1)] in \<open>auto simp: bit_and_iff bit_or_iff bit_not_iff address_bit\<close>)+
qed

lemma descriptor_bits_values:
  "descriptor_bits ReadOnly = 0x60000000000FC3" "descriptor_bits ReadWrite = 0x60000000000F43"
  "descriptor_bits ReadExecute = 0x20000000000FC3"
  by (simp_all add: descriptor_bits_def VALID_def TABLE_OR_PAGE_def ATTR_NORMAL_def AP_EL0_def INNER_SHAREABLE_def
      ACCESS_FLAG_def NOT_GLOBAL_def PRIVILEGED_EXECUTE_NEVER_def AP_READ_ONLY_def USER_EXECUTE_NEVER_def)

lemma descriptor_bits_address: "descriptor_bits a AND ADDRESS = 0"
  by (cases a) (simp_all add: descriptor_bits_values ADDRESS_def)

lemma from_descriptor_bits: "is_frame f \<Longrightarrow> from_descriptor (f OR descriptor_bits a) = Some a"
  by (cases a) (simp_all add: from_descriptor_def frame_or_address(2) descriptor_bits_address ACCESS_ALL_def,
      simp_all add: descriptor_bits_values)

lemma table_bits: "VALID OR TABLE_OR_PAGE = 3" "(3 :: u64) AND ADDRESS = 0"
  by (simp_all add: VALID_def TABLE_OR_PAGE_def ADDRESS_def)

lemma frame_low_bits: "is_frame f \<Longrightarrow> f AND 3 = 0"
proof (rule bit_word_eqI)
  fix n assume "is_frame f"
  have "bit (3 :: u64) n \<longleftrightarrow> n < 2" using bit_mask_iff [of 2 n, where ?'a = "64 word"] by (auto simp: mask_eq_exp_minus_1)
  then show "bit (f AND 3) n = bit 0 n" using frame_bit [OF \<open>is_frame f\<close>, of n] by (auto simp: bit_and_iff)
qed

lemma next_table_frame: "is_frame f \<Longrightarrow> next_table (f OR VALID OR TABLE_OR_PAGE) = Some f"
proof -
  assume f: "is_frame f"
  have "(f OR 3) AND 3 = (3 :: u64)" using frame_low_bits [OF f] by (simp add: bit.conj_disj_distrib2)
  then show ?thesis using frame_or_address(1) [OF f table_bits(2)] by (simp add: next_table_def table_bits or.assoc)
qed

lemma next_table_zero [simp]: "next_table 0 = None"
  by (simp add: next_table_def table_bits)

lemma page_valid: "is_frame f \<Longrightarrow> (f OR descriptor_bits a) AND VALID \<noteq> 0"
proof -
  assume f: "is_frame f"
  have "bit ((f OR descriptor_bits a) AND VALID) 0"
    by (cases a) (simp_all add: bit_and_iff bit_or_iff VALID_def descriptor_bits_values)
  then show ?thesis by (metis bit_0_eq bot_apply bot_bool_def)
qed

subsection \<open>Lemmas on sorted maps and addresses\<close>

lemma map_of_btree_insert: "distinct (map fst xs) \<Longrightarrow> map_of (btree_insert k v xs) = (map_of xs)(k \<mapsto> v)"
  by (induction k v xs rule: btree_insert.induct) (auto simp: fun_eq_iff)

lemma set_btree_insert: "k \<notin> fst ` set xs \<Longrightarrow> set (btree_insert k v xs) = insert (k, v) (set xs)"
  by (induction k v xs rule: btree_insert.induct) auto

lemma distinct_btree_insert: "k \<notin> fst ` set xs \<Longrightarrow> distinct (map fst xs) \<Longrightarrow> distinct (map fst (btree_insert k v xs))"
  by (induction k v xs rule: btree_insert.induct) (auto simp: set_btree_insert)

lemma mset_btree_insert: "k \<notin> fst ` set xs \<Longrightarrow> distinct (map snd (btree_insert k v xs)) \<longleftrightarrow> v \<notin> snd ` set xs \<and> distinct (map snd xs)"
  by (induction k v xs rule: btree_insert.induct) (auto simp: set_btree_insert)

definition page_of :: "nat \<Rightarrow> nat" where
  "page_of va = va - va mod 4096"

definition page_at :: "nat \<Rightarrow> nat \<Rightarrow> nat" where
  \<comment> \<open>the page behind entry \<open>j\<close> of the level 3 table behind entry \<open>i\<close> of the level 2 table\<close>
  "page_at i j = USER_BASE + i * 2 ^ 21 + j * 2 ^ 12"

lemma digits:
  fixes va :: nat
  assumes "2147483648 \<le> va" and "va < 3221225472"
  obtains a b c where "va = 2147483648 + a * 2097152 + b * 4096 + c" "a < 512" "b < 512" "c < 4096"
proof -
  define x where "x = va - 2147483648"
  have x: "va = 2147483648 + x" "x < 1073741824" using assms by (simp_all add: x_def)
  define a y where "a = x div 2097152" and "y = x mod 2097152"
  define b c where "b = y div 4096" and "c = y mod 4096"
  have "x = a * 2097152 + y" "y < 2097152" "y = b * 4096 + c" "c < 4096"
    by (simp_all add: a_def y_def b_def c_def)
  moreover have "a < 512" using x(2) \<open>x = a * 2097152 + y\<close> by linarith
  moreover have "b < 512" using \<open>y < 2097152\<close> \<open>y = b * 4096 + c\<close> by linarith
  ultimately show ?thesis using that [of a b c] x(1) by linarith
qed

lemma page_at_index:
  assumes "USER_BASE \<le> va" and "va < USER_END"
  shows "page_at (level2_index va) (level3_index va) = page_of va" "level2_index va < 512" "level3_index va < 512"
    "level1_index va = 2"
proof -
  obtain a b c where v: "va = 2147483648 + a * 2097152 + b * 4096 + c" "a < 512" "b < 512" "c < 4096"
    using digits [of va] assms by (auto simp: USER_BASE_def USER_END_def)
  have "va div 1073741824 = 2" using v by (intro div_nat_eqI) simp_all
  then show "level1_index va = 2" by (simp add: level1_index_def ENTRIES_def)
  have "va div 2097152 = a + 512 * 2" using v by (intro div_nat_eqI) simp_all
  then have i2: "level2_index va = a" using v(2) mod_mult_self2 [of a 512 2] by (simp add: level2_index_def ENTRIES_def)
  have "va div 4096 = b + 512 * (1024 + a)" using v by (intro div_nat_eqI) simp_all
  then have i3: "level3_index va = b" using v(3) mod_mult_self2 [of b 512 "1024 + a"] by (simp add: level3_index_def ENTRIES_def)
  have "va mod 4096 = c"
  proof -
    have "va = c + 4096 * (524288 + a * 512 + b)" using v(1) by simp
    then have "va mod 4096 = c mod 4096" by (metis mod_mult_self2)
    then show ?thesis using v(4) by simp
  qed
  then have "page_of va = 2147483648 + a * 2097152 + b * 4096" unfolding page_of_def using v(1) by linarith
  then show "page_at (level2_index va) (level3_index va) = page_of va"
    unfolding i2 i3 page_at_def USER_BASE_def by simp
  show "level2_index va < 512" "level3_index va < 512" using i2 i3 v(2,3) by simp_all
qed

lemma page_of_page: "page_of va mod 4096 = 0" "va mod 4096 = 0 \<Longrightarrow> page_of va = va" "page_of va \<le> va" "va = page_of va + va mod 4096"
  by (simp_all add: page_of_def minus_mod_eq_mult_div)

lemma level_index_page: "level2_index (page_of va) = level2_index va" "level3_index (page_of va) = level3_index va"
proof -
  have q: "page_of va div 4096 = va div 4096" by (simp add: page_of_def minus_mod_eq_mult_div)
  have "x div 2097152 = x div 4096 div 512" for x :: nat using div_mult2_eq [of x 4096 512] by simp
  then show "level2_index (page_of va) = level2_index va" by (simp add: level2_index_def q)
  show "level3_index (page_of va) = level3_index va" by (simp add: level3_index_def q)
qed

lemma page_of_window: "USER_BASE \<le> page_of va \<longleftrightarrow> USER_BASE \<le> va" "page_of va < USER_END \<longleftrightarrow> va < USER_END"
proof -
  define c q where "c = va mod 4096" and "q = va div 4096"
  have va: "va = 4096 * q + c" by (simp add: c_def q_def)
  then have page: "page_of va = 4096 * q" unfolding page_of_def c_def [symmetric] by (simp only: add_diff_cancel_right')
  have "c < 4096" by (simp add: c_def)
  then have lo: "524288 \<le> q \<longleftrightarrow> 2147483648 \<le> 4096 * q + c" and hi: "q < 786432 \<longleftrightarrow> 4096 * q + c < 3221225472"
    by linarith+
  show "USER_BASE \<le> page_of va \<longleftrightarrow> USER_BASE \<le> va" "page_of va < USER_END \<longleftrightarrow> va < USER_END"
    using lo hi unfolding page USER_BASE_def USER_END_def va [symmetric] by simp_all
qed

subsection \<open>The abstract page table\<close>

definition space_frames :: "space \<Rightarrow> u64 list" where
  "space_frames sp = map snd (sp_frames sp) @ [sp_root sp, sp_level2 sp] @ map snd (sp_level3 sp)"

definition page_entry :: "(nat \<rightharpoonup> u64 \<times> access) \<Rightarrow> nat \<Rightarrow> u64" where
  "page_entry A p = (case A p of None \<Rightarrow> 0 | Some (f, access) \<Rightarrow> f OR descriptor_bits access)"

definition space_ok :: "space \<Rightarrow> memory \<Rightarrow> (nat \<rightharpoonup> u64 \<times> access) \<Rightarrow> bool" where
  \<comment> \<open>the tables in memory implement the map \<open>A\<close> from pages to frames and what may be done with them\<close>
  "space_ok sp m A \<longleftrightarrow>
     distinct (space_frames sp) \<and> (\<forall>f \<in> set (space_frames sp). is_frame f)
     \<and> distinct (map fst (sp_level3 sp)) \<and> distinct (map fst (sp_frames sp))
     \<and> (\<forall>p. map_of (sp_frames sp) p = map_option fst (A p))
     \<and> (\<forall>p \<in> dom A. p mod 4096 = 0 \<and> USER_BASE \<le> p \<and> p < USER_END \<and> map_of (sp_level3 sp) (level2_index p) \<noteq> None)
     \<and> table_get m (sp_root sp) 2 = sp_level2 sp OR VALID OR TABLE_OR_PAGE
     \<and> (\<forall>i < 512. table_get m (sp_level2 sp) i =
          (case map_of (sp_level3 sp) i of None \<Rightarrow> 0 | Some t \<Rightarrow> t OR VALID OR TABLE_OR_PAGE))
     \<and> (\<forall>i t j. map_of (sp_level3 sp) i = Some t \<longrightarrow> i < 512 \<and> (j < 512 \<longrightarrow> table_get m t j = page_entry A (page_at i j)))"

lemma space_okD:
  assumes "space_ok sp m A"
  shows "distinct (space_frames sp)" and "f \<in> set (space_frames sp) \<Longrightarrow> is_frame f"
    and "distinct (map fst (sp_level3 sp))" and "distinct (map fst (sp_frames sp))"
    and "map_of (sp_frames sp) p = map_option fst (A p)"
    and "A p = Some fa \<Longrightarrow> p mod 4096 = 0 \<and> USER_BASE \<le> p \<and> p < USER_END \<and> map_of (sp_level3 sp) (level2_index p) \<noteq> None"
    and "table_get m (sp_root sp) 2 = sp_level2 sp OR VALID OR TABLE_OR_PAGE"
    and "i < 512 \<Longrightarrow> table_get m (sp_level2 sp) i = (case map_of (sp_level3 sp) i of None \<Rightarrow> 0 | Some t \<Rightarrow> t OR VALID OR TABLE_OR_PAGE)"
    and "map_of (sp_level3 sp) i = Some t \<Longrightarrow> i < 512 \<and> (j < 512 \<longrightarrow> table_get m t j = page_entry A (page_at i j))"
  using assms unfolding space_ok_def by (blast, blast, blast, blast, blast, blast, blast, blast, blast)

lemma space_okI:
  assumes "distinct (space_frames sp)" and "\<And>f. f \<in> set (space_frames sp) \<Longrightarrow> is_frame f"
    and "distinct (map fst (sp_level3 sp))" and "distinct (map fst (sp_frames sp))"
    and "\<And>p. map_of (sp_frames sp) p = map_option fst (A p)"
    and "\<And>p fa. A p = Some fa \<Longrightarrow> p mod 4096 = 0 \<and> USER_BASE \<le> p \<and> p < USER_END \<and> map_of (sp_level3 sp) (level2_index p) \<noteq> None"
    and "table_get m (sp_root sp) 2 = sp_level2 sp OR VALID OR TABLE_OR_PAGE"
    and "\<And>i. i < 512 \<Longrightarrow> table_get m (sp_level2 sp) i = (case map_of (sp_level3 sp) i of None \<Rightarrow> 0 | Some t \<Rightarrow> t OR VALID OR TABLE_OR_PAGE)"
    and "\<And>i t. map_of (sp_level3 sp) i = Some t \<Longrightarrow> i < 512"
    and "\<And>i t j. map_of (sp_level3 sp) i = Some t \<Longrightarrow> j < 512 \<Longrightarrow> table_get m t j = page_entry A (page_at i j)"
  shows "space_ok sp m A"
  unfolding space_ok_def using assms by blast

lemma level3_frame: "map_of (sp_level3 sp) i = Some t \<Longrightarrow> t \<in> set (space_frames sp)"
  by (force simp: space_frames_def dest: map_of_SomeD)

lemma page_frame: "space_ok sp m A \<Longrightarrow> A p = Some (f, a) \<Longrightarrow> f \<in> set (space_frames sp) \<and> is_frame f"
proof -
  assume ok: "space_ok sp m A" and A: "A p = Some (f, a)"
  then have "map_of (sp_frames sp) p = Some f" using space_okD(5) [OF ok, of p] by simp
  then have "f \<in> set (space_frames sp)" by (force simp: space_frames_def dest: map_of_SomeD)
  then show ?thesis using space_okD(2) [OF ok] by blast
qed

text \<open>The walk through the tables is the abstract page table.\<close>

lemma translate_abstract:
  assumes ok: "space_ok sp m A"
  shows "translate va sp m = map_option (\<lambda>(f, access). (f OR of_nat (va mod 4096), access)) (A (page_of va))"
proof (cases "USER_BASE \<le> va \<and> va < USER_END")
  case False
  then have "\<not> (USER_BASE \<le> page_of va \<and> page_of va < USER_END)" by (simp add: page_of_window)
  then have "A (page_of va) = None" using space_okD(6) [OF ok, of "page_of va"] by (cases "A (page_of va)") auto
  with False show ?thesis by (auto simp: translate_def descriptor_def)
next
  case True
  note idx = page_at_index [OF conjunct1 [OF True] conjunct2 [OF True]]
  have frames: "is_frame (sp_level2 sp)" using space_okD(2) [OF ok] by (simp add: space_frames_def)
  have l2: "next_table (table_get m (sp_root sp) (level1_index va)) = Some (sp_level2 sp)"
    using space_okD(7) [OF ok] next_table_frame [OF frames] by (simp add: idx)
  show ?thesis
  proof (cases "map_of (sp_level3 sp) (level2_index va)")
    case None
    have "level2_index (page_of va) = level2_index va"
      by (rule level_index_page)
    then have "A (page_of va) = None" using None space_okD(6) [OF ok, of "page_of va"] by (cases "A (page_of va)") auto
    moreover have "table_get m (sp_level2 sp) (level2_index va) = 0" using space_okD(8) [OF ok idx(2)] None by simp
    ultimately show ?thesis using True l2 by (simp add: translate_def descriptor_def)
  next
    case (Some t)
    have t: "is_frame t" using space_okD(2) [OF ok level3_frame [OF Some]] .
    have "table_get m (sp_level2 sp) (level2_index va) = t OR VALID OR TABLE_OR_PAGE"
      using space_okD(8) [OF ok idx(2)] Some by simp
    then have l3: "next_table (table_get m (sp_level2 sp) (level2_index va)) = Some t" using next_table_frame [OF t] by simp
    have e: "table_get m t (level3_index va) = page_entry A (page_of va)"
      using space_okD(9) [OF ok Some, of "level3_index va"] idx(1,3) by simp
    show ?thesis
    proof (cases "A (page_of va)")
      case None
      then show ?thesis using True l2 l3 e by (simp add: translate_def descriptor_def page_entry_def)
    next
      case (Some fa)
      obtain f a where fa: "fa = (f, a)" by fastforce
      then have f: "is_frame f" using page_frame [OF ok] Some by blast
      have "descriptor va sp m = Some (f OR descriptor_bits a)"
        using True l2 l3 e Some fa page_valid [OF f] by (simp add: descriptor_def page_entry_def)
      then show ?thesis using Some fa from_descriptor_bits [OF f, of a] frame_or_address(1) [OF f descriptor_bits_address, of a]
        by (simp add: translate_def PAGE_SIZE_def)
    qed
  qed
qed

subsection \<open>Building tables\<close>

lemma page_at_indices:
  assumes "i < 512" and "j < 512"
  shows "level2_index (page_at i j) = i" "level3_index (page_at i j) = j"
proof -
  have "page_at i j div 2097152 = i + 512 * 2" using assms
    by (intro div_nat_eqI) (simp_all add: page_at_def USER_BASE_def)
  then show "level2_index (page_at i j) = i" using assms(1) mod_mult_self2 [of i 512 2]
    by (simp add: level2_index_def ENTRIES_def)
  have "page_at i j div 4096 = j + 512 * (1024 + i)" using assms
    by (intro div_nat_eqI) (simp_all add: page_at_def USER_BASE_def)
  then show "level3_index (page_at i j) = j" using assms(2) mod_mult_self2 [of j 512 "1024 + i"]
    by (simp add: level3_index_def ENTRIES_def)
qed

lemma page_at_eq:
  assumes "va mod 4096 = 0" "USER_BASE \<le> va" "va < USER_END" "i < 512" "j < 512"
  shows "page_at i j = va \<longleftrightarrow> i = level2_index va \<and> j = level3_index va"
  using page_at_index(1) [OF assms(2,3)] page_at_indices [OF assms(4,5)] assms(1) by (auto simp: page_of_page)

definition space_tables :: "space \<Rightarrow> u64 list" where
  "space_tables sp = [sp_root sp, sp_level2 sp] @ map snd (sp_level3 sp)"

lemma frames_tables: "set (space_tables sp) \<subseteq> set (space_frames sp)"
  by (auto simp: space_tables_def space_frames_def)

lemma space_ok_mem:
  assumes ok: "space_ok sp m A" and agree: "\<And>t. t \<in> set (space_tables sp) \<Longrightarrow> agree m m' t"
  shows "space_ok sp m' A"
proof (rule space_okI)
  have same: "table_get m' t i = table_get m t i" if "t \<in> set (space_tables sp)" "i < 512" for t i
    using table_get_agree [OF agree] that by blast
  show "table_get m' (sp_root sp) 2 = sp_level2 sp OR VALID OR TABLE_OR_PAGE"
    using same [of "sp_root sp" 2] space_okD(7) [OF ok] by (simp add: space_tables_def)
  show "table_get m' (sp_level2 sp) i = (case map_of (sp_level3 sp) i of None \<Rightarrow> 0 | Some t \<Rightarrow> t OR VALID OR TABLE_OR_PAGE)"
    if "i < 512" for i using same [of "sp_level2 sp" i] that space_okD(8) [OF ok that] by (simp add: space_tables_def)
  show "table_get m' t j = page_entry A (page_at i j)" if "map_of (sp_level3 sp) i = Some t" "j < 512" for i t j
  proof -
    have "t \<in> set (space_tables sp)" using that(1) by (force simp: space_tables_def dest: map_of_SomeD)
    then show ?thesis using same [OF _ that(2)] space_okD(9) [OF ok that(1), of j] that(2) by simp
  qed
qed (use space_okD [OF ok] in blast)+

lemma level3_other:
  assumes ok: "space_ok sp m A" and t: "map_of (sp_level3 sp) k = Some t"
  shows "t \<noteq> sp_root sp" "t \<noteq> sp_level2 sp" "map_of (sp_level3 sp) k' = Some t \<Longrightarrow> k' = k"
proof -
  have "t \<in> set (map snd (sp_level3 sp))" using map_of_SomeD [OF t] by force
  moreover have "sp_root sp \<notin> set (map snd (sp_level3 sp))" "sp_level2 sp \<notin> set (map snd (sp_level3 sp))"
    using space_okD(1) [OF ok] unfolding space_frames_def by simp_all
  ultimately show "t \<noteq> sp_root sp" "t \<noteq> sp_level2 sp" by metis+
  have "distinct (map snd (sp_level3 sp))" using space_okD(1) [OF ok] by (simp add: space_frames_def)
  then show "k' = k" if "map_of (sp_level3 sp) k' = Some t"
    using map_of_SomeD [OF t] map_of_SomeD [OF that] by (metis distinct_map fst_conv inj_onD snd_conv)
qed

lemma page_not_table:
  assumes ok: "space_ok sp m A" and A: "A p = Some (f, a)"
  shows "f \<notin> set (space_tables sp)"
proof -
  have "map_of (sp_frames sp) p = Some f" using space_okD(5) [OF ok, of p] A by simp
  then have "f \<in> set (map snd (sp_frames sp))" by (force dest: map_of_SomeD)
  moreover have "set (map snd (sp_frames sp)) \<inter> set (space_tables sp) = {}"
    using space_okD(1) [OF ok] unfolding space_frames_def space_tables_def distinct_append by blast
  ultimately show ?thesis by blast
qed

definition zero_page :: "memory \<Rightarrow> u64 \<Rightarrow> bool" where
  "zero_page m f \<longleftrightarrow> copy_out m (unat f) 4096 = replicate 4096 0"

lemma zero_page_agree: "zero_page m f \<Longrightarrow> agree m m' f \<Longrightarrow> zero_page m' f"
  unfolding zero_page_def agree_def in_frame_def by (metis copy_out_cong)

definition grown :: "('s \<Rightarrow> u64 set) \<Rightarrow> space \<times> 's machine \<Rightarrow> (nat \<rightharpoonup> u64 \<times> access) \<Rightarrow> space \<times> 's machine \<Rightarrow> (nat \<rightharpoonup> u64 \<times> access) \<Rightarrow> bool" where
  \<comment> \<open>from one state to a later one: pages and tables were added, from free frames, and nothing else changed\<close>
  "grown live st A st' A' \<longleftrightarrow>
     A \<subseteq>\<^sub>m A' \<and> live (mc_src (snd st')) = live (mc_src (snd st)) \<union> set (space_frames (fst st'))
     \<and> set (space_frames (fst st)) \<subseteq> set (space_frames (fst st'))
     \<and> (set (space_frames (fst st')) - set (space_frames (fst st))) \<inter> live (mc_src (snd st)) = {}
     \<and> (set (space_tables (fst st')) - set (space_tables (fst st))) \<inter> live (mc_src (snd st)) = {}
     \<and> (\<forall>f \<in> live (mc_src (snd st)) - set (space_tables (fst st)). agree (mc_mem (snd st)) (mc_mem (snd st')) f)
     \<and> (\<forall>p f access. A' p = Some (f, access) \<longrightarrow> A p = None \<longrightarrow> f \<notin> live (mc_src (snd st)) \<and> zero_page (mc_mem (snd st')) f)"

definition space_owned :: "('s \<Rightarrow> bool) \<Rightarrow> ('s \<Rightarrow> u64 set) \<Rightarrow> space \<times> 's machine \<Rightarrow> (nat \<rightharpoonup> u64 \<times> access) \<Rightarrow> bool" where
  "space_owned good live st A \<longleftrightarrow>
     good (mc_src (snd st)) \<and> set (space_frames (fst st)) \<subseteq> live (mc_src (snd st)) \<and> space_ok (fst st) (mc_mem (snd st)) A"

lemma grown_refl: "set (space_frames (fst st)) \<subseteq> live (mc_src (snd st)) \<Longrightarrow> grown live st A st A"
  unfolding grown_def agree_def by auto

lemma grownD:
  assumes "grown live st A st' A'"
  shows "A \<subseteq>\<^sub>m A'" and "live (mc_src (snd st')) = live (mc_src (snd st)) \<union> set (space_frames (fst st'))"
    and "set (space_frames (fst st)) \<subseteq> set (space_frames (fst st'))"
    and "(set (space_frames (fst st')) - set (space_frames (fst st))) \<inter> live (mc_src (snd st)) = {}"
    and "(set (space_tables (fst st')) - set (space_tables (fst st))) \<inter> live (mc_src (snd st)) = {}"
    and "f \<in> live (mc_src (snd st)) \<Longrightarrow> f \<notin> set (space_tables (fst st)) \<Longrightarrow> agree (mc_mem (snd st)) (mc_mem (snd st')) f"
    and "A' p = Some (f, access) \<Longrightarrow> A p = None \<Longrightarrow> f \<notin> live (mc_src (snd st)) \<and> zero_page (mc_mem (snd st')) f"
  using assms unfolding grown_def by (simp_all only: Ball_def Diff_iff) blast+

lemma grownI:
  assumes "A \<subseteq>\<^sub>m A'" and "live (mc_src (snd st')) = live (mc_src (snd st)) \<union> set (space_frames (fst st'))"
    and "set (space_frames (fst st)) \<subseteq> set (space_frames (fst st'))"
    and "(set (space_frames (fst st')) - set (space_frames (fst st))) \<inter> live (mc_src (snd st)) = {}"
    and "(set (space_tables (fst st')) - set (space_tables (fst st))) \<inter> live (mc_src (snd st)) = {}"
    and "\<And>f. f \<in> live (mc_src (snd st)) \<Longrightarrow> f \<notin> set (space_tables (fst st)) \<Longrightarrow> agree (mc_mem (snd st)) (mc_mem (snd st')) f"
    and "\<And>p f access. A' p = Some (f, access) \<Longrightarrow> A p = None \<Longrightarrow> f \<notin> live (mc_src (snd st)) \<and> zero_page (mc_mem (snd st')) f"
  shows "grown live st A st' A'"
  unfolding grown_def using assms by simp

lemma grown_live: "grown live st A st' A' \<Longrightarrow> live (mc_src (snd st)) \<subseteq> live (mc_src (snd st'))"
  using grownD(2) by blast

lemma grown_trans:
  assumes 1: "grown live st A st1 A1" and 2: "grown live st1 A1 st2 A2" and own: "space_owned good live st1 A1"
  shows "grown live st A st2 A2"
proof (rule grownI)
  note l1 = grown_live [OF 1]
  show "agree (mc_mem (snd st)) (mc_mem (snd st2)) f" if "f \<in> live (mc_src (snd st))" "f \<notin> set (space_tables (fst st))" for f
  proof -
    have "f \<notin> set (space_tables (fst st1))" using grownD(5) [OF 1] that by blast
    then show ?thesis using agree_trans [OF grownD(6) [OF 1 that] grownD(6) [OF 2]] that(1) l1 by blast
  qed
  show "f \<notin> live (mc_src (snd st)) \<and> zero_page (mc_mem (snd st2)) f" if "A2 p = Some (f, access)" "A p = None" for p f access
  proof (cases "A1 p")
    case None
    then show ?thesis using grownD(7) [OF 2 that(1)] l1 by blast
  next
    case (Some fa)
    then have A1: "A1 p = Some (f, access)" using grownD(1) [OF 2] that(1) unfolding map_le_def by (metis domI)
    note z = grownD(7) [OF 1 A1 that(2)]
    have ok: "space_ok (fst st1) (mc_mem (snd st1)) A1" and "set (space_frames (fst st1)) \<subseteq> live (mc_src (snd st1))"
      using own by (simp_all add: space_owned_def)
    then have "f \<in> live (mc_src (snd st1))" "f \<notin> set (space_tables (fst st1))" using page_frame [OF ok A1] page_not_table [OF ok A1] by blast+
    then show ?thesis using z zero_page_agree [OF _ grownD(6) [OF 2]] by blast
  qed
  show "A \<subseteq>\<^sub>m A2" using grownD(1) [OF 1] grownD(1) [OF 2] by (rule map_le_trans)
  show "live (mc_src (snd st2)) = live (mc_src (snd st)) \<union> set (space_frames (fst st2))"
    unfolding grownD(2) [OF 2] grownD(2) [OF 1] using grownD(3) [OF 2] by blast
  show "set (space_frames (fst st)) \<subseteq> set (space_frames (fst st2))" using grownD(3) [OF 1] grownD(3) [OF 2] by blast
  show "(set (space_frames (fst st2)) - set (space_frames (fst st))) \<inter> live (mc_src (snd st)) = {}"
    using grownD(4) [OF 1] grownD(4) [OF 2] l1 by blast
  show "(set (space_tables (fst st2)) - set (space_tables (fst st))) \<inter> live (mc_src (snd st)) = {}"
    using grownD(5) [OF 1] grownD(5) [OF 2] l1 by blast
qed

definition map_outcome :: "bool \<Rightarrow> nat \<Rightarrow> access \<Rightarrow> (nat \<rightharpoonup> u64 \<times> access) \<Rightarrow> (nat \<rightharpoonup> u64 \<times> access) \<Rightarrow> (unit, map_error) result \<Rightarrow> bool" where
  \<comment> \<open>what the answer of \<open>map\<close> says; \<open>full\<close>: the source had no frame left\<close>
  "map_outcome full va access A A' r \<longleftrightarrow>
     (case r of
        Ok _ \<Rightarrow> va mod PAGE_SIZE = 0 \<and> USER_BASE \<le> va \<and> va < USER_END \<and> A va = None \<and> (\<exists>f. A' = A(va \<mapsto> (f, access)))
      | Err NotAligned \<Rightarrow> va mod PAGE_SIZE \<noteq> 0 \<and> A' = A
      | Err OutsideWindow \<Rightarrow> \<not> (USER_BASE \<le> va \<and> va < USER_END) \<and> A' = A
      | Err AlreadyMapped \<Rightarrow> A va \<noteq> None \<and> A' = A
      | Err OutOfMemory \<Rightarrow> full \<and> A' = A)"

context frame_source
begin

lemma zeroed_frame_spec:
  assumes "inv (mc_src mc)" and "zeroed_frame allocate mc = Some (f, mc')"
  shows "inv (mc_src mc')" "f \<notin> live (mc_src mc)" "live (mc_src mc') = insert f (live (mc_src mc))" "is_frame f"
    "mc_mem mc' = copy_in (unat f) (replicate PAGE_SIZE 0) (mc_mem mc)"
  using assms allocate_fresh [of "mc_src mc" f "mc_src mc'"] allocate_frame [of "mc_src mc" f "mc_src mc'"]
  by (auto simp: zeroed_frame_def is_frame_def split: option.splits)

lemma live_is_frame: "inv s \<Longrightarrow> f \<in> live s \<Longrightarrow> is_frame f"
  using live_frame [of s f] by (simp add: is_frame_def)

lemma zeroed_agree:
  assumes "inv (mc_src mc)" and "zeroed_frame allocate mc = Some (f, mc')" and "g \<in> live (mc_src mc)"
  shows "agree (mc_mem mc) (mc_mem mc') g"
  unfolding zeroed_frame_spec(5) [OF assms(1,2)]
  using zeroed_frame_spec(2,4) [OF assms(1,2)] live_is_frame [OF assms(1,3)] assms(3) by (intro zero_agree) auto

lemma space_level3_ok:
  assumes inv: "inv (mc_src mc)" and own: "set (space_frames sp) \<subseteq> live (mc_src mc)"
    and ok: "space_ok sp (mc_mem mc) A" and va: "USER_BASE \<le> va" "va < USER_END"
    and l3: "space_level3 allocate va sp mc = Some (t, sp', mc')"
  shows "space_ok sp' (mc_mem mc') A" "map_of (sp_level3 sp') (level2_index va) = Some t" "inv (mc_src mc')"
    "set (space_frames sp') \<subseteq> live (mc_src mc')" "live (mc_src mc) \<subseteq> live (mc_src mc')" "sp_frames sp' = sp_frames sp"
    "f \<in> live (mc_src mc) \<Longrightarrow> f \<notin> set (space_tables sp) \<Longrightarrow> agree (mc_mem mc) (mc_mem mc') f"
    "set (space_frames sp') - set (space_frames sp) \<subseteq> live (mc_src mc') - live (mc_src mc)"
proof -
  let ?i = "level2_index va"
  have goal: "space_ok sp' (mc_mem mc') A \<and> map_of (sp_level3 sp') ?i = Some t \<and> inv (mc_src mc')
    \<and> set (space_frames sp') \<subseteq> live (mc_src mc') \<and> live (mc_src mc) \<subseteq> live (mc_src mc') \<and> sp_frames sp' = sp_frames sp
    \<and> (\<forall>f \<in> live (mc_src mc). f \<notin> set (space_tables sp) \<longrightarrow> agree (mc_mem mc) (mc_mem mc') f)
    \<and> set (space_frames sp') - set (space_frames sp) \<subseteq> live (mc_src mc') - live (mc_src mc)"
  proof (cases "map_of (sp_level3 sp) ?i")
    case (Some t')
    then have "t = t'" "sp' = sp" "mc' = mc" using l3 by (auto simp: space_level3_def)
    then show ?thesis using inv own ok Some by (simp add: agree_def)
  next
    case None
    then obtain mc1 where z: "zeroed_frame allocate mc = Some (t, mc1)"
      and sp': "sp' = sp\<lparr>sp_level3 := btree_insert ?i t (sp_level3 sp)\<rparr>"
      and mc': "mc' = mc1\<lparr>mc_mem := table_set (sp_level2 sp) ?i (t OR VALID OR TABLE_OR_PAGE) (mc_mem mc1)\<rparr>"
      using l3 by (auto simp: space_level3_def split: option.splits)
    note zs = zeroed_frame_spec [OF inv z]
    have i: "?i < 512" using page_at_index(2) [OF va] .
    have new: "?i \<notin> fst ` set (sp_level3 sp)" using None by (simp add: map_of_eq_None_iff)
    have fresh: "t \<notin> set (space_frames sp)" using zs(2) own by blast
    have frames: "is_frame (sp_level2 sp)" using space_okD(2) [OF ok] by (simp add: space_frames_def)
    have set': "set (space_frames sp') = insert t (set (space_frames sp))"
      by (auto simp: space_frames_def sp' set_btree_insert [OF new])
    have m1: "agree (mc_mem mc) (mc_mem mc1) g" if "g \<in> live (mc_src mc)" for g using zeroed_agree [OF inv z that] .
    have m2: "agree (mc_mem mc1) (mc_mem mc') g" if "is_frame g" "g \<noteq> sp_level2 sp" for g
      using table_set_agree [OF frames that(1)] that(2) i by (simp add: mc')
    have keep: "agree (mc_mem mc) (mc_mem mc') g" if "g \<in> live (mc_src mc)" "g \<noteq> sp_level2 sp" for g
      using m1 m2 that live_is_frame [OF inv] agree_trans by blast
    have map': "map_of (sp_level3 sp') = (map_of (sp_level3 sp))(?i \<mapsto> t)"
      using map_of_btree_insert [OF space_okD(3) [OF ok]] by (simp add: sp')
    have "space_ok sp' (mc_mem mc') A"
    proof (rule space_okI)
      show "distinct (space_frames sp')"
        using space_okD(1) [OF ok] fresh
        by (auto simp: space_frames_def sp' mset_btree_insert [OF new] set_btree_insert [OF new])
      show "is_frame f" if "f \<in> set (space_frames sp')" for f using that set' zs(4) space_okD(2) [OF ok] by auto
      show "distinct (map fst (sp_level3 sp'))" using distinct_btree_insert [OF new space_okD(3) [OF ok]] by (simp add: sp')
      show "distinct (map fst (sp_frames sp'))" using space_okD(4) [OF ok] by (simp add: sp')
      show "map_of (sp_frames sp') p = map_option fst (A p)" for p using space_okD(5) [OF ok] by (simp add: sp')
      show "p mod 4096 = 0 \<and> USER_BASE \<le> p \<and> p < USER_END \<and> map_of (sp_level3 sp') (level2_index p) \<noteq> None" if "A p = Some fa" for p fa
        using space_okD(6) [OF ok that] by (auto simp: map')
      have root: "sp_root sp \<noteq> sp_level2 sp" "sp_root sp \<in> live (mc_src mc)"
        using space_okD(1) [OF ok] own by (auto simp: space_frames_def)
      show "table_get (mc_mem mc') (sp_root sp') 2 = sp_level2 sp' OR VALID OR TABLE_OR_PAGE"
        using table_get_agree [OF keep [OF root(2,1)], of 2] space_okD(7) [OF ok] by (simp add: sp')
      show "table_get (mc_mem mc') (sp_level2 sp') k = (case map_of (sp_level3 sp') k of None \<Rightarrow> 0 | Some t \<Rightarrow> t OR VALID OR TABLE_OR_PAGE)"
        if "k < 512" for k
      proof (cases "k = ?i")
        case True
        then show ?thesis unfolding map' by (simp add: mc' sp' table_get_set)
      next
        case False
        have "sp_level2 sp \<in> live (mc_src mc)" using own by (auto simp: space_frames_def)
        then show ?thesis using False that table_get_agree [OF m1 that] space_okD(8) [OF ok that]
          unfolding map' by (simp add: mc' sp' table_get_set_other)
      qed
      show "k < 512" if "map_of (sp_level3 sp') k = Some t'" for k t'
        using that space_okD(9) [OF ok] i by (auto simp: map' split: if_splits)
      show "table_get (mc_mem mc') t' j = page_entry A (page_at k j)" if t': "map_of (sp_level3 sp') k = Some t'" "j < 512" for k t' j
      proof (cases "k = ?i")
        case True
        then have "t' = t" using t'(1) by (simp add: map')
        have "A (page_at ?i j) = None"
          using space_okD(6) [OF ok, of "page_at ?i j"] page_at_indices(1) [OF i t'(2)] None by (cases "A (page_at ?i j)") auto
        moreover have "t \<noteq> sp_level2 sp" using fresh by (auto simp: space_frames_def)
        ultimately show ?thesis
          using table_get_agree [OF m2 [OF zs(4)] t'(2)] table_get_zero [OF t'(2)] True \<open>t' = t\<close>
          by (simp add: zs(5) page_entry_def)
      next
        case False
        then have old: "map_of (sp_level3 sp) k = Some t'" using t'(1) by (simp add: map')
        have "t' \<in> live (mc_src mc)" using level3_frame [OF old] own by blast
        moreover have "t' \<noteq> sp_level2 sp" using level3_other(2) [OF ok old] .
        ultimately show ?thesis using table_get_agree [OF keep t'(2)] space_okD(9) [OF ok old, of j] t'(2) by simp
      qed
    qed
    moreover have "set (space_frames sp') \<subseteq> live (mc_src mc')" using set' zs(3) own by (auto simp: mc')
    moreover have "agree (mc_mem mc) (mc_mem mc') f" if "f \<in> live (mc_src mc)" "f \<notin> set (space_tables sp)" for f
      using keep that by (auto simp: space_tables_def)
    moreover have "set (space_frames sp') - set (space_frames sp) \<subseteq> live (mc_src mc') - live (mc_src mc)"
      using set' zs(2,3) by (auto simp: mc')
    moreover have "map_of (sp_level3 sp') ?i = Some t" by (simp add: map')
    moreover have "inv (mc_src mc')" "live (mc_src mc) \<subseteq> live (mc_src mc')" using zs(1,3) by (auto simp: mc')
    moreover have "sp_frames sp' = sp_frames sp" by (simp add: sp')
    ultimately show ?thesis by blast
  qed
  then show "space_ok sp' (mc_mem mc') A" "map_of (sp_level3 sp') ?i = Some t" "inv (mc_src mc')"
    "set (space_frames sp') \<subseteq> live (mc_src mc')" "live (mc_src mc) \<subseteq> live (mc_src mc')" "sp_frames sp' = sp_frames sp"
    "f \<in> live (mc_src mc) \<Longrightarrow> f \<notin> set (space_tables sp) \<Longrightarrow> agree (mc_mem mc) (mc_mem mc') f"
    "set (space_frames sp') - set (space_frames sp) \<subseteq> live (mc_src mc') - live (mc_src mc)"
    by blast+
qed

lemma space_page_ok:
  assumes inv: "inv (mc_src mc)" and own: "set (space_frames sp) \<subseteq> live (mc_src mc)"
    and ok: "space_ok sp (mc_mem mc) A" and va: "USER_BASE \<le> va" "va < USER_END" "va mod 4096 = 0" and none: "A va = None"
    and l3: "map_of (sp_level3 sp) (level2_index va) = Some t" and z: "zeroed_frame allocate mc = Some (f, mc1)"
    and sp': "sp' = sp\<lparr>sp_frames := btree_insert va f (sp_frames sp)\<rparr>"
    and mc': "mc' = mc1\<lparr>mc_mem := table_set t (level3_index va) (f OR descriptor_bits access) (mc_mem mc1)\<rparr>"
  shows "space_ok sp' (mc_mem mc') (A(va \<mapsto> (f, access)))" "inv (mc_src mc')" "live (mc_src mc') = insert f (live (mc_src mc))"
    "set (space_frames sp') = insert f (set (space_frames sp))" "f \<notin> live (mc_src mc)" "zero_page (mc_mem mc') f"
    "g \<in> live (mc_src mc) \<Longrightarrow> g \<notin> set (space_tables sp) \<Longrightarrow> agree (mc_mem mc) (mc_mem mc') g"
proof -
  note zs = zeroed_frame_spec [OF inv z]
  have t: "is_frame t" "t \<in> live (mc_src mc)" using level3_frame [OF l3] own space_okD(2) [OF ok] by auto
  have new: "va \<notin> fst ` set (sp_frames sp)" using space_okD(5) [OF ok, of va] none by (simp add: map_of_eq_None_iff)
  show set': "set (space_frames sp') = insert f (set (space_frames sp))"
    by (auto simp: space_frames_def sp' set_btree_insert [OF new])
  show fresh: "f \<notin> live (mc_src mc)" using zs(2) .
  have i: "level2_index va < 512" "level3_index va < 512" using page_at_index(2,3) [OF va(1,2)] .
  have m2: "agree (mc_mem mc1) (mc_mem mc') g" if "is_frame g" "g \<noteq> t" for g
    using table_set_agree [OF t(1) that(1)] that(2) i by (simp add: mc')
  have m1: "agree (mc_mem mc) (mc_mem mc1) g" if "g \<in> live (mc_src mc)" for g using zeroed_agree [OF inv z that] .
  have keep: "agree (mc_mem mc) (mc_mem mc') g" if "g \<in> live (mc_src mc)" "g \<noteq> t" for g
    using m1 m2 that live_is_frame [OF inv] agree_trans by blast
  show "agree (mc_mem mc) (mc_mem mc') g" if "g \<in> live (mc_src mc)" "g \<notin> set (space_tables sp)"
  proof -
    have "t \<in> set (space_tables sp)" using map_of_SomeD [OF l3] by (force simp: space_tables_def)
    then show ?thesis using keep that by blast
  qed
  have "zero_page (mc_mem mc1) f" unfolding zero_page_def zs(5) PAGE_SIZE_def by (rule copy_out_in_same) simp
  then show "zero_page (mc_mem mc') f" using zero_page_agree m2 [OF zs(4)] fresh t(2) by blast
  show "inv (mc_src mc')" "live (mc_src mc') = insert f (live (mc_src mc))" using zs(1,3) by (simp_all add: mc')
  have map': "map_of (sp_frames sp') = (map_of (sp_frames sp))(va \<mapsto> f)"
    using map_of_btree_insert [OF space_okD(4) [OF ok]] by (simp add: sp')
  show "space_ok sp' (mc_mem mc') (A(va \<mapsto> (f, access)))"
  proof (rule space_okI)
    show "distinct (space_frames sp')"
      using space_okD(1) [OF ok] fresh own
      by (auto simp: space_frames_def sp' mset_btree_insert [OF new] set_btree_insert [OF new])
    show "is_frame g" if "g \<in> set (space_frames sp')" for g using that set' zs(4) space_okD(2) [OF ok] by auto
    show "distinct (map fst (sp_level3 sp'))" using space_okD(3) [OF ok] by (simp add: sp')
    show "distinct (map fst (sp_frames sp'))" using distinct_btree_insert [OF new space_okD(4) [OF ok]] by (simp add: sp')
    show "map_of (sp_frames sp') p = map_option fst ((A(va \<mapsto> (f, access))) p)" for p using space_okD(5) [OF ok] by (simp add: map')
    show "p mod 4096 = 0 \<and> USER_BASE \<le> p \<and> p < USER_END \<and> map_of (sp_level3 sp') (level2_index p) \<noteq> None"
      if "(A(va \<mapsto> (f, access))) p = Some fa" for p fa
      using that va l3 space_okD(6) [OF ok, of p fa] by (cases "p = va") (simp_all add: sp')
    have "sp_root sp \<in> live (mc_src mc)" "sp_level2 sp \<in> live (mc_src mc)" using own by (auto simp: space_frames_def)
    note tables = keep [OF this(1)] keep [OF this(2)]
    show "table_get (mc_mem mc') (sp_root sp') 2 = sp_level2 sp' OR VALID OR TABLE_OR_PAGE"
      using table_get_agree [OF tables(1), of 2] level3_other(1) [OF ok l3] space_okD(7) [OF ok] by (simp add: sp')
    show "table_get (mc_mem mc') (sp_level2 sp') k = (case map_of (sp_level3 sp') k of None \<Rightarrow> 0 | Some t \<Rightarrow> t OR VALID OR TABLE_OR_PAGE)"
      if "k < 512" for k
      using table_get_agree [OF tables(2) that] level3_other(2) [OF ok l3] space_okD(8) [OF ok that] by (simp add: sp')
    show "k < 512" if "map_of (sp_level3 sp') k = Some t'" for k t' using that space_okD(9) [OF ok, of k t'] by (simp add: sp')
    show "table_get (mc_mem mc') t' j = page_entry (A(va \<mapsto> (f, access))) (page_at k j)"
      if t': "map_of (sp_level3 sp') k = Some t'" "j < 512" for k t' j
    proof -
      have old: "map_of (sp_level3 sp) k = Some t'" using t'(1) by (simp add: sp')
      have k: "k < 512" and e: "table_get (mc_mem mc) t' j = page_entry A (page_at k j)" using space_okD(9) [OF ok old] t'(2) by auto
      have live: "t' \<in> live (mc_src mc)" using level3_frame [OF old] own by blast
      note at = page_at_eq [OF va(3,1,2) k t'(2)]
      show ?thesis
      proof (cases "k = level2_index va")
        case False
        then have "t' \<noteq> t" using level3_other(3) [OF ok l3] old by blast
        then show ?thesis using table_get_agree [OF keep [OF live] t'(2)] e False at by (simp add: page_entry_def)
      next
        case True
        then have tt: "t' = t" using l3 old by simp
        have e1: "table_get (mc_mem mc1) t j = page_entry A (page_at k j)" using table_get_agree [OF m1 [OF t(2)] t'(2)] e tt by simp
        show ?thesis
        proof (cases "j = level3_index va")
          case True
          then have "page_at k j = va" using \<open>k = level2_index va\<close> at by simp
          then show ?thesis using True by (simp add: tt mc' table_get_set page_entry_def)
        next
          case False
          then have "page_at k j \<noteq> va" using at by simp
          then show ?thesis using False e1 by (simp add: tt mc' table_get_set_other page_entry_def)
        qed
      qed
    qed
  qed
qed

lemma space_level3_grown:
  assumes own: "space_owned inv live (sp, mc) A" and va: "USER_BASE \<le> va" "va < USER_END"
    and l3: "space_level3 allocate va sp mc = Some (t, sp', mc')"
  shows "grown live (sp, mc) A (sp', mc') A" "space_owned inv live (sp', mc') A"
proof -
  have o: "inv (mc_src mc)" "set (space_frames sp) \<subseteq> live (mc_src mc)" "space_ok sp (mc_mem mc) A"
    using own by (simp_all add: space_owned_def)
  note r = space_level3_ok [OF o va l3]
  show "space_owned inv live (sp', mc') A" using r by (simp add: space_owned_def)
  have "space_frames sp' = space_frames sp \<and> space_tables sp' = space_tables sp \<and> live (mc_src mc') = live (mc_src mc)
     \<or> set (space_frames sp') = insert t (set (space_frames sp)) \<and> set (space_tables sp') = insert t (set (space_tables sp))
       \<and> t \<notin> live (mc_src mc) \<and> live (mc_src mc') = insert t (live (mc_src mc))"
  proof (cases "map_of (sp_level3 sp) (level2_index va)")
    case (Some t')
    then show ?thesis using l3 by (auto simp: space_level3_def)
  next
    case None
    then have new: "level2_index va \<notin> fst ` set (sp_level3 sp)" by (simp add: map_of_eq_None_iff)
    obtain mc1 where z: "zeroed_frame allocate mc = Some (t, mc1)" "mc_src mc' = mc_src mc1"
      "sp' = sp\<lparr>sp_level3 := btree_insert (level2_index va) t (sp_level3 sp)\<rparr>"
      using None l3 by (auto simp: space_level3_def split: option.splits)
    then show ?thesis using zeroed_frame_spec(2,3) [OF o(1) z(1)]
      by (auto simp: space_frames_def space_tables_def set_btree_insert [OF new])
  qed
  then show "grown live (sp, mc) A (sp', mc') A" using r(7) o(2) by (intro grownI) auto
qed

lemma space_map_cases:
  assumes own: "space_owned inv live (sp, mc) A" and run: "space_map allocate va access (sp, mc) = (r, sp', mc')"
  shows "\<exists>A'. space_owned inv live (sp', mc') A' \<and> grown live (sp, mc) A (sp', mc') A'
     \<and> map_outcome (allocate (mc_src mc') = None) va access A A' r"
proof -
  have o: "set (space_frames sp) \<subseteq> live (mc_src mc)" "map_of (sp_frames sp) va = None \<longleftrightarrow> A va = None"
    using own space_okD(5) [of sp "mc_mem mc" A va] by (simp_all add: space_owned_def)
  have same: "sp' = sp \<Longrightarrow> mc' = mc \<Longrightarrow> space_owned inv live (sp', mc') A \<and> grown live (sp, mc) A (sp', mc') A"
    using own grown_refl [of "(sp, mc)" live A] o(1) by simp
  consider "va mod PAGE_SIZE \<noteq> 0" | "va mod PAGE_SIZE = 0" "\<not> (USER_BASE \<le> va \<and> va < USER_END)"
    | "va mod PAGE_SIZE = 0" "USER_BASE \<le> va \<and> va < USER_END" "A va \<noteq> None"
    | "va mod PAGE_SIZE = 0" "USER_BASE \<le> va \<and> va < USER_END" "A va = None"
    by blast
  then show ?thesis
  proof cases
    case 1
    then have "r = Err NotAligned" "sp' = sp" "mc' = mc" using run by (simp_all add: space_map_def)
    then show ?thesis using same 1 by (intro exI [of _ A]) (simp add: map_outcome_def)
  next
    case 2
    then have "r = Err OutsideWindow" "sp' = sp" "mc' = mc" using run by (simp_all add: space_map_def)
    then show ?thesis using same 2 by (intro exI [of _ A]) (simp add: map_outcome_def)
  next
    case 3
    then obtain y where "map_of (sp_frames sp) va = Some y" using o(2) by auto
    then have "r = Err AlreadyMapped" "sp' = sp" "mc' = mc" using run 3(1,2) by (simp_all add: space_map_def)
    then show ?thesis using same 3 by (intro exI [of _ A]) (simp add: map_outcome_def)
  next
    case 4
    then have va: "USER_BASE \<le> va" "va < USER_END" "va mod 4096 = 0" by (simp_all add: PAGE_SIZE_def)
    show ?thesis
    proof (cases "space_level3 allocate va sp mc")
      case None
      then have "allocate (mc_src mc) = None" by (auto simp: space_level3_def zeroed_frame_def split: option.splits)
      moreover have "r = Err OutOfMemory" "sp' = sp" "mc' = mc" using run 4 o(2) None by (simp_all add: space_map_def)
      ultimately show ?thesis using same by (intro exI [of _ A]) (simp add: map_outcome_def)
    next
      case (Some x)
      then obtain t sp1 mc1 where l3: "space_level3 allocate va sp mc = Some (t, sp1, mc1)" by (cases x) auto
      note g1 = space_level3_grown [OF own va(1,2) l3]
      show ?thesis
      proof (cases "zeroed_frame allocate mc1")
        case None
        then have "r = Err OutOfMemory" "sp' = sp1" "mc' = mc1" using run 4 o(2) l3 by (simp_all add: space_map_def)
        moreover have "allocate (mc_src mc1) = None" using None by (auto simp: zeroed_frame_def split: option.splits)
        ultimately show ?thesis using g1 by (intro exI [of _ A]) (simp add: map_outcome_def)
      next
        case (Some y)
        then obtain f mc2 where z: "zeroed_frame allocate mc1 = Some (f, mc2)" by (cases y) auto
        have res: "r = Ok ()" "sp' = sp1\<lparr>sp_frames := btree_insert va f (sp_frames sp1)\<rparr>"
          "mc' = mc2\<lparr>mc_mem := table_set t (level3_index va) (f OR descriptor_bits access) (mc_mem mc2)\<rparr>"
          using run 4 o(2) l3 z by (simp_all add: space_map_def)
        have o1: "inv (mc_src mc1)" "set (space_frames sp1) \<subseteq> live (mc_src mc1)" "space_ok sp1 (mc_mem mc1) A"
          using g1(2) by (simp_all add: space_owned_def)
        have "map_of (sp_level3 sp1) (level2_index va) = Some t"
          using space_level3_ok(2) [OF _ _ _ va(1,2) l3, of A] own by (simp add: space_owned_def)
        note p = space_page_ok [OF o1 va 4(3) this z res(2,3)]
        have own': "space_owned inv live (sp', mc') (A(va \<mapsto> (f, access)))" using p(1-4) o1(2) by (auto simp: space_owned_def)
        have "space_tables sp' = space_tables sp1" by (simp add: res(2) space_tables_def)
        then have "grown live (sp1, mc1) A (sp', mc') (A(va \<mapsto> (f, access)))"
          using p(3-7) o1(2) 4(3) unfolding grown_def by (auto simp: map_le_def split: if_splits)
        then show ?thesis using grown_trans [OF g1(1) _ g1(2)] own' res(1) 4
          by (intro exI [of _ "A(va \<mapsto> (f, access))"]) (auto simp: map_outcome_def)
      qed
    qed
  qed
qed

lemma map_each_grown:
  assumes "space_owned inv live st A" and "map_each allocate vas access st = (r, st')"
  shows "\<exists>A'. space_owned inv live st' A' \<and> grown live st A st' A'
     \<and> (r = Ok () \<longrightarrow> dom A' = dom A \<union> set vas \<and> (\<forall>va \<in> set vas. \<exists>f. A' va = Some (f, access)))"
  using assms
proof (induction vas arbitrary: st A)
  case Nil
  then show ?case using grown_refl [of st live A] by (intro exI [of _ A]) (auto simp: space_owned_def)
next
  case (Cons va vas)
  obtain q sp1 mc1 where s: "space_map allocate va access st = (q, sp1, mc1)" by (metis prod_cases3)
  have own: "space_owned inv live (fst st, snd st) A" using Cons.prems(1) by simp
  have s': "space_map allocate va access (fst st, snd st) = (q, sp1, mc1)" using s by simp
  obtain A1 where A1: "space_owned inv live (sp1, mc1) A1" "grown live st A (sp1, mc1) A1"
    and R: "map_outcome (allocate (mc_src mc1) = None) va access A A1 q"
    using space_map_cases [OF own s'] unfolding prod.collapse by blast
  show ?case
  proof (cases q)
    case (Err e)
    then have "r = Err e" "st' = (sp1, mc1)" using Cons.prems(2) s by simp_all
    then show ?thesis using A1 by (intro exI [of _ A1]) simp
  next
    case (Ok u)
    then obtain f where f: "A1 = A(va \<mapsto> (f, access))" using R by (auto simp: map_outcome_def)
    have "map_each allocate vas access (sp1, mc1) = (r, st')" using Cons.prems(2) s Ok by simp
    then obtain A2 where A2: "space_owned inv live st' A2" "grown live (sp1, mc1) A1 st' A2"
      "r = Ok () \<longrightarrow> dom A2 = dom A1 \<union> set vas \<and> (\<forall>va \<in> set vas. \<exists>f. A2 va = Some (f, access))"
      using Cons.IH [OF A1(1)] by blast
    have "A2 va = Some (f, access)" using A2(2) f unfolding grown_def map_le_def by (metis domI fun_upd_same)
    then show ?thesis using A2 grown_trans [OF A1(2) A2(2) A1(1)] f by (intro exI [of _ A2]) auto
  qed
qed

end

subsection \<open>Copies through the abstract page table\<close>

definition phys :: "(nat \<rightharpoonup> u64 \<times> access) \<Rightarrow> nat \<Rightarrow> nat" where
  "phys A va = (case A (page_of va) of None \<Rightarrow> 0 | Some (f, _) \<Rightarrow> unat f + va mod 4096)"

definition may :: "(nat \<rightharpoonup> u64 \<times> access) \<Rightarrow> (access \<Rightarrow> bool) \<Rightarrow> nat \<Rightarrow> bool" where
  "may A allowed va \<longleftrightarrow> (case A (page_of va) of None \<Rightarrow> False | Some (_, access) \<Rightarrow> allowed access)"

lemma frame_offset:
  assumes "is_frame f" "c < 4096"
  shows "unat (f OR of_nat c) = unat f + c"
proof -
  have c: "unat (of_nat c :: u64) = c" using assms(2) by (simp add: unat_of_nat)
  have "take_bit 12 c = c" using assms(2) by (simp add: take_bit_nat_eq_self)
  then have bits: "bit (of_nat c :: u64) n \<Longrightarrow> n < 12" for n by (metis bit_of_nat_iff bit_take_bit_iff)
  have "f AND of_nat c = 0"
    by (rule bit_word_eqI) (use frame_bit [OF assms(1)] bits in \<open>auto simp: bit_and_iff\<close>, fastforce)
  then have "f OR of_nat c = f + of_nat c" by (simp add: disjunctive_add_eq_or)
  moreover have "unat f + c < 2 ^ 64" using assms by (simp add: is_frame_def)
  ultimately show ?thesis by (simp add: unat_word_ariths c)
qed

lemma piece_same_page:
  assumes "i < 4096 - va mod 4096"
  shows "page_of (va + i) = page_of va" "(va + i) mod 4096 = va mod 4096 + i"
proof -
  define c q where "c = va mod 4096" and "q = va div 4096"
  have "va = c + 4096 * q" by (simp add: c_def q_def)
  then have "va + i = (c + i) + 4096 * q" by (simp only: ac_simps)
  then have "(va + i) mod 4096 = (c + i) mod 4096" by (simp only: mod_mult_self2)
  moreover have "c + i < 4096" using assms [folded c_def] by (simp only: less_diff_conv add.commute)
  ultimately show m: "(va + i) mod 4096 = va mod 4096 + i" unfolding c_def [symmetric] by (simp only: mod_less)
  show "page_of (va + i) = page_of va" unfolding page_of_def m by simp
qed

lemma phys_inj:
  assumes ok: "space_ok sp m A" and "A (page_of x) \<noteq> None" "A (page_of y) \<noteq> None" and eq: "phys A x = phys A y"
  shows "x = y"
proof -
  obtain f a g b where fa: "A (page_of x) = Some (f, a)" and gb: "A (page_of y) = Some (g, b)" using assms(2,3) by auto
  have p: "unat f + x mod 4096 = unat g + y mod 4096" using eq by (simp add: phys_def fa gb)
  have "in_frame f (unat f + x mod 4096)" "in_frame g (unat g + y mod 4096)" by (simp_all add: in_frame_def)
  from this(1) this(2) [folded p] have "f = g" using frames_disjoint page_frame [OF ok fa] page_frame [OF ok gb] by blast
  then have m: "x mod 4096 = y mod 4096" using p by simp
  have "map_of (sp_frames sp) (page_of x) = Some f" "map_of (sp_frames sp) (page_of y) = Some f"
    using space_okD(5) [OF ok] fa gb \<open>f = g\<close> by simp_all
  moreover have "distinct (map snd (sp_frames sp))" using space_okD(1) [OF ok] by (simp add: space_frames_def)
  ultimately have "page_of x = page_of y" by (metis distinct_map fst_conv inj_onD map_of_SomeD snd_conv)
  then show ?thesis using m page_of_page(4) by metis
qed

text \<open>The rule of the copying loop: it goes on while it may, and stops at the first address it may not touch.\<close>

lemma for_each_piece_rule:
  assumes "P done0 st" and "done0 \<le> len"
    and step: "\<And>d piece physical st. \<lbrakk>P d st; 0 < piece; d + piece \<le> len;
        \<forall>i<piece. may A allowed (va + (d + i)) \<and> phys A (va + (d + i)) = physical + i\<rbrakk> \<Longrightarrow> P (d + piece) (f physical d piece st)"
    and ok: "\<And>d st. P d st \<Longrightarrow> space_ok sp (fst st) A"
  shows "\<exists>stop st'. for_each_piece sp va len allowed f done0 st =
       (if stop = len then Ok () else Err (min (va + stop) (2 ^ 64 - 1)), st') \<and> done0 \<le> stop \<and> stop \<le> len \<and> P stop st'
     \<and> (\<forall>i. done0 \<le> i \<and> i < stop \<longrightarrow> may A allowed (va + i)) \<and> (stop < len \<longrightarrow> \<not> may A allowed (va + stop))"
  using assms(1,2)
proof (induction "len - done0" arbitrary: done0 st rule: less_induct)
  case less
  note unfold = for_each_piece.simps [of sp va len allowed f done0 st]
  let ?a = "va + done0"
  have tr: "translate ?a sp (fst st) = map_option (\<lambda>(f, access). (f OR of_nat (?a mod 4096), access)) (A (page_of ?a))"
    using translate_abstract [OF ok [OF less.prems(1)]] .
  show ?case
  proof (cases "done0 = len")
    case True
    have "for_each_piece sp va len allowed f len st = (Ok (), st)" by (subst for_each_piece.simps) simp
    then show ?thesis using less.prems True by (intro exI [of _ len] exI [of _ st]) auto
  next
    case False
    then have lt: "done0 < len" using less.prems(2) by simp
    show ?thesis
    proof (cases "may A allowed ?a")
      case no: False
      have "for_each_piece sp va len allowed f done0 st = (Err (min ?a (2 ^ 64 - 1)), st)"
        using lt no by (auto simp: unfold tr Let_def may_def split: option.splits)
      then show ?thesis using less.prems lt no by (intro exI [of _ done0] exI [of _ st]) auto
    next
      case yes: True
      then obtain fr a where A: "A (page_of ?a) = Some (fr, a)" "allowed a" by (auto simp: may_def split: option.splits)
      have "?a < 2 ^ 64" using space_okD(6) [OF ok [OF less.prems(1)] A(1)] page_of_window(2) [of ?a] by (simp add: USER_END_def)
      have u: "unat (fr OR of_nat (?a mod 4096)) = unat fr + ?a mod 4096"
        using frame_offset page_frame [OF ok [OF less.prems(1)] A(1)] by simp
      define piece where "piece = min (4096 - ?a mod 4096) (len - done0)"
      have piece: "0 < piece" "done0 + piece \<le> len" "piece \<le> 4096 - ?a mod 4096" using lt by (simp_all add: piece_def)
      have "may A allowed (va + (done0 + i)) \<and> phys A (va + (done0 + i)) = (unat fr + ?a mod 4096) + i" if "i < piece" for i
      proof -
        have "i < 4096 - ?a mod 4096" using that piece(3) by simp
        from piece_same_page [OF this] have "page_of (va + (done0 + i)) = page_of ?a" "(va + (done0 + i)) mod 4096 = ?a mod 4096 + i"
          by (simp_all add: add.assoc)
        then show ?thesis using A by (simp add: may_def phys_def)
      qed
      note all = this
      then have P': "P (done0 + piece) (f (unat fr + ?a mod 4096) done0 piece st)" using step [OF less.prems(1) piece(1,2)] by blast
      have eq: "for_each_piece sp va len allowed f done0 st =
          for_each_piece sp va len allowed f (done0 + piece) (f (unat fr + ?a mod 4096) done0 piece st)"
        using lt A \<open>?a < 2 ^ 64\<close> by (simp add: unfold tr u Let_def piece_def PAGE_SIZE_def)
      have "len - (done0 + piece) < len - done0" using piece(1) lt by simp
      from less.hyps [OF this P' piece(2)] obtain stop st' where
        s: "for_each_piece sp va len allowed f (done0 + piece) (f (unat fr + ?a mod 4096) done0 piece st) =
             (if stop = len then Ok () else Err (min (va + stop) (2 ^ 64 - 1)), st')" "done0 + piece \<le> stop" "stop \<le> len" "P stop st'"
          "\<forall>i. done0 + piece \<le> i \<and> i < stop \<longrightarrow> may A allowed (va + i)" "stop < len \<longrightarrow> \<not> may A allowed (va + stop)"
        by blast
      have "may A allowed (va + i)" if "done0 \<le> i" "i < stop" for i
        using all [of "i - done0"] s(5) that by (cases "i < done0 + piece") auto
      then show ?thesis using s eq by (intro exI [of _ stop] exI [of _ st']) simp
    qed
  qed
qed

lemma phys_in_frame: "A (page_of va) = Some (f, a) \<Longrightarrow> in_frame f (phys A va)"
  by (simp add: phys_def in_frame_def)

lemma phys_not_table:
  assumes ok: "space_ok sp m A" and "may A allowed va" and t: "t \<in> set (space_tables sp)"
  shows "\<not> in_frame t (phys A va)"
proof -
  obtain f a where A: "A (page_of va) = Some (f, a)" using assms(2) by (auto simp: may_def split: option.splits)
  have "is_frame t" using t frames_tables space_okD(2) [OF ok] by blast
  then show ?thesis using frames_disjoint [OF _ _ phys_in_frame [of A va f a, OF A]] page_frame [OF ok A] page_not_table [OF ok A] t by blast
qed

definition written :: "(nat \<rightharpoonup> u64 \<times> access) \<Rightarrow> (access \<Rightarrow> bool) \<Rightarrow> nat \<Rightarrow> byte list \<Rightarrow> memory \<Rightarrow> nat \<Rightarrow> memory \<Rightarrow> bool" where
  \<comment> \<open>the first \<open>n\<close> bytes were copied to the program's addresses from \<open>va\<close>, and nothing else\<close>
  "written A allowed va bytes m n m' \<longleftrightarrow>
     (\<forall>i<n. may A allowed (va + i) \<and> m' (phys A (va + i)) = bytes ! i) \<and>
     (\<forall>x. (\<forall>i<n. x \<noteq> phys A (va + i)) \<longrightarrow> m' x = m x)"

lemma written_ok:
  assumes ok: "space_ok sp m A" and w: "written A allowed va bytes m n m'"
  shows "space_ok sp m' A"
proof (rule space_ok_mem [OF ok])
  fix t assume t: "t \<in> set (space_tables sp)"
  have "m' x = m x" if x: "in_frame t x" for x
  proof -
    have "x \<noteq> phys A (va + i)" if "i < n" for i
      using w that x phys_not_table [OF ok, of allowed "va + i"] t unfolding written_def by metis
    then show ?thesis using w unfolding written_def by simp
  qed
  then show "agree m m' t" by (simp add: agree_def)
qed

lemma may_mapped: "may A allowed va \<Longrightarrow> A (page_of va) \<noteq> None"
  by (auto simp: may_def split: option.splits)

lemma written_step:
  assumes ok: "space_ok sp m A" and w: "written A allowed va bytes m d m'" and le: "d + piece \<le> length bytes"
    and all: "\<forall>i<piece. may A allowed (va + (d + i)) \<and> phys A (va + (d + i)) = physical + i"
  shows "written A allowed va bytes m (d + piece) (copy_in physical (take piece (drop d bytes)) m')"
proof -
  let ?m = "copy_in physical (take piece (drop d bytes)) m'"
  have len: "length (take piece (drop d bytes)) = piece" using le by simp
  have m: "?m x = (if physical \<le> x \<and> x < physical + piece then bytes ! (d + (x - physical)) else m' x)" for x
    using le by (auto simp: copy_in_def len)
  have may: "may A allowed (va + i)" if "i < d + piece" for i
    using that w all [rule_format, of "i - d"] unfolding written_def by (cases "i < d") auto
  have new: "physical + i = phys A (va + (d + i))" if "i < piece" for i using all that by simp
  have "?m (phys A (va + i)) = bytes ! i" if "i < d + piece" for i
  proof (cases "i < d")
    case True
    have "phys A (va + i) \<noteq> physical + j" if "j < piece" for j
      using phys_inj [OF ok may_mapped [OF may [of i]] may_mapped [OF may [of "d + j"]]] True that new [OF that] by auto
    then have "\<not> (physical \<le> phys A (va + i) \<and> phys A (va + i) < physical + piece)"
      by (metis le_add_diff_inverse nat_add_left_cancel_less)
    then have "?m (phys A (va + i)) = m' (phys A (va + i))" unfolding m by (rule if_not_P)
    then show ?thesis using w True unfolding written_def by simp
  next
    case False
    then obtain j where j: "i = d + j" by (metis le_Suc_ex not_less)
    then have j: "i = d + j" "j < piece" using that by simp_all
    show ?thesis unfolding j(1) new [OF j(2), symmetric] using j(2) by (simp add: m)
  qed
  moreover have "?m x = m x" if x: "\<forall>i < d + piece. x \<noteq> phys A (va + i)" for x
  proof -
    have "\<not> (physical \<le> x \<and> x < physical + piece)"
      using x new by (metis add_less_cancel_left le_add_diff_inverse)
    then have "?m x = m' x" unfolding m by (rule if_not_P)
    also have "m' x = m x" using w x unfolding written_def by simp
    finally show ?thesis .
  qed
  ultimately show ?thesis using may unfolding written_def by blast
qed

definition copied :: "(unit, nat) result \<Rightarrow> (nat \<rightharpoonup> u64 \<times> access) \<Rightarrow> (access \<Rightarrow> bool) \<Rightarrow> nat \<Rightarrow> nat \<Rightarrow> nat \<Rightarrow> bool" where
  \<comment> \<open>the answer to a copy of \<open>len\<close> bytes at \<open>va\<close> that went as far as \<open>stop\<close>\<close>
  "copied r A allowed va len stop \<longleftrightarrow>
     stop \<le> len \<and> r = (if stop = len then Ok () else Err (min (va + stop) (2 ^ 64 - 1)))
     \<and> (\<forall>i < stop. may A allowed (va + i)) \<and> (stop < len \<longrightarrow> \<not> may A allowed (va + stop))"

lemma write_pieces:
  assumes ok: "space_ok sp m A"
  shows "\<exists>stop r m'. for_each_piece sp va (length bytes) allowed
       (\<lambda>physical offset len (m, b). (copy_in physical (take len (drop offset bytes)) m, b)) 0 (m, []) = (r, m', [])
     \<and> copied r A allowed va (length bytes) stop \<and> written A allowed va bytes m stop m'"
proof -
  let ?P = "\<lambda>d st. snd st = [] \<and> written A allowed va bytes m d (fst st)"
  let ?f = "\<lambda>physical offset len (m, b). (copy_in physical (take len (drop offset bytes)) m, b :: byte list)"
  have 0: "?P 0 (m, [])" by (simp add: written_def)
  have "\<exists>stop st'. for_each_piece sp va (length bytes) allowed ?f 0 (m, []) =
       (if stop = length bytes then Ok () else Err (min (va + stop) (2 ^ 64 - 1)), st') \<and> 0 \<le> stop \<and> stop \<le> length bytes \<and> ?P stop st'
     \<and> (\<forall>i. 0 \<le> i \<and> i < stop \<longrightarrow> may A allowed (va + i)) \<and> (stop < length bytes \<longrightarrow> \<not> may A allowed (va + stop))"
    by (rule for_each_piece_rule [where P = ?P, OF 0])
      (use written_step [OF ok] written_ok [OF ok] in \<open>auto simp: split_beta\<close>)
  then obtain stop st' where s: "for_each_piece sp va (length bytes) allowed ?f 0 (m, []) =
       (if stop = length bytes then Ok () else Err (min (va + stop) (2 ^ 64 - 1)), st')" "stop \<le> length bytes" "?P stop st'"
     "\<forall>i < stop. may A allowed (va + i)" "stop < length bytes \<longrightarrow> \<not> may A allowed (va + stop)" by auto
  then show ?thesis by (intro exI [of _ stop] exI conjI) (auto simp: copied_def prod_eq_iff)
qed

lemma read_user_spec:
  assumes ok: "space_ok sp m A"
  shows "\<exists>stop. copied (fst (read_user va buf sp m)) A (\<lambda>_. True) va (length buf) stop \<and>
     snd (read_user va buf sp m) = map (\<lambda>i. m (phys A (va + i))) [0..<stop] @ drop stop buf"
proof -
  let ?P = "\<lambda>d st. fst st = m \<and> snd st = map (\<lambda>i. m (phys A (va + i))) [0..<d] @ drop d buf"
  let ?f = "\<lambda>physical offset len (m, b). (m, overwrite offset (copy_out m physical len) b)"
  have step: "?P (d + piece) (?f physical d piece st)" if P: "?P d st" and le: "d + piece \<le> length buf"
    and all: "\<forall>i<piece. may A (\<lambda>_. True) (va + (d + i)) \<and> phys A (va + (d + i)) = physical + i" for d piece physical st
  proof -
    have "copy_out m physical piece = map (\<lambda>i. m (phys A (va + i))) [d..<d + piece]"
      using all by (intro nth_equalityI) (auto simp: copy_out_def add.commute)
    then have "overwrite d (copy_out m physical piece) (snd st) =
        map (\<lambda>i. m (phys A (va + i))) [0..<d] @ map (\<lambda>i. m (phys A (va + i))) [d..<d + piece] @ drop (d + piece) buf"
      using P le by (simp add: overwrite_def add.commute)
    then show ?thesis using P upt_add_eq_append [of 0 d piece] by (cases st) simp
  qed
  have "\<exists>stop st'. for_each_piece sp va (length buf) (\<lambda>_. True) ?f 0 (m, buf) =
       (if stop = length buf then Ok () else Err (min (va + stop) (2 ^ 64 - 1)), st') \<and> 0 \<le> stop \<and> stop \<le> length buf \<and> ?P stop st'
     \<and> (\<forall>i. 0 \<le> i \<and> i < stop \<longrightarrow> may A (\<lambda>_. True) (va + i)) \<and> (stop < length buf \<longrightarrow> \<not> may A (\<lambda>_. True) (va + stop))"
    by (rule for_each_piece_rule [where P = ?P]) (use step ok in auto)
  then obtain stop st' where s: "for_each_piece sp va (length buf) (\<lambda>_. True) ?f 0 (m, buf) =
       (if stop = length buf then Ok () else Err (min (va + stop) (2 ^ 64 - 1)), st')" "stop \<le> length buf" "?P stop st'"
     "\<forall>i < stop. may A (\<lambda>_. True) (va + i)" "stop < length buf \<longrightarrow> \<not> may A (\<lambda>_. True) (va + stop)" by auto
  then show ?thesis by (intro exI [of _ stop]) (auto simp: copied_def read_user_def split_beta Let_def)
qed

subsection \<open>The life of an address space\<close>

lemma copy_out_in: "k + n \<le> length bs \<Longrightarrow> copy_out (copy_in a bs m) (a + k) n = take n (drop k bs)"
  by (intro nth_equalityI) (auto simp: copy_out_def copy_in_def add.commute add.left_commute)

lemma length_words: "length (concat (map (to_le 8) ws)) = 8 * length ws"
  by (induction ws) simp_all

lemma nth_words: "i < length ws \<Longrightarrow> take 8 (drop (8 * i) (concat (map (to_le 8) ws))) = to_le 8 (ws ! i)"
proof (induction ws arbitrary: i)
  case (Cons w ws)
  then show ?case by (cases i) simp_all
qed simp

lemma table_words:
  assumes "i < length ws"
  shows "table_get (copy_in (unat t) (concat (map (to_le 8) ws)) m) t i = ws ! i"
proof -
  have "8 * i + 8 \<le> length (concat (map (to_le 8) ws))" using assms by (simp add: length_words)
  then show ?thesis unfolding table_get_def by (simp add: copy_out_in nth_words [OF assms] from_le_to_le)
qed

lemma copy_agree:
  assumes "is_frame f" "is_frame g" "f \<noteq> g" "length bs \<le> 4096"
  shows "agree m (copy_in (unat f) bs m) g"
  unfolding agree_def
proof (intro allI impI)
  fix x assume "in_frame g x"
  then have "\<not> in_frame f x" using frames_disjoint assms by blast
  then show "copy_in (unat f) bs m x = m x" using assms(4) by (intro copy_in_outside) (auto simp: in_frame_def)
qed

context frame_source
begin

lemma space_new_ok:
  assumes inv: "inv (mc_src mc)" and len: "length kernel_table = 512"
  shows "\<exists>r mc'. space_new allocate free kernel_table mc = Some (r, mc') \<and>
     (case r of
        None \<Rightarrow> inv (mc_src mc') \<and> live (mc_src mc') = live (mc_src mc) \<and> (\<forall>f \<in> live (mc_src mc). agree (mc_mem mc) (mc_mem mc') f)
      | Some sp \<Rightarrow> space_owned inv live (sp, mc') Map.empty \<and> live (mc_src mc') = live (mc_src mc) \<union> set (space_frames sp)
          \<and> set (space_frames sp) \<inter> live (mc_src mc) = {} \<and> (\<forall>f \<in> live (mc_src mc). agree (mc_mem mc) (mc_mem mc') f)
          \<and> (\<forall>i < 512. i \<noteq> 2 \<longrightarrow> table_get (mc_mem mc') (sp_root sp) i = kernel_table ! i))"
proof (cases "zeroed_frame allocate mc")
  case None
  then show ?thesis using inv by (simp add: space_new_def agree_def)
next
  case (Some x)
  then obtain root mc1 where z1: "zeroed_frame allocate mc = Some (root, mc1)" by (cases x) auto
  note s1 = zeroed_frame_spec [OF inv z1]
  have a1: "agree (mc_mem mc) (mc_mem mc1) f" if "f \<in> live (mc_src mc)" for f using zeroed_agree [OF inv z1 that] .
  show ?thesis
  proof (cases "zeroed_frame allocate mc1")
    case None
    obtain src where "free root (mc_src mc1) = Some src" "inv src" "live src = live (mc_src mc1) - {root}"
      using free_live [OF s1(1)] s1(3) by blast
    then show ?thesis using None z1 s1(2,3) a1 by (auto simp: space_new_def)
  next
    case (Some y)
    then obtain l2 mc2 where z2: "zeroed_frame allocate mc1 = Some (l2, mc2)" by (cases y) auto
    note s2 = zeroed_frame_spec [OF s1(1) z2]
    have a2: "agree (mc_mem mc1) (mc_mem mc2) f" if "f \<in> live (mc_src mc1)" for f using zeroed_agree [OF s1(1) z2 that] .
    define mem1 where "mem1 = copy_in (unat root) (concat (map (to_le 8) kernel_table)) (mc_mem mc2)"
    define mem2 where "mem2 = table_set root 2 (l2 OR VALID OR TABLE_OR_PAGE) mem1"
    define sp where "sp = \<lparr>sp_root = root, sp_level2 = l2, sp_level3 = [], sp_frames = []\<rparr>"
    have i: "level1_index USER_BASE = 2" by (simp add: level1_index_def USER_BASE_def ENTRIES_def)
    have run: "space_new allocate free kernel_table mc = Some (Some sp, mc2\<lparr>mc_mem := mem2\<rparr>)"
      using z1 z2 by (simp add: space_new_def i mem1_def mem2_def sp_def Let_def)
    have ne: "l2 \<noteq> root" using s2(2) s1(3) by auto
    have keep: "agree (mc_mem mc2) mem2 f" if "is_frame f" "f \<noteq> root" for f
      unfolding mem2_def mem1_def using that s1(4) len
      by (intro agree_trans [OF copy_agree table_set_agree]) (auto simp: length_words)
    have fr: "space_frames sp = [root, l2]" by (simp add: sp_def space_frames_def)
    have "space_ok sp mem2 Map.empty"
    proof (rule space_okI)
      show "table_get mem2 (sp_level2 sp) k = (case map_of (sp_level3 sp) k of None \<Rightarrow> 0 | Some t \<Rightarrow> t OR VALID OR TABLE_OR_PAGE)"
        if "k < 512" for k
        using table_get_agree [OF keep [OF s2(4) ne] that] table_get_zero [OF that] by (simp add: sp_def s2(5))
    qed (use ne s1(4) s2(4) in \<open>auto simp: fr, simp_all add: sp_def mem2_def table_get_set\<close>)
    moreover have "table_get mem2 root k = kernel_table ! k" if "k < 512" "k \<noteq> 2" for k
      using that len by (simp add: mem2_def mem1_def table_get_set_other table_words)
    moreover have "agree (mc_mem mc) mem2 f" if "f \<in> live (mc_src mc)" for f
      using agree_trans [OF agree_trans [OF a1 a2] keep] that s1(2,3) live_is_frame [OF inv that] by auto
    ultimately show ?thesis using run s1 s2 ne fr
      by (intro exI [of _ "Some sp"] exI [of _ "mc2\<lparr>mc_mem := mem2\<rparr>"]) (auto simp: space_owned_def sp_def)
  qed
qed

lemma space_drop_ok:
  assumes "space_owned inv live (sp, mc) A"
  shows "\<exists>src. space_drop free sp (mc_src mc) = Some src \<and> inv src \<and> live src = live (mc_src mc) - set (space_frames sp)"
  using release_all_live [of "mc_src mc" "space_frames sp"] assms space_okD(1) [of sp "mc_mem mc" A]
  by (auto simp: space_owned_def space_drop_def space_frames_def)

end

text \<open>Everything that can happen to an address space between its creation and its end, in any order: the
  kernel's own calls, and meanwhile anything that leaves its tables alone and its frames allocated, be it
  the program storing to its pages or the rest of the kernel.\<close>

inductive space_run :: "u64 list \<Rightarrow> space \<Rightarrow> frames option machine \<Rightarrow> bool" for kernel_table where
  run_new: "space_run kernel_table sp mc'"
  if "page_frames_inv (mc_src mc)" "space_new page_frames_allocate page_frames_free kernel_table mc = Some (Some sp, mc')"
| run_map: "space_run kernel_table sp' mc'"
  if "space_run kernel_table sp mc" "space_map page_frames_allocate va access (sp, mc) = (r, sp', mc')"
| run_map_range: "space_run kernel_table sp' mc'"
  if "space_run kernel_table sp mc" "map_range page_frames_allocate va len access (sp, mc) = (r, sp', mc')"
| run_load: "space_run kernel_table sp (mc\<lparr>mc_mem := m\<rparr>)"
  if "space_run kernel_table sp mc" "space_load va bytes sp (mc_mem mc) = (q, m)"
| run_write: "space_run kernel_table sp (mc\<lparr>mc_mem := m\<rparr>)"
  if "space_run kernel_table sp mc" "write_user va bytes sp (mc_mem mc) = (q, m)"
| run_other: "space_run kernel_table sp mc'"
  if "space_run kernel_table sp mc" "page_frames_inv (mc_src mc')" "set (space_frames sp) \<subseteq> page_frames_live (mc_src mc')"
    "\<forall>f \<in> set (space_tables sp). agree (mc_mem mc) (mc_mem mc') f"

abbreviation owns :: "space \<Rightarrow> frames option machine \<Rightarrow> (nat \<rightharpoonup> u64 \<times> access) \<Rightarrow> bool" where
  "owns sp mc A \<equiv> space_owned page_frames_inv page_frames_live (sp, mc) A"

lemma copy_owned:
  assumes "owns sp mc A"
  shows "owns sp (mc\<lparr>mc_mem := snd (space_load va bytes sp (mc_mem mc))\<rparr>) A"
    "owns sp (mc\<lparr>mc_mem := snd (write_user va bytes sp (mc_mem mc))\<rparr>) A"
proof -
  have ok: "space_ok sp (mc_mem mc) A" using assms by (simp add: space_owned_def)
  have "space_ok sp (snd (space_load va bytes sp (mc_mem mc))) A"
    using write_pieces [OF ok, of va bytes "\<lambda>_. True"] written_ok [OF ok] by (auto simp: space_load_def)
  moreover have "space_ok sp (snd (write_user va bytes sp (mc_mem mc))) A"
    using write_pieces [OF ok, of va bytes writable] written_ok [OF ok] by (auto simp: write_user_def)
  ultimately show "owns sp (mc\<lparr>mc_mem := snd (space_load va bytes sp (mc_mem mc))\<rparr>) A"
    "owns sp (mc\<lparr>mc_mem := snd (write_user va bytes sp (mc_mem mc))\<rparr>) A"
    using assms by (simp_all add: space_owned_def)
qed

lemma run_owned:
  assumes "space_run kernel_table sp mc" and "length kernel_table = 512"
  shows "\<exists>A. owns sp mc A"
  using assms(1)
proof induction
  case (run_new mc sp mc')
  then show ?case using page_frames.space_new_ok [OF run_new(1) assms(2)] by force
next
  case (run_map sp mc va access r sp' mc')
  then show ?case using page_frames.space_map_cases by metis
next
  case (run_map_range sp mc va len access r sp' mc')
  then obtain A where A: "owns sp mc A" by blast
  show ?case
  proof (cases "va + len \<ge> 2 ^ 64")
    case True
    then show ?thesis using A run_map_range(2) by (auto simp: map_range_def)
  next
    case False
    then show ?thesis using run_map_range(2) page_frames.map_each_grown [OF A] unfolding map_range_def if_not_P [OF False] by blast
  qed
next
  case (run_load sp mc va bytes q m)
  then show ?case using copy_owned(1) by (metis snd_conv)
next
  case (run_write sp mc va bytes q m)
  then show ?case using copy_owned(2) by (metis snd_conv)
next
  case (run_other sp mc mc')
  then show ?case using space_ok_mem by (force simp: space_owned_def)
qed

lemma descriptor_abstract:
  assumes ok: "space_ok sp m A" and "descriptor va sp m = Some d"
  shows "\<exists>f access. is_frame f \<and> d = f OR descriptor_bits access"
proof -
  have va: "USER_BASE \<le> va" "va < USER_END" using assms(2) by (auto simp: descriptor_def split: if_splits)
  note idx = page_at_index [OF va]
  have l2: "next_table (table_get m (sp_root sp) (level1_index va)) = Some (sp_level2 sp)"
    using space_okD(7) [OF ok] next_table_frame space_okD(2) [OF ok, of "sp_level2 sp"] by (simp add: idx space_frames_def)
  obtain t where t: "map_of (sp_level3 sp) (level2_index va) = Some t"
    using assms(2) l2 space_okD(8) [OF ok idx(2)] by (cases "map_of (sp_level3 sp) (level2_index va)") (auto simp: descriptor_def split: if_splits)
  have "next_table (table_get m (sp_level2 sp) (level2_index va)) = Some t"
    using space_okD(8) [OF ok idx(2)] t next_table_frame space_okD(2) [OF ok level3_frame [OF t]] by simp
  then have "d = page_entry A (page_of va)" "d \<noteq> 0"
    using assms(2) l2 va space_okD(9) [OF ok t, of "level3_index va"] idx(1,3) by (auto simp: descriptor_def Let_def split: if_splits)
  then show ?thesis using page_frame [OF ok] by (force simp: page_entry_def split: option.splits)
qed

lemma permission_bits:
  assumes "is_frame f"
  shows "bit (f OR descriptor_bits a) 7 \<or> bit (f OR descriptor_bits a) 54" "bit (f OR descriptor_bits a) 53"
    "bit (f OR descriptor_bits a) 7 \<longleftrightarrow> \<not> writable a"
proof -
  have f: "\<not> bit f 7" using frame_bit [OF assms] by fastforce
  have "list_all (\<lambda>a. (bit (descriptor_bits a) 7 \<longleftrightarrow> a \<noteq> ReadWrite) \<and> (bit (descriptor_bits a) 54 \<longleftrightarrow> a \<noteq> ReadExecute)
      \<and> bit (descriptor_bits a) 53) ACCESS_ALL" by code_simp
  then have b: "(bit (descriptor_bits a) 7 \<longleftrightarrow> a \<noteq> ReadWrite) \<and> (bit (descriptor_bits a) 54 \<longleftrightarrow> a \<noteq> ReadExecute) \<and> bit (descriptor_bits a) 53"
    unfolding ACCESS_ALL_def by (cases a) simp_all
  show "bit (f OR descriptor_bits a) 7 \<or> bit (f OR descriptor_bits a) 54" "bit (f OR descriptor_bits a) 53"
    "bit (f OR descriptor_bits a) 7 \<longleftrightarrow> \<not> writable a"
    using f b by (auto simp: bit_or_iff writable_def)
qed

lemma read_written:
  assumes ok: "space_ok sp m A" and w: "written A writable va bytes m (length bytes) m'" and len: "length buf = length bytes"
  shows "read_user va buf sp m' = (Ok (), bytes)"
proof -
  obtain n where n: "copied (fst (read_user va buf sp m')) A (\<lambda>_. True) va (length buf) n"
    "snd (read_user va buf sp m') = map (\<lambda>i. m' (phys A (va + i))) [0..<n] @ drop n buf"
    using read_user_spec [OF written_ok [OF ok w]] by blast
  have "may A (\<lambda>_. True) (va + i)" if "i < length bytes" for i
    using w that unfolding written_def may_def by (auto split: option.splits)
  then have "n = length bytes" using n(1) len unfolding copied_def by (metis le_neq_implies_less)
  moreover have "map (\<lambda>i. m' (phys A (va + i))) [0..<length bytes] = bytes"
    using w unfolding written_def by (intro nth_equalityI) auto
  ultimately show ?thesis using n len by (simp add: copied_def prod_eq_iff)
qed

lemma written_own_pages:
  assumes w: "written A allowed va bytes m n m'" and "m' x \<noteq> m x"
  shows "\<exists>p f access. A p = Some (f, access) \<and> allowed access \<and> in_frame f x"
proof -
  obtain i where i: "i < n" "x = phys A (va + i)" using w assms(2) unfolding written_def by blast
  then have "may A allowed (va + i)" using w unfolding written_def by blast
  then show ?thesis using i(2) phys_in_frame [of A "va + i"] by (auto simp: may_def split: option.splits) blast
qed

definition demo_machine :: "frames option machine" where
  \<comment> \<open>eight free frames and memory full of junk\<close>
  "demo_machine = \<lparr>mc_mem = \<lambda>_. 0xA5, mc_src = Some (frames_new 0x100000 0x108000)\<rparr>"

lemma demo_run: "\<exists>sp mc. space_run (replicate 512 0) sp mc \<and> owns sp mc Map.empty"
proof -
  have inv: "page_frames_inv (mc_src demo_machine)"
    using frames_new_inv [of "0x100000" "0x108000"] by (simp add: demo_machine_def page_frames_inv_def)
  obtain r mc where r: "space_new page_frames_allocate page_frames_free (replicate 512 0) demo_machine = Some (r, mc)"
    "case r of None \<Rightarrow> True | Some sp \<Rightarrow> owns sp mc Map.empty"
    using page_frames.space_new_ok [OF inv, of "replicate 512 0"] by (auto split: option.splits)
  have "r \<noteq> None"
  proof
    assume "r = None"
    have "(case page_frames_allocate (Some (frames_new 0x100000 0x108000)) of
        None \<Rightarrow> False | Some (_, s) \<Rightarrow> page_frames_allocate s \<noteq> None)" by code_simp
    then show False using r(1) \<open>r = None\<close>
      by (auto simp: space_new_def zeroed_frame_def demo_machine_def Let_def split: option.splits)
  qed
  then obtain sp where "r = Some sp" by blast
  then show ?thesis using r run_new [OF inv, of "replicate 512 0" sp mc] by (intro exI [of _ sp] exI [of _ mc]) simp
qed



text \<open>C1: Whatever sequence of operations an address space goes through, from its creation on and with the
  program and the rest of the kernel running in between, its tables in memory describe a map from pages to
  frames of its own; no page is both writable and executable, nor executable by the kernel; and dropping it
  gives back exactly its frames, each once, so that nothing leaks and nothing is freed twice.\<close>

theorem space_run_safe:
  assumes "space_run kernel_table sp mc" and "length kernel_table = 512"
  shows "\<exists>A. owns sp mc A \<and> space_pages sp = card (dom A)
     \<and> (\<forall>va. translate va sp (mc_mem mc) =
          map_option (\<lambda>(f, access). (f OR of_nat (va mod 4096), access)) (A (page_of va)))
     \<and> (\<forall>va d. descriptor va sp (mc_mem mc) = Some d \<longrightarrow> (bit d 7 \<or> bit d 54) \<and> bit d 53)
     \<and> distinct (space_frames sp)
     \<and> (\<exists>src. space_drop page_frames_free sp (mc_src mc) = Some src \<and> page_frames_inv src
          \<and> page_frames_live src = page_frames_live (mc_src mc) - set (space_frames sp))"
proof -
  obtain A where A: "owns sp mc A" using run_owned [OF assms] by blast
  then have ok: "space_ok sp (mc_mem mc) A" by (simp add: space_owned_def)
  have "dom A = fst ` set (sp_frames sp)"
    using space_okD(5) [OF ok] unfolding dom_map_of_conv_image_fst [symmetric] dom_def by auto
  then have "space_pages sp = card (dom A)"
    using space_okD(4) [OF ok] distinct_card [of "map fst (sp_frames sp)"] by (simp add: space_pages_def)
  moreover have "(bit d 7 \<or> bit d 54) \<and> bit d 53" if "descriptor va sp (mc_mem mc) = Some d" for va d
    using descriptor_abstract [OF ok that] permission_bits by blast
  ultimately show ?thesis
    using A translate_abstract [OF ok] page_frames.space_drop_ok [OF A] space_okD(1) [OF ok] by blast
qed

theorem space_run_safe_witness:
  "\<exists>sp mc. space_run (replicate 512 0) sp mc \<and> (\<exists>src. space_drop page_frames_free sp (mc_src mc) = Some src)"
proof -
  obtain sp mc where "space_run (replicate 512 0) sp mc" using demo_run by blast
  then show ?thesis using space_run_safe [of "replicate 512 0" sp mc] by auto
qed

text \<open>C11: Copying to a program's memory writes only to pages the program may write, in order, up to the first
  address it may not write, which is the address reported; no other byte of memory changes, so neither the
  page tables nor another program's memory; and when it succeeds, reading the same addresses back gives the
  same bytes.\<close>

theorem write_user_isolated:
  assumes "owns sp mc A" and "write_user va bytes sp (mc_mem mc) = (r, m')"
  shows "\<exists>stop. copied r A writable va (length bytes) stop \<and> written A writable va bytes (mc_mem mc) stop m'
     \<and> (\<forall>x. m' x \<noteq> mc_mem mc x \<longrightarrow> (\<exists>p f. A p = Some (f, ReadWrite) \<and> in_frame f x))
     \<and> (\<forall>v. translate v sp m' = translate v sp (mc_mem mc))
     \<and> (\<forall>buf. r = Ok () \<longrightarrow> length buf = length bytes \<longrightarrow> read_user va buf sp m' = (Ok (), bytes))"
proof -
  have ok: "space_ok sp (mc_mem mc) A" using assms(1) by (simp add: space_owned_def)
  obtain n where n: "copied r A writable va (length bytes) n" "written A writable va bytes (mc_mem mc) n m'"
    using write_pieces [OF ok, of va bytes writable] assms(2) by (auto simp: write_user_def)
  have "\<exists>p f. A p = Some (f, ReadWrite) \<and> in_frame f x" if "m' x \<noteq> mc_mem mc x" for x
    using written_own_pages [OF n(2) that] by (auto simp: writable_def)
  moreover have "translate v sp m' = translate v sp (mc_mem mc)" for v
    using translate_abstract [OF ok] translate_abstract [OF written_ok [OF ok n(2)]] by simp
  moreover have "read_user va buf sp m' = (Ok (), bytes)" if "r = Ok ()" "length buf = length bytes" for buf
    using read_written [OF ok _ that(2)] n that(1) by (auto simp: copied_def split: if_splits)
  ultimately show ?thesis using n by blast
qed

theorem write_user_isolated_witness:
  "\<exists>sp mc r m'. owns sp mc Map.empty \<and> write_user USER_BASE [1, 2] sp (mc_mem mc) = (r, m') \<and> r = Err USER_BASE"
proof -
  obtain sp mc where o: "owns sp mc Map.empty" using demo_run by blast
  obtain r m' where w: "write_user USER_BASE [1, 2] sp (mc_mem mc) = (r, m')" by fastforce
  obtain n where "copied r Map.empty writable USER_BASE (length [1, 2 :: byte]) n" using write_user_isolated [OF o w] by blast
  then have "r = Err USER_BASE" by (cases n) (auto simp: copied_def may_def USER_BASE_def split: if_splits)
  then show ?thesis using o w by blast
qed

end
