(* ===== verification/Elf.thy ===== *)
theory Elf
  imports Paging Text
begin

text \<open>
  The program loader, \<open>rustypi-core/src/elf.rs\<close>: an ELF64 file is validated in full before a page is
  mapped, then its segments are mapped and filled. Fields are read at their width; an offset near the
  end of the address range wraps in \<open>at + n\<close>, as in the release build \<open>build.sh\<close> makes, and is refused by
  \<open>get\<close>. Loading is \<open>map_range\<close> and \<open>load\<close> of \<open>Paging\<close>, so that what a program finds in its memory when
  it starts is a theorem about page tables in physical memory.
\<close>

subsection \<open>Parsing\<close>

datatype elf_error = Truncated | NotElf | WrongArchitecture | NotExecutable | NoSegments | Unaligned
  | OutsideProgramArea | BadSize | WritableAndExecutable | Overlapping | BadEntry

definition elf_description :: "elf_error \<Rightarrow> rstr" where
  "elf_description e = ascii (case e of
       Truncated \<Rightarrow> ''file is truncated''
     | NotElf \<Rightarrow> ''not an ELF file''
     | WrongArchitecture \<Rightarrow> ''not a 64-bit little-endian AArch64 program''
     | NotExecutable \<Rightarrow> ''not a statically linked executable''
     | NoSegments \<Rightarrow> ''nothing to load''
     | Unaligned \<Rightarrow> ''segment not page aligned''
     | OutsideProgramArea \<Rightarrow> ''segment outside the program area''
     | BadSize \<Rightarrow> ''segment bigger in the file than in memory''
     | WritableAndExecutable \<Rightarrow> ''segment both writable and executable''
     | Overlapping \<Rightarrow> ''segments overlap''
     | BadEntry \<Rightarrow> ''entry point not in executable code'')"

record segment =
  sg_address :: nat
  sg_size :: nat
  sg_data :: "byte list"
  sg_access :: access

record program =
  pg_entry :: nat
  pg_segments :: "segment list"

definition segment_end :: "segment \<Rightarrow> nat" where
  "segment_end s = sg_address s + sg_size s"

definition MAGIC :: "byte list" where "MAGIC = 0x7F # ascii ''ELF''"
definition CLASS_64 :: byte where "CLASS_64 = 2"
definition LITTLE_ENDIAN :: byte where "LITTLE_ENDIAN = 1"
definition TYPE_EXECUTABLE :: u16 where "TYPE_EXECUTABLE = 2"
definition MACHINE_AARCH64 :: u16 where "MACHINE_AARCH64 = 183"
definition HEADER_SIZE :: nat where "HEADER_SIZE = 64"
definition PROGRAM_HEADER_SIZE :: nat where "PROGRAM_HEADER_SIZE = 56"
definition PT_LOAD :: u32 where "PT_LOAD = 1"
definition PF_X :: u32 where "PF_X = 1"
definition PF_W :: u32 where "PF_W = 2"

definition elf_field :: "nat \<Rightarrow> byte list \<Rightarrow> nat \<Rightarrow> (byte list, elf_error) result" where
  "elf_field n bytes at = ok_or (get_range bytes at ((at + n) mod 2 ^ 64)) Truncated"

definition elf_u16 :: "byte list \<Rightarrow> nat \<Rightarrow> (u16, elf_error) result" where
  "elf_u16 bytes at = result_bind (elf_field 2 bytes at) (\<lambda>f. Ok (from_le f))"

definition elf_u32 :: "byte list \<Rightarrow> nat \<Rightarrow> (u32, elf_error) result" where
  "elf_u32 bytes at = result_bind (elf_field 4 bytes at) (\<lambda>f. Ok (from_le f))"

definition elf_u64 :: "byte list \<Rightarrow> nat \<Rightarrow> (nat, elf_error) result" where
  "elf_u64 bytes at = result_bind (elf_field 8 bytes at) (\<lambda>f. Ok (unat (from_le f :: u64)))"

definition segment_access :: "u32 \<Rightarrow> (access, elf_error) result" where
  "segment_access flags =
     (if flags AND PF_W \<noteq> 0 then if flags AND PF_X \<noteq> 0 then Err WritableAndExecutable else Ok ReadWrite
      else if flags AND PF_X \<noteq> 0 then Ok ReadExecute else Ok ReadOnly)"

definition check_segment :: "byte list \<Rightarrow> u32 \<Rightarrow> nat \<Rightarrow> nat \<Rightarrow> nat \<Rightarrow> nat \<Rightarrow> (segment option, elf_error) result" where
  "check_segment bytes flags offset address file_size mem_size =
     (if address mod PAGE_SIZE \<noteq> 0 then Err Unaligned
      else if address + mem_size \<ge> 2 ^ 64 then Err OutsideProgramArea
      else if address < USER_BASE \<or> address + mem_size > PROGRAM_END then Err OutsideProgramArea
      else if file_size > mem_size then Err BadSize
      else result_bind
        (ok_or (if offset + file_size \<ge> 2 ^ 64 then None else get_range bytes offset (offset + file_size)) Truncated)
        (\<lambda>data. result_bind (segment_access flags) (\<lambda>access.
           Ok (if mem_size > 0
               then Some \<lparr>sg_address = address, sg_size = mem_size, sg_data = data, sg_access = access\<rparr> else None))))"

definition parse_header :: "byte list \<Rightarrow> nat \<Rightarrow> (segment option, elf_error) result" where
  \<comment> \<open>one turn of the loop; \<open>None\<close>: nothing is pushed\<close>
  "parse_header bytes header =
     result_bind (elf_u32 bytes header) (\<lambda>kind.
       if kind \<noteq> PT_LOAD then Ok None
       else result_bind (elf_u32 bytes (header + 4)) (\<lambda>flags.
            result_bind (elf_u64 bytes (header + 8)) (\<lambda>offset.
            result_bind (elf_u64 bytes (header + 16)) (\<lambda>address.
            result_bind (elf_u64 bytes (header + 32)) (\<lambda>file_size.
            result_bind (elf_u64 bytes (header + 40)) (\<lambda>mem_size.
              check_segment bytes flags offset address file_size mem_size))))))"

fun parse_headers :: "byte list \<Rightarrow> nat \<Rightarrow> nat \<Rightarrow> nat list \<Rightarrow> (segment list, elf_error) result" where
  "parse_headers bytes table entry_size [] = Ok []"
| "parse_headers bytes table entry_size (i # is) =
     (if table + i * entry_size \<ge> 2 ^ 64 then Err Truncated
      else result_bind (parse_header bytes (table + i * entry_size)) (\<lambda>s.
           result_bind (parse_headers bytes table entry_size is) (\<lambda>ss.
             Ok (case s of None \<Rightarrow> ss | Some s \<Rightarrow> s # ss))))"

definition next_page :: "nat \<Rightarrow> nat" where
  \<comment> \<open>\<open>next_multiple_of(PAGE_SIZE)\<close>\<close>
  "next_page x = (if x mod PAGE_SIZE = 0 then x else x + (PAGE_SIZE - x mod PAGE_SIZE))"

fun windows_ok :: "segment list \<Rightarrow> bool" where
  "windows_ok (a # b # ss) \<longleftrightarrow> \<not> next_page (segment_end a) > sg_address b \<and> windows_ok (b # ss)"
| "windows_ok _ \<longleftrightarrow> True"

definition runs_entry :: "nat \<Rightarrow> segment \<Rightarrow> bool" where
  "runs_entry entry s \<longleftrightarrow> sg_access s = ReadExecute \<and> sg_address s \<le> entry \<and> entry < segment_end s"

definition check_segments :: "nat \<Rightarrow> segment list \<Rightarrow> (program, elf_error) result" where
  "check_segments entry segments =
     (if segments = [] then Err NoSegments
      else let segments = sort_key sg_address segments
           in if \<not> windows_ok segments then Err Overlapping
              else if \<not> list_ex (runs_entry entry) segments then Err BadEntry
              else Ok \<lparr>pg_entry = entry, pg_segments = segments\<rparr>)"

definition elf_parse :: "byte list \<Rightarrow> (program, elf_error) result" where
  "elf_parse bytes =
     (if length bytes < HEADER_SIZE then Err (if take 4 bytes = MAGIC then Truncated else NotElf)
      else if take 4 bytes \<noteq> MAGIC then Err NotElf
      else if bytes ! 4 \<noteq> CLASS_64 \<or> bytes ! 5 \<noteq> LITTLE_ENDIAN then Err WrongArchitecture
      else result_bind (elf_u16 bytes 18) (\<lambda>machine.
        if machine \<noteq> MACHINE_AARCH64 then Err WrongArchitecture
        else result_bind (elf_u16 bytes 16) (\<lambda>kind.
          if kind \<noteq> TYPE_EXECUTABLE then Err NotExecutable
          else result_bind (elf_u64 bytes 24) (\<lambda>entry.
               result_bind (elf_u64 bytes 32) (\<lambda>table.
               result_bind (elf_u16 bytes 54) (\<lambda>entry_size.
               result_bind (elf_u16 bytes 56) (\<lambda>count.
                 if unat count > 0 \<and> unat entry_size < PROGRAM_HEADER_SIZE then Err Truncated
                 else result_bind (parse_headers bytes table (unat entry_size) [0..<unat count]) (check_segments entry))))))))"

subsection \<open>Loading\<close>

datatype load_error = LoadMap map_error | LoadAccess nat

fun load_segments ::
  "('s \<Rightarrow> (u64 \<times> 's) option) \<Rightarrow> segment list \<Rightarrow> space \<times> 's machine \<Rightarrow> (unit, load_error) result \<times> space \<times> 's machine" where
  "load_segments allocate [] st = (Ok (), st)"
| "load_segments allocate (s # ss) st =
     (case map_range allocate (sg_address s) (sg_size s) (sg_access s) st of
        (Err e, st1) \<Rightarrow> (Err (LoadMap e), st1)
      | (Ok _, sp1, mc1) \<Rightarrow>
          (case space_load (sg_address s) (sg_data s) sp1 (mc_mem mc1) of
             (Err a, m) \<Rightarrow> (Err (LoadAccess a), sp1, mc1\<lparr>mc_mem := m\<rparr>)
           | (Ok _, m) \<Rightarrow> load_segments allocate ss (sp1, mc1\<lparr>mc_mem := m\<rparr>)))"

definition program_load ::
  "('s \<Rightarrow> (u64 \<times> 's) option) \<Rightarrow> program \<Rightarrow> space \<times> 's machine \<Rightarrow> (unit, load_error) result \<times> space \<times> 's machine" where
  "program_load allocate p st = load_segments allocate (pg_segments p) st"

subsection \<open>What is accepted\<close>

definition segment_ok :: "segment \<Rightarrow> bool" where
  "segment_ok s \<longleftrightarrow> sg_address s mod PAGE_SIZE = 0 \<and> USER_BASE \<le> sg_address s \<and> segment_end s \<le> PROGRAM_END
     \<and> 0 < sg_size s \<and> length (sg_data s) \<le> sg_size s"

definition pages_apart :: "segment \<Rightarrow> segment \<Rightarrow> bool" where
  "pages_apart a b \<longleftrightarrow> next_page (segment_end a) \<le> sg_address b"

lemma next_page_ge: "x \<le> next_page x" "next_page x mod PAGE_SIZE = 0"
proof -
  show "x \<le> next_page x" by (simp add: next_page_def)
  have "(x + (PAGE_SIZE - x mod PAGE_SIZE)) mod PAGE_SIZE = 0"
  proof -
    define c q where "c = x mod PAGE_SIZE" and "q = x div PAGE_SIZE"
    have "c < PAGE_SIZE" "x = q * PAGE_SIZE + c" unfolding c_def q_def by (simp_all only: div_mult_mod_eq) (simp add: PAGE_SIZE_def)
    then have "x + (PAGE_SIZE - c) = (q + 1) * PAGE_SIZE" by simp
    then show ?thesis unfolding c_def by (simp only: mod_mult_self2_is_0)
  qed
  then show "next_page x mod PAGE_SIZE = 0" by (simp add: next_page_def)
qed

lemma windows_apart:
  "windows_ok ss \<Longrightarrow> (\<And>s. s \<in> set ss \<Longrightarrow> segment_ok s) \<Longrightarrow> sorted_wrt pages_apart ss"
proof (induction ss rule: windows_ok.induct)
  case (1 a b ss)
  have tail: "sorted_wrt pages_apart (b # ss)" using 1 by simp
  have ab: "pages_apart a b" using "1.prems"(1) by (simp add: pages_apart_def)
  have "pages_apart a c" if "c \<in> set ss" for c
  proof -
    have "pages_apart b c" using tail that by simp
    then show ?thesis using ab next_page_ge(1) [of "segment_end b"] by (simp add: pages_apart_def segment_end_def)
  qed
  then show ?case using tail ab by simp
qed simp_all

lemma check_segment_ok:
  assumes "check_segment bytes flags offset address file_size mem_size = Ok (Some s)"
  shows "segment_ok s \<and> sg_data s = slice offset (offset + length (sg_data s)) bytes
    \<and> (flags AND PF_W \<noteq> 0 \<longleftrightarrow> sg_access s = ReadWrite) \<and> (flags AND PF_X \<noteq> 0 \<longleftrightarrow> sg_access s = ReadExecute)"
  using assms
  by (auto simp: check_segment_def segment_ok_def segment_end_def segment_access_def get_range_Some length_slice split: if_splits)

lemma parse_headers_set:
  "parse_headers bytes table es is = Ok ss \<Longrightarrow> s \<in> set ss \<Longrightarrow> \<exists>i \<in> set is. parse_header bytes (table + i * es) = Ok (Some s)"
proof (induction "is" arbitrary: ss)
  case (Cons i "is")
  then show ?case by (auto split: if_splits option.splits)
qed simp

lemma parse_header_ok:
  assumes "parse_header bytes h = Ok (Some s)"
  shows "segment_ok s \<and> (\<exists>off. sg_data s = slice off (off + length (sg_data s)) bytes)"
  using assms check_segment_ok by (fastforce simp: parse_header_def split: if_splits)

lemma check_segments_Nil [simp]: "check_segments entry [] = Err NoSegments"
  by (simp add: check_segments_def)

lemma check_segments_ok:
  assumes "check_segments entry ss = Ok p" and ok: "\<And>s. s \<in> set ss \<Longrightarrow> segment_ok s"
  shows "set (pg_segments p) = set ss" "sorted_wrt pages_apart (pg_segments p)" "pg_entry p = entry"
    "\<exists>s \<in> set (pg_segments p). runs_entry entry s"
proof -
  have p: "p = \<lparr>pg_entry = entry, pg_segments = sort_key sg_address ss\<rparr>" "windows_ok (sort_key sg_address ss)"
    "list_ex (runs_entry entry) (sort_key sg_address ss)"
    using assms(1) by (auto simp: check_segments_def Let_def split: if_splits)
  show "set (pg_segments p) = set ss" "pg_entry p = entry" by (simp_all add: p(1))
  show "sorted_wrt pages_apart (pg_segments p)" using windows_apart [OF p(2)] ok by (simp add: p(1))
  show "\<exists>s \<in> set (pg_segments p). runs_entry entry s" using p(3) by (simp add: p(1) list_ex_iff)
qed

lemma elf_parse_ok:
  assumes "elf_parse bytes = Ok p"
  shows "\<forall>s \<in> set (pg_segments p). segment_ok s \<and> (\<exists>off. sg_data s = slice off (off + length (sg_data s)) bytes)"
    "sorted_wrt pages_apart (pg_segments p)" "\<exists>s \<in> set (pg_segments p). runs_entry (pg_entry p) s"
proof -
  obtain entry table es hs ss where h: "parse_headers bytes table es hs = Ok ss" "check_segments entry ss = Ok p"
    using assms by (auto simp: elf_parse_def split: if_splits)
  have seg: "segment_ok s \<and> (\<exists>off. sg_data s = slice off (off + length (sg_data s)) bytes)" if "s \<in> set ss" for s
    using parse_headers_set [OF h(1) that] parse_header_ok by blast
  note c = check_segments_ok [OF h(2)]
  show "\<forall>s \<in> set (pg_segments p). segment_ok s \<and> (\<exists>off. sg_data s = slice off (off + length (sg_data s)) bytes)"
    using c(1) seg by blast
  show "sorted_wrt pages_apart (pg_segments p)" "\<exists>s \<in> set (pg_segments p). runs_entry (pg_entry p) s"
    using c(2-4) seg by blast+
qed

subsection \<open>Loading into an address space\<close>

definition segment_pages :: "segment \<Rightarrow> nat set" where
  "segment_pages s = {p. p mod 4096 = 0 \<and> sg_address s \<le> p \<and> p < segment_end s}"

lemma page_list:
  assumes "start mod 4096 = 0"
  shows "set (map (\<lambda>i. start + i * 4096) [0..<(len + 4095) div 4096]) = {p. p mod 4096 = 0 \<and> start \<le> p \<and> p < start + len}"
    "distinct (map (\<lambda>i. start + i * 4096) [0..<(len + 4095) div 4096])"
proof -
  obtain k where k: "start = 4096 * k" using assms by (metis mult_div_mod_eq add_0_right)
  define n where "n = (len + 4095) div 4096"
  have n: "i < n \<longleftrightarrow> i * 4096 < len" for i
    unfolding n_def Suc_le_eq [symmetric] by (subst less_eq_div_iff_mult_less_eq) auto
  have "p \<in> (\<lambda>i. start + i * 4096) ` {0..<n} \<longleftrightarrow> p mod 4096 = 0 \<and> start \<le> p \<and> p < start + len" for p
  proof
    assume "p \<in> (\<lambda>i. start + i * 4096) ` {0..<n}"
    then obtain i where "p = start + i * 4096" "i < n" by auto
    then show "p mod 4096 = 0 \<and> start \<le> p \<and> p < start + len" using n k by (simp add: mod_mult_self1)
  next
    assume p: "p mod 4096 = 0 \<and> start \<le> p \<and> p < start + len"
    then obtain j where j: "p = 4096 * j" by (metis mult_div_mod_eq add_0_right)
    then have "p = start + (j - k) * 4096" "(j - k) * 4096 < len" using p k by (auto simp: diff_mult_distrib)
    then show "p \<in> (\<lambda>i. start + i * 4096) ` {0..<n}" using n by auto
  qed
  then show "set (map (\<lambda>i. start + i * 4096) [0..<(len + 4095) div 4096]) = {p. p mod 4096 = 0 \<and> start \<le> p \<and> p < start + len}"
    unfolding n_def by auto
  show "distinct (map (\<lambda>i. start + i * 4096) [0..<(len + 4095) div 4096])" by (simp add: distinct_map inj_on_def)
qed

context frame_source
begin

lemma map_each_fresh:
  assumes "space_owned inv live st A" and "map_each allocate vas access st = (r, st')" and "distinct vas"
    and "\<And>va. va \<in> set vas \<Longrightarrow> va mod PAGE_SIZE = 0 \<and> USER_BASE \<le> va \<and> va < USER_END \<and> A va = None"
  shows "r = Ok () \<or> r = Err OutOfMemory \<and> allocate (mc_src (snd st')) = None"
  using assms
proof (induction vas arbitrary: st A)
  case (Cons va vas)
  obtain q sp1 mc1 where s: "space_map allocate va access (fst st, snd st) = (q, sp1, mc1)" by (metis prod_cases3)
  have own: "space_owned inv live (fst st, snd st) A" using Cons.prems(1) by simp
  obtain A1 where A1: "space_owned inv live (sp1, mc1) A1" "map_outcome (allocate (mc_src mc1) = None) va access A A1 q"
    using space_map_cases [OF own s] by blast
  have va: "va mod PAGE_SIZE = 0" "USER_BASE \<le> va \<and> va < USER_END" "A va = None" using Cons.prems(4) [of va] by auto
  show ?case
  proof (cases q)
    case (Err e)
    then have "e = OutOfMemory" "allocate (mc_src mc1) = None" using A1(2) va by (cases e; simp add: map_outcome_def)+
    then show ?thesis using Cons.prems(2) s Err by auto
  next
    case (Ok u)
    then obtain f where f: "A1 = A(va \<mapsto> (f, access))" using A1(2) by (auto simp: map_outcome_def)
    have "map_each allocate vas access (sp1, mc1) = (r, st')" using Cons.prems(2) s Ok by simp
    moreover have "va' mod PAGE_SIZE = 0 \<and> USER_BASE \<le> va' \<and> va' < USER_END \<and> A1 va' = None" if "va' \<in> set vas" for va'
      using Cons.prems(3) Cons.prems(4) [of va'] that f by auto
    ultimately show ?thesis using Cons.IH [OF A1(1)] Cons.prems(3) by simp
  qed
qed simp

end

lemma copy_out_nth: "c < n \<Longrightarrow> copy_out m a n ! c = m (a + c)"
  by (simp add: copy_out_def)

lemma zero_page_byte:
  assumes "zero_page m f" and "c < 4096"
  shows "m (unat f + c) = 0"
  using copy_out_nth [OF assms(2), of m "unat f"] assms nth_replicate [OF assms(2)] unfolding zero_page_def by metis

definition loaded :: "(nat \<rightharpoonup> u64 \<times> access) \<Rightarrow> memory \<Rightarrow> segment \<Rightarrow> bool" where
  \<comment> \<open>the segment is in memory: its data, then zeros, with its permission\<close>
  "loaded A m s \<longleftrightarrow> (\<forall>i < sg_size s. (\<exists>f. A (page_of (sg_address s + i)) = Some (f, sg_access s))
     \<and> m (phys A (sg_address s + i)) = (if i < length (sg_data s) then sg_data s ! i else 0))"

lemma segment_page:
  assumes "sg_address s mod 4096 = 0" and "sg_address s \<le> va" "va < segment_end s"
  shows "page_of va \<in> segment_pages s"
proof -
  obtain k where k: "sg_address s = 4096 * k" using assms(1) by (metis mult_div_mod_eq add_0_right)
  have "page_of va = 4096 * (va div 4096)" by (simp add: page_of_def minus_mod_eq_mult_div)
  moreover have "k \<le> va div 4096" using assms(2) by (simp add: k less_eq_div_iff_mult_less_eq)
  ultimately have "sg_address s \<le> page_of va" by (simp add: k)
  then show ?thesis using assms(3) page_of_page(1,3) [of va] by (simp add: segment_pages_def)
qed

lemma pages_apart_disjoint:
  assumes "pages_apart a b"
  shows "segment_pages a \<inter> segment_pages b = {}"
  using assms next_page_ge(1) [of "segment_end a"] by (auto simp: segment_pages_def pages_apart_def)

text \<open>Mapping and filling one segment leaves the segments before it alone.\<close>

lemma loaded_grown:
  assumes ok: "space_ok sp m A" and own: "set (space_frames sp) \<subseteq> live (mc_src mc)" and g: "grown live (sp, mc) A (sp', mc') A'"
    and l: "loaded A (mc_mem mc) s" and m: "m = mc_mem mc"
  shows "loaded A' (mc_mem mc') s"
  unfolding loaded_def
proof (intro allI impI)
  fix i assume i: "i < sg_size s"
  let ?va = "sg_address s + i"
  obtain f where f: "A (page_of ?va) = Some (f, sg_access s)" and b: "mc_mem mc (phys A ?va) = (if i < length (sg_data s) then sg_data s ! i else 0)"
    using l i unfolding loaded_def by blast
  have f': "A' (page_of ?va) = Some (f, sg_access s)" using grownD(1) [OF g] f unfolding map_le_def by (metis domI)
  have "agree (mc_mem mc) (mc_mem mc') f"
    using grownD(6) [OF g, of f] page_frame [OF ok f] page_not_table [OF ok f] own by auto
  moreover have "in_frame f (phys A ?va)" using phys_in_frame [of A ?va f "sg_access s"] f by simp
  moreover have "phys A' ?va = phys A ?va" by (simp add: phys_def f f')
  ultimately show "(\<exists>f. A' (page_of ?va) = Some (f, sg_access s))
     \<and> mc_mem mc' (phys A' ?va) = (if i < length (sg_data s) then sg_data s ! i else 0)"
    using b f' by (simp add: agree_def)
qed

lemma loaded_written:
  assumes ok: "space_ok sp m A" and w: "written A (\<lambda>_. True) va bytes m n m'" and l: "loaded A m s"
    and apart: "\<And>i j. i < sg_size s \<Longrightarrow> j < n \<Longrightarrow> sg_address s + i \<noteq> va + j"
  shows "loaded A m' s"
  unfolding loaded_def
proof (intro allI impI)
  fix i assume i: "i < sg_size s"
  let ?va = "sg_address s + i"
  obtain f where f: "A (page_of ?va) = Some (f, sg_access s)" and b: "m (phys A ?va) = (if i < length (sg_data s) then sg_data s ! i else 0)"
    using l i unfolding loaded_def by blast
  have "phys A ?va \<noteq> phys A (va + j)" if "j < n" for j
  proof
    assume eq: "phys A ?va = phys A (va + j)"
    have "A (page_of (va + j)) \<noteq> None" using w that may_mapped unfolding written_def by blast
    then show False using phys_inj [OF ok _ _ eq] f apart [OF i that] by simp
  qed
  then have "m' (phys A ?va) = m (phys A ?va)" using w unfolding written_def by blast
  then show "(\<exists>f. A (page_of ?va) = Some (f, sg_access s)) \<and> m' (phys A ?va) = (if i < length (sg_data s) then sg_data s ! i else 0)"
    using f b by simp
qed

context frame_source
begin

lemma map_segment:
  assumes own: "space_owned inv live (sp, mc) A" and seg: "segment_ok s" and fresh: "segment_pages s \<inter> dom A = {}"
    and run: "map_range allocate (sg_address s) (sg_size s) (sg_access s) (sp, mc) = (q, sp1, mc1)"
  obtains A1 where "space_owned inv live (sp1, mc1) A1" "grown live (sp, mc) A (sp1, mc1) A1"
    "q = Err OutOfMemory \<and> allocate (mc_src mc1) = None \<or>
     q = Ok () \<and> dom A1 = dom A \<union> segment_pages s \<and> (\<forall>p \<in> segment_pages s. \<exists>f. A1 p = Some (f, sg_access s))"
proof -
  let ?vas = "map (\<lambda>i. sg_address s + i * 4096) [0..<(sg_size s + 4095) div 4096]"
  have s: "sg_address s mod 4096 = 0" "USER_BASE \<le> sg_address s" "segment_end s \<le> PROGRAM_END"
    using seg by (simp_all add: segment_ok_def PAGE_SIZE_def)
  have top: "PROGRAM_END \<le> USER_END" "USER_END < 2 ^ 64"
    by (simp_all add: PROGRAM_END_def STACK_TOP_def USER_END_def)
  then have small: "\<not> sg_address s + sg_size s \<ge> 2 ^ 64" using s(3) by (simp add: segment_end_def)
  have pages: "set ?vas = segment_pages s" unfolding segment_pages_def segment_end_def by (rule page_list(1) [OF s(1)])
  have m: "map_each allocate ?vas (sg_access s) (sp, mc) = (q, sp1, mc1)"
    using run unfolding map_range_def if_not_P [OF small] by (simp add: PAGE_SIZE_def)
  have ok: "va mod PAGE_SIZE = 0 \<and> USER_BASE \<le> va \<and> va < USER_END \<and> A va = None" if "va \<in> set ?vas" for va
  proof -
    have "va \<in> segment_pages s" using that pages by blast
    moreover from this have "A va = None" using fresh by blast
    ultimately show ?thesis using s(2,3) top(1) by (simp add: segment_pages_def PAGE_SIZE_def)
  qed
  obtain A1 where A1: "space_owned inv live (sp1, mc1) A1" "grown live (sp, mc) A (sp1, mc1) A1"
    "q = Ok () \<longrightarrow> dom A1 = dom A \<union> set ?vas \<and> (\<forall>va \<in> set ?vas. \<exists>f. A1 va = Some (f, sg_access s))"
    using map_each_grown [OF own m] by blast
  have "q = Ok () \<or> q = Err OutOfMemory \<and> allocate (mc_src mc1) = None"
    using map_each_fresh [OF own m page_list(2) [OF s(1)]] ok by simp
  then show ?thesis using that [OF A1(1,2)] A1(3) unfolding pages by blast
qed

lemma fill_segment:
  assumes own: "space_owned inv live (sp, mc) A" and own1: "space_owned inv live (sp1, mc1) A1"
    and g: "grown live (sp, mc) A (sp1, mc1) A1" and seg: "segment_ok s" and fresh: "segment_pages s \<inter> dom A = {}"
    and all: "\<forall>p \<in> segment_pages s. \<exists>f. A1 p = Some (f, sg_access s)"
  obtains m where "space_load (sg_address s) (sg_data s) sp1 (mc_mem mc1) = (Ok (), m)"
    "written A1 (\<lambda>_. True) (sg_address s) (sg_data s) (mc_mem mc1) (length (sg_data s)) m" "loaded A1 m s"
proof -
  have ok: "space_ok sp1 (mc_mem mc1) A1" using own1 by (simp add: space_owned_def)
  have s: "sg_address s mod 4096 = 0" "length (sg_data s) \<le> sg_size s" using seg by (simp_all add: segment_ok_def PAGE_SIZE_def)
  have page: "page_of (sg_address s + i) \<in> segment_pages s" if "i < sg_size s" for i
    using segment_page [OF s(1), of "sg_address s + i"] that by (simp add: segment_end_def)
  then have mapped: "\<exists>f. A1 (page_of (sg_address s + i)) = Some (f, sg_access s)" if "i < sg_size s" for i using all that by blast
  then have may: "may A1 (\<lambda>_. True) (sg_address s + i)" if "i < sg_size s" for i using that by (fastforce simp: may_def)
  obtain n r m where w: "for_each_piece sp1 (sg_address s) (length (sg_data s)) (\<lambda>_. True)
       (\<lambda>physical offset len (m, b). (copy_in physical (take len (drop offset (sg_data s))) m, b)) 0 (mc_mem mc1, []) = (r, m, [])"
     "copied r A1 (\<lambda>_. True) (sg_address s) (length (sg_data s)) n" "written A1 (\<lambda>_. True) (sg_address s) (sg_data s) (mc_mem mc1) n m"
    using write_pieces [OF ok] by blast
  have n: "n = length (sg_data s)" "r = Ok ()" using w(2) may s(2) unfolding copied_def by (metis le_neq_implies_less less_le_trans)+
  have "loaded A1 m s"
    unfolding loaded_def
  proof (intro allI impI conjI)
    fix i assume i: "i < sg_size s"
    let ?va = "sg_address s + i"
    obtain f where f: "A1 (page_of ?va) = Some (f, sg_access s)" using mapped [OF i] by blast
    then show "\<exists>f. A1 (page_of ?va) = Some (f, sg_access s)" ..
    show "m (phys A1 ?va) = (if i < length (sg_data s) then sg_data s ! i else 0)"
    proof (cases "i < length (sg_data s)")
      case True
      then show ?thesis using w(3) n unfolding written_def by simp
    next
      case False
      have "phys A1 ?va \<noteq> phys A1 (sg_address s + j)" if "j < n" for j
        using phys_inj [OF ok may_mapped [OF may [OF i]] may_mapped [OF may [of j]]] that False n(1) s(2) by auto
      then have "m (phys A1 ?va) = mc_mem mc1 (phys A1 ?va)" using w(3) unfolding written_def by blast
      moreover have "A (page_of ?va) = None" using page [OF i] fresh by blast
      then have "zero_page (mc_mem mc1) f" using grownD(7) [OF g f] by simp
      then have "mc_mem mc1 (unat f + ?va mod 4096) = 0"
        by (rule zero_page_byte) simp
      ultimately show ?thesis using False f by (simp add: phys_def)
    qed
  qed
  then show ?thesis using that w(1,3) n by (simp add: space_load_def)
qed

lemma load_segments_ok:
  assumes "space_owned inv live (sp, mc) A" and "load_segments allocate ss (sp, mc) = (r, sp', mc')"
    and "\<And>s. s \<in> set ss \<Longrightarrow> segment_ok s \<and> segment_pages s \<inter> dom A = {}" and "sorted_wrt pages_apart ss"
    and "\<And>s. s \<in> set before \<Longrightarrow> loaded A (mc_mem mc) s \<and> segment_ok s"
  shows "\<exists>A'. space_owned inv live (sp', mc') A' \<and> (\<forall>f \<in> live (mc_src mc) - set (space_frames sp). agree (mc_mem mc) (mc_mem mc') f)
     \<and> (r = Ok () \<and> dom A' = dom A \<union> (\<Union>s \<in> set ss. segment_pages s) \<and> (\<forall>s \<in> set before \<union> set ss. loaded A' (mc_mem mc') s)
        \<or> r = Err (LoadMap OutOfMemory) \<and> allocate (mc_src mc') = None)"
  using assms
proof (induction ss arbitrary: sp mc A before)
  case Nil
  then show ?case by (intro exI [of _ A]) (auto simp: agree_def)
next
  case (Cons s ss)
  have seg: "segment_ok s" "segment_pages s \<inter> dom A = {}" using Cons.prems(3) by simp_all
  obtain q sp1 mc1 where m: "map_range allocate (sg_address s) (sg_size s) (sg_access s) (sp, mc) = (q, sp1, mc1)" by (metis prod_cases3)
  obtain A1 where A1: "space_owned inv live (sp1, mc1) A1" "grown live (sp, mc) A (sp1, mc1) A1"
    "q = Err OutOfMemory \<and> allocate (mc_src mc1) = None \<or>
     q = Ok () \<and> dom A1 = dom A \<union> segment_pages s \<and> (\<forall>p \<in> segment_pages s. \<exists>f. A1 p = Some (f, sg_access s))"
    using map_segment [OF Cons.prems(1) seg m] by blast
  have tabs: "set (space_tables sp) \<subseteq> set (space_frames sp)" by (rule frames_tables)
  have keep: "agree (mc_mem mc) (mc_mem mc1) f" if "f \<in> live (mc_src mc) - set (space_frames sp)" for f
    using grownD(6) [OF A1(2)] that tabs by auto
  have ok: "space_ok sp (mc_mem mc) A" "set (space_frames sp) \<subseteq> live (mc_src mc)" "space_ok sp1 (mc_mem mc1) A1"
    using Cons.prems(1) A1(1) by (simp_all add: space_owned_def)
  show ?case
  proof (cases "q = Ok ()")
    case False
    then have "r = Err (LoadMap OutOfMemory)" "sp' = sp1" "mc' = mc1" using A1(3) Cons.prems(2) m by auto
    then show ?thesis using A1 False keep by (intro exI [of _ A1]) auto
  next
    case True
    then have A1': "dom A1 = dom A \<union> segment_pages s" "\<forall>p \<in> segment_pages s. \<exists>f. A1 p = Some (f, sg_access s)" using A1(3) by auto
    obtain mm where l: "space_load (sg_address s) (sg_data s) sp1 (mc_mem mc1) = (Ok (), mm)"
      "written A1 (\<lambda>_. True) (sg_address s) (sg_data s) (mc_mem mc1) (length (sg_data s)) mm" "loaded A1 mm s"
      using fill_segment [OF Cons.prems(1) A1(1,2) seg A1'(2)] by blast
    let ?mc = "mc1\<lparr>mc_mem := mm\<rparr>"
    have run: "load_segments allocate ss (sp1, ?mc) = (r, sp', mc')" using Cons.prems(2) m True l(1) by simp
    have own: "space_owned inv live (sp1, ?mc) A1" using A1(1) written_ok [OF ok(3) l(2)] by (simp add: space_owned_def)
    have later: "segment_ok s' \<and> segment_pages s' \<inter> dom A1 = {}" if "s' \<in> set ss" for s'
      using Cons.prems(3) [of s'] Cons.prems(4) pages_apart_disjoint [of s s'] that A1'(1) by auto
    have before: "loaded A1 (mc_mem ?mc) s' \<and> segment_ok s'" if s': "s' \<in> set (s # before)" for s'
    proof (cases "s' = s")
      case True
      then show ?thesis using l(3) seg(1) by simp
    next
      case False
      then have old: "loaded A (mc_mem mc) s'" "segment_ok s'" using s' Cons.prems(5) by auto
      have "loaded A1 (mc_mem mc1) s'" using loaded_grown [OF ok(1,2) A1(2) old(1)] by simp
      moreover have "sg_address s' + i \<noteq> sg_address s + j" if "i < sg_size s'" "j < length (sg_data s)" for i j
      proof
        assume eq: "sg_address s' + i = sg_address s + j"
        have "page_of (sg_address s' + i) \<in> dom A" using old(1) that(1) unfolding loaded_def by blast
        moreover have "page_of (sg_address s + j) \<in> segment_pages s"
          using segment_page [of s "sg_address s + j"] seg(1) that(2) by (simp add: segment_ok_def segment_end_def PAGE_SIZE_def)
        ultimately show False using seg(2) eq by auto
      qed
      ultimately show ?thesis using loaded_written [OF ok(3) l(2)] old(2) by simp
    qed
    have "sorted_wrt pages_apart ss" using Cons.prems(4) by simp
    from Cons.IH [where before = "s # before", OF own run later this before] obtain A' where A': "space_owned inv live (sp', mc') A'"
      "\<forall>f \<in> live (mc_src mc1) - set (space_frames sp1). agree mm (mc_mem mc') f"
      "r = Ok () \<and> dom A' = dom A1 \<union> (\<Union>s \<in> set ss. segment_pages s) \<and> (\<forall>s' \<in> set (s # before) \<union> set ss. loaded A' (mc_mem mc') s')
        \<or> r = Err (LoadMap OutOfMemory) \<and> allocate (mc_src mc') = None" by auto
    have "agree (mc_mem mc) (mc_mem mc') f" if f: "f \<in> live (mc_src mc) - set (space_frames sp)" for f
    proof -
      have f1: "f \<in> live (mc_src mc1)" "f \<notin> set (space_frames sp1)" using f grownD(4) [OF A1(2)] grown_live [OF A1(2)] by auto
      have "is_frame f" using live_is_frame f1(1) A1(1) by (auto simp: space_owned_def)
      then have "mm x = mc_mem mc1 x" if "in_frame f x" for x
        using written_own_pages [OF l(2), of x] that page_frame [OF ok(3)] frames_disjoint f1(2) by metis
      then have "agree (mc_mem mc1) mm f" by (simp add: agree_def)
      then show ?thesis using agree_trans [OF keep [OF f]] agree_trans A'(2) f1 by blast
    qed
    then show ?thesis using A' A1'(1) by (intro exI [of _ A']) auto
  qed
qed

end

lemma loaded_reads:
  assumes ok: "space_ok sp m A" and l: "loaded A m s" and data: "length (sg_data s) \<le> sg_size s" and len: "length buf = sg_size s"
  shows "read_user (sg_address s) buf sp m = (Ok (), sg_data s @ replicate (sg_size s - length (sg_data s)) 0)"
proof -
  obtain n where n: "copied (fst (read_user (sg_address s) buf sp m)) A (\<lambda>_. True) (sg_address s) (sg_size s) n"
    "snd (read_user (sg_address s) buf sp m) = map (\<lambda>i. m (phys A (sg_address s + i))) [0..<n] @ drop n buf"
    using read_user_spec [OF ok, of "sg_address s" buf] len by auto
  have "may A (\<lambda>_. True) (sg_address s + i)" if "i < sg_size s" for i
    using l that unfolding loaded_def may_def by fastforce
  then have "n = sg_size s" "fst (read_user (sg_address s) buf sp m) = Ok ()"
    using n(1) unfolding copied_def by (metis le_neq_implies_less)+
  moreover have "map (\<lambda>i. m (phys A (sg_address s + i))) [0..<sg_size s] = sg_data s @ replicate (sg_size s - length (sg_data s)) 0"
    using l data unfolding loaded_def by (intro nth_equalityI) (auto simp: nth_append)
  ultimately show ?thesis using n(2) len by (simp add: prod_eq_iff)
qed

lemma loaded_translate:
  assumes ok: "space_ok sp m A" and l: "loaded A m s" and "sg_address s \<le> va" "va < segment_end s"
  shows "\<exists>physical. translate va sp m = Some (physical, sg_access s)"
proof -
  have "\<exists>f. A (page_of (sg_address s + (va - sg_address s))) = Some (f, sg_access s)"
    using l assms(3,4) unfolding loaded_def segment_end_def by (metis less_diff_conv2 add.commute)
  then show ?thesis using assms(3) translate_abstract [OF ok, of va] by auto
qed

lemma program_load_facts:
  assumes parse: "elf_parse bytes = Ok p" and own: "owns sp mc Map.empty"
    and run: "program_load page_frames_allocate p (sp, mc) = (r, sp', mc')"
  shows "\<forall>s \<in> set (pg_segments p). segment_ok s \<and> (\<exists>off. sg_data s = slice off (off + length (sg_data s)) bytes)"
    and "sorted_wrt pages_apart (pg_segments p)" and "\<exists>s \<in> set (pg_segments p). runs_entry (pg_entry p) s"
    and "r = Ok () \<or> r = Err (LoadMap OutOfMemory) \<and> page_frames_allocate (mc_src mc') = None"
    and "\<exists>A'. owns sp' mc' A'"
    and "\<forall>f \<in> page_frames_live (mc_src mc) - set (space_frames sp). agree (mc_mem mc) (mc_mem mc') f"
    and "r = Ok () \<Longrightarrow> s \<in> set (pg_segments p) \<Longrightarrow>
       read_user (sg_address s) (replicate (sg_size s) 0) sp' (mc_mem mc') =
         (Ok (), sg_data s @ replicate (sg_size s - length (sg_data s)) 0)
       \<and> (\<forall>va. sg_address s \<le> va \<and> va < segment_end s \<longrightarrow> (\<exists>physical. translate va sp' (mc_mem mc') = Some (physical, sg_access s)))"
    and "r = Ok () \<Longrightarrow> translate va sp' (mc_mem mc') \<noteq> None \<Longrightarrow> \<exists>s \<in> set (pg_segments p). page_of va \<in> segment_pages s"
proof -
  note e = elf_parse_ok [OF parse]
  show "\<forall>s \<in> set (pg_segments p). segment_ok s \<and> (\<exists>off. sg_data s = slice off (off + length (sg_data s)) bytes)"
    "sorted_wrt pages_apart (pg_segments p)" "\<exists>s \<in> set (pg_segments p). runs_entry (pg_entry p) s" by (fact e)+
  obtain A' where A': "owns sp' mc' A'" "\<forall>f \<in> page_frames_live (mc_src mc) - set (space_frames sp). agree (mc_mem mc) (mc_mem mc') f"
    "r = Ok () \<and> dom A' = (\<Union>s \<in> set (pg_segments p). segment_pages s) \<and> (\<forall>s \<in> set (pg_segments p). loaded A' (mc_mem mc') s)
     \<or> r = Err (LoadMap OutOfMemory) \<and> page_frames_allocate (mc_src mc') = None"
    using page_frames.load_segments_ok [OF own run [unfolded program_load_def] _ e(2), of "[]"] e(1) by auto
  then show "r = Ok () \<or> r = Err (LoadMap OutOfMemory) \<and> page_frames_allocate (mc_src mc') = None" "\<exists>A'. owns sp' mc' A'"
    "\<forall>f \<in> page_frames_live (mc_src mc) - set (space_frames sp). agree (mc_mem mc) (mc_mem mc') f" by blast+
  have ok: "space_ok sp' (mc_mem mc') A'" using A'(1) by (simp add: space_owned_def)
  { assume r: "r = Ok ()" and s: "s \<in> set (pg_segments p)"
    then have "loaded A' (mc_mem mc') s" "length (sg_data s) \<le> sg_size s" using A'(3) e(1) by (auto simp: segment_ok_def)
    then show "read_user (sg_address s) (replicate (sg_size s) 0) sp' (mc_mem mc') =
         (Ok (), sg_data s @ replicate (sg_size s - length (sg_data s)) 0)
       \<and> (\<forall>va. sg_address s \<le> va \<and> va < segment_end s \<longrightarrow> (\<exists>physical. translate va sp' (mc_mem mc') = Some (physical, sg_access s)))"
      using loaded_reads [OF ok] loaded_translate [OF ok] by simp }
  { assume r: "r = Ok ()" and "translate va sp' (mc_mem mc') \<noteq> None"
    then have "page_of va \<in> dom A'" using translate_abstract [OF ok, of va] by auto
    then show "\<exists>s \<in> set (pg_segments p). page_of va \<in> segment_pages s" using A'(3) r by auto }
qed

text \<open>C2: A program file that is accepted consists of pieces of the file for page-aligned segments inside the
  program area, no two of them sharing a page, with the entry point in executable memory. Loading it into an
  empty address space either runs out of frames or succeeds, with no other failure; then every segment reads as
  its data followed by zeros and has exactly its permission, nothing else is mapped, and no memory but the
  program's own was touched.\<close>

theorem program_loads:
  assumes parse: "elf_parse bytes = Ok p" and own: "owns sp mc Map.empty"
    and run: "program_load page_frames_allocate p (sp, mc) = (r, sp', mc')"
  shows "(\<forall>s \<in> set (pg_segments p). segment_ok s \<and> (\<exists>off. sg_data s = slice off (off + length (sg_data s)) bytes))
     \<and> sorted_wrt pages_apart (pg_segments p) \<and> (\<exists>s \<in> set (pg_segments p). runs_entry (pg_entry p) s)
     \<and> (r = Ok () \<or> r = Err (LoadMap OutOfMemory) \<and> page_frames_allocate (mc_src mc') = None) \<and> (\<exists>A'. owns sp' mc' A')
     \<and> (\<forall>f \<in> page_frames_live (mc_src mc) - set (space_frames sp). agree (mc_mem mc) (mc_mem mc') f)
     \<and> (r = Ok () \<longrightarrow> (\<forall>s \<in> set (pg_segments p).
           read_user (sg_address s) (replicate (sg_size s) 0) sp' (mc_mem mc') =
             (Ok (), sg_data s @ replicate (sg_size s - length (sg_data s)) 0)
           \<and> (\<forall>va. sg_address s \<le> va \<and> va < segment_end s \<longrightarrow>
                (\<exists>physical. translate va sp' (mc_mem mc') = Some (physical, sg_access s)))))
     \<and> (r = Ok () \<longrightarrow> (\<forall>va. translate va sp' (mc_mem mc') \<noteq> None \<longrightarrow> (\<exists>s \<in> set (pg_segments p). page_of va \<in> segment_pages s)))"
  using program_load_facts [OF assms] by blast

definition demo_elf :: "byte list" where
  \<comment> \<open>one executable page holding one instruction\<close>
  "demo_elf =
    [127, 69, 76, 70, 2, 1, 0, 0, 0, 0, 0, 0, 0, 0, 0, 0, 2, 0, 183, 0, 0, 0, 0, 0, 0, 0, 0, 128, 0, 0, 0, 0, 64,
     0, 0, 0, 0, 0, 0, 0, 0, 0, 0, 0, 0, 0, 0, 0, 0, 0, 0, 0, 0, 0, 56, 0, 1, 0, 0, 0, 0, 0, 0, 0, 1, 0, 0, 0, 1,
     0, 0, 0, 120, 0, 0, 0, 0, 0, 0, 0, 0, 0, 0, 128, 0, 0, 0, 0, 0, 0, 0, 0, 0, 0, 0, 0, 4, 0, 0, 0, 0, 0, 0, 0,
     4, 0, 0, 0, 0, 0, 0, 0, 0, 0, 0, 0, 0, 0, 0, 0, 1, 2, 3, 4]"

theorem program_loads_witness:
  "\<exists>p sp mc r sp' mc'. elf_parse demo_elf = Ok p \<and> owns sp mc Map.empty
     \<and> program_load page_frames_allocate p (sp, mc) = (r, sp', mc') \<and> (\<exists>s \<in> set (pg_segments p). runs_entry (pg_entry p) s)"
proof -
  have "elf_parse demo_elf = Ok \<lparr>pg_entry = 0x80000000, pg_segments =
      [\<lparr>sg_address = 0x80000000, sg_size = 4, sg_data = [1, 2, 3, 4], sg_access = ReadExecute\<rparr>]\<rparr>"
    by (simp add: demo_elf_def elf_parse_def HEADER_SIZE_def MAGIC_def ascii_def CLASS_64_def LITTLE_ENDIAN_def elf_u16_def elf_u64_def elf_u32_def
        elf_field_def get_range_def slice_def MACHINE_AARCH64_def TYPE_EXECUTABLE_def PROGRAM_HEADER_SIZE_def parse_header_def PT_LOAD_def
        check_segment_def USER_BASE_def PROGRAM_END_def STACK_TOP_def STACK_SIZE_def USER_END_def PAGE_SIZE_def segment_access_def PF_W_def PF_X_def
        check_segments_def runs_entry_def segment_end_def)
  then obtain p where p: "elf_parse demo_elf = Ok p" by blast
  obtain sp mc where o: "owns sp mc Map.empty" using demo_run by blast
  obtain r sp' mc' where r: "program_load page_frames_allocate p (sp, mc) = (r, sp', mc')" by (metis prod_cases3)
  show ?thesis using program_loads [OF p o r] p o r by blast
qed

end
