(* ===== verification/Unicode.thy ===== *)
theory Unicode
  imports Prelude
begin

text \<open>
  Characters where the code works on characters rather than bytes: a \<open>char\<close> is its code point, a \<open>String\<close> that is
  taken apart a character at a time the list of them. Here is what the sources use of \<open>core\<close> and \<open>alloc\<close>
  for such strings: UTF-8 lengths, control characters and white space, and UTF-16 both ways.
\<close>

type_synonym codepoint = nat
type_synonym ustr = "codepoint list"

subsection \<open>Definitions\<close>

definition ustr :: "string \<Rightarrow> ustr" where
  "ustr s = map of_char s"

definition is_scalar :: "codepoint \<Rightarrow> bool" where
  \<comment> \<open>what a \<open>char\<close> can be: any code point but a surrogate\<close>
  "is_scalar c \<longleftrightarrow> c < 0x110000 \<and> \<not> (0xD800 \<le> c \<and> c < 0xE000)"

definition len_utf8 :: "codepoint \<Rightarrow> nat" where
  "len_utf8 c = (if c < 0x80 then 1 else if c < 0x800 then 2 else if c < 0x10000 then 3 else 4)"

definition is_control :: "codepoint \<Rightarrow> bool" where
  \<comment> \<open>\<open>char::is_control\<close>: general category \<open>Cc\<close>\<close>
  "is_control c \<longleftrightarrow> c < 0x20 \<or> 0x7F \<le> c \<and> c < 0xA0"

definition is_whitespace :: "codepoint \<Rightarrow> bool" where
  \<comment> \<open>\<open>char::is_whitespace\<close>: property \<open>White_Space\<close>\<close>
  "is_whitespace c \<longleftrightarrow> 9 \<le> c \<and> c \<le> 13 \<or> c = 0x20 \<or> c = 0x85 \<or> c = 0xA0 \<or> c = 0x1680 \<or> 0x2000 \<le> c \<and> c \<le> 0x200A
     \<or> c \<in> {0x2028, 0x2029, 0x202F, 0x205F, 0x3000}"

definition trim_end :: "ustr \<Rightarrow> ustr" where
  "trim_end s = rev (dropWhile is_whitespace (rev s))"

definition trim_end_matches :: "codepoint \<Rightarrow> ustr \<Rightarrow> ustr" where
  "trim_end_matches d s = rev (dropWhile (\<lambda>c. c = d) (rev s))"

definition trim_start_matches :: "codepoint \<Rightarrow> ustr \<Rightarrow> ustr" where
  "trim_start_matches d s = dropWhile (\<lambda>c. c = d) s"

fun usplit :: "codepoint \<Rightarrow> ustr \<Rightarrow> ustr list" where
  \<comment> \<open>\<open>str::split\<close>\<close>
  "usplit d [] = [[]]"
| "usplit d (c # s) = (if c = d then [] # usplit d s else (c # hd (usplit d s)) # tl (usplit d s))"

fun usplit_once :: "codepoint \<Rightarrow> ustr \<Rightarrow> (ustr \<times> ustr) option" where
  \<comment> \<open>\<open>str::split_once\<close>\<close>
  "usplit_once d [] = None"
| "usplit_once d (c # s) = (if c = d then Some ([], s) else map_option (apfst (Cons c)) (usplit_once d s))"

definition ursplit_once :: "codepoint \<Rightarrow> ustr \<Rightarrow> (ustr \<times> ustr) option" where
  \<comment> \<open>\<open>str::rsplit_once\<close>\<close>
  "ursplit_once d s = map_option (\<lambda>(x, y). (rev y, rev x)) (usplit_once d (rev s))"

definition encode_utf16_char :: "codepoint \<Rightarrow> nat list" where
  "encode_utf16_char c =
     (if c < 0x10000 then [c] else [0xD800 + (c - 0x10000) div 0x400, 0xDC00 + (c - 0x10000) mod 0x400])"

definition encode_utf16 :: "ustr \<Rightarrow> nat list" where
  "encode_utf16 s = concat (map encode_utf16_char s)"

definition REPLACEMENT_CHARACTER :: codepoint where "REPLACEMENT_CHARACTER = 0xFFFD"

definition high_surrogate :: "nat \<Rightarrow> bool" where "high_surrogate u \<longleftrightarrow> 0xD800 \<le> u \<and> u < 0xDC00"
definition low_surrogate :: "nat \<Rightarrow> bool" where "low_surrogate u \<longleftrightarrow> 0xDC00 \<le> u \<and> u < 0xE000"

fun decode_utf16 :: "nat list \<Rightarrow> ustr" where
  \<comment> \<open>\<open>char::decode_utf16\<close>, an unpaired surrogate replaced\<close>
  "decode_utf16 [] = []"
| "decode_utf16 [u] = [if high_surrogate u \<or> low_surrogate u then REPLACEMENT_CHARACTER else u]"
| "decode_utf16 (u # v # us) =
     (if high_surrogate u then
        if low_surrogate v then (0x10000 + (u - 0xD800) * 0x400 + (v - 0xDC00)) # decode_utf16 us
        else REPLACEMENT_CHARACTER # decode_utf16 (v # us)
      else (if low_surrogate u then REPLACEMENT_CHARACTER else u) # decode_utf16 (v # us))"

subsection \<open>Lemmas\<close>

lemma surrogate_bound: "is_scalar c \<Longrightarrow> (c - 0x10000) div 0x400 < 0x400"
  unfolding is_scalar_def by (rule less_mult_imp_div_less) linarith

lemma encode_units:
  assumes "is_scalar c" and "u \<in> set (encode_utf16_char c)"
  shows "u < 0x10000"
proof (cases "c < 0x10000")
  case False
  then have "(c - 0x10000) div 0x400 < 0x400" using surrogate_bound [OF assms(1)] by simp
  moreover have "(c - 0x10000) mod 0x400 < 0x400" by simp
  ultimately show ?thesis using assms(2) False by (auto simp: encode_utf16_char_def)
qed (use assms(2) in \<open>auto simp: encode_utf16_char_def\<close>)

lemma decode_encode_char:
  assumes "is_scalar c"
  shows "decode_utf16 (encode_utf16_char c @ us) = c # decode_utf16 us"
proof (cases "c < 0x10000")
  case True
  then show ?thesis using assms
    by (cases us) (auto simp: encode_utf16_char_def high_surrogate_def low_surrogate_def is_scalar_def)
next
  case False
  define q r where "q = (c - 0x10000) div 0x400" and "r = (c - 0x10000) mod 0x400"
  have qr: "c = 0x10000 + q * 0x400 + r" "r < 0x400" using False by (simp_all add: q_def r_def)
  have "q < 0x400" unfolding q_def using surrogate_bound [OF assms] .
  moreover have "encode_utf16_char c = [0xD800 + q, 0xDC00 + r]" using False by (simp add: encode_utf16_char_def q_def r_def)
  ultimately show ?thesis using qr by (simp add: high_surrogate_def low_surrogate_def)
qed

lemma decode_encode_utf16: "\<forall>c \<in> set s. is_scalar c \<Longrightarrow> decode_utf16 (encode_utf16 s) = s"
  by (induction s) (simp_all add: encode_utf16_def decode_encode_char)

lemma encode_utf16_not_zero:
  assumes "\<forall>c \<in> set s. is_scalar c \<and> c \<noteq> 0 \<and> c \<noteq> 0xFFFF" and "u \<in> set (encode_utf16 s)"
  shows "u \<noteq> 0 \<and> u \<noteq> 0xFFFF \<and> u < 0x10000"
proof -
  obtain c where c: "c \<in> set s" "u \<in> set (encode_utf16_char c)" using assms(2) by (auto simp: encode_utf16_def)
  then have "u < 0x10000" using encode_units assms(1) by blast
  moreover have "u \<noteq> 0 \<and> u \<noteq> 0xFFFF"
  proof (cases "c < 0x10000")
    case False
    then have "(c - 0x10000) div 0x400 < 0x400" "(c - 0x10000) mod 0x400 < 0x400"
      using c(1) assms(1) surrogate_bound by auto
    then show ?thesis using c(2) False by (auto simp: encode_utf16_char_def)
  qed (use c assms(1) in \<open>auto simp: encode_utf16_char_def\<close>)
  ultimately show ?thesis by blast
qed

lemma usplit_not_Nil [simp]: "usplit d s \<noteq> []"
  by (cases s) auto

end
