(* ===== verification/Terminal.thy ===== *)
theory Terminal
  imports Unicode
begin

text \<open>
  What stands between a keyboard and screen and the shell: \<open>rustypi-core/src/keys.rs\<close> (dead keys and
  repeating keys), \<open>line.rs\<close> (the line editor) and \<open>console.rs\<close> (the text console). Characters are Unicode
  code points; a \<open>String\<close> that is edited a character at a time is the list of its characters, its \<open>len\<close> the sum
  of their UTF-8 lengths. What goes to a screen is the list of what was drawn, in order. Times are \<open>u64\<close>
  microseconds as \<open>nat\<close>. An index out of range is a panic, the value \<open>None\<close>.
\<close>

definition NL :: codepoint where "NL = 0x0A"
definition CR :: codepoint where "CR = 0x0D"
definition TAB :: codepoint where "TAB = 0x09"
definition BS :: codepoint where "BS = 0x08"

subsection \<open>Dead keys\<close>

definition compose :: "codepoint \<Rightarrow> codepoint \<Rightarrow> codepoint option" where
  "compose accent letter =
     (let tables =
        (if accent = 0xB4 then Some ([97, 101, 105, 111, 117, 121, 65, 69, 73, 79, 85, 89],
           [225, 233, 237, 243, 250, 253, 193, 201, 205, 211, 218, 221])
         else if accent = 0x60 then Some ([97, 101, 105, 111, 117, 65, 69, 73, 79, 85],
           [224, 232, 236, 242, 249, 192, 200, 204, 210, 217])
         else if accent = 0xA8 then Some ([97, 101, 105, 111, 117, 121, 65, 69, 73, 79, 85],
           [228, 235, 239, 246, 252, 255, 196, 203, 207, 214, 220])
         else if accent = 0x5E then Some ([97, 101, 105, 111, 117, 65, 69, 73, 79, 85],
           [226, 234, 238, 244, 251, 194, 202, 206, 212, 219])
         else if accent = 0x7E then Some ([97, 110, 111, 65, 78, 79], [227, 241, 245, 195, 209, 213])
         else None)
      in case tables of
           None \<Rightarrow> None
         | Some (plain, accented) \<Rightarrow>
             (case position (\<lambda>c. c = letter) plain of None \<Rightarrow> None | Some index \<Rightarrow> get_at accented index))"

type_synonym composer = "codepoint option"

definition composer_new :: composer where "composer_new = None"

definition composer_dead :: "codepoint \<Rightarrow> composer \<Rightarrow> codepoint list \<times> composer" where
  "composer_dead accent k =
     (case k of
        Some pending \<Rightarrow> if pending = accent then ([accent], None) else ([pending], Some accent)
      | None \<Rightarrow> ([], Some accent))"

definition composer_char :: "codepoint \<Rightarrow> composer \<Rightarrow> codepoint list \<times> composer" where
  "composer_char c k =
     (case k of
        None \<Rightarrow> ([c], None)
      | Some accent \<Rightarrow>
          ((case compose accent c of
              Some accented \<Rightarrow> [accented]
            | None \<Rightarrow> if c = BS then [] else if c = 0x20 then [accent] else [accent, c]), None))"

definition composer_reset :: "composer \<Rightarrow> composer" where
  "composer_reset k = None"

subsection \<open>Repeating keys\<close>

definition DELAY_US :: nat where "DELAY_US = 500000"
definition RATE_US :: nat where "RATE_US = 33000"

type_synonym repeater = "(u8 \<times> nat) option"

definition repeater_new :: repeater where "repeater_new = None"

definition repeater_pressed :: "u8 \<Rightarrow> nat \<Rightarrow> repeater \<Rightarrow> repeater" where
  "repeater_pressed key now_us r = Some (key, now_us + DELAY_US)"

definition repeater_stop :: "repeater \<Rightarrow> repeater" where
  "repeater_stop r = None"

definition repeater_due :: "u8 list \<Rightarrow> nat \<Rightarrow> repeater \<Rightarrow> u8 option \<times> repeater" where
  "repeater_due held now_us r =
     (case r of
        None \<Rightarrow> (None, r)
      | Some (key, next_us) \<Rightarrow>
          if key \<notin> set held then (None, None)
          else if now_us < next_us then (None, r)
          else (Some key, Some (key, if next_us + RATE_US > now_us then next_us + RATE_US else now_us + RATE_US)))"

subsection \<open>The line editor\<close>

record line_editor =
  le_line :: "codepoint list"
  le_max :: nat

definition line_new :: "nat \<Rightarrow> line_editor" where
  "line_new limit = \<lparr>le_line = [], le_max = limit\<rparr>"

definition line_len :: "codepoint list \<Rightarrow> nat" where
  "line_len s = sum_list (map len_utf8 s)"

definition ERASE :: "codepoint list" where
  \<comment> \<open>back over it, blank it, and back again\<close>
  "ERASE = [BS, 0x20, BS]"

definition line_feed :: "codepoint \<Rightarrow> line_editor \<Rightarrow> codepoint list option \<times> codepoint list list \<times> line_editor" where
  \<comment> \<open>the finished line, what is echoed, and the editor\<close>
  "line_feed c ed =
     (if c = NL then (Some (le_line ed), [[NL]], ed\<lparr>le_line := []\<rparr>)
      else if c = BS then
        if le_line ed \<noteq> [] then (None, [ERASE], ed\<lparr>le_line := butlast (le_line ed)\<rparr>) else (None, [], ed)
      else if is_control c then (None, [], ed)
      else if line_len (le_line ed) + len_utf8 c \<le> le_max ed
        then (None, [[c]], ed\<lparr>le_line := le_line ed @ [c]\<rparr>)
      else (None, [], ed))"

definition line_clear :: "line_editor \<Rightarrow> codepoint list list \<times> line_editor" where
  "line_clear ed = (replicate (length (le_line ed)) ERASE, ed\<lparr>le_line := []\<rparr>)"

definition line_line :: "line_editor \<Rightarrow> codepoint list" where
  "line_line ed = le_line ed"

subsection \<open>The console\<close>

definition TAB_WIDTH :: nat where "TAB_WIDTH = 8"

record console =
  co_cols :: nat
  co_rows :: nat
  co_cells :: "codepoint list"
  co_col :: nat
  co_row :: nat

type_synonym drawn = "(nat \<times> nat \<times> codepoint) list" \<comment> \<open>calls of \<open>Surface::draw_cell\<close>: column, row, character\<close>

definition console_new :: "nat \<Rightarrow> nat \<Rightarrow> console" where
  "console_new cols rows =
     (let cols = max cols 1; rows = max rows 1
      in \<lparr>co_cols = cols, co_rows = rows, co_cells = replicate (cols * rows) 0x20, co_col = 0, co_row = 0\<rparr>)"

definition console_cell :: "nat \<Rightarrow> nat \<Rightarrow> console \<Rightarrow> codepoint option" where
  "console_cell col row co = get_at (co_cells co) (row * co_cols co + col)"

fun redraw_cells :: "(nat \<times> nat) list \<Rightarrow> console \<Rightarrow> drawn option" where
  "redraw_cells [] co = Some []"
| "redraw_cells ((row, col) # cs) co =
     (case (console_cell col row co, redraw_cells cs co) of
        (Some c, Some ds) \<Rightarrow> Some ((col, row, c) # ds)
      | _ \<Rightarrow> None)"

definition console_redraw :: "console \<Rightarrow> drawn option" where
  "console_redraw co = redraw_cells (List.product [0..<co_rows co] [0..<co_cols co]) co"

definition console_newline :: "console \<Rightarrow> (drawn \<times> console) option" where
  "console_newline co =
     (let co = co\<lparr>co_col := 0\<rparr>
      in if co_row co + 1 < co_rows co then Some ([], co\<lparr>co_row := co_row co + 1\<rparr>)
         else if co_cols co > length (co_cells co) \<or> (co_rows co - 1) * co_cols co > length (co_cells co) then None
         else let cells = drop (co_cols co) (co_cells co) @ drop (length (co_cells co) - co_cols co) (co_cells co);
                  at = (co_rows co - 1) * co_cols co;
                  cells = take at cells @ replicate (length cells - at) 0x20;
                  co = co\<lparr>co_cells := cells\<rparr>
              in map_option (\<lambda>ds. (ds, co)) (console_redraw co))"

definition console_put :: "codepoint \<Rightarrow> console \<Rightarrow> (drawn \<times> console) option" where
  "console_put c co =
     (case (if co_col co = co_cols co then console_newline co else Some ([], co)) of
        None \<Rightarrow> None
      | Some (ds, co) \<Rightarrow>
          let i = co_row co * co_cols co + co_col co
          in if i < length (co_cells co)
             then Some (ds @ [(co_col co, co_row co, c)], co\<lparr>co_cells := (co_cells co)[i := c], co_col := co_col co + 1\<rparr>)
             else None)"

definition console_char :: "codepoint \<Rightarrow> console \<Rightarrow> (drawn \<times> console) option" where
  "console_char c co =
     (if c = NL then console_newline co
      else if c = CR then Some ([], co\<lparr>co_col := 0\<rparr>)
      else if c = BS then Some ([], co\<lparr>co_col := co_col co - 1\<rparr>)
      else if c = TAB then Some ([], co\<lparr>co_col := min ((co_col co div TAB_WIDTH + 1) * TAB_WIDTH) (co_cols co)\<rparr>)
      else if is_control c then Some ([], co)
      else console_put c co)"

fun console_write_str :: "codepoint list \<Rightarrow> console \<Rightarrow> (drawn \<times> console) option" where
  "console_write_str [] co = Some ([], co)"
| "console_write_str (c # cs) co =
     (case console_char c co of
        None \<Rightarrow> None
      | Some (ds, co') \<Rightarrow> map_option (\<lambda>(es, co''). (ds @ es, co'')) (console_write_str cs co'))"

definition console_clear :: "console \<Rightarrow> (drawn \<times> console) option" where
  "console_clear co =
     (let co = co\<lparr>co_cells := replicate (length (co_cells co)) 0x20, co_col := 0, co_row := 0\<rparr>
      in map_option (\<lambda>ds. (ds, co)) (console_redraw co))"

subsection \<open>Keys and lines\<close>

text \<open>A key repeats at most once per period, and at the latest one period after it was due.\<close>

lemma repeater_rate:
  assumes "repeater_due held now r = (Some key, r')"
  obtains at at' where "r = Some (key, at)" "key \<in> set held" "at \<le> now" "r' = Some (key, at')" "now < at'" "at' \<le> now + RATE_US"
    "at + RATE_US \<le> at'"
  using assms by (auto simp: repeater_due_def RATE_US_def split: option.splits if_splits)

lemma repeater_released: "key \<notin> set held \<Longrightarrow> repeater_due held now (Some (key, at)) = (None, None)"
  by (simp add: repeater_due_def)

text \<open>No keystroke is lost: an accented letter stands for its two keys, and an accent is taken back only by
  backspace, or typed alone with a space or by pressing it twice.\<close>

lemma composer_char_out:
  assumes "composer_char c k = (out, k')"
  shows "k' = None"
    and "out = (case k of None \<Rightarrow> [c]
       | Some accent \<Rightarrow> (case compose accent c of Some l \<Rightarrow> [l] | None \<Rightarrow> if c = BS then [] else if c = 0x20 then [accent] else [accent, c]))"
  using assms by (auto simp: composer_char_def split: option.splits)

lemma compose_letters: "compose accent c = Some l \<Longrightarrow> c \<noteq> BS \<and> c \<noteq> 0x20 \<and> \<not> is_control l"
  unfolding compose_def Let_def
  by (auto simp: BS_def is_control_def get_at_def split: if_splits option.splits)

definition replay :: "codepoint list \<Rightarrow> codepoint list \<Rightarrow> codepoint list" where
  \<comment> \<open>what an echoed string does to the line on the screen\<close>
  "replay shown s = (if s = ERASE then butlast shown else if s = [NL] then [] else shown @ s)"

definition line_ok :: "line_editor \<Rightarrow> bool" where
  "line_ok ed \<longleftrightarrow> line_len (le_line ed) \<le> le_max ed \<and> list_all (\<lambda>c. \<not> is_control c) (le_line ed)"

lemma butlast_snoc_len: "xs \<noteq> [] \<Longrightarrow> line_len (butlast xs) \<le> line_len xs"
  by (cases xs rule: rev_cases) (simp_all add: line_len_def)

lemma list_all_butlast: "list_all P xs \<Longrightarrow> list_all P (butlast xs)"
  by (auto simp: list_all_iff dest: in_set_butlastD)

lemma line_feed_ok:
  assumes ok: "line_ok ed" and run: "line_feed c ed = (finished, echo, ed')"
  shows "line_ok ed'" "le_max ed' = le_max ed" "foldl replay (le_line ed) echo = le_line ed'"
    "finished = (if c = NL then Some (le_line ed) else None)"
proof -
  have "line_ok ed' \<and> le_max ed' = le_max ed \<and> foldl replay (le_line ed) echo = le_line ed'
    \<and> finished = (if c = NL then Some (le_line ed) else None)"
    using run ok butlast_snoc_len [of "le_line ed"] list_all_butlast [of "\<lambda>c. \<not> is_control c" "le_line ed"]
    by (auto simp: line_feed_def line_ok_def replay_def ERASE_def NL_def BS_def line_len_def split: if_splits)
  then show "line_ok ed'" "le_max ed' = le_max ed" "foldl replay (le_line ed) echo = le_line ed'"
    "finished = (if c = NL then Some (le_line ed) else None)" by blast+
qed

lemma line_clear_ok:
  assumes "line_ok ed"
  shows "line_ok (snd (line_clear ed))" "foldl replay (le_line ed) (fst (line_clear ed)) = []"
proof -
  have "foldl replay xs (replicate (length xs) ERASE) = []" for xs
    by (induction xs rule: rev_induct) (simp_all add: replay_def)
  then show "foldl replay (le_line ed) (fst (line_clear ed)) = []" by (simp add: line_clear_def)
  show "line_ok (snd (line_clear ed))" by (simp add: line_clear_def line_ok_def line_len_def)
qed

subsection \<open>The console shows its cells\<close>

definition console_ok :: "console \<Rightarrow> bool" where
  "console_ok co \<longleftrightarrow> 0 < co_cols co \<and> 0 < co_rows co \<and> length (co_cells co) = co_cols co * co_rows co
     \<and> co_col co \<le> co_cols co \<and> co_row co < co_rows co"

definition paint :: "drawn \<Rightarrow> (nat \<times> nat \<Rightarrow> codepoint) \<Rightarrow> (nat \<times> nat \<Rightarrow> codepoint)" where
  "paint ds s = foldl (\<lambda>s (col, row, c). s((col, row) := c)) s ds"

definition displays :: "console \<Rightarrow> (nat \<times> nat \<Rightarrow> codepoint) \<Rightarrow> bool" where
  "displays co s \<longleftrightarrow> (\<forall>col < co_cols co. \<forall>row < co_rows co. s (col, row) = co_cells co ! (row * co_cols co + col))"

lemma paint_simps [simp]: "paint [] s = s" "paint (d # ds) s = paint ds (s((fst d, fst (snd d)) := snd (snd d)))"
  "paint (ds @ es) s = paint es (paint ds s)"
  by (simp_all add: paint_def split_beta)

lemma cell_index:
  assumes "col < cols" "row < rows"
  shows "row * cols + col < cols * (rows :: nat)"
proof -
  have "row * cols + col < Suc row * cols" using assms(1) by simp
  also have "\<dots> \<le> rows * cols" using assms(2) by (intro mult_le_mono1) simp
  finally show ?thesis by (simp add: mult.commute)
qed

lemma cell_index_inj:
  assumes "col < cols" "col' < cols" "row * cols + col = row' * cols + (col' :: nat)"
  shows "row = row' \<and> col = col'"
proof -
  have "(row * cols + col) div cols = row" "(row' * cols + col') div cols = row'" using assms(1,2) by simp_all
  then show ?thesis using assms(3) by simp
qed

lemma redraw_cells_Some:
  assumes "console_ok co" and "\<And>row col. (row, col) \<in> set cs \<Longrightarrow> row < co_rows co \<and> col < co_cols co"
  shows "\<exists>ds. redraw_cells cs co = Some ds \<and> (\<forall>s col row. paint ds s (col, row) =
     (if (row, col) \<in> set cs then co_cells co ! (row * co_cols co + col) else s (col, row)))"
  using assms(2)
proof (induction cs)
  case (Cons x cs)
  obtain r c where x: "x = (r, c)" by fastforce
  obtain ds where ds: "redraw_cells cs co = Some ds" "\<forall>s col row. paint ds s (col, row) =
     (if (row, col) \<in> set cs then co_cells co ! (row * co_cols co + col) else s (col, row))" using Cons by auto
  have "r * co_cols co + c < length (co_cells co)"
    using cell_index [of c "co_cols co" r "co_rows co"] Cons.prems [of r c] x assms(1) by (simp add: console_ok_def)
  then have "console_cell c r co = Some (co_cells co ! (r * co_cols co + c))" by (simp add: console_cell_def get_at_def)
  then show ?case using ds by (auto simp: x)
qed simp

lemma redraw_displays:
  assumes "console_ok co"
  shows "\<exists>ds. console_redraw co = Some ds \<and> (\<forall>s. displays co (paint ds s))"
proof -
  obtain ds where "redraw_cells (List.product [0..<co_rows co] [0..<co_cols co]) co = Some ds"
    "\<forall>s col row. paint ds s (col, row) =
     (if (row, col) \<in> set (List.product [0..<co_rows co] [0..<co_cols co]) then co_cells co ! (row * co_cols co + col) else s (col, row))"
    using redraw_cells_Some [OF assms, of "List.product [0..<co_rows co] [0..<co_cols co]"] by auto
  then show ?thesis by (intro exI [of _ ds]) (simp add: console_redraw_def displays_def)
qed

abbreviation step_ok :: "console \<Rightarrow> (nat \<times> nat \<Rightarrow> codepoint) \<Rightarrow> (drawn \<times> console) option \<Rightarrow> bool" where
  "step_ok co s r \<equiv> \<exists>ds co'. r = Some (ds, co') \<and> console_ok co' \<and> displays co' (paint ds s)
     \<and> co_cols co' = co_cols co \<and> co_rows co' = co_rows co"

lemma newline_ok:
  assumes ok: "console_ok co" and sh: "displays co s"
  shows "step_ok co s (console_newline co)" "\<And>ds co'. console_newline co = Some (ds, co') \<Longrightarrow> co_col co' = 0"
proof -
  have "step_ok co s (console_newline co) \<and> (\<forall>ds co'. console_newline co = Some (ds, co') \<longrightarrow> co_col co' = 0)"
  proof (cases "co_row co + 1 < co_rows co")
    case True
    then show ?thesis using ok sh by (auto simp: console_newline_def console_ok_def displays_def)
  next
    case False
    define cells at where "cells = drop (co_cols co) (co_cells co) @ drop (length (co_cells co) - co_cols co) (co_cells co)"
      and "at = (co_rows co - 1) * co_cols co"
    define co' where "co' = co\<lparr>co_col := 0, co_cells := take at cells @ replicate (length cells - at) 0x20\<rparr>"
    have "at \<le> co_cols co * co_rows co" unfolding at_def by (simp add: mult.commute)
    then have len: "co_cols co \<le> length (co_cells co)" "at \<le> length (co_cells co)"
      using ok by (simp_all add: console_ok_def)
    then have "length cells = length (co_cells co)" by (simp add: cells_def)
    then have ok': "console_ok co'" using ok len by (simp add: co'_def console_ok_def)
    obtain ds where ds: "console_redraw co' = Some ds" "\<forall>s. displays co' (paint ds s)" using redraw_displays [OF ok'] by blast
    have "console_newline co = Some (ds, co')"
      using False len ds(1) unfolding co'_def cells_def at_def by (simp add: console_newline_def Let_def)
    then show ?thesis using ok' ds(2) by (simp add: co'_def)
  qed
  then show "step_ok co s (console_newline co)" "\<And>ds co'. console_newline co = Some (ds, co') \<Longrightarrow> co_col co' = 0" by blast+
qed

lemma put_cell_ok:
  assumes ok: "console_ok co" and sh: "displays co s" and col: "co_col co < co_cols co"
  shows "step_ok co s (Some ([(co_col co, co_row co, c)],
     co\<lparr>co_cells := (co_cells co)[co_row co * co_cols co + co_col co := c], co_col := co_col co + 1\<rparr>))"
proof -
  have i: "co_row co * co_cols co + co_col co < length (co_cells co)"
    using cell_index [OF col, of "co_row co" "co_rows co"] ok by (simp add: console_ok_def)
  have "displays (co\<lparr>co_cells := (co_cells co)[co_row co * co_cols co + co_col co := c], co_col := co_col co + 1\<rparr>)
     (s((co_col co, co_row co) := c))"
    unfolding displays_def
  proof (intro allI impI)
    fix x y
    let ?co = "co\<lparr>co_cells := (co_cells co)[co_row co * co_cols co + co_col co := c], co_col := co_col co + 1\<rparr>"
    assume "x < co_cols ?co" "y < co_rows ?co"
    then have xy: "x < co_cols co" "y < co_rows co" by simp_all
    show "(s((co_col co, co_row co) := c)) (x, y) = co_cells ?co ! (y * co_cols ?co + x)"
    proof (cases "x = co_col co \<and> y = co_row co")
      case True
      then show ?thesis using i by simp
    next
      case False
      then have "co_row co * co_cols co + co_col co \<noteq> y * co_cols co + x" using cell_index_inj [OF col xy(1)] by blast
      then show ?thesis using False sh xy by (auto simp: displays_def)
    qed
  qed
  then show ?thesis using ok col by (simp add: console_ok_def)
qed

lemma console_put_ok:
  assumes ok: "console_ok co" and sh: "displays co s"
  shows "step_ok co s (console_put c co)"
proof -
  obtain ds co1 where 1: "(if co_col co = co_cols co then console_newline co else Some ([], co)) = Some (ds, co1)"
    "console_ok co1" "displays co1 (paint ds s)" "co_cols co1 = co_cols co" "co_rows co1 = co_rows co" "co_col co1 < co_cols co1"
  proof (cases "co_col co = co_cols co")
    case True
    obtain ds co1 where "console_newline co = Some (ds, co1)" "console_ok co1" "displays co1 (paint ds s)"
      "co_cols co1 = co_cols co" "co_rows co1 = co_rows co" using newline_ok(1) [OF ok sh] by blast
    then show ?thesis using that [of ds co1] newline_ok(2) [OF ok sh] True by (auto simp: console_ok_def)
  next
    case False
    then show ?thesis using that [of "[]" co] ok sh by (auto simp: console_ok_def)
  qed
  have "co_row co1 * co_cols co1 + co_col co1 < length (co_cells co1)"
    using cell_index [OF 1(6), of "co_row co1" "co_rows co1"] 1(2) by (simp add: console_ok_def)
  then show ?thesis using put_cell_ok [OF 1(2,3,6), of c] 1(1,4,5) by (auto simp: console_put_def Let_def)
qed

lemma console_char_ok:
  assumes ok: "console_ok co" and sh: "displays co s"
  shows "step_ok co s (console_char c co)"
proof -
  have "console_ok (co\<lparr>co_col := x\<rparr>) \<and> displays (co\<lparr>co_col := x\<rparr>) s" if "x \<le> co_cols co" for x
    using ok sh that by (simp add: console_ok_def displays_def)
  then show ?thesis using newline_ok(1) [OF ok sh] console_put_ok [OF ok sh, of c] ok sh
    unfolding console_char_def by (auto simp: console_ok_def)
qed

text \<open>C40: Writing any text to the console, control characters included, never reads or writes outside its
  grid, keeps the cursor on it, and leaves on the screen exactly what its cells hold, scrolling included.\<close>

theorem console_displays:
  assumes "console_ok co" and "displays co s"
  shows "\<exists>ds co'. console_write_str str co = Some (ds, co') \<and> console_ok co' \<and> displays co' (paint ds s)
     \<and> co_cols co' = co_cols co \<and> co_rows co' = co_rows co"
  using assms
proof (induction str arbitrary: co s)
  case (Cons c cs)
  obtain ds co1 where 1: "console_char c co = Some (ds, co1)" "console_ok co1" "displays co1 (paint ds s)"
    "co_cols co1 = co_cols co" "co_rows co1 = co_rows co" using console_char_ok [OF Cons.prems] by blast
  then show ?case using Cons.IH [OF 1(2,3)] by auto
qed simp

lemma console_new_ok: "console_ok (console_new cols rows)" "displays (console_new cols rows) (\<lambda>_. 0x20)"
  by (simp_all add: console_new_def console_ok_def displays_def Let_def cell_index less_max_iff_disj)

theorem console_displays_witness:
  "\<exists>ds co'. console_write_str [72, 105, 0x0A, 0x0A, 33] (console_new 4 2) = Some (ds, co') \<and> displays co' (paint ds (\<lambda>_. 0x20))"
  using console_displays [OF console_new_ok] by blast

lemma console_clear_ok:
  assumes "console_ok co"
  shows "step_ok co s (console_clear co)"
proof -
  let ?co = "co\<lparr>co_cells := replicate (length (co_cells co)) 0x20, co_col := 0, co_row := 0\<rparr>"
  have ok: "console_ok ?co" using assms by (simp add: console_ok_def)
  then show ?thesis using redraw_displays [OF ok] by (auto simp: console_clear_def Let_def)
qed

end
