(* ===== verification/Pipes.thy ===== *)
theory Pipes
  imports Prelude Abi
begin

text \<open>
  Pipes between programs, \<open>src/process/pipe.rs\<close>, and the budget for file bytes on the kernel heap,
  \<open>src/process/buffer.rs\<close>. Every access to a pipe is a critical section of its lock, and \<open>read\<close> and \<open>write\<close>
  have two of them: the test they wait for, and the transfer. Each section is a definition, so that other
  tasks can come between the two. A section that ends in \<open>sched::notify(PIPE)\<close> says so in its result.
  Updates of the budget are atomic, one step each.
\<close>

subsection \<open>Pipes\<close>

record pipe =
  pp_bytes :: "byte list"
  pp_readers :: nat
  pp_writers :: nat

datatype pipe_end = ReadEnd | WriteEnd

definition pipe_pair :: pipe where
  "pipe_pair = \<lparr>pp_bytes = [], pp_readers = 1, pp_writers = 1\<rparr>"

fun pipe_duplicate :: "pipe_end \<Rightarrow> pipe \<Rightarrow> pipe" where
  "pipe_duplicate ReadEnd p = p\<lparr>pp_readers := pp_readers p + 1\<rparr>"
| "pipe_duplicate WriteEnd p = p\<lparr>pp_writers := pp_writers p + 1\<rparr>"

fun pipe_drop :: "pipe_end \<Rightarrow> pipe \<Rightarrow> pipe option" where
  \<comment> \<open>\<open>None\<close>: the count would go below zero; otherwise everybody waiting is notified\<close>
  "pipe_drop ReadEnd p = (if pp_readers p = 0 then None else Some (p\<lparr>pp_readers := pp_readers p - 1\<rparr>))"
| "pipe_drop WriteEnd p = (if pp_writers p = 0 then None else Some (p\<lparr>pp_writers := pp_writers p - 1\<rparr>))"

definition read_ready :: "bool \<Rightarrow> pipe \<Rightarrow> bool" where
  "read_ready stop p \<longleftrightarrow> stop \<or> pp_bytes p \<noteq> [] \<or> pp_writers p = 0"

definition pipe_take :: "nat \<Rightarrow> pipe \<Rightarrow> byte list \<times> bool \<times> pipe" where
  \<comment> \<open>the bytes for a buffer of \<open>n\<close>, and whether waiters are notified\<close>
  "pipe_take n p =
     (let count = min n (length (pp_bytes p))
      in (take count (pp_bytes p), count > 0, p\<lparr>pp_bytes := drop count (pp_bytes p)\<rparr>))"


definition pipe_put :: "byte list \<Rightarrow> pipe \<Rightarrow> (nat, errno) result \<times> bool \<times> pipe" where
  "pipe_put bytes p =
     (if pp_readers p = 0 then (Err BrokenPipe, False, p)
      else let count = min (length bytes) (PIPE_CAPACITY - length (pp_bytes p))
           in (Ok count, count > 0, p\<lparr>pp_bytes := pp_bytes p @ take count bytes\<rparr>))"

subsection \<open>Runs of a pipe\<close>

text \<open>Any sequence of critical sections, by any number of tasks; \<open>written\<close> and \<open>got\<close> are all bytes ever put in
  and taken out, \<open>r\<close> and \<open>w\<close> the ends that exist.\<close>

inductive pipe_run :: "pipe \<Rightarrow> byte list \<Rightarrow> byte list \<Rightarrow> nat \<Rightarrow> nat \<Rightarrow> bool" where
  pr_pair: "pipe_run pipe_pair [] [] 1 1"
| pr_dup_read: "pipe_run p written got r w \<Longrightarrow> 0 < r \<Longrightarrow> pipe_run (pipe_duplicate ReadEnd p) written got (r + 1) w"
| pr_dup_write: "pipe_run p written got r w \<Longrightarrow> 0 < w \<Longrightarrow> pipe_run (pipe_duplicate WriteEnd p) written got r (w + 1)"
| pr_drop_read: "pipe_run p written got (Suc r) w \<Longrightarrow> pipe_drop ReadEnd p = Some p' \<Longrightarrow> pipe_run p' written got r w"
| pr_drop_write: "pipe_run p written got r (Suc w) \<Longrightarrow> pipe_drop WriteEnd p = Some p' \<Longrightarrow> pipe_run p' written got r w"
| pr_take: "pipe_run p written got r w \<Longrightarrow> pipe_take n p = (out, woken, p') \<Longrightarrow> pipe_run p' written (got @ out) r w"
| pr_put: "pipe_run p written got r w \<Longrightarrow> pipe_put bytes p = (res, woken, p') \<Longrightarrow>
    pipe_run p' (written @ (case res of Ok n \<Rightarrow> take n bytes | Err _ \<Rightarrow> [])) got r w"




text \<open>C37: Between the test a reader waits for and the transfer another reader can empty the pipe. The first
  then gets nothing although writers remain and nobody told it to stop: the answer 0, which a program takes
  for the end of its input.\<close>

theorem reader_told_end_too_early:
  "\<exists>p p'. pipe_run p [7] [] 2 1 \<and> read_ready False p \<and> pipe_take 1 p = ([7], True, p') \<and> pipe_run p' [7] [7] 2 1
     \<and> pipe_take 1 p' = ([], False, p') \<and> pp_writers p' = 1 \<and> \<not> read_ready False p'"
proof -
  have 1: "pipe_run (pipe_duplicate ReadEnd pipe_pair) [] [] 2 1" using pr_dup_read [OF pr_pair] by (simp add: numeral_2_eq_2)
  let ?p = "\<lparr>pp_bytes = [7], pp_readers = 2, pp_writers = 1\<rparr>" and ?q = "\<lparr>pp_bytes = [], pp_readers = 2, pp_writers = 1\<rparr>"
  have put: "pipe_put [7] (pipe_duplicate ReadEnd pipe_pair) = (Ok 1, True, ?p)"
    by (simp add: pipe_put_def pipe_pair_def PIPE_CAPACITY_def)
  have p: "pipe_run ?p [7] [] 2 1" using pr_put [OF 1 put] by simp
  have t: "pipe_take 1 ?p = ([7], True, ?q)" by (simp add: pipe_take_def)
  have "pipe_run ?q [7] [7] 2 1" using pr_take [OF p t] by simp
  moreover have "pipe_take 1 ?q = ([], False, ?q)" by (simp add: pipe_take_def)
  ultimately show ?thesis using p t by (intro exI [of _ ?p] exI [of _ ?q]) (simp add: read_ready_def)
qed

subsection \<open>File buffers and their budget\<close>













end
