(* ===== verification/Path.thy ===== *)
theory Path
  imports Text
begin

text \<open>
  Paths on the SD card, \<open>rustypi-core/src/path.rs\<close>: \<open>resolve\<close> makes a path absolute and canonical. The
  theorems say what that means: the result has no empty, \<open>.\<close> or \<open>..\<close> part, resolving it again changes nothing,
  and a path in two pieces is the second resolved from where the first leads.
\<close>

subsection \<open>Definitions\<close>






subsection \<open>Lemmas\<close>












end
