(* ===== verification/Disk.thy ===== *)
theory Disk
  imports Prelude
begin

text \<open>
  Block devices, \<open>rustypi-core/src/block.rs\<close>, and finding the FAT volume on a disk, \<open>mbr.rs\<close>. A device is a
  parameter: a state and its \<open>read_block\<close> and \<open>write_block\<close>, which may fail. A block is a list of 512 bytes;
  block numbers are \<open>u64\<close> as \<open>nat\<close>.
\<close>

subsection \<open>Block devices\<close>

definition BLOCK_SIZE :: nat where "BLOCK_SIZE = 512"

type_synonym block = "byte list"
type_synonym lba = nat

definition lba_offset :: "lba \<Rightarrow> nat \<Rightarrow> lba" where
  "lba_offset lba blocks = lba + blocks"

type_synonym ('d, 'e) read_block = "lba \<Rightarrow> 'd \<Rightarrow> (block, 'e) result \<times> 'd"
type_synonym ('d, 'e) write_block = "lba \<Rightarrow> block \<Rightarrow> 'd \<Rightarrow> (unit, 'e) result \<times> 'd"

fun read_blocks_from :: "('d, 'e) read_block \<Rightarrow> lba \<Rightarrow> nat list \<Rightarrow> 'd \<Rightarrow> (block list, 'e) result \<times> 'd" where
  "read_blocks_from read lba [] d = (Ok [], d)"
| "read_blocks_from read lba (i # is) d =
     (case read (lba_offset lba i) d of
        (Err e, d) \<Rightarrow> (Err e, d)
      | (Ok b, d) \<Rightarrow>
          (case read_blocks_from read lba is d of
             (Err e, d) \<Rightarrow> (Err e, d)
           | (Ok bs, d) \<Rightarrow> (Ok (b # bs), d)))"

definition read_blocks :: "('d, 'e) read_block \<Rightarrow> lba \<Rightarrow> nat \<Rightarrow> 'd \<Rightarrow> (block list, 'e) result \<times> 'd" where
  "read_blocks read lba n d = read_blocks_from read lba [0..<n] d"

fun write_blocks_from :: "('d, 'e) write_block \<Rightarrow> lba \<Rightarrow> nat \<Rightarrow> block list \<Rightarrow> 'd \<Rightarrow> (unit, 'e) result \<times> 'd" where
  "write_blocks_from write lba i [] d = (Ok (), d)"
| "write_blocks_from write lba i (b # bs) d =
     (case write (lba_offset lba i) b d of
        (Err e, d) \<Rightarrow> (Err e, d)
      | (Ok _, d) \<Rightarrow> write_blocks_from write lba (i + 1) bs d)"

definition write_blocks :: "('d, 'e) write_block \<Rightarrow> lba \<Rightarrow> block list \<Rightarrow> 'd \<Rightarrow> (unit, 'e) result \<times> 'd" where
  "write_blocks write lba blocks d = write_blocks_from write lba 0 blocks d"

subsection \<open>Partitions\<close>

definition is_fat :: "byte \<Rightarrow> bool" where
  "is_fat kind \<longleftrightarrow> kind \<in> {0x04, 0x06, 0x0B, 0x0C, 0x0E}"

record partition =
  pt_kind :: byte
  pt_start :: lba
  pt_blocks :: u32

datatype fat_volume = VPartition nat partition | WholeDisk

fun volume_start :: "fat_volume \<Rightarrow> lba" where
  "volume_start (VPartition index part) = pt_start part"
| "volume_start WholeDisk = 0"

definition has_boot_signature :: "block \<Rightarrow> bool" where
  "has_boot_signature block \<longleftrightarrow> block ! 510 = 0x55 \<and> block ! 511 = 0xAA"

definition is_power_of_two :: "byte \<Rightarrow> bool" where
  "is_power_of_two b \<longleftrightarrow> b \<noteq> 0 \<and> b AND (b - 1) = 0"

definition is_fat_boot_sector :: "block \<Rightarrow> bool" where
  "is_fat_boot_sector block \<longleftrightarrow>
     (let jump = block ! 0 = 0xEB \<or> block ! 0 = 0xE9;
          bytes_per_sector = (from_le [block ! 11, block ! 12] :: u16);
          sectors_per_cluster = block ! 13
      in jump \<and> has_boot_signature block \<and> bytes_per_sector = 512 \<and> is_power_of_two sectors_per_cluster \<and> block ! 16 > 0)"

definition partition_entry :: "block \<Rightarrow> nat \<Rightarrow> partition option" where
  "partition_entry block i =
     (let entry = slice (446 + i * 16) (446 + (i + 1) * 16) block;
          kind = entry ! 4;
          start = (from_le (slice 8 12 entry) :: u32);
          blocks = (from_le (slice 12 16 entry) :: u32)
      in if kind \<noteq> 0 \<and> blocks \<noteq> 0 then Some \<lparr>pt_kind = kind, pt_start = unat start, pt_blocks = blocks\<rparr> else None)"

definition partitions :: "block \<Rightarrow> partition option list option" where
  "partitions block = (if \<not> has_boot_signature block then None else Some (map (partition_entry block) [0..<4]))"

fun first_fat :: "nat \<Rightarrow> partition option list \<Rightarrow> fat_volume option" where
  "first_fat index [] = None"
| "first_fat index (p # ps) =
     (case p of
        Some part \<Rightarrow> if is_fat (pt_kind part) then Some (VPartition index part) else first_fat (index + 1) ps
      | None \<Rightarrow> first_fat (index + 1) ps)"

definition find_fat_volume :: "block \<Rightarrow> fat_volume option" where
  "find_fat_volume block0 =
     (if is_fat_boot_sector block0 then Some WholeDisk
      else case partitions block0 of None \<Rightarrow> None | Some ps \<Rightarrow> first_fat 0 ps)"

definition first_partition_start :: "block \<Rightarrow> lba option" where
  "first_partition_start block0 =
     (if is_fat_boot_sector block0 then None
      else case partitions block0 of
             None \<Rightarrow> None
           | Some ps \<Rightarrow> (case map pt_start (List.map_filter (\<lambda>p. p) ps) of [] \<Rightarrow> None | s # ss \<Rightarrow> Some (foldl min s ss)))"

subsection \<open>Lemmas\<close>

text \<open>The default loops read and write the blocks one after the other, stopping at the first failure.\<close>

lemma read_blocks_from_Ok:
  "read_blocks_from read lba is d = (Ok bs, d') \<Longrightarrow> length bs = length is"
  by (induction "is" arbitrary: d bs) (auto split: result.splits prod.splits)

lemma read_blocks_pure:
  assumes "\<And>l. read l d = (Ok (content l), d)"
  shows "read_blocks read lba n d = (Ok (map (\<lambda>i. content (lba + i)) [0..<n]), d)"
proof -
  have "read_blocks_from read lba is d = (Ok (map (\<lambda>i. content (lba + i)) is), d)" for "is"
    by (induction "is") (simp_all add: assms lba_offset_def)
  then show ?thesis by (simp add: read_blocks_def)
qed

lemma write_blocks_from_pure:
  assumes "\<And>l b d. write l b d = (Ok (), d(l := b))"
  shows "write_blocks_from write lba i bs d = (Ok (), \<lambda>l. if lba + i \<le> l \<and> l < lba + i + length bs then bs ! (l - (lba + i)) else d l)"
proof (induction bs arbitrary: i d)
  case (Cons b bs)
  have "(if lba + (i + 1) \<le> l \<and> l < lba + (i + 1) + length bs then bs ! (l - (lba + (i + 1))) else (d(lba + i := b)) l)
      = (if lba + i \<le> l \<and> l < lba + i + length (b # bs) then (b # bs) ! (l - (lba + i)) else d l)" for l
    by (cases "l = lba + i"; cases "l < lba + i") (auto simp: nth_Cons' fun_upd_def)
  moreover have "write_blocks_from write lba i (b # bs) d = write_blocks_from write lba (i + 1) bs (d(lba + i := b))"
    by (simp add: assms lba_offset_def)
  ultimately show ?case unfolding Cons by simp
qed (auto simp: fun_eq_iff)

lemma first_fat_Some:
  assumes "first_fat n ps = Some v"
  shows "\<exists>i p. v = VPartition (n + i) p \<and> i < length ps \<and> ps ! i = Some p \<and> is_fat (pt_kind p)
     \<and> (\<forall>j<i. \<forall>q. ps ! j = Some q \<longrightarrow> \<not> is_fat (pt_kind q))"
  using assms
proof (induction ps arbitrary: n)
  case (Cons x ps)
  show ?case
  proof (cases "\<exists>p. x = Some p \<and> is_fat (pt_kind p)")
    case True
    then show ?thesis using Cons.prems by (intro exI [of _ 0]) auto
  next
    case False
    then have "first_fat (n + 1) ps = Some v" using Cons.prems by (auto split: option.splits)
    from Cons.IH [OF this] obtain i p where ip: "v = VPartition (n + 1 + i) p" "i < length ps" "ps ! i = Some p" "is_fat (pt_kind p)"
      "\<forall>j<i. \<forall>q. ps ! j = Some q \<longrightarrow> \<not> is_fat (pt_kind q)" by blast
    have "\<not> is_fat (pt_kind q)" if "j < Suc i" "(x # ps) ! j = Some q" for j q
      using that False ip(5) by (cases j) auto
    then show ?thesis using ip by (intro exI [of _ "Suc i"] exI [of _ p]) auto
  qed
qed simp

lemma first_fat_None: "first_fat n ps = None \<longleftrightarrow> (\<forall>p. Some p \<in> set ps \<longrightarrow> \<not> is_fat (pt_kind p))"
  by (induction ps arbitrary: n) (auto split: option.splits)

lemma foldl_min: "x \<in> insert s (set ss) \<Longrightarrow> foldl min s ss \<le> (x :: nat)"
proof (induction ss arbitrary: s x)
  case (Cons y ss)
  have "foldl min (min s y) ss \<le> min s y" using Cons.IH by blast
  then show ?case using Cons by auto
qed simp

lemma set_map_filter_id: "x \<in> set (List.map_filter (\<lambda>p. p) ps) \<longleftrightarrow> Some x \<in> set ps"
  by (induction ps) (auto simp: List.map_filter_def split: option.splits)

text \<open>The volume that is found is the first FAT partition, and everything before the first partition belongs to
  no partition.\<close>

lemma find_fat_volume_spec:
  assumes "find_fat_volume b = Some (VPartition i p)"
  shows "\<not> is_fat_boot_sector b \<and> has_boot_signature b \<and> i < 4 \<and> partition_entry b i = Some p \<and> is_fat (pt_kind p)
     \<and> (\<forall>j<i. \<forall>q. partition_entry b j = Some q \<longrightarrow> \<not> is_fat (pt_kind q))
     \<and> (\<exists>s. first_partition_start b = Some s \<and> s \<le> pt_start p)"
proof -
  have b: "\<not> is_fat_boot_sector b" "has_boot_signature b" "first_fat 0 (map (partition_entry b) [0..<4]) = Some (VPartition i p)"
    using assms by (auto simp: find_fat_volume_def partitions_def split: if_splits)
  from first_fat_Some [OF b(3)] have f: "i < 4" "partition_entry b i = Some p" "is_fat (pt_kind p)"
    "\<forall>j<i. \<forall>q. partition_entry b j = Some q \<longrightarrow> \<not> is_fat (pt_kind q)" by (auto simp: less_trans)
  let ?ss = "map pt_start (List.map_filter (\<lambda>p. p) (map (partition_entry b) [0..<4]))"
  have "Some p \<in> set (map (partition_entry b) [0..<4])" using f(1,2) by (metis (no_types) add_0 in_set_conv_nth length_map length_upt nth_map_upt diff_zero)
  then have m: "pt_start p \<in> set ?ss" using set_map_filter_id [of p "map (partition_entry b) [0..<4]"] by simp
  then obtain s ss where ss: "?ss = s # ss" by (cases ?ss) auto
  then have "first_partition_start b = Some (foldl min s ss)" using b(1,2) by (simp add: first_partition_start_def partitions_def)
  moreover have "foldl min s ss \<le> pt_start p" using foldl_min [of "pt_start p" s ss] m unfolding ss by simp
  ultimately show ?thesis using b f by blast
qed

end
