(* ===== verification/Fat_Model.thy ===== *)
theory Fat_Model
  imports Disk Unicode Text
begin

text \<open>
  The FAT16 and FAT32 filesystem, \<open>rustypi-core/src/fat/mod.rs\<close>: mounting, the file allocation table behind a
  one-sector cache and a pending sector, cluster chains, and directories with their long names.

  A computation on a mounted volume takes and returns the volume, with the device inside it; \<open>fbind\<close> is the
  source's \<open>?\<close>. The device is a parameter, a record of its four operations, each of which may fail. Cluster and
  sector numbers are \<open>nat\<close>; what is read from a FAT or a directory is decoded at its width.
\<close>

subsection \<open>Devices and volumes\<close>

record ('d, 'e) device =
  dv_read :: "('d, 'e) read_block"
  dv_read_blocks :: "lba \<Rightarrow> nat \<Rightarrow> 'd \<Rightarrow> (block list, 'e) result \<times> 'd"
  dv_write :: "('d, 'e) write_block"
  dv_write_blocks :: "lba \<Rightarrow> block list \<Rightarrow> 'd \<Rightarrow> (unit, 'e) result \<times> 'd"

definition DIR_ENTRY_SIZE :: nat where "DIR_ENTRY_SIZE = 32"
definition ATTR_DIRECTORY :: byte where "ATTR_DIRECTORY = 0x10"
definition ATTR_VOLUME_ID :: byte where "ATTR_VOLUME_ID = 0x08"
definition ATTR_LONG_NAME :: byte where "ATTR_LONG_NAME = 0x0F"
definition ENTRY_END :: byte where "ENTRY_END = 0x00"
definition ENTRY_DELETED :: byte where "ENTRY_DELETED = 0xE5"
definition ENTRY_KANJI_E5 :: byte where "ENTRY_KANJI_E5 = 0x05"
definition LFN_LAST :: byte where "LFN_LAST = 0x40"
definition LFN_CHARS :: nat where "LFN_CHARS = 13"
definition LFN_OFFSETS :: "nat list" where "LFN_OFFSETS = [1, 3, 5, 7, 9, 14, 16, 18, 20, 22, 24, 28, 30]"
definition CASE_LOWER_BASE :: byte where "CASE_LOWER_BASE = 0x08"
definition CASE_LOWER_EXT :: byte where "CASE_LOWER_EXT = 0x10"

datatype fat_type = Fat16 | Fat32

datatype 'e fat_error =
    Device 'e | NotFat string | UnsupportedSectorSize u16 | Fat12 | BadCluster nat | ChainLoop | FileTruncated
  | NotFound | NotADirectory | NotAFile | AlreadyExists | NotEmpty | InvalidName | NoSpace | DirectoryFull | TooBig

fun fat_error_display :: "('e \<Rightarrow> rstr) \<Rightarrow> 'e fat_error \<Rightarrow> rstr" where
  "fat_error_display show_device (Device error) = ascii ''device: '' @ show_device error"
| "fat_error_display show_device (NotFat reason) = ascii ''not a FAT volume: '' @ ascii reason"
| "fat_error_display show_device (UnsupportedSectorSize n) = dec (unat n) @ ascii ''-byte sectors not supported''"
| "fat_error_display show_device Fat12 = ascii ''FAT12 not supported''"
| "fat_error_display show_device (BadCluster cluster) = ascii ''bad cluster '' @ dec cluster"
| "fat_error_display show_device ChainLoop = ascii ''cluster chain loops''"
| "fat_error_display show_device FileTruncated = ascii ''file shorter than its size''"
| "fat_error_display show_device NotFound = ascii ''not found''"
| "fat_error_display show_device NotADirectory = ascii ''not a directory''"
| "fat_error_display show_device NotAFile = ascii ''not a file''"
| "fat_error_display show_device AlreadyExists = ascii ''already exists''"
| "fat_error_display show_device NotEmpty = ascii ''directory not empty''"
| "fat_error_display show_device InvalidName = ascii ''invalid name''"
| "fat_error_display show_device NoSpace = ascii ''no space left''"
| "fat_error_display show_device DirectoryFull = ascii ''root directory full''"
| "fat_error_display show_device TooBig = ascii ''too big for FAT''"

datatype entry_kind = File | Directory

record stamp =
  sm_date :: u16
  sm_time :: u16

record dir_entry =
  de_name :: ustr
  de_kind :: entry_kind
  de_size :: nat
  de_modified :: stamp
  de_cluster :: nat

datatype root_dir = RootFixed nat nat | RootChain nat
datatype dir = DirRoot | DirChain nat

record 'd fat =
  fa_device :: 'd
  fa_start :: lba
  fa_type :: fat_type
  fa_spc :: nat                            \<comment> \<open>\<open>sectors_per_cluster\<close>\<close>
  fa_fat_start :: nat
  fa_root :: root_dir
  fa_data_start :: nat
  fa_cluster_count :: nat
  fa_label :: rstr
  fa_fat_count :: nat
  fa_fat_size :: nat
  fa_fsinfo :: "nat option"
  fa_free_count :: "u32 option"
  fa_cache :: "(nat \<times> block) option"
  fa_dirty :: "(nat \<times> block) option"
  fa_stamp :: "u16 \<times> u16"
  fa_next_free :: nat

type_synonym ('a, 'd, 'e) fat_op = "'d fat \<Rightarrow> ('a, 'e fat_error) result \<times> 'd fat"

definition fbind :: "('a, 'd, 'e) fat_op \<Rightarrow> ('a \<Rightarrow> ('b, 'd, 'e) fat_op) \<Rightarrow> ('b, 'd, 'e) fat_op" where
  "fbind m k f = (case m f of (Ok x, f') \<Rightarrow> k x f' | (Err e, f') \<Rightarrow> (Err e, f'))"

definition on_device :: "('d \<Rightarrow> ('a, 'e) result \<times> 'd) \<Rightarrow> ('a, 'd, 'e) fat_op" where
  \<comment> \<open>a call of the device, its error converted by \<open>From\<close>\<close>
  "on_device call f =
     (case call (fa_device f) of
        (Ok x, d) \<Rightarrow> (Ok x, f\<lparr>fa_device := d\<rparr>)
      | (Err e, d) \<Rightarrow> (Err (Device e), f\<lparr>fa_device := d\<rparr>))"

definition fu16 :: "byte list \<Rightarrow> nat \<Rightarrow> u16" where
  "fu16 bytes at = from_le [bytes ! at, bytes ! (at + 1)]"

definition fu32 :: "byte list \<Rightarrow> nat \<Rightarrow> u32" where
  "fu32 bytes at = from_le (slice at (at + 4) bytes)"

subsection \<open>Mounting\<close>

definition utf8_lossy :: "byte list \<Rightarrow> rstr" where
  \<comment> \<open>\<open>String::from_utf8_lossy\<close>\<close>
  "utf8_lossy bytes = concat (map (\<lambda>(good, bad). good @ (if bad = [] then [] else [0xEF, 0xBF, 0xBD])) (utf8_chunks bytes))"

definition WHITESPACE_UTF8 :: "rstr list" where
  "WHITESPACE_UTF8 = map (\<lambda>b. [b]) [9, 10, 11, 12, 13, 32] @ [[0xC2, 0x85], [0xC2, 0xA0], [0xE1, 0x9A, 0x80]]
     @ map (\<lambda>b. [0xE2, 0x80, b]) [0x80, 0x81, 0x82, 0x83, 0x84, 0x85, 0x86, 0x87, 0x88, 0x89, 0x8A, 0xA8, 0xA9, 0xAF]
     @ [[0xE2, 0x81, 0x9F], [0xE3, 0x80, 0x80]]"

definition ends_with :: "rstr \<Rightarrow> rstr \<Rightarrow> bool" where
  "ends_with w s \<longleftrightarrow> length w \<le> length s \<and> drop (length s - length w) s = w"

lemma whitespace_shorter:
  assumes "List.find (\<lambda>w. ends_with w s) WHITESPACE_UTF8 = Some w"
  shows "length s - length w < length s"
proof -
  have "w \<in> set WHITESPACE_UTF8" "ends_with w s" using assms by (auto simp: find_Some_iff)
  moreover have "[] \<notin> set WHITESPACE_UTF8" by (simp add: WHITESPACE_UTF8_def)
  ultimately have "0 < length w" "length w \<le> length s" by (auto simp: ends_with_def)
  then show ?thesis by linarith
qed

function trim_end_utf8 :: "rstr \<Rightarrow> rstr" where
  \<comment> \<open>\<open>str::trim_end\<close>\<close>
  "trim_end_utf8 s =
     (case List.find (\<lambda>w. ends_with w s) WHITESPACE_UTF8 of
        None \<Rightarrow> s
      | Some w \<Rightarrow> trim_end_utf8 (take (length s - length w) s))"
  by pat_completeness auto
termination
  by (relation "measure length") (auto dest: whitespace_shorter)

declare trim_end_utf8.simps [simp del]

definition DEFAULT_STAMP :: "u16 \<times> u16" where
  "DEFAULT_STAMP = (push_bit 9 (2026 - 1980) OR push_bit 5 1 OR 1, 0)"

definition fat_mount :: "('d, 'e) device \<Rightarrow> 'd \<Rightarrow> lba \<Rightarrow> ('d fat, 'e fat_error) result" where
  "fat_mount dev device start =
     (case dv_read dev start device of
        (Err e, _) \<Rightarrow> Err (Device e)
      | (Ok boot, device) \<Rightarrow>
          if boot ! 510 \<noteq> 0x55 \<or> boot ! 511 \<noteq> 0xAA then Err (NotFat ''no boot signature'')
          else if fu16 boot 11 \<noteq> of_nat BLOCK_SIZE then Err (UnsupportedSectorSize (fu16 boot 11))
          else if \<not> is_power_of_two (boot ! 13) then Err (NotFat ''cluster size is not a power of two'')
          else
            let sectors_per_cluster = unat (boot ! 13);
                reserved = unat (fu16 boot 14);
                fat_count = unat (boot ! 16);
                root_entries = unat (fu16 boot 17);
                total_sectors = (if fu16 boot 19 = 0 then unat (fu32 boot 32) else unat (fu16 boot 19));
                fat_size = (if fu16 boot 22 = 0 then unat (fu32 boot 36) else unat (fu16 boot 22))
            in if reserved = 0 \<or> fat_count = 0 \<or> fat_size = 0 then Err (NotFat ''empty reserved area or FAT'')
               else
                 let root_sectors = (root_entries * DIR_ENTRY_SIZE + (BLOCK_SIZE - 1)) div BLOCK_SIZE;
                     root_start = reserved + fat_count * fat_size;
                     data_start = root_start + root_sectors
                 in if data_start \<ge> total_sectors then Err (NotFat ''no room for data'')
                    else
                      let cluster_count = min ((total_sectors - data_start) div sectors_per_cluster) 0x0FFFFFF5
                      in if cluster_count < 4085 then Err Fat12
                         else
                           let (fat_type, root, label_at) =
                                 (if cluster_count < 65525 then (Fat16, RootFixed root_start root_sectors, 43)
                                  else (Fat32, RootChain (unat (fu32 boot 44)), 71));
                               label = trim_end_utf8 (utf8_lossy (slice label_at (label_at + 11) boot));
                               sector = fu16 boot 48;
                               fsinfo = (if fat_type = Fat32 \<and> sector \<noteq> 0 \<and> sector \<noteq> 0xFFFF then Some (unat sector) else None)
                           in Ok \<lparr>fa_device = device, fa_start = start, fa_type = fat_type, fa_spc = sectors_per_cluster,
                                  fa_fat_start = reserved, fa_root = root, fa_data_start = data_start,
                                  fa_cluster_count = cluster_count, fa_label = label, fa_fat_count = fat_count,
                                  fa_fat_size = fat_size, fa_fsinfo = fsinfo, fa_free_count = None, fa_cache = None,
                                  fa_dirty = None, fa_stamp = DEFAULT_STAMP, fa_next_free = 2\<rparr>)"

definition cluster_size :: "'d fat \<Rightarrow> nat" where
  "cluster_size f = fa_spc f * BLOCK_SIZE"

subsection \<open>The file allocation table\<close>

definition entry_width :: "fat_type \<Rightarrow> nat" where
  "entry_width t = (case t of Fat16 \<Rightarrow> 2 | Fat32 \<Rightarrow> 4)"

definition entry_mask :: "fat_type \<Rightarrow> u32" where
  "entry_mask t = (case t of Fat16 \<Rightarrow> 0xFFFF | Fat32 \<Rightarrow> 0x0FFFFFFF)"

definition fat_decode :: "fat_type \<Rightarrow> block \<Rightarrow> nat \<Rightarrow> u32" where
  "fat_decode t block at = (if t = Fat16 then ucast (fu16 block at) else fu32 block at) AND entry_mask t"

definition first_sector :: "'d fat \<Rightarrow> nat \<Rightarrow> nat" where
  "first_sector f cluster = fa_data_start f + (cluster - 2) * fa_spc f"

definition cluster_ok :: "'d fat \<Rightarrow> nat \<Rightarrow> bool" where
  \<comment> \<open>\<open>check\<close>\<close>
  "cluster_ok f cluster \<longleftrightarrow> \<not> (cluster < 2 \<or> cluster \<ge> fa_cluster_count f + 2)"

definition fat_position :: "'d fat \<Rightarrow> nat \<Rightarrow> nat \<times> nat" where
  "fat_position f cluster =
     (let offset = cluster * entry_width (fa_type f)
      in (fa_fat_start f + offset div BLOCK_SIZE, offset mod BLOCK_SIZE))"

definition fat_entry :: "('d, 'e) device \<Rightarrow> nat \<Rightarrow> (nat, 'd, 'e) fat_op" where
  "fat_entry dev cluster f =
     (let (sector, at) = fat_position f cluster;
          value = (\<lambda>block. unat (fat_decode (fa_type f) block at));
          from_cache = (case fa_cache f of
              Some (cached, block) \<Rightarrow> if cached = sector then Some (value block) else None
            | None \<Rightarrow> None);
          known = (case fa_dirty f of
              Some (dirty, block) \<Rightarrow> if dirty = sector then Some (value block) else from_cache
            | None \<Rightarrow> from_cache)
      in case known of
           Some v \<Rightarrow> (Ok v, f)
         | None \<Rightarrow>
             (case on_device (dv_read dev (lba_offset (fa_start f) sector)) f of
                (Err e, f') \<Rightarrow> (Err e, f')
              | (Ok block, f') \<Rightarrow> (Ok (value block), f'\<lparr>fa_cache := Some (sector, block)\<rparr>)))"

definition chain_end :: "fat_type \<Rightarrow> nat" where
  "chain_end t = (case t of Fat16 \<Rightarrow> 0xFFF8 | Fat32 \<Rightarrow> 0x0FFFFFF8)"

definition chain_bad :: "fat_type \<Rightarrow> nat" where
  "chain_bad t = (case t of Fat16 \<Rightarrow> 0xFFF7 | Fat32 \<Rightarrow> 0x0FFFFFF7)"

definition fat_next :: "('d, 'e) device \<Rightarrow> nat \<Rightarrow> (nat option, 'd, 'e) fat_op" where
  "fat_next dev cluster f =
     fbind (fat_entry dev cluster) (\<lambda>v f'.
       if v \<ge> chain_end (fa_type f) then (Ok None, f')
       else if v = chain_bad (fa_type f) then (Err (BadCluster cluster), f')
       else (Ok (Some v), f')) f"

subsection \<open>Reading chains\<close>

definition MAX_RUN_SECTORS :: nat where "MAX_RUN_SECTORS = 256"

definition read_sectors :: "('d, 'e) device \<Rightarrow> nat \<Rightarrow> nat \<Rightarrow> (byte list, 'd, 'e) fat_op" where
  "read_sectors dev start count f =
     fbind (on_device (dv_read_blocks dev (lba_offset (fa_start f) start) count)) (\<lambda>blocks f'. (Ok (concat blocks), f')) f"

definition covered :: "nat option \<Rightarrow> nat \<Rightarrow> bool" where
  "covered limit bytes \<longleftrightarrow> (case limit of None \<Rightarrow> False | Some limit \<Rightarrow> bytes \<ge> limit)"

function read_run ::
  "('d, 'e) device \<Rightarrow> nat \<Rightarrow> nat \<Rightarrow> nat option \<Rightarrow> nat \<Rightarrow> nat \<Rightarrow> nat \<Rightarrow> nat \<Rightarrow> nat \<Rightarrow> (nat \<times> nat option \<times> nat, 'd, 'e) fat_op" where
  \<comment> \<open>the inner loop of \<open>read_chain\<close>: the length of the run, the cluster after it, and the steps\<close>
  "read_run dev count max_run limit got cluster_bytes run current steps f =
     (if \<not> cluster_ok f current then (Err (BadCluster current), f)
      else if steps + 1 > count then (Err ChainLoop, f)
      else (case fat_next dev current f of
              (Err e, f') \<Rightarrow> (Err e, f')
            | (Ok cluster, f') \<Rightarrow>
                if (case cluster of
                      Some nxt \<Rightarrow> nxt = current + 1 \<and> run + 1 < max_run \<and> \<not> covered limit (got + (run + 1) * cluster_bytes)
                    | None \<Rightarrow> False)
                then read_run dev count max_run limit got cluster_bytes (run + 1) (the cluster) (steps + 1) f'
                else (Ok (run + 1, cluster, steps + 1), f')))"
  by pat_completeness auto
termination
  by (relation "measure (\<lambda>(dev, count, max_run, limit, got, cluster_bytes, run, current, steps, f). Suc count - steps)") auto

declare read_run.simps [simp del]

lemma read_run_steps:
  "read_run dev count max_run limit got cb run current steps f = (Ok (run', cluster, steps'), f') \<Longrightarrow> steps < steps' \<and> steps' \<le> count"
proof (induction "Suc count - steps" arbitrary: run current steps f rule: less_induct)
  case less
  note unfold = read_run.simps [of dev count max_run limit got cb run current steps f]
  have lt: "steps < count" and ok: "cluster_ok f current" using less.prems by (auto simp: unfold split: if_splits)
  obtain x f1 where n: "fat_next dev current f = (x, f1)" by fastforce
  obtain c where c: "x = Ok c" using less.prems lt ok n by (cases x) (auto simp: unfold)
  show ?case
  proof (cases "case c of Some nxt \<Rightarrow> nxt = current + 1 \<and> run + 1 < max_run \<and> \<not> covered limit (got + (run + 1) * cb) | None \<Rightarrow> False")
    case True
    then have "read_run dev count max_run limit got cb (run + 1) (the c) (steps + 1) f1 = (Ok (run', cluster, steps'), f')"
      using less.prems lt ok n c by (simp add: unfold)
    then show ?thesis using less.hyps [of "steps + 1"] lt by fastforce
  next
    case False
    then show ?thesis using less.prems lt ok n c by (simp add: unfold)
  qed
qed

function read_loop ::
  "('d, 'e) device \<Rightarrow> nat \<Rightarrow> nat \<Rightarrow> nat option \<Rightarrow> nat \<Rightarrow> nat option \<Rightarrow> nat \<Rightarrow> byte list \<Rightarrow> (byte list, 'd, 'e) fat_op" where
  "read_loop dev count max_run limit cluster_bytes cluster steps bytes f =
     (case cluster of
        None \<Rightarrow> (Ok bytes, f)
      | Some start \<Rightarrow>
          if covered limit (length bytes) then (Ok bytes, f)
          else (case read_run dev count max_run limit (length bytes) cluster_bytes 0 start steps f of
                  (Err e, f') \<Rightarrow> (Err e, f')
                | (Ok (run, cluster', steps'), f') \<Rightarrow>
                    (case read_sectors dev (first_sector f' start) (run * fa_spc f') f' of
                       (Err e, f'') \<Rightarrow> (Err e, f'')
                     | (Ok read, f'') \<Rightarrow> read_loop dev count max_run limit cluster_bytes cluster' steps' (bytes @ read) f'')))"
  by pat_completeness auto
termination
  by (relation "measure (\<lambda>(dev, count, max_run, limit, cluster_bytes, cluster, steps, bytes, f). count - steps)")
    (auto dest!: read_run_steps [OF sym])

declare read_loop.simps [simp del]

definition read_chain :: "('d, 'e) device \<Rightarrow> nat \<Rightarrow> nat option \<Rightarrow> (byte list, 'd, 'e) fat_op" where
  "read_chain dev first limit f =
     (if limit = Some 0 then (Ok [], f)
      else fbind (read_loop dev (fa_cluster_count f) (max (MAX_RUN_SECTORS div fa_spc f) 1) limit (cluster_size f) (Some first) 0 [])
        (\<lambda>bytes f'.
           case limit of
             None \<Rightarrow> (Ok bytes, f')
           | Some limit \<Rightarrow> if length bytes < limit then (Err FileTruncated, f') else (Ok (take limit bytes), f')) f)"

subsection \<open>Directory entries\<close>

definition lower_latin1 :: "codepoint \<Rightarrow> codepoint" where
  \<comment> \<open>\<open>to_lowercase\<close> of the characters a byte can be\<close>
  "lower_latin1 c = (if 65 \<le> c \<and> c \<le> 90 \<or> 0xC0 \<le> c \<and> c \<le> 0xDE \<and> c \<noteq> 0xD7 then c + 32 else c)"

definition names_match :: "(codepoint \<Rightarrow> codepoint list) \<Rightarrow> ustr \<Rightarrow> ustr \<Rightarrow> bool" where
  \<comment> \<open>\<open>to_lower\<close>: \<open>char::to_lowercase\<close>\<close>
  "names_match to_lower a b \<longleftrightarrow> concat (map to_lower a) = concat (map to_lower b)"

definition short_name_checksum :: "byte list \<Rightarrow> u8" where
  "short_name_checksum name = foldl (\<lambda>s b. word_rotr 1 s + b) 0 name"

definition short_part :: "byte list \<Rightarrow> bool \<Rightarrow> ustr" where
  "short_part bytes lower =
     (let text = trim_end (map unat bytes) in if lower then map lower_latin1 text else text)"

definition short_name :: "byte list \<Rightarrow> ustr" where
  "short_name entry =
     (let cases = entry ! 12;
          base = short_part (slice 0 8 entry) (cases AND CASE_LOWER_BASE \<noteq> 0);
          base = (if entry ! 0 = ENTRY_KANJI_E5 then 0xE5 # tl base else base);
          ext = short_part (slice 8 11 entry) (cases AND CASE_LOWER_EXT \<noteq> 0)
      in if ext = [] then base else base @ ustr ''.'' @ ext)"

record long_name =
  ln_units :: "nat list"
  ln_checksum :: u8
  ln_expected :: u8

definition long_reset :: "long_name \<Rightarrow> long_name" where
  "long_reset ln = ln\<lparr>ln_units := [], ln_expected := 0\<rparr>"

definition long_add :: "byte list \<Rightarrow> long_name \<Rightarrow> long_name" where
  "long_add entry ln =
     (let seq = entry ! 0 AND 0x1F;
          ln = (if entry ! 0 AND LFN_LAST \<noteq> 0
                then \<lparr>ln_units = replicate (unat seq * LFN_CHARS) 0xFFFF, ln_checksum = entry ! 13, ln_expected = seq\<rparr> else ln)
      in if seq = 0 \<or> seq \<noteq> ln_expected ln \<or> entry ! 13 \<noteq> ln_checksum ln then long_reset ln
         else ln\<lparr>ln_units := overwrite ((unat seq - 1) * LFN_CHARS) (map (\<lambda>at. unat (fu16 entry at)) LFN_OFFSETS) (ln_units ln),
                 ln_expected := ln_expected ln - 1\<rparr>)"

definition long_text :: "nat list \<Rightarrow> ustr" where
  "long_text units =
     (let len = (case position (\<lambda>u. u = 0 \<or> u = 0xFFFF) units of Some n \<Rightarrow> n | None \<Rightarrow> length units)
      in decode_utf16 (take len units))"

definition long_take :: "byte list \<Rightarrow> long_name \<Rightarrow> ustr option \<times> long_name" where
  "long_take short ln =
     (let complete = ln_expected ln = 0 \<and> ln_units ln \<noteq> []
      in (if complete \<and> ln_checksum ln = short_name_checksum short then Some (long_text (ln_units ln)) else None, long_reset ln))"

record located =
  lo_entry :: dir_entry
  lo_start :: nat
  lo_end :: nat

definition located_entry :: "fat_type \<Rightarrow> byte list \<Rightarrow> ustr \<Rightarrow> dir_entry" where
  "located_entry t entry name =
     (let high = (if t = Fat32 then unat (fu16 entry 20) else 0);
          directory = (entry ! 11 AND ATTR_DIRECTORY \<noteq> 0)
      in \<lparr>de_name = name, de_kind = (if directory then Directory else File),
          de_size = (if directory then 0 else unat (fu32 entry 28)),
          de_modified = \<lparr>sm_date = fu16 entry 24, sm_time = fu16 entry 22\<rparr>,
          de_cluster = high * 2 ^ 16 + unat (fu16 entry 26)\<rparr>)"

fun parse_slots :: "fat_type \<Rightarrow> nat \<Rightarrow> byte list list \<Rightarrow> long_name \<Rightarrow> nat \<Rightarrow> located list" where
  "parse_slots t index [] ln long_start = []"
| "parse_slots t index (entry # entries) ln long_start =
     (if entry ! 0 = ENTRY_END then []
      else if entry ! 0 = ENTRY_DELETED then parse_slots t (index + 1) entries (long_reset ln) long_start
      else if entry ! 11 AND 0x3F = ATTR_LONG_NAME then
        parse_slots t (index + 1) entries (long_add entry ln) (if entry ! 0 AND LFN_LAST \<noteq> 0 then index else long_start)
      else if entry ! 11 AND ATTR_VOLUME_ID \<noteq> 0 then parse_slots t (index + 1) entries (long_reset ln) long_start
      else let (name0, ln') = long_take (slice 0 11 entry) ln;
               name = (case name0 of Some n \<Rightarrow> n | None \<Rightarrow> short_name entry);
               rest = parse_slots t (index + 1) entries ln' long_start
           in if name = ustr ''.'' \<or> name = ustr ''..'' then rest
              else \<lparr>lo_entry = located_entry t entry name,
                    lo_start = (if name0 \<noteq> None then long_start else index), lo_end = index + 1\<rparr> # rest)"

definition dir_slots :: "byte list \<Rightarrow> byte list list" where
  \<comment> \<open>\<open>chunks_exact(DIR_ENTRY_SIZE)\<close>\<close>
  "dir_slots bytes = map (\<lambda>i. slice (i * DIR_ENTRY_SIZE) ((i + 1) * DIR_ENTRY_SIZE) bytes) [0..<length bytes div DIR_ENTRY_SIZE]"

definition long_new :: long_name where
  "long_new = \<lparr>ln_units = [], ln_checksum = 0, ln_expected = 0\<rparr>"

definition parse_located :: "byte list \<Rightarrow> fat_type \<Rightarrow> located list" where
  "parse_located bytes t = parse_slots t 0 (dir_slots bytes) long_new 0"

definition parse_entries :: "byte list \<Rightarrow> fat_type \<Rightarrow> dir_entry list" where
  "parse_entries bytes t = map lo_entry (parse_located bytes t)"

subsection \<open>Paths\<close>

definition fat_entries :: "('d, 'e) device \<Rightarrow> dir \<Rightarrow> (dir_entry list, 'd, 'e) fat_op" where
  "fat_entries dev dir f =
     fbind (case dir of
              DirChain cluster \<Rightarrow> read_chain dev cluster None
            | DirRoot \<Rightarrow>
                (case fa_root f of
                   RootFixed start sectors \<Rightarrow> read_sectors dev start sectors
                 | RootChain cluster \<Rightarrow> read_chain dev cluster None))
       (\<lambda>bytes f'. (Ok (parse_entries bytes (fa_type f')), f')) f"

definition find_in :: "('d, 'e) device \<Rightarrow> (codepoint \<Rightarrow> codepoint list) \<Rightarrow> dir \<Rightarrow> ustr \<Rightarrow> (dir_entry, 'd, 'e) fat_op" where
  "find_in dev to_lower dir name =
     fbind (fat_entries dev dir) (\<lambda>entries f'.
       case List.find (\<lambda>entry. names_match to_lower (de_name entry) name) entries of
         Some entry \<Rightarrow> (Ok entry, f')
       | None \<Rightarrow> (Err NotFound, f'))"

fun find_parts :: "('d, 'e) device \<Rightarrow> (codepoint \<Rightarrow> codepoint list) \<Rightarrow> ustr list \<Rightarrow> dir \<Rightarrow> (dir, 'd, 'e) fat_op" where
  "find_parts dev to_lower [] dir f = (Ok dir, f)"
| "find_parts dev to_lower (name # names) dir f =
     (case find_in dev to_lower dir name f of
        (Err e, f') \<Rightarrow> (Err e, f')
      | (Ok entry, f') \<Rightarrow>
          if de_kind entry \<noteq> Directory then (Err NotADirectory, f')
          else find_parts dev to_lower names (if de_cluster entry = 0 then DirRoot else DirChain (de_cluster entry)) f')"

definition find_dir :: "('d, 'e) device \<Rightarrow> (codepoint \<Rightarrow> codepoint list) \<Rightarrow> ustr \<Rightarrow> (dir, 'd, 'e) fat_op" where
  "find_dir dev to_lower path = find_parts dev to_lower (filter (\<lambda>part. part \<noteq> []) (usplit 0x2F path)) DirRoot"

definition metadata :: "('d, 'e) device \<Rightarrow> (codepoint \<Rightarrow> codepoint list) \<Rightarrow> ustr \<Rightarrow> (dir_entry, 'd, 'e) fat_op" where
  "metadata dev to_lower path f =
     (let trimmed = trim_end_matches 0x2F (trim_start_matches 0x2F path);
          split = (case ursplit_once 0x2F (trim_end_matches 0x2F path) of
              Some (parent, name) \<Rightarrow> if name \<noteq> [] then Some (parent, name) else None
            | None \<Rightarrow> None)
      in case (case split of Some x \<Rightarrow> Some x | None \<Rightarrow> if trimmed \<noteq> [] then Some ([], trimmed) else None) of
           None \<Rightarrow> (Err NotFound, f)
         | Some (parent, name) \<Rightarrow> fbind (find_dir dev to_lower parent) (\<lambda>dir. find_in dev to_lower dir name) f)"

definition read_dir :: "('d, 'e) device \<Rightarrow> (codepoint \<Rightarrow> codepoint list) \<Rightarrow> ustr \<Rightarrow> (dir_entry list, 'd, 'e) fat_op" where
  "read_dir dev to_lower path = fbind (find_dir dev to_lower path) (fat_entries dev)"

definition read_file :: "('d, 'e) device \<Rightarrow> (codepoint \<Rightarrow> codepoint list) \<Rightarrow> ustr \<Rightarrow> (byte list, 'd, 'e) fat_op" where
  "read_file dev to_lower path =
     fbind (metadata dev to_lower path) (\<lambda>entry f'.
       if de_kind entry \<noteq> File then (Err NotAFile, f')
       else read_chain dev (de_cluster entry) (Some (de_size entry)) f')"

end
