(* ===== verification/Fat_Read.thy ===== *)
theory Fat_Read
  imports Fat_Model
begin

text \<open>
  Reading a FAT volume, on any device that keeps what is written to it (the locale \<open>block_device\<close>: one sector
  is written whole or not at all, and a failing write changes no other sector): the cached table is the table on the disk, and \<open>read_chain\<close>, which reads
  runs of clusters in one go, gives what following the chain cluster by cluster gives, on corrupt volumes too.
\<close>

subsection \<open>Devices that keep what is written\<close>

locale readable_device =
  fixes dev :: "('d, 'e) device" and content :: "'d \<Rightarrow> lba \<Rightarrow> block"
  assumes read1: "dv_read dev l d = (r, d') \<Longrightarrow> content d' = content d \<and> (\<forall>b. r = Ok b \<longrightarrow> b = content d l)"
    and read_many: "dv_read_blocks dev l n d = (q, d') \<Longrightarrow>
      content d' = content d \<and> (\<forall>bs. q = Ok bs \<longrightarrow> bs = map (\<lambda>i. content d (l + i)) [0..<n])"
    and block_length: "length (content d l) = BLOCK_SIZE"

locale block_device = readable_device dev content
  for dev :: "('d, 'e) device" and content :: "'d \<Rightarrow> lba \<Rightarrow> block" +
  assumes write1: "length b = BLOCK_SIZE \<Longrightarrow> dv_write dev l b d = (u, d') \<Longrightarrow>
      (\<forall>l'. l' \<noteq> l \<longrightarrow> content d' l' = content d l') \<and> content d' l \<in> {content d l, b} \<and> (u = Ok () \<longrightarrow> content d' l = b)"
    and write_many: "\<forall>b \<in> set bs. length b = BLOCK_SIZE \<Longrightarrow> dv_write_blocks dev l bs d = (u, d') \<Longrightarrow>
      (\<forall>l'. \<not> (l \<le> l' \<and> l' < l + length bs) \<longrightarrow> content d' l' = content d l') \<and>
      (u = Ok () \<longrightarrow> (\<forall>i < length bs. content d' (l + i) = bs ! i))"

subsection \<open>The table as it is seen\<close>

definition fat_value :: "('d \<Rightarrow> lba \<Rightarrow> block) \<Rightarrow> 'd fat \<Rightarrow> nat \<Rightarrow> nat" where
  \<comment> \<open>entry \<open>n\<close>: from the pending sector if it is there, else from the disk\<close>
  "fat_value content f n =
     (let (sector, at) = fat_position f n
      in unat (fat_decode (fa_type f)
           (case fa_dirty f of
              Some (dirty, block) \<Rightarrow> if dirty = sector then block else content (fa_device f) (fa_start f + sector)
            | None \<Rightarrow> content (fa_device f) (fa_start f + sector)) at))"

definition fat_step :: "('d \<Rightarrow> lba \<Rightarrow> block) \<Rightarrow> 'd fat \<Rightarrow> nat \<Rightarrow> (nat option, 'e fat_error) result" where
  "fat_step content f n =
     (let v = fat_value content f n
      in if v \<ge> chain_end (fa_type f) then Ok None else if v = chain_bad (fa_type f) then Err (BadCluster n) else Ok (Some v))"

definition coherent :: "('d \<Rightarrow> lba \<Rightarrow> block) \<Rightarrow> 'd fat \<Rightarrow> bool" where
  "coherent content f \<longleftrightarrow> (\<forall>sector block. fa_cache f = Some (sector, block) \<longrightarrow> block = content (fa_device f) (fa_start f + sector))"

definition same_volume :: "('d \<Rightarrow> lba \<Rightarrow> block) \<Rightarrow> 'd fat \<Rightarrow> 'd fat \<Rightarrow> bool" where
  \<comment> \<open>reading changed nothing but the cache\<close>
  "same_volume content f f' \<longleftrightarrow>
     (\<exists>d c. f' = f\<lparr>fa_device := d, fa_cache := c\<rparr> \<and> content d = content (fa_device f)) \<and> coherent content f'"

lemma same_volume_fields:
  assumes "same_volume content f f'"
  shows "fa_start f' = fa_start f" "fa_type f' = fa_type f" "fa_spc f' = fa_spc f" "fa_cluster_count f' = fa_cluster_count f"
    "fa_root f' = fa_root f" "fa_data_start f' = fa_data_start f" "fa_dirty f' = fa_dirty f" "fa_fat_start f' = fa_fat_start f"
    "fa_fat_count f' = fa_fat_count f" "fa_fat_size f' = fa_fat_size f" "fa_next_free f' = fa_next_free f"
    "fa_free_count f' = fa_free_count f" "fa_fsinfo f' = fa_fsinfo f" "fa_stamp f' = fa_stamp f"
    "content (fa_device f') = content (fa_device f)" "coherent content f'"
  using assms by (auto simp: same_volume_def)

lemma first_sector_add: "2 \<le> c \<Longrightarrow> first_sector f (c + n) = first_sector f c + n * fa_spc f"
  by (simp add: first_sector_def add_mult_distrib flip: Nat.add_diff_assoc2)

lemma same_volume_refl: "coherent content f \<Longrightarrow> same_volume content f f"
  unfolding same_volume_def by (intro conjI exI [of _ "fa_device f"] exI [of _ "fa_cache f"]) simp_all

lemma same_volume_device:
  "coherent content f \<Longrightarrow> content d = content (fa_device f) \<Longrightarrow> same_volume content f (f\<lparr>fa_device := d\<rparr>)"
  unfolding same_volume_def by (intro conjI exI [of _ d] exI [of _ "fa_cache f"]) (simp_all add: coherent_def)

lemma same_volume_cached:
  "content d = content (fa_device f) \<Longrightarrow> block = content d (fa_start f + sector) \<Longrightarrow>
   same_volume content f (f\<lparr>fa_device := d, fa_cache := Some (sector, block)\<rparr>)"
  unfolding same_volume_def by (intro conjI exI [of _ d] exI [of _ "Some (sector, block)"]) (simp_all add: coherent_def)

lemma same_volume_trans: "same_volume content f f' \<Longrightarrow> same_volume content f' f'' \<Longrightarrow> same_volume content f f''"
proof -
  assume "same_volume content f f'" "same_volume content f' f''"
  then obtain d c d' c' where s: "f' = f\<lparr>fa_device := d, fa_cache := c\<rparr>" "content d = content (fa_device f)"
      "f'' = f'\<lparr>fa_device := d', fa_cache := c'\<rparr>" "content d' = content (fa_device f')" "coherent content f''"
    unfolding same_volume_def by blast
  show "same_volume content f f''"
    unfolding same_volume_def using s by (intro conjI exI [of _ d'] exI [of _ c']) simp_all
qed

lemma same_volume_views:
  assumes "same_volume content f f'"
  shows "fat_value content f' = fat_value content f" "fat_step content f' = fat_step content f" "cluster_ok f' = cluster_ok f"
    "first_sector f' = first_sector f" "cluster_size f' = cluster_size f" "fat_position f' = fat_position f"
proof -
  show pos: "fat_position f' = fat_position f" by (simp add: fun_eq_iff fat_position_def same_volume_fields [OF assms])
  then show v: "fat_value content f' = fat_value content f" unfolding fat_value_def [abs_def] by (simp only: same_volume_fields [OF assms])
  then show "fat_step content f' = fat_step content f" by (auto simp: fun_eq_iff fat_step_def Let_def same_volume_fields [OF assms])
  show "cluster_ok f' = cluster_ok f" "first_sector f' = first_sector f" "cluster_size f' = cluster_size f"
    by (simp_all add: fun_eq_iff cluster_ok_def first_sector_def cluster_size_def same_volume_fields [OF assms])
qed

subsection \<open>Reading cluster by cluster\<close>

definition cluster_data :: "('d \<Rightarrow> lba \<Rightarrow> block) \<Rightarrow> 'd fat \<Rightarrow> nat \<Rightarrow> byte list" where
  "cluster_data content f c = concat (map (\<lambda>i. content (fa_device f) (fa_start f + (first_sector f c + i))) [0..<fa_spc f])"

fun chain_walk :: "('d \<Rightarrow> lba \<Rightarrow> block) \<Rightarrow> 'd fat \<Rightarrow> nat option \<Rightarrow> nat \<Rightarrow> nat option \<Rightarrow> nat \<Rightarrow> (nat list, 'e fat_error) result" where
  \<comment> \<open>the clusters from a place in a chain on, when \<open>got\<close> bytes are already read and \<open>fuel\<close> clusters may still follow\<close>
  "chain_walk content f limit fuel None got = Ok []"
| "chain_walk content f limit fuel (Some c) got =
     (if covered limit got then Ok []
      else if \<not> cluster_ok f c then Err (BadCluster c)
      else case fuel of
             0 \<Rightarrow> Err ChainLoop
           | Suc fuel' \<Rightarrow>
               (case fat_step content f c of
                  Err e \<Rightarrow> Err e
                | Ok nxt \<Rightarrow> map_result ((#) c) id (chain_walk content f limit fuel' nxt (got + cluster_size f))))"

definition chain_contents :: "('d \<Rightarrow> lba \<Rightarrow> block) \<Rightarrow> 'd fat \<Rightarrow> nat \<Rightarrow> nat option \<Rightarrow> (byte list, 'e fat_error) result" where
  "chain_contents content f first limit =
     (if limit = Some 0 then Ok []
      else case chain_walk content f limit (fa_cluster_count f) (Some first) 0 of
             Err e \<Rightarrow> Err e
           | Ok cs \<Rightarrow>
               let bytes = concat (map (cluster_data content f) cs)
               in case limit of
                    None \<Rightarrow> Ok bytes
                  | Some n \<Rightarrow> if length bytes < n then Err FileTruncated else Ok (take n bytes))"

lemma map_result_Cons_append: "map_result ((#) x) id (map_result ((@) xs) id r) = map_result ((@) (x # xs)) id r"
  by (cases r) simp_all

lemma map_result_Cons: "map_result ((#) x) id r = map_result ((@) [x]) id r"
  by (cases r) simp_all

lemma same_volume_walk:
  assumes "same_volume content f f'"
  shows "chain_walk content f' = chain_walk content f" "cluster_data content f' = cluster_data content f"
proof -
  have "chain_walk content f' limit fuel c got = chain_walk content f limit fuel c got" for limit fuel c got
  proof (induction fuel arbitrary: c got)
    case 0
    show ?case by (cases c) (simp_all add: same_volume_views [OF assms])
  next
    case (Suc fuel)
    then show ?case by (cases c) (simp_all add: same_volume_views [OF assms] split: result.split)
  qed
  then show "chain_walk content f' = chain_walk content f" by (intro ext)
  show "cluster_data content f' = cluster_data content f"
    by (simp add: fun_eq_iff cluster_data_def same_volume_fields [OF assms] same_volume_views [OF assms])
qed

declare chain_walk.simps(2) [simp del]

abbreviation device_error :: "('a, 'e fat_error) result \<Rightarrow> bool" where
  "device_error r \<equiv> \<exists>e. r = Err (Device e)"

lemma map_add_const_upt: "map (\<lambda>i. k + i) [0..<n] = [k..<k + n]"
  by (induction n) simp_all

context readable_device
begin

lemma fat_entry_view:
  assumes coh: "coherent content f" and run: "fat_entry dev n f = (r, f')"
  shows "same_volume content f f'" "device_error r \<or> r = Ok (fat_value content f n)"
proof -
  obtain sector at where pos: "fat_position f n = (sector, at)" by fastforce
  define val where "val = (\<lambda>block. unat (fat_decode (fa_type f) block at))"
  define from_cache where "from_cache = (case fa_cache f of Some (cached, block) \<Rightarrow> if cached = sector then Some (val block) else None | None \<Rightarrow> None)"
  define known where "known = (case fa_dirty f of Some (dirty, block) \<Rightarrow> if dirty = sector then Some (val block) else from_cache | None \<Rightarrow> from_cache)"
  have run': "(case known of Some v \<Rightarrow> (Ok v, f)
         | None \<Rightarrow> (case on_device (dv_read dev (lba_offset (fa_start f) sector)) f of
                (Err e, f') \<Rightarrow> (Err e, f')
              | (Ok block, f') \<Rightarrow> (Ok (val block), f'\<lparr>fa_cache := Some (sector, block)\<rparr>))) = (r, f')"
    using run unfolding fat_entry_def pos known_def from_cache_def val_def by (simp add: Let_def)
  have view: "fat_value content f n = val (case fa_dirty f of
              Some (dirty, block) \<Rightarrow> if dirty = sector then block else content (fa_device f) (fa_start f + sector)
            | None \<Rightarrow> content (fa_device f) (fa_start f + sector))"
    by (simp add: fat_value_def pos val_def)
  have cached: "v = val (content (fa_device f) (fa_start f + sector))" if "from_cache = Some v" for v
    using that coh by (auto simp: from_cache_def coherent_def split: option.splits if_splits)
  have "same_volume content f f' \<and> (device_error r \<or> r = Ok (fat_value content f n))"
  proof (cases known)
    case (Some v)
    then have "v = fat_value content f n" unfolding view using cached by (auto simp: known_def split: option.splits if_splits)
    then show "same_volume content f f' \<and> (device_error r \<or> r = Ok (fat_value content f n))"
      using run' Some same_volume_refl [OF coh] by auto
  next
    case None
    obtain q d where q: "dv_read dev (fa_start f + sector) (fa_device f) = (q, d)" by fastforce
    note rd = read1 [OF q]
    have disk: "fat_value content f n = val (content (fa_device f) (fa_start f + sector))"
      using None unfolding view known_def by (auto split: option.splits if_splits)
    show "same_volume content f f' \<and> (device_error r \<or> r = Ok (fat_value content f n))"
      using run' None q rd coh disk
      by (auto simp: on_device_def lba_offset_def same_volume_cached same_volume_device split: result.splits)
  qed
  then show "same_volume content f f'" "device_error r \<or> r = Ok (fat_value content f n)" by blast+
qed

lemma fat_next_view:
  assumes coh: "coherent content f" and run: "fat_next dev n f = (r, f')"
  shows "same_volume content f f'" "device_error r \<or> r = fat_step content f n"
proof -
  obtain q f1 where q: "fat_entry dev n f = (q, f1)" by fastforce
  note v = fat_entry_view [OF coh q]
  have "same_volume content f f' \<and> (device_error r \<or> r = fat_step content f n)"
    using run v by (cases q) (auto simp: fat_next_def fbind_def q fat_step_def Let_def split: if_splits)
  then show "same_volume content f f'" "device_error r \<or> r = fat_step content f n" by blast+
qed

lemma read_sectors_view:
  assumes coh: "coherent content f" and run: "read_sectors dev s n f = (r, f')"
  shows "same_volume content f f'"
    "device_error r \<or> r = Ok (concat (map (\<lambda>i. content (fa_device f) (fa_start f + (s + i))) [0..<n]))"
proof -
  obtain q d where q: "dv_read_blocks dev (fa_start f + s) n (fa_device f) = (q, d)" by fastforce
  note rd = read_many [OF q]
  show "same_volume content f f'"
    using run q rd coh by (auto simp: read_sectors_def fbind_def on_device_def lba_offset_def same_volume_device split: result.splits)
  show "device_error r \<or> r = Ok (concat (map (\<lambda>i. content (fa_device f) (fa_start f + (s + i))) [0..<n]))"
    using run q rd by (auto simp: read_sectors_def fbind_def on_device_def lba_offset_def add.assoc split: result.splits)
qed

text \<open>A run of consecutive clusters is that many steps of the walk.\<close>

definition run_agrees :: "'d fat \<Rightarrow> nat option \<Rightarrow> nat \<Rightarrow> nat \<Rightarrow> nat \<Rightarrow> nat \<Rightarrow> (nat \<times> nat option \<times> nat, 'e fat_error) result \<Rightarrow> bool" where
  "run_agrees f limit got run current steps r \<longleftrightarrow>
     (case r of
        Err e \<Rightarrow> (\<exists>x. e = Device x) \<or> chain_walk content f limit (fa_cluster_count f - steps) (Some current) (got + run * cluster_size f) = Err e
      | Ok (run', cluster, steps') \<Rightarrow> run < run' \<and> steps' = steps + (run' - run) \<and> steps' \<le> fa_cluster_count f \<and> cluster_ok f current \<and>
          (chain_walk content f limit (fa_cluster_count f - steps) (Some current) (got + run * cluster_size f) :: (nat list, 'e fat_error) result)
          = map_result ((@) [current..<current + (run' - run)]) id
              (chain_walk content f limit (fa_cluster_count f - steps') cluster (got + run' * cluster_size f)))"

lemma run_agrees_step:
  assumes "\<not> covered limit (got + run * cluster_size f)" "cluster_ok f current" "steps < fa_cluster_count f"
    "fat_step content f current = (Ok (Some (current + 1)) :: (nat option, 'e fat_error) result)"
    "run_agrees f limit got (run + 1) (current + 1) (steps + 1) r"
  shows "run_agrees f limit got run current steps r"
proof -
  have fuel: "fa_cluster_count f - steps = Suc (fa_cluster_count f - (steps + 1))" using assms(3) by simp
  have step: "(chain_walk content f limit (fa_cluster_count f - steps) (Some current) (got + run * cluster_size f) :: (nat list, 'e fat_error) result)
      = map_result ((#) current) id
          (chain_walk content f limit (fa_cluster_count f - (steps + 1)) (Some (current + 1)) (got + (run + 1) * cluster_size f))"
    unfolding fuel using assms(1,2,4) by (simp add: algebra_simps chain_walk.simps)
  show ?thesis
  proof (cases r)
    case (Err e)
    then show ?thesis using assms(5) step by (auto simp: run_agrees_def)
  next
    case (Ok v)
    obtain run' cluster steps' where v: "v = (run', cluster, steps')" by (cases v)
    have a: "run + 1 < run'" "steps' = steps + 1 + (run' - (run + 1))" "steps' \<le> fa_cluster_count f"
      and b: "(chain_walk content f limit (fa_cluster_count f - (steps + 1)) (Some (current + 1)) (got + (run + 1) * cluster_size f) :: (nat list, 'e fat_error) result)
          = map_result ((@) [current + 1..<current + 1 + (run' - (run + 1))]) id
              (chain_walk content f limit (fa_cluster_count f - steps') cluster (got + run' * cluster_size f))"
      using assms(5) unfolding run_agrees_def Ok v result.case prod.case by blast+
    have len: "[current..<current + (run' - run)] = current # [current + 1..<current + 1 + (run' - (run + 1))]"
    proof -
      have "current + (run' - run) = current + 1 + (run' - (run + 1))" "current < current + (run' - run)" using a(1) by linarith+
      then show ?thesis by (metis Suc_eq_plus1 upt_conv_Cons)
    qed
    have "(chain_walk content f limit (fa_cluster_count f - steps) (Some current) (got + run * cluster_size f) :: (nat list, 'e fat_error) result)
          = map_result ((@) [current..<current + (run' - run)]) id
              (chain_walk content f limit (fa_cluster_count f - steps') cluster (got + run' * cluster_size f))"
      unfolding step b len by (rule map_result_Cons_append)
    then show ?thesis using a assms(2) unfolding run_agrees_def Ok v by auto
  qed
qed

lemma read_run_walk:
  assumes "coherent content f" "read_run dev (fa_cluster_count f) max_run limit got (cluster_size f) run current steps f = (r, f')"
    "\<not> covered limit (got + run * cluster_size f)"
  shows "same_volume content f f' \<and> run_agrees f limit got run current steps r"
  using assms
proof (induction "fa_cluster_count f - steps" arbitrary: run current steps f rule: less_induct)
  case less
  note unfold = read_run.simps [of dev "fa_cluster_count f" max_run limit got "cluster_size f" run current steps f]
  note nocov = less.prems(3)
  show ?case
  proof (cases "cluster_ok f current \<and> steps < fa_cluster_count f")
    case False
    then show ?thesis using less.prems nocov
      by (auto simp: unfold run_agrees_def same_volume_refl not_less chain_walk.simps split: if_splits)
  next
    case True
    then have fuel: "fa_cluster_count f - steps = Suc (fa_cluster_count f - (steps + 1))" by linarith
    obtain q f1 where q: "fat_next dev current f = (q, f1)" by fastforce
    note v = fat_next_view [OF less.prems(1) q]
    note same = same_volume_fields(4) [OF v(1)] same_volume_views [OF v(1)] same_volume_walk [OF v(1)]
    show ?thesis
    proof (cases q)
      case (Err e)
      then have "r = Err e" "f' = f1" using less.prems(2) True q by (auto simp: unfold)
      then show ?thesis using True v nocov Err by (auto simp: run_agrees_def fuel chain_walk.simps split: result.split dest: sym)
    next
      case (Ok nxt)
      then have step: "fat_step content f current = (Ok nxt :: (nat option, 'e fat_error) result)" using v(2) by auto
      define go where "go = (case nxt of Some n \<Rightarrow> n = current + 1 \<and> run + 1 < max_run \<and> \<not> covered limit (got + (run + 1) * cluster_size f) | None \<Rightarrow> False)"
      have run: "(if go then read_run dev (fa_cluster_count f) max_run limit got (cluster_size f) (run + 1) (the nxt) (steps + 1) f1
                  else (Ok (run + 1, nxt, steps + 1), f1)) = (r, f')"
        using less.prems(2) True q Ok unfolding unfold go_def by simp
      show ?thesis
      proof (cases go)
        case go: True
        then have nxt: "nxt = Some (current + 1)" "\<not> covered limit (got + (run + 1) * cluster_size f1)"
          using same by (auto simp: go_def split: option.splits)
        have "same_volume content f1 f' \<and> run_agrees f1 limit got (run + 1) (current + 1) (steps + 1) r"
          using less.hyps [of f1 "steps + 1" "run + 1" "current + 1"] run go nxt same same_volume_fields(16) [OF v(1)]
            fuel by (simp add: nxt)
        moreover from this have "run_agrees f limit got run current steps r"
          using run_agrees_step step nxt \<open>cluster_ok f current \<and> steps < fa_cluster_count f\<close> nocov
          unfolding run_agrees_def same by auto
        ultimately show ?thesis using same_volume_trans [OF v(1)] by blast
      next
        case False
        then have "r = Ok (run + 1, nxt, steps + 1)" "f' = f1" using run by auto
        then show ?thesis using v(1) step True nocov fuel by (simp add: run_agrees_def algebra_simps chain_walk.simps map_result_Cons)
      qed
    qed
  qed
qed

text \<open>The data of a run is the data of its clusters, one after the other.\<close>

lemma run_data:
  assumes "2 \<le> start"
  shows "concat (map (\<lambda>i. content (fa_device f) (fa_start f + (first_sector f start + i))) [0..<n * fa_spc f])
    = concat (map (cluster_data content f) [start..<start + n])"
proof (induction n)
  case (Suc n)
  have "first_sector f (start + n) = first_sector f start + n * fa_spc f" using assms by (rule first_sector_add)
  moreover have "[0..<Suc n * fa_spc f] = [0..<n * fa_spc f] @ map (\<lambda>i. n * fa_spc f + i) [0..<fa_spc f]"
  proof -
    have "Suc n * fa_spc f = n * fa_spc f + fa_spc f" by simp
    then show ?thesis unfolding map_add_const_upt by (metis upt_add_eq_append zero_le)
  qed
  ultimately show ?case using Suc by (simp add: cluster_data_def comp_def add.assoc)
qed simp

lemma cluster_data_length: "length (cluster_data content f c) = cluster_size f"
  by (simp add: cluster_data_def length_concat comp_def block_length cluster_size_def sum_list_triv)

lemma clusters_data_length: "length (concat (map (cluster_data content f) cs)) = length cs * cluster_size f"
  by (induction cs) (simp_all add: cluster_data_length)

lemma read_loop_walk:
  assumes "coherent content f" "read_loop dev (fa_cluster_count f) max_run limit (cluster_size f) cluster steps bytes f = (r, f')"
  shows "same_volume content f f' \<and> (device_error r \<or>
    r = map_result (\<lambda>cs. bytes @ concat (map (cluster_data content f) cs)) id
          (chain_walk content f limit (fa_cluster_count f - steps) cluster (length bytes)))"
  using assms
proof (induction "fa_cluster_count f - steps" arbitrary: cluster steps bytes f rule: less_induct)
  case less
  note unfold = read_loop.simps [of dev "fa_cluster_count f" max_run limit "cluster_size f" cluster steps bytes f]
  show ?case
  proof (cases "cluster = None \<or> covered limit (length bytes)")
    case True
    then have "r = Ok bytes \<and> f' = f" using less.prems(2) unfolding unfold by (auto split: option.splits)
    then show ?thesis using True less.prems(1) by (cases cluster) (auto simp: same_volume_refl chain_walk.simps)
  next
    case False
    then obtain start where start: "cluster = Some start" and nocov: "\<not> covered limit (length bytes)" by auto
    obtain q f1 where q: "read_run dev (fa_cluster_count f) max_run limit (length bytes) (cluster_size f) 0 start steps f = (q, f1)" by fastforce
    from read_run_walk [OF less.prems(1) q] nocov have s1: "same_volume content f f1" and ra: "run_agrees f limit (length bytes) 0 start steps q" by simp_all
    note same1 = same_volume_fields [OF s1] same_volume_views [OF s1] same_volume_walk [OF s1]
    show ?thesis
    proof (cases q)
      case (Err e)
      then have "r = Err e" "f' = f1" using less.prems(2) nocov q unfolding unfold unfolding start by auto
      then show ?thesis using s1 ra Err start unfolding run_agrees_def by auto
    next
      case (Ok v)
      obtain run cluster' steps' where v: "v = (run, cluster', steps')" by (cases v)
      have a: "0 < run" "steps' = steps + run" "steps' \<le> fa_cluster_count f" "cluster_ok f start"
        and walk: "(chain_walk content f limit (fa_cluster_count f - steps) (Some start) (length bytes) :: (nat list, 'e fat_error) result)
          = map_result ((@) [start..<start + run]) id (chain_walk content f limit (fa_cluster_count f - steps') cluster' (length bytes + run * cluster_size f))"
        using ra unfolding run_agrees_def Ok v by simp_all
      obtain p f2 where p: "read_sectors dev (first_sector f1 start) (run * fa_spc f1) f1 = (p, f2)" by fastforce
      note rs = read_sectors_view [OF same1(16) p]
      have s2: "same_volume content f f2" using same_volume_trans [OF s1 rs(1)] .
      note same2 = same_volume_fields [OF s2] same_volume_views [OF s2] same_volume_walk [OF s2]
      show ?thesis
      proof (cases p)
        case (Err e)
        then have "r = Err e" "f' = f2" using less.prems(2) nocov q Ok v p unfolding unfold unfolding start by auto
        then show ?thesis using s2 rs Err by auto
      next
        case Okp: (Ok data)
        have "2 \<le> start" using a(4) by (simp add: cluster_ok_def)
        then have data: "data = concat (map (cluster_data content f) [start..<start + run])"
          using rs(2) Okp run_data [of start f run] by (simp add: same1)
        then have len: "length (bytes @ data) = length bytes + run * cluster_size f" by (simp add: clusters_data_length)
        have "read_loop dev (fa_cluster_count f2) max_run limit (cluster_size f2) cluster' steps' (bytes @ data) f2 = (r, f')"
          using less.prems(2) nocov q Ok v p Okp unfolding unfold unfolding start by (simp add: same2)
        then have "same_volume content f2 f' \<and> (device_error r \<or>
            r = map_result (\<lambda>cs. (bytes @ data) @ concat (map (cluster_data content f) cs)) id
                  (chain_walk content f limit (fa_cluster_count f - steps') cluster' (length bytes + run * cluster_size f)))"
          using less.hyps [of f2 steps' cluster' "bytes @ data"] a len by (simp add: same2)
        then show ?thesis using same_volume_trans [OF s2] start walk data
          by (auto simp: result.map_comp comp_def id_def)
      qed
    qed
  qed
qed

lemma read_chain_walk:
  assumes coh: "coherent content f" and run: "read_chain dev first limit f = (r, f')"
  shows "same_volume content f f' \<and> (device_error r \<or> r = chain_contents content f first limit)"
proof (cases "limit = Some 0")
  case True
  then show ?thesis using run coh by (simp add: read_chain_def chain_contents_def same_volume_refl)
next
  case False
  obtain q f1 where q: "read_loop dev (fa_cluster_count f) (max (MAX_RUN_SECTORS div fa_spc f) 1) limit (cluster_size f) (Some first) 0 [] f = (q, f1)"
    by fastforce
  from read_loop_walk [OF coh q] have "same_volume content f f1"
    and w: "device_error q \<or> q = map_result (\<lambda>cs. concat (map (cluster_data content f) cs)) id
        (chain_walk content f limit (fa_cluster_count f) (Some first) 0)" by simp_all
  moreover have "f' = f1" using run q False by (auto simp: read_chain_def fbind_def split: result.splits option.splits if_splits)
  moreover have "device_error r \<or> r = chain_contents content f first limit"
  proof (cases "chain_walk content f limit (fa_cluster_count f) (Some first) 0 :: (nat list, 'e fat_error) result")
    case (Ok cs)
    then show ?thesis using run q False w by (auto simp: read_chain_def fbind_def chain_contents_def Let_def split: option.splits)
  next
    case (Err e)
    then show ?thesis using run q False w by (auto simp: read_chain_def fbind_def chain_contents_def)
  qed
  ultimately show ?thesis by blast
qed

end

end
