(* ===== verification/Fat_Write.thy ===== *)
theory Fat_Write
  imports Fat_Model Time
begin

text \<open>
  Changing a FAT volume, \<open>rustypi-core/src/fat/write.rs\<close>: creating, replacing and removing files and directories.
  The FAT is changed in one pending sector (\<open>fa_dirty\<close>), written to every copy when another sector is needed
  or the change is complete.
\<close>

subsection \<open>Names\<close>

definition ATTR_ARCHIVE :: byte where "ATTR_ARCHIVE = 0x20"
definition MAX_NAME :: nat where "MAX_NAME = 255"
definition FORBIDDEN :: ustr where "FORBIDDEN = 0x22 # ustr ''*/:<>?'' @ [0x5C] @ ustr ''|''"
definition SHORT_EXTRA :: ustr where "SHORT_EXTRA = ustr ''!#$%&'' @ [0x27] @ ustr ''()-@^_'' @ [0x60] @ ustr ''{}~''"
definition FSINFO_LEAD :: u32 where "FSINFO_LEAD = 0x41615252"
definition FSINFO_STRUCT :: u32 where "FSINFO_STRUCT = 0x61417272"

definition uends_with :: "codepoint \<Rightarrow> ustr \<Rightarrow> bool" where
  "uends_with c s \<longleftrightarrow> s \<noteq> [] \<and> last s = c"

definition check_name :: "ustr \<Rightarrow> (unit, 'e fat_error) result" where
  "check_name name =
     (let bad = name = [] \<or> length (encode_utf16 name) > MAX_NAME \<or> name = ustr ''.'' \<or> name = ustr ''..''
            \<or> uends_with 0x20 name \<or> uends_with 0x2E name \<or> (\<exists>c \<in> set name. c < 0x20 \<or> c \<in> set FORBIDDEN)
      in if bad then Err InvalidName else Ok ())"

definition split_path :: "ustr \<Rightarrow> ustr \<times> ustr" where
  "split_path path =
     (let path = trim_end_matches 0x2F path
      in case ursplit_once 0x2F path of Some x \<Rightarrow> x | None \<Rightarrow> ([], path))"

definition is_ascii_lowercase :: "codepoint \<Rightarrow> bool" where "is_ascii_lowercase c \<longleftrightarrow> 97 \<le> c \<and> c \<le> 122"
definition is_ascii_uppercase :: "codepoint \<Rightarrow> bool" where "is_ascii_uppercase c \<longleftrightarrow> 65 \<le> c \<and> c \<le> 90"
definition is_ascii_digit :: "codepoint \<Rightarrow> bool" where "is_ascii_digit c \<longleftrightarrow> 48 \<le> c \<and> c \<le> 57"

definition to_ascii_uppercase :: "codepoint \<Rightarrow> codepoint" where
  "to_ascii_uppercase c = (if is_ascii_lowercase c then c - 32 else c)"

definition is_short_char :: "codepoint \<Rightarrow> bool" where
  "is_short_char c \<longleftrightarrow> is_ascii_lowercase c \<or> is_ascii_uppercase c \<or> is_ascii_digit c \<or> c \<in> set SHORT_EXTRA"

definition ulen :: "ustr \<Rightarrow> nat" where
  \<comment> \<open>\<open>str::len\<close>, in bytes\<close>
  "ulen s = sum_list (map len_utf8 s)"

definition part_case :: "ustr \<Rightarrow> bool option" where
  "part_case part =
     (let lower = \<exists>c \<in> set part. is_ascii_lowercase c; upper = \<exists>c \<in> set part. is_ascii_uppercase c
      in if (\<forall>c \<in> set part. is_short_char c) \<and> \<not> (lower \<and> upper) then Some lower else None)"

definition uppercase_bytes :: "ustr \<Rightarrow> byte list" where
  \<comment> \<open>\<open>to_ascii_uppercase().as_bytes()\<close>, of an ASCII string\<close>
  "uppercase_bytes s = map (\<lambda>c. of_nat (to_ascii_uppercase c)) s"

definition exact_short_name :: "ustr \<Rightarrow> (byte list \<times> byte) option" where
  "exact_short_name name =
     (let (base, ext) = (case usplit_once 0x2E name of Some x \<Rightarrow> x | None \<Rightarrow> (name, []))
      in if base = [] \<or> ulen base > 8 \<or> ulen ext > 3 \<or> 0x2E \<in> set ext then None
         else case part_case base of
                None \<Rightarrow> None
              | Some base_lower \<Rightarrow>
                  (case part_case ext of
                     None \<Rightarrow> None
                   | Some ext_lower \<Rightarrow>
                       let short = overwrite 8 (uppercase_bytes ext) (overwrite 0 (uppercase_bytes base) (replicate 11 0x20));
                           flags = (if base_lower then CASE_LOWER_BASE else 0) OR (if ext_lower then CASE_LOWER_EXT else 0)
                       in Some (short, flags)))"

definition clean_part :: "ustr \<Rightarrow> nat \<Rightarrow> byte list" where
  "clean_part part n =
     take n (map (\<lambda>c. if is_short_char c then of_nat (to_ascii_uppercase c) else 0x5F) (filter (\<lambda>c. c \<noteq> 0x20 \<and> c \<noteq> 0x2E) part))"

definition alias_try :: "byte list \<Rightarrow> byte list \<Rightarrow> nat \<Rightarrow> byte list option" where
  \<comment> \<open>the alias with number \<open>n\<close>; \<open>8 - tail.len()\<close> overflows when the number has no room\<close>
  "alias_try basis ext n =
     (let tail = ascii ''~'' @ dec n
      in if length tail > 8 then None
         else let keep = min (length basis) (8 - length tail);
                  short = overwrite 8 ext (replicate 11 0x20)
              in Some (overwrite keep tail (overwrite 0 (take keep basis) short)))"

fun alias_loop :: "nat \<Rightarrow> byte list \<Rightarrow> byte list \<Rightarrow> byte list list \<Rightarrow> nat \<Rightarrow> byte list option" where
  \<comment> \<open>\<open>for n in 1u32..\<close>, with the number of names taken as fuel\<close>
  "alias_loop 0 basis ext taken n = None"
| "alias_loop (Suc fuel) basis ext taken n =
     (case alias_try basis ext n of
        None \<Rightarrow> None
      | Some short \<Rightarrow> if short \<in> set taken then alias_loop fuel basis ext taken (n + 1) else Some short)"

definition alias_name :: "ustr \<Rightarrow> byte list list \<Rightarrow> byte list option" where
  "alias_name name taken =
     (let trimmed = trim_start_matches 0x2E name;
          (base, ext) = (case ursplit_once 0x2E trimmed of Some x \<Rightarrow> x | None \<Rightarrow> (trimmed, []));
          basis = clean_part base 6;
          basis = (if basis = [] then [0x5F] else basis)
      in alias_loop (length taken + 1) basis (clean_part ext 3) taken 1)"

subsection \<open>Directory entries\<close>

definition set_modified :: "u16 \<times> u16 \<Rightarrow> byte list \<Rightarrow> byte list" where
  "set_modified stamp entry = overwrite 24 (to_le 2 (fst stamp)) (overwrite 22 (to_le 2 (snd stamp)) entry)"

definition set_cluster_and_size :: "u32 \<Rightarrow> u32 \<Rightarrow> byte list \<Rightarrow> byte list" where
  "set_cluster_and_size cluster len entry =
     overwrite 28 (to_le 4 len)
       (overwrite 26 (to_le 2 (ucast cluster :: u16))
         (overwrite 20 (to_le 2 (ucast (drop_bit 16 cluster) :: u16)) entry))"

definition short_entry :: "byte list \<Rightarrow> byte \<Rightarrow> byte \<Rightarrow> u32 \<Rightarrow> u32 \<Rightarrow> u16 \<times> u16 \<Rightarrow> byte list" where
  "short_entry short cases attr cluster len stamp =
     (let (date, time) = stamp;
          entry = overwrite 0 short (replicate DIR_ENTRY_SIZE 0);
          entry = entry[11 := attr];
          entry = entry[12 := cases];
          entry = overwrite 14 (to_le 2 time) entry;
          entry = overwrite 16 (to_le 2 date) entry;
          entry = overwrite 18 (to_le 2 date) entry
      in set_cluster_and_size cluster len (set_modified stamp entry))"

definition long_units :: "ustr \<Rightarrow> nat \<times> nat list" where
  \<comment> \<open>the pieces of a long name and its padded units\<close>
  "long_units name =
     (let units = encode_utf16 name;
          pieces = (length units + LFN_CHARS - 1) div LFN_CHARS;
          units = (if length units mod LFN_CHARS \<noteq> 0 then units @ [0] else units)
      in (pieces, units @ replicate (pieces * LFN_CHARS - length units) 0xFFFF))"

definition long_entry :: "u8 \<Rightarrow> nat \<Rightarrow> nat list \<Rightarrow> nat \<Rightarrow> byte list" where
  "long_entry checksum pieces units seq =
     (let entry = replicate DIR_ENTRY_SIZE 0;
          entry = entry[0 := of_nat seq OR (if seq = pieces then LFN_LAST else 0)];
          entry = entry[11 := ATTR_LONG_NAME];
          entry = entry[13 := checksum];
          chars = slice ((seq - 1) * LFN_CHARS) (seq * LFN_CHARS) units
      in fold (\<lambda>(unit, at) entry. overwrite at (to_le 2 (of_nat unit :: u16)) entry) (zip chars LFN_OFFSETS) entry)"

definition long_entries :: "ustr \<Rightarrow> byte list \<Rightarrow> byte list list" where
  "long_entries name short =
     (let (pieces, units) = long_units name
      in map (long_entry (short_name_checksum short) pieces units) (rev [1..<pieces + 1]))"

record dir_image =
  di_sectors :: "nat list"
  di_bytes :: "byte list"

definition image_slots :: "dir_image \<Rightarrow> nat" where
  "image_slots img = length (di_bytes img) div DIR_ENTRY_SIZE"

definition set_slot :: "nat \<Rightarrow> byte list \<Rightarrow> dir_image \<Rightarrow> dir_image" where
  \<comment> \<open>\<open>image.entry(index).copy_from_slice(entry)\<close>\<close>
  "set_slot index entry img = img\<lparr>di_bytes := overwrite (index * DIR_ENTRY_SIZE) entry (di_bytes img)\<rparr>"

definition get_slot :: "nat \<Rightarrow> dir_image \<Rightarrow> byte list" where
  "get_slot index img = slice (index * DIR_ENTRY_SIZE) ((index + 1) * DIR_ENTRY_SIZE) (di_bytes img)"

definition short_names :: "dir_image \<Rightarrow> byte list list" where
  "short_names img =
     map (take 11)
       (filter (\<lambda>entry. entry ! 0 \<noteq> ENTRY_DELETED \<and> entry ! 11 AND 0x3F \<noteq> ATTR_LONG_NAME)
         (takeWhile (\<lambda>entry. entry ! 0 \<noteq> ENTRY_END) (dir_slots (di_bytes img))))"

fun free_run_from :: "nat \<Rightarrow> nat \<Rightarrow> nat \<Rightarrow> nat \<Rightarrow> byte list list \<Rightarrow> nat option" where
  "free_run_from slots count index run [] = None"
| "free_run_from slots count index run (entry # entries) =
     (if entry ! 0 = ENTRY_END then (if index - run + count \<le> slots then Some (index - run) else None)
      else let run = (if entry ! 0 = ENTRY_DELETED then run + 1 else 0)
           in if run = count then Some (index + 1 - count) else free_run_from slots count (index + 1) run entries)"

definition free_run :: "nat \<Rightarrow> dir_image \<Rightarrow> nat option" where
  "free_run count img = free_run_from (image_slots img) count 0 0 (dir_slots (di_bytes img))"

subsection \<open>The file allocation table\<close>

fun flush_copies :: "('d, 'e) device \<Rightarrow> nat \<Rightarrow> block \<Rightarrow> nat list \<Rightarrow> (unit, 'd, 'e) fat_op" where
  "flush_copies dev sector block [] f = (Ok (), f)"
| "flush_copies dev sector block (copy # copies) f =
     fbind (on_device (dv_write dev (lba_offset (fa_start f) (sector + copy * fa_fat_size f)) block))
       (\<lambda>_. flush_copies dev sector block copies) f"

definition flush_fat :: "('d, 'e) device \<Rightarrow> (unit, 'd, 'e) fat_op" where
  "flush_fat dev f =
     (case fa_dirty f of
        None \<Rightarrow> (Ok (), f)
      | Some (sector, block) \<Rightarrow>
          fbind (flush_copies dev sector block [0..<fa_fat_count f])
            (\<lambda>_ f'. (Ok (), f'\<lparr>fa_cache := Some (sector, block)\<rparr>)) (f\<lparr>fa_dirty := None\<rparr>))"

definition encode_entry :: "fat_type \<Rightarrow> nat \<Rightarrow> nat \<Rightarrow> block \<Rightarrow> block" where
  "encode_entry t value at block =
     (case t of
        Fat16 \<Rightarrow> overwrite at (to_le 2 (of_nat value :: u16)) block
      | Fat32 \<Rightarrow>
          let kept = fu32 block at AND NOT (entry_mask t)
          in overwrite at (to_le 4 (kept OR of_nat value)) block)"

definition load_dirty :: "('d, 'e) device \<Rightarrow> nat \<Rightarrow> (unit, 'd, 'e) fat_op" where
  \<comment> \<open>makes \<open>sector\<close> the pending one, when none is\<close>
  "load_dirty dev sector f =
     (case fa_dirty f of
        Some _ \<Rightarrow> (Ok (), f)
      | None \<Rightarrow>
          let cached = fa_cache f; f = f\<lparr>fa_cache := None\<rparr>
          in case (case cached of Some (s, block) \<Rightarrow> if s = sector then Some block else None | None \<Rightarrow> None) of
               Some block \<Rightarrow> (Ok (), f\<lparr>fa_dirty := Some (sector, block)\<rparr>)
             | None \<Rightarrow>
                 fbind (on_device (dv_read dev (lba_offset (fa_start f) sector)))
                   (\<lambda>block f. (Ok (), f\<lparr>fa_dirty := Some (sector, block)\<rparr>)) f)"

definition set_fat_entry :: "('d, 'e) device \<Rightarrow> nat \<Rightarrow> nat \<Rightarrow> (unit, 'd, 'e) fat_op" where
  "set_fat_entry dev cluster value f =
     (let (sector, at) = fat_position f cluster;
          other = (case fa_dirty f of Some (dirty, _) \<Rightarrow> dirty \<noteq> sector | None \<Rightarrow> False)
      in fbind (if other then flush_fat dev else (\<lambda>f. (Ok (), f))) (\<lambda>_.
         fbind (load_dirty dev sector) (\<lambda>_ f.
           (Ok (), f\<lparr>fa_dirty := map_option (apsnd (encode_entry (fa_type f) value at)) (fa_dirty f)\<rparr>))) f)"

function fat_chain_loop :: "('d, 'e) device \<Rightarrow> nat option \<Rightarrow> nat list \<Rightarrow> (nat list, 'd, 'e) fat_op" where
  "fat_chain_loop dev cluster chain f =
     (case cluster of
        None \<Rightarrow> (Ok chain, f)
      | Some current \<Rightarrow>
          if \<not> cluster_ok f current then (Err (BadCluster current), f)
          else if length chain \<ge> fa_cluster_count f then (Err ChainLoop, f)
          else case fat_next dev current f of
                 (Err e, f') \<Rightarrow> (Err e, f')
               | (Ok cluster', f') \<Rightarrow> fat_chain_loop dev cluster' (chain @ [current]) f')"
  by pat_completeness auto
termination
proof (relation "measure (\<lambda>(dev, cluster, chain, f). fa_cluster_count f - length chain)", goal_cases)
  case (2 dev cluster chain f current r f' cluster')
  have "fa_cluster_count f' = fa_cluster_count f"
    using 2(4) [symmetric] by (auto simp: fat_next_def fat_entry_def fbind_def on_device_def Let_def split: prod.splits option.splits result.splits if_splits)
  then show ?case using 2 by simp
qed simp

declare fat_chain_loop.simps [simp del]

definition fat_chain :: "('d, 'e) device \<Rightarrow> nat \<Rightarrow> (nat list, 'd, 'e) fat_op" where
  \<comment> \<open>\<open>chain\<close>\<close>
  "fat_chain dev first = fat_chain_loop dev (Some first) []"

fun allocate_loop :: "('d, 'e) device \<Rightarrow> nat \<Rightarrow> nat \<Rightarrow> nat list \<Rightarrow> nat list \<Rightarrow> (nat list, 'd, 'e) fat_op" where
  "allocate_loop dev count start [] clusters f = (Ok clusters, f)"
| "allocate_loop dev count start (i # is) clusters f =
     (if length clusters = count then (Ok clusters, f)
      else let cluster = 2 + (start - 2 + i) mod fa_cluster_count f
           in case fat_entry dev cluster f of
                (Err e, f') \<Rightarrow> (Err e, f')
              | (Ok v, f') \<Rightarrow> allocate_loop dev count start is (if v = 0 then clusters @ [cluster] else clusters) f')"

definition allocate :: "('d, 'e) device \<Rightarrow> nat \<Rightarrow> (nat list, 'd, 'e) fat_op" where
  "allocate dev count f =
     (let cluster_total = fa_cluster_count f;
          start = max 2 (min (fa_next_free f) (cluster_total + 1))
      in fbind (allocate_loop dev count start [0..<cluster_total] []) (\<lambda>clusters f'.
           if length clusters < count then (Err NoSpace, f')
           else (Ok clusters, f'\<lparr>fa_next_free := (if clusters = [] then 2 else last clusters + 1)\<rparr>)) f)"

function run_of :: "nat list \<Rightarrow> nat \<Rightarrow> nat \<Rightarrow> nat \<Rightarrow> nat" where
  \<comment> \<open>the inner loop of \<open>write_clusters\<close>\<close>
  "run_of clusters max_run i run =
     (if i + run < length clusters \<and> clusters ! (i + run) = clusters ! i + run \<and> run < max_run
      then run_of clusters max_run i (run + 1) else run)"
  by pat_completeness auto
termination
  by (relation "measure (\<lambda>(clusters, max_run, i, run). length clusters - (i + run))") auto

declare run_of.simps [simp del]

lemma run_of_ge: "run \<le> run_of clusters max_run i run"
  by (induction clusters max_run i run rule: run_of.induct) (subst run_of.simps, auto)

definition blocks_of :: "byte list \<Rightarrow> block list" where
  \<comment> \<open>\<open>as_chunks::<BLOCK_SIZE>().0\<close>\<close>
  "blocks_of bytes = map (\<lambda>i. slice (i * BLOCK_SIZE) ((i + 1) * BLOCK_SIZE) bytes) [0..<length bytes div BLOCK_SIZE]"

function write_runs :: "('d, 'e) device \<Rightarrow> nat list \<Rightarrow> block list \<Rightarrow> nat \<Rightarrow> nat \<Rightarrow> nat \<Rightarrow> (unit, 'd, 'e) fat_op" where
  "write_runs dev clusters blocks per_cluster max_run i f =
     (if \<not> i < length clusters then (Ok (), f)
      else let run = run_of clusters max_run i 1;
               sector = first_sector f (clusters ! i)
           in case on_device (dv_write_blocks dev (lba_offset (fa_start f) sector)
                                (slice (i * per_cluster) ((i + run) * per_cluster) blocks)) f of
                (Err e, f') \<Rightarrow> (Err e, f')
              | (Ok _, f') \<Rightarrow> write_runs dev clusters blocks per_cluster max_run (i + run) f')"
  by pat_completeness auto
termination
proof (relation "measure (\<lambda>(dev, clusters, blocks, per_cluster, max_run, i, f). length clusters - i)", goal_cases)
  case (2 dev clusters blocks per_cluster max_run i f run)
  then show ?case using run_of_ge [of 1 clusters max_run i] by simp
qed simp

declare write_runs.simps [simp del]

definition write_clusters :: "('d, 'e) device \<Rightarrow> nat list \<Rightarrow> byte list \<Rightarrow> (unit, 'd, 'e) fat_op" where
  "write_clusters dev clusters data f =
     (let padded = resize (length clusters * cluster_size f) 0 data
      in write_runs dev clusters (blocks_of padded) (fa_spc f) (max (MAX_RUN_SECTORS div fa_spc f) 1) 0 f)"

fun link_loop :: "('d, 'e) device \<Rightarrow> nat list \<Rightarrow> (unit, 'd, 'e) fat_op" where
  "link_loop dev [] f = (Ok (), f)"
| "link_loop dev (cluster # clusters) f =
     fbind (set_fat_entry dev cluster (case clusters of c # _ \<Rightarrow> c | [] \<Rightarrow> unat (entry_mask (fa_type f)))) (\<lambda>_. link_loop dev clusters) f"

definition link :: "('d, 'e) device \<Rightarrow> nat list \<Rightarrow> (unit, 'd, 'e) fat_op" where
  "link dev clusters =
     fbind (link_loop dev clusters) (\<lambda>_.
     fbind (flush_fat dev) (\<lambda>_ f.
       (Ok (), f\<lparr>fa_free_count := map_option (\<lambda>free. free - of_nat (length clusters)) (fa_free_count f)\<rparr>)))"

definition write_chain :: "('d, 'e) device \<Rightarrow> byte list \<Rightarrow> (nat, 'd, 'e) fat_op" where
  "write_chain dev data f =
     (if data = [] then (Ok 0, f)
      else fbind (allocate dev ((length data + cluster_size f - 1) div cluster_size f)) (\<lambda>clusters.
           fbind (write_clusters dev clusters data) (\<lambda>_.
           fbind (link dev clusters) (\<lambda>_ f. (Ok (clusters ! 0), f)))) f)"

fun free_loop :: "('d, 'e) device \<Rightarrow> nat list \<Rightarrow> (unit, 'd, 'e) fat_op" where
  "free_loop dev [] f = (Ok (), f)"
| "free_loop dev (cluster # clusters) f = fbind (set_fat_entry dev cluster 0) (\<lambda>_. free_loop dev clusters) f"

definition free_chain :: "('d, 'e) device \<Rightarrow> nat \<Rightarrow> (unit, 'd, 'e) fat_op" where
  "free_chain dev first =
     fbind (if first = 0 then (\<lambda>f. (Ok [], f)) else fat_chain dev first) (\<lambda>chain.
     fbind (free_loop dev chain) (\<lambda>_.
     fbind (flush_fat dev) (\<lambda>_ f.
       let f = f\<lparr>fa_free_count := map_option (\<lambda>free. free + of_nat (length chain)) (fa_free_count f)\<rparr>
       in (Ok (), if chain = [] then f else f\<lparr>fa_next_free := min (fa_next_free f) (Min (set chain))\<rparr>))))"

subsection \<open>Directories\<close>

definition cluster_sectors :: "'d fat \<Rightarrow> nat \<Rightarrow> nat list" where
  "cluster_sectors f cluster = [first_sector f cluster..<first_sector f cluster + fa_spc f]"

definition dir_sectors :: "('d, 'e) device \<Rightarrow> dir \<Rightarrow> (nat list, 'd, 'e) fat_op" where
  "dir_sectors dev dir f =
     (let chained = (\<lambda>first. fbind (fat_chain dev first) (\<lambda>chain f. (Ok (concat (map (cluster_sectors f) chain)), f)))
      in case dir of
           DirChain first \<Rightarrow> chained first f
         | DirRoot \<Rightarrow>
             (case fa_root f of
                RootFixed start sectors \<Rightarrow> (Ok [start..<start + sectors], f)
              | RootChain first \<Rightarrow> chained first f))"

fun load_sectors :: "('d, 'e) device \<Rightarrow> nat list \<Rightarrow> (byte list, 'd, 'e) fat_op" where
  "load_sectors dev [] f = (Ok [], f)"
| "load_sectors dev (sector # sectors) f =
     fbind (on_device (dv_read dev (lba_offset (fa_start f) sector))) (\<lambda>block.
     fbind (load_sectors dev sectors) (\<lambda>bytes f. (Ok (block @ bytes), f))) f"

definition load_dir :: "('d, 'e) device \<Rightarrow> dir \<Rightarrow> (dir_image, 'd, 'e) fat_op" where
  "load_dir dev dir =
     fbind (dir_sectors dev dir) (\<lambda>sectors.
     fbind (load_sectors dev sectors) (\<lambda>bytes f. (Ok \<lparr>di_sectors = sectors, di_bytes = bytes\<rparr>, f)))"

fun store_sectors :: "('d, 'e) device \<Rightarrow> dir_image \<Rightarrow> nat list \<Rightarrow> (unit, 'd, 'e) fat_op" where
  "store_sectors dev img [] f = (Ok (), f)"
| "store_sectors dev img (index # indexes) f =
     fbind (on_device (dv_write dev (lba_offset (fa_start f) (di_sectors img ! index))
              (slice (index * BLOCK_SIZE) ((index + 1) * BLOCK_SIZE) (di_bytes img)))) (\<lambda>_. store_sectors dev img indexes) f"

definition store_dir :: "('d, 'e) device \<Rightarrow> dir_image \<Rightarrow> nat \<Rightarrow> nat \<Rightarrow> (unit, 'd, 'e) fat_op" where
  "store_dir dev img start stop =
     (let per_sector = BLOCK_SIZE div DIR_ENTRY_SIZE
      in store_sectors dev img [start div per_sector..<(stop + per_sector - 1) div per_sector])"

definition grow_dir :: "('d, 'e) device \<Rightarrow> dir \<Rightarrow> dir_image \<Rightarrow> nat \<Rightarrow> (nat \<times> dir_image, 'd, 'e) fat_op" where
  "grow_dir dev dir img needed f =
     (case (case dir of
              DirChain first \<Rightarrow> Some first
            | DirRoot \<Rightarrow> (case fa_root f of RootFixed _ _ \<Rightarrow> None | RootChain first \<Rightarrow> Some first)) of
        None \<Rightarrow> (Err DirectoryFull, f)
      | Some first \<Rightarrow>
          fbind (fat_chain dev first) (\<lambda>chain f.
            let stop = (case position (\<lambda>entry. entry ! 0 = ENTRY_END) (dir_slots (di_bytes img)) of
                          Some n \<Rightarrow> n | None \<Rightarrow> image_slots img);
                free_at_end = image_slots img - stop;
                per_cluster = cluster_size f div DIR_ENTRY_SIZE;
                clusters = (needed - free_at_end + per_cluster - 1) div per_cluster
            in fbind (allocate dev clusters) (\<lambda>new.
               fbind (write_clusters dev new (replicate (clusters * cluster_size f) 0)) (\<lambda>_.
               fbind (link dev new) (\<lambda>_.
               fbind (set_fat_entry dev (last chain) (new ! 0)) (\<lambda>_.
               fbind (flush_fat dev) (\<lambda>_ f.
                 let sectors = di_sectors img @ concat (map (cluster_sectors f) new)
                 in (Ok (stop, \<lparr>di_sectors = sectors, di_bytes = resize (length sectors * BLOCK_SIZE) 0 (di_bytes img)\<rparr>), f)))))) f) f)"

definition new_entries :: "'d fat \<Rightarrow> dir_image \<Rightarrow> ustr \<Rightarrow> byte \<Rightarrow> nat \<Rightarrow> nat \<Rightarrow> byte list list option" where
  \<comment> \<open>the first half of \<open>add_entry\<close>; \<open>None\<close> when the number of an alias has no room\<close>
  "new_entries f img name attr cluster len =
     (case exact_short_name name of
        Some (short, cases) \<Rightarrow> Some [short_entry short cases attr (of_nat cluster) (of_nat len) (fa_stamp f)]
      | None \<Rightarrow>
          map_option (\<lambda>short. long_entries name short @ [short_entry short 0 attr (of_nat cluster) (of_nat len) (fa_stamp f)])
            (alias_name name (short_names img)))"

definition put_entries :: "nat \<Rightarrow> byte list list \<Rightarrow> dir_image \<Rightarrow> dir_image" where
  "put_entries at entries img = fold (\<lambda>(i, entry). set_slot (at + i) entry) (enumerate 0 entries) img"

definition add_entry :: "('d, 'e) device \<Rightarrow> dir \<Rightarrow> dir_image \<Rightarrow> ustr \<Rightarrow> byte \<Rightarrow> nat \<Rightarrow> nat \<Rightarrow> 'd fat \<Rightarrow> ((unit, 'e fat_error) result \<times> 'd fat) option" where
  \<comment> \<open>\<open>None\<close>: a panic\<close>
  "add_entry dev dir img name attr cluster len f =
     (case new_entries f img name attr cluster len of
        None \<Rightarrow> None
      | Some entries \<Rightarrow> Some (
          fbind (case free_run (length entries) img of
                   Some at \<Rightarrow> (\<lambda>f. (Ok (at, img), f))
                 | None \<Rightarrow> grow_dir dev dir img (length entries)) (\<lambda>(at, img).
            store_dir dev (put_entries at entries img) at (at + length entries)) f))"

subsection \<open>Changes\<close>

fun free_clusters_loop :: "('d, 'e) device \<Rightarrow> nat list \<Rightarrow> u32 \<Rightarrow> (u32, 'd, 'e) fat_op" where
  "free_clusters_loop dev [] free f = (Ok free, f)"
| "free_clusters_loop dev (cluster # clusters) free f =
     fbind (fat_entry dev cluster) (\<lambda>v. free_clusters_loop dev clusters (free + (if v = 0 then 1 else 0))) f"

definition free_clusters :: "('d, 'e) device \<Rightarrow> (u32, 'd, 'e) fat_op" where
  "free_clusters dev f = free_clusters_loop dev [2..<fa_cluster_count f + 2] 0 f"

definition begin_change :: "('d, 'e) device \<Rightarrow> (unit, 'd, 'e) fat_op" where
  "begin_change dev f =
     (if fa_fsinfo f \<noteq> None \<and> fa_free_count f = None
      then fbind (free_clusters dev) (\<lambda>free f. (Ok (), f\<lparr>fa_free_count := Some free\<rparr>)) f
      else (Ok (), f))"

definition finish_change :: "('d, 'e) device \<Rightarrow> (unit, 'e fat_error) result \<Rightarrow> (unit, 'd, 'e) fat_op" where
  "finish_change dev outcome f =
     (case (fa_fsinfo f, fa_free_count f) of
        (Some sector, Some free) \<Rightarrow>
          fbind (on_device (dv_read dev (lba_offset (fa_start f) sector))) (\<lambda>block f.
            if fu32 block 0 = FSINFO_LEAD \<and> fu32 block 484 = FSINFO_STRUCT
            then fbind (on_device (dv_write dev (lba_offset (fa_start f) sector)
                   (overwrite 492 (to_le 4 (of_nat (fa_next_free f) :: u32)) (overwrite 488 (to_le 4 free) block))))
                   (\<lambda>_ f. (outcome, f)) f
            else (outcome, f)) f
      | _ \<Rightarrow> (outcome, f))"

definition set_time :: "date_time \<Rightarrow> 'd fat \<Rightarrow> 'd fat" where
  "set_time now f = f\<lparr>fa_stamp := date_fat now\<rparr>"

definition give_back :: "('d, 'e) device \<Rightarrow> nat \<Rightarrow> (unit, 'e fat_error) result \<times> 'd fat \<Rightarrow> (unit, 'e fat_error) result \<times> 'd fat" where
  \<comment> \<open>when nothing came to point at the new chain\<close>
  "give_back dev first added =
     (case added of
        (Ok _, f) \<Rightarrow> (Ok (), f)
      | (Err error, f) \<Rightarrow> fbind (free_chain dev first) (\<lambda>_ f. (Err error, f)) f)"

definition option_fbind :: "('a, 'd, 'e) fat_op \<Rightarrow> ('a \<Rightarrow> 'd fat \<Rightarrow> (('b, 'e fat_error) result \<times> 'd fat) option) \<Rightarrow>
    'd fat \<Rightarrow> (('b, 'e fat_error) result \<times> 'd fat) option" where
  \<comment> \<open>\<open>?\<close> before a part that may panic\<close>
  "option_fbind m k f = (case m f of (Ok x, f') \<Rightarrow> k x f' | (Err e, f') \<Rightarrow> Some (Err e, f'))"

definition replace_entry :: "('d, 'e) device \<Rightarrow> located \<Rightarrow> dir_image \<Rightarrow> nat \<Rightarrow> nat \<Rightarrow> (unit, 'd, 'e) fat_op" where
  \<comment> \<open>points an entry at the new chain, then lets the old one go\<close>
  "replace_entry dev found img first len f =
     (let slot = lo_end found - 1;
          img = set_slot slot (set_modified (fa_stamp f) (set_cluster_and_size (of_nat first) (of_nat len) (get_slot slot img))) img
      in fbind (store_dir dev img slot (slot + 1)) (\<lambda>_. free_chain dev (de_cluster (lo_entry found))) f)"

definition write_file_inner ::
  "('d, 'e) device \<Rightarrow> (codepoint \<Rightarrow> codepoint list) \<Rightarrow> ustr \<Rightarrow> byte list \<Rightarrow> 'd fat \<Rightarrow> ((unit, 'e fat_error) result \<times> 'd fat) option" where
  "write_file_inner dev to_lower path data f =
     (if length data \<ge> 2 ^ 32 then Some (Err TooBig, f)
      else let (parent, name) = split_path path
           in option_fbind (\<lambda>f. (check_name name, f)) (\<lambda>_.
              option_fbind (find_dir dev to_lower parent) (\<lambda>dir.
              option_fbind (load_dir dev dir) (\<lambda>img f.
                let existing = List.find (\<lambda>l. names_match to_lower (de_name (lo_entry l)) name) (parse_located (di_bytes img) (fa_type f))
                in if (case existing of Some l \<Rightarrow> de_kind (lo_entry l) = Directory | None \<Rightarrow> False) then Some (Err NotAFile, f)
                   else option_fbind (begin_change dev) (\<lambda>_.
                        option_fbind (write_chain dev data) (\<lambda>first f.
                          case existing of
                            Some found \<Rightarrow> Some (replace_entry dev found img first (length data) f)
                          | None \<Rightarrow> map_option (give_back dev first) (add_entry dev dir img name ATTR_ARCHIVE first (length data) f))) f))) f)"

definition write_file ::
  "('d, 'e) device \<Rightarrow> (codepoint \<Rightarrow> codepoint list) \<Rightarrow> ustr \<Rightarrow> byte list \<Rightarrow> 'd fat \<Rightarrow> ((unit, 'e fat_error) result \<times> 'd fat) option" where
  "write_file dev to_lower path data f =
     map_option (\<lambda>(outcome, f). finish_change dev outcome f) (write_file_inner dev to_lower path data f)"

definition create_dir_inner ::
  "('d, 'e) device \<Rightarrow> (codepoint \<Rightarrow> codepoint list) \<Rightarrow> ustr \<Rightarrow> 'd fat \<Rightarrow> ((unit, 'e fat_error) result \<times> 'd fat) option" where
  "create_dir_inner dev to_lower path f =
     (let (parent, name) = split_path path
      in option_fbind (\<lambda>f. (check_name name, f)) (\<lambda>_.
         option_fbind (find_dir dev to_lower parent) (\<lambda>dir.
         option_fbind (load_dir dev dir) (\<lambda>img f.
           if (\<exists>l \<in> set (parse_located (di_bytes img) (fa_type f)). names_match to_lower (de_name (lo_entry l)) name)
           then Some (Err AlreadyExists, f)
           else option_fbind (begin_change dev) (\<lambda>_.
                option_fbind (allocate dev 1) (\<lambda>clusters f.
                  let cluster = clusters ! 0;
                      parent_cluster = (case dir of DirRoot \<Rightarrow> 0 | DirChain c \<Rightarrow> c);
                      contents = overwrite DIR_ENTRY_SIZE
                          (short_entry (ascii ''..         '') 0 ATTR_DIRECTORY (of_nat parent_cluster) 0 (fa_stamp f))
                        (overwrite 0 (short_entry (ascii ''.          '') 0 ATTR_DIRECTORY (of_nat cluster) 0 (fa_stamp f))
                          (replicate (cluster_size f) 0))
                  in option_fbind (write_clusters dev [cluster] contents) (\<lambda>_.
                     option_fbind (link dev [cluster]) (\<lambda>_ f.
                       map_option (give_back dev cluster) (add_entry dev dir img name ATTR_DIRECTORY cluster 0 f))) f)) f))) f)"

definition create_dir ::
  "('d, 'e) device \<Rightarrow> (codepoint \<Rightarrow> codepoint list) \<Rightarrow> ustr \<Rightarrow> 'd fat \<Rightarrow> ((unit, 'e fat_error) result \<times> 'd fat) option" where
  "create_dir dev to_lower path f =
     map_option (\<lambda>(outcome, f). finish_change dev outcome f) (create_dir_inner dev to_lower path f)"

definition delete_slots :: "nat \<Rightarrow> nat \<Rightarrow> dir_image \<Rightarrow> dir_image" where
  "delete_slots start stop img = fold (\<lambda>slot img. set_slot slot ((get_slot slot img)[0 := ENTRY_DELETED]) img) [start..<stop] img"

definition remove_inner :: "('d, 'e) device \<Rightarrow> (codepoint \<Rightarrow> codepoint list) \<Rightarrow> ustr \<Rightarrow> (unit, 'd, 'e) fat_op" where
  "remove_inner dev to_lower path =
     (let (parent, name) = split_path path
      in fbind (find_dir dev to_lower parent) (\<lambda>dir.
         fbind (load_dir dev dir) (\<lambda>img f.
           case List.find (\<lambda>l. names_match to_lower (de_name (lo_entry l)) name) (parse_located (di_bytes img) (fa_type f)) of
             None \<Rightarrow> (Err NotFound, f)
           | Some found \<Rightarrow>
               let first = de_cluster (lo_entry found)
               in fbind (if de_kind (lo_entry found) = Directory
                         then fbind (load_dir dev (DirChain first)) (\<lambda>contents f.
                                if parse_located (di_bytes contents) (fa_type f) \<noteq> [] then (Err NotEmpty, f) else (Ok (), f))
                         else (\<lambda>f. (Ok (), f))) (\<lambda>_.
                  fbind (begin_change dev) (\<lambda>_.
                  fbind (store_dir dev (delete_slots (lo_start found) (lo_end found) img) (lo_start found) (lo_end found)) (\<lambda>_.
                    free_chain dev first))) f)))"

definition remove_file :: "('d, 'e) device \<Rightarrow> (codepoint \<Rightarrow> codepoint list) \<Rightarrow> ustr \<Rightarrow> (unit, 'd, 'e) fat_op" where
  "remove_file dev to_lower path f = (case remove_inner dev to_lower path f of (outcome, f) \<Rightarrow> finish_change dev outcome f)"

end
