(* ===== verification/Fat_Table.thy ===== *)
theory Fat_Table
  imports Fat_Read Fat_Write
begin

text \<open>
  The file allocation table as a map that is changed entry by entry: what one call of \<open>set_fat_entry\<close> or
  \<open>flush_fat\<close> does to the entries as the code sees them (pending sector, cache and disk together) and to the entries on
  the disk alone, which are what a power cut leaves.
\<close>

subsection \<open>Entries in a sector\<close>

lemma slice_overwrite_same: "at + length ys \<le> length xs \<Longrightarrow> slice at (at + length ys) (overwrite at ys xs) = ys"
  by (simp add: slice_def overwrite_def)

lemma slice_overwrite_other:
  assumes "at + length ys \<le> length xs" and "b \<le> at \<or> at + length ys \<le> a" and "b \<le> length xs"
  shows "slice a b (overwrite at ys xs) = slice a b xs"
proof (rule nth_equalityI)
  show "length (slice a b (overwrite at ys xs)) = length (slice a b xs)" using assms by (simp add: slice_simps)
  fix i assume "i < length (slice a b (overwrite at ys xs))"
  then have i: "i < b - a" "a + i < length xs" using assms by (auto simp: slice_simps)
  then show "slice a b (overwrite at ys xs) ! i = slice a b xs ! i" using assms by (auto simp: slice_simps)
qed

lemma fu16_slice: "at + 2 \<le> length b \<Longrightarrow> fu16 b at = from_le (slice at (at + 2) b)"
  by (simp add: fu16_def slice_def numeral_2_eq_2 take_Suc_conv_app_nth hd_drop_conv_nth)

lemma length_encode_entry:
  "at + entry_width t \<le> length b \<Longrightarrow> length (encode_entry t v at b) = length b"
  by (cases t) (simp_all add: encode_entry_def entry_width_def slice_simps Let_def)

lemma and_not_or_mask:
  "((x :: 'a::len word) AND NOT (mask k) OR take_bit k y) AND mask k = take_bit k y"
  by (rule bit_eqI) (auto simp: bit_simps)

lemma decode_encode_entry:
  assumes "at + entry_width t \<le> length b" and "v \<le> unat (entry_mask t)"
  shows "unat (fat_decode t (encode_entry t v at b) at) = v"
proof (cases t)
  case Fat16
  have v: "v < 2 ^ 16" using assms(2) by (simp add: Fat16 entry_mask_def)
  have "fu16 (overwrite at (to_le 2 (of_nat v :: u16)) b) at = of_nat v"
    using assms(1) slice_overwrite_same [of at "to_le 2 (of_nat v :: u16)" b]
    by (simp add: fu16_slice slice_simps Fat16 entry_width_def from_le_to_le)
  moreover have "unat ((ucast (of_nat v :: u16) :: u32) AND 0xFFFF) = v"
  proof -
    have "(0xFFFF :: u32) = mask 16" by (simp add: mask_eq_exp_minus_1)
    moreover have "take_bit 16 (ucast (of_nat v :: u16) :: u32) = ucast (of_nat v :: u16)"
      by (rule bit_eqI) (auto simp: bit_take_bit_iff bit_ucast_iff dest: bit_imp_le_length)
    ultimately have "(ucast (of_nat v :: u16) :: u32) AND 0xFFFF = ucast (of_nat v :: u16)" by (simp add: take_bit_eq_mask)
    then show ?thesis using v by (simp add: unat_ucast_up unsigned_of_nat take_bit_nat_eq_self)
  qed
  ultimately show ?thesis by (simp add: Fat16 fat_decode_def encode_entry_def entry_mask_def)
next
  case Fat32
  have v: "v < 2 ^ 28" using assms(2) by (simp add: Fat32 entry_mask_def)
  define kept where "kept = fu32 b at AND NOT 0x0FFFFFFF"
  have "fu32 (overwrite at (to_le 4 (kept OR of_nat v :: u32)) b) at = kept OR of_nat v"
    using assms(1) slice_overwrite_same [of at "to_le 4 (kept OR of_nat v :: u32)" b]
    by (simp add: fu32_def Fat32 entry_width_def from_le_to_le)
  moreover have "(kept OR of_nat v) AND 0x0FFFFFFF = of_nat v"
  proof -
    have "(of_nat v :: u32) = take_bit 28 (of_nat v)"
      using v by (metis of_nat_take_bit take_bit_nat_eq_self)
    moreover have "(0x0FFFFFFF :: u32) = mask 28" by (simp add: mask_eq_exp_minus_1)
    ultimately show ?thesis using and_not_or_mask [of "fu32 b at" 28 "of_nat v"] by (simp add: kept_def)
  qed
  ultimately show ?thesis using v
    by (simp add: Fat32 fat_decode_def encode_entry_def entry_mask_def kept_def Let_def unsigned_of_nat take_bit_nat_eq_self)
qed

lemma decode_encode_other:
  assumes "at + entry_width t \<le> length b" "at' + entry_width t \<le> length b" "at' + entry_width t \<le> at \<or> at + entry_width t \<le> at'"
  shows "fat_decode t (encode_entry t v at b) at' = fat_decode t b at'"
  using assms slice_overwrite_other [of at _ b "at' + entry_width t" at'] 
  by (cases t) (auto simp: fat_decode_def encode_entry_def entry_width_def Let_def fu16_slice fu32_def slice_simps)

subsection \<open>Volumes whose table holds all clusters\<close>

definition vol_ok :: "'d fat \<Rightarrow> bool" where
  "vol_ok f \<longleftrightarrow> 0 < fa_spc f \<and> 0 < fa_fat_count f
     \<and> (fa_cluster_count f + 2) * entry_width (fa_type f) \<le> fa_fat_size f * BLOCK_SIZE
     \<and> fa_fat_start f + fa_fat_count f * fa_fat_size f \<le> fa_data_start f
     \<and> fa_cluster_count f + 2 \<le> chain_bad (fa_type f)"

definition first_fat_sector :: "'d fat \<Rightarrow> nat \<Rightarrow> bool" where
  "first_fat_sector f s \<longleftrightarrow> fa_fat_start f \<le> s \<and> s < fa_fat_start f + fa_fat_size f"

definition in_fats :: "'d fat \<Rightarrow> lba \<Rightarrow> bool" where
  "in_fats f l \<longleftrightarrow> fa_start f + fa_fat_start f \<le> l \<and> l < fa_start f + fa_fat_start f + fa_fat_count f * fa_fat_size f"

definition fat_inv :: "('d \<Rightarrow> lba \<Rightarrow> block) \<Rightarrow> 'd fat \<Rightarrow> bool" where
  "fat_inv content f \<longleftrightarrow> vol_ok f \<and> coherent content f
     \<and> (\<forall>s b. fa_cache f = Some (s, b) \<longrightarrow> first_fat_sector f s)
     \<and> (\<forall>s b. fa_dirty f = Some (s, b) \<longrightarrow> first_fat_sector f s \<and> length b = BLOCK_SIZE \<and> (\<forall>b'. fa_cache f \<noteq> Some (s, b')))"

definition same_shape :: "'d fat \<Rightarrow> 'd fat \<Rightarrow> bool" where
  \<comment> \<open>only what a change may change has changed\<close>
  "same_shape f f' \<longleftrightarrow> fa_start f' = fa_start f \<and> fa_type f' = fa_type f \<and> fa_spc f' = fa_spc f
     \<and> fa_fat_start f' = fa_fat_start f \<and> fa_root f' = fa_root f \<and> fa_data_start f' = fa_data_start f
     \<and> fa_cluster_count f' = fa_cluster_count f \<and> fa_label f' = fa_label f \<and> fa_fat_count f' = fa_fat_count f
     \<and> fa_fat_size f' = fa_fat_size f \<and> fa_fsinfo f' = fa_fsinfo f \<and> fa_stamp f' = fa_stamp f"

definition seen_block :: "('d \<Rightarrow> lba \<Rightarrow> block) \<Rightarrow> 'd fat \<Rightarrow> nat \<Rightarrow> block" where
  "seen_block content f s =
     (case fa_dirty f of
        Some (dirty, block) \<Rightarrow> if dirty = s then block else content (fa_device f) (fa_start f + s)
      | None \<Rightarrow> content (fa_device f) (fa_start f + s))"

definition disk_value :: "('d \<Rightarrow> lba \<Rightarrow> block) \<Rightarrow> 'd fat \<Rightarrow> nat \<Rightarrow> nat" where
  "disk_value content f n = unat (fat_decode (fa_type f) (content (fa_device f) (fa_start f + fst (fat_position f n))) (snd (fat_position f n)))"

lemma fat_value_seen:
  "fat_value content f n = unat (fat_decode (fa_type f) (seen_block content f (fst (fat_position f n))) (snd (fat_position f n)))"
  by (simp add: fat_value_def seen_block_def case_prod_unfold Let_def)

lemma same_shape_refl [simp]: "same_shape f f"
  by (simp add: same_shape_def)

lemma same_shape_trans: "same_shape f f' \<Longrightarrow> same_shape f' f'' \<Longrightarrow> same_shape f f''"
  by (simp add: same_shape_def)

lemma same_shape_fields:
  assumes "same_shape f f'"
  shows "fa_start f' = fa_start f" "fa_type f' = fa_type f" "fa_spc f' = fa_spc f" "fa_cluster_count f' = fa_cluster_count f"
    "fa_root f' = fa_root f" "fa_data_start f' = fa_data_start f" "fa_fat_start f' = fa_fat_start f"
    "fa_fat_count f' = fa_fat_count f" "fa_fat_size f' = fa_fat_size f" "fa_fsinfo f' = fa_fsinfo f" "fa_stamp f' = fa_stamp f"
  using assms by (auto simp: same_shape_def)

lemma same_shape_views:
  assumes "same_shape f f'"
  shows "vol_ok f' = vol_ok f" "first_fat_sector f' = first_fat_sector f" "in_fats f' = in_fats f" "fat_position f' = fat_position f"
    "cluster_ok f' = cluster_ok f" "first_sector f' = first_sector f" "cluster_size f' = cluster_size f"
  using same_shape_fields [OF assms]
  by (simp_all add: fun_eq_iff vol_ok_def first_fat_sector_def in_fats_def fat_position_def cluster_ok_def first_sector_def cluster_size_def)

lemma same_volume_shape: "same_volume content f f' \<Longrightarrow> same_shape f f'"
  by (auto simp: same_volume_def same_shape_def)

lemma entry_width_cases: "entry_width t = 2 \<or> entry_width t = 4"
  by (cases t) (simp_all add: entry_width_def)

lemma fat_position_bounds:
  assumes "vol_ok f" and "n < fa_cluster_count f + 2"
  shows "first_fat_sector f (fst (fat_position f n))" "snd (fat_position f n) + entry_width (fa_type f) \<le> BLOCK_SIZE"
proof -
  define w where "w = entry_width (fa_type f)"
  have w: "w = 2 \<or> w = 4" unfolding w_def by (rule entry_width_cases)
  have "n * w < (fa_cluster_count f + 2) * w" using assms(2) w by auto
  then have "n * w < fa_fat_size f * BLOCK_SIZE" using assms(1) unfolding vol_ok_def w_def by linarith
  then have "n * w div BLOCK_SIZE < fa_fat_size f" by (rule less_mult_imp_div_less)
  then show "first_fat_sector f (fst (fat_position f n))" by (simp add: fat_position_def first_fat_sector_def w_def Let_def)
  have "w dvd BLOCK_SIZE" using w by (auto simp: BLOCK_SIZE_def)
  then have "w dvd n * w mod BLOCK_SIZE" by (simp add: dvd_mod)
  moreover have "n * w mod BLOCK_SIZE < BLOCK_SIZE" by (simp add: BLOCK_SIZE_def)
  ultimately have "n * w mod BLOCK_SIZE + w \<le> BLOCK_SIZE"
    using \<open>w dvd BLOCK_SIZE\<close> by (metis add_diff_cancel_left' dvd_diff_nat dvd_imp_le le_diff_conv2 less_imp_le_nat add.commute zero_less_diff)
  then show "snd (fat_position f n) + entry_width (fa_type f) \<le> BLOCK_SIZE"
    by (simp add: fat_position_def w_def Let_def)
qed

lemma fat_position_apart:
  assumes "n \<noteq> m" and "fst (fat_position f n) = fst (fat_position f m)"
  shows "snd (fat_position f n) + entry_width (fa_type f) \<le> snd (fat_position f m)
    \<or> snd (fat_position f m) + entry_width (fa_type f) \<le> snd (fat_position f n)"
proof -
  define w where "w = entry_width (fa_type f)"
  have q: "n * w div BLOCK_SIZE = m * w div BLOCK_SIZE" using assms(2) by (simp add: fat_position_def w_def Let_def)
  have n: "n * w = n * w div BLOCK_SIZE * BLOCK_SIZE + n * w mod BLOCK_SIZE"
    and m: "m * w = n * w div BLOCK_SIZE * BLOCK_SIZE + m * w mod BLOCK_SIZE"
    using q by (metis div_mult_mod_eq)+
  have "n * w + w \<le> m * w \<or> m * w + w \<le> n * w"
    using assms(1) by (metis Suc_leI add.commute linorder_neqE_nat mult_Suc mult_le_mono1)
  then have "n * w mod BLOCK_SIZE + w \<le> m * w mod BLOCK_SIZE \<or> m * w mod BLOCK_SIZE + w \<le> n * w mod BLOCK_SIZE"
    using n m by linarith
  then show ?thesis by (simp add: fat_position_def w_def Let_def)
qed

lemma fat_copies_apart:
  assumes "vol_ok f" "first_fat_sector f s" "copy < fa_fat_count f"
  shows "in_fats f (fa_start f + (s + copy * fa_fat_size f))"
    "first_fat_sector f s' \<Longrightarrow> s' = s + copy * fa_fat_size f \<longleftrightarrow> copy = 0 \<and> s' = s"
proof -
  have "(copy + 1) * fa_fat_size f \<le> fa_fat_count f * fa_fat_size f" using assms(3) by (intro mult_le_mono1) simp
  then have "copy * fa_fat_size f + fa_fat_size f \<le> fa_fat_count f * fa_fat_size f" by simp
  then show "in_fats f (fa_start f + (s + copy * fa_fat_size f))"
    using assms(2) unfolding in_fats_def first_fat_sector_def by linarith
  show "s' = s + copy * fa_fat_size f \<longleftrightarrow> copy = 0 \<and> s' = s" if "first_fat_sector f s'"
  proof (cases copy)
    case (Suc k)
    then have "fa_fat_size f \<le> copy * fa_fat_size f" by simp
    then show ?thesis using Suc that assms(2) unfolding first_fat_sector_def by linarith
  qed simp
qed

lemma fat_inv_cache_shape:
  "fat_inv content f \<Longrightarrow> fa_cache f = Some (s, b) \<Longrightarrow> first_fat_sector f s \<and> b = content (fa_device f) (fa_start f + s)"
  by (auto simp: fat_inv_def coherent_def)

definition table_change :: "('d \<Rightarrow> lba \<Rightarrow> block) \<Rightarrow> 'd fat \<Rightarrow> 'd fat \<Rightarrow> bool" where
  \<comment> \<open>nothing outside the tables has changed, and an entry on the disk is what it was, there or pending\<close>
  "table_change content f f' \<longleftrightarrow> same_shape f f' \<and> fat_inv content f' \<and> fa_free_count f' = fa_free_count f \<and> fa_next_free f' = fa_next_free f
     \<and> (\<forall>l. \<not> in_fats f l \<longrightarrow> content (fa_device f') l = content (fa_device f) l)
     \<and> (\<forall>n < fa_cluster_count f + 2. disk_value content f' n \<in> {disk_value content f n, fat_value content f n})"

lemma table_changeI:
  assumes "same_shape f f'" "fat_inv content f'" "fa_free_count f' = fa_free_count f" "fa_next_free f' = fa_next_free f"
    "\<And>l. \<not> in_fats f l \<Longrightarrow> content (fa_device f') l = content (fa_device f) l"
    "\<And>t. first_fat_sector f t \<Longrightarrow> content (fa_device f') (fa_start f + t) \<in> {content (fa_device f) (fa_start f + t), seen_block content f t}"
  shows "table_change content f f'"
proof -
  have "vol_ok f" using assms(2) same_shape_views(1) [OF assms(1)] by (simp add: fat_inv_def)
  then have "disk_value content f' n \<in> {disk_value content f n, fat_value content f n}" if "n < fa_cluster_count f + 2" for n
    using assms(6) [OF fat_position_bounds(1) [OF _ that]] same_shape_fields [OF assms(1)] same_shape_views [OF assms(1)]
    by (auto simp: disk_value_def fat_value_seen)
  then show ?thesis using assms by (auto simp: table_change_def)
qed

lemma same_volume_inv:
  assumes "fat_inv content f" "same_volume content f f'" "\<forall>s b. fa_cache f' = Some (s, b) \<longrightarrow> first_fat_sector f s \<and> (\<forall>b'. fa_dirty f \<noteq> Some (s, b'))"
  shows "fat_inv content f'"
proof -
  note v = same_volume_fields [OF assms(2)] same_shape_views [OF same_volume_shape [OF assms(2)]]
  show ?thesis using assms(1,3) unfolding fat_inv_def v by (auto simp: v)
qed

context block_device
begin

lemma flush_copies_effect:
  assumes "vol_ok f" "first_fat_sector f s" "length b = BLOCK_SIZE" "\<forall>c \<in> set copies. c < fa_fat_count f"
    "flush_copies dev s b copies f = (r, f')"
  shows "\<exists>d. f' = f\<lparr>fa_device := d\<rparr> \<and> (\<forall>l. \<not> in_fats f l \<longrightarrow> content d l = content (fa_device f) l)
    \<and> (\<forall>t. first_fat_sector f t \<and> t \<noteq> s \<longrightarrow> content d (fa_start f + t) = content (fa_device f) (fa_start f + t))
    \<and> content d (fa_start f + s) \<in> {content (fa_device f) (fa_start f + s), b}
    \<and> (r = Ok () \<and> 0 \<in> set copies \<longrightarrow> content d (fa_start f + s) = b) \<and> (device_error r \<or> r = Ok ())"
  using assms
proof (induction copies arbitrary: f)
  case Nil
  then show ?case by (auto intro!: exI [of _ "fa_device f"])
next
  case (Cons copy copies)
  let ?l = "fa_start f + (s + copy * fa_fat_size f)"
  obtain u d where w: "dv_write dev ?l b (fa_device f) = (u, d)" by fastforce
  note wl = write1 [OF Cons.prems(3) w]
  have copy: "copy < fa_fat_count f" using Cons.prems(4) by simp
  note apart = fat_copies_apart [OF Cons.prems(1,2) copy]
  let ?f1 = "f\<lparr>fa_device := d\<rparr>"
  have out: "content d l = content (fa_device f) l" if "\<not> in_fats f l" for l using wl apart(1) that by metis
  have other: "content d (fa_start f + t) = content (fa_device f) (fa_start f + t)" if "first_fat_sector f t" "t \<noteq> s" for t
    using wl apart(2) [OF that(1)] that(2) by (metis add_left_cancel)
  have here: "content d (fa_start f + s) \<in> {content (fa_device f) (fa_start f + s), b}"
    and written: "u = Ok () \<Longrightarrow> copy = 0 \<Longrightarrow> content d (fa_start f + s) = b"
    using wl apart(2) [OF Cons.prems(2)] by (cases "copy = 0"; auto)+
  show ?case
  proof (cases u)
    case (Err e)
    then have "r = Err (Device e)" "f' = ?f1" using Cons.prems(5) w by (auto simp: fbind_def on_device_def lba_offset_def)
    then show ?thesis using out other here by (intro exI [of _ d]) auto
  next
    case (Ok x)
    have run: "flush_copies dev s b copies ?f1 = (r, f')" using Cons.prems(5) w Ok by (simp add: fbind_def on_device_def lba_offset_def)
    have shape: "vol_ok ?f1 = vol_ok f" "first_fat_sector ?f1 = first_fat_sector f" "in_fats ?f1 = in_fats f"
      by (simp_all add: fun_eq_iff vol_ok_def first_fat_sector_def in_fats_def)
    obtain d' where d': "f' = ?f1\<lparr>fa_device := d'\<rparr>" "\<forall>l. \<not> in_fats f l \<longrightarrow> content d' l = content d l"
        "\<forall>t. first_fat_sector f t \<and> t \<noteq> s \<longrightarrow> content d' (fa_start f + t) = content d (fa_start f + t)"
        "content d' (fa_start f + s) \<in> {content d (fa_start f + s), b}"
        "r = Ok () \<and> 0 \<in> set copies \<longrightarrow> content d' (fa_start f + s) = b" "device_error r \<or> r = Ok ()"
      using Cons.IH [OF _ _ Cons.prems(3) _ run] Cons.prems(1,2,4) unfolding shape by auto
    have "content d' (fa_start f + s) \<in> {content (fa_device f) (fa_start f + s), b}" using d'(4) here by auto
    moreover have "content d' (fa_start f + s) = b" if "r = Ok ()" "0 \<in> set (copy # copies)"
      using that d'(4,5) written Ok by (cases "0 \<in> set copies") auto
    ultimately show ?thesis using d' out other by (intro exI [of _ d']) auto
  qed
qed

lemma flush_fat_effect:
  assumes inv: "fat_inv content f" and run: "flush_fat dev f = (r, f')"
  shows "same_shape f f' \<and> fat_inv content f' \<and> (\<forall>l. \<not> in_fats f l \<longrightarrow> content (fa_device f') l = content (fa_device f) l)
    \<and> fa_dirty f' = None \<and> fa_free_count f' = fa_free_count f \<and> fa_next_free f' = fa_next_free f
    \<and> (\<forall>t. first_fat_sector f t \<longrightarrow> content (fa_device f') (fa_start f + t) \<in> {content (fa_device f) (fa_start f + t), seen_block content f t})
    \<and> (r = Ok () \<longrightarrow> (\<forall>t. first_fat_sector f t \<longrightarrow> content (fa_device f') (fa_start f + t) = seen_block content f t))
    \<and> (device_error r \<or> r = Ok ())"
proof (cases "fa_dirty f")
  case None
  then show ?thesis using assms by (auto simp: flush_fat_def seen_block_def)
next
  case (Some p)
  obtain s b where p: "p = (s, b)" by fastforce
  have s: "first_fat_sector f s" "length b = BLOCK_SIZE" and nc: "\<forall>b'. fa_cache f \<noteq> Some (s, b')" and ok: "vol_ok f" and coh: "coherent content f"
    using inv Some p by (auto simp: fat_inv_def)
  let ?f0 = "f\<lparr>fa_dirty := None\<rparr>"
  have shape: "vol_ok ?f0 = vol_ok f" "first_fat_sector ?f0 = first_fat_sector f" "in_fats ?f0 = in_fats f"
    by (simp_all add: fun_eq_iff vol_ok_def first_fat_sector_def in_fats_def)
  obtain q f1 where q: "flush_copies dev s b [0..<fa_fat_count f] ?f0 = (q, f1)" by fastforce
  obtain d where d: "f1 = ?f0\<lparr>fa_device := d\<rparr>" "\<forall>l. \<not> in_fats f l \<longrightarrow> content d l = content (fa_device f) l"
      "\<forall>t. first_fat_sector f t \<and> t \<noteq> s \<longrightarrow> content d (fa_start f + t) = content (fa_device f) (fa_start f + t)"
      "content d (fa_start f + s) \<in> {content (fa_device f) (fa_start f + s), b}"
      "q = Ok () \<longrightarrow> content d (fa_start f + s) = b" "device_error q \<or> q = Ok ()"
    using flush_copies_effect [OF _ _ s(2) _ q] ok s(1) unfolding shape by (auto simp: vol_ok_def)
  have seen: "seen_block content f t = (if t = s then b else content (fa_device f) (fa_start f + t))" for t
    using Some p by (simp add: seen_block_def)
  have f': "f' = (if q = Ok () then f\<lparr>fa_device := d, fa_dirty := None, fa_cache := Some (s, b)\<rparr> else f\<lparr>fa_device := d, fa_dirty := None\<rparr>)" and r: "r = q"
    using run q d(1,6) Some p by (auto simp: flush_fat_def fbind_def split: result.splits)
  have "same_shape f f'" unfolding same_shape_def f' by simp
  moreover have "fat_inv content f'"
  proof -
    have "vol_ok f'" "first_fat_sector f' = first_fat_sector f" "fa_start f' = fa_start f"
      using ok same_shape_views [OF \<open>same_shape f f'\<close>] same_shape_fields [OF \<open>same_shape f f'\<close>] by simp_all
    moreover have "first_fat_sector f s' \<and> b' = content (fa_device f') (fa_start f + s')" if "fa_cache f' = Some (s', b')" for s' b'
    proof (cases "q = Ok ()")
      case True
      then show ?thesis using that s d(5) f' by auto
    next
      case False
      then have c: "fa_cache f = Some (s', b')" using that f' by simp
      then have "s' \<noteq> s" using nc by auto
      then show ?thesis using fat_inv_cache_shape [OF inv c] d(3) f' by auto
    qed
    moreover have "fa_dirty f' = None" unfolding f' by simp
    ultimately show ?thesis unfolding fat_inv_def coherent_def by simp
  qed
  ultimately show ?thesis using d seen r unfolding f' by auto
qed

lemma flush_fat_change:
  assumes "fat_inv content f" "flush_fat dev f = (r, f')"
  shows "table_change content f f'" "fa_dirty f' = None" "device_error r \<or> r = Ok ()"
    "r = Ok () \<Longrightarrow> n < fa_cluster_count f + 2 \<Longrightarrow> disk_value content f' n = fat_value content f n"
proof -
  note e = flush_fat_effect [OF assms]
  have shape: "same_shape f f'" using e by blast
  show "table_change content f f'" using e by (intro table_changeI) auto
  show "fa_dirty f' = None" "device_error r \<or> r = Ok ()" using e by auto
  have "vol_ok f" using assms(1) by (simp add: fat_inv_def)
  show "disk_value content f' n = fat_value content f n" if "r = Ok ()" "n < fa_cluster_count f + 2"
    using e that fat_position_bounds(1) [OF \<open>vol_ok f\<close> that(2)] same_shape_fields [OF shape] same_shape_views [OF shape]
    by (auto simp: disk_value_def fat_value_seen)
qed

lemma load_dirty_effect:
  assumes inv: "fat_inv content f" and s: "first_fat_sector f s" and d: "\<forall>t b. fa_dirty f = Some (t, b) \<longrightarrow> t = s"
    and run: "load_dirty dev s f = (r, f')"
  shows "same_shape f f' \<and> fat_inv content f' \<and> content (fa_device f') = content (fa_device f)
    \<and> fa_free_count f' = fa_free_count f \<and> fa_next_free f' = fa_next_free f
    \<and> seen_block content f' = seen_block content f \<and> (device_error r \<or> r = Ok ())
    \<and> (r = Ok () \<longrightarrow> fa_dirty f' = Some (s, seen_block content f s))"
proof (cases "fa_dirty f")
  case (Some p)
  then show ?thesis using assms by (cases p) (auto simp: load_dirty_def seen_block_def)
next
  case None
  have ok: "vol_ok f" using inv by (simp add: fat_inv_def)
  have seen: "seen_block content f t = content (fa_device f) (fa_start f + t)" for t using None by (simp add: seen_block_def)
  have done_case: ?thesis if "f' = f\<lparr>fa_device := dd, fa_cache := None, fa_dirty := Some (s, content (fa_device f) (fa_start f + s))\<rparr>"
    "content dd = content (fa_device f)" "r = Ok ()" for dd
    using that ok s block_length seen
    by (auto simp: same_shape_def fat_inv_def vol_ok_def first_fat_sector_def coherent_def seen_block_def fun_eq_iff None)
  show ?thesis
  proof (cases "\<exists>b. fa_cache f = Some (s, b)")
    case True
    then obtain b where c: "fa_cache f = Some (s, b)" by blast
    then have "b = content (fa_device f) (fa_start f + s)" using fat_inv_cache_shape [OF inv] by blast
    then show ?thesis using run None c by (intro done_case [of "fa_device f"]) (auto simp: load_dirty_def)
  next
    case False
    obtain q dd where q: "dv_read dev (fa_start f + s) (fa_device f) = (q, dd)" by fastforce
    note rd = read1 [OF q]
    have run': "(case q of Ok block \<Rightarrow> (Ok (), f\<lparr>fa_cache := None, fa_device := dd, fa_dirty := Some (s, block)\<rparr>)
         | Err e \<Rightarrow> (Err (Device e), f\<lparr>fa_cache := None, fa_device := dd\<rparr>)) = (r, f')"
      using run None False q by (auto simp: load_dirty_def Let_def fbind_def on_device_def lba_offset_def split: option.splits result.splits if_splits)
    show ?thesis
    proof (cases q)
      case (Ok block)
      then show ?thesis using run' rd by (intro done_case [of dd]) auto
    next
      case (Err e)
      then show ?thesis using run' rd ok None
        by (auto simp: same_shape_def fat_inv_def vol_ok_def coherent_def seen_block_def fun_eq_iff)
    qed
  qed
qed

text \<open>One entry is set: that entry changes, in the table as it is seen, and no other.\<close>

lemma set_fat_entry_change:
  assumes inv: "fat_inv content f" and c: "c < fa_cluster_count f + 2" and v: "v \<le> unat (entry_mask (fa_type f))"
    and run: "set_fat_entry dev c v f = (r, f')"
  shows "table_change content f f'" "device_error r \<or> r = Ok ()"
    "r = Ok () \<Longrightarrow> n < fa_cluster_count f + 2 \<Longrightarrow> fat_value content f' n = (if n = c then v else fat_value content f n)"
    "r \<noteq> Ok () \<Longrightarrow> n < fa_cluster_count f + 2 \<Longrightarrow> fat_value content f' n \<in> {disk_value content f n, fat_value content f n}"
proof -
  obtain s at where pos: "fat_position f c = (s, at)" by fastforce
  have ok: "vol_ok f" using inv by (simp add: fat_inv_def)
  have s: "first_fat_sector f s" and at: "at + entry_width (fa_type f) \<le> BLOCK_SIZE" using fat_position_bounds [OF ok c] pos by simp_all
  define other where "other = (case fa_dirty f of Some (dirty, _) \<Rightarrow> dirty \<noteq> s | None \<Rightarrow> False)"
  obtain q1 f1 where q1: "(if other then flush_fat dev else (\<lambda>f. (Ok (), f))) f = (q1, f1)" by fastforce
  obtain q2 f2 where q2: "load_dirty dev s f1 = (q2, f2)" by fastforce
  have run': "(case q1 of Err e \<Rightarrow> (Err e, f1) | Ok _ \<Rightarrow> (case q2 of Err e \<Rightarrow> (Err e, f2)
      | Ok _ \<Rightarrow> (Ok (), f2\<lparr>fa_dirty := map_option (apsnd (encode_entry (fa_type f2) v at)) (fa_dirty f2)\<rparr>))) = (r, f')"
    using run pos q1 q2 by (auto simp: set_fat_entry_def fbind_def other_def split: result.splits prod.splits)
  have one: "same_shape f f1" "fat_inv content f1" "fa_free_count f1 = fa_free_count f" "fa_next_free f1 = fa_next_free f"
      "\<forall>l. \<not> in_fats f l \<longrightarrow> content (fa_device f1) l = content (fa_device f) l"
      "\<forall>t. first_fat_sector f t \<longrightarrow> content (fa_device f1) (fa_start f + t) \<in> {content (fa_device f) (fa_start f + t), seen_block content f t}"
      "device_error q1 \<or> q1 = Ok ()"
    and seen1: "q1 = Ok () \<Longrightarrow> first_fat_sector f t \<Longrightarrow> seen_block content f1 t = seen_block content f t"
    and seen1': "q1 \<noteq> Ok () \<Longrightarrow> first_fat_sector f t \<Longrightarrow> seen_block content f1 t \<in> {content (fa_device f) (fa_start f + t), seen_block content f t}"
    and d1: "\<forall>t b. q1 = Ok () \<longrightarrow> fa_dirty f1 = Some (t, b) \<longrightarrow> t = s" for t
  proof -
    show "same_shape f f1" "fat_inv content f1" "fa_free_count f1 = fa_free_count f" "fa_next_free f1 = fa_next_free f"
      "\<forall>l. \<not> in_fats f l \<longrightarrow> content (fa_device f1) l = content (fa_device f) l"
      "\<forall>t. first_fat_sector f t \<longrightarrow> content (fa_device f1) (fa_start f + t) \<in> {content (fa_device f) (fa_start f + t), seen_block content f t}"
      "device_error q1 \<or> q1 = Ok ()"
      using flush_fat_effect [OF inv] q1 inv by (cases other; auto)+
    show "\<forall>t b. q1 = Ok () \<longrightarrow> fa_dirty f1 = Some (t, b) \<longrightarrow> t = s"
      using flush_fat_effect [OF inv] q1 by (cases other) (auto simp: other_def split: option.splits)
    show "seen_block content f1 t = seen_block content f t" if "q1 = Ok ()" "first_fat_sector f t"
      using flush_fat_effect [OF inv] q1 that by (cases other) (auto simp: seen_block_def [of content f1] same_shape_def)
    show "seen_block content f1 t \<in> {content (fa_device f) (fa_start f + t), seen_block content f t}" if "q1 \<noteq> Ok ()" "first_fat_sector f t"
      using flush_fat_effect [OF inv] q1 that by (cases other) (auto simp: seen_block_def [of content f1] same_shape_def)
  qed
  have ld: "same_shape f1 f2 \<and> fat_inv content f2 \<and> content (fa_device f2) = content (fa_device f1)
    \<and> fa_free_count f2 = fa_free_count f1 \<and> fa_next_free f2 = fa_next_free f1
    \<and> seen_block content f2 = seen_block content f1 \<and> (device_error q2 \<or> q2 = Ok ())
    \<and> (q2 = Ok () \<longrightarrow> fa_dirty f2 = Some (s, seen_block content f1 s))" if "q1 = Ok ()"
    using load_dirty_effect [OF one(2) _ _ q2] s d1 that same_shape_views(2) [OF one(1)] by simp
  have via: "table_change content f g" "n < fa_cluster_count f + 2 \<Longrightarrow> fat_value content g n \<in> {disk_value content f n, fat_value content f n}"
    if "same_shape f g" "fat_inv content g" "fa_free_count g = fa_free_count f" "fa_next_free g = fa_next_free f"
      "content (fa_device g) = content (fa_device f1)"
      "\<And>t. first_fat_sector f t \<Longrightarrow> seen_block content g t \<in> {content (fa_device f) (fa_start f + t), seen_block content f t}" for g n
  proof -
    show "table_change content f g" using that one by (intro table_changeI) auto
    show "fat_value content g n \<in> {disk_value content f n, fat_value content f n}" if "n < fa_cluster_count f + 2"
      using \<open>\<And>t. first_fat_sector f t \<Longrightarrow> seen_block content g t \<in> _\<close> [OF fat_position_bounds(1) [OF ok that]]
        same_shape_fields [OF \<open>same_shape f g\<close>] same_shape_views [OF \<open>same_shape f g\<close>]
      by (auto simp: disk_value_def fat_value_seen)
  qed
  have fl: "f' = f1 \<and> r \<noteq> Ok () \<and> device_error r" if "q1 \<noteq> Ok ()" using that one(7) run' by auto
  have lo: "f' = f2 \<and> r \<noteq> Ok () \<and> device_error r" if "q1 = Ok ()" "q2 \<noteq> Ok ()" 
  proof -
    have "device_error q2" using ld [OF that(1)] that(2) by blast
    then show ?thesis using run' that(1) by auto
  qed
  have st: "r = Ok () \<and> f' = f2\<lparr>fa_dirty := Some (s, encode_entry (fa_type f) v at (seen_block content f s))\<rparr>" if q: "q1 = Ok ()" "q2 = Ok ()"
  proof -
    have "fa_dirty f2 = Some (s, seen_block content f s)" "fa_type f2 = fa_type f"
      using ld [OF q(1)] q(2) seen1 [OF q(1) s] one(1) by (simp_all add: same_shape_def)
    then show ?thesis using run' q by simp
  qed
  consider (flush) "q1 \<noteq> Ok ()" "f' = f1" "r \<noteq> Ok ()" "device_error r" | (load) "q1 = Ok ()" "q2 \<noteq> Ok ()" "f' = f2" "r \<noteq> Ok ()" "device_error r"
    | (set) "q1 = Ok ()" "q2 = Ok ()" "r = Ok ()" "f' = f2\<lparr>fa_dirty := Some (s, encode_entry (fa_type f) v at (seen_block content f s))\<rparr>"
    using fl lo st by blast
  then have "table_change content f f' \<and> (device_error r \<or> r = Ok ())
    \<and> (r = Ok () \<longrightarrow> (\<forall>n < fa_cluster_count f + 2. fat_value content f' n = (if n = c then v else fat_value content f n)))
    \<and> (r \<noteq> Ok () \<longrightarrow> (\<forall>n < fa_cluster_count f + 2. fat_value content f' n \<in> {disk_value content f n, fat_value content f n}))"
  proof cases
    case flush
    then show ?thesis using via [of f1] one seen1' by auto
  next
    case load
    then show ?thesis using via [of f2] one seen1 ld same_shape_trans [OF one(1)] by auto
  next
    case set
    define b where "b = seen_block content f s"
    have shape: "same_shape f f2" using same_shape_trans [OF one(1)] ld set by blast
    note fields = same_shape_fields [OF shape] same_shape_views [OF shape]
    have dirty: "fa_dirty f2 = Some (s, b)" and inv2: "fat_inv content f2" using ld set seen1 s by (auto simp: b_def)
    then have b: "length b = BLOCK_SIZE" by (simp add: fat_inv_def)
    have s': "same_shape f f'" using shape unfolding set(4) by (simp add: same_shape_def)
    have inv': "fat_inv content f'"
      using inv2 dirty b length_encode_entry [of at "fa_type f" b v] at unfolding set(4) b_def [symmetric]
      by (auto simp: fat_inv_def vol_ok_def coherent_def first_fat_sector_def)
    have "table_change content f f'"
      using s' inv' one ld set by (intro table_changeI) auto
    moreover have "fat_value content f' n = (if n = c then v else fat_value content f n)" if n: "n < fa_cluster_count f + 2" for n
    proof -
      obtain s2 at2 where pos2: "fat_position f n = (s2, at2)" by fastforce
      have s2: "first_fat_sector f s2" and at2: "at2 + entry_width (fa_type f) \<le> BLOCK_SIZE" using fat_position_bounds [OF ok n] pos2 by simp_all
      have blk: "seen_block content f' s2 = (if s2 = s then encode_entry (fa_type f) v at b else seen_block content f s2)"
      proof (cases "s2 = s")
        case False
        have "seen_block content f s2 = seen_block content f2 s2" using seen1 [OF set(1) s2] ld [OF set(1)] by simp
        then show ?thesis using False dirty unfolding set(4) by (simp add: seen_block_def [of content "_\<lparr>fa_dirty := _\<rparr>"] seen_block_def [of content f2])
      qed (simp add: set(4) seen_block_def b_def)
      have val: "fat_value content f' n = unat (fat_decode (fa_type f) (seen_block content f' s2) at2)"
        using pos2 same_shape_fields [OF s'] same_shape_views [OF s'] by (simp add: fat_value_seen)
      show ?thesis
      proof (cases "n = c")
        case True
        then show ?thesis unfolding val blk using pos pos2 decode_encode_entry [of at "fa_type f" b v] at b v by simp
      next
        case False
        then have "s2 = s \<Longrightarrow> at2 + entry_width (fa_type f) \<le> at \<or> at + entry_width (fa_type f) \<le> at2"
          using fat_position_apart [OF False, of f] pos pos2 by simp
        then show ?thesis unfolding val blk using False pos2 decode_encode_other [of at "fa_type f" b at2 v] at at2 b
          by (auto simp: fat_value_seen b_def)
      qed
    qed
    ultimately show ?thesis using set by simp
  qed
  then show "table_change content f f'" "device_error r \<or> r = Ok ()"
    "r = Ok () \<Longrightarrow> n < fa_cluster_count f + 2 \<Longrightarrow> fat_value content f' n = (if n = c then v else fat_value content f n)"
    "r \<noteq> Ok () \<Longrightarrow> n < fa_cluster_count f + 2 \<Longrightarrow> fat_value content f' n \<in> {disk_value content f n, fat_value content f n}" by blast+
qed

end

end
