(* ===== verification/Fat_Chain.thy ===== *)
theory Fat_Chain
  imports Fat_Table
begin

text \<open>
  Writing and freeing chains: the clusters found are free, the data goes into them, and the table then links exactly
  them; the chains there were before stay as they are, whatever fails on the way.
\<close>

subsection \<open>Changes confined to a set of clusters\<close>

definition changes_only :: "('d \<Rightarrow> lba \<Rightarrow> block) \<Rightarrow> nat set \<Rightarrow> lba set \<Rightarrow> 'd fat \<Rightarrow> 'd fat \<Rightarrow> bool" where
  \<comment> \<open>outside the tables only blocks of \<open>D\<close> have changed, and the entry of a cluster not in \<open>A\<close> is, on the disk and as seen,
    what it was on the disk or as seen\<close>
  "changes_only content A D f f' \<longleftrightarrow> same_shape f f' \<and> fat_inv content f'
     \<and> (\<forall>l. \<not> in_fats f l \<and> l \<notin> D \<longrightarrow> content (fa_device f') l = content (fa_device f) l)
     \<and> (\<forall>n < fa_cluster_count f + 2. n \<notin> A \<longrightarrow> {fat_value content f' n, disk_value content f' n} \<subseteq> {fat_value content f n, disk_value content f n})"

lemma changes_only_refl: "fat_inv content f \<Longrightarrow> changes_only content A D f f"
  by (simp add: changes_only_def)

lemma changes_only_trans:
  assumes "changes_only content A D f f'" "changes_only content B E f' f''"
  shows "changes_only content (A \<union> B) (D \<union> E) f f''"
proof -
  note s = assms(1)[unfolded changes_only_def] assms(2)[unfolded changes_only_def]
  have shape: "same_shape f f'" using s by blast
  have "\<forall>n < fa_cluster_count f + 2. n \<notin> A \<union> B \<longrightarrow> {fat_value content f'' n, disk_value content f'' n} \<subseteq> {fat_value content f n, disk_value content f n}"
    using s unfolding same_shape_fields [OF shape] by (meson subset_trans UnCI)
  then show ?thesis using s same_shape_trans [OF shape] same_shape_views [OF shape] unfolding changes_only_def by auto
qed

lemma changes_only_mono:
  "changes_only content A D f f' \<Longrightarrow> A \<subseteq> B \<Longrightarrow> D \<subseteq> E \<Longrightarrow> changes_only content B E f f'"
  unfolding changes_only_def by blast

lemma changes_only_fields:
  assumes "changes_only content A D f f'"
  shows "same_shape f f'" "fat_inv content f'" "\<not> in_fats f l \<Longrightarrow> l \<notin> D \<Longrightarrow> content (fa_device f') l = content (fa_device f) l"
  using assms by (auto simp: changes_only_def)

lemma fat_value_clean: "fa_dirty f = None \<Longrightarrow> disk_value content f n = fat_value content f n"
  by (simp add: disk_value_def fat_value_seen seen_block_def)

lemma changes_only_keeps:
  assumes "changes_only content A D f f'" "fa_dirty f = None" "n < fa_cluster_count f + 2" "n \<notin> A"
  shows "fat_value content f' n = fat_value content f n" "disk_value content f' n = fat_value content f n"
  using assms fat_value_clean [OF assms(2)] by (auto simp: changes_only_def)

lemma cluster_sector_unique:
  assumes "2 \<le> c" "2 \<le> c'" "k < fa_spc f" "k' < fa_spc f" "first_sector f c + k = first_sector f c' + k'"
  shows "c = c' \<and> k = k'"
proof -
  have "(c - 2) * fa_spc f + k = (c' - 2) * fa_spc f + k'" using assms(5) by (simp add: first_sector_def)
  then have "c - 2 = c' - 2 \<and> k = k'"
    by (metis assms(3,4) add.commute add_right_cancel div_less div_mult_self1 less_nat_zero_code add_0 mod_less mod_mult_self1)
  then show ?thesis using assms(1,2) by linarith
qed

definition sector_of :: "'d fat \<Rightarrow> nat set \<Rightarrow> lba \<Rightarrow> bool" where
  \<comment> \<open>a block of one of the clusters\<close>
  "sector_of f C l \<longleftrightarrow> (\<exists>c \<in> C. \<exists>k < fa_spc f. l = fa_start f + (first_sector f c + k))"

text \<open>A list of clusters, each entry naming the next and the last one \<open>e\<close>.\<close>

fun links :: "(nat \<Rightarrow> nat) \<Rightarrow> nat \<Rightarrow> nat list \<Rightarrow> bool" where
  "links T e [] \<longleftrightarrow> True"
| "links T e (c # cs) \<longleftrightarrow> T c = (case cs of c' # _ \<Rightarrow> c' | [] \<Rightarrow> e) \<and> links T e cs"

lemma map_result_append_Cons: "map_result ((@) xs) id (map_result ((#) x) id r) = map_result ((@) (xs @ [x])) id r"
  by (cases r) simp_all

lemma links_cong: "(\<And>c. c \<in> set cs \<Longrightarrow> T c = T' c) \<Longrightarrow> links T e cs \<longleftrightarrow> links T' e cs"
  by (induction cs) auto

definition free_set :: "('d \<Rightarrow> lba \<Rightarrow> block) \<Rightarrow> 'd fat \<Rightarrow> nat set" where
  "free_set content f = {c. 2 \<le> c \<and> c < fa_cluster_count f + 2 \<and> fat_value content f c = 0}"

context block_device
begin

lemma set_fat_entry_only:
  assumes "fat_inv content f" "c < fa_cluster_count f + 2" "v \<le> unat (entry_mask (fa_type f))" "set_fat_entry dev c v f = (r, f')"
  shows "changes_only content {c} {} f f'"
proof -
  note e = set_fat_entry_change [OF assms]
  show ?thesis
    using e(1) e(3) e(4) unfolding changes_only_def table_change_def by (cases "r = Ok ()") auto
qed

lemma flush_fat_only:
  assumes "fat_inv content f" "flush_fat dev f = (r, f')"
  shows "changes_only content {} {} f f'" "r = Ok () \<Longrightarrow> n < fa_cluster_count f + 2 \<Longrightarrow> fat_value content f' n = fat_value content f n"
proof -
  note e = flush_fat_change [OF assms]
  show "changes_only content {} {} f f'"
    using e(1) unfolding changes_only_def table_change_def fat_value_clean [OF e(2), symmetric] by auto
  show "fat_value content f' n = fat_value content f n" if "r = Ok ()" "n < fa_cluster_count f + 2"
    using e(4) [OF that] fat_value_clean [OF e(2)] by metis
qed

lemma link_loop_links:
  assumes "fat_inv content f" "\<forall>c \<in> set cs. c < fa_cluster_count f + 2" "distinct cs"
    "link_loop dev cs f = (r, f')"
  shows "changes_only content (set cs) {} f f' \<and> (device_error r \<or> r = Ok ())
    \<and> (r = Ok () \<longrightarrow> links (fat_value content f') (unat (entry_mask (fa_type f))) cs
        \<and> (\<forall>n < fa_cluster_count f + 2. n \<notin> set cs \<longrightarrow> fat_value content f' n = fat_value content f n))"
  using assms
proof (induction cs arbitrary: f)
  case Nil
  then show ?case by (simp add: changes_only_refl)
next
  case (Cons c cs)
  define e where "e = unat (entry_mask (fa_type f))"
  define v where "v = (case cs of c' # _ \<Rightarrow> c' | [] \<Rightarrow> e)"
  have ok: "vol_ok f" using Cons.prems(1) by (simp add: fat_inv_def)
  have small: "fa_cluster_count f + 2 \<le> e"
    using ok by (cases "fa_type f") (auto simp: vol_ok_def e_def entry_mask_def chain_bad_def)
  have v: "v \<le> unat (entry_mask (fa_type f))" using Cons.prems(2) small unfolding v_def e_def by (auto split: list.split)
  have c: "c < fa_cluster_count f + 2" using Cons.prems(2) by simp
  obtain q f1 where q: "set_fat_entry dev c v f = (q, f1)" by fastforce
  note one = set_fat_entry_change [OF Cons.prems(1) c v q] and only = set_fat_entry_only [OF Cons.prems(1) c v q]
  note same = same_shape_fields [OF changes_only_fields(1) [OF only]]
  have run: "(case q of Ok _ \<Rightarrow> link_loop dev cs f1 | Err x \<Rightarrow> (Err x, f1)) = (r, f')"
    using Cons.prems(4) q unfolding v_def e_def by (simp add: fbind_def)
  show ?case
  proof (cases "q = Ok ()")
    case False
    then have "r \<noteq> Ok ()" "device_error r" "f' = f1" using run one(2) by auto
    then show ?thesis using changes_only_mono [OF only, of "set (c # cs)" "{}"] by auto
  next
    case True
    then have run: "link_loop dev cs f1 = (r, f')" using run by simp
    have IH: "changes_only content (set cs) {} f1 f' \<and> (device_error r \<or> r = Ok ())
    \<and> (r = Ok () \<longrightarrow> links (fat_value content f') e cs \<and> (\<forall>n < fa_cluster_count f + 2. n \<notin> set cs \<longrightarrow> fat_value content f' n = fat_value content f1 n))"
      using Cons.IH [OF changes_only_fields(2) [OF only] _ _ run] Cons.prems(2,3) by (simp add: same e_def)
    have "fat_value content f' c = v" if "r = Ok ()"
      using IH that Cons.prems(3) c one(3) [OF True c] by auto
    moreover have "fat_value content f' n = fat_value content f n" if "r = Ok ()" "n < fa_cluster_count f + 2" "n \<notin> set (c # cs)" for n
      using IH that one(3) [OF True that(2)] by auto
    ultimately show ?thesis using IH changes_only_trans [OF only, of "set cs" "{}" f']
      unfolding e_def [symmetric] by (auto simp: v_def)
  qed
qed

lemma free_loop_frees:
  assumes "fat_inv content f" "\<forall>c \<in> set cs. c < fa_cluster_count f + 2" "free_loop dev cs f = (r, f')"
  shows "changes_only content (set cs) {} f f' \<and> (device_error r \<or> r = Ok ())
    \<and> (r = Ok () \<longrightarrow> (\<forall>n < fa_cluster_count f + 2. fat_value content f' n = (if n \<in> set cs then 0 else fat_value content f n)))"
  using assms
proof (induction cs arbitrary: f)
  case Nil
  then show ?case by (simp add: changes_only_refl)
next
  case (Cons c cs)
  have c: "c < fa_cluster_count f + 2" using Cons.prems(2) by simp
  obtain q f1 where q: "set_fat_entry dev c 0 f = (q, f1)" by fastforce
  note one = set_fat_entry_change [OF Cons.prems(1) c le0 q] and only = set_fat_entry_only [OF Cons.prems(1) c le0 q]
  note same = same_shape_fields [OF changes_only_fields(1) [OF only]]
  have run: "(case q of Ok _ \<Rightarrow> free_loop dev cs f1 | Err x \<Rightarrow> (Err x, f1)) = (r, f')"
    using Cons.prems(3) q by (simp add: fbind_def)
  show ?case
  proof (cases "q = Ok ()")
    case False
    then have "r \<noteq> Ok ()" "device_error r" "f' = f1" using run one(2) by auto
    then show ?thesis using changes_only_mono [OF only, of "set (c # cs)" "{}"] by auto
  next
    case True
    then have run: "free_loop dev cs f1 = (r, f')" using run by simp
    have IH: "changes_only content (set cs) {} f1 f' \<and> (device_error r \<or> r = Ok ())
    \<and> (r = Ok () \<longrightarrow> (\<forall>n < fa_cluster_count f + 2. fat_value content f' n = (if n \<in> set cs then 0 else fat_value content f1 n)))"
      using Cons.IH [OF changes_only_fields(2) [OF only] _ run] Cons.prems(2) by (simp add: same)
    then show ?thesis using one(3) [OF True] changes_only_trans [OF only, of "set cs" "{}" f'] by auto
  qed
qed

lemma fat_entry_inv:
  assumes inv: "fat_inv content f" and n: "n < fa_cluster_count f + 2" and run: "fat_entry dev n f = (r, f')"
  shows "fat_inv content f'"
proof -
  have ok: "vol_ok f" and coh: "coherent content f" using inv by (auto simp: fat_inv_def)
  obtain s at where pos: "fat_position f n = (s, at)" by fastforce
  have s: "first_fat_sector f s" using fat_position_bounds(1) [OF ok n] pos by simp
  have "fa_cache f' = fa_cache f \<or> ((\<exists>b. fa_cache f' = Some (s, b)) \<and> (\<forall>b. fa_dirty f \<noteq> Some (s, b)))"
    using run unfolding fat_entry_def pos
    by (auto simp: on_device_def Let_def split: option.splits prod.splits result.splits if_splits)
  then have "\<forall>t b. fa_cache f' = Some (t, b) \<longrightarrow> first_fat_sector f t \<and> (\<forall>b'. fa_dirty f \<noteq> Some (t, b'))"
    using inv s by (auto simp: fat_inv_def)
  then show ?thesis using same_volume_inv [OF inv fat_entry_view(1) [OF coh run]] by blast
qed

lemma fat_next_inv:
  assumes "fat_inv content f" "n < fa_cluster_count f + 2" "fat_next dev n f = (r, f')"
  shows "fat_inv content f'"
proof -
  obtain q f1 where q: "fat_entry dev n f = (q, f1)" by fastforce
  have "f' = f1" using assms(3) q by (auto simp: fat_next_def fbind_def split: result.splits if_splits)
  then show ?thesis using fat_entry_inv [OF assms(1,2) q] by simp
qed

lemma fat_chain_loop_walk:
  assumes "fat_inv content f" "fat_chain_loop dev cluster chain f = (r, f')" "length chain \<le> fa_cluster_count f"
  shows "same_volume content f f' \<and> fat_inv content f' \<and>
    (device_error r \<or> r = map_result ((@) chain) id (chain_walk content f None (fa_cluster_count f - length chain) cluster got))"
  using assms
proof (induction "fa_cluster_count f - length chain" arbitrary: cluster chain f got rule: less_induct)
  case less
  note unfold = fat_chain_loop.simps [of dev cluster chain f]
  have coh: "coherent content f" using less.prems(1) by (simp add: fat_inv_def)
  show ?case
  proof (cases cluster)
    case None
    then have "r = Ok chain \<and> f' = f" using less.prems(2) unfolding unfold by simp
    then show ?thesis using None less.prems(1) by (simp add: same_volume_refl [OF coh])
  next
    case (Some c)
    show ?thesis
    proof (cases "cluster_ok f c \<and> length chain < fa_cluster_count f")
      case False
      then have "r = (if cluster_ok f c then Err ChainLoop else Err (BadCluster c)) \<and> f' = f"
        using less.prems(2) unfolding unfold unfolding Some by (auto simp: not_less)
      then show ?thesis using False less.prems(1,3) Some by (auto simp: same_volume_refl [OF coh] chain_walk.simps covered_def not_less)
    next
      case True
      then have fuel: "fa_cluster_count f - length chain = Suc (fa_cluster_count f - length (chain @ [c]))" by auto
      obtain q f1 where q: "fat_next dev c f = (q, f1)" by fastforce
      note v = fat_next_view [OF coh q]
      have inv1: "fat_inv content f1" using fat_next_inv [OF less.prems(1) _ q] True by (simp add: cluster_ok_def)
      have run: "(case q of Err e \<Rightarrow> (Err e, f1) | Ok cluster' \<Rightarrow> fat_chain_loop dev cluster' (chain @ [c]) f1) = (r, f')"
        using less.prems(2) True q unfolding unfold unfolding Some by (simp split: result.splits)
      note same = same_volume_fields [OF v(1)] same_volume_views [OF v(1)] same_volume_walk [OF v(1)]
      show ?thesis
      proof (cases q)
        case (Err e)
        then have "r = Err e" "f' = f1" using run by auto
        then show ?thesis using v inv1 Err Some True fuel
          by (auto simp: chain_walk.simps covered_def split: result.split dest: sym)
      next
        case (Ok cluster')
        then have "fat_chain_loop dev cluster' (chain @ [c]) f1 = (r, f')" using run by simp
        then have "same_volume content f1 f' \<and> fat_inv content f' \<and>
          (device_error r \<or> r = map_result ((@) (chain @ [c])) id (chain_walk content f None (fa_cluster_count f - length (chain @ [c])) cluster' (got + cluster_size f)))"
          using less.hyps [of f1 "chain @ [c]" cluster' "got + cluster_size f"] inv1 True fuel by (simp add: same)
        moreover have "fat_step content f c = (Ok cluster' :: (nat option, 'e fat_error) result)" using v(2) Ok by auto
        ultimately show ?thesis using same_volume_trans [OF v(1)] True Some fuel
          by (auto simp: chain_walk.simps covered_def map_result_append_Cons)
      qed
    qed
  qed
qed

lemma fat_chain_walk:
  assumes "fat_inv content f" "fat_chain dev first f = (r, f')"
  shows "same_volume content f f'" "fat_inv content f'"
    "device_error r \<or> r = chain_walk content f None (fa_cluster_count f) (Some first) 0"
proof -
  have "map_result ((@) []) id x = x" for x :: "(nat list, 'e fat_error) result" by (cases x) simp_all
  then show "same_volume content f f'" "fat_inv content f'"
    "device_error r \<or> r = chain_walk content f None (fa_cluster_count f) (Some first) 0"
    using fat_chain_loop_walk [of f "Some first" "[]" r f' 0] assms by (auto simp: fat_chain_def)
qed

lemma allocate_loop_free:
  assumes "fat_inv content f" "allocate_loop dev count start is clusters f = (r, f')" "length clusters \<le> count"
    "0 < fa_cluster_count f"
  shows "same_volume content f f' \<and> fat_inv content f' \<and> (device_error r \<or>
    r = Ok (clusters @ take (count - length clusters)
      (filter (\<lambda>c. fat_value content f c = 0) (map (\<lambda>i. 2 + (start - 2 + i) mod fa_cluster_count f) is))))"
  using assms
proof (induction "is" arbitrary: clusters f)
  case Nil
  then show ?case by (simp add: same_volume_refl fat_inv_def)
next
  case (Cons i "is")
  have coh: "coherent content f" using Cons.prems(1) by (simp add: fat_inv_def)
  show ?case
  proof (cases "length clusters = count")
    case True
    then show ?thesis using Cons.prems coh by (simp add: same_volume_refl)
  next
    case False
    define c where "c = 2 + (start - 2 + i) mod fa_cluster_count f"
    have c: "c < fa_cluster_count f + 2" using Cons.prems(4) by (simp add: c_def)
    obtain q f1 where q: "fat_entry dev c f = (q, f1)" by fastforce
    note v = fat_entry_view [OF coh q] and inv1 = fat_entry_inv [OF Cons.prems(1) c q]
    note same = same_volume_fields [OF v(1)] same_volume_views [OF v(1)]
    show ?thesis
    proof (cases q)
      case (Err e)
      then show ?thesis using Cons.prems(2) False q v inv1 by (auto simp: c_def)
    next
      case (Ok x)
      then have x: "x = fat_value content f c" using v(2) by simp
      have run: "allocate_loop dev count start is (if x = 0 then clusters @ [c] else clusters) f1 = (r, f')"
        using Cons.prems(2) False q Ok by (auto simp: c_def split: if_splits)
      have "same_volume content f1 f' \<and> fat_inv content f' \<and> (device_error r \<or>
        r = Ok ((if x = 0 then clusters @ [c] else clusters) @ take (count - length (if x = 0 then clusters @ [c] else clusters))
          (filter (\<lambda>c. fat_value content f c = 0) (map (\<lambda>i. 2 + (start - 2 + i) mod fa_cluster_count f) is))))"
        using Cons.IH [OF inv1 run] Cons.prems(3,4) False by (auto simp: same)
      moreover have "take (count - length clusters) (c # xs) = c # take (count - length (clusters @ [c])) xs" for xs
        using False Cons.prems(3) by (simp add: take_Cons' Suc_diff_Suc less_le)
      moreover have "map (\<lambda>i. 2 + (start - 2 + i) mod fa_cluster_count f) (i # is) = c # map (\<lambda>i. 2 + (start - 2 + i) mod fa_cluster_count f) is"
        by (simp add: c_def)
      ultimately show ?thesis using same_volume_trans [OF v(1)] x by (simp only: filter.simps) auto
    qed
  qed
qed

lemma allocate_free:
  assumes inv: "fat_inv content f" and run: "allocate dev count f = (r, f')" and pos: "0 < fa_cluster_count f"
  shows "same_volume content f (f'\<lparr>fa_next_free := fa_next_free f\<rparr>)" "fat_inv content f'" "fa_dirty f' = fa_dirty f"
    "device_error r \<or> (if card (free_set content f) < count then r = Err NoSpace
       else \<exists>cs. r = Ok cs \<and> length cs = count \<and> distinct cs \<and> set cs \<subseteq> free_set content f)"
proof -
  define start where "start = max 2 (min (fa_next_free f) (fa_cluster_count f + 1))"
  define all where "all = map (\<lambda>i. 2 + (start - 2 + i) mod fa_cluster_count f) [0..<fa_cluster_count f]"
  define frees where "frees = filter (\<lambda>c. fat_value content f c = 0) all"
  obtain q f1 where q: "allocate_loop dev count start [0..<fa_cluster_count f] [] f = (q, f1)" by fastforce
  from allocate_loop_free [OF inv q] pos have v: "same_volume content f f1" "fat_inv content f1" "device_error q \<or> q = Ok (take count frees)"
    by (simp_all add: frees_def all_def)
  have "set all = (\<lambda>x. 2 + x) ` ((\<lambda>i. (start - 2 + i) mod fa_cluster_count f) ` {0..<fa_cluster_count f})"
    by (simp add: all_def image_comp comp_def)
  also have "\<dots> = {2..<fa_cluster_count f + 2}"
    unfolding rotated_range [OF pos] using image_add_atLeastLessThan [of 2 0 "fa_cluster_count f"]
    by (metis add.commute add_0)
  finally have all: "set all = {2..<fa_cluster_count f + 2}" .
  have "distinct all" by (rule card_distinct) (simp add: all, simp add: all_def)
  then have frees: "set frees = free_set content f" "distinct frees" "length frees = card (free_set content f)"
    using all distinct_card [of frees] by (auto simp: frees_def free_set_def)
  have run': "(case q of Err e \<Rightarrow> (Err e, f1) | Ok clusters \<Rightarrow> if length clusters < count then (Err NoSpace, f1)
      else (Ok clusters, f1\<lparr>fa_next_free := (if clusters = [] then 2 else last clusters + 1)\<rparr>)) = (r, f')"
    using run q by (auto simp: allocate_def Let_def start_def fbind_def split: result.splits if_splits)
  have f1: "f' = f1\<lparr>fa_next_free := fa_next_free f'\<rparr>" using run' by (auto split: result.splits if_splits)
  have nf: "fa_next_free f1 = fa_next_free f" using same_volume_fields [OF v(1)] by simp
  have "f'\<lparr>fa_next_free := fa_next_free f\<rparr> = f1" by (subst f1) (simp add: nf [symmetric])
  then show "same_volume content f (f'\<lparr>fa_next_free := fa_next_free f\<rparr>)" using v(1) by simp
  show "fat_inv content f'" using v(2) by (subst f1) (simp add: fat_inv_def vol_ok_def coherent_def first_fat_sector_def)
  show "fa_dirty f' = fa_dirty f" using same_volume_fields [OF v(1)] by (subst f1) simp
  show "device_error r \<or> (if card (free_set content f) < count then r = Err NoSpace
       else \<exists>cs. r = Ok cs \<and> length cs = count \<and> distinct cs \<and> set cs \<subseteq> free_set content f)"
  proof (cases "device_error q")
    case False
    then have "q = Ok (take count frees)" using v(3) by blast
    then have r: "r = (if length (take count frees) < count then Err NoSpace else Ok (take count frees))" using run' by (auto split: if_splits)
    show ?thesis
    proof (cases "card (free_set content f) < count")
      case True
      then show ?thesis using r frees by simp
    next
      case False
      then have "length (take count frees) = count" using frees by simp
      then show ?thesis using r frees set_take_subset [of count frees] False by (auto intro!: exI [of _ "take count frees"])
    qed
  qed (use run' in auto)
qed

lemma run_of_consecutive:
  assumes "\<forall>t < run. i + t < length cs \<and> cs ! (i + t) = cs ! i + t" "i < length cs"
  shows "\<forall>t < run_of cs m i run. i + t < length cs \<and> cs ! (i + t) = cs ! i + t"
  using assms
proof (induction cs m i run rule: run_of.induct)
  case (1 cs m i run)
  show ?case
  proof (cases "i + run < length cs \<and> cs ! (i + run) = cs ! i + run \<and> run < m")
    case True
    then have "\<forall>t < run + 1. i + t < length cs \<and> cs ! (i + t) = cs ! i + t" using 1(2) by (auto simp: less_Suc_eq)
    then have "\<forall>t < run_of cs m i (run + 1). i + t < length cs \<and> cs ! (i + t) = cs ! i + t" using 1(1) [OF True] 1(3) by blast
    then show ?thesis unfolding run_of.simps [of cs m i run] if_P [OF True] .
  next
    case False
    then show ?thesis using 1(2) unfolding run_of.simps [of cs m i run] if_not_P [OF False] by blast
  qed
qed

lemma write_runs_data:
  assumes "write_runs dev cs bl (fa_spc f) m i f = (r, f')" "\<forall>c \<in> set cs. 2 \<le> c" "distinct cs"
    "length bl = length cs * fa_spc f" "\<forall>b \<in> set bl. length b = BLOCK_SIZE"
  shows "f' = f\<lparr>fa_device := fa_device f'\<rparr> \<and> (device_error r \<or> r = Ok ())
    \<and> (\<forall>l. \<not> sector_of f (set (drop i cs)) l \<longrightarrow> content (fa_device f') l = content (fa_device f) l)
    \<and> (r = Ok () \<longrightarrow> (\<forall>j. i \<le> j \<and> j < length cs \<longrightarrow>
         (\<forall>k < fa_spc f. content (fa_device f') (fa_start f + (first_sector f (cs ! j) + k)) = bl ! (j * fa_spc f + k))))"
  using assms
proof (induction "length cs - i" arbitrary: i f rule: less_induct)
  case less
  note unfold = write_runs.simps [of dev cs bl "fa_spc f" m i f]
  show ?case
  proof (cases "i < length cs")
    case False
    then have "r = Ok () \<and> f' = f" using less.prems(1) unfolding unfold by simp
    then show ?thesis using False by auto
  next
    case True
    define run where "run = run_of cs m i 1"
    have run: "i + t < length cs" "cs ! (i + t) = cs ! i + t" if "t < run" for t
      using run_of_consecutive [of 1 i cs m] True that by (auto simp: run_def)
    have run1: "1 \<le> run" unfolding run_def by (rule run_of_ge)
    have fits: "i + run \<le> length cs" using run(1) [of "run - 1"] run1 by simp
    have ci: "2 \<le> cs ! i" using True less.prems(2) by simp
    define piece where "piece = slice (i * fa_spc f) ((i + run) * fa_spc f) bl"
    have plen: "length piece = run * fa_spc f"
      using fits less.prems(4) mult_le_mono1 [OF fits, of "fa_spc f"] by (simp add: piece_def length_slice algebra_simps)
    have pb: "\<forall>b \<in> set piece. length b = BLOCK_SIZE" using less.prems(5) unfolding piece_def slice_def by (meson in_set_dropD in_set_takeD)
    have pn: "piece ! (t * fa_spc f + k) = bl ! ((i + t) * fa_spc f + k)" if "t < run" "k < fa_spc f" for t k
    proof -
      have "t * fa_spc f + k < run * fa_spc f" using that by (metis add.commute add_less_le_mono mult_Suc mult_le_mono1 Suc_leI less_le_trans nat_add_left_cancel_less)
      then show ?thesis using plen fits less.prems(4) mult_le_mono1 [OF fits, of "fa_spc f"] unfolding piece_def
        by (subst slice_nth) (simp_all add: algebra_simps)
    qed
    let ?s = "fa_start f + first_sector f (cs ! i)"
    obtain u d where w: "dv_write_blocks dev ?s piece (fa_device f) = (u, d)" by fastforce
    note wl = write_many [OF pb w]
    have at: "fa_start f + (first_sector f (cs ! (i + t)) + k) = ?s + (t * fa_spc f + k)" if "t < run" for t k
      using run(2) [OF that] first_sector_add [OF ci, of f t] by simp
    have mine: "sector_of f (set (drop i cs)) l" if "?s \<le> l" "l < ?s + run * fa_spc f" for l
    proof -
      define t k where "t = (l - ?s) div fa_spc f" and "k = (l - ?s) mod fa_spc f"
      have "l - ?s < run * fa_spc f" using that by linarith
      then have t: "t < run" and "0 < fa_spc f" unfolding t_def by (auto simp: less_mult_imp_div_less intro: gr0I)
      then have k: "k < fa_spc f" by (simp add: k_def)
      have "l = ?s + (t * fa_spc f + k)" using that(1) by (simp add: t_def k_def)
      then have "l = fa_start f + (first_sector f (cs ! (i + t)) + k)" using at [OF t, of k] by simp
      moreover have "cs ! (i + t) \<in> set (drop i cs)" using run(1) [OF t] by (metis Cons_nth_drop_Suc drop_drop list.set_intros(1) set_drop_subset add.commute subsetD)
      ultimately show ?thesis using k unfolding sector_of_def by blast
    qed
    let ?f1 = "f\<lparr>fa_device := d\<rparr>"
    have out: "content d l = content (fa_device f) l" if "\<not> sector_of f (set (drop i cs)) l" for l
      using wl mine [of l] that unfolding plen by blast
    have tail: "sector_of f (set (drop (i + run) cs)) l \<Longrightarrow> sector_of f (set (drop i cs)) l" for l
      using set_drop_subset_set_drop [of i "i + run" cs] unfolding sector_of_def by auto
    show ?thesis
    proof (cases u)
      case (Err e)
      then have "r = Err (Device e)" "f' = ?f1" using less.prems(1) True w unfolding unfold
        by (auto simp: run_def piece_def Let_def on_device_def lba_offset_def)
      then show ?thesis using out by simp
    next
      case (Ok x)
      have sec: "first_sector ?f1 = first_sector f" "sector_of ?f1 = sector_of f" by (simp_all add: fun_eq_iff first_sector_def sector_of_def)
      have "write_runs dev cs bl (fa_spc ?f1) m (i + run) ?f1 = (r, f')"
        using less.prems(1) True w Ok unfolding unfold by (simp add: run_def piece_def Let_def on_device_def lba_offset_def)
      then have IH: "f' = ?f1\<lparr>fa_device := fa_device f'\<rparr> \<and> (device_error r \<or> r = Ok ())
        \<and> (\<forall>l. \<not> sector_of f (set (drop (i + run) cs)) l \<longrightarrow> content (fa_device f') l = content d l)
        \<and> (r = Ok () \<longrightarrow> (\<forall>j. i + run \<le> j \<and> j < length cs \<longrightarrow>
             (\<forall>k < fa_spc f. content (fa_device f') (fa_start f + (first_sector f (cs ! j) + k)) = bl ! (j * fa_spc f + k))))"
        using less.hyps [of "i + run" ?f1] less.prems(2-5) True run1 fits by (simp add: sec)
      have "content (fa_device f') (fa_start f + (first_sector f (cs ! j) + k)) = bl ! (j * fa_spc f + k)"
        if "r = Ok ()" "i \<le> j" "j < length cs" "k < fa_spc f" for j k
      proof (cases "i + run \<le> j")
        case False
        define t where "t = j - i"
        have t: "t < run" "j = i + t" using False that(2) by (auto simp: t_def)
        have "\<not> sector_of f (set (drop (i + run) cs)) (fa_start f + (first_sector f (cs ! j) + k))"
        proof
          assume "sector_of f (set (drop (i + run) cs)) (fa_start f + (first_sector f (cs ! j) + k))"
          then obtain c k' where c: "c \<in> set (drop (i + run) cs)" "k' < fa_spc f" "first_sector f (cs ! j) + k = first_sector f c + k'"
            unfolding sector_of_def by auto
          then have "cs ! j = c" using cluster_sector_unique [OF _ _ that(4) c(2,3)] less.prems(2) that(3) in_set_dropD [of c] by (metis nth_mem)
          moreover obtain j' where "i + run \<le> j'" "j' < length cs" "c = cs ! j'"
            using c(1) by (metis (no_types, lifting) in_set_conv_nth le_add1 length_drop less_diff_conv nth_drop add.commute fits)
          ultimately show False using less.prems(3) that(3) False by (auto simp: nth_eq_iff_index_eq)
        qed
        then have "content (fa_device f') (fa_start f + (first_sector f (cs ! j) + k)) = content d (?s + (t * fa_spc f + k))"
          using IH at [OF t(1), of k] t(2) by metis
        also have "\<dots> = piece ! (t * fa_spc f + k)"
        proof -
          have "t * fa_spc f + k < length piece" unfolding plen using t(1) that(4)
            by (metis add.commute add_less_le_mono mult_Suc mult_le_mono1 Suc_leI less_le_trans nat_add_left_cancel_less)
          then show ?thesis using wl Ok by simp
        qed
        finally show ?thesis using pn [OF t(1) that(4)] t(2) by simp
      qed (use IH that in blast)
      moreover have "\<forall>l. \<not> sector_of f (set (drop i cs)) l \<longrightarrow> content (fa_device f') l = content (fa_device f) l"
        using IH tail out by metis
      moreover have "f' = f\<lparr>fa_device := fa_device f'\<rparr>" using IH by simp
      ultimately show ?thesis using IH by blast
    qed
  qed
qed

end

end
