(* ===== verification/Fat_Store.thy ===== *)
theory Fat_Store
  imports Fat_Chain
begin

text \<open>
  \<open>write_chain\<close> and \<open>free_chain\<close>: what is written is read back, and every chain that was sound before a change is
  sound and holds the same data after it, as the code sees the volume and as a power cut at any point leaves it.
\<close>

subsection \<open>Data in clusters\<close>

lemma concat_blocks: "concat (map (\<lambda>j. map (\<lambda>k. g (j * s + k)) [0..<s]) [0..<n]) = map g [0..<n * s]"
proof (induction n)
  case (Suc n)
  have "[0..<Suc n * s] = [0..<n * s] @ map (\<lambda>k. n * s + k) [0..<s]"
    unfolding map_add_const_upt using upt_add_eq_append [of 0 "n * s" s] by (simp add: add.commute)
  then show ?case using Suc by simp
qed simp

lemma blocks_of_whole:
  assumes "length bytes = n * BLOCK_SIZE"
  shows "concat (blocks_of bytes) = bytes" "length (blocks_of bytes) = n" "\<forall>b \<in> set (blocks_of bytes). length b = BLOCK_SIZE"
proof -
  have n: "length bytes div BLOCK_SIZE = n" using assms by (simp add: BLOCK_SIZE_def)
  have row: "slice (i * BLOCK_SIZE) ((i + 1) * BLOCK_SIZE) bytes = map (\<lambda>k. bytes ! (i * BLOCK_SIZE + k)) [0..<BLOCK_SIZE]" if "i < n" for i
  proof (rule nth_equalityI)
    have "(i + 1) * BLOCK_SIZE \<le> n * BLOCK_SIZE" using that by (intro mult_le_mono1) simp
    then show "length (slice (i * BLOCK_SIZE) ((i + 1) * BLOCK_SIZE) bytes) = length (map (\<lambda>k. bytes ! (i * BLOCK_SIZE + k)) [0..<BLOCK_SIZE])"
      using assms by (simp add: slice_simps)
    then show "slice (i * BLOCK_SIZE) ((i + 1) * BLOCK_SIZE) bytes ! k = map (\<lambda>k. bytes ! (i * BLOCK_SIZE + k)) [0..<BLOCK_SIZE] ! k"
      if "k < length (slice (i * BLOCK_SIZE) ((i + 1) * BLOCK_SIZE) bytes)" for k
      using that by (simp add: slice_simps)
  qed
  then have "blocks_of bytes = map (\<lambda>i. map (\<lambda>k. bytes ! (i * BLOCK_SIZE + k)) [0..<BLOCK_SIZE]) [0..<n]"
    unfolding blocks_of_def n by (intro map_cong) auto
  then have rows: "blocks_of bytes = map (\<lambda>i. map (\<lambda>k. bytes ! (i * BLOCK_SIZE + k)) [0..<BLOCK_SIZE]) [0..<n]" .
  show "concat (blocks_of bytes) = bytes" unfolding rows concat_blocks by (metis assms map_nth)
  show "length (blocks_of bytes) = n" "\<forall>b \<in> set (blocks_of bytes). length b = BLOCK_SIZE" unfolding rows by auto
qed

lemma concat_concat: "concat (map (\<lambda>j. concat (g j)) xs) = concat (concat (map g xs))"
  by (induction xs) simp_all

lemma first_sector_above:
  assumes "vol_ok f" "sector_of f C l"
  shows "\<not> in_fats f l"
  using assms by (auto simp: vol_ok_def sector_of_def in_fats_def first_sector_def)

definition sectors_in :: "'d fat \<Rightarrow> nat set \<Rightarrow> lba set" where
  "sectors_in f C = Collect (sector_of f C)"

lemma sectors_in_empty [simp]: "sectors_in f {} = {}"
  by (simp add: sectors_in_def sector_of_def)

lemma same_shape_sectors: "same_shape f f' \<Longrightarrow> sectors_in f' = sectors_in f"
  unfolding sectors_in_def [abs_def] sector_of_def [abs_def] by (simp only: same_shape_fields same_shape_views)

definition clusters_needed :: "'d fat \<Rightarrow> nat \<Rightarrow> nat" where
  "clusters_needed f n = (n + cluster_size f - 1) div cluster_size f"

definition chain_of :: "('d \<Rightarrow> lba \<Rightarrow> block) \<Rightarrow> 'd fat \<Rightarrow> nat \<Rightarrow> (nat list, 'e fat_error) result" where
  \<comment> \<open>the clusters of a file or directory, none for an empty file\<close>
  "chain_of content f first = (if first = 0 then Ok [] else chain_walk content f None (fa_cluster_count f) (Some first) 0)"

lemma device_change_only:
  \<comment> \<open>blocks outside the tables are written\<close>
  assumes "fat_inv content f" "f' = f\<lparr>fa_device := fa_device f'\<rparr>"
    "\<forall>l. l \<notin> D \<longrightarrow> content (fa_device f') l = content (fa_device f) l" "\<forall>l \<in> D. \<not> in_fats f l"
  shows "changes_only content {} D f f'" "fat_value content f' n = fat_value content f n \<or> \<not> n < fa_cluster_count f + 2"
proof -
  have shape: "same_shape f f'" by (subst assms(2)) (simp add: same_shape_def)
  have fields: "fa_cache f' = fa_cache f" "fa_dirty f' = fa_dirty f" by (subst assms(2), simp)+
  note same = same_shape_fields [OF shape] same_shape_views [OF shape]
  have fats: "content (fa_device f') (fa_start f + s) = content (fa_device f) (fa_start f + s)" if "first_fat_sector f s" for s
  proof -
    have "0 < fa_fat_count f" using assms(1) by (simp add: fat_inv_def vol_ok_def)
    then have "fa_fat_size f \<le> fa_fat_count f * fa_fat_size f" by simp
    then have "in_fats f (fa_start f + s)" using that unfolding in_fats_def first_fat_sector_def by linarith
    then show ?thesis using assms(3,4) by blast
  qed
  have inv: "fat_inv content f'" using assms(1) fats unfolding fat_inv_def coherent_def by (auto simp: same fields)
  have ok: "vol_ok f" using assms(1) by (simp add: fat_inv_def)
  have vals: "fat_value content f' n = fat_value content f n" "disk_value content f' n = disk_value content f n" if "n < fa_cluster_count f + 2" for n
    using fats [OF fat_position_bounds(1) [OF ok that]] by (simp_all add: fat_value_seen disk_value_def seen_block_def same fields split: option.split)
  show "changes_only content {} D f f'" using shape inv vals assms(3) by (auto simp: changes_only_def)
  show "fat_value content f' n = fat_value content f n \<or> \<not> n < fa_cluster_count f + 2" using vals by blast
qed

subsection \<open>Sound chains\<close>

definition sound_chain :: "('d \<Rightarrow> lba \<Rightarrow> block) \<Rightarrow> 'd fat \<Rightarrow> nat \<Rightarrow> nat list \<Rightarrow> bool" where
  \<comment> \<open>following the table from \<open>first\<close> ends, and passes the clusters \<open>cs\<close>\<close>
  "sound_chain content f first cs \<longleftrightarrow> chain_walk content f None (fa_cluster_count f) (Some first) 0 = (Ok cs :: (nat list, unit fat_error) result)"

definition remounted :: "'d fat \<Rightarrow> 'd fat" where
  \<comment> \<open>only what is on the disk\<close>
  "remounted f = f\<lparr>fa_cache := None, fa_dirty := None\<rparr>"

definition chains_kept :: "('d \<Rightarrow> lba \<Rightarrow> block) \<Rightarrow> 'd fat \<Rightarrow> 'd fat \<Rightarrow> bool" where
  "chains_kept content f f' \<longleftrightarrow> (\<forall>first cs. sound_chain content f first cs \<longrightarrow>
     sound_chain content f' first cs \<and> sound_chain content (remounted f') first cs
     \<and> (\<forall>c \<in> set cs. cluster_data content f' c = cluster_data content f c))"

fun cut :: "nat option \<Rightarrow> nat \<Rightarrow> nat \<Rightarrow> nat list \<Rightarrow> nat list" where
  "cut limit cb got [] = []"
| "cut limit cb got (c # cs) = (if covered limit got then [] else c # cut limit cb (got + cb) cs)"

lemma chain_walk_SomeE:
  assumes "chain_walk content f None fuel (Some x) got = (Ok cs :: (nat list, 'x fat_error) result)"
  obtains fuel' nxt cs' where "fuel = Suc fuel'" "cluster_ok f x" "fat_step content f x = (Ok nxt :: (nat option, 'x fat_error) result)"
    "chain_walk content f None fuel' nxt (got + cluster_size f) = (Ok cs' :: (nat list, 'x fat_error) result)" "cs = x # cs'"
proof -
  have ok: "cluster_ok f x" using assms by (auto simp: chain_walk.simps covered_def split: if_splits)
  then obtain fuel' where fuel: "fuel = Suc fuel'" using assms by (cases fuel) (auto simp: chain_walk.simps covered_def)
  then obtain nxt where nxt: "fat_step content f x = (Ok nxt :: (nat option, 'x fat_error) result)"
    using assms ok by (auto simp: chain_walk.simps covered_def split: result.splits)
  have "map_result ((#) x) id (chain_walk content f None fuel' nxt (got + cluster_size f)) = (Ok cs :: (nat list, 'x fat_error) result)"
    using assms ok fuel nxt by (simp add: chain_walk.simps covered_def)
  then obtain cs' where "chain_walk content f None fuel' nxt (got + cluster_size f) = (Ok cs' :: (nat list, 'x fat_error) result)" "cs = x # cs'"
    by (cases "chain_walk content f None fuel' nxt (got + cluster_size f) :: (nat list, 'x fat_error) result") auto
  then show thesis using that fuel ok nxt by blast
qed

lemma chain_walk_cut:
  assumes "chain_walk content f None fuel c got' = (Ok cs :: (nat list, 'x fat_error) result)"
  shows "chain_walk content f limit fuel c got = (Ok (cut limit (cluster_size f) got cs) :: (nat list, 'y fat_error) result)"
  using assms
proof (induction fuel arbitrary: c got got' cs)
  case 0
  then show ?case by (cases c) (auto simp: chain_walk.simps covered_def split: if_splits)
next
  case (Suc fuel)
  show ?case
  proof (cases c)
    case None
    then show ?thesis using Suc.prems by simp
  next
    case (Some x)
    then obtain nxt cs' where ok: "cluster_ok f x" and s: "fat_step content f x = (Ok nxt :: (nat option, 'x fat_error) result)"
        "chain_walk content f None fuel nxt (got' + cluster_size f) = (Ok cs' :: (nat list, 'x fat_error) result)" "cs = x # cs'"
      using Suc.prems(1) by (auto elim!: chain_walk_SomeE)
    have "fat_step content f x = (Ok nxt :: (nat option, 'y fat_error) result)" using s(1) by (auto simp: fat_step_def Let_def split: if_splits)
    then show ?thesis using Suc.IH [OF s(2), of "got + cluster_size f"] ok s(3) Some by (simp add: chain_walk.simps)
  qed
qed

lemma chain_walk_kept:
  assumes "chain_walk content f None fuel c got = (Ok cs :: (nat list, 'x fat_error) result)" "same_shape f f'"
    "\<forall>x \<in> set cs. fat_value content f' x = fat_value content f x"
  shows "chain_walk content f' None fuel c got = (Ok cs :: (nat list, 'x fat_error) result)"
  using assms
proof (induction fuel arbitrary: c got cs)
  case 0
  then show ?case by (cases c) (auto simp: chain_walk.simps covered_def split: if_splits)
next
  case (Suc fuel)
  note same = same_shape_fields [OF assms(2)] same_shape_views [OF assms(2)]
  show ?case
  proof (cases c)
    case None
    then show ?thesis using Suc.prems by simp
  next
    case (Some x)
    then obtain nxt cs' where ok: "cluster_ok f x" and s: "fat_step content f x = (Ok nxt :: (nat option, 'x fat_error) result)"
        "chain_walk content f None fuel nxt (got + cluster_size f) = (Ok cs' :: (nat list, 'x fat_error) result)" "cs = x # cs'"
      using Suc.prems(1) by (auto elim!: chain_walk_SomeE)
    have "fat_step content f' x = (Ok nxt :: (nat option, 'x fat_error) result)"
      using s(1,3) Suc.prems(3) by (simp add: fat_step_def Let_def same split: if_splits)
    then show ?thesis using Suc.IH [OF s(2) assms(2)] Suc.prems(3) ok s(3) Some by (simp add: chain_walk.simps covered_def same)
  qed
qed

lemma chain_walk_used:
  assumes "chain_walk content f None fuel c got = (Ok cs :: (nat list, 'x fat_error) result)"
  shows "\<forall>x \<in> set cs. cluster_ok f x \<and> fat_value content f x \<noteq> 0"
  using assms
proof (induction fuel arbitrary: c got cs)
  case 0
  then show ?case by (cases c) (auto simp: chain_walk.simps covered_def split: if_splits)
next
  case (Suc fuel)
  show ?case
  proof (cases c)
    case None
    then show ?thesis using Suc.prems by simp
  next
    case (Some x)
    then obtain nxt cs' where ok: "cluster_ok f x" and s: "fat_step content f x = (Ok nxt :: (nat option, 'x fat_error) result)"
        "chain_walk content f None fuel nxt (got + cluster_size f) = (Ok cs' :: (nat list, 'x fat_error) result)" "cs = x # cs'"
      using Suc.prems(1) by (auto elim!: chain_walk_SomeE)
    have "fat_value content f x \<noteq> 0"
    proof
      assume "fat_value content f x = 0"
      then have "nxt = Some 0" using s(1) by (cases "fa_type f") (auto simp: fat_step_def chain_end_def chain_bad_def)
      then show False using s(2) by (cases fuel) (auto simp: chain_walk.simps covered_def cluster_ok_def)
    qed
    then show ?thesis using Suc.IH [OF s(2)] ok s(3) by auto
  qed
qed

lemma links_walk:
  assumes "links (fat_value content f) (unat (entry_mask (fa_type f))) cs" "\<forall>c \<in> set cs. cluster_ok f c" "length cs \<le> fuel" "vol_ok f" "cs \<noteq> []"
  shows "chain_walk content f None fuel (Some (hd cs)) got = (Ok cs :: (nat list, 'x fat_error) result)"
  using assms
proof (induction cs arbitrary: fuel got)
  case (Cons c cs)
  then obtain fuel' where fuel: "fuel = Suc fuel'" by (cases fuel) auto
  have val: "fat_value content f c = (case cs of c' # _ \<Rightarrow> c' | [] \<Rightarrow> unat (entry_mask (fa_type f)))" using Cons.prems(1) by simp
  have step: "fat_step content f c = (Ok (case cs of c' # _ \<Rightarrow> Some c' | [] \<Rightarrow> None) :: (nat option, 'x fat_error) result)"
  proof (cases cs)
    case Nil
    then show ?thesis using val by (cases "fa_type f") (simp_all add: fat_step_def entry_mask_def chain_end_def)
  next
    case (Cons c' cs')
    then have "c' < chain_bad (fa_type f)" using Cons.prems(2,4) by (auto simp: cluster_ok_def vol_ok_def)
    then show ?thesis using val Cons by (cases "fa_type f") (simp_all add: fat_step_def chain_end_def chain_bad_def)
  qed
  show ?case
  proof (cases cs)
    case Nil
    then show ?thesis using Cons.prems(2) step fuel by (simp add: chain_walk.simps covered_def)
  next
    case (Cons c' cs')
    then show ?thesis using Cons.IH [of fuel' "got + cluster_size f"] Cons.prems step fuel by (simp add: chain_walk.simps covered_def)
  qed
qed simp

lemma sound_chain_contents:
  assumes "sound_chain content f first cs"
  shows "(chain_contents content f first limit :: (byte list, 'x fat_error) result) = (if limit = Some 0 then Ok []
      else let bytes = concat (map (cluster_data content f) (cut limit (cluster_size f) 0 cs))
           in case limit of None \<Rightarrow> Ok bytes | Some n \<Rightarrow> if length bytes < n then Err FileTruncated else Ok (take n bytes))"
proof -
  have "chain_walk content f limit (fa_cluster_count f) (Some first) 0 = (Ok (cut limit (cluster_size f) 0 cs) :: (nat list, 'x fat_error) result)"
    using chain_walk_cut [OF assms [unfolded sound_chain_def]] .
  then show ?thesis by (simp add: chain_contents_def)
qed

lemma chains_kept_contents:
  assumes "chains_kept content f f'" "sound_chain content f first cs" "same_shape f f'"
  shows "chain_contents content f' first limit = (chain_contents content f first limit :: (byte list, 'x fat_error) result)"
    "chain_contents content (remounted f') first limit = (chain_contents content f first limit :: (byte list, 'x fat_error) result)"
proof -
  have k: "sound_chain content f' first cs" "sound_chain content (remounted f') first cs"
      "\<forall>c \<in> set cs. cluster_data content f' c = cluster_data content f c"
    using assms(1,2) unfolding chains_kept_def by blast+
  have sub: "set (cut limit cb got cs) \<subseteq> set cs" for cb got by (induction cs arbitrary: got) auto
  have size: "cluster_size f' = cluster_size f" "cluster_size (remounted f') = cluster_size f"
    using same_shape_views [OF assms(3)] by (simp_all add: cluster_size_def remounted_def)
  have "cluster_data content (remounted f') c = cluster_data content f' c" for c by (simp add: cluster_data_def remounted_def first_sector_def)
  then have "map (cluster_data content f') (cut limit (cluster_size f) 0 cs) = map (cluster_data content f) (cut limit (cluster_size f) 0 cs)"
      "map (cluster_data content (remounted f')) (cut limit (cluster_size f) 0 cs) = map (cluster_data content f) (cut limit (cluster_size f) 0 cs)"
    using k(3) subsetD [OF sub] by (auto simp: map_eq_conv)
  then show "chain_contents content f' first limit = (chain_contents content f first limit :: (byte list, 'x fat_error) result)"
    "chain_contents content (remounted f') first limit = (chain_contents content f first limit :: (byte list, 'x fat_error) result)"
    by (simp_all only: size sound_chain_contents [OF assms(2)] sound_chain_contents [OF k(1)] sound_chain_contents [OF k(2)])
qed

lemma cluster_data_same:
  assumes "changes_only content A D f f'" "2 \<le> c" "vol_ok f" "\<And>k. k < fa_spc f \<Longrightarrow> fa_start f + (first_sector f c + k) \<notin> D"
  shows "cluster_data content f' c = cluster_data content f c"
proof -
  have shape: "same_shape f f'" using changes_only_fields(1) [OF assms(1)] .
  have "content (fa_device f') (fa_start f + (first_sector f c + k)) = content (fa_device f) (fa_start f + (first_sector f c + k))" if "k < fa_spc f" for k
    using first_sector_above [OF assms(3), of "{c}"] that unfolding sector_of_def
    by (intro changes_only_fields(3) [OF assms(1)] assms(4)) blast+
  then show ?thesis using same_shape_fields [OF shape] same_shape_views [OF shape]
    by (auto simp: cluster_data_def intro!: arg_cong [where f = concat])
qed

lemma changes_only_chain:
  assumes "changes_only content A D f f'" "fa_dirty f = None" "vol_ok f" "sound_chain content f first cs" "set cs \<inter> A = {}"
    "\<And>c k. c \<in> set cs \<Longrightarrow> k < fa_spc f \<Longrightarrow> fa_start f + (first_sector f c + k) \<notin> D"
  shows "sound_chain content f' first cs \<and> sound_chain content (remounted f') first cs \<and> (\<forall>c \<in> set cs. cluster_data content f' c = cluster_data content f c)"
proof -
  note s = assms(4)
  have shape: "same_shape f f'" using changes_only_fields(1) [OF assms(1)] .
  have shape': "same_shape f (remounted f')" using shape by (simp add: same_shape_def remounted_def)
  note used = chain_walk_used [OF s [unfolded sound_chain_def]]
  have kept: "\<forall>x \<in> set cs. fat_value content f' x = fat_value content f x \<and> fat_value content (remounted f') x = fat_value content f x"
  proof
    fix x assume x: "x \<in> set cs"
    then have "x < fa_cluster_count f + 2" "x \<notin> A" using used assms(5) by (auto simp: cluster_ok_def)
    then have "fat_value content f' x = fat_value content f x" "disk_value content f' x = fat_value content f x"
      using changes_only_keeps [OF assms(1,2)] by auto
    moreover have "fat_value content (remounted f') x = disk_value content f' x"
      by (simp add: fat_value_seen seen_block_def disk_value_def remounted_def fat_position_def)
    ultimately show "fat_value content f' x = fat_value content f x \<and> fat_value content (remounted f') x = fat_value content f x" by simp
  qed
  have "cluster_data content f' c = cluster_data content f c" if c: "c \<in> set cs" for c
    using used c assms(6) [OF c] by (intro cluster_data_same [OF assms(1) _ assms(3)]) (auto simp: cluster_ok_def)
  then show "sound_chain content f' first cs \<and> sound_chain content (remounted f') first cs \<and> (\<forall>c \<in> set cs. cluster_data content f' c = cluster_data content f c)"
    using chain_walk_kept [OF s [unfolded sound_chain_def] shape] chain_walk_kept [OF s [unfolded sound_chain_def] shape'] kept
      same_shape_fields [OF shape] same_shape_fields [OF shape'] unfolding sound_chain_def by auto
qed

lemma changes_only_kept:
  assumes "changes_only content A D f f'" "fa_dirty f = None" "D \<subseteq> sectors_in f A"
    "\<And>first cs. sound_chain content f first cs \<Longrightarrow> set cs \<inter> A = {}" "\<forall>c \<in> A. 2 \<le> c" "vol_ok f"
  shows "chains_kept content f f'"
  unfolding chains_kept_def
proof (intro allI impI)
  fix first cs assume s: "sound_chain content f first cs"
  note used = chain_walk_used [OF s [unfolded sound_chain_def]]
  have "fa_start f + (first_sector f c + k) \<notin> D" if c: "c \<in> set cs" and k: "k < fa_spc f" for c k
  proof
    have c2: "2 \<le> c" "c \<notin> A" using used c assms(4) [OF s] by (auto simp: cluster_ok_def)
    assume "fa_start f + (first_sector f c + k) \<in> D"
    then obtain c' k' where "c' \<in> A" "k' < fa_spc f" "first_sector f c + k = first_sector f c' + k'"
      using assms(3) unfolding sectors_in_def sector_of_def by auto
    then show False using cluster_sector_unique [OF c2(1) _ k] assms(5) c2(2) by blast
  qed
  then show "sound_chain content f' first cs \<and> sound_chain content (remounted f') first cs \<and> (\<forall>c \<in> set cs. cluster_data content f' c = cluster_data content f c)"
    by (rule changes_only_chain [OF assms(1,2,6) s assms(4) [OF s]])
qed

text \<open>Counters are not part of the volume.\<close>

lemma counters_views [simp]:
  "fat_value content (f\<lparr>fa_free_count := x\<rparr>) = fat_value content f" "fat_value content (f\<lparr>fa_next_free := y\<rparr>) = fat_value content f"
  "disk_value content (f\<lparr>fa_free_count := x\<rparr>) = disk_value content f" "disk_value content (f\<lparr>fa_next_free := y\<rparr>) = disk_value content f"
  "fat_inv content (f\<lparr>fa_free_count := x\<rparr>) = fat_inv content f" "fat_inv content (f\<lparr>fa_next_free := y\<rparr>) = fat_inv content f"
  "cluster_data content (f\<lparr>fa_free_count := x\<rparr>) = cluster_data content f" "cluster_data content (f\<lparr>fa_next_free := y\<rparr>) = cluster_data content f"
  "cluster_ok (f\<lparr>fa_free_count := x\<rparr>) = cluster_ok f" "cluster_ok (f\<lparr>fa_next_free := y\<rparr>) = cluster_ok f"
  by (simp_all add: fun_eq_iff fat_value_seen disk_value_def seen_block_def fat_position_def Let_def fat_inv_def vol_ok_def coherent_def
      first_fat_sector_def cluster_data_def first_sector_def cluster_ok_def split: option.split)

lemma counters_changes_only [simp]:
  "changes_only content A D f (f'\<lparr>fa_free_count := x\<rparr>) \<longleftrightarrow> changes_only content A D f f'"
  "changes_only content A D f (f'\<lparr>fa_next_free := y\<rparr>) \<longleftrightarrow> changes_only content A D f f'"
  by (simp_all add: changes_only_def same_shape_def)

lemma free_not_sound:
  assumes "sound_chain content f first cs" "A \<subseteq> free_set content f"
  shows "set cs \<inter> A = {}"
  using chain_walk_used [OF assms(1) [unfolded sound_chain_def]] assms(2) by (fastforce simp: free_set_def)

lemma cut_all:
  assumes "0 < cb" "length cs = (n + cb - 1) div cb" "0 < n"
  shows "cut (Some n) cb 0 cs = cs"
proof -
  have below: "k * cb < n" if "k < (n + cb - 1) div cb" for k
  proof -
    have "Suc k \<le> (n + cb - 1) div cb" using that by simp
    then have "Suc k * cb \<le> n + cb - 1" using assms(1) by (metis div_times_less_eq_dividend le_trans mult_le_mono1)
    then show ?thesis using assms(1,3) by simp
  qed
  have "cut (Some n) cb (j * cb) (drop j cs) = drop j cs" if "j \<le> length cs" for j
    using that
  proof (induction "length cs - j" arbitrary: j)
    case (Suc m)
    then have j: "j < length cs" by simp
    then have "drop j cs = cs ! j # drop (Suc j) cs" by (simp add: Cons_nth_drop_Suc)
    moreover have "cut (Some n) cb (Suc j * cb) (drop (Suc j) cs) = drop (Suc j) cs"
      using j Suc.hyps(2) by (intro Suc.hyps(1)) linarith+
    ultimately show ?case using below [of j] j assms(2) by (simp add: covered_def add.commute)
  qed simp
  from this [of 0] show ?thesis by simp
qed

lemma same_volume_changes:
  assumes "same_volume content f f'" "fat_inv content f'"
  shows "changes_only content {} {} f f'" "fat_value content f' = fat_value content f" "fa_dirty f' = fa_dirty f"
proof -
  note same = same_volume_fields [OF assms(1)] same_volume_views [OF assms(1)]
  have "disk_value content f' = disk_value content f" by (simp add: fun_eq_iff disk_value_def same)
  then show "changes_only content {} {} f f'" using assms(2) same same_volume_shape [OF assms(1)] by (simp add: changes_only_def)
  show "fat_value content f' = fat_value content f" "fa_dirty f' = fa_dirty f" using same by blast+
qed

definition chain_stored :: "('d \<Rightarrow> lba \<Rightarrow> block) \<Rightarrow> 'd fat \<Rightarrow> byte list \<Rightarrow> (nat, 'e fat_error) result \<Rightarrow> 'd fat \<Rightarrow> nat list \<Rightarrow> bool" where
  \<comment> \<open>an outcome of \<open>write_chain\<close> on the free clusters \<open>cs\<close>\<close>
  "chain_stored content f data r f' cs \<longleftrightarrow> set cs \<subseteq> free_set content f \<and> changes_only content (set cs) (sectors_in f (set cs)) f f' \<and>
    (device_error r \<or>
     (if card (free_set content f) < clusters_needed f (length data) then r = Err NoSpace \<and> cs = []
      else r = Ok (hd cs) \<and> length cs = clusters_needed f (length data) \<and> distinct cs \<and> cs \<noteq> [] \<and> fa_dirty f' = None
        \<and> sound_chain content f' (hd cs) cs \<and> chain_contents content f' (hd cs) (Some (length data)) = (Ok data :: (byte list, 'e fat_error) result)
        \<and> (\<forall>n < fa_cluster_count f + 2. n \<notin> set cs \<longrightarrow> fat_value content f' n = fat_value content f n)))"

context block_device
begin

lemma write_clusters_data:
  assumes inv: "fat_inv content f" and run: "write_clusters dev cs data f = (r, f')" and cs: "\<forall>c \<in> set cs. 2 \<le> c" "distinct cs"
  shows "changes_only content {} (sectors_in f (set cs)) f f'" "device_error r \<or> r = Ok ()" "fa_dirty f' = fa_dirty f"
    "n < fa_cluster_count f + 2 \<Longrightarrow> fat_value content f' n = fat_value content f n" "f' = f\<lparr>fa_device := fa_device f'\<rparr>"
    "r = Ok () \<Longrightarrow> concat (map (cluster_data content f') cs) = resize (length cs * cluster_size f) 0 data"
proof -
  define padded where "padded = resize (length cs * cluster_size f) 0 data"
  have len: "length padded = length cs * fa_spc f * BLOCK_SIZE" by (simp add: padded_def cluster_size_def)
  note bl = blocks_of_whole [OF len]
  have run': "write_runs dev cs (blocks_of padded) (fa_spc f) (max (MAX_RUN_SECTORS div fa_spc f) 1) 0 f = (r, f')"
    using run by (simp add: write_clusters_def padded_def Let_def)
  note w = write_runs_data [OF run' cs bl(2,3), simplified]
  have ok: "vol_ok f" using inv by (simp add: fat_inv_def)
  have D: "\<forall>l. l \<notin> sectors_in f (set cs) \<longrightarrow> content (fa_device f') l = content (fa_device f) l" "\<forall>l \<in> sectors_in f (set cs). \<not> in_fats f l"
    using w first_sector_above [OF ok] by (auto simp: sectors_in_def)
  show f': "f' = f\<lparr>fa_device := fa_device f'\<rparr>" "device_error r \<or> r = Ok ()" using w by blast+
  show "changes_only content {} (sectors_in f (set cs)) f f'" using device_change_only(1) [OF inv f'(1) D] .
  show "fa_dirty f' = fa_dirty f" by (subst f'(1)) simp
  show "fat_value content f' n = fat_value content f n" if "n < fa_cluster_count f + 2"
    using device_change_only(2) [OF inv f'(1) D, of n] that by blast
  show "concat (map (cluster_data content f') cs) = resize (length cs * cluster_size f) 0 data" if "r = Ok ()"
  proof -
    have same: "fa_start f' = fa_start f" "fa_spc f' = fa_spc f" "first_sector f' = first_sector f"
      by (subst f'(1), simp add: fun_eq_iff first_sector_def)+
    have "cluster_data content f' (cs ! j) = concat (map (\<lambda>k. blocks_of padded ! (j * fa_spc f + k)) [0..<fa_spc f])" if "j < length cs" for j
      using w \<open>r = Ok ()\<close> that by (auto simp: cluster_data_def same intro!: arg_cong [where f = concat] map_cong)
    then have "map (cluster_data content f') cs = map (\<lambda>j. concat (map (\<lambda>k. blocks_of padded ! (j * fa_spc f + k)) [0..<fa_spc f])) [0..<length cs]"
      by (intro nth_equalityI) auto
    then have "concat (map (cluster_data content f') cs)
        = concat (concat (map (\<lambda>j. map (\<lambda>k. blocks_of padded ! (j * fa_spc f + k)) [0..<fa_spc f]) [0..<length cs]))"
      by (simp add: concat_concat)
    also have "\<dots> = concat (blocks_of padded)" unfolding concat_blocks using bl(2) by (metis map_nth)
    finally show ?thesis using bl(1) by (simp add: padded_def)
  qed
qed

lemma link_links:
  assumes inv: "fat_inv content f" and cs: "\<forall>c \<in> set cs. c < fa_cluster_count f + 2" "distinct cs" and run: "link dev cs f = (r, f')"
  shows "changes_only content (set cs) {} f f'" "device_error r \<or> r = Ok ()"
    "r = Ok () \<Longrightarrow> fa_dirty f' = None \<and> links (fat_value content f') (unat (entry_mask (fa_type f))) cs
        \<and> (\<forall>n < fa_cluster_count f + 2. n \<notin> set cs \<longrightarrow> fat_value content f' n = fat_value content f n)"
proof -
  obtain q1 f1 where q1: "link_loop dev cs f = (q1, f1)" by fastforce
  note l = link_loop_links [OF inv cs q1]
  obtain q2 f2 where q2: "flush_fat dev f1 = (q2, f2)" by fastforce
  have inv1: "fat_inv content f1" and shape1: "same_shape f f1" using l changes_only_fields by blast+
  note fl = flush_fat_only [OF inv1 q2] and ch = flush_fat_change [OF inv1 q2]
  have run': "(case q1 of Err e \<Rightarrow> (Err e, f1) | Ok _ \<Rightarrow> (case q2 of Err e \<Rightarrow> (Err e, f2)
      | Ok _ \<Rightarrow> (Ok (), f2\<lparr>fa_free_count := map_option (\<lambda>free. free - of_nat (length cs)) (fa_free_count f2)\<rparr>))) = (r, f')"
    using run q1 q2 by (auto simp: link_def fbind_def split: result.splits)
  have both: "changes_only content (set cs) {} f f2" using changes_only_trans [OF _ fl(1), of "set cs" "{}" f] l by simp
  have vals: "fat_value content f2 n = fat_value content f1 n" if "q2 = Ok ()" "n < fa_cluster_count f + 2" for n
    using fl(2) [OF that(1)] that(2) same_shape_fields [OF shape1] by simp
  have "device_error q1" if "q1 \<noteq> Ok ()" using l that by blast
  then have a: "device_error r \<and> f' = f1" if "q1 \<noteq> Ok ()" using run' that by auto
  have b: "device_error r \<and> f' = f2" if "q1 = Ok ()" "q2 \<noteq> Ok ()" using run' that ch(3) by auto
  have c: "r = Ok () \<and> f' = f2\<lparr>fa_free_count := map_option (\<lambda>free. free - of_nat (length cs)) (fa_free_count f2)\<rparr>" if "q1 = Ok ()" "q2 = Ok ()"
    using run' that by simp
  consider "q1 \<noteq> Ok ()" "device_error r" "f' = f1" | "q1 = Ok ()" "q2 \<noteq> Ok ()" "device_error r" "f' = f2"
    | "q1 = Ok ()" "q2 = Ok ()" "r = Ok ()" "f' = f2\<lparr>fa_free_count := map_option (\<lambda>free. free - of_nat (length cs)) (fa_free_count f2)\<rparr>"
    using a b c by blast
  then have "changes_only content (set cs) {} f f' \<and> (device_error r \<or> r = Ok ()) \<and>
    (r = Ok () \<longrightarrow> fa_dirty f' = None \<and> links (fat_value content f') (unat (entry_mask (fa_type f))) cs
        \<and> (\<forall>n < fa_cluster_count f + 2. n \<notin> set cs \<longrightarrow> fat_value content f' n = fat_value content f n))"
  proof cases
    case 1
    then show ?thesis using l by auto
  next
    case 2
    then show ?thesis using both by auto
  next
    case 3
    have "links (fat_value content f2) (unat (entry_mask (fa_type f))) cs"
      using l 3(1) vals [OF 3(2)] cs(1) links_cong [of cs "fat_value content f2" "fat_value content f1"] by simp
    then show ?thesis using 3 both ch(2) l vals [OF 3(2)] by auto
  qed
  then show "changes_only content (set cs) {} f f'" "device_error r \<or> r = Ok ()"
    "r = Ok () \<Longrightarrow> fa_dirty f' = None \<and> links (fat_value content f') (unat (entry_mask (fa_type f))) cs
        \<and> (\<forall>n < fa_cluster_count f + 2. n \<notin> set cs \<longrightarrow> fat_value content f' n = fat_value content f n)" by blast+
qed

lemma allocate_changes:
  assumes "fat_inv content f" "allocate dev count f = (r, f')" "0 < fa_cluster_count f"
  shows "changes_only content {} {} f f'" "fat_value content f' = fat_value content f" "fa_dirty f' = fa_dirty f"
proof -
  note a = allocate_free [OF assms]
  have inv: "fat_inv content (f'\<lparr>fa_next_free := fa_next_free f\<rparr>)" using a(2) by simp
  note s = same_volume_changes [OF a(1) inv]
  show "changes_only content {} {} f f'" using s(1) by simp
  show "fat_value content f' = fat_value content f" "fa_dirty f' = fa_dirty f" using s(2,3) by simp_all
qed

lemma write_chain_effect:
  assumes inv: "fat_inv content f" and clean: "fa_dirty f = None" and pos: "0 < fa_cluster_count f"
    and run: "write_chain dev data f = (r, f')" and data: "data \<noteq> []"
  shows "\<exists>cs. chain_stored content f data r f' cs"
proof (unfold chain_stored_def, goal_cases)
  case 1
  have ok: "vol_ok f" using inv by (simp add: fat_inv_def)
  then have cb: "0 < cluster_size f" by (simp add: vol_ok_def cluster_size_def BLOCK_SIZE_def)
  obtain q1 f1 where q1: "allocate dev (clusters_needed f (length data)) f = (q1, f1)" by fastforce
  note al = allocate_free [OF inv q1 pos] and ac = allocate_changes [OF inv q1 pos]
  have inv1: "fat_inv content f1" and shape1: "same_shape f f1" using changes_only_fields [OF ac(1)] by auto
  show ?case
  proof (cases "\<exists>cs. q1 = Ok cs")
    case False
    then have "(\<exists>e. q1 = Err e \<and> r = Err e) \<and> f' = f1" using run q1 data
      by (cases q1) (auto simp: write_chain_def fbind_def clusters_needed_def)
    then show ?thesis using al(4) ac(1) False by (intro exI [of _ "[]"]) (auto split: if_splits)
  next
    case True
    then obtain cs where q1': "q1 = Ok cs" by blast
    then have cs: "length cs = clusters_needed f (length data)" "distinct cs" "set cs \<subseteq> free_set content f"
      and enough: "\<not> card (free_set content f) < clusters_needed f (length data)"
      using al(4) by (auto split: if_splits)
    have ne: "cs \<noteq> []" using cs(1) data cb div_greater_zero_iff [of "length data + cluster_size f - 1" "cluster_size f"]
      by (cases data) (auto simp: clusters_needed_def)
    have ge: "\<forall>c \<in> set cs. 2 \<le> c" "\<forall>c \<in> set cs. c < fa_cluster_count f + 2" "\<forall>c \<in> set cs. cluster_ok f c"
      using cs(3) by (auto simp: free_set_def cluster_ok_def)
    obtain q2 f2 where q2: "write_clusters dev cs data f1 = (q2, f2)" by fastforce
    note wc = write_clusters_data [OF inv1 q2 ge(1) cs(2)]
    have inv2: "fat_inv content f2" and shape2: "same_shape f1 f2" using changes_only_fields [OF wc(1)] by auto
    obtain q3 f3 where q3: "link dev cs f2 = (q3, f3)" by fastforce
    have lt: "\<forall>c \<in> set cs. c < fa_cluster_count f2 + 2" using ge(2) same_shape_fields [OF shape1] same_shape_fields [OF shape2] by simp
    note ln = link_links [OF inv2 lt cs(2) q3]
    have sec: "sectors_in f1 = sectors_in f" "cluster_size f1 = cluster_size f"
      using same_shape_sectors [OF shape1] same_shape_views [OF shape1] by simp_all
    have run': "(case q2 of Err e \<Rightarrow> (Err e, f2) | Ok _ \<Rightarrow> (case q3 of Err e \<Rightarrow> (Err e, f3) | Ok _ \<Rightarrow> (Ok (cs ! 0), f3))) = (r, f')"
      using run q1 q1' q2 q3 data by (auto simp: write_chain_def fbind_def clusters_needed_def split: result.splits)
    have c12: "changes_only content {} (sectors_in f (set cs)) f f2" using changes_only_trans [OF ac(1) wc(1)] by (simp add: sec)
    have c13: "changes_only content (set cs) (sectors_in f (set cs)) f f3" using changes_only_trans [OF c12 ln(1)] by simp
    have bad2: "device_error r \<and> f' = f2" if "q2 \<noteq> Ok ()" using run' that wc(2) by auto
    have bad3: "device_error r \<and> f' = f3" if "q2 = Ok ()" "q3 \<noteq> Ok ()" using run' that ln(2) by auto
    have good: "r = Ok (hd cs) \<and> f' = f3" if "q2 = Ok ()" "q3 = Ok ()" using run' that ne by (simp add: hd_conv_nth)
    have only: "changes_only content (set cs) (sectors_in f (set cs)) f f'"
      using bad2 bad3 good c13 changes_only_mono [OF c12] by (cases "q2 = Ok ()"; cases "q3 = Ok ()") auto
    show ?thesis
    proof (cases "q2 = Ok () \<and> q3 = Ok ()")
      case False
      then show ?thesis using only cs(3) bad2 bad3 by (intro exI [of _ cs]) auto
    next
      case True
      note done2 = wc(6) [OF conjunct1 [OF True]] and done3 = ln(3) [OF conjunct2 [OF True]]
      have shape3: "same_shape f f3" using changes_only_fields(1) [OF c13] .
      note same = same_shape_fields [OF shape3] same_shape_views [OF shape3]
      have shape23: "same_shape f f2" using same_shape_trans [OF shape1 shape2] .
      have links3: "links (fat_value content f3) (unat (entry_mask (fa_type f3))) cs"
        using done3 same_shape_fields [OF shape23] same by simp
      have small: "length cs \<le> fa_cluster_count f"
      proof -
        have "set cs \<subseteq> {2..<fa_cluster_count f + 2}" using cs(3) by (auto simp: free_set_def)
        then show ?thesis using card_mono [of "{2..<fa_cluster_count f + 2}" "set cs"] distinct_card [OF cs(2)] by simp
      qed
      have sound: "sound_chain content f3 (hd cs) cs"
        unfolding sound_chain_def using links_walk [OF links3 _ _ _ ne] ge(3) small ok by (simp add: same)
      have "cluster_data content f3 c = cluster_data content f2 c" if "c \<in> set cs" for c
      proof (rule cluster_data_same [OF ln(1)])
        show "2 \<le> c" using ge(1) that by blast
        show "vol_ok f2" using inv2 by (simp add: fat_inv_def)
      qed simp
      then have "concat (map (cluster_data content f3) cs) = resize (length cs * cluster_size f) 0 data"
        using done2 sec by (metis (no_types, lifting) map_eq_conv)
      moreover have "length data \<le> length cs * cluster_size f"
        using div_round_up_le [OF cb, of "length data"] cb unfolding cs(1) clusters_needed_def by simp
      ultimately have "chain_contents content f3 (hd cs) (Some (length data)) = (Ok data :: (byte list, 'e fat_error) result)"
        using sound_chain_contents [OF sound, of "Some (length data)"] cut_all [of "cluster_size f" cs "length data"] cb cs(1) data
        by (simp add: same clusters_needed_def resize_def)
      moreover have "fat_value content f3 n = fat_value content f n" if "n < fa_cluster_count f + 2" "n \<notin> set cs" for n
        using done3 that wc(4) [of n] ac(2) same_shape_fields [OF shape1] same_shape_fields [OF shape23] by simp
      ultimately show ?thesis using only cs ne good True enough done3 sound by (intro exI [of _ cs]) auto
    qed
  qed
qed

lemma free_chain_effect:
  assumes inv: "fat_inv content f" and run: "free_chain dev first f = (r, f')"
  shows "\<exists>cs. (cs = [] \<or> chain_of content f first = (Ok cs :: (nat list, 'e fat_error) result)) \<and> changes_only content (set cs) {} f f' \<and>
    (device_error r \<or>
     (case chain_of content f first :: (nat list, 'e fat_error) result of
        Err e \<Rightarrow> r = Err e
      | Ok cs' \<Rightarrow> r = Ok () \<and> cs = cs' \<and> fa_dirty f' = None
          \<and> (\<forall>n < fa_cluster_count f + 2. fat_value content f' n = (if n \<in> set cs then 0 else fat_value content f n))))"
proof -
  define chain where "chain = (chain_of content f first :: (nat list, 'e fat_error) result)"
  obtain q1 f1 where q1: "(if first = 0 then (\<lambda>f. (Ok [], f)) else fat_chain dev first) f = (q1, f1)" by fastforce
  have coh: "coherent content f" using inv by (simp add: fat_inv_def)
  have sv: "same_volume content f f1" and inv1: "fat_inv content f1" and res: "device_error q1 \<or> q1 = chain"
    using q1 fat_chain_walk [OF inv] inv same_volume_refl [OF coh] by (auto simp: chain_def chain_of_def split: if_splits)
  note s1 = same_volume_changes [OF sv inv1] and same = same_volume_fields [OF sv]
  show ?thesis
  proof (cases q1)
    case (Err e)
    then have "r = Err e \<and> f' = f1" using run q1 by (simp add: free_chain_def fbind_def)
    moreover have "device_error r \<or> chain = Err e" using calculation res Err by auto
    ultimately show ?thesis using s1(1) by (intro exI [of _ "[]"]) (auto simp: chain_def)
  next
    case (Ok cs)
    then have cs: "chain = Ok cs" using res by auto
    have "cs = [] \<or> chain_walk content f None (fa_cluster_count f) (Some first) 0 = (Ok cs :: (nat list, 'e fat_error) result)"
      using cs by (auto simp: chain_def chain_of_def split: if_splits)
    then have "\<forall>c \<in> set cs. cluster_ok f c" using chain_walk_used by fastforce
    then have lt: "\<forall>c \<in> set cs. c < fa_cluster_count f1 + 2" using same by (auto simp: cluster_ok_def)
    obtain q2 f2 where q2: "free_loop dev cs f1 = (q2, f2)" by fastforce
    note fr = free_loop_frees [OF inv1 lt q2]
    then have inv2: "fat_inv content f2" and shape2: "same_shape f1 f2" using changes_only_fields by blast+
    obtain q3 f3 where q3: "flush_fat dev f2 = (q3, f3)" by fastforce
    note fl = flush_fat_only [OF inv2 q3] and ch = flush_fat_change [OF inv2 q3]
    have c12: "changes_only content (set cs) {} f f2" using changes_only_trans [OF s1(1), of "set cs" "{}" f2] fr by simp
    have c13: "changes_only content (set cs) {} f f3" using changes_only_trans [OF c12 fl(1)] by simp
    define f4 where "f4 = f3\<lparr>fa_free_count := map_option (\<lambda>free. free + of_nat (length cs)) (fa_free_count f3)\<rparr>"
    define f5 where "f5 = (if cs = [] then f4 else f4\<lparr>fa_next_free := min (fa_next_free f4) (Min (set cs))\<rparr>)"
    have run': "(case q2 of Err e \<Rightarrow> (Err e, f2) | Ok _ \<Rightarrow> (case q3 of Err e \<Rightarrow> (Err e, f3) | Ok _ \<Rightarrow> (Ok (), f5))) = (r, f')"
      using run q1 Ok q2 q3 by (auto simp: free_chain_def fbind_def f5_def f4_def Let_def split: result.splits)
    have bad2: "device_error r \<and> f' = f2" if "q2 \<noteq> Ok ()" using run' that fr by auto
    have bad3: "device_error r \<and> f' = f3" if "q2 = Ok ()" "q3 \<noteq> Ok ()" using run' that ch(3) by auto
    have good: "r = Ok () \<and> f' = f5" if "q2 = Ok ()" "q3 = Ok ()" using run' that by simp
    have five: "changes_only content (set cs) {} f f5" "fa_dirty f5 = fa_dirty f3" "fat_value content f5 = fat_value content f3"
      using c13 by (cases "cs = []"; simp add: f5_def f4_def)+
    show ?thesis
    proof (cases "q2 = Ok () \<and> q3 = Ok ()")
      case False
      then show ?thesis using bad2 bad3 c12 c13 cs by (intro exI [of _ cs]) (auto simp: chain_def)
    next
      case True
      have "fat_value content f3 n = (if n \<in> set cs then 0 else fat_value content f n)" if "n < fa_cluster_count f + 2" for n
        using fl(2) [of n] fr True that s1(2) same same_shape_fields [OF shape2] by simp
      then show ?thesis using good True five ch(2) cs unfolding chain_def by (intro exI [of _ cs]) auto
    qed
  qed
qed

end

end
