(* ===== verification/Fat_Dir.thy ===== *)
theory Fat_Dir
  imports Fat_Write
begin

text \<open>
  Directories as lists of 32-byte slots: an entry is a group of slots, the pieces of its long name and its 8.3 entry, and
  adding, changing or deleting a group changes the listing by exactly that entry.
\<close>

subsection \<open>Scanning slots\<close>

definition reset_name :: "long_name \<Rightarrow> bool" where
  "reset_name ln \<longleftrightarrow> ln_units ln = [] \<and> ln_expected ln = 0"

lemma reset_name_simps [simp]: "reset_name (long_reset ln)" "reset_name long_new"
  by (simp_all add: reset_name_def long_reset_def long_new_def)

lemma long_take_reset [simp]: "reset_name (snd (long_take short ln))"
  by (simp add: long_take_def)

lemma long_take_none: "reset_name ln \<Longrightarrow> fst (long_take short ln) = None"
  by (simp add: long_take_def reset_name_def)

definition is_last_piece :: "byte list \<Rightarrow> bool" where
  "is_last_piece entry \<longleftrightarrow> entry ! 0 AND LFN_LAST \<noteq> 0"

lemma long_add_last: "is_last_piece entry \<Longrightarrow> long_add entry ln = long_add entry ln'"
  by (simp add: long_add_def is_last_piece_def)

lemma long_add_reset: "\<not> is_last_piece entry \<Longrightarrow> reset_name ln \<Longrightarrow> reset_name (long_add entry ln)"
  by (auto simp: long_add_def is_last_piece_def reset_name_def long_reset_def Let_def)

text \<open>What a scan has seen matters only while a long name is being collected.\<close>

lemma parse_reset:
  "reset_name ln \<Longrightarrow> reset_name ln' \<Longrightarrow> parse_slots t i es ln ls = parse_slots t i es ln' ls'"
proof (induction es arbitrary: i ln ln' ls ls')
  case (Cons e es)
  consider "e ! 0 = ENTRY_END" | "e ! 0 = ENTRY_DELETED" "e ! 0 \<noteq> ENTRY_END"
    | "e ! 0 \<noteq> ENTRY_END" "e ! 0 \<noteq> ENTRY_DELETED" "e ! 11 AND 0x3F = ATTR_LONG_NAME"
    | "e ! 0 \<noteq> ENTRY_END" "e ! 0 \<noteq> ENTRY_DELETED" "e ! 11 AND 0x3F \<noteq> ATTR_LONG_NAME" by blast
  then show ?case
  proof cases
    case 2
    then show ?thesis using Cons.IH [of "long_reset ln" "long_reset ln'" "i + 1" ls ls'] by simp
  next
    case 3
    show ?thesis
    proof (cases "is_last_piece e")
      case True
      then show ?thesis using 3 long_add_last [OF True, of ln ln'] by (simp add: is_last_piece_def)
    next
      case False
      then show ?thesis using 3 Cons.IH [OF long_add_reset long_add_reset, OF False Cons.prems(1) False Cons.prems(2), of "i + 1" ls ls']
        by (simp add: is_last_piece_def)
    qed
  next
    case 4
    have "fst (long_take s ln) = None" "fst (long_take s ln') = None" for s using Cons.prems long_take_none by blast+
    then obtain l l' where l: "long_take (slice 0 11 e) ln = (None, l)" "long_take (slice 0 11 e) ln' = (None, l')" "reset_name l" "reset_name l'"
      using long_take_reset by (metis prod.collapse)
    then show ?thesis using 4 Cons.IH [OF l(3,4), of "i + 1" ls ls'] Cons.IH [of "long_reset ln" "long_reset ln'" "i + 1" ls ls']
      by (simp add: Let_def)
  qed simp
qed simp

fun scan_slots :: "byte list list \<Rightarrow> nat \<Rightarrow> long_name \<Rightarrow> nat \<Rightarrow> long_name \<times> nat" where
  \<comment> \<open>what a scan of slots with no end marker has collected\<close>
  "scan_slots [] i ln ls = (ln, ls)"
| "scan_slots (e # es) i ln ls =
     (if e ! 0 = ENTRY_DELETED then scan_slots es (i + 1) (long_reset ln) ls
      else if e ! 11 AND 0x3F = ATTR_LONG_NAME then scan_slots es (i + 1) (long_add e ln) (if is_last_piece e then i else ls)
      else if e ! 11 AND ATTR_VOLUME_ID \<noteq> 0 then scan_slots es (i + 1) (long_reset ln) ls
      else scan_slots es (i + 1) (snd (long_take (slice 0 11 e) ln)) ls)"

definition no_end :: "byte list list \<Rightarrow> bool" where
  "no_end es \<longleftrightarrow> (\<forall>e \<in> set es. e ! 0 \<noteq> ENTRY_END)"

lemma parse_append:
  "no_end xs \<Longrightarrow> parse_slots t i (xs @ ys) ln ls
     = parse_slots t i xs ln ls @ parse_slots t (i + length xs) ys (fst (scan_slots xs i ln ls)) (snd (scan_slots xs i ln ls))"
proof (induction xs arbitrary: i ln ls)
  case (Cons e xs)
  then have "no_end xs" "e ! 0 \<noteq> ENTRY_END" by (auto simp: no_end_def)
  then show ?case using Cons.IH by (simp add: Let_def case_prod_unfold is_last_piece_def)
qed simp

definition long_piece :: "byte list \<Rightarrow> bool" where
  "long_piece e \<longleftrightarrow> e ! 0 \<noteq> ENTRY_END \<and> e ! 0 \<noteq> ENTRY_DELETED \<and> e ! 11 AND 0x3F = ATTR_LONG_NAME"

lemma scan_append: "scan_slots (xs @ ys) i ln ls = scan_slots ys (i + length xs) (fst (scan_slots xs i ln ls)) (snd (scan_slots xs i ln ls))"
  by (induction xs arbitrary: i ln ls) simp_all

lemma scan_settled:
  assumes "no_end xs" "xs \<noteq> []" "\<not> long_piece (last xs)"
  shows "reset_name (fst (scan_slots xs i ln ls))"
proof -
  obtain ys e where xs: "xs = ys @ [e]" using assms(2) by (metis append_butlast_last_id)
  then have "e ! 0 \<noteq> ENTRY_END" "\<not> long_piece e" using assms by (auto simp: no_end_def)
  then show ?thesis unfolding xs scan_append by (auto simp: long_piece_def)
qed

lemma parse_deleted:
  assumes "\<forall>e \<in> set es. e ! 0 = ENTRY_DELETED" "es \<noteq> []"
  shows "parse_slots t i (es @ ys) ln ls = parse_slots t (i + length es) ys long_new 0"
proof -
  have ne: "no_end es" using assms(1) by (auto simp: no_end_def ENTRY_DELETED_def ENTRY_END_def)
  have "parse_slots t i es ln ls = []" using assms(1) by (induction es arbitrary: i ln ls) (auto simp: ENTRY_DELETED_def ENTRY_END_def)
  moreover have "reset_name (fst (scan_slots es i ln ls))"
    using assms by (intro scan_settled ne) (auto simp: long_piece_def)
  ultimately show ?thesis unfolding parse_append [OF ne] using parse_reset [OF _ reset_name_simps(2)] by (metis append_Nil)
qed

text \<open>Every entry listed is a group of slots of its own.\<close>

definition group_at :: "fat_type \<Rightarrow> byte list list \<Rightarrow> located list \<Rightarrow> located \<Rightarrow> located list \<Rightarrow> byte list list \<Rightarrow> byte list list \<Rightarrow> byte list list \<Rightarrow> nat \<Rightarrow> long_name \<Rightarrow> nat \<Rightarrow> bool" where
  "group_at t es before found after pre grp post i ln ls \<longleftrightarrow> es = pre @ grp @ post \<and> lo_start found = i + length pre
     \<and> lo_end found = i + length pre + length grp \<and> grp \<noteq> [] \<and> no_end (pre @ grp) \<and> parse_slots t i pre ln ls = before
     \<and> parse_slots t i (pre @ grp) ln ls = before @ [found] \<and> (\<forall>e \<in> set (butlast grp). long_piece e) \<and> \<not> long_piece (last grp)
     \<and> parse_slots t (lo_end found) post long_new 0 = after"

definition pending_at :: "fat_type \<Rightarrow> byte list list \<Rightarrow> located list \<Rightarrow> located \<Rightarrow> located list \<Rightarrow> byte list list \<Rightarrow> byte list list \<Rightarrow> nat \<Rightarrow> long_name \<Rightarrow> nat \<Rightarrow> bool" where
  "pending_at t es before found after grp post i ln ls \<longleftrightarrow> es = grp @ post \<and> before = [] \<and> lo_start found = ls
     \<and> lo_end found = i + length grp \<and> grp \<noteq> [] \<and> no_end grp \<and> ln_units ln \<noteq> []
     \<and> parse_slots t i grp ln ls = [found] \<and> (\<forall>e \<in> set (butlast grp). long_piece e) \<and> \<not> long_piece (last grp)
     \<and> parse_slots t (lo_end found) post long_new 0 = after"

lemma parse_group_step:
  assumes "group_at t es before found after pre grp post (i + 1) ln' ls'" "e ! 0 \<noteq> ENTRY_END"
    "\<And>xs. parse_slots t i (e # xs) ln ls = listed @ parse_slots t (i + 1) xs ln' ls'"
  shows "group_at t (e # es) (listed @ before) found after (e # pre) grp post i ln ls"
  using assms unfolding group_at_def by (auto simp: no_end_def)

definition name_ok :: "long_name \<Rightarrow> bool" where
  "name_ok ln \<longleftrightarrow> (ln_units ln = [] \<longrightarrow> ln_expected ln = 0)"

lemma name_ok_simps [simp]: "reset_name ln \<Longrightarrow> name_ok ln"
  by (simp add: name_ok_def reset_name_def)

lemma name_ok_add [simp]: "name_ok (long_add e ln)"
  by (auto simp: name_ok_def long_add_def long_reset_def overwrite_def LFN_OFFSETS_def Let_def)

lemma parse_groups:
  assumes "parse_slots t i es ln ls = before @ found # after" "name_ok ln"
  shows "(\<exists>pre grp post. group_at t es before found after pre grp post i ln ls) \<or> (\<exists>grp post. pending_at t es before found after grp post i ln ls)"
  using assms
proof (induction es arbitrary: i ln ls before)
  case (Cons e es)
  have ne: "e ! 0 \<noteq> ENTRY_END" using Cons.prems(1) by auto
  have IHr: "\<exists>pre grp post. group_at t es bef found after pre grp post (i + 1) l ls" if "parse_slots t (i + 1) es l ls = bef @ found # after" "reset_name l" for l bef
    using Cons.IH [OF that(1) name_ok_simps [OF that(2)]] that(2) by (auto simp: pending_at_def reset_name_def)
  show ?case
  proof (cases "e ! 0 = ENTRY_DELETED")
    case True
    then have run: "parse_slots t (i + 1) es (long_reset ln) ls = before @ found # after" using Cons.prems ne by simp
    from IHr [OF run] obtain pre grp post where "group_at t es before found after pre grp post (i + 1) (long_reset ln) ls" by auto
    then show ?thesis using parse_group_step [of t es before found after pre grp post i "long_reset ln" ls e ln ls "[]"] ne True by auto
  next
    case nd: False
    show ?thesis
    proof (cases "e ! 11 AND 0x3F = ATTR_LONG_NAME")
      case long: True
      define ls' where "ls' = (if is_last_piece e then i else ls)"
      have step: "parse_slots t i (e # xs) ln ls = parse_slots t (i + 1) xs (long_add e ln) ls'" for xs ln
        using ne nd long by (simp add: ls'_def is_last_piece_def)
      have piece: "long_piece e" using ne nd long by (simp add: long_piece_def)
      have run: "parse_slots t (i + 1) es (long_add e ln) ls' = before @ found # after" using Cons.prems step by simp
      from Cons.IH [OF run name_ok_add] show ?thesis
      proof (elim disjE exE)
        fix pre grp post assume "group_at t es before found after pre grp post (i + 1) (long_add e ln) ls'"
        then show ?thesis using parse_group_step [OF _ ne, of t es before found after pre grp post i "long_add e ln" ls' ln ls "[]"] step by auto
      next
        fix grp post assume p: "pending_at t es before found after grp post (i + 1) (long_add e ln) ls'"
        show ?thesis
        proof (cases "is_last_piece e")
          case True
          have "parse_slots t i (e # grp) ln ls = [found]" using p step by (simp add: pending_at_def)
          then have "group_at t (e # es) before found after [] (e # grp) post i ln ls"
            using p True piece ne unfolding pending_at_def group_at_def by (auto simp: ls'_def no_end_def)
          then show ?thesis by blast
        next
          case False
          have "ln_units ln \<noteq> []"
          proof
            assume "ln_units ln = []"
            then have "reset_name ln" using Cons.prems(2) by (simp add: name_ok_def reset_name_def)
            then have "ln_units (long_add e ln) = []" using long_add_reset [OF False] by (simp add: reset_name_def)
            then show False using p by (simp add: pending_at_def)
          qed
          then have "pending_at t (e # es) before found after (e # grp) post i ln ls"
            using p False piece ne step [of grp ln] unfolding pending_at_def by (auto simp: ls'_def no_end_def)
          then show ?thesis by blast
        qed
      qed
    next
      case short: False
      show ?thesis
      proof (cases "e ! 11 AND ATTR_VOLUME_ID \<noteq> 0")
        case True
        then have run: "parse_slots t (i + 1) es (long_reset ln) ls = before @ found # after" using Cons.prems ne nd short by simp
        from IHr [OF run] obtain pre grp post where "group_at t es before found after pre grp post (i + 1) (long_reset ln) ls" by auto
        then show ?thesis using parse_group_step [of t es before found after pre grp post i "long_reset ln" ls e ln ls "[]"] ne nd short True by auto
      next
        case False
        obtain name0 ln' where tk: "long_take (slice 0 11 e) ln = (name0, ln')" by fastforce
        have r: "reset_name ln'" using long_take_reset [of "slice 0 11 e" ln] tk by simp
        define name where "name = (case name0 of Some n \<Rightarrow> n | None \<Rightarrow> short_name e)"
        define listed where "listed = (if name = ustr ''.'' \<or> name = ustr ''..'' then []
            else [\<lparr>lo_entry = located_entry t e name, lo_start = (if name0 \<noteq> None then ls else i), lo_end = i + 1\<rparr>])"
        have step: "parse_slots t i (e # xs) ln ls = listed @ parse_slots t (i + 1) xs ln' ls" for xs
          using ne nd short False tk by (simp add: listed_def name_def Let_def)
        have np: "\<not> long_piece e" using short by (simp add: long_piece_def)
        show ?thesis
        proof (cases "\<exists>rest. before = listed @ rest")
          case True
          then obtain rest where rest: "before = listed @ rest" by blast
          then have run: "parse_slots t (i + 1) es ln' ls = rest @ found # after" using Cons.prems(1) step by simp
          from IHr [OF run r] obtain pre grp post where "group_at t es rest found after pre grp post (i + 1) ln' ls" by blast
          then show ?thesis using parse_group_step [OF _ ne step] rest by blast
        next
          case False
          then have l: "listed = [found]" "before = []" "parse_slots t (i + 1) es ln' ls = after"
            using Cons.prems(1) unfolding step listed_def by (auto simp: Cons_eq_append_conv split: if_splits)
          have fnd: "lo_start found = (if name0 \<noteq> None then ls else i)" "lo_end found = i + 1" using l(1) by (auto simp: listed_def split: if_splits)
          have post: "parse_slots t (i + 1) es long_new 0 = after" using l(3) parse_reset [OF r reset_name_simps(2)] by metis
          show ?thesis
          proof (cases name0)
            case None
            have "parse_slots t i [e] ln ls = [found]" using step [of "[]"] l(1) by simp
            then have "group_at t (e # es) before found after [] [e] es i ln ls"
              using l fnd None ne np post by (simp add: group_at_def no_end_def)
            then show ?thesis by blast
          next
            case (Some n)
            then have "ln_units ln \<noteq> []" using tk by (auto simp: long_take_def Let_def split: if_splits)
            moreover have "parse_slots t i [e] ln ls = [found]" using step [of "[]"] l(1) by simp
            ultimately have "pending_at t (e # es) before found after [e] es i ln ls"
              using l fnd Some ne np post by (simp add: pending_at_def no_end_def)
            then show ?thesis by blast
          qed
        qed
      qed
    qed
  qed
qed simp

end
