(* ===== verification/Fat_Names.thy ===== *)
theory Fat_Names
  imports Fat_Dir
begin

text \<open>
  The slots of a new entry: names that fit 8.3 with their case, aliases for the others, and the pieces of long names. A new
  entry is read back with exactly the name, kind, cluster, size and time it was made with.
\<close>

subsection \<open>Bytes of entries\<close>

lemma list11E:
  assumes "length xs = 11"
  obtains a b c d e f g h i j k where "xs = [a, b, c, d, e, f, g, h, i, j, k]"
proof -
  have "xs = map (\<lambda>i. xs ! i) [0..<11]" using assms by (metis map_nth)
  then show thesis using that by (simp add: upt_rec)
qed

lemma list13E:
  assumes "length xs = 13"
  obtains a b c d e f g h i j k l m where "xs = [a, b, c, d, e, f, g, h, i, j, k, l, m]"
proof -
  have "xs = map (\<lambda>i. xs ! i) [0..<13]" using assms by (metis map_nth)
  then show thesis using that by (simp add: upt_rec)
qed

lemma zeros32: "replicate 32 (0 :: byte) = [0,0,0,0,0,0,0,0,0,0,0,0,0,0,0,0,0,0,0,0,0,0,0,0,0,0,0,0,0,0,0,0]"
  by (simp add: eval_nat_numeral)

lemma update_overwrite: "i < length xs \<Longrightarrow> xs[i := y] = overwrite i [y] xs"
  by (simp add: overwrite_def upd_conv_take_nth_drop)

lemma to_le_2: "to_le 2 w = [ucast w, ucast (drop_bit 8 w)]"
  by (simp add: numeral_2_eq_2)

lemma to_le_4: "to_le 4 w = [ucast w, ucast (drop_bit 8 w), ucast (drop_bit 8 (drop_bit 8 w)), ucast (drop_bit 8 (drop_bit 8 (drop_bit 8 w)))]"
  by (simp add: eval_nat_numeral)

lemma overwrite_2: "overwrite n [y, z] xs = take n xs @ y # z # drop (n + 2) xs"
  by (simp add: overwrite_def)

lemma overwrite_4: "overwrite n [y, z, u, v] xs = take n xs @ y # z # u # v # drop (n + 4) xs"
  by (simp add: overwrite_def eval_nat_numeral)

lemma overwrite_1: "overwrite n [y] xs = take n xs @ y # drop (n + 1) xs"
  by (simp add: overwrite_def)

lemma short_entry_eq:
  assumes "length short = 11"
  shows "short_entry short cases attr cluster len (date, time) = short @ [attr, cases, 0] @ to_le 2 time @ to_le 2 date @ to_le 2 date
     @ to_le 2 (ucast (drop_bit 16 cluster) :: u16) @ to_le 2 time @ to_le 2 date @ to_le 2 (ucast cluster :: u16) @ to_le 4 len"
proof -
  obtain a b c d e f g h i j k where "short = [a, b, c, d, e, f, g, h, i, j, k]" using assms by (rule list11E)
  then show ?thesis
    apply (simp only: short_entry_def set_cluster_and_size_def set_modified_def DIR_ENTRY_SIZE_def zeros32 Let_def prod.case to_le_2 to_le_4 fst_conv snd_conv)
    apply (simp add: overwrite_def update_overwrite)
    done
qed

lemma long_entry_eq:
  assumes "slice ((seq - 1) * LFN_CHARS) (seq * LFN_CHARS) units = chars" "length chars = 13"
  shows "long_entry checksum pieces units seq = [of_nat seq OR (if seq = pieces then LFN_LAST else 0)]
     @ concat (map (\<lambda>u. to_le 2 (of_nat u :: u16)) (take 5 chars)) @ [ATTR_LONG_NAME, 0, checksum]
     @ concat (map (\<lambda>u. to_le 2 (of_nat u :: u16)) (take 6 (drop 5 chars))) @ [0, 0]
     @ concat (map (\<lambda>u. to_le 2 (of_nat u :: u16)) (drop 11 chars))"
proof -
  obtain a b c d e f g h i j k l m where "chars = [a, b, c, d, e, f, g, h, i, j, k, l, m]" using assms(2) by (rule list13E)
  then show ?thesis
    apply (simp only: long_entry_def assms(1) DIR_ENTRY_SIZE_def zeros32 Let_def to_le_2 LFN_OFFSETS_def)
    apply (simp add: overwrite_def update_overwrite)
    done
qed

lemma u16_bytes: "ucast (ucast w :: byte) OR push_bit 8 (ucast (ucast (drop_bit 8 w) :: byte)) = (w :: u16)"
  using from_le_to_le [of 2 w] by (simp add: to_le_2)

lemma short_entry_fields:
  assumes "length short = 11" "e = short_entry short cases attr cluster len stamp"
  shows "length e = 32" "e ! 0 = short ! 0" "slice 0 11 e = short" "e ! 11 = attr" "e ! 12 = cases"
    "slice 0 8 e = take 8 short" "slice 8 11 e = drop 8 short"
    "fu16 e 20 = ucast (drop_bit 16 cluster)" "fu16 e 26 = ucast cluster" "fu32 e 28 = len" "fu16 e 22 = snd stamp" "fu16 e 24 = fst stamp"
proof -
  obtain a b c d e' f g h i j k where s: "short = [a, b, c, d, e', f, g, h, i, j, k]" using assms(1) by (rule list11E)
  have eq: "e = short @ [attr, cases, 0] @ to_le 2 (snd stamp) @ to_le 2 (fst stamp) @ to_le 2 (fst stamp)
     @ to_le 2 (ucast (drop_bit 16 cluster) :: u16) @ to_le 2 (snd stamp) @ to_le 2 (fst stamp) @ to_le 2 (ucast cluster :: u16) @ to_le 4 len"
    using short_entry_eq [OF assms(1), of cases attr cluster len "fst stamp" "snd stamp"] assms(2) by simp
  note eq' = eq [unfolded to_le_2 to_le_4 s append.simps]
  show "length e = 32" "e ! 0 = short ! 0" "slice 0 11 e = short" "e ! 11 = attr" "e ! 12 = cases" "slice 0 8 e = take 8 short" "slice 8 11 e = drop 8 short"
    unfolding eq' s by (simp_all add: slice_def)
  show "fu16 e 20 = ucast (drop_bit 16 cluster)" "fu16 e 26 = ucast cluster" "fu16 e 22 = snd stamp" "fu16 e 24 = fst stamp"
    unfolding fu16_def eq' by (simp_all add: u16_bytes)
  have "slice 28 (28 + 4) e = to_le 4 len" unfolding eq' to_le_4 by (simp add: slice_def)
  then show "fu32 e 28 = len" unfolding fu32_def by (simp add: from_le_to_le)
qed

lemma long_entry_fields:
  assumes "slice ((seq - 1) * LFN_CHARS) (seq * LFN_CHARS) units = chars" "length chars = 13" "\<forall>u \<in> set chars. u < 65536"
    "e = long_entry checksum pieces units seq"
  shows "length e = 32" "e ! 0 = of_nat seq OR (if seq = pieces then LFN_LAST else 0)" "e ! 11 = ATTR_LONG_NAME" "e ! 13 = checksum"
    "map (\<lambda>at. unat (fu16 e at)) LFN_OFFSETS = chars"
proof -
  obtain a b c d e' f g h i j k l m where s: "chars = [a, b, c, d, e', f, g, h, i, j, k, l, m]" using assms(2) by (rule list13E)
  note eq = assms(4) [unfolded long_entry_eq [OF assms(1,2)] s]
  have eq': "e = [of_nat seq OR (if seq = pieces then LFN_LAST else 0)]
     @ concat (map (\<lambda>u. [ucast (of_nat u :: u16), ucast (drop_bit 8 (of_nat u :: u16))]) [a, b, c, d, e']) @ [ATTR_LONG_NAME, 0, checksum]
     @ concat (map (\<lambda>u. [ucast (of_nat u :: u16), ucast (drop_bit 8 (of_nat u :: u16))]) [f, g, h, i, j, k]) @ [0, 0]
     @ concat (map (\<lambda>u. [ucast (of_nat u :: u16), ucast (drop_bit 8 (of_nat u :: u16))]) [l, m])"
    using eq by (simp add: to_le_2)
  have small: "unat (of_nat u :: u16) = u" if "u \<in> set chars" for u
    using assms(3) that by (simp add: unsigned_of_nat take_bit_nat_eq_self)
  show "length e = 32" "e ! 0 = of_nat seq OR (if seq = pieces then LFN_LAST else 0)" "e ! 11 = ATTR_LONG_NAME" "e ! 13 = checksum"
    unfolding eq' by simp_all
  show "map (\<lambda>at. unat (fu16 e at)) LFN_OFFSETS = chars"
    unfolding eq' fu16_def LFN_OFFSETS_def using small by (simp add: u16_bytes s)
qed

subsection \<open>Long names\<close>

text \<open>The sequence byte of a piece, of at most 20 pieces.\<close>

lemma sequence_byte:
  assumes "1 \<le> seq" "seq \<le> 20" "w = (of_nat seq OR (if b then LFN_LAST else 0) :: byte)"
  shows "w \<noteq> ENTRY_END" "w \<noteq> ENTRY_DELETED" "w AND 0x1F = of_nat seq" "w AND LFN_LAST \<noteq> 0 \<longleftrightarrow> b"
    "(of_nat seq :: byte) \<noteq> 0" "(of_nat seq :: byte) - 1 = of_nat (seq - 1)" "unat (of_nat seq :: byte) = seq"
proof -
  define ok where "ok = (\<lambda>seq b. let w = (of_nat seq OR (if b then LFN_LAST else 0) :: byte)
    in w \<noteq> ENTRY_END \<and> w \<noteq> ENTRY_DELETED \<and> w AND 0x1F = of_nat seq \<and> (w AND LFN_LAST \<noteq> 0 \<longleftrightarrow> b))"
  have "list_all (\<lambda>seq. ok seq True \<and> ok seq False) [1..<21]"
    unfolding ok_def LFN_LAST_def ENTRY_END_def ENTRY_DELETED_def by code_simp
  moreover have "seq \<in> set [1..<21]" using assms(1,2) by simp
  ultimately have "ok seq b" by (cases b) (auto simp: list_all_iff)
  then show "w \<noteq> ENTRY_END" "w \<noteq> ENTRY_DELETED" "w AND 0x1F = of_nat seq" "w AND LFN_LAST \<noteq> 0 \<longleftrightarrow> b"
    unfolding ok_def assms(3) Let_def by blast+
  show s: "unat (of_nat seq :: byte) = seq" using assms(2) by (simp add: unsigned_of_nat take_bit_nat_eq_self)
  then show "(of_nat seq :: byte) \<noteq> 0" using assms(1) by (metis not_one_le_zero unat_0)
  show "(of_nat seq :: byte) - 1 = of_nat (seq - 1)" using assms(1) by simp
qed

lemma long_units_shape:
  assumes "long_units name = (pieces, units)" "name \<noteq> []" "length (encode_utf16 name) \<le> MAX_NAME"
    "\<forall>c \<in> set name. is_scalar c \<and> c \<noteq> 0 \<and> c \<noteq> 0xFFFF"
  shows "1 \<le> pieces" "pieces \<le> 20" "length units = pieces * LFN_CHARS" "\<forall>u \<in> set units. u < 65536" "long_text units = name"
proof -
  define U where "U = encode_utf16 name"
  have u0: "0 < length U" using assms(2) unfolding U_def encode_utf16_def by (cases name) (auto simp: encode_utf16_char_def)
  have u255: "length U \<le> 255" using assms(3) by (simp add: U_def MAX_NAME_def)
  define tail where "tail = (if length U mod 13 \<noteq> 0 then [0 :: nat] else [])"
  have eq: "pieces = (length U + 12) div 13" "units = (U @ tail) @ replicate (pieces * 13 - length (U @ tail)) 0xFFFF"
    using assms(1) unfolding long_units_def LFN_CHARS_def by (auto simp: U_def [symmetric] tail_def Let_def)
  have fit: "length (U @ tail) \<le> pieces * 13"
  proof (cases "length U mod 13 = 0")
    case True
    then show ?thesis using div_round_up_le [of 13 "length U"] by (simp add: tail_def eq)
  next
    case False
    then have "pieces = Suc (length U div 13)" using div_round_up [of 13 "length U"] by (simp add: eq)
    moreover have "length U < 13 + 13 * (length U div 13)" by (rule dividend_less_times_div) simp
    ultimately show ?thesis using False by (simp add: tail_def)
  qed
  show "length units = pieces * LFN_CHARS" using fit by (simp add: eq(2) LFN_CHARS_def)
  show "pieces \<le> 20" using div_le_mono [of "length U + 12" 267 13] u255 by (simp add: eq)
  show "1 \<le> pieces" using div_le_mono [of 13 "length U + 12" 13] u0 by (simp add: eq)
  have plain: "u \<noteq> 0 \<and> u \<noteq> 0xFFFF \<and> u < 0x10000" if "u \<in> set U" for u
    using encode_utf16_not_zero [OF assms(4)] that by (simp add: U_def)
  show "\<forall>u \<in> set units. u < 65536" using plain unfolding eq(2) tail_def by (auto split: if_splits)
  have pos: "position P (U @ xs) = map_option ((+) (length U)) (position P xs)" if "\<forall>u \<in> set U. \<not> P u" for P xs
    using that by (induction U; cases "position P xs") auto
  have "(case position (\<lambda>u. u = 0 \<or> u = 0xFFFF) units of Some n \<Rightarrow> n | None \<Rightarrow> length units) = length U"
  proof (cases "length U mod 13 = 0")
    case True
    then have "units = U" using div_round_up_exact [of 13 "length U"] by (simp add: eq tail_def)
    then show ?thesis using pos [of "\<lambda>u. u = 0 \<or> u = 0xFFFF" "[]"] plain by simp
  next
    case False
    then have "units = U @ 0 # replicate (pieces * 13 - length (U @ tail)) 0xFFFF" by (simp add: eq(2) tail_def)
    then show ?thesis using pos [of "\<lambda>u. u = 0 \<or> u = 0xFFFF"] plain by simp
  qed
  then have "long_text units = decode_utf16 (take (length U) units)" unfolding long_text_def Let_def by (simp only:)
  also have "take (length U) units = U" by (simp add: eq(2))
  finally show "long_text units = name" using decode_encode_utf16 [of name] assms(4) by (simp add: U_def)
qed

declare parse_slots.simps(2) [simp del]

definition collected :: "u8 \<Rightarrow> nat list \<Rightarrow> nat \<Rightarrow> long_name" where
  \<comment> \<open>after all pieces above \<open>k\<close>\<close>
  "collected checksum units k = \<lparr>ln_units = replicate (k * LFN_CHARS) 0xFFFF @ drop (k * LFN_CHARS) units, ln_checksum = checksum, ln_expected = of_nat k\<rparr>"

lemma collect_piece:
  assumes "1 \<le> seq" "seq \<le> pieces" "pieces \<le> 20" "length units = pieces * LFN_CHARS" "\<forall>u \<in> set units. u < 65536"
    "ln = collected checksum units seq \<or> seq = pieces" "e = long_entry checksum pieces units seq"
  shows "long_add e ln = collected checksum units (seq - 1)" "long_piece e" "is_last_piece e \<longleftrightarrow> seq = pieces" "length e = 32"
    "parse_slots t i (e # es) ln ls = parse_slots t (i + 1) es (collected checksum units (seq - 1)) (if seq = pieces then i else ls)"
proof -
  define chars where "chars = slice ((seq - 1) * LFN_CHARS) (seq * LFN_CHARS) units"
  have le: "seq * LFN_CHARS \<le> length units" using assms(2,4) by (simp add: mult_le_mono1)
  then have clen: "length chars = 13" using assms(1) by (cases seq) (simp_all add: chars_def slice_simps LFN_CHARS_def)
  have csmall: "\<forall>u \<in> set chars. u < 65536" using assms(5) unfolding chars_def slice_def by (meson in_set_dropD in_set_takeD)
  note f = long_entry_fields [OF chars_def [symmetric] clen csmall assms(7)]
  have s20: "seq \<le> 20" using assms(2,3) by simp
  note sq = sequence_byte [OF assms(1) s20 f(2)]
  define ln1 where "ln1 = (if seq = pieces then \<lparr>ln_units = replicate (seq * LFN_CHARS) 0xFFFF, ln_checksum = checksum, ln_expected = of_nat seq\<rparr> else ln)"
  have ln1: "ln1 = collected checksum units seq"
    using assms(4,6) by (auto simp: ln1_def collected_def)
  have add: "long_add e ln = (if (of_nat seq :: byte) = 0 \<or> of_nat seq \<noteq> ln_expected ln1 \<or> checksum \<noteq> ln_checksum ln1 then long_reset ln1
         else ln1\<lparr>ln_units := overwrite ((seq - 1) * LFN_CHARS) chars (ln_units ln1), ln_expected := ln_expected ln1 - 1\<rparr>)"
    unfolding long_add_def Let_def sq(3) sq(4) f(4) f(5) sq(7) ln1_def by (rule refl)
  have units: "overwrite ((seq - 1) * LFN_CHARS) chars (replicate (seq * LFN_CHARS) 0xFFFF @ drop (seq * LFN_CHARS) units)
      = replicate ((seq - 1) * LFN_CHARS) 0xFFFF @ drop ((seq - 1) * LFN_CHARS) units"
  proof -
    obtain k where k: "seq = Suc k" using assms(1) by (cases seq) auto
    have "drop (k * LFN_CHARS) units = chars @ drop (seq * LFN_CHARS) units"
      using append_take_drop_id [of "13" "drop (k * LFN_CHARS) units"] by (simp add: chars_def slice_def k LFN_CHARS_def add.commute)
    moreover have "seq * LFN_CHARS = k * LFN_CHARS + 13" by (simp add: k LFN_CHARS_def)
    ultimately show ?thesis using clen unfolding overwrite_def k by (simp add: replicate_add [of "k * LFN_CHARS" 13])
  qed
  show "length e = 32" by (rule f(1))
  show step: "long_add e ln = collected checksum units (seq - 1)"
    unfolding add using sq(5,6) units by (simp add: ln1 collected_def)
  show piece: "long_piece e" unfolding long_piece_def f(3) using sq(1,2) f(2) by (simp add: ATTR_LONG_NAME_def)
  show "is_last_piece e \<longleftrightarrow> seq = pieces" using sq(4) by (simp add: is_last_piece_def)
  then show "parse_slots t i (e # es) ln ls = parse_slots t (i + 1) es (collected checksum units (seq - 1)) (if seq = pieces then i else ls)"
    using piece step by (simp add: parse_slots.simps(2) long_piece_def is_last_piece_def)
qed

lemma collect_pieces:
  assumes "k \<le> pieces" "pieces \<le> 20" "length units = pieces * LFN_CHARS" "\<forall>u \<in> set units. u < 65536"
  shows "k < pieces \<Longrightarrow> parse_slots t i (map (long_entry checksum pieces units) (rev [1..<k + 1]) @ es) (collected checksum units k) ls
    = parse_slots t (i + k) es (collected checksum units 0) ls"
proof (use assms(1) in \<open>induction k arbitrary: i\<close>)
  case (Suc k)
  have "parse_slots t i (long_entry checksum pieces units (Suc k) # map (long_entry checksum pieces units) (rev [1..<k + 1]) @ es) (collected checksum units (Suc k)) ls
      = parse_slots t (i + 1) (map (long_entry checksum pieces units) (rev [1..<k + 1]) @ es) (collected checksum units k) ls"
    using collect_piece(5) [of "Suc k" pieces units "collected checksum units (Suc k)" checksum _ t i _ ls] Suc.prems assms by simp
  also have "\<dots> = parse_slots t (i + 1 + k) es (collected checksum units 0) ls" using Suc by simp
  finally show ?case by simp
qed simp

lemma parse_long_entries:
  assumes "name \<noteq> []" "length (encode_utf16 name) \<le> MAX_NAME" "\<forall>c \<in> set name. is_scalar c \<and> c \<noteq> 0 \<and> c \<noteq> 0xFFFF"
  obtains units where "\<And>t i es ln ls. parse_slots t i (long_entries name short @ es) ln ls
      = parse_slots t (i + length (long_entries name short)) es (collected (short_name_checksum short) units 0) i"
    "units \<noteq> []" "long_text units = name" "long_entries name short \<noteq> []" "\<forall>e \<in> set (long_entries name short). long_piece e \<and> length e = 32"
proof -
  obtain pieces units where lu: "long_units name = (pieces, units)" by fastforce
  note sh = long_units_shape [OF lu assms]
  have le: "long_entries name short = map (long_entry (short_name_checksum short) pieces units) (rev [1..<pieces + 1])"
    by (simp add: long_entries_def lu)
  obtain k where k: "pieces = Suc k" using sh(1) by (cases pieces) auto
  show thesis
  proof (rule that [of units])
    fix t i es ln ls
    have "parse_slots t i (long_entries name short @ es) ln ls
      = parse_slots t (i + 1) (map (long_entry (short_name_checksum short) pieces units) (rev [1..<k + 1]) @ es) (collected (short_name_checksum short) units k) i"
      using collect_piece(5) [of pieces pieces units ln "short_name_checksum short" _ t i _ ls] sh unfolding le k by simp
    also have "\<dots> = parse_slots t (i + 1 + k) es (collected (short_name_checksum short) units 0) i"
      using collect_pieces [of k pieces units t "i + 1"] sh k by simp
    finally show "parse_slots t i (long_entries name short @ es) ln ls
      = parse_slots t (i + length (long_entries name short)) es (collected (short_name_checksum short) units 0) i"
      by (simp add: le k del: upt_Suc)
  next
    show "units \<noteq> []" using sh(1,3) by (auto simp: LFN_CHARS_def)
    show "long_text units = name" by (rule sh(5))
    show "long_entries name short \<noteq> []" by (simp add: le k)
    show "\<forall>e \<in> set (long_entries name short). long_piece e \<and> length e = 32"
    proof
      fix e assume "e \<in> set (long_entries name short)"
      then obtain seq where seq: "1 \<le> seq" "seq \<le> pieces" "e = long_entry (short_name_checksum short) pieces units seq" unfolding le by auto
      then show "long_piece e \<and> length e = 32" using collect_piece(2,4) [OF seq(1,2) sh(2-4) disjI1 [OF refl] seq(3)] by blast
    qed
  qed
qed

subsection \<open>Names that fit 8.3\<close>

lemma short_chars: "is_short_char c \<Longrightarrow> 33 \<le> c \<and> c \<le> 126"
  by (auto simp: is_short_char_def is_ascii_lowercase_def is_ascii_uppercase_def is_ascii_digit_def SHORT_EXTRA_def ustr_def)

lemma short_upper: "is_short_char c \<Longrightarrow> 33 \<le> to_ascii_uppercase c \<and> to_ascii_uppercase c \<le> 126"
  using short_chars [of c] by (auto simp: to_ascii_uppercase_def is_ascii_lowercase_def)

lemma unat_upper: "is_short_char c \<Longrightarrow> unat (of_nat (to_ascii_uppercase c) :: byte) = to_ascii_uppercase c"
  using short_upper [of c] by (simp add: unsigned_of_nat take_bit_nat_eq_self)

lemma trim_end_padded:
  assumes "\<forall>c \<in> set xs. 33 \<le> c \<and> c \<le> 126"
  shows "trim_end (xs @ replicate n 32) = xs"
proof -
  have "is_whitespace 32" by (simp add: is_whitespace_def)
  then have "dropWhile is_whitespace (replicate n 32 @ rev xs) = dropWhile is_whitespace (rev xs)" by (induction n) simp_all
  moreover have "dropWhile is_whitespace (rev xs) = rev xs"
  proof (cases "rev xs")
    case (Cons x ys)
    then have "x \<in> set xs" by (metis list.set_intros(1) set_rev)
    then have "\<not> is_whitespace x" using assms by (force simp: is_whitespace_def)
    then show ?thesis using Cons by simp
  qed simp
  ultimately show ?thesis by (simp add: trim_end_def)
qed

lemma ulen_short: "\<forall>c \<in> set s. is_short_char c \<Longrightarrow> ulen s = length s"
proof (induction s)
  case (Cons c s)
  then have "c < 128" using short_chars [of c] by simp
  then show ?case using Cons by (simp add: ulen_def len_utf8_def)
qed (simp add: ulen_def)

lemma short_part_back:
  assumes "part_case part = Some lower" "length part \<le> n"
  shows "short_part (uppercase_bytes part @ replicate (n - length part) 0x20) lower = part"
proof -
  have sc: "\<forall>c \<in> set part. is_short_char c" and one: "\<not> ((\<exists>c \<in> set part. is_ascii_lowercase c) \<and> (\<exists>c \<in> set part. is_ascii_uppercase c))"
    and low: "lower = (\<exists>c \<in> set part. is_ascii_lowercase c)"
    using assms(1) by (auto simp: part_case_def Let_def split: if_splits)
  have "map unat (uppercase_bytes part) = map to_ascii_uppercase part" using sc unat_upper by (simp add: uppercase_bytes_def)
  then have "trim_end (map unat (uppercase_bytes part @ replicate (n - length part) 0x20)) = map to_ascii_uppercase part"
    using trim_end_padded [of "map to_ascii_uppercase part"] sc short_upper by (auto simp: comp_def)
  moreover have "map to_ascii_uppercase part = part" if "\<not> lower"
    using that low by (intro map_idI) (auto simp: to_ascii_uppercase_def)
  moreover have "map lower_latin1 (map to_ascii_uppercase part) = part" if lower
  proof -
    have "lower_latin1 (to_ascii_uppercase c) = c" if "c \<in> set part" for c
    proof -
      have "\<not> is_ascii_uppercase c" "c \<le> 126" using that one low \<open>lower\<close> sc short_chars by auto
      then show ?thesis by (auto simp: lower_latin1_def to_ascii_uppercase_def is_ascii_lowercase_def is_ascii_uppercase_def)
    qed
    then show ?thesis by (simp add: map_idI)
  qed
  ultimately show ?thesis unfolding short_part_def Let_def by (cases lower) simp_all
qed

lemma usplit_once_Some: "usplit_once d s = Some (a, b) \<Longrightarrow> s = a @ d # b \<and> d \<notin> set a"
  by (induction s arbitrary: a) (auto split: if_splits)

lemma usplit_once_None: "usplit_once d s = None \<longleftrightarrow> d \<notin> set s"
  by (induction s) auto

lemma exact_short_name_back:
  assumes "exact_short_name name = Some (short, cases)" "check_name name = (Ok () :: (unit, 'e fat_error) result)"
    "e = short_entry short cases attr cluster len stamp"
  shows "length short = 11" "short ! 0 \<noteq> ENTRY_END" "short ! 0 \<noteq> ENTRY_DELETED" "short_name e = name"
proof -
  obtain base ext where be: "(case usplit_once 0x2E name of Some x \<Rightarrow> x | None \<Rightarrow> (name, [])) = (base, ext)" by fastforce
  have ex: "(if base = [] \<or> ulen base > 8 \<or> ulen ext > 3 \<or> 0x2E \<in> set ext then None
         else case part_case base of None \<Rightarrow> None
              | Some base_lower \<Rightarrow> (case part_case ext of None \<Rightarrow> None
                   | Some ext_lower \<Rightarrow> Some (overwrite 8 (uppercase_bytes ext) (overwrite 0 (uppercase_bytes base) (replicate 11 0x20)),
                       (if base_lower then CASE_LOWER_BASE else 0) OR (if ext_lower then CASE_LOWER_EXT else 0)))) = Some (short, cases)"
    using assms(1) unfolding exact_short_name_def be Let_def prod.case .
  have cond: "base \<noteq> []" "\<not> ulen base > 8" "\<not> ulen ext > 3" using ex by (auto split: if_splits)
  obtain bl el where pc: "part_case base = Some bl" "part_case ext = Some el" and
    short: "short = overwrite 8 (uppercase_bytes ext) (overwrite 0 (uppercase_bytes base) (replicate 11 0x20))" and
    cs: "cases = (if bl then CASE_LOWER_BASE else 0) OR (if el then CASE_LOWER_EXT else 0)"
    using ex by (auto split: if_splits option.splits)
  have sc: "\<forall>c \<in> set base. is_short_char c" "\<forall>c \<in> set ext. is_short_char c" using pc by (auto simp: part_case_def Let_def split: if_splits)
  have len: "length base \<le> 8" "length ext \<le> 3" using cond ulen_short [OF sc(1)] ulen_short [OF sc(2)] by simp_all
  have sp: "short = (uppercase_bytes base @ replicate (8 - length base) 0x20) @ (uppercase_bytes ext @ replicate (3 - length ext) 0x20)"
    using len unfolding short by (simp add: overwrite_def uppercase_bytes_def)
  show l11: "length short = 11" using len unfolding sp by (simp add: uppercase_bytes_def)
  obtain b bs where base: "base = b # bs" using cond(1) by (cases base) auto
  have "unat (short ! 0) = to_ascii_uppercase b" using unat_upper [of b] sc(1) unfolding sp base by (simp add: uppercase_bytes_def)
  then have s0: "33 \<le> unat (short ! 0)" "unat (short ! 0) \<le> 126" using short_upper [of b] sc(1) base by simp_all
  then show "short ! 0 \<noteq> ENTRY_END" "short ! 0 \<noteq> ENTRY_DELETED" by (auto simp: ENTRY_END_def ENTRY_DELETED_def)
  have k: "short ! 0 \<noteq> ENTRY_KANJI_E5" using s0 by (auto simp: ENTRY_KANJI_E5_def)
  note f = short_entry_fields [OF l11 assms(3)]
  have t8: "take 8 short = uppercase_bytes base @ replicate (8 - length base) 0x20" "drop 8 short = uppercase_bytes ext @ replicate (3 - length ext) 0x20"
    using len unfolding sp by (simp_all add: uppercase_bytes_def)
  have flags: "cases AND CASE_LOWER_BASE \<noteq> 0 \<longleftrightarrow> bl" "cases AND CASE_LOWER_EXT \<noteq> 0 \<longleftrightarrow> el"
    unfolding cs by (cases bl; cases el; simp add: CASE_LOWER_BASE_def CASE_LOWER_EXT_def)+
  have parts: "short_part (slice 0 8 e) bl = base" "short_part (slice 8 11 e) el = ext"
    using short_part_back [OF pc(1) len(1)] short_part_back [OF pc(2) len(2)] f(6,7) t8 by simp_all
  have "short_name e = (if ext = [] then base else base @ ustr ''.'' @ ext)"
    using k unfolding short_name_def Let_def f(5) flags parts f(2) by simp
  also have "\<dots> = name"
  proof (cases "usplit_once 0x2E name")
    case None
    then show ?thesis using be by auto
  next
    case (Some x)
    then have "name = base @ 0x2E # ext" using be by (cases x) (auto dest: usplit_once_Some)
    moreover from this have "ext \<noteq> []" using assms(2) by (auto simp: check_name_def uends_with_def Let_def split: if_splits)
    ultimately show ?thesis by (simp add: ustr_def)
  qed
  finally show "short_name e = name" .
qed

subsection \<open>Aliases\<close>

lemma clean_part_bytes: "b \<in> set (clean_part part n) \<Longrightarrow> 33 \<le> unat b \<and> unat b \<le> 126"
  using short_upper unat_upper unfolding clean_part_def by (auto dest!: in_set_takeD split: if_splits)

lemma length_clean_part: "length (clean_part part n) \<le> n"
  by (simp add: clean_part_def)

lemma alias_try_shape:
  assumes "alias_try basis ext n = Some short" "length ext \<le> 3" "length basis \<le> 6"
  shows "length short = 11" "take 8 short = take (min (length basis) (8 - length (dec n) - 1)) basis @ 0x7E # dec n
      @ replicate (8 - min (length basis) (8 - length (dec n) - 1) - length (dec n) - 1) 0x20"
proof -
  define tail where "tail = 0x7E # dec n"
  have tl: "ascii ''~'' @ dec n = tail" by (simp add: tail_def ascii_def)
  have tl8: "length tail \<le> 8" using assms(1) unfolding alias_try_def Let_def tl by (auto split: if_splits)
  define keep where "keep = min (length basis) (8 - length tail)"
  have keep: "keep + length tail \<le> 8" "keep \<le> length basis" using tl8 by (auto simp: keep_def)
  have "short = overwrite keep tail (overwrite 0 (take keep basis) (overwrite 8 ext (replicate 11 0x20)))"
    using assms(1) unfolding alias_try_def Let_def tl keep_def by (auto split: if_splits)
  then have sh: "short = take keep basis @ tail @ drop (keep + length tail) (replicate 8 0x20 @ ext @ replicate (3 - length ext) 0x20)"
    using keep assms(2) by (simp add: overwrite_def min_def)
  show "length short = 11" using keep assms(2) unfolding sh by simp
  have "take 8 short = take keep basis @ tail @ replicate (8 - keep - length tail) 0x20"
    using keep unfolding sh by simp
  then show "take 8 short = take (min (length basis) (8 - length (dec n) - 1)) basis @ 0x7E # dec n
      @ replicate (8 - min (length basis) (8 - length (dec n) - 1) - length (dec n) - 1) 0x20"
    by (simp add: keep_def tail_def)
qed

lemma dec_inj: "dec n = dec m \<Longrightarrow> n = m"
  using parse_digits_dec [of n "n + m + 1"] parse_digits_dec [of m "n + m + 1"] by simp

lemma alias_try_inj:
  assumes "alias_try basis ext n = Some short" "alias_try basis ext m = Some short" "length ext \<le> 3" "length basis \<le> 6"
  shows "n = m"
proof -
  have digits: "takeWhile (\<lambda>b. b \<noteq> 0x7E) (dropWhile (\<lambda>b. b = 0x20) (rev (take 8 short))) = rev (dec k)"
    if k: "alias_try basis ext k = Some short" for k
  proof -
    obtain xs j where t8: "take 8 short = xs @ 0x7E # dec k @ replicate j 0x20" using alias_try_shape(2) [OF k assms(3,4)] by blast
    have "b \<noteq> 0x20 \<and> b \<noteq> 0x7E" if "b \<in> set (rev (dec k))" for b using dec_digits [of b k] that by auto
    moreover obtain y ys where y: "rev (dec k) = y # ys" by (cases "rev (dec k)") auto
    ultimately have "dropWhile (\<lambda>b. b = 0x20) (replicate j 0x20 @ rev (dec k) @ 0x7E # rev xs) = rev (dec k) @ 0x7E # rev xs"
      by (induction j) auto
    moreover have "takeWhile (\<lambda>b. b \<noteq> 0x7E) (rev (dec k) @ 0x7E # rev xs) = rev (dec k)"
      using dec_digits by (subst takeWhile_append2) fastforce+
    ultimately show ?thesis by (simp add: t8)
  qed
  show ?thesis using digits [OF assms(1)] digits [OF assms(2)] dec_inj [of n m] by simp
qed

lemma length_dec: "n < 10 ^ k \<Longrightarrow> 0 < k \<Longrightarrow> length (dec n) \<le> k"
proof (induction k arbitrary: n)
  case (Suc k)
  show ?case
  proof (cases "n < 10")
    case True
    then show ?thesis by (subst dec.simps) simp
  next
    case False
    then have "0 < k" using Suc.prems by (cases k) auto
    moreover have "n div 10 < 10 ^ k" using Suc.prems(1) by (simp add: less_mult_imp_div_less mult.commute)
    ultimately show ?thesis using Suc.IH [of "n div 10"] False by (subst dec.simps) simp
  qed
qed simp

lemma alias_loop_found:
  assumes "alias_loop fuel basis ext taken n = Some short"
  shows "short \<notin> set taken \<and> (\<exists>k \<ge> n. alias_try basis ext k = Some short)"
  using assms by (induction fuel arbitrary: n) (auto split: option.splits if_splits dest: Suc_leD)

text \<open>One round more than there are names taken is enough.\<close>

lemma alias_loop_ends:
  assumes "length ext \<le> 3" "length basis \<le> 6" "n + fuel \<le> 10 ^ 7" "T \<subseteq> set taken" "card (set taken - T) < fuel"
    "\<forall>k \<ge> n. \<forall>short \<in> T. alias_try basis ext k \<noteq> Some short"
  shows "\<exists>short. alias_loop fuel basis ext taken n = Some short"
  using assms(3-6)
proof (induction fuel arbitrary: n T)
  case (Suc fuel)
  have "length (dec n) \<le> 7" using length_dec [of n 7] Suc.prems(1) by simp
  then obtain short where short: "alias_try basis ext n = Some short" by (simp add: alias_try_def ascii_def Let_def)
  show ?case
  proof (cases "short \<in> set taken")
    case True
    have new: "short \<notin> T" using Suc.prems(4) short by blast
    have "card (set taken - insert short T) < card (set taken - T)" using True new by (intro psubset_card_mono) auto
    moreover have "\<forall>k \<ge> n + 1. \<forall>s \<in> insert short T. alias_try basis ext k \<noteq> Some s"
      using Suc.prems(4) alias_try_inj [OF short _ assms(1,2)] by fastforce
    ultimately show ?thesis using Suc.IH [of "n + 1" "insert short T"] Suc.prems True short by simp
  qed (simp add: short)
qed simp

lemma alias_name_found:
  shows "length taken < 10 ^ 7 - 1 \<Longrightarrow> \<exists>short. alias_name name taken = Some short"
    "alias_name name taken = Some short \<Longrightarrow> length short = 11 \<and> short ! 0 \<noteq> ENTRY_END \<and> short ! 0 \<noteq> ENTRY_DELETED \<and> short \<notin> set taken"
proof -
  obtain base ext where be: "(case ursplit_once 0x2E (trim_start_matches 0x2E name) of Some x \<Rightarrow> x | None \<Rightarrow> (trim_start_matches 0x2E name, [])) = (base, ext)"
    by fastforce
  define basis where "basis = (if clean_part base 6 = [] then [0x5F] else clean_part base 6)"
  have eq: "alias_name name taken = alias_loop (length taken + 1) basis (clean_part ext 3) taken 1"
    unfolding alias_name_def Let_def be prod.case basis_def by (rule refl)
  have b: "length basis \<le> 6" "basis \<noteq> []" "\<forall>b \<in> set basis. 33 \<le> unat b \<and> unat b \<le> 126"
    using length_clean_part [of base 6] clean_part_bytes by (auto simp: basis_def)
  note e = length_clean_part [of ext 3]
  show "\<exists>short. alias_name name taken = Some short" if "length taken < 10 ^ 7 - 1"
    unfolding eq using that card_length [of taken] by (intro alias_loop_ends [OF e b(1), where T = "{}"]) auto
  show "length short = 11 \<and> short ! 0 \<noteq> ENTRY_END \<and> short ! 0 \<noteq> ENTRY_DELETED \<and> short \<notin> set taken" if found: "alias_name name taken = Some short"
  proof -
    obtain k where k: "alias_try basis (clean_part ext 3) k = Some short" "short \<notin> set taken" using alias_loop_found [OF found [unfolded eq]] by blast
    note sh = alias_try_shape [OF k(1) e b(1)]
    define m where "m = min (length basis) (8 - length (dec k) - 1)"
    have "short ! 0 = (take 8 short) ! 0" by simp
    also have "\<dots> = (if m = 0 then 0x7E else basis ! 0)" unfolding sh(2) m_def [symmetric] using b(2) by (cases basis; cases m) auto
    finally have "33 \<le> unat (short ! 0) \<and> unat (short ! 0) \<le> 126" using b(2,3) by (cases basis) auto
    then show ?thesis using sh(1) k(2) by (auto simp: ENTRY_END_def ENTRY_DELETED_def)
  qed
qed

subsection \<open>New entries\<close>

definition entry_made :: "'d fat \<Rightarrow> fat_type \<Rightarrow> ustr \<Rightarrow> byte \<Rightarrow> nat \<Rightarrow> nat \<Rightarrow> dir_entry" where
  "entry_made f t name attr cluster len =
     \<lparr>de_name = name, de_kind = (if attr = ATTR_DIRECTORY then Directory else File), de_size = (if attr = ATTR_DIRECTORY then 0 else len),
      de_modified = \<lparr>sm_date = fst (fa_stamp f), sm_time = snd (fa_stamp f)\<rparr>, de_cluster = cluster\<rparr>"

definition plain_name :: "ustr \<Rightarrow> bool" where
  \<comment> \<open>of characters, and without the noncharacter that long names end with\<close>
  "plain_name name \<longleftrightarrow> (\<forall>c \<in> set name. is_scalar c \<and> c \<noteq> 0xFFFF)"

lemma high_low_u32: "unat (ucast (drop_bit 16 w) :: u16) * 2 ^ 16 + unat (ucast w :: u16) = unat (w :: u32)"
proof -
  have "unat (ucast (drop_bit 16 w) :: u16) = unat w div 2 ^ 16"
  proof -
    have "unat w div 2 ^ 16 < 2 ^ 16" using unat_u32_less [of w] by (intro less_mult_imp_div_less) simp
    moreover have "unat (drop_bit 16 w) = unat w div 2 ^ 16" 
    proof -
      have "unat (drop_bit 16 w) = drop_bit 16 (take_bit 32 (unat w))" using unsigned_drop_bit_eq [of 16 w] by simp
      moreover have "take_bit 32 (unat w) = unat w" by (rule take_bit_nat_eq_self) (use unat_u32_less [of w] in simp)
      ultimately show ?thesis using drop_bit_eq_div [of 16 "unat w"] by metis
    qed
    ultimately show ?thesis by (simp only: unsigned_ucast_eq) (simp add: take_bit_nat_eq_self)
  qed
  moreover have "unat (ucast w :: u16) = unat w mod 2 ^ 16" by (simp add: unsigned_ucast_eq take_bit_eq_mod)
  ultimately show ?thesis by (metis div_mult_mod_eq)
qed

lemma located_entry_made:
  assumes "length short = 11" "e = short_entry short cases attr (of_nat cluster) (of_nat len) (fa_stamp f)"
    "attr \<in> {ATTR_ARCHIVE, ATTR_DIRECTORY}" "len < 2 ^ 32" "cluster < (if t = Fat32 then 2 ^ 32 else 2 ^ 16)"
  shows "located_entry t e name = entry_made f t name attr cluster len"
proof -
  note f = short_entry_fields [OF assms(1,2)]
  have len: "unat (of_nat len :: u32) = len" using assms(4) by (simp add: unsigned_of_nat take_bit_nat_eq_self)
  have "cluster < 2 ^ 32" using assms(5) by (auto split: if_splits)
  then have cl: "unat (of_nat cluster :: u32) = cluster" by (simp add: unsigned_of_nat take_bit_nat_eq_self)
  have dir: "(attr AND ATTR_DIRECTORY \<noteq> 0) = (attr = ATTR_DIRECTORY)" using assms(3) by (auto simp: ATTR_ARCHIVE_def ATTR_DIRECTORY_def)
  have "(if t = Fat32 then unat (fu16 e 20) else 0) * 2 ^ 16 + unat (fu16 e 26) = cluster"
  proof (cases "t = Fat32")
    case True
    then show ?thesis using high_low_u32 [of "of_nat cluster"] cl f(8,9) by simp
  next
    case False
    then have "cluster < 2 ^ 16" using assms(5) by simp
    then show ?thesis using False cl f(9) by (simp add: unsigned_ucast_eq take_bit_nat_eq_self)
  qed
  then show ?thesis unfolding located_entry_def Let_def f(4) dir entry_made_def using f(10-12) len by simp
qed

lemma check_nameD:
  assumes "check_name name = (Ok () :: (unit, 'e fat_error) result)"
  shows "name \<noteq> []" "length (encode_utf16 name) \<le> MAX_NAME" "name \<noteq> ustr ''.''" "name \<noteq> ustr ''..''" "\<forall>c \<in> set name. 0x20 \<le> c"
  using assms by (auto simp: check_name_def Let_def not_less split: if_splits)

lemma new_entries_listed:
  assumes ok: "check_name name = (Ok () :: (unit, 'e fat_error) result)" and plain: "plain_name name"
    and new: "new_entries f img name attr cluster len = Some entries" and attr: "attr \<in> {ATTR_ARCHIVE, ATTR_DIRECTORY}"
    and small: "len < 2 ^ 32" "cluster < (if t = Fat32 then 2 ^ 32 else 2 ^ 16)" and ln: "reset_name ln"
  shows "parse_slots t i (entries @ es) ln ls
      = \<lparr>lo_entry = entry_made f t name attr cluster len, lo_start = i, lo_end = i + length entries\<rparr> # parse_slots t (i + length entries) es long_new 0"
    "no_end entries" "entries \<noteq> []" "\<forall>e \<in> set entries. length e = 32 \<and> e ! 0 \<noteq> ENTRY_DELETED" "\<not> long_piece (last entries)"
proof -
  note ck = check_nameD [OF ok]
  have bits: "attr AND 0x3F \<noteq> ATTR_LONG_NAME" "attr AND ATTR_VOLUME_ID = 0"
    using attr by (auto simp: ATTR_ARCHIVE_def ATTR_DIRECTORY_def ATTR_LONG_NAME_def ATTR_VOLUME_ID_def)
  have last: "parse_slots t j (e # es) l k = \<lparr>lo_entry = entry_made f t name attr cluster len, lo_start = (if fst (long_take short l) \<noteq> None then k else j),
          lo_end = j + 1\<rparr> # parse_slots t (j + 1) es long_new 0"
      "e ! 0 \<noteq> ENTRY_END" "length e = 32" "e ! 0 \<noteq> ENTRY_DELETED" "\<not> long_piece e"
    if sh: "length short = 11" "short ! 0 \<noteq> ENTRY_END" "short ! 0 \<noteq> ENTRY_DELETED"
      "e = short_entry short cases attr (of_nat cluster) (of_nat len) (fa_stamp f)"
      "(case fst (long_take short l) of Some n \<Rightarrow> n | None \<Rightarrow> short_name e) = name" for short cases e l k j
  proof -
    note f = short_entry_fields [OF sh(1,4)]
    show e: "e ! 0 \<noteq> ENTRY_END" "length e = 32" "e ! 0 \<noteq> ENTRY_DELETED" "\<not> long_piece e" using f sh(2,3) bits by (simp_all add: long_piece_def)
    obtain name0 l' where tk: "long_take short l = (name0, l')" by fastforce
    have r: "reset_name l'" using long_take_reset [of short l] tk by simp
    have "parse_slots t j (e # es) l k = \<lparr>lo_entry = located_entry t e name, lo_start = (if name0 \<noteq> None then k else j), lo_end = j + 1\<rparr> # parse_slots t (j + 1) es l' k"
      using e bits f(3,4) sh(5) ck(3,4) tk by (simp add: parse_slots.simps(2) Let_def)
    then show "parse_slots t j (e # es) l k = \<lparr>lo_entry = entry_made f t name attr cluster len, lo_start = (if fst (long_take short l) \<noteq> None then k else j),
          lo_end = j + 1\<rparr> # parse_slots t (j + 1) es long_new 0"
      using located_entry_made [OF sh(1,4) attr small] parse_reset [OF r reset_name_simps(2), of t "j + 1" es k 0] tk by simp
  qed
  have "parse_slots t i (entries @ es) ln ls
      = \<lparr>lo_entry = entry_made f t name attr cluster len, lo_start = i, lo_end = i + length entries\<rparr> # parse_slots t (i + length entries) es long_new 0 \<and>
      no_end entries \<and> entries \<noteq> [] \<and> (\<forall>e \<in> set entries. length e = 32 \<and> e ! 0 \<noteq> ENTRY_DELETED) \<and> \<not> long_piece (last entries)"
  proof (cases "exact_short_name name")
    case (Some p)
    obtain short cases where p: "p = (short, cases)" by fastforce
    define e where "e = short_entry short cases attr (of_nat cluster) (of_nat len) (fa_stamp f)"
    have ent: "entries = [e]" using new Some p by (simp add: new_entries_def e_def)
    note ex = exact_short_name_back [OF Some [unfolded p] ok e_def]
    have nm: "(case fst (long_take short ln) of Some n \<Rightarrow> n | None \<Rightarrow> short_name e) = name" using long_take_none [OF ln] ex(4) by simp
    note l = last [OF ex(1-3) e_def nm]
    show "parse_slots t i (entries @ es) ln ls
      = \<lparr>lo_entry = entry_made f t name attr cluster len, lo_start = i, lo_end = i + length entries\<rparr> # parse_slots t (i + length entries) es long_new 0 \<and>
      no_end entries \<and> entries \<noteq> [] \<and> (\<forall>e \<in> set entries. length e = 32 \<and> e ! 0 \<noteq> ENTRY_DELETED) \<and> \<not> long_piece (last entries)"
      unfolding ent using l(1) [of i ls] l(2-5) long_take_none [OF ln] by (simp add: no_end_def)
  next
    case None
    obtain short where al: "alias_name name (short_names img) = Some short" using new None by (auto simp: new_entries_def)
    note sh = alias_name_found(2) [OF al]
    define e where "e = short_entry short 0 attr (of_nat cluster) (of_nat len) (fa_stamp f)"
    have ent: "entries = long_entries name short @ [e]" using new None al by (simp add: new_entries_def e_def)
    have plain': "\<forall>c \<in> set name. is_scalar c \<and> c \<noteq> 0 \<and> c \<noteq> 0xFFFF" using plain ck(5) by (force simp: plain_name_def)
    obtain units where u: "\<And>t i es ln ls. parse_slots t i (long_entries name short @ es) ln ls
      = parse_slots t (i + length (long_entries name short)) es (collected (short_name_checksum short) units 0) i"
      "units \<noteq> []" "long_text units = name" "long_entries name short \<noteq> []" "\<forall>e \<in> set (long_entries name short). long_piece e \<and> length e = 32"
      using parse_long_entries [OF ck(1,2) plain'] by metis
    define l where "l = collected (short_name_checksum short) units 0"
    have tk: "fst (long_take short l) = Some name" using u(2,3) by (simp add: l_def long_take_def collected_def Let_def)
    note last' = last [of short e 0 l, OF _ _ _ e_def]
    have "parse_slots t i (entries @ es) ln ls = parse_slots t (i + length (long_entries name short)) (e # es) l i"
      unfolding ent l_def using u(1) [of t i "e # es" ln ls] by simp
    then show "parse_slots t i (entries @ es) ln ls
      = \<lparr>lo_entry = entry_made f t name attr cluster len, lo_start = i, lo_end = i + length entries\<rparr> # parse_slots t (i + length entries) es long_new 0 \<and>
      no_end entries \<and> entries \<noteq> [] \<and> (\<forall>e \<in> set entries. length e = 32 \<and> e ! 0 \<noteq> ENTRY_DELETED) \<and> \<not> long_piece (last entries)"
      using last' sh tk u(5) unfolding ent by (auto simp: no_end_def long_piece_def)
  qed
  then show "parse_slots t i (entries @ es) ln ls
      = \<lparr>lo_entry = entry_made f t name attr cluster len, lo_start = i, lo_end = i + length entries\<rparr> # parse_slots t (i + length entries) es long_new 0"
    "no_end entries" "entries \<noteq> []" "\<forall>e \<in> set entries. length e = 32 \<and> e ! 0 \<noteq> ENTRY_DELETED" "\<not> long_piece (last entries)" by blast+
qed

text \<open>An 8.3 name is not compared with the aliases in the directory: \<open>AB~1\<close> gets the bytes that \<open>A B\<close> already has there.\<close>

lemma short_name_taken:
  defines "short \<equiv> ascii ''AB~1       ''"
  shows "alias_name (ustr ''A B'') [] = Some short" "exact_short_name (ustr ''AB~1'') = Some (short, 0)"
    "\<not> names_match (\<lambda>c. [c]) (ustr ''A B'') (ustr ''AB~1'')"
proof -
  have chars: "ustr ''A B'' = [65, 32, 66]" "ustr ''AB~1'' = [65, 66, 126, 49]" by (simp_all add: ustr_def)
  note simps = clean_part_def is_short_char_def to_ascii_uppercase_def is_ascii_uppercase_def is_ascii_lowercase_def is_ascii_digit_def SHORT_EXTRA_def overwrite_def short_def ascii_def
  have pad: "replicate 7 (x :: byte) = [x, x, x, x, x, x, x]" "replicate 4 x = [x, x, x, x]" "replicate 3 x = [x, x, x]" for x by (simp_all add: numeral_eq_Suc)
  have d1: "dec (Suc 0) = [49]" by (simp add: dec.simps)
  show "alias_name (ustr ''A B'') [] = Some short"
    by (simp add: chars simps alias_name_def trim_start_matches_def ursplit_once_def alias_try_def Let_def d1 pad)
  show "exact_short_name (ustr ''AB~1'') = Some (short, 0)"
    by (simp add: chars simps exact_short_name_def ulen_def len_utf8_def part_case_def uppercase_bytes_def ustr_def pad)
  show "\<not> names_match (\<lambda>c. [c]) (ustr ''A B'') (ustr ''AB~1'')" by (simp add: chars names_match_def)
qed

end
