(* ===== verification/Fat_Listing.thy ===== *)
theory Fat_Listing
  imports Fat_Names
begin

text \<open>
  What adding, changing and deleting an entry does to the listing of a directory: exactly that entry comes, changes or goes,
  and all others stay, in their order and in their slots.
\<close>

subsection \<open>Slots of an image\<close>

lemma length_dir_slots [simp]: "length (dir_slots bytes) = length bytes div DIR_ENTRY_SIZE"
  by (simp add: dir_slots_def)

lemma dir_slot_length: "e \<in> set (dir_slots bytes) \<Longrightarrow> length e = DIR_ENTRY_SIZE"
proof -
  assume "e \<in> set (dir_slots bytes)"
  then obtain i where i: "i < length bytes div DIR_ENTRY_SIZE" "e = slice (i * DIR_ENTRY_SIZE) ((i + 1) * DIR_ENTRY_SIZE) bytes" by (auto simp: dir_slots_def)
  have "(i + 1) * DIR_ENTRY_SIZE \<le> length bytes div DIR_ENTRY_SIZE * DIR_ENTRY_SIZE" using i(1) by (intro mult_le_mono1) simp
  then have "(i + 1) * DIR_ENTRY_SIZE \<le> length bytes" using div_times_less_eq_dividend [of "length bytes" DIR_ENTRY_SIZE] by linarith
  then show ?thesis unfolding i(2) by (simp add: slice_simps)
qed

lemma dir_slots_set:
  assumes "i < length bytes div DIR_ENTRY_SIZE" "length e = DIR_ENTRY_SIZE"
  shows "dir_slots (overwrite (i * DIR_ENTRY_SIZE) e bytes) = (dir_slots bytes)[i := e]" "length (overwrite (i * DIR_ENTRY_SIZE) e bytes) = length bytes"
proof -
  have fit: "(j + 1) * DIR_ENTRY_SIZE \<le> length bytes" if "j < length bytes div DIR_ENTRY_SIZE" for j
  proof -
    have "(j + 1) * DIR_ENTRY_SIZE \<le> length bytes div DIR_ENTRY_SIZE * DIR_ENTRY_SIZE" using that by (intro mult_le_mono1) simp
    then show ?thesis using div_times_less_eq_dividend [of "length bytes" DIR_ENTRY_SIZE] by linarith
  qed
  have at: "i * DIR_ENTRY_SIZE + length e \<le> length bytes" using fit [OF assms(1)] assms(2) by simp
  then show len: "length (overwrite (i * DIR_ENTRY_SIZE) e bytes) = length bytes" by (rule length_overwrite)
  show "dir_slots (overwrite (i * DIR_ENTRY_SIZE) e bytes) = (dir_slots bytes)[i := e]"
  proof (rule nth_equalityI)
    fix j assume "j < length (dir_slots (overwrite (i * DIR_ENTRY_SIZE) e bytes))"
    then have j: "j < length bytes div DIR_ENTRY_SIZE" by (simp add: len)
    show "dir_slots (overwrite (i * DIR_ENTRY_SIZE) e bytes) ! j = (dir_slots bytes)[i := e] ! j"
    proof (cases "j = i")
      case True
      have "slice (i * DIR_ENTRY_SIZE) (i * DIR_ENTRY_SIZE + length e) (overwrite (i * DIR_ENTRY_SIZE) e bytes) = e"
        using at by (simp add: slice_def overwrite_def)
      then show ?thesis using True j assms(2) len by (simp add: dir_slots_def add.commute)
    next
      case False
      have apart: "(j + 1) * DIR_ENTRY_SIZE \<le> i * DIR_ENTRY_SIZE \<or> i * DIR_ENTRY_SIZE + length e \<le> j * DIR_ENTRY_SIZE"
        using False assms(2) mult_le_mono1 [of "j + 1" i DIR_ENTRY_SIZE] mult_le_mono1 [of "i + 1" j DIR_ENTRY_SIZE]
        by (cases "j < i") auto
      have "slice (j * DIR_ENTRY_SIZE) ((j + 1) * DIR_ENTRY_SIZE) (overwrite (i * DIR_ENTRY_SIZE) e bytes) = slice (j * DIR_ENTRY_SIZE) ((j + 1) * DIR_ENTRY_SIZE) bytes"
        using at apart fit [OF j] by (intro nth_equalityI) (auto simp: slice_simps)
      then show ?thesis using False j len by (simp add: dir_slots_def)
    qed
  qed (simp add: len)
qed

lemma put_slots:
  assumes "at + length entries \<le> length (di_bytes img) div DIR_ENTRY_SIZE" "\<forall>e \<in> set entries. length e = DIR_ENTRY_SIZE"
  shows "dir_slots (di_bytes (put_entries at entries img)) = take at (dir_slots (di_bytes img)) @ entries @ drop (at + length entries) (dir_slots (di_bytes img))
    \<and> length (di_bytes (put_entries at entries img)) = length (di_bytes img) \<and> di_sectors (put_entries at entries img) = di_sectors img"
  using assms
proof (induction entries rule: rev_induct)
  case Nil
  then show ?case by (simp add: put_entries_def)
next
  case (snoc e entries)
  have IH: "dir_slots (di_bytes (put_entries at entries img)) = take at (dir_slots (di_bytes img)) @ entries @ drop (at + length entries) (dir_slots (di_bytes img))"
    "length (di_bytes (put_entries at entries img)) = length (di_bytes img)" "di_sectors (put_entries at entries img) = di_sectors img"
    using snoc by simp_all
  have put: "put_entries at (entries @ [e]) img = set_slot (at + length entries) e (put_entries at entries img)"
    by (simp add: put_entries_def enumerate_append_eq)
  have lt: "at + length entries < length (di_bytes img) div DIR_ENTRY_SIZE" using snoc.prems(1) by simp
  have "drop (at + length entries) (dir_slots (di_bytes img)) = dir_slots (di_bytes img) ! (at + length entries) # drop (at + length entries + 1) (dir_slots (di_bytes img))"
    using lt by (simp add: Cons_nth_drop_Suc)
  then show ?case using dir_slots_set [of "at + length entries" "di_bytes (put_entries at entries img)" e] IH lt snoc.prems(2)
    unfolding put set_slot_def by (simp add: list_update_append)
qed

subsection \<open>Free slots\<close>

definition dir_ok :: "byte list list \<Rightarrow> bool" where
  \<comment> \<open>no pieces of a long name are left over before a free slot, and all slots after the end are free\<close>
  "dir_ok es \<longleftrightarrow> (\<forall>j < length es. 0 < j \<and> es ! j ! 0 \<in> {ENTRY_DELETED, ENTRY_END} \<longrightarrow> \<not> long_piece (es ! (j - 1)))
     \<and> (\<forall>j < length es. \<forall>k < j. es ! k ! 0 = ENTRY_END \<longrightarrow> es ! j ! 0 = ENTRY_END)"

definition free_at :: "byte list list \<Rightarrow> nat \<Rightarrow> nat \<Rightarrow> nat \<Rightarrow> bool" where
  \<comment> \<open>\<open>m\<close> deleted slots at \<open>at\<close>, and if these are not all, the end\<close>
  "free_at es at count m \<longleftrightarrow> at + count \<le> length es \<and> m \<le> count \<and> (\<forall>j < at + m. es ! j ! 0 \<noteq> ENTRY_END)
     \<and> (\<forall>j. at \<le> j \<and> j < at + m \<longrightarrow> es ! j ! 0 = ENTRY_DELETED) \<and> (m < count \<longrightarrow> es ! (at + m) ! 0 = ENTRY_END)"

lemma free_run_from_at:
  assumes "free_run_from (length es) count index run (drop index es) = Some at" "run \<le> index" "run < count" "index \<le> length es"
    "\<forall>j < index. es ! j ! 0 \<noteq> ENTRY_END" "\<forall>j. index - run \<le> j \<and> j < index \<longrightarrow> es ! j ! 0 = ENTRY_DELETED"
  shows "\<exists>m. free_at es at count m"
  using assms
proof (induction "length es - index" arbitrary: index run)
  case (Suc n)
  then have lt: "index < length es" by simp
  then have dr: "drop index es = es ! index # drop (index + 1) es" by (simp add: Cons_nth_drop_Suc)
  show ?case
  proof (cases "es ! index ! 0 = ENTRY_END")
    case True
    then have "at = index - run" "index - run + count \<le> length es" using Suc.prems(1) unfolding dr by (auto split: if_splits)
    then have "free_at es at count run" using Suc.prems True unfolding free_at_def by auto
    then show ?thesis by blast
  next
    case False
    define run' where "run' = (if es ! index ! 0 = ENTRY_DELETED then run + 1 else 0)"
    have step: "(if run' = count then Some (index + 1 - count) else free_run_from (length es) count (index + 1) run' (drop (index + 1) es)) = Some at"
      using Suc.prems(1) False unfolding dr free_run_from.simps Let_def run'_def by (simp only: if_False)
    have facts: "\<forall>j < index + 1. es ! j ! 0 \<noteq> ENTRY_END" "\<forall>j. index + 1 - run' \<le> j \<and> j < index + 1 \<longrightarrow> es ! j ! 0 = ENTRY_DELETED" "run' \<le> index + 1" "run' \<le> count"
      using Suc.prems(2,3,5,6) False by (auto simp: run'_def less_Suc_eq)
    show ?thesis
    proof (cases "run' = count")
      case True
      then have "at = index + 1 - count" using step by simp
      then have "free_at es at count count" using facts True lt unfolding free_at_def by auto
      then show ?thesis by blast
    next
      case False
      then show ?thesis using Suc.hyps(1) [of "index + 1" run'] Suc.hyps(2) step facts lt by (simp add: less_le)
    qed
  qed
qed simp

lemma free_run_at: "free_run count img = Some at \<Longrightarrow> 0 < count \<Longrightarrow> \<exists>m. free_at (dir_slots (di_bytes img)) at count m"
  using free_run_from_at [of "dir_slots (di_bytes img)" count 0 0 at] by (simp add: free_run_def image_slots_def)

subsection \<open>Adding an entry\<close>

lemma parse_all_end: "\<forall>e \<in> set es. e ! 0 = ENTRY_END \<Longrightarrow> parse_slots t i es ln ls = []"
  by (cases es) (auto simp: parse_slots.simps(2))

lemma scan_prefix_reset:
  assumes "dir_ok es" "at < length es" "es ! at ! 0 \<in> {ENTRY_DELETED, ENTRY_END}" "\<forall>j < at. es ! j ! 0 \<noteq> ENTRY_END"
  shows "reset_name (fst (scan_slots (take at es) 0 long_new 0))" "no_end (take at es)"
proof -
  show ne: "no_end (take at es)" using assms(2,4) by (auto simp: no_end_def in_set_conv_nth)
  show "reset_name (fst (scan_slots (take at es) 0 long_new 0))"
  proof (cases "at = 0")
    case False
    then have "last (take at es) = es ! (at - 1)" using assms(2) by (subst last_conv_nth) (auto simp: min_def)
    moreover have "\<not> long_piece (es ! (at - 1))" using assms(1-3) False by (auto simp: dir_ok_def)
    moreover have "take at es \<noteq> []" using False assms(2) by auto
    ultimately show ?thesis using scan_settled [OF ne] by simp
  qed simp
qed

lemma add_listed:
  assumes ok: "dir_ok es" and free: "free_at es at (length entries) m"
    and new: "\<And>i ln ls xs. reset_name ln \<Longrightarrow> parse_slots t i (entries @ xs) ln ls = located i # parse_slots t (i + length entries) xs long_new 0"
    and ne: "entries \<noteq> []"
  shows "parse_slots t 0 es long_new 0 = parse_slots t 0 (take at es) long_new 0 @ parse_slots t (at + length entries) (drop (at + length entries) es) long_new 0"
    "parse_slots t 0 (take at es @ entries @ drop (at + length entries) es) long_new 0
       = parse_slots t 0 (take at es) long_new 0 @ located at # parse_slots t (at + length entries) (drop (at + length entries) es) long_new 0"
proof -
  define n where "n = length entries"
  have n: "0 < n" using ne by (simp add: n_def)
  have f: "at + n \<le> length es" "m \<le> n" "\<forall>j < at + m. es ! j ! 0 \<noteq> ENTRY_END" "\<forall>j. at \<le> j \<and> j < at + m \<longrightarrow> es ! j ! 0 = ENTRY_DELETED"
      "m < n \<longrightarrow> es ! (at + m) ! 0 = ENTRY_END"
    using free unfolding free_at_def n_def by blast+
  have at: "at < length es" using f(1) n by simp
  have "es ! at ! 0 \<in> {ENTRY_DELETED, ENTRY_END}" using f(4,5) n by (cases "m = 0") auto
  note pre = scan_prefix_reset [OF ok at this]
  have "\<forall>j < at. es ! j ! 0 \<noteq> ENTRY_END" using f(3) by simp
  note r = pre(1) [OF this] and nend = pre(2) [OF this]
  have lt: "length (take at es) = at" using at by simp
  define after where "after = (if m = n then parse_slots t (at + n) (drop (at + n) es) long_new 0 else [])"
  have old: "parse_slots t at (drop at es) (fst (scan_slots (take at es) 0 long_new 0)) (snd (scan_slots (take at es) 0 long_new 0)) = after"
  proof -
    have split: "drop at es = take m (drop at es) @ drop (at + m) es" by (metis add.commute append_take_drop_id drop_drop)
    have del: "\<forall>e \<in> set (take m (drop at es)). e ! 0 = ENTRY_DELETED" using f(1,2,4) by (auto simp: in_set_conv_nth)
    have tail: "parse_slots t (at + m) (drop (at + m) es) l k = after" if "m = n \<longrightarrow> reset_name l" for l k
    proof (cases "m = n")
      case True
      then show ?thesis using parse_reset [OF _ reset_name_simps(2), of l t "at + n"] that by (simp add: after_def)
    next
      case False
      then have "at + m < length es" "es ! (at + m) ! 0 = ENTRY_END" using f by simp_all
      then show ?thesis using False by (simp add: after_def parse_slots.simps(2) flip: Cons_nth_drop_Suc)
    qed
    show ?thesis
    proof (cases "m = 0")
      case True
      then show ?thesis using tail r n by simp
    next
      case False
      then have "take m (drop at es) \<noteq> []" using at by simp
      then show ?thesis using parse_deleted [OF del] tail [of long_new 0] f(1,2) by (subst split) simp
    qed
  qed
  have end_part: "parse_slots t (at + n) (drop (at + n) es) long_new 0 = after"
  proof (cases "m = n")
    case False
    then have e: "at + m < length es" "es ! (at + m) ! 0 = ENTRY_END" using f by simp_all
    have "\<forall>e \<in> set (drop (at + n) es). e ! 0 = ENTRY_END"
    proof
      fix e assume "e \<in> set (drop (at + n) es)"
      then obtain j where "j < length es - (at + n)" "e = es ! (at + n + j)" using f(1) by (auto simp: in_set_conv_nth)
      then have "at + n + j < length es" "e = es ! (at + n + j)" by simp_all
      then show "e ! 0 = ENTRY_END" using ok e False f(2) unfolding dir_ok_def by (metis add.assoc add_less_cancel_left le_neq_implies_less trans_less_add1)
    qed
    then show ?thesis using parse_all_end False by (simp add: after_def)
  qed (simp add: after_def)
  show "parse_slots t 0 es long_new 0 = parse_slots t 0 (take at es) long_new 0 @ parse_slots t (at + length entries) (drop (at + length entries) es) long_new 0"
    using parse_append [OF nend, of t 0 "drop at es" long_new 0] old lt end_part by (simp add: n_def)
  show "parse_slots t 0 (take at es @ entries @ drop (at + length entries) es) long_new 0
      = parse_slots t 0 (take at es) long_new 0 @ located at # parse_slots t (at + length entries) (drop (at + length entries) es) long_new 0"
    using parse_append [OF nend] new [OF r] lt by simp
qed

subsection \<open>Changing and deleting an entry\<close>

lemma parse_pieces: "\<forall>e \<in> set es. long_piece e \<Longrightarrow> parse_slots t i es ln ls = []"
  by (induction es arbitrary: i ln ls) (simp_all add: parse_slots.simps(2) long_piece_def)

lemma delete_listed:
  assumes "parse_slots t 0 es long_new 0 = before @ found # after" and that: "\<forall>e \<in> set es. e \<noteq> []"
  shows "\<exists>pre grp post. es = pre @ grp @ post \<and> length pre = lo_start found \<and> length (pre @ grp) = lo_end found \<and> grp \<noteq> []
    \<and> no_end (pre @ grp) \<and> parse_slots t 0 pre long_new 0 = before \<and> parse_slots t (lo_end found) post long_new 0 = after
    \<and> parse_slots t 0 (pre @ map (\<lambda>e. e[0 := ENTRY_DELETED]) grp @ post) long_new 0 = before @ after"
proof -
  obtain pre grp post where g: "group_at t es before found after pre grp post 0 long_new 0"
    using parse_groups [OF assms(1)] by (auto simp: pending_at_def long_new_def name_ok_def)
  note g' = g [unfolded group_at_def]
  have "\<forall>e \<in> set grp. e \<noteq> []" using that g' by auto
  then have del: "\<forall>e \<in> set (map (\<lambda>e. e[0 := ENTRY_DELETED]) grp). e ! 0 = ENTRY_DELETED" by auto
  have ge: "parse_slots t (length pre + length grp) post long_new 0 = after" "parse_slots t 0 pre long_new 0 = before" "grp \<noteq> []" using g' by auto
  have "no_end pre" "no_end (pre @ grp)" using g' by (auto simp: no_end_def)
  then have "parse_slots t 0 (pre @ map (\<lambda>e. e[0 := ENTRY_DELETED]) grp @ post) long_new 0 = before @ after"
    using ge parse_append [of pre t 0 _ long_new 0] parse_deleted [OF del] by simp
  then show ?thesis using g' \<open>no_end (pre @ grp)\<close> by (intro exI [of _ pre] exI [of _ grp] exI [of _ post]) auto
qed

definition redirect :: "u16 \<times> u16 \<Rightarrow> nat \<Rightarrow> nat \<Rightarrow> byte list \<Rightarrow> byte list" where
  "redirect stamp first len e = set_modified stamp (set_cluster_and_size (of_nat first) (of_nat len) e)"

lemma fu16_overwrite_same: "at + 2 \<le> length b \<Longrightarrow> fu16 (overwrite at (to_le 2 w) b) at = w"
proof -
  assume a: "at + 2 \<le> length b"
  have "fu16 (overwrite at (to_le 2 w) b) at = from_le (to_le 2 w)" using a by (simp add: fu16_def nth_overwrite to_le_2)
  then show ?thesis by (simp add: from_le_to_le)
qed

lemma fu16_overwrite_other:
  "at + length ys \<le> length b \<Longrightarrow> k + 2 \<le> length b \<Longrightarrow> k + 2 \<le> at \<or> at + length ys \<le> k \<Longrightarrow> fu16 (overwrite at ys b) k = fu16 b k"
  by (auto simp: fu16_def nth_overwrite)

lemma redirect_fields:
  assumes "length e = 32" "e' = redirect stamp first len e"
  shows "length e' = 32" "\<And>i. i < 20 \<Longrightarrow> e' ! i = e ! i" "fu16 e' 20 = ucast (drop_bit 16 (of_nat first :: u32))" "fu16 e' 26 = ucast (of_nat first :: u32)"
    "fu32 e' 28 = of_nat len" "fu16 e' 22 = snd stamp" "fu16 e' 24 = fst stamp"
proof -
  note defs = assms(2) redirect_def set_modified_def set_cluster_and_size_def
  note ow = length_overwrite nth_overwrite fu16_overwrite_same fu16_overwrite_other
  show "length e' = 32" "fu16 e' 20 = ucast (drop_bit 16 (of_nat first :: u32))" "fu16 e' 26 = ucast (of_nat first :: u32)"
    "fu16 e' 22 = snd stamp" "fu16 e' 24 = fst stamp" unfolding defs using assms(1) by (simp_all add: ow)
  show "e' ! i = e ! i" if "i < 20" for i unfolding defs using assms(1) that by (simp add: ow)
  have "slice 28 (28 + 4) e' = to_le 4 (of_nat len :: u32)"
    unfolding defs using assms(1) by (simp add: slice_def overwrite_def to_le_4)
  then show "fu32 e' 28 = of_nat len" by (simp add: fu32_def from_le_to_le)
qed

definition redirected :: "located \<Rightarrow> u16 \<times> u16 \<Rightarrow> nat \<Rightarrow> nat \<Rightarrow> located" where
  "redirected found stamp first len = found\<lparr>lo_entry := (lo_entry found)\<lparr>de_size := len, de_cluster := first, de_modified := \<lparr>sm_date = fst stamp, sm_time = snd stamp\<rparr>\<rparr>\<rparr>"

lemma replace_listed:
  assumes run: "parse_slots t 0 es long_new 0 = before @ found # after" and len32: "\<forall>e \<in> set es. length e = 32"
    and isfile: "de_kind (lo_entry found) = File" and small: "len < 2 ^ 32" "first < (if t = Fat32 then 2 ^ 32 else 2 ^ 16)"
  shows "parse_slots t 0 (es[lo_end found - 1 := redirect stamp first len (es ! (lo_end found - 1))]) long_new 0
    = before @ redirected found stamp first len # after"
    "0 < lo_end found" "lo_end found \<le> length es"
proof -
  obtain pre grp post where g: "group_at t es before found after pre grp post 0 long_new 0"
    using parse_groups [OF run] by (auto simp: pending_at_def long_new_def name_ok_def)
  note g' = g [unfolded group_at_def]
  obtain ps e where grp: "grp = ps @ [e]" using g' by (metis append_butlast_last_id)
  define e' where "e' = redirect stamp first len e"
  have e32: "length e = 32" using len32 g' grp by auto
  note f = redirect_fields [OF e32 e'_def]
  have ge: "es = pre @ ps @ e # post" "lo_end found = length pre + length ps + 1" "no_end pre" "no_end ps" "e ! 0 \<noteq> ENTRY_END"
      "parse_slots t 0 pre long_new 0 = before" "parse_slots t 0 (pre @ ps @ [e]) long_new 0 = before @ [found]" "\<forall>e \<in> set ps. long_piece e" "\<not> long_piece e"
      "parse_slots t (lo_end found) post long_new 0 = after"
    using g' grp by (auto simp: no_end_def)
  show "0 < lo_end found" "lo_end found \<le> length es" using ge(1,2) by simp_all
  obtain l k where sc: "scan_slots (pre @ ps) 0 long_new 0 = (l, k)" by fastforce
  have ne: "no_end (pre @ ps)" using ge(3,4) by (auto simp: no_end_def)
  have P: "parse_slots t 0 (pre @ ps) long_new 0 = before" using parse_append [OF ge(3), of t 0 ps] parse_pieces [OF ge(8)] ge(6) by simp
  have one: "parse_slots t (length pre + length ps) [e] l k = [found]"
    using ge(7) parse_append [OF ne, of t 0 "[e]" long_new 0] P sc by simp
  obtain name0 l' where tk: "long_take (slice 0 11 e) l = (name0, l')" by fastforce
  have r: "reset_name l'" using long_take_reset [of "slice 0 11 e" l] tk by simp
  have nd: "e ! 0 \<noteq> ENTRY_DELETED" using one by (auto simp: parse_slots.simps(2) split: if_splits)
  have short: "e ! 11 AND 0x3F \<noteq> ATTR_LONG_NAME" using ge(5,9) nd by (simp add: long_piece_def)
  have vol: "\<not> (e ! 11 AND ATTR_VOLUME_ID \<noteq> 0)" using one ge(5) nd short by (auto simp: parse_slots.simps split: if_splits)
  define name where "name = (case name0 of Some n \<Rightarrow> n | None \<Rightarrow> short_name e)"
  have listed: "\<not> (name = ustr ''.'' \<or> name = ustr ''..'')"
      "found = \<lparr>lo_entry = located_entry t e name, lo_start = (if name0 \<noteq> None then k else length pre + length ps), lo_end = length pre + length ps + 1\<rparr>"
    using one ge(5) nd short vol tk unfolding parse_slots.simps Let_def name_def by (auto split: if_splits)
  have sl: "slice 0 11 e' = slice 0 11 e" "slice 0 8 e' = slice 0 8 e" "slice 8 11 e' = slice 8 11 e"
    using f(1,2) e32 by (auto intro!: nth_equalityI simp: slice_simps)
  have nm: "short_name e' = short_name e" unfolding short_name_def sl Let_def using f(2) by simp
  have nm': "(case name0 of Some n \<Rightarrow> n | None \<Rightarrow> short_name e') = name" by (cases name0) (simp_all add: name_def nm)
  have kind: "e ! 11 AND ATTR_DIRECTORY = 0"
    using isfile listed(2) by (auto simp: located_entry_def Let_def split: if_splits)
  have "located_entry t e' name = (located_entry t e name)\<lparr>de_size := len, de_cluster := first, de_modified := \<lparr>sm_date = fst stamp, sm_time = snd stamp\<rparr>\<rparr>"
  proof -
    have l: "unat (of_nat len :: u32) = len" using small(1) by (simp add: unsigned_of_nat take_bit_nat_eq_self)
    have "first < 2 ^ 32" using small(2) by (auto split: if_splits)
    then have cl: "unat (of_nat first :: u32) = first" by (simp add: unsigned_of_nat take_bit_nat_eq_self)
    have "(if t = Fat32 then unat (fu16 e' 20) else 0) * 2 ^ 16 + unat (fu16 e' 26) = first"
    proof (cases "t = Fat32")
      case True
      then show ?thesis using high_low_u32 [of "of_nat first"] cl f(3,4) by simp
    next
      case False
      then have "first < 2 ^ 16" using small(2) by simp
      then show ?thesis using False cl f(4) by (simp add: unsigned_ucast_eq take_bit_nat_eq_self)
    qed
    then show ?thesis using kind l f(2) [of 11] f(5-7) by (simp add: located_entry_def Let_def)
  qed
  then have red: "parse_slots t (length pre + length ps) (e' # post) l k = redirected found stamp first len # parse_slots t (length pre + length ps + 1) post l' k"
    using ge(5) nd short vol tk listed f(2) sl(1) nm' by (simp add: parse_slots.simps(2) redirected_def Let_def)
  have upd: "es[lo_end found - 1 := redirect stamp first len (es ! (lo_end found - 1))] = pre @ ps @ e' # post"
    unfolding ge(1,2) by (simp add: list_update_append nth_append e'_def)
  show "parse_slots t 0 (es[lo_end found - 1 := redirect stamp first len (es ! (lo_end found - 1))]) long_new 0 = before @ redirected found stamp first len # after"
    using parse_append [OF ne, of t 0 "e' # post" long_new 0] P sc red ge(2,10) parse_reset [OF r reset_name_simps(2), of t "length pre + length ps + 1" post k 0]
    unfolding upd by simp
qed

end
