(* ===== verification/Fat_Entries.thy ===== *)
theory Fat_Entries
  imports Fat_Listing
begin

text \<open>
  The operations on a directory in memory, \<open>add_entry\<close>, the change of an entry and \<open>remove\<close>: each lists exactly that
  change, and keeps directories sound, with no pieces of long names left over.
\<close>

subsection \<open>Where entries are\<close>

lemma listed_place:
  assumes "l \<in> set (parse_slots t i es long_new 0)"
  shows "i \<le> lo_start l" "lo_start l < lo_end l" "lo_end l \<le> i + length es"
proof -
  obtain before after where "parse_slots t i es long_new 0 = before @ l # after" using assms by (metis split_list)
  then obtain pre grp post where g: "group_at t es before l after pre grp post i long_new 0"
    using parse_groups by (fastforce simp: pending_at_def long_new_def name_ok_def)
  then show "i \<le> lo_start l" "lo_start l < lo_end l" "lo_end l \<le> i + length es" by (auto simp: group_at_def)
qed

definition dir_sound :: "fat_type \<Rightarrow> byte list list \<Rightarrow> bool" where
  \<comment> \<open>and no pieces are left over before an entry or at the end\<close>
  "dir_sound t es \<longleftrightarrow> dir_ok es \<and> (es = [] \<or> \<not> long_piece (last es))
     \<and> (\<forall>l \<in> set (parse_slots t 0 es long_new 0). lo_start l = 0 \<or> \<not> long_piece (es ! (lo_start l - 1)))"

lemma not_long_deleted [simp]: "e ! 0 = ENTRY_DELETED \<Longrightarrow> \<not> long_piece e" "e ! 0 = ENTRY_END \<Longrightarrow> \<not> long_piece e"
  by (simp_all add: long_piece_def)

text \<open>Slots \<open>a\<close> to \<open>a + n\<close> are replaced by slots that start no long name's pieces before the next one.\<close>

lemma dir_ok_replaced:
  assumes ok: "dir_ok (pre @ old @ post)" and len: "length new = length old" "new \<noteq> []"
    and clean: "\<forall>i < length new. new ! i ! 0 \<in> {ENTRY_DELETED, ENTRY_END} \<longrightarrow> (if i = 0 then pre = [] \<or> \<not> long_piece (last pre) else \<not> long_piece (new ! (i - 1)))"
    and last: "\<not> long_piece (List.last new)" and noend: "no_end new" and pre: "no_end pre"
  shows "dir_ok (pre @ new @ post)"
proof -
  define a n where "a = length pre" and "n = length new"
  define es es' where "es = pre @ old @ post" and "es' = pre @ new @ post"
  have sz: "length es' = length es" using len by (simp add: es_def es'_def)
  have out: "es' ! j = es ! j" if "j < a \<or> a + n \<le> j" for j using that len by (auto simp: es_def es'_def nth_append a_def n_def)
  have inn: "es' ! j = new ! (j - a)" if "a \<le> j" "j < a + n" for j 
  proof -
    have "j - a < length new" using that by (simp add: n_def)
    then show ?thesis using that by (simp add: es'_def nth_append a_def)
  qed
  have n: "0 < n" using len(2) by (simp add: n_def)
  have ok': "dir_ok es" using ok by (simp add: es_def)
  have "\<not> long_piece (es' ! (j - 1))" if j: "j < length es'" "0 < j" "es' ! j ! 0 \<in> {ENTRY_DELETED, ENTRY_END}" for j
  proof -
    have old_case: "\<not> long_piece (es ! (j - 1))" if "j < a \<or> a + n \<le> j"
      using ok' j out [OF that] sz unfolding dir_ok_def by auto
    consider "j < a" | "j = a" | "a < j" "j < a + n" | "j = a + n" | "a + n < j" using n by linarith
    then show ?thesis
    proof cases
      case 2
      then have "es' ! (j - 1) = List.last pre" "pre \<noteq> []" using j(2) by (auto simp: es'_def nth_append a_def last_conv_nth)
      then show ?thesis using clean [rule_format, of 0] inn [of j] 2 n j(3) by (simp add: n_def)
    next
      case 3
      then show ?thesis using clean [rule_format, of "j - a"] inn [of j] inn [of "j - 1"] j(3) by (simp add: n_def)
    next
      case 4
      then have "a \<le> j - 1" "j - 1 < a + n" "j - 1 - a = length new - 1" using n by (linarith, linarith, simp add: n_def)
      then show ?thesis using last inn [of "j - 1"] len(2) by (simp add: last_conv_nth)
    next
      case 1
      then show ?thesis using old_case out [of "j - 1"] by (metis less_imp_diff_less)
    next
      case 5
      then have "a + n \<le> j - 1" by linarith
      then show ?thesis using old_case out [of "j - 1"] 5 by simp
    qed
  qed
  moreover have "es' ! j ! 0 = ENTRY_END" if jk: "j < length es'" "k < j" "es' ! k ! 0 = ENTRY_END" for j k
  proof -
    have "\<not> k < a" using jk pre out [of k] by (auto simp: no_end_def es_def nth_append a_def)
    moreover have "\<not> (a \<le> k \<and> k < a + n)" using noend inn [of k] jk(3) by (auto simp: no_end_def n_def)
    ultimately have k: "a + n \<le> k" by linarith
    then have "es ! k ! 0 = ENTRY_END" "es ! j ! 0 = es' ! j ! 0" using jk out by auto
    then show ?thesis using ok' jk sz unfolding dir_ok_def by metis
  qed
  ultimately show ?thesis unfolding dir_ok_def es'_def by blast
qed


lemma dir_sound_replaced:
  assumes sound: "dir_sound t (pre @ old @ post)" and len: "length new = length old" "new \<noteq> []"
    and ok: "dir_ok (pre @ new @ post)" and last: "\<not> long_piece (List.last new)"
    and lists: "set (parse_slots t 0 (pre @ old @ post) long_new 0) \<supseteq> set before \<union> set after"
      "parse_slots t 0 (pre @ new @ post) long_new 0 = before @ mid @ after"
      "before = parse_slots t 0 pre long_new 0" "after = parse_slots t (length (pre @ new)) post long_new 0"
    and mid: "\<forall>l \<in> set mid. lo_start l = length pre \<and> (pre = [] \<or> \<not> long_piece (List.last pre))"
  shows "dir_sound t (pre @ new @ post)"
proof -
  define es es' where "es = pre @ old @ post" and "es' = pre @ new @ post"
  have start: "lo_start l = 0 \<or> \<not> long_piece (es' ! (lo_start l - 1))" if l: "l \<in> set (before @ mid @ after)" for l
  proof -
    have was: "lo_start l = 0 \<or> \<not> long_piece (es ! (lo_start l - 1))" if "l \<in> set before \<union> set after"
      using sound that lists(1) unfolding dir_sound_def es_def by blast
    consider "l \<in> set before" | "l \<in> set mid" | "l \<in> set after" using l by auto
    then show ?thesis
    proof cases
      case 1
      then have "lo_start l - 1 < length pre" using listed_place [of l t 0 pre] lists(3) by simp
      then have "es' ! (lo_start l - 1) = es ! (lo_start l - 1)" by (simp add: es_def es'_def nth_append)
      then show ?thesis using was 1 by simp
    next
      case 2
      then show ?thesis using mid by (auto simp: es'_def nth_append last_conv_nth)
    next
      case 3
      then have ge: "length (pre @ new) \<le> lo_start l" using listed_place(1) [of l t "length (pre @ new)" post] lists(4) by simp
      show ?thesis
      proof (cases "lo_start l = length (pre @ new)")
        case True
        moreover have "0 < length new" using len(2) by simp
        ultimately have "\<not> lo_start l - 1 < length pre" "lo_start l - 1 - length pre = length new - 1" "length new - 1 < length new" by (simp_all, linarith+)
        then have "es' ! (lo_start l - 1) = List.last new" using len(2) by (simp add: es'_def nth_append last_conv_nth)
        then show ?thesis using last by simp
      next
        case False
        then have "length (pre @ new) \<le> lo_start l - 1" using ge by simp
        then have "\<not> lo_start l - 1 < length pre" "\<not> lo_start l - 1 - length pre < length new" by auto
        then have "es' ! (lo_start l - 1) = es ! (lo_start l - 1)" using len(1) unfolding es_def es'_def nth_append by simp
        then show ?thesis using was 3 by simp
      qed
    qed
  qed
  moreover have "\<not> long_piece (List.last es')" using last sound len by (cases "post = []") (auto simp: es'_def dir_sound_def)
  ultimately show ?thesis using ok lists(2) unfolding dir_sound_def es'_def by metis
qed

subsection \<open>Adding an entry\<close>

lemma add_sound:
  assumes sound: "dir_sound t es" and free: "free_at es at (length entries) m"
    and new: "\<And>i ln ls xs. reset_name ln \<Longrightarrow> parse_slots t i (entries @ xs) ln ls = located i # parse_slots t (i + length entries) xs long_new 0"
    and loc: "lo_start (located at) = at"
    and entries: "no_end entries" "entries \<noteq> []" "\<forall>e \<in> set entries. e ! 0 \<noteq> ENTRY_DELETED" "\<not> long_piece (last entries)"
  shows "dir_sound t (take at es @ entries @ drop (at + length entries) es)"
proof -
  define pre old post where "pre = take at es" and "old = take (length entries) (drop at es)" and "post = drop (at + length entries) es"
  have ok: "dir_ok es" using sound by (simp add: dir_sound_def)
  note fr = free [unfolded free_at_def]
  have es: "es = pre @ old @ post" unfolding pre_def old_def post_def by (metis append_take_drop_id drop_drop add.commute)
  have len: "length pre = at" "length old = length entries" using fr by (auto simp: pre_def old_def)
  have "0 < length entries" using entries(2) by simp
  then have at: "at < length es" "es ! at ! 0 \<in> {ENTRY_DELETED, ENTRY_END}" using fr by (linarith, cases "m = 0", auto)
  have pre: "pre = [] \<or> \<not> long_piece (last pre)"
  proof (cases "at = 0")
    case False
    then have "last pre = es ! (at - 1)" using at(1) unfolding pre_def by (subst last_conv_nth) (auto simp: min_def)
    then show ?thesis using ok at False unfolding dir_ok_def by auto
  qed (simp add: pre_def)
  have noend: "no_end pre" using fr at by (auto simp: no_end_def pre_def in_set_conv_nth)
  have ok': "dir_ok (pre @ entries @ post)"
    using entries by (intro dir_ok_replaced [OF ok [unfolded es]] noend) (auto simp: len no_end_def)
  have l: "parse_slots t 0 (pre @ old @ post) long_new 0 = parse_slots t 0 pre long_new 0 @ parse_slots t (length (pre @ entries)) post long_new 0"
      "parse_slots t 0 (pre @ entries @ post) long_new 0 = parse_slots t 0 pre long_new 0 @ [located at] @ parse_slots t (length (pre @ entries)) post long_new 0"
    using add_listed [OF ok free new entries(2)] len unfolding es [symmetric] by (simp_all add: pre_def post_def)
  have "dir_sound t (pre @ entries @ post)"
    using pre loc len(1) by (intro dir_sound_replaced [OF sound [unfolded es] len(2) [symmetric] entries(2) ok' entries(4) _ l(2) refl refl]) (simp_all add: l(1))
  then show ?thesis by (simp add: pre_def post_def)
qed

text \<open>Where \<open>add_entry\<close> puts its entries, the directory lists the new file or directory.\<close>

lemma put_listed:
  assumes name: "check_name name = (Ok () :: (unit, 'e fat_error) result)" "plain_name name"
    and made: "new_entries f img name attr cluster len = Some entries" "attr \<in> {ATTR_ARCHIVE, ATTR_DIRECTORY}"
    and small: "len < 2 ^ 32" "cluster < (if t = Fat32 then 2 ^ 32 else 2 ^ 16)"
    and sound: "dir_sound t (dir_slots (di_bytes img'))" and free: "free_at (dir_slots (di_bytes img')) at (length entries) m"
  shows "\<exists>before after. parse_located (di_bytes img') t = before @ after \<and> parse_located (di_bytes (put_entries at entries img')) t
      = before @ \<lparr>lo_entry = entry_made f t name attr cluster len, lo_start = at, lo_end = at + length entries\<rparr> # after"
    "dir_sound t (dir_slots (di_bytes (put_entries at entries img')))"
    "length (di_bytes (put_entries at entries img')) = length (di_bytes img')" "di_sectors (put_entries at entries img') = di_sectors img'"
proof -
  note new = new_entries_listed [OF name made small]
  have e: "no_end entries" "entries \<noteq> []" "\<forall>e \<in> set entries. length e = 32 \<and> e ! 0 \<noteq> ENTRY_DELETED" "\<not> long_piece (last entries)"
    using new(2-5) [OF reset_name_simps(2)] by blast+
  have fit: "at + length entries \<le> length (di_bytes img') div DIR_ENTRY_SIZE" using free by (simp add: free_at_def)
  have "\<forall>e \<in> set entries. length e = DIR_ENTRY_SIZE" using e(3) by (simp add: DIR_ENTRY_SIZE_def)
  note put = put_slots [OF fit this]
  then show "length (di_bytes (put_entries at entries img')) = length (di_bytes img')" "di_sectors (put_entries at entries img') = di_sectors img'" by simp_all
  have ok: "dir_ok (dir_slots (di_bytes img'))" using sound by (simp add: dir_sound_def)
  note l = add_listed [OF ok free new(1) e(2)]
  show "\<exists>before after. parse_located (di_bytes img') t = before @ after \<and> parse_located (di_bytes (put_entries at entries img')) t
      = before @ \<lparr>lo_entry = entry_made f t name attr cluster len, lo_start = at, lo_end = at + length entries\<rparr> # after"
    using l put by (auto simp: parse_located_def)
  show "dir_sound t (dir_slots (di_bytes (put_entries at entries img')))"
    using add_sound [OF sound free new(1) _ e(1,2) _ e(4)] e(3) put by simp
qed


subsection \<open>Deleting an entry\<close>

lemma get_slot_nth: "i < length (di_bytes img) div DIR_ENTRY_SIZE \<Longrightarrow> get_slot i img = dir_slots (di_bytes img) ! i"
  by (simp add: get_slot_def dir_slots_def)

lemma delete_slots_slots:
  assumes "a + n \<le> length (di_bytes img) div DIR_ENTRY_SIZE"
  shows "dir_slots (di_bytes (delete_slots a (a + n) img))
      = take a (dir_slots (di_bytes img)) @ map (\<lambda>e. e[0 := ENTRY_DELETED]) (take n (drop a (dir_slots (di_bytes img)))) @ drop (a + n) (dir_slots (di_bytes img))
    \<and> length (di_bytes (delete_slots a (a + n) img)) = length (di_bytes img) \<and> di_sectors (delete_slots a (a + n) img) = di_sectors img"
  using assms
proof (induction n)
  case 0
  then show ?case by (simp add: delete_slots_def)
next
  case (Suc n)
  let ?s = "dir_slots (di_bytes img)" and ?i = "delete_slots a (a + n) img" and ?d = "\<lambda>e. e[0 := ENTRY_DELETED]"
  have IH: "dir_slots (di_bytes ?i) = take a ?s @ map ?d (take n (drop a ?s)) @ drop (a + n) ?s" "length (di_bytes ?i) = length (di_bytes img)" "di_sectors ?i = di_sectors img"
    using Suc by simp_all
  have lt: "a + n < length (di_bytes img) div DIR_ENTRY_SIZE" using Suc.prems by simp
  have step: "delete_slots a (a + Suc n) img = set_slot (a + n) (?d (get_slot (a + n) ?i)) ?i" by (simp add: delete_slots_def)
  have get: "get_slot (a + n) ?i = ?s ! (a + n)" using get_slot_nth [of "a + n" ?i] IH lt by (simp add: nth_append)
  have "length (?d (?s ! (a + n))) = DIR_ENTRY_SIZE" using dir_slot_length [of "?s ! (a + n)" "di_bytes img"] lt by simp
  note set = dir_slots_set [of "a + n" "di_bytes ?i", OF _ this]
  have dr: "drop (a + n) ?s = ?s ! (a + n) # drop (a + Suc n) ?s" using lt by (simp add: Cons_nth_drop_Suc)
  have "take (Suc n) (drop a ?s) = take n (drop a ?s) @ [?s ! (a + n)]" using lt by (simp add: take_Suc_conv_app_nth)
  then show ?case using set IH lt dr unfolding step get set_slot_def by (simp add: list_update_append)
qed

lemma deleted_listed:
  assumes listed: "parse_located (di_bytes img) t = before @ found # after" and sound: "dir_sound t (dir_slots (di_bytes img))"
  shows "parse_located (di_bytes (delete_slots (lo_start found) (lo_end found) img)) t = before @ after"
    "dir_sound t (dir_slots (di_bytes (delete_slots (lo_start found) (lo_end found) img)))"
    "length (di_bytes (delete_slots (lo_start found) (lo_end found) img)) = length (di_bytes img)"
    "di_sectors (delete_slots (lo_start found) (lo_end found) img) = di_sectors img"
    "lo_start found < lo_end found" "lo_end found \<le> image_slots img"
proof -
  let ?es = "dir_slots (di_bytes img)" and ?d = "\<lambda>e. e[0 := ENTRY_DELETED]"
  have run: "parse_slots t 0 ?es long_new 0 = before @ found # after" using listed by (simp add: parse_located_def)
  have ne: "\<forall>e \<in> set ?es. e \<noteq> []" using dir_slot_length by (fastforce simp: DIR_ENTRY_SIZE_def)
  obtain pre grp post where g: "?es = pre @ grp @ post" "length pre = lo_start found" "length (pre @ grp) = lo_end found" "grp \<noteq> []" "no_end (pre @ grp)"
      "parse_slots t 0 pre long_new 0 = before" "parse_slots t (lo_end found) post long_new 0 = after"
      "parse_slots t 0 (pre @ map ?d grp @ post) long_new 0 = before @ after"
    using delete_listed [OF run ne] by blast
  define n where "n = length grp"
  have ends: "lo_end found = lo_start found + n" "0 < n" using g(2-4) by (simp_all add: n_def)
  have "length ?es = length pre + n + length post" by (simp only: g(1) length_append n_def)
  then show le: "lo_end found \<le> image_slots img" using g(2) ends by (simp add: image_slots_def)
  show "lo_start found < lo_end found" using ends by simp
  have slots: "dir_slots (di_bytes (delete_slots (lo_start found) (lo_end found) img)) = pre @ map ?d grp @ post"
    "length (di_bytes (delete_slots (lo_start found) (lo_end found) img)) = length (di_bytes img)"
    "di_sectors (delete_slots (lo_start found) (lo_end found) img) = di_sectors img"
    using delete_slots_slots [of "lo_start found" n img] le g(1,2) unfolding ends by (simp_all add: image_slots_def n_def)
  then show "length (di_bytes (delete_slots (lo_start found) (lo_end found) img)) = length (di_bytes img)"
    "di_sectors (delete_slots (lo_start found) (lo_end found) img) = di_sectors img" by simp_all
  show "parse_located (di_bytes (delete_slots (lo_start found) (lo_end found) img)) t = before @ after"
    using g(8) slots(1) by (simp add: parse_located_def)
  have del: "?d e ! 0 = ENTRY_DELETED" if "e \<in> set grp" for e using ne that by (simp add: g(1))
  have first: "pre = [] \<or> \<not> long_piece (last pre)"
  proof (cases "pre = []")
    case False
    then have "0 < length pre" by simp
    then have "?es ! (lo_start found - 1) = last pre" "lo_start found \<noteq> 0" using False g(2) unfolding g(1) by (simp_all add: nth_append last_conv_nth)
    moreover have "found \<in> set (parse_slots t 0 ?es long_new 0)" by (simp add: run)
    ultimately show ?thesis using sound unfolding dir_sound_def by metis
  qed simp
  have sound': "dir_sound t (pre @ grp @ post)" "dir_ok (pre @ grp @ post)" using sound unfolding g(1) by (simp_all add: dir_sound_def)
  have last: "\<not> long_piece (last (map ?d grp))" using del g(4) by (simp add: last_map)
  have ok: "dir_ok (pre @ map ?d grp @ post)"
    using del first last g(4,5) by (intro dir_ok_replaced [OF sound'(2)]) (auto simp: no_end_def nth_append ENTRY_DELETED_def ENTRY_END_def)
  have run': "parse_slots t 0 (pre @ map ?d grp @ post) long_new 0 = before @ [] @ after" using g(8) by simp
  have "dir_sound t (pre @ map ?d grp @ post)"
    using g(3,4) run unfolding g(1) by (intro dir_sound_replaced [OF sound'(1) _ _ ok last _ run' g(6) [symmetric]]) (auto simp: g(7))
  then show "dir_sound t (dir_slots (di_bytes (delete_slots (lo_start found) (lo_end found) img)))" using slots(1) by simp
qed


subsection \<open>Changing an entry\<close>

lemma dir_sound_cong:
  assumes "dir_sound t es" "length es' = length es" "\<forall>j < length es. es' ! j ! 0 = es ! j ! 0 \<and> long_piece (es' ! j) = long_piece (es ! j)"
    "set (map lo_start (parse_slots t 0 es' long_new 0)) = set (map lo_start (parse_slots t 0 es long_new 0))"
  shows "dir_sound t es'"
proof -
  have prev: "long_piece (es' ! (j - 1)) = long_piece (es ! (j - 1))" if "j < length es" for j
    using assms(3) that by (metis less_imp_diff_less)
  have "dir_ok es'" using assms(1,2,3) prev unfolding dir_sound_def dir_ok_def by auto
  moreover have "es' = [] \<or> \<not> long_piece (last es')"
  proof (cases "es = []")
    case False
    then have "length es - 1 < length es" "es' \<noteq> []" using assms(2) by auto
    then show ?thesis using assms(1-3) False by (auto simp: dir_sound_def last_conv_nth)
  qed (use assms(2) in simp)
  moreover have "lo_start l = 0 \<or> \<not> long_piece (es' ! (lo_start l - 1))" if "l \<in> set (parse_slots t 0 es' long_new 0)" for l
  proof -
    have "lo_start l \<in> set (map lo_start (parse_slots t 0 es long_new 0))" using that assms(4) by (metis image_eqI list.set_map)
    then obtain l' where l': "l' \<in> set (parse_slots t 0 es long_new 0)" "lo_start l' = lo_start l" by auto
    have "lo_start l < length es" using listed_place [OF l'(1)] l'(2) by simp
    then show ?thesis using assms(1) l' prev unfolding dir_sound_def by metis
  qed
  ultimately show ?thesis by (simp add: dir_sound_def)
qed

lemma replaced_listed:
  assumes listed: "parse_located (di_bytes img) t = before @ found # after" and sound: "dir_sound t (dir_slots (di_bytes img))"
    and isfile: "de_kind (lo_entry found) = File" and small: "len < 2 ^ 32" "first < (if t = Fat32 then 2 ^ 32 else 2 ^ 16)"
    and img': "img' = set_slot (lo_end found - 1) (redirect stamp first len (get_slot (lo_end found - 1) img)) img"
  shows "parse_located (di_bytes img') t = before @ redirected found stamp first len # after"
    "dir_sound t (dir_slots (di_bytes img'))" "length (di_bytes img') = length (di_bytes img)" "di_sectors img' = di_sectors img"
    "0 < lo_end found" "lo_end found \<le> image_slots img"
proof -
  let ?es = "dir_slots (di_bytes img)" and ?i = "lo_end found - 1"
  have run: "parse_slots t 0 ?es long_new 0 = before @ found # after" using listed by (simp add: parse_located_def)
  have len32: "\<forall>e \<in> set ?es. length e = 32" using dir_slot_length by (fastforce simp: DIR_ENTRY_SIZE_def)
  note r = replace_listed [OF run len32 isfile small]
  show pos: "0 < lo_end found" using r(2) by simp
  show le: "lo_end found \<le> image_slots img" using r(3) by (simp add: image_slots_def)
  then have lt: "?i < length ?es" "?i < length (di_bytes img) div DIR_ENTRY_SIZE" using pos by (auto simp: image_slots_def)
  define e where "e = ?es ! ?i"
  have e32: "length e = 32" using len32 lt(1) by (simp add: e_def)
  note rf = redirect_fields [OF e32, of "redirect stamp first len e" stamp first len, OF refl]
  have get: "get_slot ?i img = e" using get_slot_nth [OF lt(2)] by (simp add: e_def)
  have "length (redirect stamp first len e) = DIR_ENTRY_SIZE" using rf(1) by (simp add: DIR_ENTRY_SIZE_def)
  note set = dir_slots_set [OF lt(2) this]
  have slots: "dir_slots (di_bytes img') = ?es[?i := redirect stamp first len e]" unfolding img' set_slot_def get using set by simp
  show "length (di_bytes img') = length (di_bytes img)" "di_sectors img' = di_sectors img" unfolding img' set_slot_def get using set by simp_all
  show list': "parse_located (di_bytes img') t = before @ redirected found stamp first len # after"
    using r(1) [of stamp] slots by (simp add: parse_located_def e_def)
  have same: "redirect stamp first len e ! 0 = e ! 0" "redirect stamp first len e ! 11 = e ! 11" using rf(2) by simp_all
  then have lp: "long_piece (redirect stamp first len e) = long_piece e" by (simp add: long_piece_def)
  have starts: "set (map lo_start (parse_slots t 0 (dir_slots (di_bytes img')) long_new 0)) = set (map lo_start (parse_slots t 0 ?es long_new 0))"
    using list' run by (simp add: parse_located_def redirected_def)
  show "dir_sound t (dir_slots (di_bytes img'))"
  proof (rule dir_sound_cong [OF sound _ _ starts])
    show "\<forall>j < length ?es. dir_slots (di_bytes img') ! j ! 0 = ?es ! j ! 0 \<and> long_piece (dir_slots (di_bytes img') ! j) = long_piece (?es ! j)"
      unfolding slots
    proof (intro allI impI)
      fix j assume "j < length ?es"
      then show "?es[?i := redirect stamp first len e] ! j ! 0 = ?es ! j ! 0 \<and> long_piece (?es[?i := redirect stamp first len e] ! j) = long_piece (?es ! j)"
        using same(1) lp by (cases "j = ?i") (simp_all add: e_def)
    qed
  qed (simp add: slots)
qed

subsection \<open>Growing a directory\<close>

lemma parse_end_append: "\<forall>e \<in> set zs. e ! 0 = ENTRY_END \<Longrightarrow> parse_slots t i (es @ zs) ln ls = parse_slots t i es ln ls"
proof (induction es arbitrary: i ln ls)
  case Nil
  then show ?case using parse_all_end by simp
qed (simp add: parse_slots.simps(2) Let_def split: prod.split)

lemma grown_sound:
  assumes sound: "dir_sound t es" and zs: "\<forall>e \<in> set zs. e ! 0 = ENTRY_END"
  shows "dir_sound t (es @ zs)" "parse_slots t 0 (es @ zs) long_new 0 = parse_slots t 0 es long_new 0"
proof -
  show list: "parse_slots t 0 (es @ zs) long_new 0 = parse_slots t 0 es long_new 0" using parse_end_append [OF zs] .
  have z: "zs ! j ! 0 = ENTRY_END" if "j < length zs" for j using zs that by simp
  have ok: "dir_ok es" and last: "es = [] \<or> \<not> long_piece (last es)" using sound by (simp_all add: dir_sound_def)
  have "\<not> long_piece ((es @ zs) ! (j - 1))" if j: "j < length (es @ zs)" "0 < j" "(es @ zs) ! j ! 0 \<in> {ENTRY_DELETED, ENTRY_END}" for j
  proof -
    consider "j < length es" | "j = length es" | "length es < j" by linarith
    then show ?thesis
    proof cases
      case 1
      then have "(es @ zs) ! (j - 1) = es ! (j - 1)" "(es @ zs) ! j = es ! j" by (simp_all add: nth_append less_imp_diff_less)
      then show ?thesis using ok j 1 unfolding dir_ok_def by auto
    next
      case 2
      then have "(es @ zs) ! (j - 1) = last es" "es \<noteq> []" using j(2) by (auto simp: nth_append last_conv_nth)
      then show ?thesis using last by simp
    next
      case 3
      then have "(es @ zs) ! (j - 1) = zs ! (j - 1 - length es)" "j - 1 - length es < length zs" using j(1) by (auto simp: nth_append)
      then show ?thesis using z by simp
    qed
  qed
  moreover have "(es @ zs) ! j ! 0 = ENTRY_END" if "j < length (es @ zs)" "k < j" "(es @ zs) ! k ! 0 = ENTRY_END" for j k
  proof (cases "j < length es")
    case True
    then show ?thesis using that ok unfolding dir_ok_def by (metis nth_append order_less_trans)
  next
    case False
    then show ?thesis using that z by (simp add: nth_append)
  qed
  ultimately have ok': "dir_ok (es @ zs)" unfolding dir_ok_def by blast
  have "es @ zs = [] \<or> \<not> long_piece (List.last (es @ zs))"
    using last zs by (cases "zs = []") auto
  moreover have "lo_start l = 0 \<or> \<not> long_piece ((es @ zs) ! (lo_start l - 1))" if "l \<in> set (parse_slots t 0 es long_new 0)" for l
  proof -
    have "lo_start l - 1 < length es" using listed_place [OF that] by simp
    then show ?thesis using sound that unfolding dir_sound_def by (simp add: nth_append)
  qed
  ultimately show "dir_sound t (es @ zs)" using ok' unfolding dir_sound_def list by blast
qed

lemma grown_free:
  assumes sound: "dir_sound t es" and zs: "\<forall>e \<in> set zs. e ! 0 = ENTRY_END" and n: "0 < n"
    and stop: "stop = (case position (\<lambda>e. e ! 0 = ENTRY_END) es of Some k \<Rightarrow> k | None \<Rightarrow> length es)" and fits: "n \<le> length es - stop + length zs"
  shows "free_at (es @ zs) stop n 0"
proof -
  have p: "stop \<le> length es" "\<forall>j < stop. es ! j ! 0 \<noteq> ENTRY_END" "stop < length es \<longrightarrow> es ! stop ! 0 = ENTRY_END"
    using stop position_Some [of "\<lambda>e. e ! 0 = ENTRY_END" es] position_None [of "\<lambda>e. e ! 0 = ENTRY_END" es] by (auto split: option.splits)
  have "zs ! 0 ! 0 = ENTRY_END" if "stop = length es" using zs n fits that by (cases zs) simp_all
  then have "(es @ zs) ! stop ! 0 = ENTRY_END" using p by (cases "stop = length es") (simp_all add: nth_append)
  then show ?thesis using p fits by (auto simp: free_at_def nth_append)
qed

end
