(* ===== verification/Fat_Files.thy ===== *)
theory Fat_Files
  imports Fat_Store Fat_Entries
begin

text \<open>
  Directories on the disk: \<open>load_dir\<close> reads them, \<open>store_dir\<close> writes the sectors of the slots that changed, and
  \<open>grow_dir\<close> appends clusters, so that what was said of directories in memory holds of the volume.
\<close>

subsection \<open>Where a directory is\<close>

definition chain_sectors :: "'d fat \<Rightarrow> nat list \<Rightarrow> nat list" where
  "chain_sectors f cs = concat (map (cluster_sectors f) cs)"

definition dir_first :: "'d fat \<Rightarrow> dir \<Rightarrow> nat option" where
  "dir_first f dir = (case dir of DirChain c \<Rightarrow> Some c | DirRoot \<Rightarrow> (case fa_root f of RootFixed _ _ \<Rightarrow> None | RootChain c \<Rightarrow> Some c))"

definition dir_place :: "('d \<Rightarrow> lba \<Rightarrow> block) \<Rightarrow> 'd fat \<Rightarrow> dir \<Rightarrow> nat list \<Rightarrow> nat list \<Rightarrow> bool" where
  \<comment> \<open>the directory is in the sectors \<open>ss\<close>, those of the sound chain \<open>ds\<close>, or of the fixed root between the tables and the data\<close>
  "dir_place content f dir ss ds \<longleftrightarrow>
     (case dir_first f dir of
        Some first \<Rightarrow> sound_chain content f first ds \<and> ss = chain_sectors f ds
      | None \<Rightarrow> ds = [] \<and> (\<exists>start n. fa_root f = RootFixed start n \<and> ss = [start..<start + n]
          \<and> fa_fat_start f + fa_fat_count f * fa_fat_size f \<le> start \<and> start + n \<le> fa_data_start f))"

definition place_bytes :: "('d \<Rightarrow> lba \<Rightarrow> block) \<Rightarrow> 'd fat \<Rightarrow> nat list \<Rightarrow> byte list" where
  "place_bytes content f ss = concat (map (\<lambda>s. content (fa_device f) (fa_start f + s)) ss)"

definition blocks_at :: "'d fat \<Rightarrow> nat list \<Rightarrow> lba set" where
  "blocks_at f ss = (\<lambda>s. fa_start f + s) ` set ss"

lemma same_shape_dir:
  assumes "same_shape f f'"
  shows "dir_first f' = dir_first f" "chain_sectors f' = chain_sectors f" "blocks_at f' = blocks_at f"
proof -
  note same = same_shape_fields [OF assms] same_shape_views [OF assms]
  show "dir_first f' = dir_first f" unfolding dir_first_def [abs_def] by (simp only: same)
  have "cluster_sectors f' = cluster_sectors f" unfolding cluster_sectors_def [abs_def] by (simp only: same)
  then show "chain_sectors f' = chain_sectors f" unfolding chain_sectors_def [abs_def] by simp
  show "blocks_at f' = blocks_at f" unfolding blocks_at_def [abs_def] by (simp only: same)
qed

lemma chain_sectors_append [simp]: "chain_sectors f (cs @ ds) = chain_sectors f cs @ chain_sectors f ds"
  by (simp add: chain_sectors_def)

lemma cluster_okD: "cluster_ok f c \<Longrightarrow> 2 \<le> c" "cluster_ok f c \<Longrightarrow> c < fa_cluster_count f + 2"
  by (auto simp: cluster_ok_def)

lemma cut_None [simp]: "cut None cb got cs = cs"
  by (induction cs arbitrary: got) (simp_all add: covered_def)

lemma sound_walk:
  "sound_chain content f first cs \<Longrightarrow> chain_walk content f None (fa_cluster_count f) (Some first) 0 = (Ok cs :: (nat list, 'x fat_error) result)"
  unfolding sound_chain_def using chain_walk_cut [of content f "fa_cluster_count f" "Some first" 0 cs None 0] by simp

lemma sound_chain_clusters: "sound_chain content f first cs \<Longrightarrow> c \<in> set cs \<Longrightarrow> cluster_ok f c"
  unfolding sound_chain_def using chain_walk_used by fastforce

lemma sound_chain_hd:
  assumes "sound_chain content f first cs"
  shows "cs \<noteq> []" "hd cs = first"
  using assms unfolding sound_chain_def by (auto elim!: chain_walk_SomeE)

lemma blocks_at_chain:
  "blocks_at f (chain_sectors f cs) = sectors_in f (set cs)"
proof -
  have "set (cluster_sectors f c) = {first_sector f c + k |k. k < fa_spc f}" for c
    unfolding cluster_sectors_def by (auto simp: le_iff_add)
  then show ?thesis unfolding blocks_at_def chain_sectors_def sectors_in_def sector_of_def by (auto simp: image_iff)
qed

lemma place_bytes_chain: "place_bytes content f (chain_sectors f cs) = concat (map (cluster_data content f) cs)"
proof -
  have "concat (map (\<lambda>s. content (fa_device f) (fa_start f + s)) (cluster_sectors f c)) = cluster_data content f c" for c
    unfolding cluster_sectors_def cluster_data_def map_add_const_upt [symmetric] by (simp add: comp_def)
  then show ?thesis by (induction cs) (simp_all add: place_bytes_def chain_sectors_def)
qed

lemma distinct_chain_sectors:
  assumes "distinct cs" "\<forall>c \<in> set cs. 2 \<le> c"
  shows "distinct (chain_sectors f cs)"
  using assms
proof (induction cs)
  case (Cons c cs)
  have "set (cluster_sectors f c) \<inter> set (chain_sectors f cs) = {}"
  proof (rule ccontr)
    assume "\<not> ?thesis"
    then obtain s c' where s: "s \<in> set (cluster_sectors f c)" "s \<in> set (cluster_sectors f c')" "c' \<in> set cs" by (auto simp: chain_sectors_def)
    define k k' where "k = s - first_sector f c" and "k' = s - first_sector f c'"
    have "k < fa_spc f" "k' < fa_spc f" "first_sector f c + k = first_sector f c' + k'" using s by (auto simp: cluster_sectors_def k_def k'_def)
    then have "c = c'" using cluster_sector_unique [of c c' k f k'] Cons.prems s(3) by auto
    then show False using Cons.prems s(3) by simp
  qed
  then show ?case using Cons by (simp add: chain_sectors_def cluster_sectors_def)
qed (simp add: chain_sectors_def)

text \<open>A chain that ends passes no cluster twice.\<close>

lemma chain_walk_suffix:
  assumes "chain_walk content f None fuel (Some x) got = (Ok (xs @ y # ys) :: (nat list, unit fat_error) result)"
  shows "\<exists>fuel' got'. chain_walk content f None fuel' (Some y) got' = (Ok (y # ys) :: (nat list, unit fat_error) result)"
  using assms
proof (induction xs arbitrary: fuel x got)
  case Nil
  then have "x = y" by (auto elim: chain_walk_SomeE)
  then show ?case using Nil by auto
next
  case (Cons z xs)
  obtain fuel' nxt where s: "fuel = Suc fuel'" "chain_walk content f None fuel' nxt (got + cluster_size f) = (Ok (xs @ y # ys) :: (nat list, unit fat_error) result)"
    using Cons.prems by (auto elim: chain_walk_SomeE)
  then obtain x' where "nxt = Some x'" by (cases nxt) auto
  then show ?case using Cons.IH [of fuel' x'] s by blast
qed

lemma chain_walk_length:
  assumes "chain_walk content f None fuel (Some x) got = (Ok cs :: (nat list, unit fat_error) result)"
    "chain_walk content f None fuel' (Some x) got' = (Ok cs' :: (nat list, unit fat_error) result)"
  shows "cs = cs'"
  using assms
proof (induction fuel arbitrary: fuel' x got got' cs cs')
  case 0
  then show ?case by (auto elim: chain_walk_SomeE)
next
  case (Suc fuel)
  obtain nxt c1 where s1: "fat_step content f x = (Ok nxt :: (nat option, unit fat_error) result)"
      "chain_walk content f None fuel nxt (got + cluster_size f) = (Ok c1 :: (nat list, unit fat_error) result)" "cs = x # c1"
    using Suc.prems(1) by (auto elim: chain_walk_SomeE)
  obtain fuel2 c2 where s2: "chain_walk content f None fuel2 nxt (got' + cluster_size f) = (Ok c2 :: (nat list, unit fat_error) result)" "cs' = x # c2"
    using Suc.prems(2) s1(1) by (auto elim: chain_walk_SomeE)
  show ?case
  proof (cases nxt)
    case None
    then show ?thesis using s1 s2 by simp
  next
    case (Some y)
    then show ?thesis using Suc.IH s1 s2 by auto
  qed
qed

lemma sound_chain_distinct:
  assumes "sound_chain content f first cs"
  shows "distinct cs"
proof (rule ccontr)
  assume "\<not> distinct cs"
  then obtain y xs ys zs where cs: "cs = xs @ [y] @ ys @ [y] @ zs" using not_distinct_decomp by blast
  have a: "chain_walk content f None (fa_cluster_count f) (Some first) 0 = (Ok (xs @ y # (ys @ y # zs)) :: (nat list, unit fat_error) result)"
    "chain_walk content f None (fa_cluster_count f) (Some first) 0 = (Ok ((xs @ y # ys) @ y # zs) :: (nat list, unit fat_error) result)"
    using assms cs by (simp_all add: sound_chain_def)
  obtain f1 g1 f2 g2 where "chain_walk content f None f1 (Some y) g1 = (Ok (y # (ys @ y # zs)) :: (nat list, unit fat_error) result)"
    "chain_walk content f None f2 (Some y) g2 = (Ok (y # zs) :: (nat list, unit fat_error) result)"
    using chain_walk_suffix [OF a(1)] chain_walk_suffix [OF a(2)] by blast
  then have "y # (ys @ y # zs) = y # zs" by (rule chain_walk_length)
  then show False by simp
qed

lemma sound_chain_unique: "sound_chain content f first cs \<Longrightarrow> sound_chain content f first cs' \<Longrightarrow> cs = cs'"
  unfolding sound_chain_def by simp


lemma dir_place_sectors:
  assumes "dir_place content f dir ss ds" "vol_ok f"
  shows "distinct ss" "\<forall>l \<in> blocks_at f ss. \<not> in_fats f l"
    "ds = [] \<or> blocks_at f ss = sectors_in f (set ds)"
    "c \<notin> set ds \<Longrightarrow> cluster_ok f c \<Longrightarrow> k < fa_spc f \<Longrightarrow> fa_start f + (first_sector f c + k) \<notin> blocks_at f ss"
proof -
  have "distinct ss \<and> (\<forall>l \<in> blocks_at f ss. \<not> in_fats f l) \<and> (ds = [] \<or> blocks_at f ss = sectors_in f (set ds))
      \<and> (c \<notin> set ds \<longrightarrow> cluster_ok f c \<longrightarrow> k < fa_spc f \<longrightarrow> fa_start f + (first_sector f c + k) \<notin> blocks_at f ss)"
  proof (cases "dir_first f dir")
    case None
    then obtain start n where s: "ds = []" "ss = [start..<start + n]" "fa_fat_start f + fa_fat_count f * fa_fat_size f \<le> start" "start + n \<le> fa_data_start f"
      using assms(1) by (auto simp: dir_place_def)
    then show ?thesis by (auto simp: blocks_at_def in_fats_def first_sector_def)
  next
    case (Some first)
    then have s: "sound_chain content f first ds" "ss = chain_sectors f ds" using assms(1) by (simp_all add: dir_place_def)
    have ok: "\<forall>c \<in> set ds. 2 \<le> c" using sound_chain_clusters [OF s(1)] by (fastforce simp: cluster_ok_def)
    have at: "blocks_at f ss = sectors_in f (set ds)" by (simp add: s(2) blocks_at_chain)
    have "fa_start f + (first_sector f c + k) \<notin> sectors_in f (set ds)" if "c \<notin> set ds" "cluster_ok f c" "k < fa_spc f"
    proof
      assume "fa_start f + (first_sector f c + k) \<in> sectors_in f (set ds)"
      then obtain c' k' where "c' \<in> set ds" "k' < fa_spc f" "first_sector f c + k = first_sector f c' + k'" by (auto simp: sectors_in_def sector_of_def)
      then show False using cluster_sector_unique [of c c' k f k'] ok that by (auto simp: cluster_ok_def)
    qed
    then show ?thesis using distinct_chain_sectors [OF sound_chain_distinct [OF s(1)] ok] first_sector_above [OF assms(2)] at
      by (auto simp: s(2) sectors_in_def)
  qed
  then show "distinct ss" "\<forall>l \<in> blocks_at f ss. \<not> in_fats f l" "ds = [] \<or> blocks_at f ss = sectors_in f (set ds)"
    "c \<notin> set ds \<Longrightarrow> cluster_ok f c \<Longrightarrow> k < fa_spc f \<Longrightarrow> fa_start f + (first_sector f c + k) \<notin> blocks_at f ss" by blast+
qed

subsection \<open>Bytes, slots and sectors\<close>

lemma byte_of_slot:
  assumes "k < length bytes" "DIR_ENTRY_SIZE dvd length bytes"
  shows "bytes ! k = dir_slots bytes ! (k div DIR_ENTRY_SIZE) ! (k mod DIR_ENTRY_SIZE)" "k div DIR_ENTRY_SIZE < length (dir_slots bytes)"
proof -
  have pos: "0 < DIR_ENTRY_SIZE" by (simp add: DIR_ENTRY_SIZE_def)
  obtain n where n: "length bytes = n * DIR_ENTRY_SIZE" using assms(2) by (metis dvd_def mult.commute)
  then have i: "k div DIR_ENTRY_SIZE < n" using assms(1) by (simp add: less_mult_imp_div_less)
  then show "k div DIR_ENTRY_SIZE < length (dir_slots bytes)" using n pos by simp
  define i where "i = k div DIR_ENTRY_SIZE"
  have "dir_slots bytes ! i = slice (i * DIR_ENTRY_SIZE) ((i + 1) * DIR_ENTRY_SIZE) bytes" using i n pos by (simp add: dir_slots_def i_def)
  moreover have "(i + 1) * DIR_ENTRY_SIZE \<le> length bytes" unfolding n i_def using i by (intro mult_le_mono1) simp
  moreover have "k mod DIR_ENTRY_SIZE < DIR_ENTRY_SIZE" using pos by simp
  moreover have "i * DIR_ENTRY_SIZE + k mod DIR_ENTRY_SIZE = k" by (simp add: i_def)
  ultimately show "bytes ! k = dir_slots bytes ! (k div DIR_ENTRY_SIZE) ! (k mod DIR_ENTRY_SIZE)"
    unfolding i_def [symmetric] by (simp add: slice_simps)
qed

text \<open>Slots \<open>a\<close> to \<open>b\<close> are in the sectors \<open>a / 16\<close> to \<open>b / 16\<close>, rounded up; the other sectors are as they were.\<close>

lemma sector_unchanged:
  assumes len: "length new = n * BLOCK_SIZE" "length old = n * BLOCK_SIZE" and i: "i < n"
    and same: "\<forall>j < length (dir_slots old). \<not> (a \<le> j \<and> j < b) \<longrightarrow> dir_slots new ! j = dir_slots old ! j"
    and out: "\<not> (a div (BLOCK_SIZE div DIR_ENTRY_SIZE) \<le> i \<and> i < (b + BLOCK_SIZE div DIR_ENTRY_SIZE - 1) div (BLOCK_SIZE div DIR_ENTRY_SIZE))"
  shows "slice (i * BLOCK_SIZE) ((i + 1) * BLOCK_SIZE) new = slice (i * BLOCK_SIZE) ((i + 1) * BLOCK_SIZE) old"
proof (rule nth_equalityI)
  have fit: "(i + 1) * BLOCK_SIZE \<le> n * BLOCK_SIZE" using i by (intro mult_le_mono1) simp
  show "length (slice (i * BLOCK_SIZE) ((i + 1) * BLOCK_SIZE) new) = length (slice (i * BLOCK_SIZE) ((i + 1) * BLOCK_SIZE) old)"
    using len by (simp add: slice_simps)
  fix k assume "k < length (slice (i * BLOCK_SIZE) ((i + 1) * BLOCK_SIZE) new)"
  then have k: "k < BLOCK_SIZE" using len fit by (simp add: slice_simps)
  define p where "p = i * BLOCK_SIZE + k"
  have p: "p < n * BLOCK_SIZE" using k fit by (simp add: p_def)
  have dv: "DIR_ENTRY_SIZE dvd n * BLOCK_SIZE" by (simp add: DIR_ENTRY_SIZE_def BLOCK_SIZE_def dvd_mult)
  have "16 * i \<le> p div 32" "p div 32 < 16 * i + 16" using k by (auto simp: p_def BLOCK_SIZE_def)
  moreover have "16 * i + 16 \<le> a \<or> b \<le> 16 * i" using out by (auto simp: BLOCK_SIZE_def DIR_ENTRY_SIZE_def)
  ultimately have "\<not> (a \<le> p div DIR_ENTRY_SIZE \<and> p div DIR_ENTRY_SIZE < b)" by (auto simp: DIR_ENTRY_SIZE_def)
  then have "new ! p = old ! p" using byte_of_slot [of p new] byte_of_slot [of p old] p dv len same by simp
  then show "slice (i * BLOCK_SIZE) ((i + 1) * BLOCK_SIZE) new ! k = slice (i * BLOCK_SIZE) ((i + 1) * BLOCK_SIZE) old ! k"
    using k len fit by (simp add: slice_simps p_def)
qed

lemma slices_eq:
  fixes xs ys :: "byte list"
  assumes "length xs = n * BLOCK_SIZE" "length ys = n * BLOCK_SIZE"
    "\<And>i. i < n \<Longrightarrow> slice (i * BLOCK_SIZE) ((i + 1) * BLOCK_SIZE) xs = slice (i * BLOCK_SIZE) ((i + 1) * BLOCK_SIZE) ys"
  shows "xs = ys"
proof -
  have "blocks_of xs = blocks_of ys" using assms by (auto simp: blocks_of_def BLOCK_SIZE_def intro!: map_cong)
  then show ?thesis using blocks_of_whole(1) assms(1,2) by metis
qed


lemma same_volume_place:
  assumes "same_volume content f f'"
  shows "dir_place content f' = dir_place content f" "place_bytes content f' = place_bytes content f" "blocks_at f' = blocks_at f"
    "sound_chain content f' = sound_chain content f"
proof -
  note same = same_volume_fields [OF assms] same_volume_views [OF assms]
  have walk: "chain_walk content f' = (chain_walk content f :: _ \<Rightarrow> _ \<Rightarrow> _ \<Rightarrow> _ \<Rightarrow> (nat list, unit fat_error) result)" by (rule same_volume_walk [OF assms])
  then show sound: "sound_chain content f' = sound_chain content f" by (simp add: fun_eq_iff sound_chain_def same)
  show "place_bytes content f' = place_bytes content f" "blocks_at f' = blocks_at f" by (simp_all add: fun_eq_iff place_bytes_def blocks_at_def same)
  show "dir_place content f' = dir_place content f"
    unfolding dir_place_def [abs_def] by (simp only: sound same same_shape_dir [OF same_volume_shape [OF assms]])
qed

lemma device_same:
  assumes "fat_inv content f" "content d = content (fa_device f)"
  shows "same_volume content f (f\<lparr>fa_device := d\<rparr>)" "fat_inv content (f\<lparr>fa_device := d\<rparr>)"
proof -
  have "coherent content f" using assms(1) by (simp add: fat_inv_def)
  then show sv: "same_volume content f (f\<lparr>fa_device := d\<rparr>)" by (rule same_volume_device [OF _ assms(2)])
  have "\<forall>s b. fa_cache f = Some (s, b) \<longrightarrow> first_fat_sector f s \<and> (\<forall>b'. fa_dirty f \<noteq> Some (s, b'))"
    using assms(1) unfolding fat_inv_def by blast
  then show "fat_inv content (f\<lparr>fa_device := d\<rparr>)" using same_volume_inv [OF assms(1) sv] by simp
qed

context block_device
begin

lemma length_place_bytes: "length (place_bytes content f ss) = length ss * BLOCK_SIZE"
  by (induction ss) (simp_all add: place_bytes_def block_length)

lemma slice_place_bytes:
  assumes "i < length ss"
  shows "slice (i * BLOCK_SIZE) ((i + 1) * BLOCK_SIZE) (place_bytes content f ss) = content (fa_device f) (fa_start f + ss ! i)"
proof -
  have ss: "ss = take i ss @ ss ! i # drop (i + 1) ss" using assms by (simp add: id_take_nth_drop)
  have "place_bytes content f ss = place_bytes content f (take i ss) @ content (fa_device f) (fa_start f + ss ! i) @ place_bytes content f (drop (i + 1) ss)"
    by (subst ss) (simp add: place_bytes_def)
  moreover have "length (place_bytes content f (take i ss)) = i * BLOCK_SIZE" using length_place_bytes [of f "take i ss"] assms by simp
  ultimately show ?thesis by (simp add: slice_def block_length)
qed

lemma load_sectors_view:
  "load_sectors dev ss f = (r, f') \<Longrightarrow> \<exists>d. f' = f\<lparr>fa_device := d\<rparr> \<and> content d = content (fa_device f) \<and> (device_error r \<or> r = Ok (place_bytes content f ss))"
proof (induction ss arbitrary: f r f')
  case Nil
  then show ?case by (auto intro!: exI [of _ "fa_device f"] simp: place_bytes_def)
next
  case (Cons s ss)
  obtain q d where q: "dv_read dev (fa_start f + s) (fa_device f) = (q, d)" by fastforce
  have d: "content d = content (fa_device f)" "\<And>b. q = Ok b \<Longrightarrow> b = content (fa_device f) (fa_start f + s)" using read1 [OF q] by auto
  show ?case
  proof (cases q)
    case (Err e)
    then have "r = Err (Device e)" "f' = f\<lparr>fa_device := d\<rparr>" using Cons.prems q by (auto simp: fbind_def on_device_def lba_offset_def)
    then show ?thesis using d(1) by (intro exI [of _ d]) simp
  next
    case (Ok b)
    obtain q2 f2 where q2: "load_sectors dev ss (f\<lparr>fa_device := d\<rparr>) = (q2, f2)" by fastforce
    from Cons.IH [OF q2] obtain d2 where d2: "f2 = f\<lparr>fa_device := d2\<rparr>" "content d2 = content d" "device_error q2 \<or> q2 = Ok (place_bytes content (f\<lparr>fa_device := d\<rparr>) ss)"
      by auto
    have "place_bytes content (f\<lparr>fa_device := d\<rparr>) ss = place_bytes content f ss" by (simp add: place_bytes_def d(1))
    moreover have "(case q2 of Ok bytes \<Rightarrow> (Ok (b @ bytes), f2) | Err e \<Rightarrow> (Err e, f2)) = (r, f')"
      using Cons.prems q Ok q2 by (auto simp: fbind_def on_device_def lba_offset_def split: result.splits)
    ultimately show ?thesis using d d2 Ok by (intro exI [of _ d2]) (auto simp: place_bytes_def split: result.splits)
  qed
qed

lemma dir_sectors_view:
  assumes inv: "fat_inv content f" and run: "dir_sectors dev dir f = (r, f')"
  shows "same_volume content f f'" "fat_inv content f'" "dir_place content f dir ss ds \<Longrightarrow> device_error r \<or> r = Ok ss"
proof -
  have coh: "coherent content f" using inv by (simp add: fat_inv_def)
  have "same_volume content f f' \<and> fat_inv content f' \<and> (dir_place content f dir ss ds \<longrightarrow> device_error r \<or> r = Ok ss)"
  proof (cases "dir_first f dir")
    case None
    then obtain start n where root: "dir = DirRoot" "fa_root f = RootFixed start n" by (auto simp: dir_first_def split: dir.splits root_dir.splits)
    then have "r = Ok [start..<start + n]" "f' = f" using run by (auto simp: dir_sectors_def)
    then show ?thesis using None root inv same_volume_refl [OF coh] by (auto simp: dir_place_def)
  next
    case (Some first)
    obtain q f1 where q: "fat_chain dev first f = (q, f1)" by fastforce
    note w = fat_chain_walk [OF inv q]
    have "(case q of Ok chain \<Rightarrow> (Ok (concat (map (cluster_sectors f1) chain)), f1) | Err e \<Rightarrow> (Err e, f1)) = (r, f')"
      using run Some q by (auto simp: dir_sectors_def dir_first_def fbind_def split: dir.splits root_dir.splits result.splits)
    moreover have "cluster_sectors f1 = cluster_sectors f"
      by (simp add: fun_eq_iff cluster_sectors_def same_volume_fields [OF w(1)] same_volume_views [OF w(1)])
    ultimately have f': "f' = f1" and r: "r = map_result (chain_sectors f) id q" by (auto simp: chain_sectors_def split: result.splits)
    have "device_error r \<or> r = Ok ss" if "dir_place content f dir ss ds"
    proof -
      have "chain_walk content f None (fa_cluster_count f) (Some first) 0 = (Ok ds :: (nat list, 'e fat_error) result)" "ss = chain_sectors f ds"
        using that Some sound_walk by (auto simp: dir_place_def)
      then have "device_error q \<or> q = Ok ds" using w(3) by metis
      then show ?thesis using r \<open>ss = chain_sectors f ds\<close> by auto
    qed
    then show ?thesis using w(1,2) f' by simp
  qed
  then show "same_volume content f f'" "fat_inv content f'" "dir_place content f dir ss ds \<Longrightarrow> device_error r \<or> r = Ok ss" by blast+
qed

lemma load_dir_view:
  assumes inv: "fat_inv content f" and run: "load_dir dev dir f = (r, f')"
  shows "same_volume content f f'" "fat_inv content f'"
    "dir_place content f dir ss ds \<Longrightarrow> device_error r \<or> r = Ok \<lparr>di_sectors = ss, di_bytes = place_bytes content f ss\<rparr>"
proof -
  obtain q f1 where q: "dir_sectors dev dir f = (q, f1)" by fastforce
  note v = dir_sectors_view [OF inv q]
  have "same_volume content f f' \<and> fat_inv content f' \<and>
    (dir_place content f dir ss ds \<longrightarrow> device_error r \<or> r = Ok \<lparr>di_sectors = ss, di_bytes = place_bytes content f ss\<rparr>)"
  proof (cases q)
    case (Err e)
    then have "r = Err e" "f' = f1" using run q by (auto simp: load_dir_def fbind_def)
    then show ?thesis using v Err by auto
  next
    case (Ok sectors)
    obtain q2 f2 where q2: "load_sectors dev sectors f1 = (q2, f2)" by fastforce
    then obtain d where d: "f2 = f1\<lparr>fa_device := d\<rparr>" "content d = content (fa_device f1)" "device_error q2 \<or> q2 = Ok (place_bytes content f1 sectors)"
      using load_sectors_view by blast
    have "(case q2 of Ok bytes \<Rightarrow> (Ok \<lparr>di_sectors = sectors, di_bytes = bytes\<rparr>, f2) | Err e \<Rightarrow> (Err e, f2)) = (r, f')"
      using run q Ok q2 by (auto simp: load_dir_def fbind_def split: result.splits)
    then have f': "f' = f2" and r: "device_error r \<or> r = Ok \<lparr>di_sectors = sectors, di_bytes = place_bytes content f1 sectors\<rparr>"
      using d(3) by (auto split: result.splits)
    have "same_volume content f f'" using same_volume_trans [OF v(1) device_same(1) [OF v(2) d(2)]] f' d(1) by simp
    moreover have "fat_inv content f'" using device_same(2) [OF v(2) d(2)] f' d(1) by simp
    moreover have "place_bytes content f1 = place_bytes content f" using same_volume_place [OF v(1)] by simp
    ultimately show ?thesis using r v(3) Ok by auto
  qed
  then show "same_volume content f f'" "fat_inv content f'"
    "dir_place content f dir ss ds \<Longrightarrow> device_error r \<or> r = Ok \<lparr>di_sectors = ss, di_bytes = place_bytes content f ss\<rparr>" by blast+
qed

lemma store_sectors_effect:
  assumes "store_sectors dev img idx f = (r, f')" "distinct idx" "\<forall>i \<in> set idx. i < length (di_sectors img)" "distinct (di_sectors img)"
    "length (di_bytes img) = length (di_sectors img) * BLOCK_SIZE"
  shows "f' = f\<lparr>fa_device := fa_device f'\<rparr> \<and> (device_error r \<or> r = Ok ())
    \<and> (\<forall>l. l \<notin> (\<lambda>i. fa_start f + di_sectors img ! i) ` set idx \<longrightarrow> content (fa_device f') l = content (fa_device f) l)
    \<and> (r = Ok () \<longrightarrow> (\<forall>i \<in> set idx. content (fa_device f') (fa_start f + di_sectors img ! i) = slice (i * BLOCK_SIZE) ((i + 1) * BLOCK_SIZE) (di_bytes img)))"
  using assms(1-3)
proof (induction idx arbitrary: f)
  case (Cons i idx)
  let ?b = "slice (i * BLOCK_SIZE) ((i + 1) * BLOCK_SIZE) (di_bytes img)" and ?l = "fa_start f + di_sectors img ! i"
  have "(i + 1) * BLOCK_SIZE \<le> length (di_sectors img) * BLOCK_SIZE" using Cons.prems(3) by (intro mult_le_mono1) simp
  then have len: "length ?b = BLOCK_SIZE" using assms(5) by (simp add: slice_simps)
  obtain q d where q: "dv_write dev ?l ?b (fa_device f) = (q, d)" by fastforce
  note w = write1 [OF len q]
  show ?case
  proof (cases q)
    case (Err e)
    then have "r = Err (Device e)" "f' = f\<lparr>fa_device := d\<rparr>" using Cons.prems(1) q by (auto simp: fbind_def on_device_def lba_offset_def)
    then show ?thesis using w by auto
  next
    case (Ok u)
    then have run: "store_sectors dev img idx (f\<lparr>fa_device := d\<rparr>) = (r, f')" using Cons.prems(1) q by (auto simp: fbind_def on_device_def lba_offset_def)
    have other: "?l \<noteq> fa_start f + di_sectors img ! j" if "j \<in> set idx" for j
      using that Cons.prems(2,3) assms(4) by (auto simp: nth_eq_iff_index_eq)
    have IH: "f' = f\<lparr>fa_device := fa_device f'\<rparr>" "device_error r \<or> r = Ok ()"
      "\<forall>l. l \<notin> (\<lambda>i. fa_start f + di_sectors img ! i) ` set idx \<longrightarrow> content (fa_device f') l = content d l"
      "r = Ok () \<longrightarrow> (\<forall>i \<in> set idx. content (fa_device f') (fa_start f + di_sectors img ! i) = slice (i * BLOCK_SIZE) ((i + 1) * BLOCK_SIZE) (di_bytes img))"
      using Cons.IH [OF run] Cons.prems(2,3) by auto
    have "?l \<notin> (\<lambda>i. fa_start f + di_sectors img ! i) ` set idx" using other by blast
    then have "content (fa_device f') ?l = ?b" using IH(3) w Ok by simp
    then show ?thesis using IH w by auto
  qed
qed auto

lemma store_dir_effect:
  assumes inv: "fat_inv content f" and run: "store_dir dev img a b f = (r, f')" and ss: "distinct (di_sectors img)" "\<forall>l \<in> blocks_at f (di_sectors img). \<not> in_fats f l"
    and len: "length (di_bytes img) = length (di_sectors img) * BLOCK_SIZE" and b: "b \<le> image_slots img"
    and same: "\<forall>j < length (dir_slots (place_bytes content f (di_sectors img))). \<not> (a \<le> j \<and> j < b) \<longrightarrow>
        dir_slots (di_bytes img) ! j = dir_slots (place_bytes content f (di_sectors img)) ! j"
  shows "changes_only content {} (blocks_at f (di_sectors img)) f f'" "device_error r \<or> r = Ok ()" "f' = f\<lparr>fa_device := fa_device f'\<rparr>"
    "r = Ok () \<Longrightarrow> place_bytes content f' (di_sectors img) = di_bytes img"
proof -
  let ?ss = "di_sectors img" and ?per = "BLOCK_SIZE div DIR_ENTRY_SIZE"
  define idx where "idx = [a div ?per..<(b + ?per - 1) div ?per]"
  have "b \<le> length ?ss * 16" using b len by (simp add: image_slots_def BLOCK_SIZE_def DIR_ENTRY_SIZE_def)
  then have idx: "distinct idx" "\<forall>i \<in> set idx. i < length ?ss" by (auto simp: idx_def BLOCK_SIZE_def DIR_ENTRY_SIZE_def)
  have "store_sectors dev img idx f = (r, f')" using run by (simp add: store_dir_def idx_def Let_def)
  note st = store_sectors_effect [OF this idx ss(1) len]
  show f': "f' = f\<lparr>fa_device := fa_device f'\<rparr>" and "device_error r \<or> r = Ok ()" using st by blast+
  have "(\<lambda>i. fa_start f + ?ss ! i) ` set idx \<subseteq> blocks_at f ?ss" using idx(2) by (auto simp: blocks_at_def)
  then have out: "\<forall>l. l \<notin> blocks_at f ?ss \<longrightarrow> content (fa_device f') l = content (fa_device f) l" using st by blast
  show "changes_only content {} (blocks_at f ?ss) f f'" by (rule device_change_only(1) [OF inv f' out ss(2)])
  assume "r = Ok ()"
  have start: "fa_start f' = fa_start f" by (subst f') simp
  show "place_bytes content f' ?ss = di_bytes img"
  proof (rule slices_eq)
    show "length (place_bytes content f' ?ss) = length ?ss * BLOCK_SIZE" by (rule length_place_bytes)
    show "length (di_bytes img) = length ?ss * BLOCK_SIZE" by (rule len)
    fix i assume i: "i < length ?ss"
    have now: "slice (i * BLOCK_SIZE) ((i + 1) * BLOCK_SIZE) (place_bytes content f' ?ss) = content (fa_device f') (fa_start f + ?ss ! i)"
      using slice_place_bytes [OF i] start by simp
    show "slice (i * BLOCK_SIZE) ((i + 1) * BLOCK_SIZE) (place_bytes content f' ?ss) = slice (i * BLOCK_SIZE) ((i + 1) * BLOCK_SIZE) (di_bytes img)"
    proof (cases "i \<in> set idx")
      case True
      then show ?thesis using now st \<open>r = Ok ()\<close> by simp
    next
      case False
      have "fa_start f + ?ss ! i \<notin> (\<lambda>i. fa_start f + ?ss ! i) ` set idx" using False idx(2) i ss(1) by (auto simp: nth_eq_iff_index_eq)
      then have "content (fa_device f') (fa_start f + ?ss ! i) = slice (i * BLOCK_SIZE) ((i + 1) * BLOCK_SIZE) (place_bytes content f ?ss)"
        using st slice_place_bytes [OF i] by simp
      moreover have "length (place_bytes content f ?ss) = length ?ss * BLOCK_SIZE" by (rule length_place_bytes)
      ultimately show ?thesis using now sector_unchanged [OF len _ i same] False by (simp add: idx_def)
    qed
  qed
qed

end

end
