(* ===== verification/Fat_Change.thy ===== *)
theory Fat_Change
  imports Fat_Files
begin

text \<open>
  The steps of a change: looking up a directory, counting the free clusters, growing a directory, adding an entry and bringing FSInfo
  up to date, each with all that it may change.
\<close>

subsection \<open>Steps that only read\<close>

definition untouched :: "('d \<Rightarrow> lba \<Rightarrow> block) \<Rightarrow> 'd fat \<Rightarrow> 'd fat \<Rightarrow> bool" where
  \<comment> \<open>at most the cache and the counters are other ones\<close>
  "untouched content f f' \<longleftrightarrow> same_shape f f' \<and> fat_inv content f' \<and> content (fa_device f') = content (fa_device f) \<and> fa_dirty f' = fa_dirty f"

lemma untouched_refl: "fat_inv content f \<Longrightarrow> untouched content f f"
  by (simp add: untouched_def)

lemma untouched_trans: "untouched content f f' \<Longrightarrow> untouched content f' f'' \<Longrightarrow> untouched content f f''"
  unfolding untouched_def using same_shape_trans by metis

lemma same_volume_untouched: "same_volume content f f' \<Longrightarrow> fat_inv content f' \<Longrightarrow> untouched content f f'"
  using same_volume_shape same_volume_fields(7,15) unfolding untouched_def by metis

lemma untouched_counters [simp]:
  "untouched content f (f'\<lparr>fa_free_count := x\<rparr>) \<longleftrightarrow> untouched content f f'" "untouched content f (f'\<lparr>fa_next_free := y\<rparr>) \<longleftrightarrow> untouched content f f'"
  by (simp_all add: untouched_def same_shape_def)

lemma untouched_values:
  assumes "untouched content f f'"
  shows "fat_value content f' = fat_value content f" "disk_value content f' = disk_value content f" "cluster_data content f' = cluster_data content f"
    "free_set content f' = free_set content f" "place_bytes content f' = place_bytes content f" "blocks_at f' = blocks_at f"
    "sectors_in f' = sectors_in f" "chain_sectors f' = chain_sectors f" "dir_first f' = dir_first f"
proof -
  have u: "same_shape f f'" "content (fa_device f') = content (fa_device f)" "fa_dirty f' = fa_dirty f" using assms by (auto simp: untouched_def)
  note same = same_shape_fields [OF u(1)] same_shape_views [OF u(1)]
  show v: "fat_value content f' = fat_value content f" unfolding fat_value_def [abs_def] by (simp only: same u)
  show "disk_value content f' = disk_value content f" unfolding disk_value_def [abs_def] by (simp only: same u)
  show "cluster_data content f' = cluster_data content f" unfolding cluster_data_def [abs_def] by (simp only: same u)
  show "free_set content f' = free_set content f" by (simp add: free_set_def v same)
  show "place_bytes content f' = place_bytes content f" unfolding place_bytes_def [abs_def] by (simp only: same u)
  show "sectors_in f' = sectors_in f" by (rule same_shape_sectors [OF u(1)])
  show "blocks_at f' = blocks_at f" "chain_sectors f' = chain_sectors f" "dir_first f' = dir_first f" using same_shape_dir [OF u(1)] by simp_all
qed

lemma untouched_chains:
  assumes "untouched content f f'"
  shows "sound_chain content f' = sound_chain content f" "dir_place content f' = dir_place content f" "changes_only content {} {} f f'"
proof -
  have shape: "same_shape f f'" using assms by (simp add: untouched_def)
  have rev: "same_shape f' f" using shape by (simp add: same_shape_def)
  note same = same_shape_fields [OF shape] and v = untouched_values [OF assms]
  have "sound_chain content f' first cs \<longleftrightarrow> sound_chain content f first cs" for first cs
    using chain_walk_kept [OF _ shape, of content "fa_cluster_count f" "Some first" 0 cs] chain_walk_kept [OF _ rev, of content "fa_cluster_count f" "Some first" 0 cs]
    unfolding sound_chain_def v(1) same by blast
  then show sound: "sound_chain content f' = sound_chain content f" by (intro ext)
  show "dir_place content f' = dir_place content f" unfolding dir_place_def [abs_def] by (simp only: sound v same)
  show "changes_only content {} {} f f'" using assms by (simp add: changes_only_def untouched_def v)
qed

lemma untouched_changes:
  assumes "untouched content f f'" "changes_only content A D f' f''"
  shows "changes_only content A D f f''"
  using changes_only_trans [OF untouched_chains(3) [OF assms(1)] assms(2)] by simp

context block_device
begin

lemma free_clusters_loop_view:
  "fat_inv content f \<Longrightarrow> \<forall>c \<in> set cs. c < fa_cluster_count f + 2 \<Longrightarrow> free_clusters_loop dev cs n f = (r, f') \<Longrightarrow>
   untouched content f f' \<and> (device_error r \<or> (\<exists>k. r = Ok k))"
proof (induction cs arbitrary: n f)
  case Nil
  then show ?case by (auto simp: untouched_refl)
next
  case (Cons c cs)
  obtain q f1 where q: "fat_entry dev c f = (q, f1)" by fastforce
  have coh: "coherent content f" using Cons.prems(1) by (simp add: fat_inv_def)
  note v = fat_entry_view [OF coh q] and inv1 = fat_entry_inv [OF Cons.prems(1) _ q]
  have u: "untouched content f f1" "fat_inv content f1" using same_volume_untouched [OF v(1) inv1] inv1 Cons.prems(2) by auto
  show ?case
  proof (cases q)
    case (Err e)
    then show ?thesis using Cons.prems(3) q v(2) u by (auto simp: fbind_def)
  next
    case (Ok x)
    then have run: "free_clusters_loop dev cs (n + (if x = 0 then 1 else 0)) f1 = (r, f')" using Cons.prems(3) q by (simp add: fbind_def)
    have "fa_cluster_count f1 = fa_cluster_count f" using same_volume_fields [OF v(1)] by simp
    then show ?thesis using Cons.IH [OF u(2) _ run] Cons.prems(2) untouched_trans [OF u(1)] by auto
  qed
qed

lemma begin_change_view:
  assumes inv: "fat_inv content f" and run: "begin_change dev f = (r, f')"
  shows "untouched content f f'" "device_error r \<or> r = Ok ()"
proof -
  obtain q f1 where q: "free_clusters dev f = (q, f1)" by fastforce
  have "\<forall>c \<in> set [2..<fa_cluster_count f + 2]. c < fa_cluster_count f + 2" unfolding set_upt by simp
  from free_clusters_loop_view [OF inv this q [unfolded free_clusters_def]]
  have fc: "untouched content f f1" "device_error q \<or> (\<exists>k. q = Ok k)" by blast+
  have "untouched content f f' \<and> (device_error r \<or> r = Ok ())"
    using run q fc inv by (cases q) (auto simp: begin_change_def fbind_def untouched_refl split: if_splits)
  then show "untouched content f f'" "device_error r \<or> r = Ok ()" by blast+
qed

lemma allocate_untouched:
  assumes "fat_inv content f" "allocate dev count f = (r, f')" "0 < fa_cluster_count f"
  shows "untouched content f f'"
proof -
  note a = allocate_free [OF assms]
  have "untouched content f (f'\<lparr>fa_next_free := fa_next_free f\<rparr>)"
    using a(1,2) by (intro same_volume_untouched) simp_all
  then show ?thesis by simp
qed

lemma read_run_inv:
  "fat_inv content f \<Longrightarrow> read_run dev count mr limit got cb run cur steps f = (r, f') \<Longrightarrow> fat_inv content f'"
proof (induction "Suc count - steps" arbitrary: run cur steps f rule: less_induct)
  case less
  note unfold = read_run.simps [of dev count mr limit got cb run cur steps f]
  show ?case
  proof (cases "cluster_ok f cur \<and> steps < count")
    case False
    then show ?thesis using less.prems by (auto simp: unfold split: if_splits)
  next
    case True
    obtain x f1 where n: "fat_next dev cur f = (x, f1)" by fastforce
    have inv1: "fat_inv content f1" using fat_next_inv [OF less.prems(1) _ n] True by (simp add: cluster_ok_def)
    show ?thesis
    proof (cases x)
      case (Err e)
      then show ?thesis using less.prems(2) True n inv1 by (simp add: unfold)
    next
      case (Ok c)
      show ?thesis
      proof (cases "case c of Some nxt \<Rightarrow> nxt = cur + 1 \<and> run + 1 < mr \<and> \<not> covered limit (got + (run + 1) * cb) | None \<Rightarrow> False")
        case cont: True
        then have "read_run dev count mr limit got cb (run + 1) (the c) (steps + 1) f1 = (r, f')" using less.prems(2) True n Ok by (simp add: unfold)
        then show ?thesis using less.hyps [OF _ inv1, of "steps + 1" "run + 1" "the c"] True by (simp add: Suc_diff_le)
      next
        case False
        then show ?thesis using less.prems(2) True n Ok inv1 by (simp add: unfold)
      qed
    qed
  qed
qed

lemma read_sectors_inv:
  assumes inv: "fat_inv content f" and run: "read_sectors dev start count f = (r, f')"
  shows "fat_inv content f'" "untouched content f f'"
proof -
  obtain q d where q: "dv_read_blocks dev (fa_start f + start) count (fa_device f) = (q, d)" by fastforce
  have "content d = content (fa_device f)" using read_many [OF q] by simp
  moreover have "f' = f\<lparr>fa_device := d\<rparr>" using run q by (auto simp: read_sectors_def fbind_def on_device_def lba_offset_def split: result.splits)
  ultimately show "fat_inv content f'" "untouched content f f'" using device_same [OF inv, of d] same_volume_untouched [of content f f'] by simp_all
qed

lemma read_loop_inv:
  "fat_inv content f \<Longrightarrow> read_loop dev count mr limit cb c steps bytes f = (r, f') \<Longrightarrow> fat_inv content f'"
proof (induction "count - steps" arbitrary: c steps bytes f rule: less_induct)
  case less
  note unfold = read_loop.simps [of dev count mr limit cb c steps bytes f]
  show ?case
  proof (cases "\<exists>start. c = Some start \<and> \<not> covered limit (length bytes)")
    case False
    then have "f' = f" using less.prems(2) unfolding unfold by (cases c) auto
    then show ?thesis using less.prems(1) by simp
  next
    case True
    then obtain start where c: "c = Some start" "\<not> covered limit (length bytes)" by blast
    note run = less.prems(2) [unfolded c(1)] and un = read_loop.simps [of dev count mr limit cb "Some start" steps bytes f]
    obtain x f1 where x: "read_run dev count mr limit (length bytes) cb 0 start steps f = (x, f1)" by fastforce
    note inv1 = read_run_inv [OF less.prems(1) x]
    show ?thesis
    proof (cases x)
      case (Err e)
      then show ?thesis using run c(2) x inv1 by (simp add: un)
    next
      case (Ok p)
      obtain run c' steps' where p: "p = (run, c', steps')" by (metis prod.collapse)
      obtain y f2 where y: "read_sectors dev (first_sector f1 start) (run * fa_spc f1) f1 = (y, f2)" by fastforce
      note inv2 = read_sectors_inv(1) [OF inv1 y]
      show ?thesis
      proof (cases y)
        case (Err e)
        then show ?thesis using run c(2) x Ok p y inv2 by (simp add: un)
      next
        case ok: (Ok bs)
        have st: "steps < steps' \<and> steps' \<le> count" using read_run_steps x Ok p by blast
        have "read_loop dev count mr limit cb c' steps' (bytes @ bs) f2 = (r, f')" using run c(2) x Ok p y ok by (simp add: un)
        then show ?thesis using less.hyps [OF _ inv2, of steps'] st by auto
      qed
    qed
  qed
qed

lemma read_chain_untouched:
  assumes inv: "fat_inv content f" and run: "read_chain dev first limit f = (r, f')"
  shows "untouched content f f'"
proof -
  have coh: "coherent content f" using inv by (simp add: fat_inv_def)
  have sv: "same_volume content f f'" using read_chain_walk [OF coh run] by blast
  obtain q f1 where q: "read_loop dev (fa_cluster_count f) (max (MAX_RUN_SECTORS div fa_spc f) 1) limit (cluster_size f) (Some first) 0 [] f = (q, f1)" by fastforce
  have "fat_inv content f1" using read_loop_inv [OF inv q] .
  moreover have "f' = f \<or> f' = f1" using run q by (auto simp: read_chain_def fbind_def split: if_splits result.splits option.splits)
  ultimately show ?thesis using same_volume_untouched [OF sv] inv by blast
qed

lemma fat_entries_untouched:
  assumes inv: "fat_inv content f" and run: "fat_entries dev dir f = (r, f')"
  shows "untouched content f f'"
proof -
  define rd where "rd = (case dir of DirChain cluster \<Rightarrow> read_chain dev cluster None
      | DirRoot \<Rightarrow> (case fa_root f of RootFixed start sectors \<Rightarrow> read_sectors dev start sectors | RootChain cluster \<Rightarrow> read_chain dev cluster None))"
  obtain q f1 where q: "rd f = (q, f1)" by fastforce
  have "untouched content f f1"
    using q read_chain_untouched [OF inv] read_sectors_inv(2) [OF inv] by (auto simp: rd_def split: dir.splits root_dir.splits)
  moreover have "f' = f1" using run q by (auto simp: fat_entries_def fbind_def rd_def split: result.splits)
  ultimately show ?thesis by simp
qed

lemma find_in_untouched:
  assumes inv: "fat_inv content f" and run: "find_in dev to_lower dir name f = (r, f')"
  shows "untouched content f f'"
proof -
  obtain q f1 where q: "fat_entries dev dir f = (q, f1)" by fastforce
  have "f' = f1" using run q by (auto simp: find_in_def fbind_def split: result.splits option.splits)
  then show ?thesis using fat_entries_untouched [OF inv q] by simp
qed

lemma find_parts_untouched:
  "fat_inv content f \<Longrightarrow> find_parts dev to_lower names dir f = (r, f') \<Longrightarrow> untouched content f f'"
proof (induction names arbitrary: dir f)
  case Nil
  then show ?case by (auto simp: untouched_refl)
next
  case (Cons name names)
  obtain q f1 where q: "find_in dev to_lower dir name f = (q, f1)" by fastforce
  note u = find_in_untouched [OF Cons.prems(1) q]
  have inv1: "fat_inv content f1" using u by (simp add: untouched_def)
  show ?case
  proof (cases "\<exists>entry. q = Ok entry \<and> de_kind entry = Directory")
    case False
    then have "f' = f1" using Cons.prems(2) q by (cases q) (auto split: if_splits)
    then show ?thesis using u by simp
  next
    case True
    then show ?thesis using Cons.prems(2) q untouched_trans [OF u] Cons.IH [OF inv1] by auto
  qed
qed

end

end
