(* ===== verification/Fat_Add.thy ===== *)
theory Fat_Add
  imports Fat_Change
begin

text \<open>
  \<open>add_entry\<close> on the disk: the directory, grown by clusters of free slots when it is full, lists the new entry, and nothing
  outside it and free clusters changes.
\<close>

subsection \<open>Chains and directories that are kept\<close>

lemma dir_place_kept:
  assumes only: "changes_only content A D f f'" and clean: "fa_dirty f = None" and ok: "vol_ok f" and place: "dir_place content f dir ss ds"
  shows "set ds \<inter> A = {} \<Longrightarrow> dir_place content f' dir ss ds" "blocks_at f ss \<inter> D = {} \<Longrightarrow> place_bytes content f' ss = place_bytes content f ss"
    "blocks_at f' = blocks_at f"
proof -
  have shape: "same_shape f f'" using changes_only_fields(1) [OF only] .
  note same = same_shape_fields [OF shape] same_shape_views [OF shape]
  show "blocks_at f' = blocks_at f" using same_shape_dir [OF shape] by simp
  show "place_bytes content f' ss = place_bytes content f ss" if "blocks_at f ss \<inter> D = {}"
  proof -
    have "content (fa_device f') (fa_start f + s) = content (fa_device f) (fa_start f + s)" if "s \<in> set ss" for s
      using that \<open>blocks_at f ss \<inter> D = {}\<close> dir_place_sectors(2) [OF place ok] by (intro changes_only_fields(3) [OF only]) (auto simp: blocks_at_def)
    then show ?thesis unfolding place_bytes_def same by (auto intro!: arg_cong [where f = concat])
  qed
  have first: "dir_first f' = dir_first f" and sectors: "chain_sectors f' = chain_sectors f" using same_shape_dir [OF shape] by simp_all
  show "dir_place content f' dir ss ds" if apart: "set ds \<inter> A = {}"
  proof (cases "dir_first f dir")
    case None
    then show ?thesis using place unfolding dir_place_def first same by simp
  next
    case (Some c)
    then have s: "sound_chain content f c ds" "ss = chain_sectors f ds" using place by (auto simp: dir_place_def)
    have "x < fa_cluster_count f + 2" "x \<notin> A" if "x \<in> set ds" for x
      using sound_chain_clusters [OF s(1) that] apart that by (auto simp: cluster_ok_def)
    then have "\<forall>x \<in> set ds. fat_value content f' x = fat_value content f x" using changes_only_keeps(1) [OF only clean] by blast
    then have "sound_chain content f' c ds" using chain_walk_kept [OF s(1) [unfolded sound_chain_def] shape] by (simp add: sound_chain_def same)
    then show ?thesis using Some s(2) by (simp add: dir_place_def first sectors)
  qed
qed

lemma chain_walk_fuel:
  assumes "chain_walk content f None fuel c got = (Ok cs :: (nat list, unit fat_error) result)" "length cs \<le> fuel'"
  shows "chain_walk content f None fuel' c got' = (Ok cs :: (nat list, unit fat_error) result)"
  using assms
proof (induction cs arbitrary: fuel fuel' c got got')
  case Nil
  then show ?case by (cases c) (auto elim: chain_walk_SomeE)
next
  case (Cons y cs)
  obtain x where c: "c = Some x" using Cons.prems(1) by (cases c) auto
  obtain fuel1 nxt where s: "cluster_ok f x" "fat_step content f x = (Ok nxt :: (nat option, unit fat_error) result)" "y = x"
      "chain_walk content f None fuel1 nxt (got + cluster_size f) = (Ok cs :: (nat list, unit fat_error) result)"
    using Cons.prems(1) unfolding c by (auto elim: chain_walk_SomeE)
  obtain fuel2 where fuel2: "fuel' = Suc fuel2" using Cons.prems(2) by (cases fuel') auto
  show ?case using Cons.IH [OF s(4), of fuel2 "got' + cluster_size f"] Cons.prems(2) s(1-3) c fuel2 by (simp add: chain_walk.simps covered_def)
qed

lemma chain_walk_append:
  assumes "chain_walk content f None fuel (Some x) got = (Ok ds :: (nat list, unit fat_error) result)" "same_shape f f'" "vol_ok f"
    "\<forall>d \<in> set (butlast ds). fat_value content f' d = fat_value content f d" "fat_value content f' (last ds) = hd new"
    "chain_walk content f' None fuel2 (Some (hd new)) got2 = (Ok new :: (nat list, unit fat_error) result)" "length (ds @ new) \<le> fuel3"
  shows "chain_walk content f' None fuel3 (Some x) got3 = (Ok (ds @ new) :: (nat list, unit fat_error) result)"
  using assms(1,4,5,7)
proof (induction ds arbitrary: fuel x got fuel3 got3)
  case Nil
  then show ?case by (auto elim: chain_walk_SomeE)
next
  case (Cons d ds)
  note same = same_shape_fields [OF assms(2)] same_shape_views [OF assms(2)]
  obtain fuel1 nxt where s: "cluster_ok f x" "fat_step content f x = (Ok nxt :: (nat option, unit fat_error) result)" "d = x"
      "chain_walk content f None fuel1 nxt (got + cluster_size f) = (Ok ds :: (nat list, unit fat_error) result)"
    using Cons.prems(1) by (auto elim: chain_walk_SomeE)
  obtain fuel4 where fuel4: "fuel3 = Suc fuel4" using Cons.prems(4) by (cases fuel3) auto
  show ?case
  proof (cases ds)
    case Nil
    have "cluster_ok f' (hd new)" using assms(6) by (auto elim: chain_walk_SomeE)
    then have "hd new < chain_bad (fa_type f')" using assms(3) by (auto simp: same cluster_ok_def vol_ok_def)
    then have "fat_step content f' x = (Ok (Some (hd new)) :: (nat option, unit fat_error) result)"
      using Cons.prems(3) Nil s(3) by (cases "fa_type f'") (simp_all add: fat_step_def chain_end_def chain_bad_def)
    moreover have "chain_walk content f' None fuel4 (Some (hd new)) (got3 + cluster_size f') = (Ok new :: (nat list, unit fat_error) result)"
      using Cons.prems(4) fuel4 Nil by (intro chain_walk_fuel [OF assms(6)]) simp
    ultimately show ?thesis using s(1,3) Nil fuel4 by (simp add: chain_walk.simps covered_def same)
  next
    case (Cons d' ds')
    then obtain y where y: "nxt = Some y" using s(4) by (cases nxt) auto
    have "fat_value content f' x = fat_value content f x" using Cons.prems(2) Cons s(3) by simp
    then have "fat_step content f' x = (Ok (Some y) :: (nat option, unit fat_error) result)" using s(2) y by (simp add: fat_step_def same Let_def split: if_splits)
    moreover have "chain_walk content f' None fuel4 (Some y) (got3 + cluster_size f') = (Ok (ds @ new) :: (nat list, unit fat_error) result)"
      using Cons.prems(2-4) Cons fuel4 y s(4) by (intro Cons.IH [of fuel1 y "got + cluster_size f"]) auto
    ultimately show ?thesis using s(1,3) fuel4 by (simp add: chain_walk.simps covered_def same)
  qed
qed

lemma chain_length:
  assumes "distinct cs" "\<forall>c \<in> set cs. cluster_ok f c"
  shows "length cs \<le> fa_cluster_count f"
proof -
  have "set cs \<subseteq> {2..<fa_cluster_count f + 2}" using assms(2) by (auto simp: cluster_ok_def not_less)
  then have "card (set cs) \<le> card {2..<fa_cluster_count f + 2}" by (intro card_mono) simp_all
  then show ?thesis using distinct_card [OF assms(1)] by simp
qed

subsection \<open>Slots of zeros\<close>

lemma dir_slots_append:
  assumes "DIR_ENTRY_SIZE dvd length bytes"
  shows "dir_slots (bytes @ more_bytes) = dir_slots bytes @ dir_slots more_bytes"
proof -
  obtain n where n: "length bytes = n * DIR_ENTRY_SIZE" using assms by (metis dvd_def mult.commute)
  have pos: "0 < DIR_ENTRY_SIZE" by (simp add: DIR_ENTRY_SIZE_def)
  define m where "m = length more_bytes div DIR_ENTRY_SIZE"
  have div: "length (bytes @ more_bytes) div DIR_ENTRY_SIZE = n + m" "length bytes div DIR_ENTRY_SIZE = n" using n pos by (simp_all add: m_def)
  have low: "slice (i * DIR_ENTRY_SIZE) ((i + 1) * DIR_ENTRY_SIZE) (bytes @ more_bytes) = slice (i * DIR_ENTRY_SIZE) ((i + 1) * DIR_ENTRY_SIZE) bytes" if "i < n" for i
  proof -
    have "(i + 1) * DIR_ENTRY_SIZE \<le> length bytes" unfolding n using that by (intro mult_le_mono1) simp
    then show ?thesis by (simp add: slice_def)
  qed
  have high: "slice ((n + i) * DIR_ENTRY_SIZE) ((n + i + 1) * DIR_ENTRY_SIZE) (bytes @ more_bytes) = slice (i * DIR_ENTRY_SIZE) ((i + 1) * DIR_ENTRY_SIZE) more_bytes" for i
    using n by (simp add: slice_def add_mult_distrib)
  have "[0..<n + m] = [0..<n] @ map (\<lambda>i. n + i) [0..<m]" unfolding map_add_const_upt using upt_add_eq_append [of 0 n m] by simp
  then show ?thesis unfolding dir_slots_def div m_def [symmetric] using low high by (simp add: comp_def add.assoc)
qed

lemma dir_slots_zeros: "e \<in> set (dir_slots (replicate n 0)) \<Longrightarrow> e ! 0 = ENTRY_END"
proof -
  assume "e \<in> set (dir_slots (replicate n 0))"
  then have len: "length e = DIR_ENTRY_SIZE" and "\<exists>a b. e = slice a b (replicate n 0)" using dir_slot_length by (blast, auto simp: dir_slots_def)
  then have "set e \<subseteq> set (replicate n 0)" unfolding slice_def using set_take_subset set_drop_subset by fast
  moreover have "e ! 0 \<in> set e" using len by (simp add: DIR_ENTRY_SIZE_def)
  ultimately show ?thesis by (auto simp: ENTRY_END_def)
qed

lemma place_bytes_append: "place_bytes content f (ss @ ts) = place_bytes content f ss @ place_bytes content f ts"
  by (simp add: place_bytes_def)


lemma fbind_assoc: "fbind (fbind m k) h = fbind m (\<lambda>x. fbind (k x) h)"
  by (simp add: fun_eq_iff fbind_def split: prod.split result.split)

subsection \<open>Growing a directory\<close>

definition extend_dir :: "('d, 'e) device \<Rightarrow> nat list \<Rightarrow> nat \<Rightarrow> byte list \<Rightarrow> (unit, 'd, 'e) fat_op" where
  \<comment> \<open>the part of \<open>grow_dir\<close> that writes: zeroed clusters, their chain, then the link to it\<close>
  "extend_dir dev new tail zeroes = fbind (write_clusters dev new zeroes) (\<lambda>_. fbind (link dev new) (\<lambda>_. fbind (set_fat_entry dev tail (new ! 0)) (\<lambda>_. flush_fat dev)))"

definition room_error :: "('d \<Rightarrow> lba \<Rightarrow> block) \<Rightarrow> 'd fat \<Rightarrow> dir \<Rightarrow> nat \<Rightarrow> ('a, 'e fat_error) result \<Rightarrow> bool" where
  \<comment> \<open>a directory that can not grow, or fewer than \<open>n\<close> free clusters\<close>
  "room_error content f dir n r \<longleftrightarrow> (r = Err DirectoryFull \<and> dir_first f dir = None) \<or> (r = Err NoSpace \<and> card (free_set content f) < n)"

lemma room_error_mono: "room_error content f dir n (Err e) \<Longrightarrow> n \<le> m \<Longrightarrow> room_error content f dir m (Err e)"
  by (auto simp: room_error_def)

context block_device
begin

lemma hook_effect:
  assumes inv: "fat_inv content f" and lt: "tail < fa_cluster_count f + 2" "v < fa_cluster_count f + 2"
    and run: "fbind (set_fat_entry dev tail v) (\<lambda>_. flush_fat dev) f = (r, f')"
  shows "changes_only content {tail} {} f f'" "device_error r \<or> r = Ok ()"
    "r = Ok () \<Longrightarrow> fa_dirty f' = None \<and> (\<forall>n < fa_cluster_count f + 2. fat_value content f' n = (if n = tail then v else fat_value content f n))"
proof -
  have ok: "vol_ok f" using inv by (simp add: fat_inv_def)
  then have v: "v \<le> unat (entry_mask (fa_type f))" using lt(2) by (cases "fa_type f") (auto simp: vol_ok_def entry_mask_def chain_bad_def)
  obtain q1 f1 where q1: "set_fat_entry dev tail v f = (q1, f1)" by fastforce
  note e = set_fat_entry_change [OF inv lt(1) v q1] and only = set_fat_entry_only [OF inv lt(1) v q1]
  have inv1: "fat_inv content f1" and shape: "same_shape f f1" using changes_only_fields [OF only] by auto
  obtain q2 f2 where q2: "flush_fat dev f1 = (q2, f2)" by fastforce
  note fl = flush_fat_only [OF inv1 q2] and ch = flush_fat_change [OF inv1 q2]
  have run': "(case q1 of Err e \<Rightarrow> (Err e, f1) | Ok _ \<Rightarrow> (q2, f2)) = (r, f')" using run q1 q2 by (auto simp: fbind_def split: result.splits)
  have both: "changes_only content {tail} {} f f2" using changes_only_trans [OF only fl(1)] by simp
  have "changes_only content {tail} {} f f' \<and> (device_error r \<or> r = Ok ()) \<and> (r = Ok () \<longrightarrow> fa_dirty f' = None
      \<and> (\<forall>n < fa_cluster_count f + 2. fat_value content f' n = (if n = tail then v else fat_value content f n)))"
  proof (cases q1)
    case (Err x)
    then show ?thesis using run' only e(2) by auto
  next
    case (Ok u)
    then have r: "q2 = r" "f2 = f'" using run' by auto
    have "fat_value content f' n = (if n = tail then v else fat_value content f n)" if "r = Ok ()" "n < fa_cluster_count f + 2" for n
      using fl(2) [of n] e(3) [of n] that r Ok same_shape_fields [OF shape] by simp
    then show ?thesis using both ch(2,3) r by auto
  qed
  then show "changes_only content {tail} {} f f'" "device_error r \<or> r = Ok ()"
    "r = Ok () \<Longrightarrow> fa_dirty f' = None \<and> (\<forall>n < fa_cluster_count f + 2. fat_value content f' n = (if n = tail then v else fat_value content f n))" by blast+
qed

lemma extend_effect:
  assumes inv: "fat_inv content f" and new: "set new \<subseteq> free_set content f" "distinct new" "new \<noteq> []" and tail: "cluster_ok f tail" "tail \<notin> set new"
    and run: "extend_dir dev new tail (replicate (length new * cluster_size f) 0) f = (r, f')"
  shows "changes_only content (set new \<union> {tail}) (sectors_in f (set new)) f f' \<and> (device_error r \<or> r = Ok ()) \<and>
    (r = Ok () \<longrightarrow> fa_dirty f' = None \<and> sound_chain content f' (hd new) new \<and> fat_value content f' tail = hd new
       \<and> (\<forall>n < fa_cluster_count f + 2. n \<notin> set new \<union> {tail} \<longrightarrow> fat_value content f' n = fat_value content f n)
       \<and> concat (map (cluster_data content f') new) = replicate (length new * cluster_size f) 0)"
proof -
  have ok: "vol_ok f" using inv by (simp add: fat_inv_def)
  have ge: "\<forall>c \<in> set new. 2 \<le> c" "\<forall>c \<in> set new. c < fa_cluster_count f + 2" "\<forall>c \<in> set new. cluster_ok f c" using new(1) by (auto simp: free_set_def cluster_ok_def)
  obtain q1 f1 where q1: "write_clusters dev new (replicate (length new * cluster_size f) 0) f = (q1, f1)" by fastforce
  note wc = write_clusters_data [OF inv q1 ge(1) new(2)]
  have inv1: "fat_inv content f1" and shape1: "same_shape f f1" using changes_only_fields [OF wc(1)] by auto
  obtain q2 f2 where q2: "link dev new f1 = (q2, f2)" by fastforce
  have lt: "\<forall>c \<in> set new. c < fa_cluster_count f1 + 2" using ge(2) same_shape_fields [OF shape1] by simp
  note ln = link_links [OF inv1 lt new(2) q2]
  have inv2: "fat_inv content f2" and shape12: "same_shape f1 f2" using changes_only_fields [OF ln(1)] by auto
  have shape2: "same_shape f f2" using same_shape_trans [OF shape1 shape12] .
  obtain q3 f3 where q3: "fbind (set_fat_entry dev tail (new ! 0)) (\<lambda>_. flush_fat dev) f2 = (q3, f3)" by fastforce
  have lt2: "tail < fa_cluster_count f2 + 2" "new ! 0 < fa_cluster_count f2 + 2"
    using tail(1) ge(2) new(3) same_shape_fields [OF shape2] by (auto simp: cluster_ok_def)
  note hk = hook_effect [OF inv2 lt2 q3]
  have run': "(case q1 of Err e \<Rightarrow> (Err e, f1) | Ok _ \<Rightarrow> (case q2 of Err e \<Rightarrow> (Err e, f2) | Ok _ \<Rightarrow> (q3, f3))) = (r, f')"
    using run q1 q2 q3 by (auto simp: extend_dir_def fbind_def split: result.splits)
  have c2: "changes_only content (set new) (sectors_in f (set new)) f f2" using changes_only_trans [OF wc(1) ln(1)] by simp
  have c3: "changes_only content (set new \<union> {tail}) (sectors_in f (set new)) f f3" using changes_only_trans [OF c2 hk(1)] by simp
  have only: "changes_only content (set new \<union> {tail}) (sectors_in f (set new)) f f'"
    using run' c3 changes_only_mono [OF c2, of "set new \<union> {tail}"] changes_only_mono [OF wc(1), of "set new \<union> {tail}" "sectors_in f (set new)"]
    by (auto split: result.splits)
  show ?thesis
  proof (cases "q1 = Ok () \<and> q2 = Ok () \<and> q3 = Ok ()")
    case False
    then have "device_error r" using run' wc(2) ln(2) hk(2) by (auto split: result.splits)
    then show ?thesis using only by auto
  next
    case True
    then have r: "r = Ok ()" "f' = f3" using run' by auto
    note d1 = wc(6) [OF conjunct1 [OF True]] and d2 = ln(3) [OF conjunct1 [OF conjunct2 [OF True]]] and d3 = hk(3) [OF conjunct2 [OF conjunct2 [OF True]]]
    have shape3: "same_shape f f3" using changes_only_fields(1) [OF c3] .
    note same = same_shape_fields [OF shape3] same_shape_views [OF shape3] same_shape_fields [OF shape2] same_shape_fields [OF shape1]
    have links3: "links (fat_value content f3) (unat (entry_mask (fa_type f3))) new"
    proof -
      have "fat_value content f3 c = fat_value content f2 c" if "c \<in> set new" for c using d3 that ge(2) tail(2) same by auto
      then show ?thesis using d2 links_cong [of new "fat_value content f3" "fat_value content f2"] same by simp
    qed
    have sound: "sound_chain content f3 (hd new) new"
      unfolding sound_chain_def using links_walk [OF links3 _ _ _ new(3)] ge(3) chain_length [OF new(2) ge(3)] ok by (simp add: same)
    have "cluster_data content f3 c = cluster_data content f1 c" if "c \<in> set new" for c
      using changes_only_trans [OF ln(1) hk(1)] that ge(1) inv1 by (intro cluster_data_same) (auto simp: fat_inv_def)
    then have data: "concat (map (cluster_data content f3) new) = replicate (length new * cluster_size f) 0"
      using d1 by (simp add: resize_def cong: map_cong)
    have vals: "fat_value content f3 n = fat_value content f n" if "n < fa_cluster_count f + 2" "n \<notin> set new \<union> {tail}" for n
      using d3 d2 wc(4) [of n] that same by simp
    have "fat_value content f3 tail = hd new" using d3 lt2(1) new(3) by (simp add: hd_conv_nth same)
    then show ?thesis using only r d3 sound data vals by auto
  qed
qed

lemma div_round_up_bound: "(k + m - 1) div m \<le> (k :: nat)"
proof (cases "k = 0 \<or> m = 0")
  case True
  then show ?thesis by (cases m) auto
next
  case False
  then have "k + m - 1 \<le> k * m" by (cases k; cases m) auto
  then show ?thesis using div_le_mono [of "k + m - 1" "k * m" m] False by simp
qed

lemma grow_dir_eq:
  "dir_first f dir = Some first \<Longrightarrow> grow_dir dev dir img needed f = fbind (fat_chain dev first) (\<lambda>chain g.
     let stop = (case position (\<lambda>e. e ! 0 = ENTRY_END) (dir_slots (di_bytes img)) of Some k \<Rightarrow> k | None \<Rightarrow> image_slots img);
         per = cluster_size g div DIR_ENTRY_SIZE;
         clusters = (needed - (image_slots img - stop) + per - 1) div per
     in fbind (allocate dev clusters) (\<lambda>new. fbind (extend_dir dev new (last chain) (replicate (clusters * cluster_size g) 0)) (\<lambda>_ h.
          (Ok (stop, \<lparr>di_sectors = di_sectors img @ chain_sectors h new,
             di_bytes = resize (length (di_sectors img @ chain_sectors h new) * BLOCK_SIZE) 0 (di_bytes img)\<rparr>), h))) g) f"
  unfolding grow_dir_def extend_dir_def fbind_assoc chain_sectors_def Let_def dir_first_def by (cases dir; cases "fa_root f") simp_all

lemma free_run_full:
  "free_run_from slots count index run es = None \<Longrightarrow> position (\<lambda>e. e ! 0 = ENTRY_END) es = Some k \<Longrightarrow> slots < index + k + count"
proof (induction es arbitrary: index run k)
  case (Cons e es)
  show ?case
  proof (cases "e ! 0 = ENTRY_END")
    case True
    then show ?thesis using Cons.prems by (auto split: if_splits)
  next
    case False
    then obtain k' where k': "position (\<lambda>e. e ! 0 = ENTRY_END) es = Some k'" "k = Suc k'" using Cons.prems(2) by auto
    have "free_run_from slots count (index + 1) (if e ! 0 = ENTRY_DELETED then run + 1 else 0) es = None"
      using Cons.prems(1) False by (auto simp: Let_def split: if_splits)
    then show ?thesis using Cons.IH k' by fastforce
  qed
qed simp

lemma extended_place:
  assumes place: "dir_place content f dir ss ds" and first: "dir_first f dir = Some first" and ok: "vol_ok f" and clean: "fa_dirty f = None"
    and new: "set new \<subseteq> free_set content f" "distinct new" "new \<noteq> []"
    and only: "changes_only content (set new \<union> {last ds}) (sectors_in f (set new)) f f'"
    and linked: "sound_chain content f' (hd new) new" "fat_value content f' (last ds) = hd new"
      "\<forall>n < fa_cluster_count f + 2. n \<notin> set new \<union> {last ds} \<longrightarrow> fat_value content f' n = fat_value content f n"
    and data: "concat (map (cluster_data content f') new) = replicate (length new * cluster_size f) 0"
  shows "dir_place content f' dir (ss @ chain_sectors f new) (ds @ new)"
    "place_bytes content f' (ss @ chain_sectors f new) = place_bytes content f ss @ replicate (length new * cluster_size f) 0"
proof -
  have d: "sound_chain content f first ds" "ss = chain_sectors f ds" using place first by (auto simp: dir_place_def)
  have ne: "ds \<noteq> []" using sound_chain_hd(1) [OF d(1)] .
  have apart: "set ds \<inter> set new = {}" using free_not_sound [OF d(1) new(1)] .
  have shape: "same_shape f f'" using changes_only_fields(1) [OF only] .
  note same = same_shape_fields [OF shape] same_shape_views [OF shape]
  have cs: "chain_sectors f' = chain_sectors f" "dir_first f' = dir_first f" using same_shape_dir [OF shape] by simp_all
  have all: "distinct (ds @ new)" "\<forall>c \<in> set (ds @ new). cluster_ok f c"
    using sound_chain_distinct [OF d(1)] new(2) apart sound_chain_clusters [OF d(1)] new(1) by (auto simp: free_set_def cluster_ok_def)
  have vals: "\<forall>x \<in> set (butlast ds). fat_value content f' x = fat_value content f x"
  proof
    fix x assume x: "x \<in> set (butlast ds)"
    moreover have "x \<in> set ds" using x by (rule in_set_butlastD)
    moreover have "x \<noteq> last ds" using x all(1) ne by (metis append_butlast_last_id distinct_append distinct_butlast not_distinct_conv_prefix)
    ultimately have "x < fa_cluster_count f + 2" "x \<notin> set new \<union> {last ds}" using apart all(2) cluster_okD(2) [of f x] by auto
    then show "fat_value content f' x = fat_value content f x" using linked(3) by blast
  qed
  have walk: "chain_walk content f' None (fa_cluster_count f') (Some (hd new)) 0 = (Ok new :: (nat list, unit fat_error) result)"
    using linked(1) by (auto simp: sound_chain_def)
  have "sound_chain content f' first (ds @ new)"
    unfolding sound_chain_def using chain_walk_append [OF d(1) [unfolded sound_chain_def] shape ok vals linked(2) walk, of "fa_cluster_count f" 0] chain_length [OF all] by (simp add: same)
  then show "dir_place content f' dir (ss @ chain_sectors f new) (ds @ new)" using first d(2) cs unfolding dir_place_def by simp
  have "blocks_at f ss \<inter> sectors_in f (set new) = {}"
    using dir_place_sectors(4) [OF place ok] apart all(2) by (fastforce simp: sectors_in_def sector_of_def)
  then have old: "place_bytes content f' ss = place_bytes content f ss" using dir_place_kept(2) [OF only clean ok place] by simp
  have "place_bytes content f' (chain_sectors f new) = replicate (length new * cluster_size f) 0"
    using place_bytes_chain [of content f' new] cs data by simp
  then show "place_bytes content f' (ss @ chain_sectors f new) = place_bytes content f ss @ replicate (length new * cluster_size f) 0"
    by (simp add: place_bytes_append old)
qed

lemma grow_dir_effect:
  assumes inv: "fat_inv content f" and clean: "fa_dirty f = None" and pos: "0 < fa_cluster_count f" and place: "dir_place content f dir ss ds"
    and img: "img = \<lparr>di_sectors = ss, di_bytes = place_bytes content f ss\<rparr>" and full: "free_run needed img = None" "0 < needed"
    and run: "grow_dir dev dir img needed f = (r, f')"
  shows "\<exists>new. set new \<subseteq> free_set content f \<and> changes_only content (set new \<union> set ds) (sectors_in f (set new)) f f' \<and>
    (\<forall>stop img'. r = Ok (stop, img') \<longrightarrow> fa_dirty f' = None \<and> dir_place content f' dir (ss @ chain_sectors f new) (ds @ new)
       \<and> img' = \<lparr>di_sectors = ss @ chain_sectors f new, di_bytes = place_bytes content f' (ss @ chain_sectors f new)\<rparr>
       \<and> (\<exists>zs. (\<forall>e \<in> set zs. e ! 0 = ENTRY_END) \<and> dir_slots (di_bytes img') = dir_slots (di_bytes img) @ zs
           \<and> stop = (case position (\<lambda>e. e ! 0 = ENTRY_END) (dir_slots (di_bytes img)) of Some k \<Rightarrow> k | None \<Rightarrow> length (dir_slots (di_bytes img)))
           \<and> needed \<le> length (dir_slots (di_bytes img)) - stop + length zs)) \<and>
    (device_error r \<or> (\<exists>x. r = Ok x) \<or> room_error content f dir needed r)"
proof (cases "dir_first f dir")
  case None
  then have "r = Err DirectoryFull" "f' = f" using run by (auto simp: grow_dir_def dir_first_def split: dir.splits root_dir.splits)
  then show ?thesis using changes_only_refl [OF inv] None by (intro exI [of _ "[]"]) (auto simp: room_error_def)
next
  case (Some first)
  let ?es = "dir_slots (di_bytes img)"
  have slots: "image_slots img = length ?es" by (simp add: image_slots_def)
  define stop where "stop = (case position (\<lambda>e. e ! 0 = ENTRY_END) ?es of Some k \<Rightarrow> k | None \<Rightarrow> length ?es)"
  define per clusters where "per = cluster_size f div DIR_ENTRY_SIZE" and "clusters = (needed - (length ?es - stop) + per - 1) div per"
  have ok: "vol_ok f" using inv by (simp add: fat_inv_def)
  have d: "sound_chain content f first ds" "ss = chain_sectors f ds" using place Some by (auto simp: dir_place_def)
  obtain q1 f1 where q1: "fat_chain dev first f = (q1, f1)" by fastforce
  note fc = fat_chain_walk [OF inv q1]
  have u1: "untouched content f f1" using same_volume_untouched [OF fc(1,2)] .
  have q1': "device_error q1 \<or> q1 = Ok ds" using fc(3) sound_walk [OF d(1)] by metis
  obtain q2 f2 where q2: "allocate dev clusters f1 = (q2, f2)" by fastforce
  have shape1: "same_shape f f1" using u1 by (simp add: untouched_def)
  have pos1: "0 < fa_cluster_count f1" using pos same_shape_fields [OF shape1] by simp
  note al = allocate_free [OF fc(2) q2 pos1]
  have u2: "untouched content f f2" using untouched_trans [OF u1 allocate_untouched [OF fc(2) q2 pos1]] .
  note v2 = untouched_values [OF u2] untouched_chains [OF u2]
  have shape2: "same_shape f f2" and inv2: "fat_inv content f2" using u2 by (auto simp: untouched_def)
  have size: "cluster_size f1 = cluster_size f" "cluster_size f2 = cluster_size f" using same_shape_views [OF shape1] same_shape_views [OF shape2] by simp_all
  define finish where "finish = (\<lambda>new (g :: 'd fat). (stop, \<lparr>di_sectors = di_sectors img @ chain_sectors g new,
      di_bytes = resize (length (di_sectors img @ chain_sectors g new) * BLOCK_SIZE) 0 (di_bytes img)\<rparr>))"
  have run': "(case q1 of Err e \<Rightarrow> (Err e, f1) | Ok ds' \<Rightarrow> (case q2 of Err e \<Rightarrow> (Err e, f2) | Ok new \<Rightarrow>
      fbind (extend_dir dev new (last ds') (replicate (clusters * cluster_size f1) 0)) (\<lambda>_ g. (Ok (finish new g), g)) f2)) = (r, f')"
    using run unfolding grow_dir_eq [OF Some] slots Let_def stop_def [symmetric]
    unfolding fbind_def [of "fat_chain dev first"] q1 prod.case size(1) per_def [symmetric] clusters_def [symmetric]
    by (simp add: fbind_def [of "allocate dev clusters"] q2 finish_def split: result.splits)
  show ?thesis
  proof (cases "q1 = Ok ds \<and> (\<exists>new. q2 = Ok new)")
    case False
    then have "(f' = f1 \<or> f' = f2) \<and> (\<forall>x. r \<noteq> Ok x)" using run' q1' by (auto split: result.splits)
    moreover have "device_error r \<or> room_error content f dir needed r"
    proof (cases "device_error q1 \<or> device_error q2")
      case True
      then show ?thesis using run' q1' by (auto split: result.splits)
    next
      case no_error: False
      then have "card (free_set content f1) < clusters" "r = Err NoSpace" using False al(4) q1' run' by (auto split: if_splits)
      moreover have "clusters \<le> needed" unfolding clusters_def using div_round_up_bound [of "needed - (length ?es - stop)" per] by linarith
      ultimately show ?thesis using untouched_values(4) [OF u1] by (simp add: room_error_def)
    qed
    ultimately show ?thesis using untouched_chains(3) [OF u1] v2 changes_only_mono [of content "{}" "{}" f f'] by (intro exI [of _ "[]"]) auto
  next
    case True
    then obtain new where new: "q1 = Ok ds" "q2 = Ok new" by blast
    have nf: "length new = clusters" "distinct new" "set new \<subseteq> free_set content f"
      using al(4) new(2) untouched_values(4) [OF u1] by (auto split: if_splits)
    have per: "0 < per" "cluster_size f = per * DIR_ENTRY_SIZE" using ok by (auto simp: per_def cluster_size_def vol_ok_def BLOCK_SIZE_def DIR_ENTRY_SIZE_def)
    have "length ?es - stop < needed"
    proof (cases "position (\<lambda>e. e ! 0 = ENTRY_END) ?es")
      case (Some k)
      then have "length ?es < stop + needed" using free_run_full [OF full(1) [unfolded free_run_def] Some] by (simp add: stop_def image_slots_def)
      then show ?thesis using full(2) by linarith
    qed (use full(2) in \<open>simp add: stop_def\<close>)
    then have some: "needed - (length ?es - stop) \<le> clusters * per" "0 < clusters"
      using div_round_up_le [OF per(1), of "needed - (length ?es - stop)"] per(1) unfolding clusters_def by (auto simp: div_greater_zero_iff)
    have ne: "new \<noteq> []" "ds \<noteq> []" using nf(1) some(2) sound_chain_hd(1) [OF d(1)] by auto
    have apart: "set ds \<inter> set new = {}" using free_not_sound [OF d(1) nf(3)] .
    have tail: "last ds \<in> set ds" "cluster_ok f (last ds)" using sound_chain_clusters [OF d(1)] ne(2) by simp_all
    obtain q3 f3 where q3: "extend_dir dev new (last ds) (replicate (length new * cluster_size f2) 0) f2 = (q3, f3)" by fastforce
    have free2: "set new \<subseteq> free_set content f2" "cluster_ok f2 (last ds)" "last ds \<notin> set new"
      using nf(3) v2(4) tail apart same_shape_views [OF shape2] by auto
    note ext = extend_effect [OF inv2 free2(1) nf(2) ne(1) free2(2,3) q3, unfolded v2(1,7) size(2) same_shape_fields [OF shape2]]
    have ex: "changes_only content (set new \<union> {last ds}) (sectors_in f (set new)) f f3" "device_error q3 \<or> q3 = Ok ()"
      "q3 = Ok () \<Longrightarrow> fa_dirty f3 = None \<and> sound_chain content f3 (hd new) new \<and> fat_value content f3 (last ds) = hd new
       \<and> (\<forall>n < fa_cluster_count f + 2. n \<notin> set new \<union> {last ds} \<longrightarrow> fat_value content f3 n = fat_value content f n)
       \<and> concat (map (cluster_data content f3) new) = replicate (length new * cluster_size f) 0"
      using ext untouched_changes [OF u2] by blast+
    have run3: "(case q3 of Err e \<Rightarrow> (Err e, f3) | Ok _ \<Rightarrow> (Ok (finish new f3), f3)) = (r, f')"
      using run' new q3 size nf(1) by (auto simp: fbind_def split: result.splits)
    then have f': "f' = f3" by (auto split: result.splits)
    have only: "changes_only content (set new \<union> set ds) (sectors_in f (set new)) f f'"
      unfolding f' using tail(1) by (intro changes_only_mono [OF ex(1)]) auto
    have "fa_dirty f3 = None \<and> dir_place content f3 dir (ss @ chain_sectors f new) (ds @ new)
       \<and> finish new f3 = (stop, \<lparr>di_sectors = ss @ chain_sectors f new, di_bytes = place_bytes content f3 (ss @ chain_sectors f new)\<rparr>)
       \<and> place_bytes content f3 (ss @ chain_sectors f new) = di_bytes img @ replicate (clusters * cluster_size f) 0" if q3': "q3 = Ok ()"
    proof -
      have e3: "fa_dirty f3 = None" "sound_chain content f3 (hd new) new" "fat_value content f3 (last ds) = hd new"
          "\<forall>n < fa_cluster_count f + 2. n \<notin> set new \<union> {last ds} \<longrightarrow> fat_value content f3 n = fat_value content f n"
          "concat (map (cluster_data content f3) new) = replicate (length new * cluster_size f) 0" using ex(3) [OF q3'] by blast+
      note ep = extended_place [OF place Some ok clean nf(3,2) ne(1) ex(1) e3(2-5)]
      have bytes3: "place_bytes content f3 (ss @ chain_sectors f new) = di_bytes img @ replicate (clusters * cluster_size f) 0" using ep(2) nf(1) by (simp add: img)
      have "length (place_bytes content f3 (ss @ chain_sectors f new)) = length (ss @ chain_sectors f new) * BLOCK_SIZE" by (rule length_place_bytes)
      then have len: "length (ss @ chain_sectors f new) * BLOCK_SIZE = length (di_bytes img) + clusters * cluster_size f"
        unfolding bytes3 length_append length_replicate by simp
      have "resize (length (ss @ chain_sectors f new) * BLOCK_SIZE) 0 (di_bytes img) = place_bytes content f3 (ss @ chain_sectors f new)"
        unfolding bytes3 len by (simp add: resize_def)
      moreover have "chain_sectors f3 = chain_sectors f" using same_shape_dir [OF changes_only_fields(1) [OF ex(1)]] by simp
      ultimately show ?thesis using e3(1) ep(1) bytes3 unfolding finish_def img by simp
    qed
    moreover have "dir_slots (di_bytes img @ replicate (clusters * cluster_size f) 0) = ?es @ dir_slots (replicate (clusters * cluster_size f) 0)"
      unfolding img by (intro dir_slots_append) (simp add: length_place_bytes BLOCK_SIZE_def DIR_ENTRY_SIZE_def dvd_mult)
    moreover have "length (dir_slots (replicate (clusters * cluster_size f) 0)) = clusters * per" using per by (simp add: DIR_ENTRY_SIZE_def)
    ultimately have "r = Ok (stop', img') \<longrightarrow> fa_dirty f' = None \<and> dir_place content f' dir (ss @ chain_sectors f new) (ds @ new)
       \<and> img' = \<lparr>di_sectors = ss @ chain_sectors f new, di_bytes = place_bytes content f' (ss @ chain_sectors f new)\<rparr>
       \<and> (\<exists>zs. (\<forall>e \<in> set zs. e ! 0 = ENTRY_END) \<and> dir_slots (di_bytes img') = dir_slots (di_bytes img) @ zs
           \<and> stop' = stop \<and> needed \<le> length (dir_slots (di_bytes img)) - stop' + length zs)" for stop' img'
      using run3 f' some(1) dir_slots_zeros by (intro impI conjI exI [of _ "dir_slots (replicate (clusters * cluster_size f) 0)"]) (auto split: result.splits)
    moreover have "device_error r \<or> (\<exists>x. r = Ok x)" using run3 ex(2) by (auto split: result.splits)
    ultimately show ?thesis using only nf(3) unfolding stop_def by blast
  qed
qed

end

subsection \<open>Adding an entry\<close>

definition dir_lists :: "('d \<Rightarrow> lba \<Rightarrow> block) \<Rightarrow> 'd fat \<Rightarrow> dir \<Rightarrow> nat list \<Rightarrow> nat list \<Rightarrow> located list \<Rightarrow> bool" where
  \<comment> \<open>a sound directory and what it lists\<close>
  "dir_lists content f dir ss ds listing \<longleftrightarrow> dir_place content f dir ss ds \<and> dir_sound (fa_type f) (dir_slots (place_bytes content f ss))
     \<and> parse_located (place_bytes content f ss) (fa_type f) = listing"

context block_device
begin

lemma store_listed:
  assumes inv: "fat_inv content f" and clean: "fa_dirty f = None" and place: "dir_place content f dir ss ds"
    and img: "di_sectors img = ss" "length (di_bytes img) = length (place_bytes content f ss)" "dir_sound (fa_type f) (dir_slots (di_bytes img))"
    and b: "b \<le> image_slots img" and run: "store_dir dev img a b f = (r, f')"
    and same: "\<forall>j < length (dir_slots (place_bytes content f ss)). \<not> (a \<le> j \<and> j < b) \<longrightarrow> dir_slots (di_bytes img) ! j = dir_slots (place_bytes content f ss) ! j"
  shows "changes_only content {} (blocks_at f ss) f f'" "device_error r \<or> r = Ok ()" "fa_dirty f' = None"
    "r = Ok () \<Longrightarrow> dir_lists content f' dir ss ds (parse_located (di_bytes img) (fa_type f))"
proof -
  have ok: "vol_ok f" using inv by (simp add: fat_inv_def)
  note pl = dir_place_sectors [OF place ok]
  have len: "length (di_bytes img) = length (di_sectors img) * BLOCK_SIZE" using img length_place_bytes [of f ss] by simp
  note st = store_dir_effect [OF inv run, unfolded img(1), OF pl(1,2) len [unfolded img(1)] b same]
  show only: "changes_only content {} (blocks_at f ss) f f'" and "device_error r \<or> r = Ok ()" by (rule st)+
  show "fa_dirty f' = None" by (subst st(3)) (simp add: clean)
  have "dir_place content f' dir ss ds" using dir_place_kept(1) [OF only clean ok place] by simp
  moreover have "fa_type f' = fa_type f" by (subst st(3)) simp
  ultimately show "dir_lists content f' dir ss ds (parse_located (di_bytes img) (fa_type f))" if "r = Ok ()"
    using st(4) [OF that] img(3) by (simp add: dir_lists_def)
qed

lemma put_stored:
  assumes inv: "fat_inv content f" and clean: "fa_dirty f = None" and place: "dir_place content f dir ss ds"
    and img: "img = \<lparr>di_sectors = ss, di_bytes = place_bytes content f ss\<rparr>" and sound: "dir_sound (fa_type f) (dir_slots (di_bytes img))"
    and free: "free_at (dir_slots (di_bytes img)) at (length entries) m"
    and name: "check_name name = (Ok () :: (unit, 'e fat_error) result)" "plain_name name"
    and made: "new_entries f0 img0 name attr cluster len = Some entries" "attr \<in> {ATTR_ARCHIVE, ATTR_DIRECTORY}"
    and small: "len < 2 ^ 32" "cluster < (if fa_type f = Fat32 then 2 ^ 32 else 2 ^ 16)"
    and run: "store_dir dev (put_entries at entries img) at (at + length entries) f = (r, f')"
  shows "changes_only content {} (blocks_at f ss) f f'" "fa_dirty f' = None" "device_error r \<or> r = Ok ()"
    "\<exists>before after. parse_located (di_bytes img) (fa_type f) = before @ after \<and> (r = Ok () \<longrightarrow> dir_lists content f' dir ss ds
       (before @ \<lparr>lo_entry = entry_made f0 (fa_type f) name attr cluster len, lo_start = at, lo_end = at + length entries\<rparr> # after))"
proof -
  note put = put_listed [OF name made small sound free]
  have e32: "\<forall>e \<in> set entries. length e = DIR_ENTRY_SIZE"
    using new_entries_listed(4) [OF name made small reset_name_simps(2)] by (simp add: DIR_ENTRY_SIZE_def)
  have fit: "at + length entries \<le> length (di_bytes img) div DIR_ENTRY_SIZE" using free by (simp add: free_at_def)
  have slots: "dir_slots (di_bytes (put_entries at entries img)) = take at (dir_slots (di_bytes img)) @ entries @ drop (at + length entries) (dir_slots (di_bytes img))"
    using put_slots [OF fit e32] by blast
  have "dir_slots (di_bytes (put_entries at entries img)) ! j = dir_slots (place_bytes content f ss) ! j"
    if "j < length (dir_slots (place_bytes content f ss))" "\<not> (at \<le> j \<and> j < at + length entries)" for j
    using that fit unfolding slots by (cases "j < at") (auto simp: img nth_append)
  then have same: "\<forall>j < length (dir_slots (place_bytes content f ss)). \<not> (at \<le> j \<and> j < at + length entries) \<longrightarrow>
      dir_slots (di_bytes (put_entries at entries img)) ! j = dir_slots (place_bytes content f ss) ! j" by blast
  have b: "at + length entries \<le> image_slots (put_entries at entries img)" using fit put(3) by (simp add: image_slots_def)
  have ss: "di_sectors (put_entries at entries img) = ss" "length (di_bytes (put_entries at entries img)) = length (place_bytes content f ss)"
    using put(3,4) by (simp_all add: img)
  note st = store_listed [OF inv clean place ss put(2) b run same]
  show "changes_only content {} (blocks_at f ss) f f'" "fa_dirty f' = None" "device_error r \<or> r = Ok ()" by (rule st)+
  show "\<exists>before after. parse_located (di_bytes img) (fa_type f) = before @ after \<and> (r = Ok () \<longrightarrow> dir_lists content f' dir ss ds
       (before @ \<lparr>lo_entry = entry_made f0 (fa_type f) name attr cluster len, lo_start = at, lo_end = at + length entries\<rparr> # after))"
    using put(1) st(4) by metis
qed

end

end
