(* ===== verification/Fat_Ops.thy ===== *)
theory Fat_Ops
  imports Fat_Add
begin

text \<open>
  Whole operations, \<open>write_file\<close>, \<open>create_dir\<close> and \<open>remove\<close>, on volumes whose directory at hand is sound:
  what they leave in the directory, and that every other chain is left whole.
\<close>

subsection \<open>Volumes and outcomes\<close>

definition volume_ok :: "('d \<Rightarrow> lba \<Rightarrow> block) \<Rightarrow> 'd fat \<Rightarrow> bool" where
  \<comment> \<open>nothing is pending, there are clusters, and FSInfo is in the reserved area\<close>
  "volume_ok content f \<longleftrightarrow> fat_inv content f \<and> fa_dirty f = None \<and> 0 < fa_cluster_count f \<and> (\<forall>s. fa_fsinfo f = Some s \<longrightarrow> s < fa_fat_start f)"

definition fsinfo_blocks :: "'d fat \<Rightarrow> lba set" where
  "fsinfo_blocks f = {fa_start f + s |s. fa_fsinfo f = Some s}"

lemma fsinfo_outside:
  assumes "volume_ok content f" "l \<in> fsinfo_blocks f"
  shows "\<not> in_fats f l" "l < fa_start f + fa_fat_start f"
  using assms by (auto simp: volume_ok_def fsinfo_blocks_def in_fats_def)

lemma fsinfo_not_place:
  assumes "volume_ok content f" "dir_place content f dir ss ds"
  shows "blocks_at f ss \<inter> fsinfo_blocks f = {}"
proof -
  have ok: "vol_ok f" using assms(1) by (simp add: volume_ok_def fat_inv_def)
  have "fa_start f + fa_fat_start f \<le> l" if "l \<in> blocks_at f ss" for l
  proof (cases "dir_first f dir")
    case None
    then show ?thesis using that assms(2) by (auto simp: dir_place_def blocks_at_def)
  next
    case (Some c)
    then have "l \<in> sectors_in f (set ds)" using that assms(2) by (simp add: dir_place_def blocks_at_chain)
    then show ?thesis using ok by (auto simp: sectors_in_def sector_of_def first_sector_def vol_ok_def)
  qed
  then show ?thesis using fsinfo_outside(2) [OF assms(1)] by fastforce
qed

lemma fsinfo_not_cluster:
  assumes "volume_ok content f"
  shows "fa_start f + (first_sector f c + k) \<notin> fsinfo_blocks f"
proof
  assume "fa_start f + (first_sector f c + k) \<in> fsinfo_blocks f"
  then have "first_sector f c + k < fa_fat_start f" using fsinfo_outside(2) [OF assms] by fastforce
  then show False using assms by (auto simp: volume_ok_def fat_inv_def vol_ok_def first_sector_def)
qed

lemma new_entries_length:
  assumes "check_name name = (Ok () :: (unit, 'e fat_error) result)" "plain_name name" "new_entries f img name attr cluster len = Some entries"
  shows "length entries \<le> 21"
proof -
  note ck = check_nameD [OF assms(1)]
  obtain pieces units where lu: "long_units name = (pieces, units)" by fastforce
  have "\<forall>c \<in> set name. is_scalar c \<and> c \<noteq> 0 \<and> c \<noteq> 0xFFFF" using assms(2) ck(5) by (force simp: plain_name_def)
  from long_units_shape(2) [OF lu ck(1,2) this] have "length (long_entries name short) \<le> 20" for short by (simp add: long_entries_def lu del: upt_Suc)
  then show ?thesis using assms(3) by (auto simp: new_entries_def split: option.splits)
qed

context block_device
begin

lemma finish_change_effect:
  assumes inv: "fat_inv content f" and fs: "\<forall>s. fa_fsinfo f = Some s \<longrightarrow> s < fa_fat_start f" and run: "finish_change dev outcome f = (r, f')"
  shows "changes_only content {} (fsinfo_blocks f) f f'" "device_error r \<or> r = outcome" "fa_dirty f' = fa_dirty f"
proof -
  have "changes_only content {} (fsinfo_blocks f) f f' \<and> (device_error r \<or> r = outcome) \<and> fa_dirty f' = fa_dirty f"
  proof (cases "\<exists>s n. fa_fsinfo f = Some s \<and> fa_free_count f = Some n")
    case False
    then have "r = outcome" "f' = f" using run by (auto simp: finish_change_def split: option.splits)
    then show ?thesis using changes_only_refl [OF inv] by simp
  next
    case True
    then obtain s n where s: "fa_fsinfo f = Some s" "fa_free_count f = Some n" by blast
    obtain q1 d1 where q1: "dv_read dev (fa_start f + s) (fa_device f) = (q1, d1)" by fastforce
    have d1: "content d1 = content (fa_device f)" "\<And>b. q1 = Ok b \<Longrightarrow> length b = BLOCK_SIZE" using read1 [OF q1] block_length by auto
    define g where "g = f\<lparr>fa_device := d1\<rparr>"
    have u: "untouched content f g" using device_same [OF inv d1(1)] same_volume_untouched unfolding g_def by blast
    then have still: "changes_only content {} (fsinfo_blocks f) f g" using changes_only_mono [OF untouched_chains(3) [OF u]] by simp
    show ?thesis
    proof (cases "\<exists>b. q1 = Ok b \<and> fu32 b 0 = FSINFO_LEAD \<and> fu32 b 484 = FSINFO_STRUCT")
      case False
      then have "f' = g" "device_error r \<or> r = outcome"
        using run s q1 by (auto simp: finish_change_def fbind_def on_device_def lba_offset_def g_def split: result.splits if_splits)
      then show ?thesis using still by (simp add: g_def)
    next
      case True
      then obtain b where b: "q1 = Ok b" "fu32 b 0 = FSINFO_LEAD \<and> fu32 b 484 = FSINFO_STRUCT" by blast
      define b' where "b' = overwrite 492 (to_le 4 (of_nat (fa_next_free f) :: u32)) (overwrite 488 (to_le 4 n) b)"
      have len: "length b' = BLOCK_SIZE" using d1(2) [OF b(1)] by (simp add: b'_def length_overwrite BLOCK_SIZE_def)
      obtain q2 d2 where q2: "dv_write dev (fa_start f + s) b' d1 = (q2, d2)" by fastforce
      note w = write1 [OF len q2]
      have f': "f' = g\<lparr>fa_device := d2\<rparr>" and r: "device_error r \<or> r = outcome"
        using run s q1 b q2 by (auto simp: finish_change_def fbind_def on_device_def lba_offset_def g_def b'_def split: result.splits)
      have fsg: "fsinfo_blocks f = {fa_start g + s}" using s by (simp add: fsinfo_blocks_def g_def)
      have "changes_only content {} (fsinfo_blocks f) g f'"
      proof (rule device_change_only(1))
        show "fat_inv content g" using u by (simp add: untouched_def)
        show "\<forall>l. l \<notin> fsinfo_blocks f \<longrightarrow> content (fa_device f') l = content (fa_device g) l" using w by (simp add: f' fsg g_def)
        show "\<forall>l \<in> fsinfo_blocks f. \<not> in_fats g l" using fs s by (auto simp: fsg g_def in_fats_def)
      qed (simp add: f')
      then show ?thesis using untouched_changes [OF u] r by (simp add: f' g_def)
    qed
  qed
  then show "changes_only content {} (fsinfo_blocks f) f f'" "device_error r \<or> r = outcome" "fa_dirty f' = fa_dirty f" by blast+
qed

lemma add_entry_effect:
  assumes inv: "fat_inv content f" and clean: "fa_dirty f = None" and pos: "0 < fa_cluster_count f" and lists: "dir_lists content f dir ss ds listing"
    and img: "img = \<lparr>di_sectors = ss, di_bytes = place_bytes content f ss\<rparr>"
    and name: "check_name name = (Ok () :: (unit, 'e fat_error) result)" "plain_name name" and attr: "attr \<in> {ATTR_ARCHIVE, ATTR_DIRECTORY}"
    and small: "len < 2 ^ 32" "cluster < (if fa_type f = Fat32 then 2 ^ 32 else 2 ^ 16)"
    and run: "add_entry dev dir img name attr cluster len f = Some (r, f')"
  shows "\<exists>new. set new \<subseteq> free_set content f \<and> changes_only content (set new \<union> set ds) (sectors_in f (set new) \<union> blocks_at f ss) f f' \<and>
    (r = Ok () \<longrightarrow> fa_dirty f' = None \<and> (\<exists>before after at stop. listing = before @ after \<and> dir_lists content f' dir (ss @ chain_sectors f new) (ds @ new)
       (before @ \<lparr>lo_entry = entry_made f (fa_type f) name attr cluster len, lo_start = at, lo_end = stop\<rparr> # after)))
    \<and> (device_error r \<or> r = Ok () \<or> room_error content f dir 21 r)"
proof -
  have place: "dir_place content f dir ss ds" and sound: "dir_sound (fa_type f) (dir_slots (di_bytes img))" and parsed: "parse_located (di_bytes img) (fa_type f) = listing"
    using lists by (auto simp: dir_lists_def img)
  obtain entries where made: "new_entries f img name attr cluster len = Some entries" using run by (auto simp: add_entry_def split: option.splits)
  have ne: "entries \<noteq> []" using new_entries_listed(3) [OF name made attr small reset_name_simps(2)] .
  show ?thesis
  proof (cases "free_run (length entries) img")
    case (Some at)
    then obtain m where free: "free_at (dir_slots (di_bytes img)) at (length entries) m" using free_run_at ne by blast
    have st: "store_dir dev (put_entries at entries img) at (at + length entries) f = (r, f')"
      using run made Some by (simp add: add_entry_def fbind_def)
    note p = put_stored [OF inv clean place img sound free name made attr small st]
    have "changes_only content (set ds) (blocks_at f ss) f f'" using changes_only_mono [OF p(1)] by simp
    moreover have "r = Ok () \<longrightarrow> fa_dirty f' = None \<and> (\<exists>before after at stop. listing = before @ after \<and> dir_lists content f' dir ss ds
       (before @ \<lparr>lo_entry = entry_made f (fa_type f) name attr cluster len, lo_start = at, lo_end = stop\<rparr> # after))"
      using p(2,4) unfolding parsed by blast
    ultimately show ?thesis using p(3) by (intro exI [of _ "[]"]) (auto simp: chain_sectors_def)
  next
    case None
    obtain q1 f1 where q1: "grow_dir dev dir img (length entries) f = (q1, f1)" by fastforce
    have ne': "0 < length entries" using ne by simp
    from grow_dir_effect [OF inv clean pos place img None ne' q1]
    obtain new where new: "set new \<subseteq> free_set content f" "changes_only content (set new \<union> set ds) (sectors_in f (set new)) f f1"
      and grown: "\<forall>stop img'. q1 = Ok (stop, img') \<longrightarrow> fa_dirty f1 = None \<and> dir_place content f1 dir (ss @ chain_sectors f new) (ds @ new)
         \<and> img' = \<lparr>di_sectors = ss @ chain_sectors f new, di_bytes = place_bytes content f1 (ss @ chain_sectors f new)\<rparr>
         \<and> (\<exists>zs. (\<forall>e \<in> set zs. e ! 0 = ENTRY_END) \<and> dir_slots (di_bytes img') = dir_slots (di_bytes img) @ zs
             \<and> stop = (case position (\<lambda>e. e ! 0 = ENTRY_END) (dir_slots (di_bytes img)) of Some k \<Rightarrow> k | None \<Rightarrow> length (dir_slots (di_bytes img)))
             \<and> length entries \<le> length (dir_slots (di_bytes img)) - stop + length zs)"
      and fails: "device_error q1 \<or> (\<exists>x. q1 = Ok x) \<or> room_error content f dir (length entries) q1"
      by blast
    show ?thesis
    proof (cases q1)
      case (Err e)
      then have "r = Err e" "f' = f1" using run made None q1 by (auto simp: add_entry_def fbind_def)
      moreover have "device_error r \<or> room_error content f dir 21 r"
        using fails Err \<open>r = Err e\<close> room_error_mono [OF _ new_entries_length [OF name made]] by (auto simp: room_error_def)
      ultimately show ?thesis using new changes_only_mono [OF new(2)] by (intro exI [of _ new]) auto
    next
      case (Ok p)
      obtain stop img' where p: "p = (stop, img')" by fastforce
      have g: "fa_dirty f1 = None" "dir_place content f1 dir (ss @ chain_sectors f new) (ds @ new)"
          "img' = \<lparr>di_sectors = ss @ chain_sectors f new, di_bytes = place_bytes content f1 (ss @ chain_sectors f new)\<rparr>"
        and "\<exists>zs. (\<forall>e \<in> set zs. e ! 0 = ENTRY_END) \<and> dir_slots (di_bytes img') = dir_slots (di_bytes img) @ zs
             \<and> stop = (case position (\<lambda>e. e ! 0 = ENTRY_END) (dir_slots (di_bytes img)) of Some k \<Rightarrow> k | None \<Rightarrow> length (dir_slots (di_bytes img)))
             \<and> length entries \<le> length (dir_slots (di_bytes img)) - stop + length zs"
        using grown [rule_format, of stop img'] Ok p by blast+
      then obtain zs where zs: "\<forall>e \<in> set zs. e ! 0 = ENTRY_END" "dir_slots (di_bytes img') = dir_slots (di_bytes img) @ zs"
          "stop = (case position (\<lambda>e. e ! 0 = ENTRY_END) (dir_slots (di_bytes img)) of Some k \<Rightarrow> k | None \<Rightarrow> length (dir_slots (di_bytes img)))"
          "length entries \<le> length (dir_slots (di_bytes img)) - stop + length zs" by blast
      have inv1: "fat_inv content f1" and shape: "same_shape f f1" using changes_only_fields [OF new(2)] by auto
      note same = same_shape_fields [OF shape] same_shape_dir [OF shape]
      have sound1: "dir_sound (fa_type f1) (dir_slots (di_bytes img'))" "parse_located (di_bytes img') (fa_type f1) = listing"
        using grown_sound [OF sound zs(1)] parsed by (simp_all add: zs(2) same parse_located_def)
      have free: "free_at (dir_slots (di_bytes img')) stop (length entries) 0"
        unfolding zs(2) using grown_free [OF sound zs(1) _ zs(3,4)] ne by simp
      have st: "store_dir dev (put_entries stop entries img') stop (stop + length entries) f1 = (r, f')"
        using run made None q1 Ok p by (simp add: add_entry_def fbind_def)
      have small1: "cluster < (if fa_type f1 = Fat32 then 2 ^ 32 else 2 ^ 16)" using small(2) by (simp add: same)
      note ps = put_stored [OF inv1 g(1,2,3) sound1(1) free name made attr small(1) small1 st]
      have "blocks_at f1 (ss @ chain_sectors f new) = blocks_at f ss \<union> sectors_in f (set new)"
        using blocks_at_chain [of f new] by (auto simp: same blocks_at_def)
      then have "changes_only content (set new \<union> set ds) (sectors_in f (set new) \<union> blocks_at f ss) f f'"
        using changes_only_mono [OF changes_only_trans [OF new(2) ps(1)]] by simp
      moreover obtain before after where "listing = before @ after" "r = Ok () \<longrightarrow> dir_lists content f' dir (ss @ chain_sectors f new) (ds @ new)
         (before @ \<lparr>lo_entry = entry_made f (fa_type f) name attr cluster len, lo_start = stop, lo_end = stop + length entries\<rparr> # after)"
        using ps(4) unfolding same(2) sound1(2) [unfolded same(2)] by (elim exE conjE)
      ultimately show ?thesis using new(1) ps(2,3) by (intro exI [of _ new]) blast
    qed
  qed
qed

end

end
