(* ===== verification/Fat_Whole.thy ===== *)
theory Fat_Whole
  imports Fat_Ops
begin

text \<open>
  \<open>write_file\<close> and \<open>remove\<close>, from the directory they found to FSInfo.
\<close>

subsection \<open>Files and what they hold\<close>

definition file_chain :: "('d \<Rightarrow> lba \<Rightarrow> block) \<Rightarrow> 'd fat \<Rightarrow> nat \<Rightarrow> nat list \<Rightarrow> bool" where
  \<comment> \<open>the clusters of a file, none when it is empty\<close>
  "file_chain content f first cs \<longleftrightarrow> (if first = 0 then cs = [] else sound_chain content f first cs)"

definition file_holds :: "('d \<Rightarrow> lba \<Rightarrow> block) \<Rightarrow> 'd fat \<Rightarrow> nat \<Rightarrow> nat list \<Rightarrow> byte list \<Rightarrow> bool" where
  "file_holds content f first cs data \<longleftrightarrow> file_chain content f first cs
     \<and> chain_contents content f first (Some (length data)) = (Ok data :: (byte list, unit fat_error) result)"

definition cleared :: "'d fat \<Rightarrow> lba set \<Rightarrow> nat list \<Rightarrow> bool" where
  \<comment> \<open>no block of the clusters is in \<open>D\<close>\<close>
  "cleared f D cs \<longleftrightarrow> (\<forall>c \<in> set cs. \<forall>k < fa_spc f. fa_start f + (first_sector f c + k) \<notin> D)"

lemma sound_not_zero: "sound_chain content f first cs \<Longrightarrow> first \<noteq> 0"
  using sound_chain_clusters [of content f first cs first] sound_chain_hd [of content f first cs] cluster_okD by fastforce

lemma file_chain_sound: "sound_chain content f first cs \<Longrightarrow> file_chain content f first cs"
  using sound_not_zero [of content f first cs] by (simp add: file_chain_def)

lemma file_chain_clusters: "file_chain content f first cs \<Longrightarrow> c \<in> set cs \<Longrightarrow> cluster_ok f c"
  using sound_chain_clusters by (fastforce simp: file_chain_def split: if_splits)

lemma file_chain_free: "file_chain content f first cs \<Longrightarrow> A \<subseteq> free_set content f \<Longrightarrow> set cs \<inter> A = {}"
  using free_not_sound by (fastforce simp: file_chain_def split: if_splits)

lemma file_chain_of: "file_chain content f first cs \<Longrightarrow> chain_of content f first = (Ok cs :: (nat list, 'x fat_error) result)"
  using sound_walk by (auto simp: file_chain_def chain_of_def split: if_splits)

lemma chain_contents_type:
  assumes "file_holds content f first cs data"
  shows "chain_contents content f first (Some (length data)) = (Ok data :: (byte list, 'x fat_error) result)"
proof (cases "first = 0")
  case True
  have "data = []"
  proof (rule ccontr)
    assume "data \<noteq> []"
    then show False using assms True by (auto simp: file_holds_def chain_contents_def chain_walk.simps covered_def cluster_ok_def)
  qed
  then show ?thesis by (simp add: chain_contents_def)
next
  case False
  then have "sound_chain content f first cs" using assms by (simp add: file_holds_def file_chain_def)
  note s = sound_chain_contents [OF this, of "Some (length data)"]
  show ?thesis using assms unfolding file_holds_def s by (auto simp: Let_def split: if_splits)
qed

lemma chain_kept:
  assumes only: "changes_only content A D f f'" and clean: "fa_dirty f = None" and ok: "vol_ok f" and apart: "set cs \<inter> A = {}" "cleared f D cs"
  shows "sound_chain content f first cs \<Longrightarrow> sound_chain content f' first cs \<and> sound_chain content (remounted f') first cs \<and> (\<forall>c \<in> set cs. cluster_data content f' c = cluster_data content f c)"
    "file_chain content f first cs \<Longrightarrow> file_chain content f' first cs"
    "file_holds content f first cs data \<Longrightarrow> file_holds content f' first cs data"
proof -
  have clr: "\<And>c k. c \<in> set cs \<Longrightarrow> k < fa_spc f \<Longrightarrow> fa_start f + (first_sector f c + k) \<notin> D" using apart(2) by (simp add: cleared_def)
  show sound: "sound_chain content f' first cs \<and> sound_chain content (remounted f') first cs \<and> (\<forall>c \<in> set cs. cluster_data content f' c = cluster_data content f c)"
    if "sound_chain content f first cs" for first
    using changes_only_chain [OF only clean ok that apart(1) clr] .
  then show fc: "file_chain content f' first cs" if "file_chain content f first cs" for first using that by (auto simp: file_chain_def)
  show "file_holds content f' first cs data" if h: "file_holds content f first cs data"
  proof (cases "first = 0")
    case True
    then show ?thesis using h fc by (simp add: file_holds_def chain_contents_def chain_walk.simps covered_def cluster_ok_def split: if_splits)
  next
    case False
    then have s: "sound_chain content f first cs" using h by (simp add: file_holds_def file_chain_def)
    have sub: "set (cut limit cb got cs) \<subseteq> set cs" for limit cb got by (induction cs arbitrary: got) auto
    have "map (cluster_data content f') (cut limit cb got cs) = map (cluster_data content f) (cut limit cb got cs)" for limit cb got
      using sound [OF s] subsetD [OF sub] by (auto simp: map_eq_conv)
    then have "chain_contents content f' first limit = (chain_contents content f first limit :: (byte list, unit fat_error) result)" for limit
      unfolding sound_chain_contents [OF s] sound_chain_contents [OF conjunct1 [OF sound [OF s]]] by (simp only: same_shape_views [OF changes_only_fields(1) [OF only]])
    then show ?thesis using h fc by (simp add: file_holds_def)
  qed
qed

lemma cleared_Un [simp]: "cleared f (D \<union> E) cs \<longleftrightarrow> cleared f D cs \<and> cleared f E cs"
  by (auto simp: cleared_def)

lemma cleared_empty [simp]: "cleared f {} cs"
  by (simp add: cleared_def)

lemma cleared_sectors:
  assumes "\<forall>c \<in> set cs. cluster_ok f c" "\<forall>c \<in> A. 2 \<le> c" "set cs \<inter> A = {}"
  shows "cleared f (sectors_in f A) cs"
  unfolding cleared_def
proof (intro ballI allI impI notI)
  fix c k assume c: "c \<in> set cs" "k < fa_spc f" "fa_start f + (first_sector f c + k) \<in> sectors_in f A"
  then obtain c' k' where "c' \<in> A" "k' < fa_spc f" "first_sector f c + k = first_sector f c' + k'" by (auto simp: sectors_in_def sector_of_def)
  moreover have "2 \<le> c" "2 \<le> c'" using assms(1,2) c(1) calculation cluster_okD(1) by auto
  ultimately show False using cluster_sector_unique [of c c' k f k'] c(1,2) assms(3) by auto
qed

lemma cleared_place:
  assumes "dir_place content f dir ss ds" "vol_ok f" "\<forall>c \<in> set cs. cluster_ok f c" "set cs \<inter> set ds = {}"
  shows "cleared f (blocks_at f ss) cs"
  unfolding cleared_def using dir_place_sectors(4) [OF assms(1,2)] assms(3,4) by blast

lemma cleared_fsinfo: "volume_ok content f \<Longrightarrow> cleared f (fsinfo_blocks f) cs"
  unfolding cleared_def using fsinfo_not_cluster by blast

lemma same_shape_cleared: "same_shape f f' \<Longrightarrow> cleared f' = cleared f"
  unfolding cleared_def [abs_def] by (simp only: same_shape_fields same_shape_views)

lemma free_set_ge: "\<forall>c \<in> free_set content f. 2 \<le> c" "c \<in> free_set content f \<Longrightarrow> cluster_ok f c"
  by (auto simp: free_set_def cluster_ok_def)

lemma sectors_in_mono: "A \<subseteq> B \<Longrightarrow> sectors_in f A \<subseteq> sectors_in f B"
  unfolding sectors_in_def sector_of_def by blast

lemma dir_lists_kept:
  assumes "changes_only content A D f f'" "fa_dirty f = None" "vol_ok f" "dir_lists content f dir ss ds listing" "set ds \<inter> A = {}" "blocks_at f ss \<inter> D = {}"
  shows "dir_lists content f' dir ss ds listing"
proof -
  have place: "dir_place content f dir ss ds" using assms(4) by (simp add: dir_lists_def)
  show ?thesis
    using assms(4) dir_place_kept(1,2) [OF assms(1-3) place] assms(5,6) same_shape_fields(2) [OF changes_only_fields(1) [OF assms(1)]] by (simp add: dir_lists_def)
qed

lemma untouched_lists: "untouched content f f' \<Longrightarrow> dir_lists content f' = dir_lists content f"
  using untouched_chains [of content f f'] untouched_values [of content f f'] same_shape_fields(2) [of f f'] unfolding dir_lists_def [abs_def] by (simp add: untouched_def)

context block_device
begin

lemma write_chain_holds:
  assumes inv: "fat_inv content f" and clean: "fa_dirty f = None" and pos: "0 < fa_cluster_count f" and run: "write_chain dev data f = (r, f')"
  shows "\<exists>cs. set cs \<subseteq> free_set content f \<and> changes_only content (set cs) (sectors_in f (set cs)) f f'
    \<and> (\<forall>first. r = Ok first \<longrightarrow> fa_dirty f' = None \<and> file_holds content f' first cs data \<and> length cs = clusters_needed f (length data))
    \<and> (device_error r \<or> (\<exists>first. r = Ok first) \<or> (r = Err NoSpace \<and> card (free_set content f) < clusters_needed f (length data)))"
proof (cases "data = []")
  case True
  then have "r = Ok 0" "f' = f" using run by (auto simp: write_chain_def)
  moreover have "clusters_needed f 0 = 0" by (cases "cluster_size f") (simp_all add: clusters_needed_def)
  ultimately show ?thesis using True clean changes_only_refl [OF inv] by (intro exI [of _ "[]"]) (auto simp: file_holds_def file_chain_def chain_contents_def)
next
  case False
  then obtain cs where st: "chain_stored content f data r f' cs" using write_chain_effect [OF inv clean pos run] by blast
  have "fa_dirty f' = None \<and> file_holds content f' first cs data \<and> length cs = clusters_needed f (length data)" if "r = Ok first" for first
  proof -
    have s: "first = hd cs \<and> length cs = clusters_needed f (length data)" "fa_dirty f' = None" "sound_chain content f' (hd cs) cs" "chain_contents content f' (hd cs) (Some (length data)) = (Ok data :: (byte list, 'e fat_error) result)"
      using st that unfolding chain_stored_def by (auto split: if_splits)
    have "chain_contents content f' (hd cs) (Some (length data)) = (Ok data :: (byte list, unit fat_error) result)"
      using s(4) unfolding sound_chain_contents [OF s(3)] by (auto simp: Let_def split: if_splits)
    then show ?thesis using s file_chain_sound by (simp add: file_holds_def)
  qed
  moreover have "device_error r \<or> (\<exists>first. r = Ok first) \<or> (r = Err NoSpace \<and> card (free_set content f) < clusters_needed f (length data))"
    using st unfolding chain_stored_def by (auto split: if_splits)
  ultimately show ?thesis using st unfolding chain_stored_def by blast
qed

lemma free_chain_of:
  assumes inv: "fat_inv content f" and chain: "file_chain content f first cs" and run: "free_chain dev first f = (r, f')"
  shows "changes_only content (set cs) {} f f'" "device_error r \<or> r = Ok ()" "r = Ok () \<Longrightarrow> fa_dirty f' = None"
proof -
  obtain cs' where e: "cs' = [] \<or> chain_of content f first = (Ok cs' :: (nat list, 'e fat_error) result)" "changes_only content (set cs') {} f f'"
      "device_error r \<or> (case chain_of content f first :: (nat list, 'e fat_error) result of Err e \<Rightarrow> r = Err e
        | Ok cs'' \<Rightarrow> r = Ok () \<and> cs' = cs'' \<and> fa_dirty f' = None
          \<and> (\<forall>n < fa_cluster_count f + 2. fat_value content f' n = (if n \<in> set cs' then 0 else fat_value content f n)))"
    using free_chain_effect [OF inv run] by blast
  note co = file_chain_of [OF chain]
  show "changes_only content (set cs) {} f f'" using e(1) changes_only_mono [OF e(2)] unfolding co by auto
  show "device_error r \<or> r = Ok ()" "r = Ok () \<Longrightarrow> fa_dirty f' = None" using e(3) unfolding co by auto
qed

subsection \<open>Changing the directory, then letting a chain go\<close>

lemma store_then_free:
  assumes inv: "fat_inv content f" and clean: "fa_dirty f = None" and place: "dir_place content f dir ss ds"
    and img: "di_sectors img = ss" "length (di_bytes img) = length (place_bytes content f ss)" "dir_sound (fa_type f) (dir_slots (di_bytes img))"
    and b: "b \<le> image_slots img"
    and same: "\<forall>j < length (dir_slots (place_bytes content f ss)). \<not> (a \<le> j \<and> j < b) \<longrightarrow> dir_slots (di_bytes img) ! j = dir_slots (place_bytes content f ss) ! j"
    and old: "file_chain content f first os" "set os \<inter> set ds = {}"
    and run: "fbind (store_dir dev img a b) (\<lambda>_. free_chain dev first) f = (r, f')"
  shows "changes_only content (set os) (blocks_at f ss) f f'" "device_error r \<or> r = Ok ()"
    "r = Ok () \<Longrightarrow> fa_dirty f' = None \<and> dir_lists content f' dir ss ds (parse_located (di_bytes img) (fa_type f))"
proof -
  have ok: "vol_ok f" using inv by (simp add: fat_inv_def)
  obtain q1 f1 where q1: "store_dir dev img a b f = (q1, f1)" by fastforce
  note st = store_listed [OF inv clean place img b q1 same]
  have "\<forall>c \<in> set os. cluster_ok f c" using file_chain_clusters [OF old(1)] by blast
  then have old1: "file_chain content f1 first os" using chain_kept(2) [OF st(1) clean ok _ cleared_place [OF place ok _ old(2)] old(1)] by simp
  have inv1: "fat_inv content f1" using changes_only_fields(2) [OF st(1)] .
  have ok1: "vol_ok f1" using inv1 by (simp add: fat_inv_def)
  obtain q2 f2 where q2: "free_chain dev first f1 = (q2, f2)" by fastforce
  note fc = free_chain_of [OF inv1 old1 q2]
  have run': "(case q1 of Err e \<Rightarrow> (Err e, f1) | Ok _ \<Rightarrow> (q2, f2)) = (r, f')" using run q1 q2 by (auto simp: fbind_def split: result.splits)
  have both: "changes_only content (set os) (blocks_at f ss) f f2" using changes_only_trans [OF st(1) fc(1)] by simp
  show "changes_only content (set os) (blocks_at f ss) f f'" using run' both changes_only_mono [OF st(1)] by (auto split: result.splits)
  show "device_error r \<or> r = Ok ()" using run' st(2) fc(2) by (auto split: result.splits)
  show "fa_dirty f' = None \<and> dir_lists content f' dir ss ds (parse_located (di_bytes img) (fa_type f))" if "r = Ok ()"
  proof -
    have q: "q1 = Ok ()" "q2 = Ok ()" "f' = f2" using run' that st(2) by (auto split: result.splits)
    have "dir_lists content f2 dir ss ds (parse_located (di_bytes img) (fa_type f))"
      using old(2) by (intro dir_lists_kept [OF fc(1) st(3) ok1 st(4) [OF q(1)]]) auto
    then show ?thesis using fc(3) [OF q(2)] q(3) by simp
  qed
qed

lemma replace_effect:
  assumes inv: "fat_inv content f" and clean: "fa_dirty f = None" and lists: "dir_lists content f dir ss ds (before @ found # after)"
    and img: "img = \<lparr>di_sectors = ss, di_bytes = place_bytes content f ss\<rparr>" and isfile: "de_kind (lo_entry found) = File"
    and small: "len < 2 ^ 32" "first < (if fa_type f = Fat32 then 2 ^ 32 else 2 ^ 16)"
    and old: "file_chain content f (de_cluster (lo_entry found)) os" "set os \<inter> set ds = {}"
    and run: "replace_entry dev found img first len f = (r, f')"
  shows "changes_only content (set os) (blocks_at f ss) f f'" "device_error r \<or> r = Ok ()"
    "r = Ok () \<Longrightarrow> fa_dirty f' = None \<and> dir_lists content f' dir ss ds (before @ redirected found (fa_stamp f) first len # after)"
proof -
  have place: "dir_place content f dir ss ds" and sound: "dir_sound (fa_type f) (dir_slots (di_bytes img))"
    and parsed: "parse_located (di_bytes img) (fa_type f) = before @ found # after" using lists by (auto simp: dir_lists_def img)
  define slot where "slot = lo_end found - 1"
  define img' where "img' = set_slot slot (redirect (fa_stamp f) first len (get_slot slot img)) img"
  note rp = replaced_listed [OF parsed sound isfile small img'_def [unfolded slot_def]]
  have run': "fbind (store_dir dev img' slot (slot + 1)) (\<lambda>_. free_chain dev (de_cluster (lo_entry found))) f = (r, f')"
    using run by (simp add: replace_entry_def slot_def img'_def redirect_def Let_def)
  have lt: "slot < length (di_bytes img) div DIR_ENTRY_SIZE" using rp(5,6) by (simp add: slot_def image_slots_def)
  have len32: "length (redirect (fa_stamp f) first len (get_slot slot img)) = DIR_ENTRY_SIZE"
  proof -
    have "length (get_slot slot img) = 32" using get_slot_nth [OF lt] dir_slot_length [of "dir_slots (di_bytes img) ! slot" "di_bytes img"] lt by (simp add: DIR_ENTRY_SIZE_def)
    from redirect_fields(1) [OF this refl] show ?thesis by (simp add: DIR_ENTRY_SIZE_def)
  qed
  have slots: "dir_slots (di_bytes img') = (dir_slots (di_bytes img))[slot := redirect (fa_stamp f) first len (get_slot slot img)]"
    using dir_slots_set(1) [OF lt len32] by (simp add: img'_def set_slot_def)
  have same: "\<forall>j < length (dir_slots (place_bytes content f ss)). \<not> (slot \<le> j \<and> j < slot + 1) \<longrightarrow> dir_slots (di_bytes img') ! j = dir_slots (place_bytes content f ss) ! j"
    unfolding slots by (auto simp: img nth_list_update)
  have ss: "di_sectors img' = ss" "length (di_bytes img') = length (place_bytes content f ss)" using rp(3,4) by (simp_all add: img)
  have b: "slot + 1 \<le> image_slots img'" using rp(3,5,6) by (simp add: slot_def image_slots_def)
  note sf = store_then_free [OF inv clean place ss rp(2) b same old run']
  show "changes_only content (set os) (blocks_at f ss) f f'" "device_error r \<or> r = Ok ()" by (rule sf)+
  show "r = Ok () \<Longrightarrow> fa_dirty f' = None \<and> dir_lists content f' dir ss ds (before @ redirected found (fa_stamp f) first len # after)"
    using sf(3) rp(1) by simp
qed

lemma delete_effect:
  assumes inv: "fat_inv content f" and clean: "fa_dirty f = None" and lists: "dir_lists content f dir ss ds (before @ found # after)"
    and img: "img = \<lparr>di_sectors = ss, di_bytes = place_bytes content f ss\<rparr>"
    and old: "file_chain content f first os" "set os \<inter> set ds = {}"
    and run: "fbind (store_dir dev (delete_slots (lo_start found) (lo_end found) img) (lo_start found) (lo_end found)) (\<lambda>_. free_chain dev first) f = (r, f')"
  shows "changes_only content (set os) (blocks_at f ss) f f'" "device_error r \<or> r = Ok ()"
    "r = Ok () \<Longrightarrow> fa_dirty f' = None \<and> dir_lists content f' dir ss ds (before @ after)"
proof -
  have place: "dir_place content f dir ss ds" and sound: "dir_sound (fa_type f) (dir_slots (di_bytes img))"
    and parsed: "parse_located (di_bytes img) (fa_type f) = before @ found # after" using lists by (auto simp: dir_lists_def img)
  note dl = deleted_listed [OF parsed sound]
  define n where "n = lo_end found - lo_start found"
  have n: "lo_end found = lo_start found + n" using dl(5) by (simp add: n_def)
  have fit: "lo_start found + n \<le> length (di_bytes img) div DIR_ENTRY_SIZE" using dl(6) n by (simp add: image_slots_def)
  have sl: "dir_slots (di_bytes (delete_slots (lo_start found) (lo_end found) img)) = take (lo_start found) (dir_slots (di_bytes img))
      @ map (\<lambda>e. e[0 := ENTRY_DELETED]) (take n (drop (lo_start found) (dir_slots (di_bytes img)))) @ drop (lo_start found + n) (dir_slots (di_bytes img))"
    unfolding n using delete_slots_slots [OF fit] by blast
  have same: "\<forall>j < length (dir_slots (place_bytes content f ss)). \<not> (lo_start found \<le> j \<and> j < lo_end found) \<longrightarrow>
      dir_slots (di_bytes (delete_slots (lo_start found) (lo_end found) img)) ! j = dir_slots (place_bytes content f ss) ! j"
    unfolding sl unfolding n using fit by (auto simp: img nth_append)
  have ss: "di_sectors (delete_slots (lo_start found) (lo_end found) img) = ss"
      "length (di_bytes (delete_slots (lo_start found) (lo_end found) img)) = length (place_bytes content f ss)" using dl(3,4) by (simp_all add: img)
  have b: "lo_end found \<le> image_slots (delete_slots (lo_start found) (lo_end found) img)" using dl(3,6) by (simp add: image_slots_def)
  note sf = store_then_free [OF inv clean place ss dl(2) b same old run]
  show "changes_only content (set os) (blocks_at f ss) f f'" "device_error r \<or> r = Ok ()" by (rule sf)+
  show "r = Ok () \<Longrightarrow> fa_dirty f' = None \<and> dir_lists content f' dir ss ds (before @ after)" using sf(3) dl(1) by simp
qed

end

end
