(* ===== verification/Fat_Volume.thy ===== *)
theory Fat_Volume
  imports Fat_Whole
begin

text \<open>
  The whole of \<open>write_file\<close> and \<open>remove\<close>: a file that was written is found in its directory and holds its data, a file
  that was removed is gone, and whatever the outcome, every other chain is left as it was.
\<close>

lemma find_split:
  assumes "List.find P xs = Some x"
  shows "\<exists>ys zs. xs = ys @ x # zs \<and> P x \<and> (\<forall>y \<in> set ys. \<not> P y)"
  using assms
proof (induction xs)
  case (Cons y ys)
  show ?case
  proof (cases "P y")
    case True
    then show ?thesis using Cons.prems by (intro exI [of _ "[]"] exI [of _ ys]) simp
  next
    case False
    then obtain us zs where "ys = us @ x # zs \<and> P x \<and> (\<forall>u \<in> set us. \<not> P u)" using Cons by auto
    then show ?thesis using False by (intro exI [of _ "y # us"] exI [of _ zs]) simp
  qed
qed simp

lemma find_append_new: "\<forall>y \<in> set ys. \<not> P y \<Longrightarrow> P x \<Longrightarrow> List.find P (ys @ x # zs) = Some x"
  by (induction ys) auto

definition entry_put :: "(located \<Rightarrow> bool) \<Rightarrow> located list \<Rightarrow> located list \<Rightarrow> located \<Rightarrow> bool" where
  \<comment> \<open>\<open>l\<close> has come into the listing, or has taken the place of the entry \<open>P\<close> found\<close>
  "entry_put P listing listing' l \<longleftrightarrow> List.find P listing' = Some l \<and> (\<exists>before after. listing' = before @ l # after
     \<and> (if List.find P listing = None then listing = before @ after else listing = before @ the (List.find P listing) # after))"

definition change_area :: "('d \<Rightarrow> lba \<Rightarrow> block) \<Rightarrow> 'd fat \<Rightarrow> nat list \<Rightarrow> nat list \<Rightarrow> nat list \<Rightarrow> 'd fat \<Rightarrow> bool" where
  \<comment> \<open>only free clusters, the directory at \<open>ss\<close> with the clusters \<open>ds\<close> and the chain \<open>os\<close> have changed\<close>
  "change_area content f ss ds os f' \<longleftrightarrow>
     changes_only content (free_set content f \<union> set ds \<union> set os) (sectors_in f (free_set content f) \<union> blocks_at f ss \<union> fsinfo_blocks f) f f'"

lemma change_areaI:
  "changes_only content A D f f' \<Longrightarrow> A \<subseteq> free_set content f \<union> set ds \<union> set os \<Longrightarrow> D \<subseteq> sectors_in f (free_set content f) \<union> blocks_at f ss \<union> fsinfo_blocks f \<Longrightarrow>
   change_area content f ss ds os f'"
  unfolding change_area_def by (rule changes_only_mono)

lemma untouched_area: "untouched content f f' \<Longrightarrow> change_area content f ss ds os f'"
  using change_areaI [OF untouched_chains(3)] by blast

lemma area_keeps:
  assumes area: "change_area content f ss ds os f'" and vol: "volume_ok content f" and place: "dir_place content f dir ss ds"
    and cs: "sound_chain content f first cs" "set cs \<inter> (set ds \<union> set os) = {}"
  shows "sound_chain content f' first cs \<and> sound_chain content (remounted f') first cs \<and> (\<forall>c \<in> set cs. cluster_data content f' c = cluster_data content f c)"
proof (rule chain_kept(1) [OF area [unfolded change_area_def] _ _ _ _ cs(1)])
  show "fa_dirty f = None" and ok: "vol_ok f" using vol by (auto simp: volume_ok_def fat_inv_def)
  have free: "set cs \<inter> free_set content f = {}" using free_not_sound [OF cs(1)] by simp
  then show "set cs \<inter> (free_set content f \<union> set ds \<union> set os) = {}" using cs(2) by auto
  have good: "\<forall>c \<in> set cs. cluster_ok f c" using sound_chain_clusters [OF cs(1)] by blast
  show "cleared f (sectors_in f (free_set content f) \<union> blocks_at f ss \<union> fsinfo_blocks f) cs"
    using cleared_sectors [OF good free_set_ge(1) free] cleared_place [OF place ok good] cleared_fsinfo [OF vol] cs(2) by auto
qed

lemma free_set_after:
  assumes only: "changes_only content (set cs) D f f'" and clean: "fa_dirty f = None" and cs: "file_chain content f' first cs" "set cs \<subseteq> free_set content f"
  shows "free_set content f' \<subseteq> free_set content f"
proof
  fix c assume c: "c \<in> free_set content f'"
  have "c \<notin> set cs" using file_chain_free [OF cs(1), of "{c}"] c by auto
  moreover have "c < fa_cluster_count f + 2" using c same_shape_fields(4) [OF changes_only_fields(1) [OF only]] by (simp add: free_set_def)
  ultimately have "fat_value content f' c = fat_value content f c" using changes_only_keeps(1) [OF only clean] by blast
  then show "c \<in> free_set content f" using c same_shape_fields(4) [OF changes_only_fields(1) [OF only]] by (simp add: free_set_def)
qed

lemma free_set_shrinks:
  assumes only: "changes_only content (set cs) D f f'" and clean: "fa_dirty f = None"
  shows "card (free_set content f) \<le> card (free_set content f') + length cs"
proof -
  have "c \<in> free_set content f' \<union> set cs" if c: "c \<in> free_set content f" for c
  proof (cases "c \<in> set cs")
    case False
    then have "fat_value content f' c = fat_value content f c" using c changes_only_keeps(1) [OF only clean, of c] by (simp add: free_set_def)
    then show ?thesis using c same_shape_fields(4) [OF changes_only_fields(1) [OF only]] by (simp add: free_set_def)
  qed simp
  then have "free_set content f \<subseteq> free_set content f' \<union> set cs" by blast
  moreover have "finite (free_set content f')" by (rule finite_subset [of _ "{..<fa_cluster_count f' + 2}"]) (auto simp: free_set_def)
  ultimately have "card (free_set content f) \<le> card (free_set content f' \<union> set cs)" by (intro card_mono) auto
  also have "\<dots> \<le> card (free_set content f') + card (set cs)" by (rule card_Un_le)
  finally show ?thesis using card_length [of cs] by linarith
qed

definition no_room :: "('d \<Rightarrow> lba \<Rightarrow> block) \<Rightarrow> 'd fat \<Rightarrow> dir \<Rightarrow> bool \<Rightarrow> nat \<Rightarrow> (unit, 'e fat_error) result \<Rightarrow> bool" where
  \<comment> \<open>when \<open>n\<close> bytes may fail to find room, in a \<open>new\<close> file or in one that exists\<close>
  "no_room content f dir new n r \<longleftrightarrow> (r = Err NoSpace \<and> card (free_set content f) < clusters_needed f n + (if new then 21 else 0))
     \<or> (r = Err DirectoryFull \<and> new \<and> dir_first f dir = None)"

lemma first_small:
  assumes "file_chain content f first cs" "vol_ok f"
  shows "first < (if fa_type f = Fat32 then 2 ^ 32 else 2 ^ 16)"
proof (cases "first = 0")
  case False
  then have s: "sound_chain content f first cs" using assms(1) by (simp add: file_chain_def)
  have "cluster_ok f first" using sound_chain_clusters [OF s, of first] sound_chain_hd [OF s] by (metis list.set_sel(1))
  then show ?thesis using assms(2) by (cases "fa_type f") (auto simp: cluster_ok_def vol_ok_def chain_bad_def)
qed simp

definition write_refused ::
  "('d \<Rightarrow> lba \<Rightarrow> block) \<Rightarrow> 'd fat \<Rightarrow> dir \<Rightarrow> ustr \<Rightarrow> byte list \<Rightarrow> located option \<Rightarrow> (unit, 'e fat_error) result \<Rightarrow> bool" where
  \<comment> \<open>the errors of \<open>write_file\<close> other than the device's, and when they may come\<close>
  "write_refused content f dir name data existing r \<longleftrightarrow>
     (r = Err TooBig \<and> 2 ^ 32 \<le> length data) \<or> (r = Err InvalidName \<and> check_name name = (Err InvalidName :: (unit, 'e fat_error) result))
     \<or> (r = Err NotAFile \<and> (\<exists>l. existing = Some l \<and> de_kind (lo_entry l) = Directory)) \<or> no_room content f dir (existing = None) (length data) r"

definition empty_dir :: "('d \<Rightarrow> lba \<Rightarrow> block) \<Rightarrow> 'd fat \<Rightarrow> nat \<Rightarrow> bool" where
  \<comment> \<open>a directory that is sound and lists nothing\<close>
  "empty_dir content f first \<longleftrightarrow> (\<exists>ss ds. dir_place content f (DirChain first) ss ds \<and> parse_located (place_bytes content f ss) (fa_type f) = [])"

definition remove_refused :: "('d \<Rightarrow> lba \<Rightarrow> block) \<Rightarrow> 'd fat \<Rightarrow> located option \<Rightarrow> (unit, 'e fat_error) result \<Rightarrow> bool" where
  "remove_refused content f existing r \<longleftrightarrow> (r = Err NotFound \<and> existing = None)
     \<or> (r \<noteq> Ok () \<and> (\<exists>l. existing = Some l \<and> de_kind (lo_entry l) = Directory \<and> \<not> empty_dir content f (de_cluster (lo_entry l))))"

context block_device
begin

lemma add_then_give_back:
  assumes inv: "fat_inv content f" and clean: "fa_dirty f = None" and pos: "0 < fa_cluster_count f" and lists: "dir_lists content f dir ss ds listing"
    and img: "img = \<lparr>di_sectors = ss, di_bytes = place_bytes content f ss\<rparr>"
    and name: "check_name name = (Ok () :: (unit, 'e fat_error) result)" "plain_name name" and attr: "attr \<in> {ATTR_ARCHIVE, ATTR_DIRECTORY}"
    and small: "len < 2 ^ 32" and holds: "file_holds content f first cs data" "set cs \<inter> set ds = {}"
    and run: "map_option (give_back dev first) (add_entry dev dir img name attr first len f) = Some (r, f')"
  shows "changes_only content (free_set content f \<union> set ds \<union> set cs) (sectors_in f (free_set content f) \<union> blocks_at f ss) f f'"
    "r = Ok () \<Longrightarrow> fa_dirty f' = None \<and> file_holds content f' first cs data \<and> (\<exists>new before after at stop. listing = before @ after
       \<and> dir_lists content f' dir (ss @ chain_sectors f new) (ds @ new)
         (before @ \<lparr>lo_entry = entry_made f (fa_type f) name attr first len, lo_start = at, lo_end = stop\<rparr> # after))"
    "device_error r \<or> r = Ok () \<or> room_error content f dir 21 r"
proof -
  have ok: "vol_ok f" using inv by (simp add: fat_inv_def)
  have chain: "file_chain content f first cs" using holds(1) by (simp add: file_holds_def)
  obtain r1 f1 where add: "add_entry dev dir img name attr first len f = Some (r1, f1)" using run by auto
  obtain new where new: "set new \<subseteq> free_set content f" "changes_only content (set new \<union> set ds) (sectors_in f (set new) \<union> blocks_at f ss) f f1"
    and good: "r1 = Ok () \<longrightarrow> fa_dirty f1 = None \<and> (\<exists>before after at stop. listing = before @ after \<and> dir_lists content f1 dir (ss @ chain_sectors f new) (ds @ new)
       (before @ \<lparr>lo_entry = entry_made f (fa_type f) name attr first len, lo_start = at, lo_end = stop\<rparr> # after))"
    and fails: "device_error r1 \<or> r1 = Ok () \<or> room_error content f dir 21 r1"
    using add_entry_effect [OF inv clean pos lists img name attr small first_small [OF chain ok] add] by blast
  have place: "dir_place content f dir ss ds" using lists by (simp add: dir_lists_def)
  have cok: "\<forall>c \<in> set cs. cluster_ok f c" using file_chain_clusters [OF chain] by blast
  have apart: "set cs \<inter> (set new \<union> set ds) = {}" using file_chain_free [OF chain new(1)] holds(2) by blast
  have "\<forall>c \<in> set new. 2 \<le> c" using new(1) free_set_ge(1) by blast
  then have clr: "cleared f (sectors_in f (set new) \<union> blocks_at f ss) cs"
    using cleared_sectors [OF cok, of "set new"] cleared_place [OF place ok cok] apart by auto
  note kept = chain_kept [OF new(2) clean ok apart clr]
  have big: "changes_only content (free_set content f \<union> set ds \<union> set cs) (sectors_in f (free_set content f) \<union> blocks_at f ss) f f1"
    using new(1) sectors_in_mono [OF new(1)] by (intro changes_only_mono [OF new(2)]) auto
  show "changes_only content (free_set content f \<union> set ds \<union> set cs) (sectors_in f (free_set content f) \<union> blocks_at f ss) f f'"
  proof (cases r1)
    case (Ok u)
    then show ?thesis using run add big by (simp add: give_back_def)
  next
    case (Err e)
    obtain q2 f2 where q2: "free_chain dev first f1 = (q2, f2)" by fastforce
    note fc = free_chain_of [OF changes_only_fields(2) [OF new(2)] kept(2) [OF chain] q2]
    have "f' = f2" using run add Err q2 by (auto simp: give_back_def fbind_def split: result.splits)
    then show ?thesis by (simp, intro changes_only_mono [OF changes_only_trans [OF big fc(1)]]) auto
  qed
  show "device_error r \<or> r = Ok () \<or> room_error content f dir 21 r"
  proof (cases r1)
    case (Ok u)
    then show ?thesis using run add by (simp add: give_back_def)
  next
    case (Err e)
    obtain q2 f2 where q2: "free_chain dev first f1 = (q2, f2)" by fastforce
    note fc = free_chain_of [OF changes_only_fields(2) [OF new(2)] kept(2) [OF chain] q2]
    have "r = (case q2 of Err e2 \<Rightarrow> Err e2 | Ok _ \<Rightarrow> r1)" using run add Err q2 by (auto simp: give_back_def fbind_def split: result.splits)
    then show ?thesis using fc(2) fails by auto
  qed
  assume "r = Ok ()"
  then have "r1 = Ok ()" "f' = f1" using run add by (auto simp: give_back_def fbind_def split: result.splits prod.splits)
  then show "fa_dirty f' = None \<and> file_holds content f' first cs data \<and> (\<exists>new before after at stop. listing = before @ after
       \<and> dir_lists content f' dir (ss @ chain_sectors f new) (ds @ new)
         (before @ \<lparr>lo_entry = entry_made f (fa_type f) name attr first len, lo_start = at, lo_end = stop\<rparr> # after))"
    using good kept(3) [OF holds(1)] by blast
qed

text \<open>After the new chain is written, the entry comes to point at it.\<close>

lemma entry_step:
  assumes vol: "volume_ok content f" and lists: "dir_lists content f dir ss ds listing" and img: "img = \<lparr>di_sectors = ss, di_bytes = place_bytes content f ss\<rparr>"
    and name: "check_name name = (Ok () :: (unit, 'e fat_error) result)" "plain_name name" and small: "length data < 2 ^ 32"
    and P: "P = (\<lambda>l. names_match to_lower (de_name (lo_entry l)) name)"
    and old: "\<forall>l. List.find P listing = Some l \<longrightarrow> de_kind (lo_entry l) = File \<and> file_chain content f (de_cluster (lo_entry l)) os \<and> set os \<inter> set ds = {}"
    and holds: "file_holds content f first cs data" "set cs \<inter> (set ds \<union> set os) = {}"
    and run: "(case List.find P listing of Some found \<Rightarrow> Some (replace_entry dev found img first (length data) f)
        | None \<Rightarrow> map_option (give_back dev first) (add_entry dev dir img name ATTR_ARCHIVE first (length data) f)) = Some (r, f')"
  shows "changes_only content (free_set content f \<union> set ds \<union> set os \<union> set cs) (sectors_in f (free_set content f) \<union> blocks_at f ss) f f'"
    "r = Ok () \<Longrightarrow> fa_dirty f' = None \<and> file_holds content f' first cs data \<and> (\<exists>ss' ds' listing' l. dir_lists content f' dir ss' ds' listing' \<and> entry_put P listing listing' l
       \<and> de_kind (lo_entry l) = File \<and> de_size (lo_entry l) = length data \<and> de_cluster (lo_entry l) = first)"
    "device_error r \<or> r = Ok () \<or> (List.find P listing = None \<and> room_error content f dir 21 r)"
proof -
  have inv: "fat_inv content f" "vol_ok f" and clean: "fa_dirty f = None" and pos: "0 < fa_cluster_count f" using vol by (auto simp: volume_ok_def fat_inv_def)
  have place: "dir_place content f dir ss ds" using lists by (simp add: dir_lists_def)
  have chain: "file_chain content f first cs" using holds(1) by (simp add: file_holds_def)
  note cok = file_chain_clusters [OF chain]
  have "changes_only content (free_set content f \<union> set ds \<union> set os \<union> set cs) (sectors_in f (free_set content f) \<union> blocks_at f ss) f f' \<and>
    (r = Ok () \<longrightarrow> fa_dirty f' = None \<and> file_holds content f' first cs data \<and> (\<exists>ss' ds' listing' l. dir_lists content f' dir ss' ds' listing' \<and> entry_put P listing listing' l
       \<and> de_kind (lo_entry l) = File \<and> de_size (lo_entry l) = length data \<and> de_cluster (lo_entry l) = first)) \<and>
    (device_error r \<or> r = Ok () \<or> (List.find P listing = None \<and> room_error content f dir 21 r))"
  proof (cases "List.find P listing")
    case None
    then have run': "map_option (give_back dev first) (add_entry dev dir img name ATTR_ARCHIVE first (length data) f) = Some (r, f')" using run by simp
    have apart: "set cs \<inter> set ds = {}" using holds(2) by blast
    note a = add_then_give_back [OF inv(1) clean pos lists img name _ small holds(1) apart run', simplified]
    have "\<exists>ss' ds' listing' l. dir_lists content f' dir ss' ds' listing' \<and> entry_put P listing listing' l
       \<and> de_kind (lo_entry l) = File \<and> de_size (lo_entry l) = length data \<and> de_cluster (lo_entry l) = first" if r: "r = Ok ()"
    proof -
      obtain new before after at stop where l: "listing = before @ after" "dir_lists content f' dir (ss @ chain_sectors f new) (ds @ new)
         (before @ \<lparr>lo_entry = entry_made f (fa_type f) name ATTR_ARCHIVE first (length data), lo_start = at, lo_end = stop\<rparr> # after)"
        using a(2) [OF r] by blast
      let ?l = "\<lparr>lo_entry = entry_made f (fa_type f) name ATTR_ARCHIVE first (length data), lo_start = at, lo_end = stop\<rparr>"
      have "P ?l" by (simp add: P names_match_def entry_made_def)
      moreover have "\<forall>y \<in> set before. \<not> P y" using None l(1) by (auto simp: find_None_iff)
      ultimately have "entry_put P listing (before @ ?l # after) ?l" using None l(1) find_append_new unfolding entry_put_def by auto
      then show ?thesis using l(2) by (intro exI [of _ "ss @ chain_sectors f new"] exI [of _ "ds @ new"] exI [of _ "before @ ?l # after"] exI [of _ ?l])
          (simp add: entry_made_def ATTR_ARCHIVE_def ATTR_DIRECTORY_def)
    qed
    moreover have "changes_only content (free_set content f \<union> set ds \<union> set os \<union> set cs) (sectors_in f (free_set content f) \<union> blocks_at f ss) f f'"
      by (rule changes_only_mono [OF a(1)]) auto
    ultimately show ?thesis using a(2,3) None by blast
  next
    case (Some found)
    obtain before after where sp: "listing = before @ found # after" "P found" "\<forall>y \<in> set before. \<not> P y" using find_split [OF Some] by blast
    have o: "de_kind (lo_entry found) = File" "file_chain content f (de_cluster (lo_entry found)) os" "set os \<inter> set ds = {}" using old Some by blast+
    have run': "replace_entry dev found img first (length data) f = (r, f')" using run Some by simp
    note re = replace_effect [OF inv(1) clean lists [unfolded sp(1)] img o(1) small first_small [OF chain inv(2)] o(2,3) run']
    have clr: "cleared f (blocks_at f ss) cs" using cleared_place [OF place inv(2), of cs] cok holds(2) by blast
    have "set cs \<inter> set os = {}" using holds(2) by blast
    note kept = chain_kept(3) [OF re(1) clean inv(2) this clr holds(1)]
    let ?l = "redirected found (fa_stamp f) first (length data)"
    have "P ?l" using sp(2) by (simp add: P redirected_def)
    then have "entry_put P listing (before @ ?l # after) ?l" using Some sp find_append_new [OF sp(3)] unfolding entry_put_def by auto
    then have "\<exists>ss' ds' listing' l. dir_lists content f' dir ss' ds' listing' \<and> entry_put P listing listing' l
       \<and> de_kind (lo_entry l) = File \<and> de_size (lo_entry l) = length data \<and> de_cluster (lo_entry l) = first" if "r = Ok ()"
      using re(3) [OF that] o(1) by (intro exI [of _ ss] exI [of _ ds] exI [of _ "before @ ?l # after"] exI [of _ ?l]) (simp add: redirected_def)
    moreover have "changes_only content (free_set content f \<union> set ds \<union> set os \<union> set cs) (sectors_in f (free_set content f) \<union> blocks_at f ss) f f'"
      by (rule changes_only_mono [OF re(1)]) auto
    ultimately show ?thesis using re(2,3) kept by blast
  qed
  then show "changes_only content (free_set content f \<union> set ds \<union> set os \<union> set cs) (sectors_in f (free_set content f) \<union> blocks_at f ss) f f'"
    "r = Ok () \<Longrightarrow> fa_dirty f' = None \<and> file_holds content f' first cs data \<and> (\<exists>ss' ds' listing' l. dir_lists content f' dir ss' ds' listing' \<and> entry_put P listing listing' l
       \<and> de_kind (lo_entry l) = File \<and> de_size (lo_entry l) = length data \<and> de_cluster (lo_entry l) = first)"
    "device_error r \<or> r = Ok () \<or> (List.find P listing = None \<and> room_error content f dir 21 r)" by blast+
qed

lemma chain_then:
  \<comment> \<open>a directory after a chain was written to free clusters\<close>
  assumes vol: "volume_ok content f" and lists: "dir_lists content f dir ss ds listing"
    and cs: "set cs \<subseteq> free_set content f" "changes_only content (set cs) (sectors_in f (set cs)) f f1" and clean1: "fa_dirty f1 = None"
  shows "volume_ok content f1" "dir_lists content f1 dir ss ds listing" "place_bytes content f1 ss = place_bytes content f ss" "set ds \<inter> free_set content f = {}"
proof -
  have ok: "vol_ok f" and clean: "fa_dirty f = None" using vol by (auto simp: volume_ok_def fat_inv_def)
  have place: "dir_place content f dir ss ds" using lists by (simp add: dir_lists_def)
  note fields = changes_only_fields [OF cs(2)]
  show "volume_ok content f1" using vol fields(2) clean1 by (simp add: volume_ok_def same_shape_fields [OF fields(1)])
  show used: "set ds \<inter> free_set content f = {}" using place free_not_sound by (cases "dir_first f dir") (fastforce simp: dir_place_def)+
  have apart: "blocks_at f ss \<inter> sectors_in f (set cs) = {}"
    using dir_place_sectors(4) [OF place ok] cs(1) used free_set_ge(2) by (fastforce simp: sectors_in_def sector_of_def)
  show "dir_lists content f1 dir ss ds listing" using cs(1) used by (intro dir_lists_kept [OF cs(2) clean ok lists _ apart]) auto
  show "place_bytes content f1 ss = place_bytes content f ss" using dir_place_kept(2) [OF cs(2) clean ok place apart] .
qed

lemma stored_entry_step:
  \<comment> \<open>the new chain, then the entry\<close>
  assumes vol: "volume_ok content f" and lists: "dir_lists content f dir ss ds listing" and img: "img = \<lparr>di_sectors = ss, di_bytes = place_bytes content f ss\<rparr>"
    and name: "check_name name = (Ok () :: (unit, 'e fat_error) result)" "plain_name name" and small: "length data < 2 ^ 32"
    and P: "P = (\<lambda>l. names_match to_lower (de_name (lo_entry l)) name)"
    and old: "\<forall>l. List.find P listing = Some l \<longrightarrow> de_kind (lo_entry l) = File \<and> file_chain content f (de_cluster (lo_entry l)) os \<and> set os \<inter> set ds = {}"
    and none: "List.find P listing = None \<longrightarrow> os = []"
    and run: "option_fbind (write_chain dev data) (\<lambda>first f. case List.find P listing of
          Some found \<Rightarrow> Some (replace_entry dev found img first (length data) f)
        | None \<Rightarrow> map_option (give_back dev first) (add_entry dev dir img name ATTR_ARCHIVE first (length data) f)) f = Some (r, f')"
  shows "changes_only content (free_set content f \<union> set ds \<union> set os) (sectors_in f (free_set content f) \<union> blocks_at f ss) f f'"
    "r = Ok () \<Longrightarrow> fa_dirty f' = None \<and> (\<exists>cs ss' ds' listing' l. dir_lists content f' dir ss' ds' listing' \<and> entry_put P listing listing' l
       \<and> de_kind (lo_entry l) = File \<and> de_size (lo_entry l) = length data \<and> file_holds content f' (de_cluster (lo_entry l)) cs data)"
    "device_error r \<or> r = Ok () \<or> no_room content f dir (List.find P listing = None) (length data) r"
proof -
  have inv: "fat_inv content f" "vol_ok f" and clean: "fa_dirty f = None" and pos: "0 < fa_cluster_count f" using vol by (auto simp: volume_ok_def fat_inv_def)
  have place: "dir_place content f dir ss ds" using lists by (simp add: dir_lists_def)
  have oc: "\<forall>c \<in> set os. cluster_ok f c \<and> fat_value content f c \<noteq> 0"
  proof (cases "List.find P listing")
    case (Some l)
    then have "file_chain content f (de_cluster (lo_entry l)) os" using old by blast
    then show ?thesis using file_chain_clusters file_chain_free [of content f _ os "free_set content f"] by (fastforce simp: free_set_def cluster_ok_def)
  qed (use none in simp)
  obtain q f1 where q: "write_chain dev data f = (q, f1)" by fastforce
  obtain cs where cs: "set cs \<subseteq> free_set content f" "changes_only content (set cs) (sectors_in f (set cs)) f f1"
      "\<forall>first. q = Ok first \<longrightarrow> fa_dirty f1 = None \<and> file_holds content f1 first cs data \<and> length cs = clusters_needed f (length data)"
      "device_error q \<or> (\<exists>first. q = Ok first) \<or> (q = Err NoSpace \<and> card (free_set content f) < clusters_needed f (length data))"
    using write_chain_holds [OF inv(1) clean pos q] by blast
  have big: "changes_only content (free_set content f \<union> set ds \<union> set os) (sectors_in f (free_set content f) \<union> blocks_at f ss) f f1"
    using cs(1) sectors_in_mono [OF cs(1)] by (intro changes_only_mono [OF cs(2)]) auto
  have "changes_only content (free_set content f \<union> set ds \<union> set os) (sectors_in f (free_set content f) \<union> blocks_at f ss) f f' \<and>
    (r = Ok () \<longrightarrow> fa_dirty f' = None \<and> (\<exists>cs ss' ds' listing' l. dir_lists content f' dir ss' ds' listing' \<and> entry_put P listing listing' l
       \<and> de_kind (lo_entry l) = File \<and> de_size (lo_entry l) = length data \<and> file_holds content f' (de_cluster (lo_entry l)) cs data)) \<and>
    (device_error r \<or> r = Ok () \<or> no_room content f dir (List.find P listing = None) (length data) r)"
  proof (cases q)
    case (Err e)
    then show ?thesis using run q big cs(4) by (auto simp: option_fbind_def no_room_def)
  next
    case (Ok first)
    have h: "fa_dirty f1 = None" "file_holds content f1 first cs data" using cs(3) Ok by blast+
    have shape: "same_shape f f1" and inv1: "fat_inv content f1" using changes_only_fields [OF cs(2)] by auto
    note same = same_shape_fields [OF shape] same_shape_dir [OF shape] same_shape_sectors [OF shape]
    note th = chain_then [OF vol lists cs(1,2) h(1)]
    have used: "set ds \<inter> free_set content f = {}" "set os \<inter> free_set content f = {}" using th(4) oc by (auto simp: free_set_def)
    have dcl: "\<forall>c \<in> set cs. 2 \<le> c" using cs(1) free_set_ge(1) by blast
    have img1: "img = \<lparr>di_sectors = ss, di_bytes = place_bytes content f1 ss\<rparr>" by (simp add: img th(3))
    have oscs: "set os \<inter> set cs = {}" using used(2) cs(1) by blast
    have osok: "\<forall>c \<in> set os. cluster_ok f c" using oc by blast
    note oscl = cleared_sectors [OF osok dcl oscs]
    have old1: "\<forall>l. List.find P listing = Some l \<longrightarrow> de_kind (lo_entry l) = File \<and> file_chain content f1 (de_cluster (lo_entry l)) os \<and> set os \<inter> set ds = {}"
      using old chain_kept(2) [OF cs(2) clean inv(2) oscs oscl] by blast
    have csds: "set cs \<inter> (set ds \<union> set os) = {}" using used cs(1) by blast
    have run1: "(case List.find P listing of Some found \<Rightarrow> Some (replace_entry dev found img first (length data) f1)
        | None \<Rightarrow> map_option (give_back dev first) (add_entry dev dir img name ATTR_ARCHIVE first (length data) f1)) = Some (r, f')"
      using run q Ok by (simp add: option_fbind_def)
    note es = entry_step [OF th(1,2) img1 name small P old1 h(2) csds run1]
    have "file_chain content f1 first cs" using h(2) by (simp add: file_holds_def)
    then have fs: "free_set content f1 \<subseteq> free_set content f" using free_set_after [OF cs(2) clean _ cs(1)] by blast
    have only: "changes_only content (free_set content f \<union> set ds \<union> set os) (sectors_in f (free_set content f) \<union> blocks_at f ss) f f'"
      using fs sectors_in_mono [OF fs, of f] sectors_in_mono [OF cs(1), of f] cs(1) by (intro changes_only_mono [OF changes_only_trans [OF cs(2) es(1)]]) (auto simp: same)
    have "no_room content f dir True (length data) r" if "room_error content f1 dir 21 r"
    proof -
      have "card (free_set content f) \<le> card (free_set content f1) + length cs"
        using free_set_shrinks [OF cs(2) clean] h by blast
      then show ?thesis using that cs(3) Ok by (auto simp: room_error_def no_room_def same)
    qed
    then have "device_error r \<or> r = Ok () \<or> no_room content f dir (List.find P listing = None) (length data) r" using es(3) by auto
    then show ?thesis using es(2) only by blast
  qed
  then show "changes_only content (free_set content f \<union> set ds \<union> set os) (sectors_in f (free_set content f) \<union> blocks_at f ss) f f'"
    "r = Ok () \<Longrightarrow> fa_dirty f' = None \<and> (\<exists>cs ss' ds' listing' l. dir_lists content f' dir ss' ds' listing' \<and> entry_put P listing listing' l
       \<and> de_kind (lo_entry l) = File \<and> de_size (lo_entry l) = length data \<and> file_holds content f' (de_cluster (lo_entry l)) cs data)"
    "device_error r \<or> r = Ok () \<or> no_room content f dir (List.find P listing = None) (length data) r" by blast+
qed

subsection \<open>Whole operations\<close>

lemma found_dir:
  assumes vol: "volume_ok content f" and lists: "dir_lists content f dir ss ds listing"
    and find: "find_dir dev to_lower parent f = (Ok dir, f1)" and load: "load_dir dev dir f1 = (q, f2)"
  shows "untouched content f f2" "device_error q \<or> q = Ok \<lparr>di_sectors = ss, di_bytes = place_bytes content f ss\<rparr>"
proof -
  have inv: "fat_inv content f" using vol by (simp add: volume_ok_def)
  have u1: "untouched content f f1" using find_parts_untouched [OF inv] find by (simp add: find_dir_def)
  have inv1: "fat_inv content f1" using u1 by (simp add: untouched_def)
  note ld = load_dir_view [OF inv1 load]
  show "untouched content f f2" using untouched_trans [OF u1 same_volume_untouched [OF ld(1,2)]] .
  show "device_error q \<or> q = Ok \<lparr>di_sectors = ss, di_bytes = place_bytes content f ss\<rparr>"
    using ld(3) [of ss ds] lists untouched_chains(2) [OF u1] untouched_values(5) [OF u1] by (simp add: dir_lists_def)
qed

lemma untouched_volume:
  assumes "untouched content f f'" "volume_ok content f"
  shows "volume_ok content f'" "fsinfo_blocks f' = fsinfo_blocks f"
proof -
  have u: "same_shape f f'" "fat_inv content f'" "fa_dirty f' = fa_dirty f" using assms(1) by (auto simp: untouched_def)
  show "volume_ok content f'" using assms(2) u same_shape_fields [OF u(1)] by (simp add: volume_ok_def)
  show "fsinfo_blocks f' = fsinfo_blocks f" using same_shape_fields [OF u(1)] by (simp add: fsinfo_blocks_def)
qed

lemma file_chain_untouched: "untouched content f f' \<Longrightarrow> file_chain content f' = file_chain content f"
  using untouched_chains(1) unfolding file_chain_def [abs_def] by metis

lemma write_file_inner_effect:
  assumes vol: "volume_ok content f" and path: "split_path path = (parent, name)" "plain_name name" and find: "find_dir dev to_lower parent f = (Ok dir, f1)"
    and lists: "dir_lists content f dir ss ds listing" and P: "P = (\<lambda>l. names_match to_lower (de_name (lo_entry l)) name)"
    and old: "\<forall>l. List.find P listing = Some l \<longrightarrow> de_kind (lo_entry l) = File \<longrightarrow> file_chain content f (de_cluster (lo_entry l)) os \<and> set os \<inter> set ds = {}"
    and none: "List.find P listing = None \<longrightarrow> os = []"
    and run: "write_file_inner dev to_lower path data f = Some (r, f')"
  shows "change_area content f ss ds os f' \<and> (r = Ok () \<longrightarrow> fa_dirty f' = None \<and> name \<noteq> [] \<and> (\<exists>cs ss' ds' listing' l. dir_lists content f' dir ss' ds' listing'
       \<and> entry_put P listing listing' l \<and> de_kind (lo_entry l) = File \<and> de_size (lo_entry l) = length data \<and> file_holds content f' (de_cluster (lo_entry l)) cs data))
    \<and> (device_error r \<or> r = Ok () \<or> write_refused content f dir name data (List.find P listing) r)"
proof (cases "length data < 2 ^ 32 \<and> check_name name = (Ok () :: (unit, 'e fat_error) result)")
  case False
  then have "f' = f" "r \<noteq> Ok ()" "write_refused content f dir name data (List.find P listing) r"
    using run path(1) by (auto simp: write_file_inner_def option_fbind_def check_name_def write_refused_def Let_def split: if_splits)
  moreover have "fat_inv content f" using vol by (simp add: volume_ok_def)
  ultimately show ?thesis using untouched_area [OF untouched_refl [of content f]] by blast
next
  case True
  obtain q2 f2 where q2: "load_dir dev dir f1 = (q2, f2)" by fastforce
  note ld = found_dir [OF vol lists find q2]
  define img where "img = \<lparr>di_sectors = ss, di_bytes = place_bytes content f ss\<rparr>"
  have t2: "fa_type f2 = fa_type f" using ld(1) same_shape_fields(2) by (auto simp: untouched_def)
  then have parsed: "parse_located (di_bytes img) (fa_type f2) = listing" using lists by (simp add: dir_lists_def img_def)
  define isdir where "isdir \<longleftrightarrow> (case List.find P listing of Some l \<Rightarrow> de_kind (lo_entry l) = Directory | None \<Rightarrow> False)"
  obtain q3 f3 where q3: "begin_change dev f2 = (q3, f3)" by fastforce
  define step where "step = option_fbind (write_chain dev data) (\<lambda>first f. case List.find P listing of
          Some found \<Rightarrow> Some (replace_entry dev found img first (length data) f)
        | None \<Rightarrow> map_option (give_back dev first) (add_entry dev dir img name ATTR_ARCHIVE first (length data) f))"
  have run': "(case q2 of Err e \<Rightarrow> Some (Err e, f2) | Ok img' \<Rightarrow> if img' = img then if isdir then Some (Err NotAFile, f2)
      else (case q3 of Err e \<Rightarrow> Some (Err e, f3) | Ok _ \<Rightarrow> step f3) else Some (r, f')) = Some (r, f')"
    using run True find q2 q3 parsed path(1) unfolding P
    by (auto simp: write_file_inner_def option_fbind_def Let_def step_def isdir_def P not_le split: result.splits if_splits)
  have inv2: "fat_inv content f2" using ld(1) by (simp add: untouched_def)
  note bc = begin_change_view [OF inv2 q3]
  have u3: "untouched content f f3" using untouched_trans [OF ld(1) bc(1)] .
  show ?thesis
  proof (cases "q2 = Ok img \<and> \<not> isdir \<and> q3 = Ok ()")
    case False
    then have "(f' = f2 \<or> f' = f3) \<and> r \<noteq> Ok ()" using run' ld(2) bc(2) by (auto simp: img_def split: result.splits if_splits)
    moreover have "device_error r \<or> (r = Err NotAFile \<and> isdir)" using False run' ld(2) bc(2) by (auto simp: img_def split: result.splits if_splits)
    then have "device_error r \<or> write_refused content f dir name data (List.find P listing) r" by (auto simp: isdir_def write_refused_def split: option.splits)
    ultimately show ?thesis using untouched_area [OF ld(1)] untouched_area [OF u3] by auto
  next
    case True
    note v = untouched_volume [OF u3 vol] and same = untouched_values [OF u3]
    have shape3: "same_shape f f3" using u3 by (simp add: untouched_def)
    have run3: "step f3 = Some (r, f')" using run' True by simp
    have lists3: "dir_lists content f3 dir ss ds listing" using lists untouched_lists [OF u3] by simp
    have img3: "img = \<lparr>di_sectors = ss, di_bytes = place_bytes content f3 ss\<rparr>" by (simp add: img_def same)
    have "de_kind (lo_entry l) = File" if "List.find P listing = Some l" for l using True that by (cases "de_kind (lo_entry l)") (auto simp: isdir_def)
    then have old3: "\<forall>l. List.find P listing = Some l \<longrightarrow> de_kind (lo_entry l) = File \<and> file_chain content f3 (de_cluster (lo_entry l)) os \<and> set os \<inter> set ds = {}"
      using old by (simp add: file_chain_untouched [OF u3])
    have ck: "check_name name = (Ok () :: (unit, 'e fat_error) result)" "length data < 2 ^ 32"
      using \<open>length data < 2 ^ 32 \<and> check_name name = (Ok () :: (unit, 'e fat_error) result)\<close> by blast+
    note se = stored_entry_step [OF v(1) lists3 img3 ck(1) path(2) ck(2) P old3 none run3 [unfolded step_def]]
    have "change_area content f ss ds os f'" using untouched_changes [OF u3 se(1)] by (intro change_areaI) (auto simp: same)
    moreover have "name \<noteq> []" using check_nameD(1) [OF ck(1)] by simp
    moreover have "device_error r \<or> r = Ok () \<or> write_refused content f dir name data (List.find P listing) r"
      using se(3) same_shape_fields [OF shape3] same_shape_dir [OF shape3] same_shape_views [OF shape3] by (auto simp: write_refused_def no_room_def clusters_needed_def same)
    ultimately show ?thesis using se(2) by blast
  qed
qed

lemma finish_area:
  assumes vol: "volume_ok content f" and area: "change_area content f ss ds os f1" and run: "finish_change dev outcome f1 = (r, f')"
  shows "change_area content f ss ds os f'"
proof -
  note fl = changes_only_fields [OF area [unfolded change_area_def]]
  note same = same_shape_fields [OF fl(1)]
  have fs: "\<forall>s. fa_fsinfo f1 = Some s \<longrightarrow> s < fa_fat_start f1" using vol by (simp add: volume_ok_def same)
  have "fsinfo_blocks f1 = fsinfo_blocks f" by (simp add: fsinfo_blocks_def same)
  then show ?thesis
    using changes_only_trans [OF area [unfolded change_area_def] finish_change_effect(1) [OF fl(2) fs run]] unfolding change_area_def
    by (simp add: Un_ac)
qed

lemma finish_listed:
  assumes vol: "volume_ok content f" and run: "finish_change dev outcome f = (r, f')" and lists: "dir_lists content f dir ss ds listing"
  shows "dir_lists content f' dir ss ds listing" "fa_dirty f' = None" "file_holds content f first cs data \<Longrightarrow> file_holds content f' first cs data"
    "device_error r \<or> r = outcome"
proof -
  have v: "fat_inv content f" "vol_ok f" "fa_dirty f = None" "\<forall>s. fa_fsinfo f = Some s \<longrightarrow> s < fa_fat_start f" using vol by (auto simp: volume_ok_def fat_inv_def)
  note fc = finish_change_effect [OF v(1,4) run]
  have place: "dir_place content f dir ss ds" using lists by (simp add: dir_lists_def)
  show "dir_lists content f' dir ss ds listing" by (rule dir_lists_kept [OF fc(1) v(3,2) lists _ fsinfo_not_place [OF vol place]]) simp
  show "fa_dirty f' = None" using fc(3) v(3) by simp
  show "file_holds content f first cs data \<Longrightarrow> file_holds content f' first cs data" by (rule chain_kept(3) [OF fc(1) v(3,2) _ cleared_fsinfo [OF vol]]) simp_all
  show "device_error r \<or> r = outcome" by (rule fc(2))
qed

lemma area_volume:
  assumes "volume_ok content f" "change_area content f ss ds os f'" "fa_dirty f' = None"
  shows "volume_ok content f'"
  using assms changes_only_fields(1,2) [OF assms(2) [unfolded change_area_def]] same_shape_fields [of f f'] by (simp add: volume_ok_def)

lemma write_file_effect:
  assumes vol: "volume_ok content f" and path: "split_path path = (parent, name)" "plain_name name" and find: "find_dir dev to_lower parent f = (Ok dir, f1)"
    and lists: "dir_lists content f dir ss ds listing" and P: "P = (\<lambda>l. names_match to_lower (de_name (lo_entry l)) name)"
    and old: "\<forall>l. List.find P listing = Some l \<longrightarrow> de_kind (lo_entry l) = File \<longrightarrow> file_chain content f (de_cluster (lo_entry l)) os \<and> set os \<inter> set ds = {}"
    and none: "List.find P listing = None \<longrightarrow> os = []"
    and run: "write_file dev to_lower path data f = Some (r, f')"
  shows "change_area content f ss ds os f'"
    "r = Ok () \<Longrightarrow> volume_ok content f' \<and> name \<noteq> [] \<and> (\<exists>cs ss' ds' listing' l. dir_lists content f' dir ss' ds' listing' \<and> entry_put P listing listing' l
       \<and> de_kind (lo_entry l) = File \<and> de_size (lo_entry l) = length data \<and> file_holds content f' (de_cluster (lo_entry l)) cs data)"
    "device_error r \<or> r = Ok () \<or> write_refused content f dir name data (List.find P listing) r"
proof -
  obtain r1 f2 where inner: "write_file_inner dev to_lower path data f = Some (r1, f2)" and fin: "finish_change dev r1 f2 = (r, f')"
    using run by (auto simp: write_file_def)
  note w = write_file_inner_effect [OF vol path find lists P old none inner]
  show area: "change_area content f ss ds os f'" using finish_area [OF vol conjunct1 [OF w] fin] .
  have inv2: "fat_inv content f2" and shape: "same_shape f f2" using changes_only_fields(1,2) [OF conjunct1 [OF w, unfolded change_area_def]] by auto
  have fs: "\<forall>s. fa_fsinfo f2 = Some s \<longrightarrow> s < fa_fat_start f2" using vol by (simp add: volume_ok_def same_shape_fields [OF shape])
  show "device_error r \<or> r = Ok () \<or> write_refused content f dir name data (List.find P listing) r" using finish_change_effect(2) [OF inv2 fs fin] w by blast
  assume r: "r = Ok ()"
  have "r1 = Ok ()" using finish_change_effect(2) [OF inv2 fs fin] r by auto
  then obtain cs ss' ds' listing' l where ne: "name \<noteq> []" and l: "fa_dirty f2 = None" "dir_lists content f2 dir ss' ds' listing'" "entry_put P listing listing' l"
      "de_kind (lo_entry l) = File" "de_size (lo_entry l) = length data" "file_holds content f2 (de_cluster (lo_entry l)) cs data" using w by blast
  have vol2: "volume_ok content f2" using area_volume [OF vol conjunct1 [OF w] l(1)] .
  note fl = finish_listed [OF vol2 fin l(2)]
  have "volume_ok content f'" using area_volume [OF vol area fl(2)] .
  then show "volume_ok content f' \<and> name \<noteq> [] \<and> (\<exists>cs ss' ds' listing' l. dir_lists content f' dir ss' ds' listing' \<and> entry_put P listing listing' l
       \<and> de_kind (lo_entry l) = File \<and> de_size (lo_entry l) = length data \<and> file_holds content f' (de_cluster (lo_entry l)) cs data)"
    using fl(1) fl(3) [OF l(6)] l(3-5) ne by blast
qed

lemma remove_inner_effect:
  assumes vol: "volume_ok content f" and path: "split_path path = (parent, name)" and find: "find_dir dev to_lower parent f = (Ok dir, f1)"
    and lists: "dir_lists content f dir ss ds listing" and P: "P = (\<lambda>l. names_match to_lower (de_name (lo_entry l)) name)"
    and old: "\<forall>l. List.find P listing = Some l \<longrightarrow> file_chain content f (de_cluster (lo_entry l)) os \<and> set os \<inter> set ds = {}"
    and run: "remove_inner dev to_lower path f = (r, f')"
  shows "change_area content f ss ds os f' \<and> (r = Ok () \<longrightarrow> fa_dirty f' = None \<and> (\<exists>l before after. listing = before @ l # after \<and> List.find P listing = Some l
       \<and> dir_lists content f' dir ss ds (before @ after) \<and> (de_kind (lo_entry l) = Directory \<longrightarrow>
           (\<forall>ss2 ds2. dir_place content f (DirChain (de_cluster (lo_entry l))) ss2 ds2 \<longrightarrow> parse_located (place_bytes content f ss2) (fa_type f) = []))))
    \<and> (device_error r \<or> r = Ok () \<or> remove_refused content f (List.find P listing) r)"
proof -
  obtain q2 f2 where q2: "load_dir dev dir f1 = (q2, f2)" by fastforce
  note ld = found_dir [OF vol lists find q2]
  define img where "img = \<lparr>di_sectors = ss, di_bytes = place_bytes content f ss\<rparr>"
  have t2: "fa_type f2 = fa_type f" using ld(1) same_shape_fields(2) by (auto simp: untouched_def)
  then have parsed: "parse_located (di_bytes img) (fa_type f2) = listing" using lists by (simp add: dir_lists_def img_def)
  define rest where "rest = (\<lambda>found :: located. fbind (if de_kind (lo_entry found) = Directory
      then fbind (load_dir dev (DirChain (de_cluster (lo_entry found)))) (\<lambda>contents f.
             if parse_located (di_bytes contents) (fa_type f) \<noteq> [] then (Err NotEmpty, f) else (Ok (), f))
      else (\<lambda>f. (Ok (), f))) (\<lambda>_. fbind (begin_change dev) (\<lambda>_.
        fbind (store_dir dev (delete_slots (lo_start found) (lo_end found) img) (lo_start found) (lo_end found)) (\<lambda>_. free_chain dev (de_cluster (lo_entry found))))))"
  have run': "(case q2 of Err e \<Rightarrow> (Err e, f2) | Ok img' \<Rightarrow> if img' = img then (case List.find P listing of None \<Rightarrow> (Err NotFound, f2) | Some found \<Rightarrow> rest found f2) else (r, f')) = (r, f')"
    using run find q2 parsed path unfolding remove_inner_def P rest_def Let_def by (auto simp: fbind_def [of "find_dir dev to_lower parent"] fbind_def [of "load_dir dev dir"] Let_def split: result.splits)
  show ?thesis
  proof (cases "\<exists>found. q2 = Ok img \<and> List.find P listing = Some found")
    case False
    then have "f' = f2 \<and> r \<noteq> Ok ()" using run' ld(2) by (auto simp: img_def split: result.splits option.splits if_splits)
    moreover have "device_error r \<or> remove_refused content f (List.find P listing) r"
      using False run' ld(2) by (auto simp: img_def remove_refused_def split: result.splits option.splits if_splits)
    ultimately show ?thesis using untouched_area [OF ld(1)] by auto
  next
    case True
    then obtain found where found: "List.find P listing = Some found" and run2: "rest found f2 = (r, f')" using run' by auto
    obtain before after where sp: "listing = before @ found # after" using find_split [OF found] by blast
    define first where "first = de_cluster (lo_entry found)"
    define chk where "chk = (if de_kind (lo_entry found) = Directory
      then fbind (load_dir dev (DirChain first)) (\<lambda>contents f. if parse_located (di_bytes contents) (fa_type f) \<noteq> [] then (Err NotEmpty, f) else (Ok (), f))
      else (\<lambda>f. (Ok (), f)))"
    have inv2: "fat_inv content f2" using ld(1) by (simp add: untouched_def)
    obtain q3 f3 where q3: "chk f2 = (q3, f3)" by fastforce
    have c3: "untouched content f f3 \<and> (q3 = Ok () \<longrightarrow> de_kind (lo_entry found) = Directory \<longrightarrow>
        (\<forall>ss2 ds2. dir_place content f (DirChain first) ss2 ds2 \<longrightarrow> parse_located (place_bytes content f ss2) (fa_type f) = []))
        \<and> (device_error q3 \<or> q3 = Ok () \<or> (de_kind (lo_entry found) = Directory \<and> \<not> empty_dir content f first))"
    proof (cases "de_kind (lo_entry found) = Directory")
      case False
      then show ?thesis using q3 ld(1) by (simp add: chk_def)
    next
      case isdir: True
      obtain q4 f4 where q4: "load_dir dev (DirChain first) f2 = (q4, f4)" by fastforce
      note l4 = load_dir_view [OF inv2 q4]
      have u4: "untouched content f f4" using untouched_trans [OF ld(1) same_volume_untouched [OF l4(1,2)]] .
      have t4: "fa_type f4 = fa_type f" using u4 same_shape_fields(2) by (auto simp: untouched_def)
      have r3: "f3 = f4" "q3 = Ok () \<Longrightarrow> \<exists>contents. q4 = Ok contents \<and> parse_located (di_bytes contents) (fa_type f) = []"
        using q3 q4 isdir t4 by (auto simp: chk_def fbind_def split: result.splits if_splits)
      have "parse_located (place_bytes content f ss2) (fa_type f) = []" if "q3 = Ok ()" "dir_place content f (DirChain first) ss2 ds2" for ss2 ds2
        using r3(2) [OF that(1)] l4(3) [of ss2 ds2] that(2) untouched_chains(2) [OF ld(1)] untouched_values(5) [OF ld(1)] by auto
      moreover have "device_error q3 \<or> q3 = Ok ()" if "empty_dir content f first"
      proof -
        obtain ss2 ds2 where e: "dir_place content f2 (DirChain first) ss2 ds2" "parse_located (place_bytes content f2 ss2) (fa_type f) = []"
          using \<open>empty_dir content f first\<close> untouched_chains(2) [OF ld(1)] untouched_values(5) [OF ld(1)] by (auto simp: empty_dir_def)
        then show ?thesis using l4(3) [OF e(1)] q3 q4 isdir t4 by (auto simp: chk_def fbind_def)
      qed
      ultimately show ?thesis using u4 r3(1) isdir by blast
    qed
    obtain q5 f5 where q5: "begin_change dev f3 = (q5, f5)" by fastforce
    have inv3: "fat_inv content f3" using c3 by (simp add: untouched_def)
    note bc = begin_change_view [OF inv3 q5]
    have u5: "untouched content f f5" using untouched_trans [OF conjunct1 [OF c3] bc(1)] .
    define del where "del = fbind (store_dir dev (delete_slots (lo_start found) (lo_end found) img) (lo_start found) (lo_end found)) (\<lambda>_. free_chain dev first)"
    have run5: "(case q3 of Err e \<Rightarrow> (Err e, f3) | Ok _ \<Rightarrow> (case q5 of Err e \<Rightarrow> (Err e, f5) | Ok _ \<Rightarrow> del f5)) = (r, f')"
      using run2 q3 q5 unfolding rest_def first_def [symmetric] chk_def [symmetric] del_def [symmetric] by (auto simp: fbind_def [of chk] fbind_def [of "begin_change dev"] split: result.splits)
    show ?thesis
    proof (cases "q3 = Ok () \<and> q5 = Ok ()")
      case False
      then have "(f' = f3 \<or> f' = f5) \<and> r \<noteq> Ok ()" using run5 by (auto split: result.splits)
      moreover from this have "device_error r \<or> remove_refused content f (List.find P listing) r"
        using False run5 c3 bc(2) found by (auto simp: remove_refused_def first_def split: result.splits)
      ultimately show ?thesis using untouched_area [OF u5] untouched_area [OF conjunct1 [OF c3]] by auto
    next
      case go: True
      note v = untouched_volume [OF u5 vol] and same = untouched_values [OF u5]
      have f5: "fat_inv content f5" "fa_dirty f5 = None" using v(1) by (auto simp: volume_ok_def)
      have lists5: "dir_lists content f5 dir ss ds (before @ found # after)" using lists untouched_lists [OF u5] sp by simp
      have img5: "img = \<lparr>di_sectors = ss, di_bytes = place_bytes content f5 ss\<rparr>" by (simp add: img_def same)
      have old5: "file_chain content f5 first os" "set os \<inter> set ds = {}" using old found by (auto simp: first_def file_chain_untouched [OF u5])
      have "del f5 = (r, f')" using run5 go by simp
      note de = delete_effect [OF f5 lists5 img5 old5 this [unfolded del_def]]
      have "change_area content f ss ds os f'" using untouched_changes [OF u5 de(1)] by (intro change_areaI) (auto simp: same)
      then show ?thesis using de(2,3) c3 go found sp unfolding first_def by blast
    qed
  qed
qed

lemma remove_effect:
  assumes vol: "volume_ok content f" and path: "split_path path = (parent, name)" and find: "find_dir dev to_lower parent f = (Ok dir, f1)"
    and lists: "dir_lists content f dir ss ds listing" and P: "P = (\<lambda>l. names_match to_lower (de_name (lo_entry l)) name)"
    and old: "\<forall>l. List.find P listing = Some l \<longrightarrow> file_chain content f (de_cluster (lo_entry l)) os \<and> set os \<inter> set ds = {}"
    and run: "remove_file dev to_lower path f = (r, f')"
  shows "change_area content f ss ds os f'"
    "r = Ok () \<Longrightarrow> volume_ok content f' \<and> (\<exists>l before after. listing = before @ l # after \<and> List.find P listing = Some l
       \<and> dir_lists content f' dir ss ds (before @ after) \<and> (de_kind (lo_entry l) = Directory \<longrightarrow>
           (\<forall>ss2 ds2. dir_place content f (DirChain (de_cluster (lo_entry l))) ss2 ds2 \<longrightarrow> parse_located (place_bytes content f ss2) (fa_type f) = [])))"
    "device_error r \<or> r = Ok () \<or> remove_refused content f (List.find P listing) r"
proof -
  obtain r1 f2 where inner: "remove_inner dev to_lower path f = (r1, f2)" by fastforce
  then have fin: "finish_change dev r1 f2 = (r, f')" using run by (simp add: remove_file_def)
  note w = remove_inner_effect [OF vol path find lists P old inner]
  show area: "change_area content f ss ds os f'" using finish_area [OF vol conjunct1 [OF w] fin] .
  have inv2: "fat_inv content f2" and shape: "same_shape f f2" using changes_only_fields(1,2) [OF conjunct1 [OF w, unfolded change_area_def]] by auto
  have fs: "\<forall>s. fa_fsinfo f2 = Some s \<longrightarrow> s < fa_fat_start f2" using vol by (simp add: volume_ok_def same_shape_fields [OF shape])
  show "device_error r \<or> r = Ok () \<or> remove_refused content f (List.find P listing) r" using finish_change_effect(2) [OF inv2 fs fin] w by blast
  assume r: "r = Ok ()"
  have "r1 = Ok ()" using finish_change_effect(2) [OF inv2 fs fin] r by auto
  then obtain l before after where l: "fa_dirty f2 = None" "listing = before @ l # after" "List.find P listing = Some l" "dir_lists content f2 dir ss ds (before @ after)"
      "de_kind (lo_entry l) = Directory \<longrightarrow> (\<forall>ss2 ds2. dir_place content f (DirChain (de_cluster (lo_entry l))) ss2 ds2 \<longrightarrow> parse_located (place_bytes content f ss2) (fa_type f) = [])"
    using w by blast
  have vol2: "volume_ok content f2" using area_volume [OF vol conjunct1 [OF w] l(1)] .
  note fl = finish_listed [OF vol2 fin l(4)]
  have "volume_ok content f'" using area_volume [OF vol area fl(2)] .
  then show "volume_ok content f' \<and> (\<exists>l before after. listing = before @ l # after \<and> List.find P listing = Some l
       \<and> dir_lists content f' dir ss ds (before @ after) \<and> (de_kind (lo_entry l) = Directory \<longrightarrow>
           (\<forall>ss2 ds2. dir_place content f (DirChain (de_cluster (lo_entry l))) ss2 ds2 \<longrightarrow> parse_located (place_bytes content f ss2) (fa_type f) = [])))"
    using fl(1) l(2,3,5) by blast
qed

end

end
