(* ===== verification/Fat_Lookup.thy ===== *)
theory Fat_Lookup
  imports Fat_Volume
begin

text \<open>
  Looking names up: what \<open>metadata\<close> and \<open>read_file\<close> find in a directory is what the directory lists.
\<close>

lemma find_map: "List.find P (map g xs) = map_option g (List.find (\<lambda>x. P (g x)) xs)"
  by (induction xs) simp_all

lemma metadata_split:
  assumes "split_path path = (parent, name)" "name \<noteq> []"
  shows "metadata dev to_lower path f = fbind (find_dir dev to_lower parent) (\<lambda>dir. find_in dev to_lower dir name) f"
proof (cases "ursplit_once 0x2F (trim_end_matches 0x2F path)")
  case (Some x)
  then show ?thesis using assms by (cases x) (simp add: metadata_def split_path_def)
next
  case None
  have trim: "trim_end_matches 0x2F path = name" "parent = []" using assms(1) None by (auto simp: split_path_def)
  have clean: "0x2F \<notin> set name" using None trim(1) usplit_once_None [of "0x2F" "rev name"] by (auto simp: ursplit_once_def)
  have "rev (takeWhile (\<lambda>c. c = 0x2F) (rev path) @ dropWhile (\<lambda>c. c = 0x2F) (rev path)) = path" by simp
  then have "path = name @ rev (takeWhile (\<lambda>c. c = 0x2F) (rev path))" using trim(1) unfolding trim_end_matches_def rev_append by simp
  then have "hd path = hd name" "path \<noteq> []" using assms(2) by (metis hd_append2, metis append_is_Nil_conv)
  then have "trim_start_matches 0x2F path = path" using clean assms(2) by (cases path; cases name) (auto simp: trim_start_matches_def)
  then show ?thesis using assms None trim by (simp add: metadata_def)
qed


context block_device
begin

lemma fat_entries_listed:
  assumes inv: "fat_inv content f" and lists: "dir_lists content f dir ss ds listing" and run: "fat_entries dev dir f = (r, f')"
  shows "device_error r \<or> r = Ok (map lo_entry listing)"
proof -
  have coh: "coherent content f" using inv by (simp add: fat_inv_def)
  have place: "dir_place content f dir ss ds" and parsed: "parse_located (place_bytes content f ss) (fa_type f) = listing" using lists by (auto simp: dir_lists_def)
  define rd where "rd = (case dir of DirChain cluster \<Rightarrow> read_chain dev cluster None
      | DirRoot \<Rightarrow> (case fa_root f of RootFixed start sectors \<Rightarrow> read_sectors dev start sectors | RootChain cluster \<Rightarrow> read_chain dev cluster None))"
  obtain q f1 where q: "rd f = (q, f1)" by fastforce
  have "same_volume content f f1 \<and> (device_error q \<or> q = Ok (place_bytes content f ss))"
  proof (cases "dir_first f dir")
    case None
    then obtain start n where root: "dir = DirRoot" "fa_root f = RootFixed start n" by (auto simp: dir_first_def split: dir.splits root_dir.splits)
    then have ss: "ss = [start..<start + n]" using place None by (auto simp: dir_place_def)
    have "read_sectors dev start n f = (q, f1)" using q root by (simp add: rd_def)
    note v = read_sectors_view [OF coh this]
    have "map (\<lambda>s. content (fa_device f) (fa_start f + s)) [start..<start + n] = map (\<lambda>i. content (fa_device f) (fa_start f + (start + i))) [0..<n]"
      unfolding map_add_const_upt [symmetric] by (simp add: comp_def)
    then show ?thesis using v by (simp add: place_bytes_def ss)
  next
    case (Some first)
    then have s: "sound_chain content f first ds" "ss = chain_sectors f ds" using place by (auto simp: dir_place_def)
    have "read_chain dev first None f = (q, f1)" using q Some by (auto simp: rd_def dir_first_def split: dir.splits root_dir.splits)
    note v = read_chain_walk [OF coh this]
    have "chain_contents content f first None = (Ok (place_bytes content f ss) :: (byte list, 'e fat_error) result)"
      unfolding sound_chain_contents [OF s(1)] s(2) place_bytes_chain by simp
    then show ?thesis using v by auto
  qed
  moreover have "(case q of Err e \<Rightarrow> (Err e, f1) | Ok bytes \<Rightarrow> (Ok (parse_entries bytes (fa_type f1)), f1)) = (r, f')"
    using run q by (auto simp: fat_entries_def fbind_def rd_def split: result.splits)
  ultimately show ?thesis using parsed same_volume_fields(2) [of content f f1] by (auto simp: parse_entries_def)
qed

lemma find_in_listed:
  assumes inv: "fat_inv content f" and lists: "dir_lists content f dir ss ds listing" and run: "find_in dev to_lower dir name f = (r, f')"
    and found: "List.find (\<lambda>l. names_match to_lower (de_name (lo_entry l)) name) listing = Some l"
  shows "device_error r \<or> r = Ok (lo_entry l)"
proof -
  obtain q f1 where q: "fat_entries dev dir f = (q, f1)" by fastforce
  note e = fat_entries_listed [OF inv lists q]
  have "List.find (\<lambda>entry. names_match to_lower (de_name entry) name) (map lo_entry listing) = Some (lo_entry l)" using found by (simp add: find_map)
  then show ?thesis using run q e by (cases q) (auto simp: find_in_def fbind_def)
qed

lemma read_file_listed:
  assumes vol: "volume_ok content f" and path: "split_path path = (parent, name)" "name \<noteq> []" and dir: "find_dir dev to_lower parent f = (Ok dir, g)"
    and lists: "dir_lists content f dir ss ds listing" and found: "List.find (\<lambda>l. names_match to_lower (de_name (lo_entry l)) name) listing = Some l"
    and l: "de_kind (lo_entry l) = File" "de_size (lo_entry l) = length data" "file_holds content f (de_cluster (lo_entry l)) cs data"
    and run: "read_file dev to_lower path f = (q, f')"
  shows "device_error q \<or> q = Ok data"
proof -
  have inv: "fat_inv content f" using vol by (simp add: volume_ok_def)
  have ug: "untouched content f g" using find_parts_untouched [OF inv] dir by (simp add: find_dir_def)
  have invg: "fat_inv content g" using ug by (simp add: untouched_def)
  obtain q1 g1 where q1: "find_in dev to_lower dir name g = (q1, g1)" by fastforce
  have lists': "dir_lists content g dir ss ds listing" using lists untouched_lists [OF ug] by simp
  note f1 = find_in_listed [OF invg lists' q1 found]
  have u1: "untouched content f g1" using untouched_trans [OF ug find_in_untouched [OF invg q1]] .
  have "metadata dev to_lower path f = (q1, g1)" unfolding metadata_split [OF path] by (simp add: fbind_def dir q1)
  then have run': "(case q1 of Err e \<Rightarrow> (Err e, g1) | Ok entry \<Rightarrow> if de_kind entry \<noteq> File then (Err NotAFile, g1) else read_chain dev (de_cluster entry) (Some (de_size entry)) g1) = (q, f')"
    using run by (auto simp: read_file_def fbind_def split: result.splits)
  show ?thesis
  proof (cases "q1 = Ok (lo_entry l)")
    case False
    then show ?thesis using f1 run' by auto
  next
    case True
    then have rc: "read_chain dev (de_cluster (lo_entry l)) (Some (length data)) g1 = (q, f')" using run' l(1,2) by simp
    have coh: "coherent content g1" using u1 by (simp add: untouched_def fat_inv_def)
    have v: "fa_dirty f = None" "vol_ok f" using vol by (auto simp: volume_ok_def fat_inv_def)
    have "file_holds content g1 (de_cluster (lo_entry l)) cs data" by (rule chain_kept(3) [OF untouched_chains(3) [OF u1] v _ _ l(3)]) simp_all
    then have "chain_contents content g1 (de_cluster (lo_entry l)) (Some (length data)) = (Ok data :: (byte list, 'e fat_error) result)" by (rule chain_contents_type)
    then show ?thesis using read_chain_walk [OF coh rc] by auto
  qed
qed

end

end
