(* ===== verification/Fat_Create.thy ===== *)
theory Fat_Create
  imports Fat_Volume
begin

text \<open>
  \<open>create_dir\<close>: a new directory is written as one cluster with its two dot entries, and lists nothing.
\<close>

definition dot_entry :: "char list \<Rightarrow> nat \<Rightarrow> u16 \<times> u16 \<Rightarrow> byte list" where
  "dot_entry name cluster stamp = short_entry (ascii name) 0 ATTR_DIRECTORY (of_nat cluster) 0 stamp"

definition dir_contents :: "'d fat \<Rightarrow> nat \<Rightarrow> nat \<Rightarrow> byte list" where
  \<comment> \<open>the contents of a new directory in \<open>cluster\<close>\<close>
  "dir_contents f parent cluster =
     overwrite DIR_ENTRY_SIZE (dot_entry ''..         '' parent (fa_stamp f))
       (overwrite 0 (dot_entry ''.          '' cluster (fa_stamp f)) (replicate (cluster_size f) 0))"

declare parse_slots.simps(2) [simp del]

lemma dot_slot:
  assumes "name \<in> {''.          '', ''..         ''}" "reset_name ln"
  shows "\<exists>ln'. reset_name ln' \<and> parse_slots t i (dot_entry name cluster stamp # es) ln ls = parse_slots t (i + 1) es ln' ls"
    "length (dot_entry name cluster stamp) = DIR_ENTRY_SIZE" "\<not> long_piece (dot_entry name cluster stamp)"
    "dot_entry name cluster stamp ! 0 \<notin> {ENTRY_DELETED, ENTRY_END}"
proof -
  define e where "e = dot_entry name cluster stamp"
  have len: "length (ascii name) = 11" using assms(1) by (auto simp: ascii_def)
  note f = short_entry_fields [OF len e_def [unfolded dot_entry_def]]
  have first: "e ! 0 = 0x2E" using f(2) assms(1) by (auto simp: ascii_def)
  have "take 8 (ascii name) = [0x2E, 0x20, 0x20, 0x20, 0x20, 0x20, 0x20, 0x20] \<or> take 8 (ascii name) = [0x2E, 0x2E, 0x20, 0x20, 0x20, 0x20, 0x20, 0x20]"
      "drop 8 (ascii name) = [0x20, 0x20, 0x20]"
    using assms(1) by (auto simp: ascii_def)
  then have "short_name e = ustr ''.'' \<or> short_name e = ustr ''..''"
    using first f(5,6,7) by (auto simp: short_name_def short_part_def trim_end_def is_whitespace_def ustr_def ENTRY_KANJI_E5_def Let_def)
  moreover obtain name0 ln' where tk: "long_take (slice 0 11 e) ln = (name0, ln')" by fastforce
  moreover have "name0 = None" "reset_name ln'" using long_take_none [OF assms(2)] long_take_reset [of "slice 0 11 e" ln] tk by (metis fst_conv, simp)
  ultimately have "parse_slots t i (e # es) ln ls = parse_slots t (i + 1) es ln' ls"
    using first f(4) by (auto simp: parse_slots.simps(2) Let_def ENTRY_END_def ENTRY_DELETED_def ATTR_DIRECTORY_def ATTR_LONG_NAME_def ATTR_VOLUME_ID_def)
  then show "\<exists>ln'. reset_name ln' \<and> parse_slots t i (dot_entry name cluster stamp # es) ln ls = parse_slots t (i + 1) es ln' ls"
    using \<open>reset_name ln'\<close> unfolding e_def by blast
  show "length (dot_entry name cluster stamp) = DIR_ENTRY_SIZE" "\<not> long_piece (dot_entry name cluster stamp)"
      "dot_entry name cluster stamp ! 0 \<notin> {ENTRY_DELETED, ENTRY_END}"
    unfolding e_def [symmetric] using f(1,4) first by (simp_all add: DIR_ENTRY_SIZE_def long_piece_def ATTR_DIRECTORY_def ATTR_LONG_NAME_def ENTRY_END_def ENTRY_DELETED_def)
qed

lemma dir_contents_listed:
  assumes "2 * DIR_ENTRY_SIZE \<le> cluster_size f"
  shows "length (dir_contents f parent cluster) = cluster_size f" "dir_sound t (dir_slots (dir_contents f parent cluster))"
    "parse_located (dir_contents f parent cluster) t = []"
proof -
  define a b where "a = dot_entry ''.          '' cluster (fa_stamp f)" and "b = dot_entry ''..         '' parent (fa_stamp f)"
  have step: "\<exists>ln'. reset_name ln' \<and> parse_slots t i (e # es) ln ls = parse_slots t (i + 1) es ln' ls" if "e = a \<or> e = b" "reset_name ln" for e i es ln ls
    using that(1) dot_slot(1) [OF _ that(2)] unfolding a_def b_def by blast
  note dot = dot_slot(2-4) [OF _ reset_name_simps(2)]
  have len: "length a = DIR_ENTRY_SIZE" "length b = DIR_ENTRY_SIZE" unfolding a_def b_def by (rule dot(1), simp)+
  have e: "\<not> long_piece a" "\<not> long_piece b" "a ! 0 \<notin> {ENTRY_DELETED, ENTRY_END}" "b ! 0 \<notin> {ENTRY_DELETED, ENTRY_END}"
    unfolding a_def b_def by (rule dot(2), simp, rule dot(2), simp, rule dot(3), simp, rule dot(3), simp)
  have eq: "dir_contents f parent cluster = a @ b @ replicate (cluster_size f - 2 * DIR_ENTRY_SIZE) 0"
    using len assms unfolding dir_contents_def a_def [symmetric] b_def [symmetric] by (simp add: overwrite_def)
  then show "length (dir_contents f parent cluster) = cluster_size f" using len assms by simp
  have one: "dir_slots xs = [xs]" if "length xs = DIR_ENTRY_SIZE" for xs using that by (simp add: dir_slots_def DIR_ENTRY_SIZE_def slice_def)
  define zs where "zs = dir_slots (replicate (cluster_size f - 2 * DIR_ENTRY_SIZE) 0)"
  have slots: "dir_slots (dir_contents f parent cluster) = [a, b] @ zs"
    unfolding eq zs_def using dir_slots_append [of a "b @ _"] dir_slots_append [of b] len one by simp
  have z: "\<forall>e \<in> set zs. e ! 0 = ENTRY_END" unfolding zs_def using dir_slots_zeros by blast
  obtain ln1 where "reset_name ln1" "parse_slots t 0 [a, b] long_new 0 = parse_slots t 1 [b] ln1 0" using step [of a long_new 0 "[b]" 0] reset_name_simps(2) by auto
  moreover obtain ln2 where "parse_slots t 1 [b] ln1 0 = parse_slots t 2 [] ln2 0" using step [of b ln1 1 "[]" 0] \<open>reset_name ln1\<close> by auto
  ultimately have none: "parse_slots t 0 [a, b] long_new 0 = []" by simp
  have "dir_ok [a, b]" using e by (auto simp: dir_ok_def nth_Cons split: nat.splits)
  then have "dir_sound t [a, b]" using none e(2) by (simp add: dir_sound_def)
  from grown_sound [OF this z] show "dir_sound t (dir_slots (dir_contents f parent cluster))" "parse_located (dir_contents f parent cluster) t = []"
    using none by (simp_all add: slots parse_located_def)
qed

lemma option_fbind_steps:
  "m f = (Ok x, f') \<Longrightarrow> option_fbind m k f = k x f'" "m f = (Err e, f') \<Longrightarrow> option_fbind m k f = Some (Err e, f')"
  by (simp_all add: option_fbind_def)

definition create_refused ::
  "('d \<Rightarrow> lba \<Rightarrow> block) \<Rightarrow> 'd fat \<Rightarrow> dir \<Rightarrow> ustr \<Rightarrow> located option \<Rightarrow> (unit, 'e fat_error) result \<Rightarrow> bool" where
  \<comment> \<open>the errors of \<open>create_dir\<close> other than the device's, and when they may come\<close>
  "create_refused content f dir name existing r \<longleftrightarrow>
     (r = Err InvalidName \<and> check_name name = (Err InvalidName :: (unit, 'e fat_error) result)) \<or> (r = Err AlreadyExists \<and> existing \<noteq> None)
     \<or> (existing = None \<and> no_room content f dir True (cluster_size f) r)"

context block_device
begin

text \<open>A new chain, and a new entry for it.\<close>

lemma stored_add_step:
  assumes vol: "volume_ok content f" and lists: "dir_lists content f dir ss ds listing" and img: "img = \<lparr>di_sectors = ss, di_bytes = place_bytes content f ss\<rparr>"
    and name: "check_name name = (Ok () :: (unit, 'e fat_error) result)" "plain_name name" and attr: "attr \<in> {ATTR_ARCHIVE, ATTR_DIRECTORY}" and small: "len < 2 ^ 32"
    and run: "option_fbind (write_chain dev data) (\<lambda>first. \<lambda>f. map_option (give_back dev first) (add_entry dev dir img name attr first len f)) f = Some (r, f')"
  shows "changes_only content (free_set content f \<union> set ds) (sectors_in f (free_set content f) \<union> blocks_at f ss) f f' \<and>
    (r = Ok () \<longrightarrow> fa_dirty f' = None \<and> (\<exists>first cs ss' ds' before after l. length cs = clusters_needed f (length data) \<and> file_holds content f' first cs data
       \<and> listing = before @ after \<and> dir_lists content f' dir ss' ds' (before @ l # after) \<and> lo_entry l = entry_made f (fa_type f) name attr first len)) \<and>
    (device_error r \<or> r = Ok () \<or> no_room content f dir True (length data) r)"
proof -
  have inv: "fat_inv content f" and clean: "fa_dirty f = None" and pos: "0 < fa_cluster_count f" using vol by (auto simp: volume_ok_def fat_inv_def)
  obtain q f1 where q: "write_chain dev data f = (q, f1)" by fastforce
  obtain cs where cs: "set cs \<subseteq> free_set content f" "changes_only content (set cs) (sectors_in f (set cs)) f f1"
      "\<forall>first. q = Ok first \<longrightarrow> fa_dirty f1 = None \<and> file_holds content f1 first cs data \<and> length cs = clusters_needed f (length data)"
      "device_error q \<or> (\<exists>first. q = Ok first) \<or> (q = Err NoSpace \<and> card (free_set content f) < clusters_needed f (length data))"
    using write_chain_holds [OF inv clean pos q] by blast
  show ?thesis
  proof (cases q)
    case (Err e)
    have "changes_only content (free_set content f \<union> set ds) (sectors_in f (free_set content f) \<union> blocks_at f ss) f f1"
      using cs(1) sectors_in_mono [OF cs(1)] by (intro changes_only_mono [OF cs(2)]) auto
    then show ?thesis using run q cs(4) Err by (auto simp: option_fbind_def no_room_def)
  next
    case (Ok first)
    have h: "fa_dirty f1 = None" "file_holds content f1 first cs data" "length cs = clusters_needed f (length data)" using cs(3) Ok by blast+
    have shape: "same_shape f f1" and inv1: "fat_inv content f1" using changes_only_fields [OF cs(2)] by auto
    note same = same_shape_fields [OF shape] same_shape_dir [OF shape] same_shape_sectors [OF shape]
    note th = chain_then [OF vol lists cs(1,2) h(1)]
    have img1: "img = \<lparr>di_sectors = ss, di_bytes = place_bytes content f1 ss\<rparr>" by (simp add: img th(3))
    have pos1: "0 < fa_cluster_count f1" using pos by (simp add: same)
    have csds: "set cs \<inter> set ds = {}" using th(4) cs(1) by blast
    have run1: "map_option (give_back dev first) (add_entry dev dir img name attr first len f1) = Some (r, f')" using run q Ok by (simp add: option_fbind_def)
    note ag = add_then_give_back [OF inv1 h(1) pos1 th(2) img1 name attr small h(2) csds run1]
    have "file_chain content f1 first cs" using h(2) by (simp add: file_holds_def)
    then have fs: "free_set content f1 \<subseteq> free_set content f" using free_set_after [OF cs(2) clean _ cs(1)] by blast
    have only: "changes_only content (free_set content f \<union> set ds) (sectors_in f (free_set content f) \<union> blocks_at f ss) f f'"
      using fs sectors_in_mono [OF fs, of f] sectors_in_mono [OF cs(1), of f] cs(1) by (intro changes_only_mono [OF changes_only_trans [OF cs(2) ag(1)]]) (auto simp: same)
    have "no_room content f dir True (length data) r" if "room_error content f1 dir 21 r"
      using that free_set_shrinks [OF cs(2) clean] h(3) by (auto simp: room_error_def no_room_def same)
    then have fails: "device_error r \<or> r = Ok () \<or> no_room content f dir True (length data) r" using ag(3) by auto
    have made: "entry_made f1 (fa_type f1) name attr first len = entry_made f (fa_type f) name attr first len" by (simp add: entry_made_def same)
    have "\<exists>ss' ds' before after l. listing = before @ after \<and> dir_lists content f' dir ss' ds' (before @ l # after) \<and> lo_entry l = entry_made f (fa_type f) name attr first len"
      if "r = Ok ()" using ag(2) [OF that] unfolding made by fastforce
    then show ?thesis using only fails ag(2) h(3) by blast
  qed
qed

lemma new_dir_listed:
  assumes ok: "vol_ok f" and size: "cluster_size f' = cluster_size f" and holds: "file_holds content f' first cs (dir_contents f parent c)" and one: "length cs = 1"
  shows "dir_lists content f' (DirChain first) (chain_sectors f' [first]) [first] []"
proof -
  have big: "2 * DIR_ENTRY_SIZE \<le> cluster_size f" using ok by (cases "fa_spc f") (auto simp: vol_ok_def cluster_size_def BLOCK_SIZE_def DIR_ENTRY_SIZE_def)
  note dc = dir_contents_listed [OF big]
  let ?data = "dir_contents f parent c"
  have pos: "0 < length ?data" using big by (simp add: dc(1) DIR_ENTRY_SIZE_def)
  have "cs \<noteq> []" using one by auto
  then have sound: "sound_chain content f' first cs" using holds by (auto simp: file_holds_def file_chain_def split: if_splits)
  then have cs: "cs = [first]" using one sound_chain_hd [OF sound] by (cases cs) auto
  have "length (cluster_data content f' first) = length ?data" using dc(1) size by (simp add: cluster_data_length)
  moreover have "chain_contents content f' first (Some (length ?data)) = (Ok ?data :: (byte list, unit fat_error) result)" using holds by (simp add: file_holds_def)
  ultimately have data: "cluster_data content f' first = ?data"
    using pos unfolding sound_chain_contents [OF sound] cs by (auto simp: covered_def Let_def split: if_splits)
  then have bytes: "place_bytes content f' (chain_sectors f' [first]) = ?data" by (simp add: place_bytes_chain)
  have "dir_place content f' (DirChain first) (chain_sectors f' [first]) [first]" using sound cs by (simp add: dir_place_def dir_first_def)
  then show ?thesis unfolding dir_lists_def bytes using dc(2,3) by simp
qed

lemma create_inner_effect:
  assumes vol: "volume_ok content f" and path: "split_path path = (parent, name)" "plain_name name" and find: "find_dir dev to_lower parent f = (Ok dir, f1)"
    and lists: "dir_lists content f dir ss ds listing" and P: "P = (\<lambda>l. names_match to_lower (de_name (lo_entry l)) name)"
    and run: "create_dir_inner dev to_lower path f = Some (r, f')"
  shows "change_area content f ss ds [] f' \<and> (r = Ok () \<longrightarrow> fa_dirty f' = None \<and> (\<exists>ss' ds' listing' l. dir_lists content f' dir ss' ds' listing'
       \<and> entry_put P listing listing' l \<and> de_kind (lo_entry l) = Directory
       \<and> dir_lists content f' (DirChain (de_cluster (lo_entry l))) (chain_sectors f' [de_cluster (lo_entry l)]) [de_cluster (lo_entry l)] []))
    \<and> (device_error r \<or> r = Ok () \<or> create_refused content f dir name (List.find P listing) r)"
proof (cases "check_name name = (Ok () :: (unit, 'e fat_error) result)")
  case False
  then have "f' = f" "r \<noteq> Ok ()" "create_refused content f dir name (List.find P listing) r"
    using run path(1) by (auto simp: create_dir_inner_def option_fbind_def check_name_def create_refused_def Let_def split: if_splits)
  moreover have "fat_inv content f" using vol by (simp add: volume_ok_def)
  ultimately show ?thesis using untouched_area [OF untouched_refl [of content f]] by blast
next
  case ck: True
  obtain q2 f2 where q2: "load_dir dev dir f1 = (q2, f2)" by fastforce
  note ld = found_dir [OF vol lists find q2]
  define img where "img = \<lparr>di_sectors = ss, di_bytes = place_bytes content f ss\<rparr>"
  have t2: "fa_type f2 = fa_type f" using ld(1) same_shape_fields(2) by (auto simp: untouched_def)
  then have parsed: "parse_located (di_bytes img) (fa_type f2) = listing" using lists by (simp add: dir_lists_def img_def)
  have ex: "(\<exists>l \<in> set listing. names_match to_lower (de_name (lo_entry l)) name) \<longleftrightarrow> List.find P listing \<noteq> None"
    by (auto simp: P find_None_iff simp del: not_None_eq)
  obtain q3 f3 where q3: "begin_change dev f2 = (q3, f3)" by fastforce
  define parent_cluster where "parent_cluster = (case dir of DirRoot \<Rightarrow> 0 | DirChain c \<Rightarrow> c)"
  define step where "step = option_fbind (allocate dev 1) (\<lambda>clusters f. option_fbind (write_clusters dev [clusters ! 0] (dir_contents f parent_cluster (clusters ! 0)))
      (\<lambda>_. option_fbind (link dev [clusters ! 0]) (\<lambda>_ f. map_option (give_back dev (clusters ! 0)) (add_entry dev dir img name ATTR_DIRECTORY (clusters ! 0) 0 f))) f)"
  have run': "(case q2 of Err e \<Rightarrow> Some (Err e, f2) | Ok img' \<Rightarrow> if img' = img then if List.find P listing \<noteq> None then Some (Err AlreadyExists, f2)
      else (case q3 of Err e \<Rightarrow> Some (Err e, f3) | Ok _ \<Rightarrow> step f3) else Some (r, f')) = Some (r, f')"
    using run unfolding create_dir_inner_def Let_def path(1) prod.case parent_cluster_def dot_entry_def [symmetric] dir_contents_def [symmetric]
    by (cases q2; cases q3) (auto simp: option_fbind_steps find q2 q3 ck step_def ex parsed parent_cluster_def)
  have inv2: "fat_inv content f2" using ld(1) by (simp add: untouched_def)
  note bc = begin_change_view [OF inv2 q3]
  have u3: "untouched content f f3" using untouched_trans [OF ld(1) bc(1)] .
  show ?thesis
  proof (cases "q2 = Ok img \<and> List.find P listing = None \<and> q3 = Ok ()")
    case False
    then have "(f' = f2 \<or> f' = f3) \<and> r \<noteq> Ok ()" using run' ld(2) bc(2) by (auto simp: img_def split: result.splits if_splits)
    moreover have "device_error r \<or> create_refused content f dir name (List.find P listing) r"
      using False run' ld(2) bc(2) by (auto simp: img_def create_refused_def split: result.splits if_splits)
    ultimately show ?thesis using untouched_area [OF ld(1)] untouched_area [OF u3] by auto
  next
    case True
    note v = untouched_volume [OF u3 vol] and same = untouched_values [OF u3]
    have shape3: "same_shape f f3" and inv3: "fat_inv content f3" and pos3: "0 < fa_cluster_count f3" using u3 v(1) by (auto simp: untouched_def volume_ok_def)
    have lists3: "dir_lists content f3 dir ss ds listing" using lists untouched_lists [OF u3] by simp
    have img3: "img = \<lparr>di_sectors = ss, di_bytes = place_bytes content f3 ss\<rparr>" by (simp add: img_def same)
    have size: "cluster_size f3 = cluster_size f" "free_set content f3 = free_set content f" "dir_first f3 = dir_first f"
      using same_shape_views [OF shape3] same_shape_dir [OF shape3] same by simp_all
    obtain q4 f4 where q4: "allocate dev 1 f3 = (q4, f4)" by fastforce
    note al = allocate_free [OF inv3 q4 pos3] and u4 = untouched_trans [OF u3 allocate_untouched [OF inv3 q4 pos3]]
    have run3: "step f3 = Some (r, f')" using run' True by simp
    show ?thesis
    proof (cases q4)
      case (Err e)
      then have "r = Err e" "f' = f4" using run3 q4 by (simp_all add: step_def option_fbind_steps)
      moreover have "device_error r \<or> create_refused content f dir name (List.find P listing) r"
        using al(4) Err True \<open>r = Err e\<close> by (auto simp: create_refused_def no_room_def size split: if_splits)
      ultimately show ?thesis using untouched_area [OF u4] by auto
    next
      case (Ok clusters)
      then obtain c where c: "clusters = [c]" using al(4) by (auto simp: length_Suc_conv split: if_splits)
      define data where "data = dir_contents f4 parent_cluster c"
      have "same_shape f f4" using u4 by (simp add: untouched_def)
      then have size4: "cluster_size f4 = cluster_size f" using same_shape_views by metis
      have ok: "vol_ok f" using vol by (simp add: volume_ok_def fat_inv_def)
      have big: "2 * DIR_ENTRY_SIZE \<le> cluster_size f" using ok by (cases "fa_spc f") (auto simp: vol_ok_def cluster_size_def BLOCK_SIZE_def DIR_ENTRY_SIZE_def)
      then have data: "length data = cluster_size f" "0 < cluster_size f" using dir_contents_listed(1) [of f4] by (simp_all add: data_def size4 DIR_ENTRY_SIZE_def)
      have need: "clusters_needed f3 (length data) = 1" unfolding clusters_needed_def size data(1) by (rule div_nat_eqI) (use data(2) in simp_all)
      have ne: "data \<noteq> []" using data by auto
      have eq: "step f3 = option_fbind (write_chain dev data) (\<lambda>first f. map_option (give_back dev first) (add_entry dev dir img name ATTR_DIRECTORY first 0 f)) f3"
        using q4 Ok need ne unfolding step_def write_chain_def clusters_needed_def
        by (simp add: option_fbind_steps c option_fbind_def fbind_def data_def split: result.splits prod.splits)
      have small: "(0 :: nat) < 2 ^ 32" and attr: "ATTR_DIRECTORY \<in> {ATTR_ARCHIVE, ATTR_DIRECTORY}" by simp_all
      note st = stored_add_step [OF v(1) lists3 img3 ck path(2) attr small run3 [unfolded eq]]
      have area: "change_area content f ss ds [] f'" using untouched_changes [OF u3 conjunct1 [OF st]] by (intro change_areaI) (auto simp: same)
      have fails: "device_error r \<or> r = Ok () \<or> create_refused content f dir name (List.find P listing) r"
        using st True data(1) by (auto simp: create_refused_def no_room_def clusters_needed_def size)
      have "\<exists>ss' ds' listing' l. dir_lists content f' dir ss' ds' listing' \<and> entry_put P listing listing' l \<and> de_kind (lo_entry l) = Directory
       \<and> dir_lists content f' (DirChain (de_cluster (lo_entry l))) (chain_sectors f' [de_cluster (lo_entry l)]) [de_cluster (lo_entry l)] []" if "r = Ok ()"
      proof -
        obtain first cs ss' ds' before after l where l: "length cs = clusters_needed f3 (length data)" "file_holds content f' first cs data"
            "listing = before @ after" "dir_lists content f' dir ss' ds' (before @ l # after)" "lo_entry l = entry_made f3 (fa_type f3) name ATTR_DIRECTORY first 0"
          using st \<open>r = Ok ()\<close> by blast
        have "P l" by (simp add: P l(5) names_match_def entry_made_def)
        moreover have "\<forall>y \<in> set before. \<not> P y" using True l(3) by (auto simp: find_None_iff)
        ultimately have put: "entry_put P listing (before @ l # after) l" using True l(3) find_append_new unfolding entry_put_def by auto
        have "same_shape f f'" using changes_only_fields(1) [OF area [unfolded change_area_def]] .
        then have "cluster_size f' = cluster_size f4" using same_shape_views size4 by metis
        moreover have "vol_ok f4" using u4 by (simp add: untouched_def fat_inv_def)
        ultimately have "dir_lists content f' (DirChain first) (chain_sectors f' [first]) [first] []"
          using new_dir_listed l(1,2) need unfolding data_def by simp
        then show ?thesis using l(4) put
          by (intro exI [of _ ss'] exI [of _ ds'] exI [of _ "before @ l # after"] exI [of _ l]) (simp add: l(5) entry_made_def)
      qed
      then show ?thesis using area fails st by blast
    qed
  qed
qed

lemma create_dir_effect:
  assumes vol: "volume_ok content f" and path: "split_path path = (parent, name)" "plain_name name" and find: "find_dir dev to_lower parent f = (Ok dir, f1)"
    and lists: "dir_lists content f dir ss ds listing" and P: "P = (\<lambda>l. names_match to_lower (de_name (lo_entry l)) name)"
    and run: "create_dir dev to_lower path f = Some (r, f')"
  shows "change_area content f ss ds [] f'"
    "r = Ok () \<Longrightarrow> volume_ok content f' \<and> (\<exists>ss' ds' listing' l. dir_lists content f' dir ss' ds' listing' \<and> entry_put P listing listing' l
       \<and> de_kind (lo_entry l) = Directory \<and> dir_lists content f' (DirChain (de_cluster (lo_entry l))) (chain_sectors f' [de_cluster (lo_entry l)]) [de_cluster (lo_entry l)] [])"
    "device_error r \<or> r = Ok () \<or> create_refused content f dir name (List.find P listing) r"
proof -
  obtain r1 f2 where inner: "create_dir_inner dev to_lower path f = Some (r1, f2)" and fin: "finish_change dev r1 f2 = (r, f')"
    using run by (auto simp: create_dir_def)
  note w = create_inner_effect [OF vol path find lists P inner]
  show area: "change_area content f ss ds [] f'" using finish_area [OF vol conjunct1 [OF w] fin] .
  have inv2: "fat_inv content f2" and shape: "same_shape f f2" using changes_only_fields(1,2) [OF conjunct1 [OF w, unfolded change_area_def]] by auto
  have fs: "\<forall>s. fa_fsinfo f2 = Some s \<longrightarrow> s < fa_fat_start f2" using vol by (simp add: volume_ok_def same_shape_fields [OF shape])
  show "device_error r \<or> r = Ok () \<or> create_refused content f dir name (List.find P listing) r" using finish_change_effect(2) [OF inv2 fs fin] w by blast
  assume r: "r = Ok ()"
  have "r1 = Ok ()" using finish_change_effect(2) [OF inv2 fs fin] r by auto
  then obtain ss' ds' listing' l where l: "fa_dirty f2 = None" "dir_lists content f2 dir ss' ds' listing'" "entry_put P listing listing' l" "de_kind (lo_entry l) = Directory"
      "dir_lists content f2 (DirChain (de_cluster (lo_entry l))) (chain_sectors f2 [de_cluster (lo_entry l)]) [de_cluster (lo_entry l)] []"
    using w by blast
  have vol2: "volume_ok content f2" using area_volume [OF vol conjunct1 [OF w] l(1)] .
  note fl = finish_listed [OF vol2 fin]
  have "volume_ok content f'" using area_volume [OF vol area fl(2) [OF l(2)]] .
  moreover have "chain_sectors f' = chain_sectors f2"
    using same_shape_dir [OF changes_only_fields(1) [OF finish_change_effect(1) [OF inv2 fs fin]]] by simp
  ultimately show "volume_ok content f' \<and> (\<exists>ss' ds' listing' l. dir_lists content f' dir ss' ds' listing' \<and> entry_put P listing listing' l
       \<and> de_kind (lo_entry l) = Directory \<and> dir_lists content f' (DirChain (de_cluster (lo_entry l))) (chain_sectors f' [de_cluster (lo_entry l)]) [de_cluster (lo_entry l)] [])"
    using fl(1) [OF l(2)] fl(1) [OF l(5)] l(3,4) by metis
qed

end

end
