(* ===== verification/Fat.thy ===== *)
theory Fat
  imports Fat_Lookup Fat_Create
begin

text \<open>
  The in-memory disk of \<open>block.rs\<close>, which keeps the laws of a block device, and the properties of the FAT filesystem: how
  chains are read and written, and what writing and removing files does to a volume.
\<close>

subsection \<open>The disk in memory\<close>

typedef sector = "{b :: block. length b = BLOCK_SIZE}"
  by (rule exI [of _ "replicate BLOCK_SIZE 0"]) simp

record memory_disk =
  md_blocks :: "lba \<rightharpoonup> sector"
  md_reads :: nat
  md_commands :: nat
  md_writes :: nat

definition memory_content :: "memory_disk \<Rightarrow> lba \<Rightarrow> block" where
  "memory_content d l = (case md_blocks d l of Some b \<Rightarrow> Rep_sector b | None \<Rightarrow> replicate BLOCK_SIZE 0)"

definition memory_read_blocks :: "lba \<Rightarrow> nat \<Rightarrow> memory_disk \<Rightarrow> (block list, string) result \<times> memory_disk" where
  "memory_read_blocks lba n d =
     (Ok (map (\<lambda>i. memory_content d (lba + i)) [0..<n]), d\<lparr>md_commands := md_commands d + 1, md_reads := md_reads d + n\<rparr>)"

definition memory_read_block :: "(memory_disk, string) read_block" where
  "memory_read_block lba d = (case memory_read_blocks lba 1 d of (Ok bs, d) \<Rightarrow> (Ok (hd bs), d) | (Err e, d) \<Rightarrow> (Err e, d))"

definition memory_write_block :: "(memory_disk, string) write_block" where
  "memory_write_block lba b d = (Ok (), d\<lparr>md_writes := md_writes d + 1, md_blocks := (md_blocks d)(lba \<mapsto> Abs_sector b)\<rparr>)"

definition memory_device :: "(memory_disk, string) device" where
  "memory_device = \<lparr>dv_read = memory_read_block, dv_read_blocks = memory_read_blocks, dv_write = memory_write_block,
     dv_write_blocks = write_blocks memory_write_block\<rparr>"

lemma memory_content_length: "length (memory_content d l) = BLOCK_SIZE"
  using Rep_sector by (auto simp: memory_content_def split: option.split)

lemma memory_write_content:
  "length b = BLOCK_SIZE \<Longrightarrow> memory_content (snd (memory_write_block l b d)) = (memory_content d)(l := b)"
  by (auto simp: fun_eq_iff memory_content_def memory_write_block_def Abs_sector_inverse)

lemma memory_write_blocks_content:
  "\<forall>b \<in> set bs. length b = BLOCK_SIZE \<Longrightarrow> write_blocks_from memory_write_block l i bs d = (u, d') \<Longrightarrow>
   u = Ok () \<and> memory_content d' = (\<lambda>k. if l + i \<le> k \<and> k < l + i + length bs then bs ! (k - (l + i)) else memory_content d k)"
proof (induction bs arbitrary: i d)
  case (Cons b bs)
  let ?d = "snd (memory_write_block (l + i) b d)"
  have run: "write_blocks_from memory_write_block l (i + 1) bs ?d = (u, d')"
  proof -
    obtain d1 where d1: "memory_write_block (l + i) b d = (Ok (), d1)" by (simp add: memory_write_block_def)
    then show ?thesis using Cons.prems(2) by (simp add: lba_offset_def)
  qed
  have c: "memory_content ?d = (memory_content d)(l + i := b)" using Cons.prems(1) memory_write_content by simp
  have "(if l + (i + 1) \<le> k \<and> k < l + (i + 1) + length bs then bs ! (k - (l + (i + 1))) else memory_content ?d k)
      = (if l + i \<le> k \<and> k < l + i + length (b # bs) then (b # bs) ! (k - (l + i)) else memory_content d k)" for k
    unfolding c by (cases "k = l + i"; cases "k < l + i") (auto simp: nth_Cons' fun_upd_def)
  then show ?case using Cons.IH [OF _ run] Cons.prems(1) by simp
qed (auto simp: fun_eq_iff)

interpretation memory: block_device memory_device memory_content
proof (unfold_locales, goal_cases)
  case (1 l d r d')
  then show ?case by (auto simp: memory_device_def memory_read_block_def memory_read_blocks_def memory_content_def fun_eq_iff)
next
  case (2 l n d q d')
  then show ?case by (auto simp: memory_device_def memory_read_blocks_def memory_content_def fun_eq_iff)
next
  case (3 d l)
  then show ?case by (rule memory_content_length)
next
  case (4 b l d u d')
  then show ?case using memory_write_content [OF 4(1), of l d] by (auto simp: memory_device_def memory_write_block_def)
next
  case (5 bs l d u d')
  have "write_blocks_from memory_write_block l 0 bs d = (u, d')" using 5(2) by (simp add: memory_device_def write_blocks_def)
  from memory_write_blocks_content [OF 5(1) this] show ?case by auto
qed

text \<open>A volume for the examples: ten clusters of one sector, the second and third chained, and a file of these in the root.\<close>

definition example_entry :: "byte list" where
  "example_entry = short_entry (65 # replicate 10 0x20) CASE_LOWER_BASE ATTR_ARCHIVE 2 600 DEFAULT_STAMP"

definition example_disk :: memory_disk where
  "example_disk = \<lparr>md_blocks = [1 \<mapsto> Abs_sector (overwrite 4 [3, 0, 0xFF, 0xFF] (replicate BLOCK_SIZE 0)),
     3 \<mapsto> Abs_sector (example_entry @ replicate 480 0)], md_reads = 0, md_commands = 0, md_writes = 0\<rparr>"

definition example_volume :: "memory_disk fat" where
  "example_volume = \<lparr>fa_device = example_disk, fa_start = 0, fa_type = Fat16, fa_spc = 1, fa_fat_start = 1, fa_root = RootFixed 3 1,
     fa_data_start = 4, fa_cluster_count = 10, fa_label = [], fa_fat_count = 2, fa_fat_size = 1, fa_fsinfo = None, fa_free_count = None,
     fa_cache = None, fa_dirty = None, fa_stamp = DEFAULT_STAMP, fa_next_free = 2\<rparr>"

lemma example_inv: "fat_inv memory_content example_volume" "coherent memory_content example_volume" "fa_dirty example_volume = None"
  by (simp_all add: fat_inv_def vol_ok_def coherent_def example_volume_def entry_width_def BLOCK_SIZE_def chain_bad_def)

lemma example_table:
  "n < 12 \<Longrightarrow> fat_value memory_content example_volume n = (if n = 2 then 3 else if n = 3 then 0xFFFF else 0)"
proof -
  assume n: "n < 12"
  have blk: "memory_content example_disk 1 = overwrite 4 [3, 0, 0xFF, 0xFF] (replicate BLOCK_SIZE 0)"
    by (simp add: memory_content_def example_disk_def Abs_sector_inverse overwrite_def BLOCK_SIZE_def)
  have "list_all (\<lambda>n. unat (fat_decode Fat16 (overwrite 4 [3, 0, 0xFF, 0xFF] (replicate 512 0)) (n * 2)) = (if n = 2 then 3 else if n = 3 then 0xFFFF else 0)) [0..<12]"
    by (simp add: upt_rec fat_decode_def fu16_def entry_mask_def overwrite_def nth_append)
  then have "unat (fat_decode Fat16 (overwrite 4 [3, 0, 0xFF, 0xFF] (replicate 512 0)) (n * 2)) = (if n = 2 then 3 else if n = 3 then 0xFFFF else 0)"
    using n by (simp add: list_all_iff)
  then show ?thesis using n blk
    by (simp add: fat_value_seen seen_block_def fat_position_def example_volume_def entry_width_def BLOCK_SIZE_def Let_def)
qed

subsection \<open>Reading and writing chains\<close>

text \<open>C8: On any block device, and on corrupt volumes too, \<open>read_chain\<close> reads exactly what following the table one cluster at
  a time gives: the data of the clusters up to the size asked for, or the error of the first cluster that is out of range or marked bad, of a
  chain longer than the volume, or of a chain shorter than the file. The only other outcome is an error of the device. Reading in runs of
  consecutive clusters, the cache and the pending sector change nothing, and reading leaves the volume as it was.\<close>

theorem chain_read:
  assumes "readable_device dev content" "coherent content f" "read_chain dev first limit f = (r, f')"
  shows "((\<exists>e. r = Err (Device e)) \<or> r = chain_contents content f first limit) \<and> same_volume content f f'"
  using readable_device.read_chain_walk [OF assms] by blast

lemma example_walk:
  "chain_walk memory_content example_volume limit 10 (Some 2) 0
     = (if covered limit 0 then Ok [] else if covered limit 512 then Ok [2] else (Ok [2, 3] :: (nat list, 'e fat_error) result))"
proof -
  have step: "fat_step memory_content example_volume 2 = (Ok (Some 3) :: (nat option, 'e fat_error) result)"
      "fat_step memory_content example_volume 3 = (Ok None :: (nat option, 'e fat_error) result)"
    using example_table [of 2] example_table [of 3] by (simp_all add: fat_step_def chain_end_def chain_bad_def example_volume_def Let_def)
  have ok: "cluster_ok example_volume 2" "cluster_ok example_volume 3" "cluster_size example_volume = 512"
    by (simp_all add: cluster_ok_def example_volume_def cluster_size_def BLOCK_SIZE_def)
  have ten: "(10 :: nat) = Suc (Suc 8)" by simp
  show ?thesis unfolding ten by (simp add: chain_walk.simps step ok)
qed

theorem chain_read_witness:
  "\<exists>r f'. read_chain memory_device 2 (Some 600) example_volume = (r, f') \<and> ((\<exists>e. r = Err (Device e)) \<or> r = Ok (replicate 600 0))
     \<and> same_volume memory_content example_volume f'"
proof -
  obtain r f' where run: "read_chain memory_device 2 (Some 600) example_volume = (r, f')" by fastforce
  have "chain_walk memory_content example_volume (Some 600) 10 (Some 2) 0 = (Ok [2, 3] :: (nat list, string fat_error) result)"
    by (simp add: example_walk covered_def)
  moreover have "cluster_data memory_content example_volume 2 = replicate 512 0" "cluster_data memory_content example_volume 3 = replicate 512 0"
    by (simp_all add: cluster_data_def first_sector_def example_volume_def example_disk_def memory_content_def BLOCK_SIZE_def)
  ultimately have "chain_contents memory_content example_volume 2 (Some 600) = (Ok (replicate 600 0) :: (byte list, string fat_error) result)"
    by (simp add: chain_contents_def example_volume_def flip: replicate_add)
  then show ?thesis using chain_read [OF memory.readable_device_axioms example_inv(2) run] run by auto
qed

text \<open>C5: Writing a file's data: unless the device fails, \<open>write_chain\<close> fails only when fewer clusters are free than the data
  needs, and otherwise the chain it returns reads back as the data. Whatever happens, an error of the device at any point included, every chain
  that was sound before is sound afterwards with the same clusters and the same data, as the mounted volume sees it and as a later mount
  finds it on the disk.\<close>

theorem chain_written:
  fixes dev :: "('d, 'e) device"
  assumes "block_device dev content" "fat_inv content f" "fa_dirty f = None" "0 < fa_cluster_count f" "data \<noteq> []"
    "write_chain dev data f = (r, f')"
  shows "chains_kept content f f' \<and> ((\<exists>e. r = Err (Device e)) \<or>
    (if card (free_set content f) < clusters_needed f (length data) then r = Err NoSpace
     else \<exists>first. r = Ok first \<and> (\<forall>q f''. read_chain dev first (Some (length data)) f' = (q, f'') \<longrightarrow> (\<exists>e. q = Err (Device e)) \<or> q = Ok data)))"
proof -
  obtain cs where st: "chain_stored content f data r f' cs" using block_device.write_chain_effect [OF assms(1-4,6,5)] by blast
  then have free: "set cs \<subseteq> free_set content f" and only: "changes_only content (set cs) (sectors_in f (set cs)) f f'"
    unfolding chain_stored_def by blast+
  have ok: "vol_ok f" using assms(2) by (simp add: fat_inv_def)
  have coh: "coherent content f'" using changes_only_fields(2) [OF only] by (simp add: fat_inv_def)
  note reads = readable_device.read_chain_walk [OF block_device.axioms(1) [OF assms(1)] coh]
  have "chains_kept content f f'"
    using free by (intro changes_only_kept [OF only assms(3)] free_not_sound ok) (auto simp: free_set_def)
  moreover have "(\<exists>e. q = Err (Device e)) \<or> q = Ok data"
    if "chain_contents content f' first (Some (length data)) = (Ok data :: (byte list, 'e fat_error) result)" "read_chain dev first (Some (length data)) f' = (q, f'')" for first q f''
    using reads [OF that(2)] that(1) by simp
  ultimately show ?thesis using st unfolding chain_stored_def
    by (cases "card (free_set content f) < clusters_needed f (length data)") (simp_all, blast+)
qed

lemma example_free: "4 \<in> free_set memory_content example_volume" "\<not> card (free_set memory_content example_volume) < 1"
proof -
  show m: "4 \<in> free_set memory_content example_volume" 
  proof -
    have "fa_cluster_count example_volume = 10" by (simp add: example_volume_def)
    then show ?thesis using example_table [of 4] by (simp add: free_set_def)
  qed
  have "finite (free_set memory_content example_volume)" by (rule finite_subset [of _ "{..<12}"]) (auto simp: free_set_def example_volume_def)
  then show "\<not> card (free_set memory_content example_volume) < 1" using m by (auto simp: card_eq_0_iff)
qed

lemma example_sound: "sound_chain memory_content example_volume 2 [2, 3]"
proof -
  have "fa_cluster_count example_volume = 10" by (simp add: example_volume_def)
  then show ?thesis by (simp add: sound_chain_def example_walk covered_def)
qed

theorem chain_written_witness:
  "\<exists>r f'. write_chain memory_device [1, 2, 3] example_volume = (r, f') \<and> sound_chain memory_content f' 2 [2, 3]
     \<and> ((\<exists>e. r = Err (Device e)) \<or> (\<exists>first. r = Ok first \<and> (\<forall>q f''. read_chain memory_device first (Some 3) f' = (q, f'') \<longrightarrow> (\<exists>e. q = Err (Device e)) \<or> q = Ok [1, 2, 3])))"
proof -
  obtain r f' where run: "write_chain memory_device [1, 2, 3] example_volume = (r, f')" by fastforce
  have pos: "0 < fa_cluster_count example_volume" by (simp add: example_volume_def)
  have need: "clusters_needed example_volume 3 = 1" by (simp add: clusters_needed_def cluster_size_def example_volume_def BLOCK_SIZE_def)
  have len: "length [1 :: byte, 2, 3] = 3" by simp
  note w = chain_written [OF memory.block_device_axioms example_inv(1,3) pos _ run, unfolded len need if_not_P [OF example_free(2)]]
  then show ?thesis using run example_sound by (auto simp: chains_kept_def)
qed


subsection \<open>Writing and removing files\<close>

definition entry_named :: "(codepoint \<Rightarrow> codepoint list) \<Rightarrow> ustr \<Rightarrow> located \<Rightarrow> bool" where
  "entry_named to_lower name l \<longleftrightarrow> names_match to_lower (de_name (lo_entry l)) name"

lemma entry_named_eq: "entry_named to_lower name = (\<lambda>l. names_match to_lower (de_name (lo_entry l)) name)"
  by (simp add: fun_eq_iff entry_named_def)

definition others_kept :: "('d \<Rightarrow> lba \<Rightarrow> block) \<Rightarrow> 'd fat \<Rightarrow> nat set \<Rightarrow> 'd fat \<Rightarrow> bool" where
  \<comment> \<open>every chain apart from \<open>A\<close> is as it was, on the disk too\<close>
  "others_kept content f A f' \<longleftrightarrow> (\<forall>first cs. sound_chain content f first cs \<and> set cs \<inter> A = {} \<longrightarrow>
     sound_chain content f' first cs \<and> sound_chain content (remounted f') first cs \<and> (\<forall>c \<in> set cs. cluster_data content f' c = cluster_data content f c))"

lemma others_keptI:
  assumes "change_area content f ss ds os f'" "volume_ok content f" "dir_lists content f dir ss ds listing"
  shows "others_kept content f (set ds \<union> set os) f'"
  unfolding others_kept_def using area_keeps [OF assms(1,2)] assms(3) unfolding dir_lists_def by blast

text \<open>C4: Writing a file into a sound directory of a sound volume. Whatever the outcome, a failure of the device at any point included,
  every chain but those of the directory and of the file that is replaced is left whole with its data, as the mounted volume sees it and as a later mount finds it on the
  disk. Apart from the device it fails only when the data is 4 GiB or more, the name is not one FAT can store, the name is a directory's, too few clusters are
  free, or the fixed root directory is full. When it succeeds the directory is sound again, and lists the file in the place of the one that was replaced, or one
  entry more and all others as before; and reading the path gives the data that was written, if its parent leads to the same directory and the device does not fail.\<close>

theorem file_written:
  fixes dev :: "('d, 'e) device"
  assumes "block_device dev content" "volume_ok content f" "split_path path = (parent, name)" "plain_name name"
    "find_dir dev to_lower parent f = (Ok dir, f1)" "dir_lists content f dir ss ds listing"
    "case List.find (entry_named to_lower name) listing of None \<Rightarrow> os = []
     | Some l \<Rightarrow> de_kind (lo_entry l) = File \<longrightarrow> file_chain content f (de_cluster (lo_entry l)) os \<and> set os \<inter> set ds = {}"
    "write_file dev to_lower path data f = Some (r, f')"
  shows "others_kept content f (set ds \<union> set os) f' \<and>
    ((\<exists>e. r = Err (Device e)) \<or> r = Ok () \<or> write_refused content f dir name data (List.find (entry_named to_lower name) listing) r) \<and>
    (r = Ok () \<longrightarrow> volume_ok content f' \<and> (\<exists>ss' ds' listing' l. dir_lists content f' dir ss' ds' listing' \<and> entry_put (entry_named to_lower name) listing listing' l
       \<and> de_kind (lo_entry l) = File \<and> de_size (lo_entry l) = length data)
     \<and> (\<forall>g q f''. find_dir dev to_lower parent f' = (Ok dir, g) \<longrightarrow> read_file dev to_lower path f' = (q, f'') \<longrightarrow> (\<exists>e. q = Err (Device e)) \<or> q = Ok data))"
proof -
  have old: "\<forall>l. List.find (entry_named to_lower name) listing = Some l \<longrightarrow> de_kind (lo_entry l) = File \<longrightarrow>
      file_chain content f (de_cluster (lo_entry l)) os \<and> set os \<inter> set ds = {}" and none: "List.find (entry_named to_lower name) listing = None \<longrightarrow> os = []"
    using assms(7) by (auto split: option.splits)
  note w = block_device.write_file_effect [OF assms(1-6) entry_named_eq old none assms(8)]
  have "(\<exists>e. q = Err (Device e)) \<or> q = Ok data" if ok: "r = Ok ()" and dir: "find_dir dev to_lower parent f' = (Ok dir, g)" and run: "read_file dev to_lower path f' = (q, f'')" for g q f''
  proof -
    obtain cs ss' ds' listing' l where vol: "volume_ok content f'" "name \<noteq> []" and l: "dir_lists content f' dir ss' ds' listing'" "entry_put (entry_named to_lower name) listing listing' l"
        "de_kind (lo_entry l) = File" "de_size (lo_entry l) = length data" "file_holds content f' (de_cluster (lo_entry l)) cs data" using w(2) [OF ok] by blast
    have "List.find (\<lambda>l. names_match to_lower (de_name (lo_entry l)) name) listing' = Some l" using l(2) by (simp add: entry_put_def entry_named_eq)
    from block_device.read_file_listed [OF assms(1) vol(1) assms(3) vol(2) dir l(1) this l(3-5) run] show ?thesis .
  qed
  then show ?thesis using others_keptI [OF w(1) assms(2,6)] w(2,3) by blast
qed

text \<open>C6: Removing a file or a directory from a sound directory. Whatever the outcome, every chain but those of the directory and of what is removed is left
  whole with its data, on the disk too. Apart from the device it fails only when there is no such name, or the name is a directory's that is not sound and
  empty. When it succeeds the directory is sound again and lists all it listed but the entry of that name; and a directory is removed only
  when it lists nothing.\<close>

theorem file_removed:
  fixes dev :: "('d, 'e) device"
  assumes "block_device dev content" "volume_ok content f" "split_path path = (parent, name)"
    "find_dir dev to_lower parent f = (Ok dir, f1)" "dir_lists content f dir ss ds listing"
    "\<forall>l. List.find (entry_named to_lower name) listing = Some l \<longrightarrow> file_chain content f (de_cluster (lo_entry l)) os \<and> set os \<inter> set ds = {}"
    "remove_file dev to_lower path f = (r, f')"
  shows "others_kept content f (set ds \<union> set os) f' \<and>
    ((\<exists>e. r = Err (Device e)) \<or> r = Ok () \<or> remove_refused content f (List.find (entry_named to_lower name) listing) r) \<and>
    (r = Ok () \<longrightarrow> volume_ok content f' \<and> (\<exists>l before after. listing = before @ l # after \<and> List.find (entry_named to_lower name) listing = Some l
       \<and> dir_lists content f' dir ss ds (before @ after) \<and> (de_kind (lo_entry l) = Directory \<longrightarrow>
           (\<forall>ss2 ds2. dir_place content f (DirChain (de_cluster (lo_entry l))) ss2 ds2 \<longrightarrow> parse_located (place_bytes content f ss2) (fa_type f) = []))))"
proof -
  note w = block_device.remove_effect [OF assms(1-5) entry_named_eq assms(6,7)]
  then show ?thesis using others_keptI [OF w(1) assms(2,5)] w(3) by blast
qed


subsection \<open>Running to the end\<close>

lemma add_entry_returns:
  assumes "length (dir_slots (di_bytes img)) < 10 ^ 7 - 1"
  shows "add_entry dev dir img name attr cluster len f \<noteq> None"
proof -
  have "length (short_names img) \<le> length (dir_slots (di_bytes img))"
    unfolding short_names_def length_map by (rule order_trans [OF length_filter_le length_takeWhile_le])
  then have "\<exists>short. alias_name name (short_names img) = Some short" using assms by (intro alias_name_found(1)) simp
  then show ?thesis by (auto simp: add_entry_def new_entries_def split: option.split prod.split)
qed

lemma option_fbind_None: "option_fbind m k f = None \<longleftrightarrow> (\<exists>x f'. m f = (Ok x, f') \<and> k x f' = None)"
  by (auto simp: option_fbind_def split: prod.split result.split)

lemma writes_return:
  fixes dev :: "('d, 'e) device"
  assumes "block_device dev content" "volume_ok content f" "split_path path = (parent, name)"
    "\<forall>dir f1. find_dir dev to_lower parent f = (Ok dir, f1) \<longrightarrow> (\<exists>ss ds listing. dir_lists content f dir ss ds listing \<and> length ss < 624999)"
  shows "(\<exists>r f'. write_file dev to_lower path data f = Some (r, f')) \<and> (\<exists>r f'. create_dir dev to_lower path f = Some (r, f'))"
proof -
  have few: "length (dir_slots (di_bytes img)) < 10 ^ 7 - 1"
    if find: "find_dir dev to_lower parent f = (Ok dir, f1)" and load: "load_dir dev dir f1 = (Ok img, f2)" for dir f1 img f2
  proof -
    obtain ss ds listing where l: "dir_lists content f dir ss ds listing" "length ss < 624999" using assms(4) find by blast
    have "di_bytes img = place_bytes content f ss" using block_device.found_dir(2) [OF assms(1,2) l(1) find load] by auto
    then show ?thesis using l(2) by (simp add: block_device.length_place_bytes [OF assms(1)] BLOCK_SIZE_def DIR_ENTRY_SIZE_def)
  qed
  have give: "add_entry dev dir img name attr cluster len h \<noteq> None"
    if "find_dir dev to_lower parent f = (Ok dir, f1)" "load_dir dev dir f1 = (Ok img, f2)" for dir img attr cluster len h f1 f2
    using add_entry_returns [OF few [OF that]] by simp
  have "write_file_inner dev to_lower path data f \<noteq> None"
    unfolding write_file_inner_def assms(3) Let_def prod.case
    by (auto iff del: not_None_eq simp: option_fbind_None dest: give split: option.splits if_splits)
  moreover have "create_dir_inner dev to_lower path f \<noteq> None"
    unfolding create_dir_inner_def assms(3) Let_def prod.case
    by (auto iff del: not_None_eq simp: option_fbind_None dest: give split: option.splits if_splits)
  ultimately show ?thesis by (auto simp: write_file_def create_dir_def)
qed


subsection \<open>The example\<close>

lemma example_name: "check_name (ustr ''a'') = (Ok () :: (unit, 'e fat_error) result)" "plain_name (ustr ''a'')"
    "exact_short_name (ustr ''a'') = Some (65 # replicate 10 0x20, CASE_LOWER_BASE)" "split_path (ustr ''a'') = ([], ustr ''a'')"
proof -
  have a: "ustr ''a'' = [97]" by (simp add: ustr_def)
  show "check_name (ustr ''a'') = (Ok () :: (unit, 'e fat_error) result)"
    unfolding a by (simp add: check_name_def encode_utf16_def encode_utf16_char_def MAX_NAME_def uends_with_def FORBIDDEN_def ustr_def)
  show "plain_name (ustr ''a'')" unfolding a by (simp add: plain_name_def is_scalar_def)
  show "exact_short_name (ustr ''a'') = Some (65 # replicate 10 0x20, CASE_LOWER_BASE)"
    unfolding a by (simp add: exact_short_name_def ulen_def len_utf8_def part_case_def is_short_char_def is_ascii_lowercase_def is_ascii_uppercase_def
        uppercase_bytes_def to_ascii_uppercase_def overwrite_def flip: replicate_add)
  show "split_path (ustr ''a'') = ([], ustr ''a'')" unfolding a by (simp add: split_path_def trim_end_matches_def ursplit_once_def)
qed

lemma example_made: "new_entries example_volume img (ustr ''a'') ATTR_ARCHIVE 2 600 = Some [example_entry]"
  by (simp add: new_entries_def example_name example_entry_def example_volume_def)

definition example_listing :: "located list" where
  "example_listing = [\<lparr>lo_entry = entry_made example_volume Fat16 (ustr ''a'') ATTR_ARCHIVE 2 600, lo_start = 0, lo_end = 1\<rparr>]"

lemma example_root: "dir_lists memory_content example_volume DirRoot [3] [] example_listing"
proof -
  note new = new_entries_listed [OF example_name(1,2) example_made, of Fat16 long_new]
  have small: "(600 :: nat) < 2 ^ 32" "(2 :: nat) < (if Fat16 = Fat32 then 2 ^ 32 else 2 ^ 16)" by simp_all
  have parsed: "parse_slots Fat16 0 [example_entry] long_new 0 = example_listing" using new(1) [OF _ small reset_name_simps(2), of 0 "[]" 0] by (simp add: example_listing_def)
  have e: "length example_entry = 32" "\<not> long_piece example_entry" using new(4,5) [OF _ small reset_name_simps(2)] by simp_all
  have sound: "dir_sound Fat16 [example_entry]" using e(2) parsed by (simp add: dir_sound_def dir_ok_def example_listing_def)
  have blk: "memory_content example_disk 3 = example_entry @ replicate 480 0"
    using e(1) by (simp add: memory_content_def example_disk_def Abs_sector_inverse BLOCK_SIZE_def)
  have one: "dir_slots example_entry = [example_entry]" using e(1) by (simp add: dir_slots_def DIR_ENTRY_SIZE_def slice_def)
  have slots: "dir_slots (place_bytes memory_content example_volume [3]) = [example_entry] @ dir_slots (replicate 480 0)"
    using dir_slots_append [of example_entry "replicate 480 0"] e(1) one blk by (simp add: place_bytes_def example_volume_def DIR_ENTRY_SIZE_def)
  note g = grown_sound [OF sound, of "dir_slots (replicate 480 0)"]
  have z: "\<forall>e \<in> set (dir_slots (replicate 480 0)). e ! 0 = ENTRY_END" using dir_slots_zeros by blast
  have "dir_place memory_content example_volume DirRoot [3] []" by (simp add: dir_place_def dir_first_def example_volume_def)
  then show ?thesis using g [OF z] parsed slots by (simp add: dir_lists_def parse_located_def example_volume_def)
qed

lemma example_ok: "volume_ok memory_content example_volume" "find_dir memory_device to_lower [] example_volume = (Ok DirRoot, example_volume)"
  using example_inv by (simp_all add: volume_ok_def example_volume_def find_dir_def)

lemma example_old:
  "List.find (entry_named to_lower (ustr ''a'')) example_listing = Some (hd example_listing)" "de_kind (lo_entry (hd example_listing)) = File"
  "file_chain memory_content example_volume (de_cluster (lo_entry (hd example_listing))) [2, 3]"
  using example_sound by (simp_all add: example_listing_def entry_named_def names_match_def entry_made_def file_chain_def ATTR_ARCHIVE_def ATTR_DIRECTORY_def)

lemma example_returns:
  assumes "split_path path = ([], name)"
  shows "(\<exists>r f'. write_file memory_device to_lower path data example_volume = Some (r, f')) \<and> (\<exists>r f'. create_dir memory_device to_lower path example_volume = Some (r, f'))"
  by (rule writes_return [OF memory.block_device_axioms example_ok(1) assms]) (use example_ok(2) example_root in force)


theorem file_written_witness:
  "\<exists>r f'. write_file memory_device (\<lambda>c. [c]) (ustr ''a'') [1, 2, 3] example_volume = Some (r, f') \<and> ((\<exists>e. r = Err (Device e)) \<or> r = Ok () \<and>
     (\<forall>q f''. read_file memory_device (\<lambda>c. [c]) (ustr ''a'') f' = (q, f'') \<longrightarrow> (\<exists>e. q = Err (Device e)) \<or> q = Ok [1, 2, 3]))"
proof -
  obtain r f' where run: "write_file memory_device (\<lambda>c. [c]) (ustr ''a'') [1, 2, 3] example_volume = Some (r, f')"
    using example_returns [OF example_name(4)] by blast
  have old: "case List.find (entry_named (\<lambda>c. [c]) (ustr ''a'')) example_listing of None \<Rightarrow> [2, 3 :: nat] = []
     | Some l \<Rightarrow> de_kind (lo_entry l) = File \<longrightarrow> file_chain memory_content example_volume (de_cluster (lo_entry l)) [2, 3] \<and> set [2, 3 :: nat] \<inter> set [] = {}"
    using example_old by simp
  have "find_dir memory_device (\<lambda>c. [c]) [] f' = (Ok DirRoot, f')" by (simp add: find_dir_def)
  moreover have "clusters_needed example_volume (length [1 :: byte, 2, 3]) = 1" by (simp add: clusters_needed_def cluster_size_def example_volume_def BLOCK_SIZE_def)
  then have "\<not> write_refused memory_content example_volume DirRoot (ustr ''a'') [1, 2, 3] (List.find (entry_named (\<lambda>c. [c]) (ustr ''a'')) example_listing) r"
    using example_old(1,2) example_free(2) by (simp add: write_refused_def no_room_def example_name(1))
  ultimately show ?thesis using run file_written [OF memory.block_device_axioms example_ok(1) example_name(4,2) example_ok(2) example_root old run] by blast
qed

theorem file_removed_witness:
  "\<exists>r f'. remove_file memory_device (\<lambda>c. [c]) (ustr ''a'') example_volume = (r, f') \<and> ((\<exists>e. r = Err (Device e)) \<or> r = Ok () \<and> dir_lists memory_content f' DirRoot [3] [] [])"
proof -
  obtain r f' where run: "remove_file memory_device (\<lambda>c. [c]) (ustr ''a'') example_volume = (r, f')" by fastforce
  have old: "\<forall>l. List.find (entry_named (\<lambda>c. [c]) (ustr ''a'')) example_listing = Some l \<longrightarrow> file_chain memory_content example_volume (de_cluster (lo_entry l)) [2, 3] \<and> set [2, 3 :: nat] \<inter> set [] = {}"
    using example_old by simp
  have single: "before @ after = []" if "example_listing = before @ l # after" for before l after
    using that by (cases before) (simp_all add: example_listing_def)
  have "\<not> remove_refused memory_content example_volume (List.find (entry_named (\<lambda>c. [c]) (ustr ''a'')) example_listing) r"
    using example_old(1,2) by (simp add: remove_refused_def)
  then show ?thesis using run file_removed [OF memory.block_device_axioms example_ok(1) example_name(4) example_ok(2) example_root old run] single by metis
qed



end
