(* ===== verification/Usb.thy ===== *)
theory Usb
  imports Unicode "HOL-Library.Monad_Syntax"
begin

text \<open>
  The USB protocol, \<open>rustypi-core/src/usb/mod.rs\<close>: control requests, the descriptors devices describe
  themselves with, hub port status, and boot protocol keyboard reports with the two keyboard layouts.

  What a device sends is a list of bytes of any length and content. An index out of range panics in the source, and is
  \<open>None\<close> in the outer option here; a parser's own refusal is an \<open>Err\<close> inside.
\<close>

subsection \<open>Requests\<close>

datatype speed = Low | Full | High
datatype direction = Out | In
datatype endpoint_type = Control | Isochronous | Bulk | Interrupt

definition from_attributes :: "u8 \<Rightarrow> endpoint_type" where
  "from_attributes attributes =
     (let a = attributes AND 0b11 in if a = 0 then Control else if a = 1 then Isochronous else if a = 2 then Bulk else Interrupt)"

type_synonym descriptor_type = u8
type_synonym class_code = u8

definition DESC_DEVICE :: descriptor_type where "DESC_DEVICE = 1"
definition DESC_CONFIGURATION :: descriptor_type where "DESC_CONFIGURATION = 2"
definition DESC_INTERFACE :: descriptor_type where "DESC_INTERFACE = 4"
definition DESC_ENDPOINT :: descriptor_type where "DESC_ENDPOINT = 5"
definition DESC_HUB :: descriptor_type where "DESC_HUB = 0x29"

definition CLASS_PER_INTERFACE :: class_code where "CLASS_PER_INTERFACE = 0"
definition CLASS_HID :: class_code where "CLASS_HID = 3"
definition CLASS_HUB :: class_code where "CLASS_HUB = 9"

definition class_name :: "class_code \<Rightarrow> string" where
  "class_name c =
     (if c = 0x00 then ''per interface'' else if c = 0x01 then ''audio'' else if c = 0x02 then ''communications''
      else if c = 0x03 then ''HID'' else if c = 0x06 then ''imaging'' else if c = 0x07 then ''printer''
      else if c = 0x08 then ''mass storage'' else if c = 0x09 then ''hub'' else if c = 0x0A then ''CDC data''
      else if c = 0x0B then ''smart card'' else if c = 0x0E then ''video'' else if c = 0xE0 then ''wireless''
      else if c = 0xEF then ''miscellaneous'' else if c = 0xFF then ''vendor specific'' else ''other'')"

record setup_packet =
  sp_request_type :: u8
  sp_request :: u8
  sp_value :: u16
  sp_index :: u16
  sp_length :: u16

definition TYPE_IN :: u8 where "TYPE_IN = 0x80"
definition TYPE_CLASS :: u8 where "TYPE_CLASS = push_bit 5 1"
definition TYPE_VENDOR :: u8 where "TYPE_VENDOR = push_bit 5 2"
definition TO_INTERFACE :: u8 where "TO_INTERFACE = 1"
definition TO_OTHER :: u8 where "TO_OTHER = 3"

definition GET_STATUS :: u8 where "GET_STATUS = 0"
definition CLEAR_FEATURE :: u8 where "CLEAR_FEATURE = 1"
definition SET_FEATURE :: u8 where "SET_FEATURE = 3"
definition SET_ADDRESS :: u8 where "SET_ADDRESS = 5"
definition GET_DESCRIPTOR :: u8 where "GET_DESCRIPTOR = 6"
definition SET_CONFIGURATION :: u8 where "SET_CONFIGURATION = 9"
definition SET_IDLE :: u8 where "SET_IDLE = 0x0A"
definition SET_PROTOCOL :: u8 where "SET_PROTOCOL = 0x0B"

type_synonym port_feature = u16

definition FEATURE_ENABLE :: port_feature where "FEATURE_ENABLE = 1"
definition FEATURE_RESET :: port_feature where "FEATURE_RESET = 4"
definition FEATURE_POWER :: port_feature where "FEATURE_POWER = 8"
definition FEATURE_CONNECTION_CHANGE :: port_feature where "FEATURE_CONNECTION_CHANGE = 16"
definition FEATURE_RESET_CHANGE :: port_feature where "FEATURE_RESET_CHANGE = 20"

definition setup_direction :: "setup_packet \<Rightarrow> direction" where
  "setup_direction p = (if sp_request_type p AND TYPE_IN \<noteq> 0 then In else Out)"

definition setup_to_bytes :: "setup_packet \<Rightarrow> byte list" where
  "setup_to_bytes p = [sp_request_type p, sp_request p] @ to_le 2 (sp_value p) @ to_le 2 (sp_index p) @ to_le 2 (sp_length p)"

definition get_descriptor :: "descriptor_type \<Rightarrow> u8 \<Rightarrow> u16 \<Rightarrow> setup_packet" where
  "get_descriptor kind index len =
     \<lparr>sp_request_type = TYPE_IN, sp_request = GET_DESCRIPTOR, sp_value = push_bit 8 (ucast kind) OR ucast index, sp_index = 0, sp_length = len\<rparr>"

definition set_address :: "u8 \<Rightarrow> setup_packet" where
  "set_address address = \<lparr>sp_request_type = 0, sp_request = SET_ADDRESS, sp_value = ucast address, sp_index = 0, sp_length = 0\<rparr>"

definition set_configuration :: "u8 \<Rightarrow> setup_packet" where
  "set_configuration v = \<lparr>sp_request_type = 0, sp_request = SET_CONFIGURATION, sp_value = ucast v, sp_index = 0, sp_length = 0\<rparr>"

definition get_hub_descriptor :: "u16 \<Rightarrow> setup_packet" where
  "get_hub_descriptor len =
     \<lparr>sp_request_type = TYPE_IN OR TYPE_CLASS, sp_request = GET_DESCRIPTOR, sp_value = push_bit 8 (ucast DESC_HUB), sp_index = 0, sp_length = len\<rparr>"

definition get_port_status :: "u8 \<Rightarrow> setup_packet" where
  "get_port_status port =
     \<lparr>sp_request_type = TYPE_IN OR TYPE_CLASS OR TO_OTHER, sp_request = GET_STATUS, sp_value = 0, sp_index = ucast port, sp_length = 4\<rparr>"

definition set_port_feature :: "u8 \<Rightarrow> port_feature \<Rightarrow> setup_packet" where
  "set_port_feature port feature =
     \<lparr>sp_request_type = TYPE_CLASS OR TO_OTHER, sp_request = SET_FEATURE, sp_value = feature, sp_index = ucast port, sp_length = 0\<rparr>"

definition clear_port_feature :: "u8 \<Rightarrow> port_feature \<Rightarrow> setup_packet" where
  "clear_port_feature port feature =
     \<lparr>sp_request_type = TYPE_CLASS OR TO_OTHER, sp_request = CLEAR_FEATURE, sp_value = feature, sp_index = ucast port, sp_length = 0\<rparr>"

definition set_protocol :: "u8 \<Rightarrow> bool \<Rightarrow> setup_packet" where
  "set_protocol interface boot =
     \<lparr>sp_request_type = TYPE_CLASS OR TO_INTERFACE, sp_request = SET_PROTOCOL, sp_value = (if boot then 0 else 1), sp_index = ucast interface, sp_length = 0\<rparr>"

definition set_idle :: "u8 \<Rightarrow> setup_packet" where
  "set_idle interface =
     \<lparr>sp_request_type = TYPE_CLASS OR TO_INTERFACE, sp_request = SET_IDLE, sp_value = 0, sp_index = ucast interface, sp_length = 0\<rparr>"

definition vendor_request :: "direction \<Rightarrow> u8 \<Rightarrow> u16 \<Rightarrow> u16 \<Rightarrow> u16 \<Rightarrow> setup_packet" where
  "vendor_request d request v index len =
     \<lparr>sp_request_type = (if d = In then TYPE_IN else 0) OR TYPE_VENDOR, sp_request = request, sp_value = v, sp_index = index, sp_length = len\<rparr>"

subsection \<open>Descriptors\<close>

datatype descriptor_error = Truncated | WrongType descriptor_type

type_synonym 'a parsed = "('a, descriptor_error) result option"

definition parsed_bind :: "'a parsed \<Rightarrow> ('a \<Rightarrow> 'b parsed) \<Rightarrow> 'b parsed" where
  \<comment> \<open>\<open>?\<close>, and a panic goes up\<close>
  "parsed_bind m k = (case m of None \<Rightarrow> None | Some (Err e) \<Rightarrow> Some (Err e) | Some (Ok x) \<Rightarrow> k x)"

definition u16_le_at :: "byte list \<Rightarrow> nat \<Rightarrow> u16 option" where
  "u16_le_at bytes at = do { lo \<leftarrow> get_at bytes at; hi \<leftarrow> get_at bytes (at + 1); Some (ucast lo OR push_bit 8 (ucast hi)) }"

definition check_descriptor :: "byte list \<Rightarrow> descriptor_type \<Rightarrow> nat \<Rightarrow> unit parsed" where
  "check_descriptor bytes kind least =
     (if length bytes < 2 \<or> length bytes < least then Some (Err Truncated)
      else do {
        b0 \<leftarrow> get_at bytes 0;
        if unat b0 < least then Some (Err Truncated)
        else do {
          b1 \<leftarrow> get_at bytes 1;
          if b1 \<noteq> kind then Some (Err (WrongType b1)) else Some (Ok ()) } })"

record device_descriptor =
  dd_class :: class_code
  dd_subclass :: u8
  dd_protocol :: u8
  dd_max_packet_size :: u8
  dd_vendor :: u16
  dd_product :: u16
  dd_configurations :: u8

definition DEVICE_LENGTH :: nat where "DEVICE_LENGTH = 18"

definition max_packet_size :: "byte list \<Rightarrow> u8 parsed" where
  "max_packet_size bytes = parsed_bind (check_descriptor bytes DESC_DEVICE 8) (\<lambda>_. map_option Ok (get_at bytes 7))"

definition device_parse :: "byte list \<Rightarrow> device_descriptor parsed" where
  "device_parse bytes = parsed_bind (check_descriptor bytes DESC_DEVICE DEVICE_LENGTH) (\<lambda>_. do {
     class \<leftarrow> get_at bytes 4; subclass \<leftarrow> get_at bytes 5; protocol \<leftarrow> get_at bytes 6; mps \<leftarrow> get_at bytes 7;
     vendor \<leftarrow> u16_le_at bytes 8; product \<leftarrow> u16_le_at bytes 10; configurations \<leftarrow> get_at bytes 17;
     Some (Ok \<lparr>dd_class = class, dd_subclass = subclass, dd_protocol = protocol, dd_max_packet_size = mps,
               dd_vendor = vendor, dd_product = product, dd_configurations = configurations\<rparr>) })"

record endpoint =
  ep_number :: u8
  ep_direction :: direction
  ep_kind :: endpoint_type
  ep_max_packet_size :: u16
  ep_interval :: u8

record interface_desc =
  in_number :: u8
  in_alternate :: u8
  in_class :: class_code
  in_subclass :: u8
  in_protocol :: u8
  in_endpoints :: "endpoint list"

definition HID_SUBCLASS_BOOT :: u8 where "HID_SUBCLASS_BOOT = 1"
definition HID_PROTOCOL_KEYBOARD :: u8 where "HID_PROTOCOL_KEYBOARD = 1"

definition is_boot_keyboard :: "interface_desc \<Rightarrow> bool" where
  "is_boot_keyboard i \<longleftrightarrow> in_class i = CLASS_HID \<and> in_subclass i = HID_SUBCLASS_BOOT \<and> in_protocol i = HID_PROTOCOL_KEYBOARD"

definition interface_endpoint :: "interface_desc \<Rightarrow> endpoint_type \<Rightarrow> direction \<Rightarrow> endpoint option" where
  "interface_endpoint i kind d = List.find (\<lambda>e. ep_kind e = kind \<and> ep_direction e = d) (in_endpoints i)"

record configuration =
  cf_value :: u8
  cf_interfaces :: "interface_desc list"

definition CONFIG_HEADER :: nat where "CONFIG_HEADER = 9"

definition total_length :: "byte list \<Rightarrow> u16 parsed" where
  "total_length bytes = parsed_bind (check_descriptor bytes DESC_CONFIGURATION CONFIG_HEADER) (\<lambda>_. map_option Ok (u16_le_at bytes 2))"

definition parse_interface :: "byte list \<Rightarrow> interface_desc parsed" where
  "parse_interface d = parsed_bind (check_descriptor d DESC_INTERFACE 9) (\<lambda>_. do {
     number \<leftarrow> get_at d 2; alternate \<leftarrow> get_at d 3; class \<leftarrow> get_at d 5; subclass \<leftarrow> get_at d 6; protocol \<leftarrow> get_at d 7;
     Some (Ok \<lparr>in_number = number, in_alternate = alternate, in_class = class, in_subclass = subclass, in_protocol = protocol, in_endpoints = []\<rparr>) })"

definition parse_endpoint :: "byte list \<Rightarrow> endpoint parsed" where
  "parse_endpoint d = parsed_bind (check_descriptor d DESC_ENDPOINT 7) (\<lambda>_. do {
     b2 \<leftarrow> get_at d 2; b3 \<leftarrow> get_at d 3; size_word \<leftarrow> u16_le_at d 4; interval \<leftarrow> get_at d 6;
     Some (Ok \<lparr>ep_number = b2 AND 0x0F, ep_direction = (if b2 AND 0x80 \<noteq> 0 then In else Out), ep_kind = from_attributes b3,
               ep_max_packet_size = size_word AND 0x7FF, ep_interval = interval\<rparr>) })"

definition push_endpoint :: "endpoint \<Rightarrow> configuration \<Rightarrow> configuration" where
  \<comment> \<open>an endpoint belongs to the interface before it\<close>
  "push_endpoint e c = (if cf_interfaces c = [] then c
     else c\<lparr>cf_interfaces := butlast (cf_interfaces c) @ [(last (cf_interfaces c))\<lparr>in_endpoints := in_endpoints (last (cf_interfaces c)) @ [e]\<rparr>]\<rparr>)"

definition add_descriptor :: "byte list \<Rightarrow> configuration \<Rightarrow> configuration parsed" where
  \<comment> \<open>the \<open>match\<close> in the loop of \<open>Configuration::parse\<close>\<close>
  "add_descriptor d c = do {
     kind \<leftarrow> get_at d 1;
     if kind = DESC_INTERFACE then parsed_bind (parse_interface d) (\<lambda>i. Some (Ok (c\<lparr>cf_interfaces := cf_interfaces c @ [i]\<rparr>)))
     else if kind = DESC_ENDPOINT then parsed_bind (parse_endpoint d) (\<lambda>e. Some (Ok (push_endpoint e c)))
     else Some (Ok c) }"

function config_loop :: "byte list \<Rightarrow> nat \<Rightarrow> nat \<Rightarrow> configuration \<Rightarrow> configuration parsed" where
  "config_loop bytes tot at c =
     (if at + 2 \<le> tot
      then case get_at bytes at of
             None \<Rightarrow> None
           | Some b \<Rightarrow>
               let len = unat b
               in if len < 2 \<or> at + len > tot then Some (Err Truncated)
                  else case get_range bytes at (at + len) of
                         None \<Rightarrow> None
                       | Some d \<Rightarrow> parsed_bind (add_descriptor d c) (config_loop bytes tot (at + len))
      else Some (Ok c))"
  by pat_completeness auto
termination by (relation "measure (\<lambda>(bytes, tot, at, c). tot - at)") auto

declare config_loop.simps [simp del]

definition configuration_parse :: "byte list \<Rightarrow> configuration parsed" where
  "configuration_parse bytes = parsed_bind (total_length bytes) (\<lambda>tot.
     if length bytes < unat tot then Some (Err Truncated)
     else do {
       v \<leftarrow> get_at bytes 5; at \<leftarrow> get_at bytes 0;
       config_loop bytes (unat tot) (unat at) \<lparr>cf_value = v, cf_interfaces = []\<rparr> })"

record hub_descriptor =
  hd_ports :: u8
  hd_power_on_to_good_ms :: u32

definition hub_parse :: "byte list \<Rightarrow> hub_descriptor parsed" where
  "hub_parse bytes = parsed_bind (check_descriptor bytes DESC_HUB 7) (\<lambda>_. do {
     ports \<leftarrow> get_at bytes 2; power \<leftarrow> get_at bytes 5;
     Some (Ok \<lparr>hd_ports = ports, hd_power_on_to_good_ms = ucast power * 2\<rparr>) })"

type_synonym port_status = u32

definition status_from_bytes :: "byte list \<Rightarrow> port_status" where
  "status_from_bytes bytes = from_le bytes"

definition connected :: "port_status \<Rightarrow> bool" where "connected s = bit s 0"
definition enabled :: "port_status \<Rightarrow> bool" where "enabled s = bit s 1"
definition overcurrent :: "port_status \<Rightarrow> bool" where "overcurrent s = bit s 3"
definition resetting :: "port_status \<Rightarrow> bool" where "resetting s = bit s 4"
definition powered :: "port_status \<Rightarrow> bool" where "powered s = bit s 8"
definition connection_changed :: "port_status \<Rightarrow> bool" where "connection_changed s = bit s 16"
definition reset_changed :: "port_status \<Rightarrow> bool" where "reset_changed s = bit s 20"

definition status_speed :: "port_status \<Rightarrow> speed" where
  "status_speed s = (if bit s 9 then Low else if bit s 10 then High else Full)"

subsection \<open>Keyboards\<close>

record keyboard_report =
  kr_modifiers :: u8
  kr_keys :: "u8 list"

record modifiers =
  md_shift :: bool
  md_alt_gr :: bool
  md_ctrl :: bool

definition CTRL :: u8 where "CTRL = push_bit 0 1 OR push_bit 4 1"
definition SHIFT :: u8 where "SHIFT = push_bit 1 1 OR push_bit 5 1"
definition RIGHT_ALT :: u8 where "RIGHT_ALT = push_bit 6 1"
definition ROLLOVER :: u8 where "ROLLOVER = 1"
definition REPORT_LENGTH :: nat where "REPORT_LENGTH = 8"

definition report_parse :: "byte list \<Rightarrow> keyboard_report parsed" where
  "report_parse bytes =
     (if length bytes < REPORT_LENGTH then Some (Err Truncated)
      else do {
        keys \<leftarrow> get_range bytes 2 8; held \<leftarrow> get_at bytes 0;
        Some (Ok \<lparr>kr_modifiers = held, kr_keys = keys\<rparr>) })"

definition report_held :: "keyboard_report \<Rightarrow> modifiers" where
  "report_held r =
     \<lparr>md_shift = kr_modifiers r AND SHIFT \<noteq> 0, md_alt_gr = kr_modifiers r AND RIGHT_ALT \<noteq> 0, md_ctrl = kr_modifiers r AND CTRL \<noteq> 0\<rparr>"

definition pressed_since :: "keyboard_report \<Rightarrow> keyboard_report \<Rightarrow> u8 list" where
  "pressed_since previous r =
     (let rollover = ROLLOVER \<in> set (kr_keys r)
      in filter (\<lambda>key. \<not> rollover \<and> key > ROLLOVER \<and> key \<notin> set (kr_keys previous)) (kr_keys r))"

datatype layout = Us | Swedish

datatype typed = TypedChar codepoint | TypedDead codepoint | TypedCtrl codepoint

definition layout_name :: "layout \<Rightarrow> string" where
  "layout_name l = (case l of Us \<Rightarrow> ''us'' | Swedish \<Rightarrow> ''sv'')"

definition layout_from_name :: "string \<Rightarrow> layout option" where
  "layout_from_name name =
     (if name = ''us'' then Some Us else if name = ''sv'' \<or> name = ''se'' \<or> name = ''fi'' then Some Swedish else None)"

definition letter :: "nat \<Rightarrow> bool \<Rightarrow> codepoint option" where
  "letter usage shift = (if 4 \<le> usage \<and> usage - 4 < 26 then Some ((if shift then 65 else 97) + (usage - 4)) else None)"

definition pick :: "bool \<Rightarrow> codepoint \<Rightarrow> codepoint \<Rightarrow> codepoint option" where
  "pick shift plain shifted = Some (if shift then shifted else plain)"

definition DIGITS :: "codepoint list" where "DIGITS = ustr ''1234567890''"
definition US_SHIFTED_DIGITS :: "codepoint list" where "US_SHIFTED_DIGITS = ustr ''!@#$%^&*()''"
definition SV_SHIFTED_DIGITS :: "codepoint list" where "SV_SHIFTED_DIGITS = [33, 34, 35, 0xA4, 37, 38, 47, 40, 41, 61]"

definition us :: "nat \<Rightarrow> bool \<Rightarrow> codepoint option" where
  "us usage shift =
     (if 0x1E \<le> usage \<and> usage \<le> 0x27 then pick shift (DIGITS ! (usage - 0x1E)) (US_SHIFTED_DIGITS ! (usage - 0x1E))
      else if usage = 0x2D then pick shift 45 95
      else if usage = 0x2E then pick shift 61 43
      else if usage = 0x2F then pick shift 91 123
      else if usage = 0x30 then pick shift 93 125
      else if usage = 0x31 then pick shift 92 124
      else if usage = 0x32 then pick shift 35 126
      else if usage = 0x33 then pick shift 59 58
      else if usage = 0x34 then pick shift 39 34
      else if usage = 0x35 then pick shift 96 126
      else if usage = 0x36 then pick shift 44 60
      else if usage = 0x37 then pick shift 46 62
      else if usage = 0x38 then pick shift 47 63
      else if usage = 0x64 then pick shift 92 124
      else letter usage shift)"

definition swedish :: "nat \<Rightarrow> bool \<Rightarrow> codepoint option" where
  "swedish usage shift =
     (if 0x1E \<le> usage \<and> usage \<le> 0x27 then pick shift (DIGITS ! (usage - 0x1E)) (SV_SHIFTED_DIGITS ! (usage - 0x1E))
      else if usage = 0x2D then pick shift 43 63
      else if usage = 0x2E then pick shift 0xB4 96
      else if usage = 0x2F then pick shift 0xE5 0xC5
      else if usage = 0x30 then pick shift 0xA8 94
      else if usage = 0x31 \<or> usage = 0x32 then pick shift 39 42
      else if usage = 0x33 then pick shift 0xF6 0xD6
      else if usage = 0x34 then pick shift 0xE4 0xC4
      else if usage = 0x35 then pick shift 0xA7 0xBD
      else if usage = 0x36 then pick shift 44 59
      else if usage = 0x37 then pick shift 46 58
      else if usage = 0x38 then pick shift 45 95
      else if usage = 0x64 then pick shift 60 62
      else letter usage shift)"

definition swedish_alt_gr :: "nat \<Rightarrow> codepoint option" where
  "swedish_alt_gr usage =
     (if usage = 0x1F then Some 64 else if usage = 0x20 then Some 0xA3 else if usage = 0x21 then Some 36
      else if usage = 0x22 \<or> usage = 0x08 then Some 0x20AC else if usage = 0x24 then Some 123 else if usage = 0x25 then Some 91
      else if usage = 0x26 then Some 93 else if usage = 0x27 then Some 125 else if usage = 0x2D then Some 92
      else if usage = 0x30 then Some 126 else if usage = 0x64 then Some 124 else None)"

definition layout_char :: "layout \<Rightarrow> u8 \<Rightarrow> modifiers \<Rightarrow> codepoint option" where
  "layout_char l u m =
     (let usage = unat u
      in if usage = 0x28 then Some 10 else if usage = 0x2A then Some 8 else if usage = 0x2B then Some 9 else if usage = 0x2C then Some 32
         else case l of
                Us \<Rightarrow> us usage (md_shift m)
              | Swedish \<Rightarrow> if md_alt_gr m then swedish_alt_gr usage else swedish usage (md_shift m))"

definition is_dead :: "layout \<Rightarrow> u8 \<Rightarrow> bool" where
  "is_dead l usage = (case l of Us \<Rightarrow> False | Swedish \<Rightarrow> usage = 0x2E \<or> usage = 0x30)"

definition layout_key :: "layout \<Rightarrow> u8 \<Rightarrow> modifiers \<Rightarrow> typed option" where
  "layout_key l usage m =
     (if md_ctrl m then map_option TypedCtrl (letter (unat usage) False)
      else do {
        c \<leftarrow> layout_char l usage m;
        Some (if is_dead l usage then TypedDead c else TypedChar c) })"

subsection \<open>Reading what a device sends\<close>

lemma parsed_bind_simps [simp]:
  "parsed_bind None k = None" "parsed_bind (Some (Err e)) k = Some (Err e)" "parsed_bind (Some (Ok x)) k = k x"
  by (simp_all add: parsed_bind_def)

lemma parsed_bind_None: "parsed_bind m k = None \<longleftrightarrow> m = None \<or> (\<exists>x. m = Some (Ok x) \<and> k x = None)"
  by (auto simp: parsed_bind_def split: option.splits result.splits)

lemma parsed_bind_Ok: "parsed_bind m k = Some (Ok y) \<longleftrightarrow> (\<exists>x. m = Some (Ok x) \<and> k x = Some (Ok y))"
  by (auto simp: parsed_bind_def split: option.splits result.splits)

lemma check_descriptor_total: "check_descriptor bytes kind least \<noteq> None"
  by (auto simp: check_descriptor_def get_at_def)

lemma check_descriptor_Ok:
  "check_descriptor bytes kind least = Some (Ok ()) \<longleftrightarrow> 2 \<le> length bytes \<and> least \<le> length bytes \<and> least \<le> unat (bytes ! 0) \<and> bytes ! 1 = kind"
  by (auto simp: check_descriptor_def get_at_def)

lemma u16_le_at_eq: "at + 1 < length bytes \<Longrightarrow> u16_le_at bytes at = Some (ucast (bytes ! at) OR push_bit 8 (ucast (bytes ! (at + 1))))"
  by (simp add: u16_le_at_def get_at_def)

lemmas parser_defs = max_packet_size_def device_parse_def total_length_def parse_interface_def parse_endpoint_def hub_parse_def

lemma parsers_total:
  "max_packet_size bytes \<noteq> None" "device_parse bytes \<noteq> None" "total_length bytes \<noteq> None" "parse_interface bytes \<noteq> None" "parse_endpoint bytes \<noteq> None"
  "hub_parse bytes \<noteq> None" "report_parse bytes \<noteq> None"
  by (auto simp: parser_defs parsed_bind_None check_descriptor_total check_descriptor_Ok get_at_def u16_le_at_def DEVICE_LENGTH_def CONFIG_HEADER_def
      report_parse_def REPORT_LENGTH_def get_range_def)

lemma add_descriptor_total: "2 \<le> length d \<Longrightarrow> add_descriptor d c \<noteq> None"
  using parsers_total(4,5) [of d] by (auto simp: add_descriptor_def get_at_def parsed_bind_None iff del: not_None_eq)

lemma config_loop_total: "tot \<le> length bytes \<Longrightarrow> config_loop bytes tot at c \<noteq> None"
proof (induction bytes tot at c rule: config_loop.induct)
  case (1 bytes tot at c)
  show ?case
  proof (cases "at + 2 \<le> tot \<and> 2 \<le> unat (bytes ! at) \<and> at + unat (bytes ! at) \<le> tot")
    case True
    define len where "len = unat (bytes ! at)"
    have b: "get_at bytes at = Some (bytes ! at)" "get_range bytes at (at + len) = Some (slice at (at + len) bytes)"
      using True 1(2) by (auto simp: get_at_def get_range_def len_def)
    have "2 \<le> length (slice at (at + len) bytes)" using True 1(2) unfolding len_def length_slice by linarith
    then have "add_descriptor (slice at (at + len) bytes) c \<noteq> None" by (rule add_descriptor_total)
    moreover have "config_loop bytes tot (at + len) c' \<noteq> None" for c'
      using 1(1) [OF _ b(1) refl] True b(2) 1(2) by (auto simp: len_def)
    ultimately show ?thesis using True b by (subst config_loop.simps) (auto simp: parsed_bind_None len_def Let_def iff del: not_None_eq)
  next
    case False
    then show ?thesis using 1(2) by (subst config_loop.simps) (auto simp: get_at_def Let_def)
  qed
qed

lemma configuration_parse_total: "configuration_parse bytes \<noteq> None"
proof -
  have "9 \<le> length bytes" if "total_length bytes = Some (Ok tot)" for tot
    using that by (auto simp: total_length_def parsed_bind_Ok check_descriptor_Ok CONFIG_HEADER_def)
  then have at: "get_at bytes 5 = Some (bytes ! 5)" "get_at bytes 0 = Some (bytes ! 0)" if "total_length bytes = Some (Ok tot)" for tot
    using that by (fastforce simp: get_at_def)+
  have "(if length bytes < unat tot then Some (Err Truncated)
     else do { v \<leftarrow> get_at bytes 5; at \<leftarrow> get_at bytes 0; config_loop bytes (unat tot) (unat at) \<lparr>cf_value = v, cf_interfaces = []\<rparr> }) \<noteq> None"
    if "total_length bytes = Some (Ok tot)" for tot
    using config_loop_total [of "unat tot" bytes] by (simp add: at [OF that] not_less del: not_None_eq)
  then show ?thesis using parsers_total(3) [of bytes] unfolding configuration_parse_def by (auto simp: parsed_bind_None iff del: not_None_eq)
qed

subsection \<open>Keys\<close>

lemma layout_names: "layout_from_name (layout_name l) = Some l"
  by (cases l) (simp_all add: layout_name_def layout_from_name_def)

text \<open>A report that says too many keys are held takes the place of the one before it: keys that stay held are pressed again by
  the report after it.\<close>

lemma rollover_presses_again:
  assumes "kr_keys ab = [4, 5, 0, 0, 0, 0]" "kr_keys over = replicate 6 ROLLOVER"
  shows "pressed_since ab over = []" "pressed_since over ab = [4, 5]"
  using assms by (simp_all add: pressed_since_def ROLLOVER_def)

subsection \<open>The layout of a configuration\<close>

text \<open>How a device lays a configuration out (USB 2.0, 9.6): the header, then each interface with descriptors of its class and
  its endpoints.\<close>

definition type_bits :: "endpoint_type \<Rightarrow> u8" where
  "type_bits k = (case k of Control \<Rightarrow> 0 | Isochronous \<Rightarrow> 1 | Bulk \<Rightarrow> 2 | Interrupt \<Rightarrow> 3)"

definition endpoint_bytes :: "endpoint \<Rightarrow> byte list" where
  "endpoint_bytes e = [7, DESC_ENDPOINT, ep_number e OR (if ep_direction e = In then 0x80 else 0), type_bits (ep_kind e)]
     @ to_le 2 (ep_max_packet_size e) @ [ep_interval e]"

definition interface_bytes :: "interface_desc \<Rightarrow> byte list" where
  "interface_bytes i = [9, DESC_INTERFACE, in_number i, in_alternate i, of_nat (length (in_endpoints i)), in_class i, in_subclass i, in_protocol i, 0]"

definition descriptors_of :: "interface_desc \<times> byte list list \<Rightarrow> byte list list" where
  "descriptors_of x = interface_bytes (fst x) # snd x @ map endpoint_bytes (in_endpoints (fst x))"

definition config_bytes :: "u8 \<Rightarrow> (interface_desc \<times> byte list list) list \<Rightarrow> byte list" where
  "config_bytes v is =
     (let body = concat (concat (map descriptors_of is))
      in [9, DESC_CONFIGURATION] @ to_le 2 (of_nat (9 + length body) :: u16) @ [of_nat (length is), v, 0, 0x80, 50] @ body)"

definition endpoint_wf :: "endpoint \<Rightarrow> bool" where
  "endpoint_wf e \<longleftrightarrow> ep_number e \<le> 15 \<and> ep_max_packet_size e \<le> 0x7FF"

definition is_descriptor :: "byte list \<Rightarrow> bool" where
  "is_descriptor d \<longleftrightarrow> 2 \<le> length d \<and> length d = unat (d ! 0)"

definition other_descriptor :: "byte list \<Rightarrow> bool" where
  "other_descriptor d \<longleftrightarrow> is_descriptor d \<and> d ! 1 \<notin> {DESC_INTERFACE, DESC_ENDPOINT}"

definition interface_wf :: "interface_desc \<times> byte list list \<Rightarrow> bool" where
  "interface_wf x \<longleftrightarrow> (\<forall>e \<in> set (in_endpoints (fst x)). endpoint_wf e) \<and> (\<forall>d \<in> set (snd x). other_descriptor d)"

fun add_all :: "byte list list \<Rightarrow> configuration \<Rightarrow> configuration parsed" where
  "add_all [] c = Some (Ok c)"
| "add_all (d # ds) c = parsed_bind (add_descriptor d c) (add_all ds)"

lemma add_all_append: "add_all (ds @ es) c = parsed_bind (add_all ds c) (add_all es)"
  by (induction ds arbitrary: c) (auto simp: parsed_bind_def split: option.splits result.splits)

lemma to_le_pair: "to_le 2 (w :: u16) = [ucast w, ucast (drop_bit 8 w)]"
  by (simp add: numeral_2_eq_2)

lemma u16_le_pair: "ucast (ucast w :: byte) OR push_bit 8 (ucast (ucast (drop_bit 8 w) :: byte)) = (w :: u16)"
  by (rule bit_word_eqI) (auto simp: bit_simps)

lemma config_loop_descriptors:
  assumes "\<forall>d \<in> set ds. is_descriptor d"
  shows "config_loop (pre @ concat ds) (length pre + length (concat ds)) (length pre) c = add_all ds c"
  using assms
proof (induction ds arbitrary: pre c)
  case Nil
  then show ?case by (subst config_loop.simps) simp
next
  case (Cons d ds)
  have d: "2 \<le> length d" "unat (d ! 0) = length d" using Cons.prems by (simp_all add: is_descriptor_def)
  let ?bytes = "pre @ concat (d # ds)" and ?tot = "length pre + length (concat (d # ds))"
  have at: "get_at ?bytes (length pre) = Some (d ! 0)" using d(1) by (auto simp: get_at_def nth_append)
  have rng: "get_range ?bytes (length pre) (length pre + length d) = Some d" by (simp add: get_range_def slice_def)
  have "config_loop ?bytes ?tot (length pre) c = parsed_bind (add_descriptor d c) (config_loop ?bytes ?tot (length pre + length d))"
    using d at rng by (subst config_loop.simps) (simp add: Let_def)
  also have "config_loop ?bytes ?tot (length pre + length d) = add_all ds"
    using Cons.IH [of "pre @ d"] Cons.prems by (simp add: fun_eq_iff add.assoc)
  finally show ?case by simp
qed

lemma interface_back: "add_descriptor (interface_bytes i) c = Some (Ok (c\<lparr>cf_interfaces := cf_interfaces c @ [i\<lparr>in_endpoints := []\<rparr>]\<rparr>))"
  by (cases i) (simp add: interface_bytes_def add_descriptor_def parse_interface_def check_descriptor_def get_at_def)

lemma below_16: "n \<le> 15 \<Longrightarrow> n AND 0x0F = (n :: u8)"
proof -
  assume "n \<le> 15"
  then have "unat n < 2 ^ 4" by (simp add: word_le_nat_alt)
  then have "unat (take_bit 4 n) = unat n" by (simp add: unsigned_take_bit_eq take_bit_nat_eq_self)
  then have "take_bit 4 n = n" by (rule unsigned_word_eqI)
  then show ?thesis by (simp add: take_bit_eq_mask mask_eq_exp_minus_1)
qed

lemma endpoint_number_bits:
  assumes "n \<le> 15" "b \<in> {0, 0x80}"
  shows "(n OR b) AND 0x0F = (n :: u8)" "(n OR b) AND 0x80 = b"
proof -
  have n: "n AND 0x0F = n" using below_16 [OF assms(1)] .
  have "n AND 0x80 = (n AND 0x0F) AND 0x80" by (simp only: n)
  also have "\<dots> = 0" by (simp only: and.assoc) simp
  finally have "n AND 0x80 = 0" .
  then show "(n OR b) AND 0x0F = n" "(n OR b) AND 0x80 = b" using n assms(2) by (auto simp: bit.conj_disj_distrib2)
qed

lemma packet_size_bits: "n \<le> 0x7FF \<Longrightarrow> n AND 0x7FF = (n :: u16)"
proof -
  assume "n \<le> 0x7FF"
  then have "unat n < 2 ^ 11" by (simp add: word_le_nat_alt)
  then have "unat (take_bit 11 n) = unat n" by (simp add: unsigned_take_bit_eq take_bit_nat_eq_self)
  then have "take_bit 11 n = n" by (rule unsigned_word_eqI)
  then show ?thesis by (simp add: take_bit_eq_mask mask_eq_exp_minus_1)
qed

lemma endpoint_back:
  assumes "endpoint_wf e"
  shows "add_descriptor (endpoint_bytes e) c = Some (Ok (push_endpoint e c))"
proof -
  have n: "ep_number e \<le> 15" "ep_max_packet_size e \<le> 0x7FF" using assms by (simp_all add: endpoint_wf_def)
  have dir: "((ep_number e OR (if ep_direction e = In then 0x80 else 0)) AND 0x80 \<noteq> 0) = (ep_direction e = In)"
    "(ep_number e OR (if ep_direction e = In then 0x80 else 0)) AND 0x0F = ep_number e"
    using endpoint_number_bits [OF n(1)] by auto
  have kind: "from_attributes (type_bits k) = k" for k by (cases k) (simp_all add: from_attributes_def type_bits_def)
  have d: "(if ep_direction e = In then In else Out) = ep_direction e" by (cases "ep_direction e") simp_all
  have "parse_endpoint (endpoint_bytes e) = Some (Ok e)"
    unfolding endpoint_bytes_def to_le_pair parse_endpoint_def check_descriptor_def get_at_def u16_le_at_def
    by (simp add: dir kind d u16_le_pair packet_size_bits [OF n(2)])
  moreover have "get_at (endpoint_bytes e) 1 = Some DESC_ENDPOINT" by (simp add: endpoint_bytes_def get_at_def)
  moreover have "DESC_ENDPOINT \<noteq> DESC_INTERFACE" by (simp add: DESC_ENDPOINT_def DESC_INTERFACE_def)
  ultimately show ?thesis by (simp add: add_descriptor_def)
qed

lemma endpoints_back:
  assumes "\<forall>e \<in> set es. endpoint_wf e"
  shows "add_all (map endpoint_bytes es) (c\<lparr>cf_interfaces := ifs @ [i]\<rparr>) = Some (Ok (c\<lparr>cf_interfaces := ifs @ [i\<lparr>in_endpoints := in_endpoints i @ es\<rparr>]\<rparr>))"
  using assms
proof (induction es arbitrary: i)
  case (Cons e es)
  have "push_endpoint e (c\<lparr>cf_interfaces := ifs @ [i]\<rparr>) = c\<lparr>cf_interfaces := ifs @ [i\<lparr>in_endpoints := in_endpoints i @ [e]\<rparr>]\<rparr>" by (simp add: push_endpoint_def)
  then show ?case using Cons.IH [of "i\<lparr>in_endpoints := in_endpoints i @ [e]\<rparr>"] Cons.prems endpoint_back [of e] by simp
qed simp

lemma others_back: "\<forall>d \<in> set ds. other_descriptor d \<Longrightarrow> add_all ds c = Some (Ok c)"
proof (induction ds)
  case (Cons d ds)
  then have "add_descriptor d c = Some (Ok c)" by (auto simp: add_descriptor_def get_at_def other_descriptor_def is_descriptor_def)
  then show ?case using Cons by simp
qed simp

lemma interfaces_back:
  assumes "\<forall>x \<in> set is. interface_wf x"
  shows "add_all (concat (map descriptors_of is)) c = Some (Ok (c\<lparr>cf_interfaces := cf_interfaces c @ map fst is\<rparr>))"
  using assms
proof (induction "is" arbitrary: c)
  case (Cons x xs)
  obtain i others where x: "x = (i, others)" by fastforce
  have wf: "\<forall>e \<in> set (in_endpoints i). endpoint_wf e" "\<forall>d \<in> set others. other_descriptor d" using Cons.prems by (auto simp: x interface_wf_def)
  have "add_all (descriptors_of x) c = Some (Ok (c\<lparr>cf_interfaces := cf_interfaces c @ [i]\<rparr>))"
    using endpoints_back [OF wf(1), where c = c and ifs = "cf_interfaces c" and i = "i\<lparr>in_endpoints := []\<rparr>"] others_back [OF wf(2)]
    by (simp add: x descriptors_of_def interface_back add_all_append)
  then show ?case using Cons by (simp add: add_all_append x)
qed simp

lemma descriptors_sized:
  assumes "interface_wf x" "d \<in> set (descriptors_of x)"
  shows "is_descriptor d"
  using assms by (auto simp: interface_wf_def descriptors_of_def interface_bytes_def endpoint_bytes_def is_descriptor_def other_descriptor_def to_le_pair)

lemma configuration_back:
  assumes wf: "\<forall>x \<in> set is. interface_wf x" and small: "length (config_bytes v is) < 2 ^ 16"
  shows "total_length (config_bytes v is) = Some (Ok (of_nat (length (config_bytes v is))))"
    "configuration_parse (config_bytes v is) = Some (Ok \<lparr>cf_value = v, cf_interfaces = map fst is\<rparr>)"
proof -
  define ds where "ds = concat (map descriptors_of is)"
  define pre where "pre = [9, DESC_CONFIGURATION] @ to_le 2 (of_nat (9 + length (concat ds)) :: u16) @ [of_nat (length is), v, 0, 0x80, 50]"
  have eq: "config_bytes v is = pre @ concat ds" by (simp add: config_bytes_def ds_def pre_def Let_def)
  have len: "length pre = 9" by (simp add: pre_def to_le_pair)
  have tot: "unat (of_nat (9 + length (concat ds)) :: u16) = 9 + length (concat ds)"
    using small len by (simp add: eq unsigned_of_nat take_bit_nat_eq_self del: of_nat_add)
  have get: "get_at (pre @ concat ds) k = Some (pre ! k)" if "k < 9" for k using that len by (simp add: get_at_def nth_append)
  have vals: "pre ! 0 = 9" "pre ! Suc 0 = DESC_CONFIGURATION" "pre ! 2 = ucast (of_nat (9 + length (concat ds)) :: u16)"
    "pre ! 3 = ucast (drop_bit 8 (of_nat (9 + length (concat ds)) :: u16))" "pre ! 5 = v"
    by (simp_all add: pre_def to_le_pair)
  have tl: "total_length (pre @ concat ds) = Some (Ok (of_nat (9 + length (concat ds))))"
    using len unfolding total_length_def check_descriptor_def u16_le_at_def by (simp add: get vals CONFIG_HEADER_def u16_le_pair del: of_nat_add)
  then show "total_length (config_bytes v is) = Some (Ok (of_nat (length (config_bytes v is))))" by (simp add: eq len)
  have all: "\<forall>d \<in> set ds. is_descriptor d" using wf descriptors_sized by (auto simp: ds_def)
  have "config_loop (pre @ concat ds) (9 + length (concat ds)) 9 \<lparr>cf_value = v, cf_interfaces = []\<rparr> = Some (Ok \<lparr>cf_value = v, cf_interfaces = map fst is\<rparr>)"
    using config_loop_descriptors [OF all, of pre] interfaces_back [OF wf] by (simp add: len ds_def)
  then show "configuration_parse (config_bytes v is) = Some (Ok \<lparr>cf_value = v, cf_interfaces = map fst is\<rparr>)"
    using tl tot unfolding configuration_parse_def eq by (simp add: get vals len del: of_nat_add)
qed

text \<open>C30: Whatever a device sends as a descriptor or a keyboard report, of any length and content, parsing it gives a result or an error and never
  reads out of range; and a configuration laid out as the standard has it, with descriptors of its class between its interfaces and
  their endpoints, is read back interface by interface and endpoint by endpoint.\<close>

theorem descriptors_read:
  shows "(\<forall>bytes. max_packet_size bytes \<noteq> None \<and> device_parse bytes \<noteq> None \<and> total_length bytes \<noteq> None \<and> configuration_parse bytes \<noteq> None
      \<and> hub_parse bytes \<noteq> None \<and> report_parse bytes \<noteq> None) \<and>
    (\<forall>v is. (\<forall>x \<in> set is. interface_wf x) \<longrightarrow> length (config_bytes v is) < 2 ^ 16 \<longrightarrow>
      total_length (config_bytes v is) = Some (Ok (of_nat (length (config_bytes v is))))
      \<and> configuration_parse (config_bytes v is) = Some (Ok \<lparr>cf_value = v, cf_interfaces = map fst is\<rparr>))"
  using parsers_total configuration_parse_total configuration_back by blast

definition example_keyboard :: "interface_desc \<times> byte list list" where
  \<comment> \<open>a boot keyboard's interface, with its HID descriptor\<close>
  "example_keyboard =
     (\<lparr>in_number = 0, in_alternate = 0, in_class = CLASS_HID, in_subclass = HID_SUBCLASS_BOOT, in_protocol = HID_PROTOCOL_KEYBOARD,
       in_endpoints = [\<lparr>ep_number = 1, ep_direction = In, ep_kind = Interrupt, ep_max_packet_size = 8, ep_interval = 10\<rparr>]\<rparr>,
      [[9, 0x21, 0x11, 0x01, 0, 1, 0x22, 63, 0]])"

lemma example_keyboard_wf:
  "\<forall>x \<in> set [example_keyboard]. interface_wf x" "length (config_bytes 1 [example_keyboard]) = 34"
  by (simp_all add: interface_wf_def example_keyboard_def endpoint_wf_def other_descriptor_def is_descriptor_def DESC_INTERFACE_def DESC_ENDPOINT_def
      config_bytes_def descriptors_of_def interface_bytes_def endpoint_bytes_def to_le_pair)

theorem descriptors_read_witness:
  "configuration_parse (config_bytes 1 [example_keyboard]) = Some (Ok \<lparr>cf_value = 1, cf_interfaces = [fst example_keyboard]\<rparr>) \<and> is_boot_keyboard (fst example_keyboard)"
proof -
  have "length (config_bytes 1 [example_keyboard]) < 2 ^ 16" using example_keyboard_wf(2) by simp
  then have "configuration_parse (config_bytes 1 [example_keyboard]) = Some (Ok \<lparr>cf_value = 1, cf_interfaces = [fst example_keyboard]\<rparr>)"
    using descriptors_read example_keyboard_wf(1) by fastforce
  then show ?thesis by (simp add: is_boot_keyboard_def example_keyboard_def)
qed

end
