(* ===== verification/Usb_Tree.thy ===== *)
theory Usb_Tree
  imports Usb
begin

text \<open>
  Enumeration, \<open>rustypi-core/src/usb/tree.rs\<close>: every device on the bus gets an address and a configuration, down through the
  hubs, and devices that come and go later are added and forgotten.

  The host controller (\<open>Bus\<close>) is a parameter: a control transfer takes the bus to a new state, with a result and the data
  buffer as the device left it. An operation takes the bus and the table of addresses to a result and their new
  values, or panics (\<open>None\<close>). The recursion through hubs is bounded by their depth; the number of levels is given as
  fuel, and \<open>MAX_DEPTH\<close> is enough, since the code refuses to go deeper.
\<close>

subsection \<open>The bus\<close>

record translator =
  tt_hub :: u8
  tt_port :: u8

record target =
  tg_address :: u8
  tg_max_packet :: u16
  tg_speed :: speed
  tg_translator :: "translator option"

record ('b, 'e) bus =
  bus_control :: "target \<Rightarrow> setup_packet \<Rightarrow> byte list \<Rightarrow> 'b \<Rightarrow> (nat, 'e) result \<times> byte list \<times> 'b"
  bus_delay_ms :: "u32 \<Rightarrow> 'b \<Rightarrow> 'b"

definition MAX_DEPTH :: nat where "MAX_DEPTH = 6"
definition MAX_ADDRESS :: nat where "MAX_ADDRESS = 127"
definition SET_ADDRESS_RECOVERY_MS :: u32 where "SET_ADDRESS_RECOVERY_MS = 2"
definition RESET_RECOVERY_MS :: u32 where "RESET_RECOVERY_MS = 10"
definition MIN_POWER_UP_MS :: u32 where "MIN_POWER_UP_MS = 510"
definition RESET_TIMEOUT_MS :: nat where "RESET_TIMEOUT_MS = 500"
definition RESET_POLL_MS :: nat where "RESET_POLL_MS = 10"

datatype 'e tree_error = Bus 'e | Descriptor descriptor_error | OutOfAddresses | ResetTimedOut | NotEnabled | TooDeep

datatype 'e device = Device (dv_address: u8) (dv_speed: speed) (dv_translator: "translator option") (dv_descriptor: device_descriptor)
    (dv_configuration: configuration) (dv_hub: "'e hub option")
  and 'e hub = Hub (hb_descriptor: hub_descriptor) (hb_ports: "'e port list")
  and 'e port = Empty | PortDevice "'e device" | Failed "'e tree_error"

definition device_target :: "'e device \<Rightarrow> target" where
  "device_target d = \<lparr>tg_address = dv_address d, tg_max_packet = ucast (dd_max_packet_size (dv_descriptor d)), tg_speed = dv_speed d, tg_translator = dv_translator d\<rparr>"

definition device_class :: "'e device \<Rightarrow> class_code" where
  "device_class d =
     (if dd_class (dv_descriptor d) = CLASS_PER_INTERFACE
      then case cf_interfaces (dv_configuration d) of [] \<Rightarrow> CLASS_PER_INTERFACE | i # _ \<Rightarrow> in_class i
      else dd_class (dv_descriptor d))"

fun walk_into :: "nat \<Rightarrow> 'e device \<Rightarrow> (nat \<times> 'e device) list" and walk_ports :: "nat \<Rightarrow> 'e port list \<Rightarrow> (nat \<times> 'e device) list" where
  "walk_into depth (Device a s t d c h) =
     (depth, Device a s t d c h) # (case h of None \<Rightarrow> [] | Some (Hub desc ports) \<Rightarrow> walk_ports depth ports)"
| "walk_ports depth [] = []"
| "walk_ports depth (PortDevice d # ports) = walk_into (depth + 1) d @ walk_ports depth ports"
| "walk_ports depth (Empty # ports) = walk_ports depth ports"
| "walk_ports depth (Failed e # ports) = walk_ports depth ports"

definition walk :: "'e device \<Rightarrow> (nat \<times> 'e device) list" where
  "walk d = walk_into 0 d"

subsection \<open>Addresses\<close>

type_synonym addresses = "bool list"

definition addresses_new :: addresses where
  "addresses_new = replicate (MAX_ADDRESS + 1) False"

definition addresses_take :: "addresses \<Rightarrow> u8 option \<times> addresses" where
  "addresses_take used =
     (case List.find (\<lambda>a. \<not> used ! a) [1..<MAX_ADDRESS + 1] of
        None \<Rightarrow> (None, used)
      | Some a \<Rightarrow> (Some (of_nat a), used[a := True]))"

definition addresses_free :: "'e device \<Rightarrow> addresses \<Rightarrow> addresses" where
  "addresses_free d used = fold (\<lambda>(_, d) used. used[unat (dv_address d) := False]) (walk d) used"

subsection \<open>Operations\<close>

type_synonym 'b usb_state = "'b \<times> addresses"
type_synonym ('a, 'b, 'e) usb_op = "'b usb_state \<Rightarrow> (('a, 'e tree_error) result \<times> 'b usb_state) option"

definition ubind :: "('a, 'b, 'e) usb_op \<Rightarrow> ('a \<Rightarrow> ('c, 'b, 'e) usb_op) \<Rightarrow> ('c, 'b, 'e) usb_op" where
  "ubind m k s = (case m s of None \<Rightarrow> None | Some (Err e, s') \<Rightarrow> Some (Err e, s') | Some (Ok x, s') \<Rightarrow> k x s')"

definition uok :: "'a \<Rightarrow> ('a, 'b, 'e) usb_op" where "uok x s = Some (Ok x, s)"
definition uerr :: "'e tree_error \<Rightarrow> ('a, 'b, 'e) usb_op" where "uerr e s = Some (Err e, s)"

definition parsing :: "'a parsed \<Rightarrow> ('a, 'b, 'e) usb_op" where
  \<comment> \<open>\<open>?\<close> on a parser's result\<close>
  "parsing p s = (case p of None \<Rightarrow> None | Some (Err e) \<Rightarrow> Some (Err (Descriptor e), s) | Some (Ok x) \<Rightarrow> Some (Ok x, s))"

definition received :: "nat \<Rightarrow> byte list \<Rightarrow> (byte list, 'b, 'e) usb_op" where
  \<comment> \<open>\<open>&bytes[..read]\<close>\<close>
  "received n bytes s = (if n \<le> length bytes then Some (Ok (take n bytes), s) else None)"

definition control :: "('b, 'e) bus \<Rightarrow> target \<Rightarrow> setup_packet \<Rightarrow> byte list \<Rightarrow> (nat \<times> byte list, 'b, 'e) usb_op" where
  "control bus target req bytes = (\<lambda>(b, used).
     case bus_control bus target req bytes b of
       (Ok n, bytes', b') \<Rightarrow> Some (Ok (n, bytes'), (b', used))
     | (Err e, bytes', b') \<Rightarrow> Some (Err (Bus e), (b', used)))"

definition delay :: "('b, 'e) bus \<Rightarrow> u32 \<Rightarrow> (unit, 'b, 'e) usb_op" where
  "delay bus ms = (\<lambda>(b, used). Some (Ok (), (bus_delay_ms bus ms b, used)))"

definition port_status :: "('b, 'e) bus \<Rightarrow> target \<Rightarrow> u8 \<Rightarrow> (port_status, 'b, 'e) usb_op" where
  "port_status bus hub port =
     ubind (control bus hub (get_port_status port) (replicate 4 0)) (\<lambda>(_, bytes). uok (status_from_bytes bytes))"

function reset_loop :: "('b, 'e) bus \<Rightarrow> target \<Rightarrow> u8 \<Rightarrow> nat \<Rightarrow> (port_status, 'b, 'e) usb_op" where
  \<comment> \<open>the loop of \<open>reset_port\<close>\<close>
  "reset_loop bus hub port waited s =
     (case ubind (delay bus (of_nat RESET_POLL_MS)) (\<lambda>_. port_status bus hub port) s of
        None \<Rightarrow> None
      | Some (Err e, s') \<Rightarrow> Some (Err e, s')
      | Some (Ok status, s') \<Rightarrow>
          let waited = waited + RESET_POLL_MS
          in if reset_changed status \<or> (\<not> resetting status \<and> enabled status) then Some (Ok status, s')
             else if waited \<ge> RESET_TIMEOUT_MS then Some (Err ResetTimedOut, s')
             else reset_loop bus hub port waited s')"
  by pat_completeness auto
termination by (relation "measure (\<lambda>(bus, hub, port, waited, s). RESET_TIMEOUT_MS - waited)") (auto simp: RESET_POLL_MS_def)

declare reset_loop.simps [simp del]

definition reset_port :: "('b, 'e) bus \<Rightarrow> target \<Rightarrow> u8 \<Rightarrow> (speed, 'b, 'e) usb_op" where
  "reset_port bus hub port =
     ubind (control bus hub (set_port_feature port FEATURE_RESET) []) (\<lambda>_.
     ubind (reset_loop bus hub port 0) (\<lambda>status.
     ubind (control bus hub (clear_port_feature port FEATURE_RESET_CHANGE) []) (\<lambda>_.
     ubind (control bus hub (clear_port_feature port FEATURE_CONNECTION_CHANGE) []) (\<lambda>_.
     ubind (delay bus RESET_RECOVERY_MS) (\<lambda>_.
       if \<not> enabled status then uerr NotEnabled else uok (status_speed status))))))"

definition child_translator :: "target \<Rightarrow> u8 \<Rightarrow> speed \<Rightarrow> translator option" where
  \<comment> \<open>the \<open>match\<close> in \<open>port\<close>\<close>
  "child_translator hub port speed =
     (case (tg_speed hub, speed) of
        (High, High) \<Rightarrow> None
      | (High, _) \<Rightarrow> Some \<lparr>tt_hub = tg_address hub, tt_port = port\<rparr>
      | _ \<Rightarrow> tg_translator hub)"

type_synonym ('b, 'e) enumerates = "speed \<Rightarrow> translator option \<Rightarrow> nat \<Rightarrow> ('e device, 'b, 'e) usb_op"

definition port_with :: "('b, 'e) bus \<Rightarrow> ('b, 'e) enumerates \<Rightarrow> target \<Rightarrow> u8 \<Rightarrow> nat \<Rightarrow> 'b usb_state \<Rightarrow> ('e port \<times> 'b usb_state) option" where
  \<comment> \<open>\<open>port\<close>, with \<open>device\<close> given\<close>
  "port_with bus enum hub port depth s =
     (case port_status bus hub port s of
        None \<Rightarrow> None
      | Some (Err e, s1) \<Rightarrow> Some (Failed e, s1)
      | Some (Ok status, s1) \<Rightarrow>
          if \<not> connected status then Some (Empty, s1)
          else case ubind (reset_port bus hub port) (\<lambda>speed.
                      if depth + 1 \<ge> MAX_DEPTH then uerr TooDeep
                      else enum speed (child_translator hub port speed) (depth + 1)) s1 of
                 None \<Rightarrow> None
               | Some (Ok device, s2) \<Rightarrow> Some (PortDevice device, s2)
               | Some (Err e, s2) \<Rightarrow>
                   map_option (\<lambda>(_, s3). (Failed e, s3)) (control bus hub (clear_port_feature port FEATURE_ENABLE) [] s2))"

fun power_ports :: "('b, 'e) bus \<Rightarrow> target \<Rightarrow> u8 list \<Rightarrow> (unit, 'b, 'e) usb_op" where
  "power_ports bus hub [] s = uok () s"
| "power_ports bus hub (port # ports) s = ubind (control bus hub (set_port_feature port FEATURE_POWER) []) (\<lambda>_. power_ports bus hub ports) s"

fun map_ports :: "('b, 'e) bus \<Rightarrow> ('b, 'e) enumerates \<Rightarrow> target \<Rightarrow> nat \<Rightarrow> u8 list \<Rightarrow> 'b usb_state \<Rightarrow> ('e port list \<times> 'b usb_state) option" where
  "map_ports bus enum hub depth [] s = Some ([], s)"
| "map_ports bus enum hub depth (port # ports) s =
     (case port_with bus enum hub port depth s of
        None \<Rightarrow> None
      | Some (p, s1) \<Rightarrow> map_option (\<lambda>(ps, s2). (p # ps, s2)) (map_ports bus enum hub depth ports s1))"

definition port_numbers :: "u8 \<Rightarrow> u8 list" where
  \<comment> \<open>\<open>1..=ports\<close>\<close>
  "port_numbers n = map of_nat [1..<unat n + 1]"

definition hub_with :: "('b, 'e) bus \<Rightarrow> ('b, 'e) enumerates \<Rightarrow> target \<Rightarrow> nat \<Rightarrow> ('e hub, 'b, 'e) usb_op" where
  "hub_with bus enum hub depth =
     ubind (control bus hub (get_hub_descriptor 9) (replicate 9 0)) (\<lambda>(n, bytes).
     ubind (received n bytes) (\<lambda>bytes.
     ubind (parsing (hub_parse bytes)) (\<lambda>descriptor.
     ubind (power_ports bus hub (port_numbers (hd_ports descriptor))) (\<lambda>_.
     ubind (delay bus (max (hd_power_on_to_good_ms descriptor) MIN_POWER_UP_MS)) (\<lambda>_ s.
       map_option (\<lambda>(ports, s'). (Ok (Hub descriptor ports), s')) (map_ports bus enum hub depth (port_numbers (hd_ports descriptor)) s))))))"

definition is_hub :: "device_descriptor \<Rightarrow> configuration \<Rightarrow> bool" where
  "is_hub descriptor configuration \<longleftrightarrow> dd_class descriptor = CLASS_HUB \<or> (\<exists>i \<in> set (cf_interfaces configuration). in_class i = CLASS_HUB)"

definition addressed_with :: "('b, 'e) bus \<Rightarrow> ('b, 'e) enumerates \<Rightarrow> target \<Rightarrow> u8 \<Rightarrow> nat \<Rightarrow> ('e device, 'b, 'e) usb_op" where
  "addressed_with bus enum dflt address depth =
     ubind (control bus dflt (set_address address) []) (\<lambda>_.
     ubind (delay bus SET_ADDRESS_RECOVERY_MS) (\<lambda>_.
       let target = dflt\<lparr>tg_address := address\<rparr>
       in ubind (control bus target (get_descriptor DESC_DEVICE 0 (of_nat DEVICE_LENGTH)) (replicate DEVICE_LENGTH 0)) (\<lambda>(n, bytes).
          ubind (received n bytes) (\<lambda>bytes.
          ubind (parsing (device_parse bytes)) (\<lambda>descriptor.
          ubind (control bus target (get_descriptor DESC_CONFIGURATION 0 9) (replicate 9 0)) (\<lambda>(n, head).
          ubind (received n head) (\<lambda>head.
          ubind (parsing (total_length head)) (\<lambda>tot.
          ubind (control bus target (get_descriptor DESC_CONFIGURATION 0 tot) (replicate (unat tot) 0)) (\<lambda>(n, whole).
          ubind (received n whole) (\<lambda>whole.
          ubind (parsing (configuration_parse whole)) (\<lambda>configuration.
          ubind (control bus target (set_configuration (cf_value configuration)) []) (\<lambda>_.
          ubind (if is_hub descriptor configuration then ubind (hub_with bus enum target depth) (\<lambda>h. uok (Some h)) else uok None) (\<lambda>hub.
            uok (Device address (tg_speed dflt) (tg_translator dflt) descriptor configuration hub))))))))))))))"

definition device_with :: "('b, 'e) bus \<Rightarrow> ('b, 'e) enumerates \<Rightarrow> speed \<Rightarrow> translator option \<Rightarrow> nat \<Rightarrow> ('e device, 'b, 'e) usb_op" where
  "device_with bus enum speed translator depth =
     (let dflt = \<lparr>tg_address = 0, tg_max_packet = 8, tg_speed = speed, tg_translator = translator\<rparr>
      in ubind (control bus dflt (get_descriptor DESC_DEVICE 0 8) (replicate 8 0)) (\<lambda>(n, bytes).
         ubind (received n (bytes @ replicate (DEVICE_LENGTH - 8) 0)) (\<lambda>bytes.
         ubind (parsing (max_packet_size bytes)) (\<lambda>max_packet (b, used).
           case addresses_take used of
             (None, used') \<Rightarrow> Some (Err OutOfAddresses, (b, used'))
           | (Some address, used') \<Rightarrow>
               (case addressed_with bus enum (dflt\<lparr>tg_max_packet := ucast max_packet\<rparr>) address depth (b, used') of
                  None \<Rightarrow> None
                | Some (Ok device, s) \<Rightarrow> Some (Ok device, s)
                | Some (Err e, (b', used'')) \<Rightarrow> Some (Err e, (b', used''[unat address := False])))))))"

primrec enum_device :: "nat \<Rightarrow> ('b, 'e) bus \<Rightarrow> ('b, 'e) enumerates" where
  \<comment> \<open>\<open>Enumerator::device\<close>, through at most so many levels of hubs\<close>
  "enum_device 0 bus = (\<lambda>speed translator depth s. None)"
| "enum_device (Suc fuel) bus = device_with bus (enum_device fuel bus)"

record 'e tree =
  tr_root :: "'e device"
  tr_addresses :: addresses

definition enumerate_bus :: "('b, 'e) bus \<Rightarrow> speed \<Rightarrow> 'b \<Rightarrow> (('e tree, 'e tree_error) result \<times> 'b) option" where
  \<comment> \<open>\<open>enumerate\<close>\<close>
  "enumerate_bus bus speed b =
     (case enum_device MAX_DEPTH bus speed None 0 (b, addresses_new) of
        None \<Rightarrow> None
      | Some (Ok root, (b', used)) \<Rightarrow> Some (Ok \<lparr>tr_root = root, tr_addresses = used\<rparr>, b')
      | Some (Err e, (b', used)) \<Rightarrow> Some (Err e, b'))"

subsection \<open>Devices that come and go\<close>

datatype change = Added u8 | Removed u8

definition forget :: "'e port \<Rightarrow> addresses \<Rightarrow> change list \<times> addresses" where
  \<comment> \<open>a port whose connection changed\<close>
  "forget port used = (case port of PortDevice gone \<Rightarrow> ([Removed (dv_address gone)], addresses_free gone used) | _ \<Rightarrow> ([], used))"

definition added :: "'e port \<Rightarrow> change list" where
  "added port = (case port of PortDevice d \<Rightarrow> [Added (dv_address d)] | _ \<Rightarrow> [])"

fun poll_hub :: "('b, 'e) bus \<Rightarrow> nat \<Rightarrow> 'e device \<Rightarrow> 'b usb_state \<Rightarrow> ('e device \<times> change list \<times> 'b usb_state) option"
  and poll_ports :: "('b, 'e) bus \<Rightarrow> target \<Rightarrow> nat \<Rightarrow> u8 \<Rightarrow> 'e port list \<Rightarrow> 'b usb_state \<Rightarrow> ('e port list \<times> change list \<times> 'b usb_state) option"
  and poll_port :: "('b, 'e) bus \<Rightarrow> target \<Rightarrow> nat \<Rightarrow> u8 \<Rightarrow> 'e port \<Rightarrow> 'b usb_state \<Rightarrow> ('e port \<times> change list \<times> 'b usb_state) option" where
  "poll_hub bus depth (Device a sp tr d c h) s =
     (case h of
        None \<Rightarrow> Some (Device a sp tr d c h, [], s)
      | Some (Hub desc ports) \<Rightarrow>
          map_option (\<lambda>(ports', changes, s'). (Device a sp tr d c (Some (Hub desc ports')), changes, s'))
            (poll_ports bus (device_target (Device a sp tr d c h)) depth 1 ports s))"
| "poll_ports bus target depth number [] s = Some ([], [], s)"
| "poll_ports bus target depth number (port # ports) s =
     (case poll_port bus target depth number port s of
        None \<Rightarrow> None
      | Some (port', changes, s1) \<Rightarrow>
          map_option (\<lambda>(ports', changes', s2). (port' # ports', changes @ changes', s2)) (poll_ports bus target depth (number + 1) ports s1))"
| "poll_port bus target depth number port s =
     (case port_status bus target number s of
        None \<Rightarrow> None
      | Some (Err e, s1) \<Rightarrow> Some (port, [], s1)
      | Some (Ok status, s1) \<Rightarrow>
          if \<not> connection_changed status
          then (case port of
                  PortDevice child \<Rightarrow> map_option (\<lambda>(child', changes, s'). (PortDevice child', changes, s')) (poll_hub bus (depth + 1) child s1)
                | _ \<Rightarrow> Some (port, [], s1))
          else case control bus target (clear_port_feature number FEATURE_CONNECTION_CHANGE) [] s1 of
                 None \<Rightarrow> None
               | Some (_, (b, used)) \<Rightarrow>
                   let (gone, used') = forget port used
                   in if connected status
                      then map_option (\<lambda>(port', s'). (port', gone @ added port', s')) (port_with bus (enum_device MAX_DEPTH bus) target number depth (b, used'))
                      else Some (Empty, gone, (b, used')))"

definition poll_changes :: "('b, 'e) bus \<Rightarrow> 'e tree \<Rightarrow> 'b \<Rightarrow> ('e tree \<times> change list \<times> 'b) option" where
  "poll_changes bus tree b =
     map_option (\<lambda>(root, changes, (b', used)). (\<lparr>tr_root = root, tr_addresses = used\<rparr>, changes, b')) (poll_hub bus 0 (tr_root tree) (b, tr_addresses tree))"

definition tree_device :: "'e tree \<Rightarrow> u8 \<Rightarrow> 'e device option" where
  "tree_device tree address = List.find (\<lambda>d. dv_address d = address) (map snd (walk (tr_root tree)))"

end
