(* ===== verification/Usb_Enum.thy ===== *)
theory Usb_Enum
  imports Usb_Tree
begin

text \<open>
  Correctness of enumeration: whatever a bus answers, enumeration and polling come to an end without a panic, and leave a tree in
  which every device has an address of its own, the table of addresses is exactly those of the tree, and every device behind a
  hub is reached through the right translator.
\<close>

locale usb_bus =
  fixes bus :: "('b, 'e) bus"
  assumes control_fills: "bus_control bus target req bytes b = (r, bytes', b') \<Longrightarrow> length bytes' = length bytes"
    and control_count: "bus_control bus target req bytes b = (Ok n, bytes', b') \<Longrightarrow> n \<le> length bytes"

subsection \<open>The table of addresses\<close>

definition used_set :: "addresses \<Rightarrow> u8 set" where
  "used_set used = {a. unat a < length used \<and> used ! unat a}"

definition table_ok :: "addresses \<Rightarrow> bool" where
  "table_ok used \<longleftrightarrow> length used = MAX_ADDRESS + 1 \<and> \<not> used ! 0"

definition updated :: "addresses \<Rightarrow> u8 list \<Rightarrow> u8 list \<Rightarrow> addresses \<Rightarrow> bool" where
  \<comment> \<open>the addresses \<open>old\<close> were given back and \<open>new\<close> taken\<close>
  "updated used old new used' \<longleftrightarrow> table_ok used' \<and> distinct new \<and> set new \<inter> (used_set used - set old) = {}
     \<and> used_set used' = (used_set used - set old) \<union> set new"

definition device_addresses :: "'e device \<Rightarrow> u8 list" where
  "device_addresses d = map (\<lambda>(_, d). dv_address d) (walk d)"

definition ports_addresses :: "'e port list \<Rightarrow> u8 list" where
  "ports_addresses ports = map (\<lambda>(_, d). dv_address d) (walk_ports 0 ports)"

definition port_addresses :: "'e port \<Rightarrow> u8 list" where
  "port_addresses port = (case port of PortDevice d \<Rightarrow> device_addresses d | _ \<Rightarrow> [])"

lemma walk_depth:
  fixes d :: "'e device" and ports :: "'e port list"
  shows "map snd (walk_into k d) = map snd (walk_into j d)" "map snd (walk_ports k ports) = map snd (walk_ports j ports)"
proof (induction k d and k ports arbitrary: j and j rule: walk_into_walk_ports.induct)
  case (1 depth a s t d c h)
  show ?case
  proof (cases h)
    case (Some hub)
    obtain desc ports where "hub = Hub desc ports" by (cases hub)
    then show ?thesis using 1 [OF Some \<open>hub = Hub desc ports\<close>, of j] Some by simp
  qed simp
next
  case (3 depth d ports)
  show ?case using 3(1) [of "j + 1"] 3(2) [of j] by simp
next
  case (4 depth ports)
  show ?case using 4 [of j] by simp
next
  case (5 depth e ports)
  show ?case using 5 [of j] by simp
qed simp

lemma walk_ports_Suc: "map (\<lambda>(_, d). dv_address d) (walk_ports k ports) = ports_addresses ports"
  "map (\<lambda>(_, d). dv_address d) (walk_into k d) = device_addresses d"
proof -
  have eq: "map (\<lambda>(_, d). dv_address d) xs = map dv_address (map snd xs)" for xs :: "(nat \<times> 'x device) list" by (simp add: case_prod_unfold)
  show "map (\<lambda>(_, d). dv_address d) (walk_ports k ports) = ports_addresses ports" unfolding ports_addresses_def eq by (simp only: walk_depth(2) [of k ports 0])
  show "map (\<lambda>(_, d). dv_address d) (walk_into k d) = device_addresses d" unfolding device_addresses_def walk_def eq by (simp only: walk_depth(1) [of k d 0])
qed

lemma addresses_simps [simp]:
  "device_addresses (Device a s t d c None) = [a]"
  "device_addresses (Device a s t d c (Some (Hub desc ports))) = a # ports_addresses ports"
  "ports_addresses [] = []" "ports_addresses (port # ports) = port_addresses port @ ports_addresses ports"
  using walk_ports_Suc by (cases port; force simp: device_addresses_def walk_def ports_addresses_def port_addresses_def)+

lemma device_addresses_hd: "dv_address d \<in> set (device_addresses d)"
  by (cases d; cases "dv_hub d"; cases "the (dv_hub d)") auto

lemma used_set_update:
  assumes "unat a < length used"
  shows "used_set (used[unat a := v]) = (if v then insert a (used_set used) else used_set used - {a})"
  using assms by (auto simp: used_set_def nth_list_update word_unat_eq_iff)

lemma table_ok_update: "table_ok used \<Longrightarrow> a \<noteq> 0 \<Longrightarrow> table_ok (used[unat a := v])"
  by (auto simp: table_ok_def nth_list_update unat_eq_0)

lemma used_set_pos: "table_ok used \<Longrightarrow> a \<in> used_set used \<Longrightarrow> a \<noteq> 0 \<and> unat a < length used"
  by (auto simp: table_ok_def used_set_def)

lemma take_address:
  assumes "table_ok used" "addresses_take used = (Some a, used')"
  shows "a \<notin> used_set used" "used' = used[unat a := True]" "unat a < length used" "a \<noteq> 0" "\<not> used ! unat a" "updated used [] [a] used'"
proof -
  obtain n where n: "List.find (\<lambda>a. \<not> used ! a) [1..<MAX_ADDRESS + 1] = Some n" "a = of_nat n" "used' = used[n := True]"
    using assms(2) by (auto simp: addresses_take_def split: option.splits)
  then have "n \<in> {1..<MAX_ADDRESS + 1}" "\<not> used ! n" by (auto simp: find_Some_iff simp del: upt_Suc) 
  then have m: "1 \<le> n" "n < 128" "\<not> used ! n" by (auto simp: MAX_ADDRESS_def)
  then have u: "unat a = n" by (simp add: n(2) unsigned_of_nat take_bit_nat_eq_self)
  show len: "unat a < length used" using assms(1) m u by (simp add: table_ok_def MAX_ADDRESS_def)
  show ne: "a \<noteq> 0" using m(1) u by (auto simp: unat_eq_0 [symmetric])
  show "used' = used[unat a := True]" "\<not> used ! unat a" using n m u by simp_all
  then show "a \<notin> used_set used" "updated used [] [a] used'"
    using used_set_update [OF len] table_ok_update [OF assms(1) ne] by (auto simp: updated_def used_set_def)
qed

lemma take_none: "addresses_take used = (None, used') \<Longrightarrow> used' = used"
  by (auto simp: addresses_take_def split: option.splits)

lemma free_addresses:
  assumes "table_ok used" "set (device_addresses d) \<subseteq> used_set used"
  shows "updated used (device_addresses d) [] (addresses_free d used)"
proof -
  have "table_ok (fold (\<lambda>(_, d) used. used[unat (dv_address d) := False]) ds used) \<and>
      used_set (fold (\<lambda>(_, d) used. used[unat (dv_address d) := False]) ds used) = used_set used - set (map (\<lambda>(_, d). dv_address d) ds)"
    if "set (map (\<lambda>(_, d). dv_address d) ds) \<subseteq> {a. a \<noteq> 0 \<and> unat a < MAX_ADDRESS + 1}" "table_ok used" for ds :: "(nat \<times> 'a device) list" and used
    using that
  proof (induction ds arbitrary: used)
    case (Cons x ds)
    obtain k d where x: "x = (k, d)" by fastforce
    have ok: "table_ok (used[unat (dv_address d) := False])" using Cons.prems table_ok_update by (auto simp: x)
    have "unat (dv_address d) < length used" using Cons.prems by (auto simp: x table_ok_def)
    then show ?case using Cons.IH [OF _ ok] Cons.prems used_set_update [of "dv_address d" used False] by (auto simp: x)
  qed simp
  moreover have "set (device_addresses d) \<subseteq> {a. a \<noteq> 0 \<and> unat a < MAX_ADDRESS + 1}" using assms used_set_pos by (fastforce simp: table_ok_def)
  ultimately show ?thesis using assms(1) by (auto simp: updated_def addresses_free_def device_addresses_def)
qed

lemma updated_refl: "table_ok used \<Longrightarrow> updated used [] [] used"
  by (simp add: updated_def)

lemma updated_same: "table_ok used \<Longrightarrow> set as \<subseteq> used_set used \<Longrightarrow> distinct as \<Longrightarrow> updated used as as used"
  by (auto simp: updated_def)

lemma updated_both:
  assumes "updated used as as' used1" "updated used1 bs bs' used2" "set as \<inter> set bs = {}" "set bs \<subseteq> used_set used"
  shows "updated used (as @ bs) (as' @ bs') used2"
proof -
  have a: "table_ok used1" "distinct as'" "set as' \<inter> (used_set used - set as) = {}" "used_set used1 = (used_set used - set as) \<union> set as'"
    and b: "table_ok used2" "distinct bs'" "set bs' \<inter> (used_set used1 - set bs) = {}" "used_set used2 = (used_set used1 - set bs) \<union> set bs'"
    using assms(1,2) by (auto simp: updated_def)
  have "set as' \<inter> set bs = {}" using a(3) assms(3,4) by blast
  then show ?thesis using a b assms(3,4) by (auto simp: updated_def)
qed

lemma updated_then:
  assumes "updated used as bs used1" "updated used1 bs cs used2"
  shows "updated used as cs used2"
  using assms by (auto simp: updated_def)

subsection \<open>Operations that end\<close>

definition post :: "('a, 'b, 'e) usb_op \<Rightarrow> addresses \<Rightarrow> ('a \<Rightarrow> addresses \<Rightarrow> bool) \<Rightarrow> bool" where
  \<comment> \<open>does not panic, leaves the addresses alone on an error, and otherwise gives what \<open>Q\<close> says\<close>
  "post m used Q \<longleftrightarrow> (\<forall>b. \<exists>r b' used'. m (b, used) = Some (r, (b', used')) \<and> (case r of Err e \<Rightarrow> used' = used | Ok x \<Rightarrow> Q x used'))"

abbreviation keeps :: "('a, 'b, 'e) usb_op \<Rightarrow> addresses \<Rightarrow> bool" where
  "keeps m used \<equiv> post m used (\<lambda>_ used'. used' = used)"

lemma post_bind:
  assumes "post m used (\<lambda>x used'. used' = used \<and> R x)" "\<And>x. R x \<Longrightarrow> post (k x) used Q"
  shows "post (ubind m k) used Q"
  unfolding post_def
proof
  fix b
  obtain r b' used' where m: "m (b, used) = Some (r, (b', used'))" "case r of Err e \<Rightarrow> used' = used | Ok x \<Rightarrow> used' = used \<and> R x"
    using assms(1) unfolding post_def by blast
  show "\<exists>r b' used'. ubind m k (b, used) = Some (r, (b', used')) \<and> (case r of Err e \<Rightarrow> used' = used | Ok x \<Rightarrow> Q x used')"
  proof (cases r)
    case (Ok x)
    then have "post (k x) used Q" "used' = used" using m(2) assms(2) by simp_all
    then show ?thesis using m(1) Ok unfolding post_def ubind_def by simp
  next
    case (Err e)
    then show ?thesis using m unfolding ubind_def by simp
  qed
qed

lemma keepsD:
  assumes "keeps m used"
  shows "\<exists>r b'. m (b, used) = Some (r, (b', used))"
proof -
  obtain r b' used' where "m (b, used) = Some (r, (b', used'))" "case r of Err e \<Rightarrow> used' = used | Ok x \<Rightarrow> used' = used" using assms unfolding post_def by blast
  then show ?thesis by (cases r) auto
qed

lemma keepsI:
  assumes "\<And>b. \<exists>r b'. m (b, used) = Some (r, (b', used))"
  shows "keeps m used"
  unfolding post_def
proof
  fix b
  obtain r b' where "m (b, used) = Some (r, (b', used))" using assms by blast
  then show "\<exists>r b' used'. m (b, used) = Some (r, b', used') \<and> (case r of Ok _ \<Rightarrow> used' = used | Err _ \<Rightarrow> used' = used)" by (cases r) auto
qed

lemma post_keeps: "keeps m used \<Longrightarrow> (\<And>x. post (k x) used Q) \<Longrightarrow> post (ubind m k) used Q"
  by (rule post_bind [where R = "\<lambda>_. True"]) simp_all

lemma post_uok: "Q x used \<Longrightarrow> post (uok x) used Q"
  by (simp add: post_def uok_def)

lemma post_uerr: "post (uerr e) used Q"
  by (simp add: post_def uerr_def)

lemma post_mono: "post m used Q \<Longrightarrow> (\<And>x used'. Q x used' \<Longrightarrow> Q' x used') \<Longrightarrow> post m used Q'"
  unfolding post_def
proof
  fix b
  assume m: "\<forall>b. \<exists>r b' used'. m (b, used) = Some (r, b', used') \<and> (case r of Ok x \<Rightarrow> Q x used' | Err e \<Rightarrow> used' = used)" and Q: "\<And>x used'. Q x used' \<Longrightarrow> Q' x used'"
  obtain r b' used' where "m (b, used) = Some (r, b', used')" "case r of Ok x \<Rightarrow> Q x used' | Err e \<Rightarrow> used' = used" using m by blast
  then show "\<exists>r b' used'. m (b, used) = Some (r, b', used') \<and> (case r of Ok x \<Rightarrow> Q' x used' | Err e \<Rightarrow> used' = used)" using Q by (cases r) auto
qed

lemma post_received: "n \<le> length bytes \<Longrightarrow> (\<And>bytes. post (k bytes) used Q) \<Longrightarrow> post (ubind (received n bytes) k) used Q"
  by (rule post_keeps) (simp_all add: post_def received_def)

lemma post_parsing: "p \<noteq> None \<Longrightarrow> (\<And>x. p = Some (Ok x) \<Longrightarrow> post (k x) used Q) \<Longrightarrow> post (ubind (parsing p) k) used Q"
proof (rule post_bind [where R = "\<lambda>x. p = Some (Ok x)"])
  assume "p \<noteq> None"
  then obtain r where "p = Some r" by blast
  then show "post (parsing p) used (\<lambda>x used'. used' = used \<and> p = Some (Ok x))" by (cases r) (simp_all add: post_def parsing_def)
qed

lemma post_delay: "keeps (delay bus ms) used"
  by (simp add: post_def delay_def)

context usb_bus
begin

lemma control_run:
  "\<exists>r b'. control bus target req bytes (b, used) = Some (r, (b', used)) \<and> (\<forall>n bytes'. r = Ok (n, bytes') \<longrightarrow> n \<le> length bytes \<and> length bytes' = length bytes)"
proof -
  obtain r bytes' b' where c: "bus_control bus target req bytes b = (r, bytes', b')" by (cases "bus_control bus target req bytes b") auto
  show ?thesis
  proof (cases r)
    case (Ok n)
    then show ?thesis using control_fills [OF c] control_count [of target req bytes b n] c by (simp add: control_def)
  next
    case (Err e)
    then show ?thesis using c by (simp add: control_def)
  qed
qed

lemma post_control:
  assumes "\<And>n bytes'. n \<le> length bytes \<Longrightarrow> length bytes' = length bytes \<Longrightarrow> post (k (n, bytes')) used Q"
  shows "post (ubind (control bus target req bytes) k) used Q"
proof (rule post_bind [where R = "\<lambda>(n, bytes'). n \<le> length bytes \<and> length bytes' = length bytes"])
  show "post (control bus target req bytes) used (\<lambda>x used'. used' = used \<and> (case x of (n, bytes') \<Rightarrow> n \<le> length bytes \<and> length bytes' = length bytes))"
    unfolding post_def
  proof
    fix b
    obtain r b' where "control bus target req bytes (b, used) = Some (r, (b', used))" "\<forall>n bytes'. r = Ok (n, bytes') \<longrightarrow> n \<le> length bytes \<and> length bytes' = length bytes"
      using control_run by blast
    then show "\<exists>r b' used'. control bus target req bytes (b, used) = Some (r, b', used') \<and>
        (case r of Ok x \<Rightarrow> used' = used \<and> (case x of (n, bytes') \<Rightarrow> n \<le> length bytes \<and> length bytes' = length bytes) | Err e \<Rightarrow> used' = used)"
      by (cases r) auto
  qed
qed (use assms in auto)

lemma keeps_control: "keeps (control bus target req bytes) used"
  by (rule keepsI) (use control_run [of target req bytes _ used] in blast)

lemma keeps_status: "keeps (port_status bus hub port) used"
  unfolding port_status_def by (intro post_keeps [OF keeps_control]) (auto intro: post_uok)

lemma keeps_reset_loop: "keeps (reset_loop bus hub port waited) used"
proof -
  have "\<exists>r b'. reset_loop bus hub port waited (b, used) = Some (r, (b', used))" for b
  proof (induction "RESET_TIMEOUT_MS - waited" arbitrary: waited b rule: less_induct)
    case less
    have "keeps (ubind (delay bus (of_nat RESET_POLL_MS)) (\<lambda>_. port_status bus hub port)) used"
      by (rule post_keeps [OF post_delay keeps_status])
    from keepsD [OF this, of b] obtain r b' where r: "ubind (delay bus (of_nat RESET_POLL_MS)) (\<lambda>_. port_status bus hub port) (b, used) = Some (r, (b', used))"
      by blast
    show ?case
    proof (cases "\<exists>status. r = Ok status \<and> \<not> (reset_changed status \<or> (\<not> resetting status \<and> enabled status)) \<and> waited + RESET_POLL_MS < RESET_TIMEOUT_MS")
      case True
      then have "waited + RESET_POLL_MS < RESET_TIMEOUT_MS" by blast
      then have "RESET_TIMEOUT_MS - (waited + RESET_POLL_MS) < RESET_TIMEOUT_MS - waited" by (simp add: RESET_POLL_MS_def)
      from less [OF this, of b'] show ?thesis using True r by (subst reset_loop.simps) (auto simp: Let_def)
    next
      case False
      then show ?thesis using r by (subst reset_loop.simps) (auto simp: Let_def split: result.split)
    qed
  qed
  then show ?thesis by (rule keepsI)
qed

lemma keeps_reset_port: "keeps (reset_port bus hub port) used"
  unfolding reset_port_def by (intro post_keeps keeps_control keeps_reset_loop post_delay) (auto intro: post_uok post_uerr)

lemma keeps_power_ports: "keeps (power_ports bus hub ports) used"
proof (induction ports)
  case Nil
  have "power_ports bus hub [] = uok ()" by (simp add: fun_eq_iff)
  then show ?case by (simp add: post_uok)
next
  case (Cons port ports)
  have "power_ports bus hub (port # ports) = ubind (control bus hub (set_port_feature port FEATURE_POWER) []) (\<lambda>_. power_ports bus hub ports)"
    by (simp add: fun_eq_iff)
  then show ?case using post_keeps [OF keeps_control Cons] by simp
qed

end

subsection \<open>The shape of a tree\<close>

fun device_wf :: "nat \<Rightarrow> 'e device \<Rightarrow> bool" and ports_wf :: "target \<Rightarrow> nat \<Rightarrow> u8 \<Rightarrow> 'e port list \<Rightarrow> bool" where
  "device_wf depth (Device a s t d c h) \<longleftrightarrow> depth < MAX_DEPTH \<and> (h \<noteq> None \<longleftrightarrow> is_hub d c) \<and>
     (case h of None \<Rightarrow> True
      | Some (Hub desc ports) \<Rightarrow> length ports = unat (hd_ports desc) \<and> ports_wf (device_target (Device a s t d c h)) depth 1 ports)"
| "ports_wf hub depth n [] \<longleftrightarrow> True"
| "ports_wf hub depth n (PortDevice d # ports) \<longleftrightarrow>
     dv_translator d = child_translator hub n (dv_speed d) \<and> device_wf (depth + 1) d \<and> ports_wf hub depth (n + 1) ports"
| "ports_wf hub depth n (Empty # ports) \<longleftrightarrow> ports_wf hub depth (n + 1) ports"
| "ports_wf hub depth n (Failed e # ports) \<longleftrightarrow> ports_wf hub depth (n + 1) ports"

lemma ports_wf_Cons: "ports_wf hub depth n (p # ports) \<longleftrightarrow> ports_wf hub depth n [p] \<and> ports_wf hub depth (n + 1) ports"
  by (cases p) simp_all

lemma ports_wf_target:
  assumes "tg_address hub = tg_address hub'" "tg_speed hub = tg_speed hub'" "tg_translator hub = tg_translator hub'"
  shows "ports_wf hub depth n ports = ports_wf hub' depth n ports"
proof (induction ports arbitrary: n)
  case (Cons p ports)
  have "child_translator hub = child_translator hub'" using assms by (simp add: fun_eq_iff child_translator_def split: speed.split)
  then show ?case using Cons by (cases p) simp_all
qed simp

definition polls_device :: "('b, 'e) bus \<Rightarrow> 'e device \<Rightarrow> bool" where
  "polls_device bus d \<longleftrightarrow> (\<forall>depth b used. table_ok used \<longrightarrow> set (device_addresses d) \<subseteq> used_set used \<longrightarrow> distinct (device_addresses d) \<longrightarrow> device_wf depth d \<longrightarrow>
     (\<exists>d' changes b' used'. poll_hub bus depth d (b, used) = Some (d', changes, (b', used')) \<and> updated used (device_addresses d) (device_addresses d') used'
        \<and> device_wf depth d' \<and> dv_address d' = dv_address d \<and> dv_speed d' = dv_speed d \<and> dv_translator d' = dv_translator d
        \<and> (changes = [] \<longrightarrow> device_addresses d' = device_addresses d)))"

definition polls_port :: "('b, 'e) bus \<Rightarrow> 'e port \<Rightarrow> bool" where
  "polls_port bus port \<longleftrightarrow> (\<forall>hub depth n b used. table_ok used \<longrightarrow> set (port_addresses port) \<subseteq> used_set used \<longrightarrow> distinct (port_addresses port) \<longrightarrow> depth < MAX_DEPTH \<longrightarrow>
     ports_wf hub depth n [port] \<longrightarrow>
     (\<exists>port' changes b' used'. poll_port bus hub depth n port (b, used) = Some (port', changes, (b', used')) \<and> updated used (port_addresses port) (port_addresses port') used'
        \<and> ports_wf hub depth n [port'] \<and> (changes = [] \<longrightarrow> port_addresses port' = port_addresses port)))"

definition enum_spec :: "('b, 'e) enumerates \<Rightarrow> nat \<Rightarrow> bool" where
  "enum_spec enum depth \<longleftrightarrow> (\<forall>speed tr used. table_ok used \<longrightarrow> post (enum speed tr depth) used
     (\<lambda>d used'. updated used [] (device_addresses d) used' \<and> device_wf depth d \<and> dv_speed d = speed \<and> dv_translator d = tr))"

lemma postD:
  assumes "post m used Q"
  obtains r b' used' where "m (b, used) = Some (r, (b', used'))" "case r of Err e \<Rightarrow> used' = used | Ok x \<Rightarrow> Q x used'"
  using assms unfolding post_def by blast

context usb_bus
begin

lemma port_run:
  assumes ok: "table_ok used" and enum: "depth + 1 < MAX_DEPTH \<Longrightarrow> enum_spec enum (depth + 1)"
  shows "\<exists>p b' used'. port_with bus enum hub port depth (b, used) = Some (p, (b', used')) \<and> updated used [] (port_addresses p) used' \<and> ports_wf hub depth port [p]"
proof -
  obtain r1 b1 where st: "port_status bus hub port (b, used) = Some (r1, (b1, used))" using keepsD [OF keeps_status] by blast
  define go where "go = ubind (reset_port bus hub port) (\<lambda>speed. if depth + 1 \<ge> MAX_DEPTH then uerr TooDeep else enum speed (child_translator hub port speed) (depth + 1))"
  have "post go used (\<lambda>d used'. updated used [] (device_addresses d) used' \<and> device_wf (depth + 1) d \<and> dv_translator d = child_translator hub port (dv_speed d))"
    unfolding go_def
  proof (rule post_keeps [OF keeps_reset_port])
    fix speed
    have "post (enum speed (child_translator hub port speed) (depth + 1)) used (\<lambda>d used'. updated used [] (device_addresses d) used' \<and> device_wf (depth + 1) d
        \<and> dv_translator d = child_translator hub port (dv_speed d))" if "depth + 1 < MAX_DEPTH"
      using enum [OF that, unfolded enum_spec_def, rule_format, OF ok, of speed "child_translator hub port speed"] by (rule post_mono) auto
    then show "post (if MAX_DEPTH \<le> depth + 1 then uerr TooDeep else enum speed (child_translator hub port speed) (depth + 1)) used
        (\<lambda>d used'. updated used [] (device_addresses d) used' \<and> device_wf (depth + 1) d \<and> dv_translator d = child_translator hub port (dv_speed d))"
      by (simp add: post_uerr not_le)
  qed
  then obtain r2 b2 used2 where g: "go (b1, used) = Some (r2, (b2, used2))" and r2: "case r2 of Err e \<Rightarrow> used2 = used
      | Ok d \<Rightarrow> updated used [] (device_addresses d) used2 \<and> device_wf (depth + 1) d \<and> dv_translator d = child_translator hub port (dv_speed d)" by (rule postD)
  obtain r3 b3 where c: "control bus hub (clear_port_feature port FEATURE_ENABLE) [] (b2, used2) = Some (r3, (b3, used2))" using keepsD [OF keeps_control] by blast
  have none: "updated used [] (port_addresses Empty) used" "updated used [] (port_addresses (Failed e)) used" for e :: "'e tree_error"
    using updated_refl [OF ok] by (simp_all add: port_addresses_def)
  show ?thesis
  proof (cases r1)
    case (Err e)
    then show ?thesis using st none by (simp add: port_with_def)
  next
    case (Ok status)
    show ?thesis
    proof (cases "connected status")
      case False
      then show ?thesis using st Ok none by (simp add: port_with_def)
    next
      case True
      have "port_with bus enum hub port depth (b, used) = (case go (b1, used) of None \<Rightarrow> None | Some (Ok device, s2) \<Rightarrow> Some (PortDevice device, s2)
          | Some (Err e, s2) \<Rightarrow> map_option (\<lambda>(_, s3). (Failed e, s3)) (control bus hub (clear_port_feature port FEATURE_ENABLE) [] s2))"
        using st Ok True by (simp add: port_with_def go_def)
      then show ?thesis using g c r2 none by (cases r2) (simp_all add: port_addresses_def)
    qed
  qed
qed

lemma map_ports_run:
  assumes enum: "depth + 1 < MAX_DEPTH \<Longrightarrow> enum_spec enum (depth + 1)"
  shows "table_ok used \<Longrightarrow> \<exists>ps b' used'. map_ports bus enum hub depth (map of_nat [k..<k + n]) (b, used) = Some (ps, (b', used'))
     \<and> updated used [] (ports_addresses ps) used' \<and> length ps = n \<and> ports_wf hub depth (of_nat k) ps"
proof (induction n arbitrary: k b used)
  case 0
  then show ?case by (simp add: updated_refl)
next
  case (Suc n)
  obtain p b1 used1 where p: "port_with bus enum hub (of_nat k) depth (b, used) = Some (p, (b1, used1))" "updated used [] (port_addresses p) used1"
      "ports_wf hub depth (of_nat k) [p]" using port_run [OF Suc.prems enum] by blast
  then have "table_ok used1" by (simp add: updated_def)
  from Suc.IH [OF this, of "Suc k" b1] obtain ps b2 used2 where ps: "map_ports bus enum hub depth (map of_nat [Suc k..<Suc k + n]) (b1, used1) = Some (ps, (b2, used2))"
      "updated used1 [] (ports_addresses ps) used2" "length ps = n" "ports_wf hub depth (of_nat (Suc k)) ps" by blast
  have list: "[k..<k + Suc n] = k # [Suc k..<Suc k + n]" by (simp add: upt_conv_Cons)
  have upd: "updated used [] (ports_addresses (p # ps)) used2" using updated_both [OF p(2) ps(2)] by simp
  have wf: "ports_wf hub depth (of_nat k) (p # ps)" using p(3) ps(4) ports_wf_Cons [of hub depth "of_nat k" p ps] by (simp add: add.commute)
  have "map_ports bus enum hub depth (map of_nat [k..<k + Suc n]) (b, used) = Some (p # ps, (b2, used2))"
    unfolding list using p(1) ps(1) by simp
  then show ?case using upd wf ps(3) by (intro exI [of _ "p # ps"]) simp
qed

lemma post_hub:
  assumes ok: "table_ok used" and enum: "depth + 1 < MAX_DEPTH \<Longrightarrow> enum_spec enum (depth + 1)"
  shows "post (hub_with bus enum hub depth) used (\<lambda>h used'. updated used [] (ports_addresses (hb_ports h)) used'
     \<and> length (hb_ports h) = unat (hd_ports (hb_descriptor h)) \<and> ports_wf hub depth 1 (hb_ports h))"
  unfolding hub_with_def
proof (intro post_control, simp only: prod.case, intro post_received post_parsing post_keeps [OF keeps_power_ports] post_keeps [OF post_delay] parsers_total, simp)
  fix desc :: hub_descriptor
  let ?n = "hd_ports desc"
  have "port_numbers ?n = map of_nat [1..<1 + unat ?n]" by (simp add: port_numbers_def)
  then have "\<exists>ps b' used'. map_ports bus enum hub depth (port_numbers ?n) (b, used) = Some (ps, (b', used'))
     \<and> updated used [] (ports_addresses ps) used' \<and> length ps = unat ?n \<and> ports_wf hub depth 1 ps" for b
    using map_ports_run [OF enum ok, where k = 1 and n = "unat ?n" and hub = hub and b = b] by simp
  then show "post (\<lambda>s. map_option (\<lambda>(ports, s'). (Ok (Hub desc ports), s')) (map_ports bus enum hub depth (port_numbers ?n) s)) used
      (\<lambda>h used'. updated used [] (ports_addresses (hb_ports h)) used' \<and> length (hb_ports h) = unat (hd_ports (hb_descriptor h)) \<and> ports_wf hub depth 1 (hb_ports h))"
    unfolding post_def by fastforce
qed

lemma post_addressed:
  assumes ok: "table_ok used" and depth: "depth < MAX_DEPTH" and enum: "depth + 1 < MAX_DEPTH \<Longrightarrow> enum_spec enum (depth + 1)"
    and address: "address \<in> used_set used"
  shows "post (addressed_with bus enum dflt address depth) used (\<lambda>d used'. \<exists>as. device_addresses d = address # as \<and> updated used [] as used'
     \<and> device_wf depth d \<and> dv_speed d = tg_speed dflt \<and> dv_translator d = tg_translator dflt)"
proof -
  define target where "target = dflt\<lparr>tg_address := address\<rparr>"
  define Q where "Q = (\<lambda>(d :: 'e device) used'. \<exists>as. device_addresses d = address # as \<and> updated used [] as used'
     \<and> device_wf depth d \<and> dv_speed d = tg_speed dflt \<and> dv_translator d = tg_translator dflt)"
  have "post (ubind (if is_hub descriptor configuration then ubind (hub_with bus enum target depth) (\<lambda>h. uok (Some h)) else uok None) (\<lambda>hub.
            uok (Device address (tg_speed dflt) (tg_translator dflt) descriptor configuration hub))) used Q" for descriptor configuration
  proof (cases "is_hub descriptor configuration")
    case False
    have "Q (Device address (tg_speed dflt) (tg_translator dflt) descriptor configuration None) used"
      using False depth updated_refl [OF ok] by (simp add: Q_def)
    then show ?thesis using False by (simp add: ubind_def uok_def post_def)
  next
    case True
    have "Q (Device address (tg_speed dflt) (tg_translator dflt) descriptor configuration (Some h)) used'"
      if "updated used [] (ports_addresses (hb_ports h)) used'" "length (hb_ports h) = unat (hd_ports (hb_descriptor h))" "ports_wf target depth 1 (hb_ports h)" for h used'
    proof -
      obtain desc ports where h: "h = Hub desc ports" by (cases h)
      have "ports_wf (device_target (Device address (tg_speed dflt) (tg_translator dflt) descriptor configuration (Some h))) depth 1 ports"
        using that(3) ports_wf_target [of target "device_target (Device address (tg_speed dflt) (tg_translator dflt) descriptor configuration (Some h))" depth 1 ports]
        by (simp add: h target_def device_target_def)
      then show ?thesis using that(1,2) True depth by (simp add: Q_def h)
    qed
    note Q = this
    have hub: "post (hub_with bus enum target depth) used (\<lambda>h used'. Q (Device address (tg_speed dflt) (tg_translator dflt) descriptor configuration (Some h)) used')"
      by (rule post_mono [OF post_hub [OF ok enum]]) (auto intro!: Q)
    have "post (ubind (ubind (hub_with bus enum target depth) (\<lambda>h. uok (Some h))) (\<lambda>hub. uok (Device address (tg_speed dflt) (tg_translator dflt) descriptor configuration hub))) used Q"
      unfolding post_def
    proof
      fix b
      obtain r b' used' where "hub_with bus enum target depth (b, used) = Some (r, (b', used'))"
        "case r of Err e \<Rightarrow> used' = used | Ok h \<Rightarrow> Q (Device address (tg_speed dflt) (tg_translator dflt) descriptor configuration (Some h)) used'" using hub by (rule postD)
      then show "\<exists>r b' used'. ubind (ubind (hub_with bus enum target depth) (\<lambda>h. uok (Some h))) (\<lambda>hub. uok (Device address (tg_speed dflt) (tg_translator dflt) descriptor configuration hub)) (b, used)
          = Some (r, b', used') \<and> (case r of Ok x \<Rightarrow> Q x used' | Err e \<Rightarrow> used' = used)"
        by (cases r) (simp_all add: ubind_def uok_def)
    qed
    then show ?thesis using True by simp
  qed
  note final = this
  show ?thesis
    unfolding addressed_with_def Let_def target_def [symmetric] Q_def [symmetric]
    by (rule post_control, rule post_keeps [OF post_delay], rule post_control, simp only: prod.case,
        rule post_received, simp, rule post_parsing [OF parsers_total(2)], rule post_control, simp only: prod.case,
        rule post_received, simp, rule post_parsing [OF parsers_total(3)], rule post_control, simp only: prod.case,
        rule post_received, simp, rule post_parsing [OF configuration_parse_total], rule post_control, rule final)
qed

lemma post_device:
  assumes ok: "table_ok used" and depth: "depth < MAX_DEPTH" and enum: "depth + 1 < MAX_DEPTH \<Longrightarrow> enum_spec enum (depth + 1)"
  shows "post (device_with bus enum speed tr depth) used
     (\<lambda>d used'. updated used [] (device_addresses d) used' \<and> device_wf depth d \<and> dv_speed d = speed \<and> dv_translator d = tr)"
  unfolding device_with_def Let_def
proof (rule post_control, simp only: prod.case, rule post_received, simp, rule post_parsing [OF parsers_total(1)])
  fix max_packet
  define dflt where "dflt = \<lparr>tg_address = 0, tg_max_packet = 8, tg_speed = speed, tg_translator = tr\<rparr>\<lparr>tg_max_packet := ucast (max_packet :: u8)\<rparr>"
  define go where "go = (\<lambda>(b, used). case addresses_take used of (None, used') \<Rightarrow> Some (Err OutOfAddresses, b, used')
      | (Some address, used') \<Rightarrow> (case addressed_with bus enum dflt address depth (b, used') of None \<Rightarrow> None | Some (Ok device, s) \<Rightarrow> Some (Ok device, s)
          | Some (Err e, b', used'') \<Rightarrow> Some (Err e, b', used''[unat address := False])))"
  have "\<exists>r b' used'. go (b, used) = Some (r, b', used') \<and> (case r of Ok d \<Rightarrow> updated used [] (device_addresses d) used' \<and> device_wf depth d \<and> dv_speed d = speed \<and> dv_translator d = tr
      | Err e \<Rightarrow> used' = used)" for b
  proof (cases "fst (addresses_take used)")
    case None
    then obtain used' where "addresses_take used = (None, used')" by (cases "addresses_take used") auto
    then show ?thesis using take_none by (auto simp: go_def)
  next
    case (Some address)
    then obtain used1 where tk: "addresses_take used = (Some address, used1)" by (cases "addresses_take used") auto
    note ta = take_address [OF ok tk]
    have ok1: "table_ok used1" "address \<in> used_set used1" using ta(6) by (auto simp: updated_def)
    obtain r b' used2 where ad: "addressed_with bus enum dflt address depth (b, used1) = Some (r, (b', used2))"
      "case r of Err e \<Rightarrow> used2 = used1 | Ok d \<Rightarrow> \<exists>as. device_addresses d = address # as \<and> updated used1 [] as used2 \<and> device_wf depth d \<and> dv_speed d = tg_speed dflt \<and> dv_translator d = tg_translator dflt"
      using post_addressed [OF ok1(1) depth enum ok1(2)] by (rule postD)
    show ?thesis
    proof (cases r)
      case (Err e)
      then have "used2[unat address := False] = used" using ad(2) ta(2,5) list_update_id [of used "unat address"] by simp
      then show ?thesis using ad(1) tk Err by (simp add: go_def)
    next
      case (Ok d)
      then obtain as where d: "device_addresses d = address # as" "updated used1 [] as used2" "device_wf depth d" "dv_speed d = speed" "dv_translator d = tr"
        using ad(2) by (auto simp: dflt_def)
      have "updated used [] (device_addresses d) used2" using updated_both [OF ta(6) d(2)] by (simp add: d(1))
      then show ?thesis using ad(1) tk Ok d by (simp add: go_def)
    qed
  qed
  then have "post go used (\<lambda>d used'. updated used [] (device_addresses d) used' \<and> device_wf depth d \<and> dv_speed d = speed \<and> dv_translator d = tr)"
    unfolding post_def by blast
  then show "post (\<lambda>(b, used). case addresses_take used of (None, used') \<Rightarrow> Some (Err OutOfAddresses, b, used')
      | (Some address, used') \<Rightarrow> (case addressed_with bus enum (\<lparr>tg_address = 0, tg_max_packet = 8, tg_speed = speed, tg_translator = tr\<rparr>\<lparr>tg_max_packet := ucast max_packet\<rparr>) address depth (b, used') of None \<Rightarrow> None | Some (Ok device, s) \<Rightarrow> Some (Ok device, s)
          | Some (Err e, b', used'') \<Rightarrow> Some (Err e, b', used''[unat address := False]))) used
     (\<lambda>d used'. updated used [] (device_addresses d) used' \<and> device_wf depth d \<and> dv_speed d = speed \<and> dv_translator d = tr)"
    unfolding go_def dflt_def .
qed

lemma enum_device_spec: "depth < MAX_DEPTH \<Longrightarrow> MAX_DEPTH \<le> depth + fuel \<Longrightarrow> enum_spec (enum_device fuel bus) depth"
proof (induction fuel arbitrary: depth)
  case (Suc fuel)
  then have deeper: "enum_spec (enum_device fuel bus) (depth + 1)" if "depth + 1 < MAX_DEPTH" using that by simp
  show ?case unfolding enum_spec_def enum_device.simps by (intro allI impI post_device [OF _ Suc.prems(1) deeper])
qed simp

lemma poll_ports_run:
  assumes "\<forall>p \<in> set ports. polls_port bus p" "table_ok used" "set (ports_addresses ports) \<subseteq> used_set used" "distinct (ports_addresses ports)" "depth < MAX_DEPTH" "ports_wf hub depth n ports"
  shows "\<exists>ports' changes b' used'. poll_ports bus hub depth n ports (b, used) = Some (ports', changes, (b', used')) \<and> updated used (ports_addresses ports) (ports_addresses ports') used'
     \<and> ports_wf hub depth n ports' \<and> length ports' = length ports \<and> (changes = [] \<longrightarrow> ports_addresses ports' = ports_addresses ports)"
  using assms
proof (induction ports arbitrary: n b used)
  case Nil
  then show ?case by (simp add: updated_refl)
next
  case (Cons port ports)
  have wf: "ports_wf hub depth n [port]" "ports_wf hub depth (n + 1) ports" using Cons.prems(6) ports_wf_Cons by blast+
  have "polls_port bus port" "set (port_addresses port) \<subseteq> used_set used" "distinct (port_addresses port)" using Cons.prems by auto
  then obtain port' c1 b1 used1 where p: "poll_port bus hub depth n port (b, used) = Some (port', c1, (b1, used1))" "updated used (port_addresses port) (port_addresses port') used1"
      "ports_wf hub depth n [port']" "c1 = [] \<longrightarrow> port_addresses port' = port_addresses port"
    using Cons.prems(2,5) wf(1) unfolding polls_port_def by blast
  have rest: "set (ports_addresses ports) \<subseteq> used_set used" "set (port_addresses port) \<inter> set (ports_addresses ports) = {}" using Cons.prems(3,4) by auto
  have "table_ok used1" "set (ports_addresses ports) \<subseteq> used_set used1" using p(2) rest by (auto simp: updated_def)
  then obtain ports' c2 b2 used2 where ps: "poll_ports bus hub depth (n + 1) ports (b1, used1) = Some (ports', c2, (b2, used2))" "updated used1 (ports_addresses ports) (ports_addresses ports') used2"
      "ports_wf hub depth (n + 1) ports'" "length ports' = length ports" "c2 = [] \<longrightarrow> ports_addresses ports' = ports_addresses ports"
    using Cons.IH [of used1 "n + 1" b1] Cons.prems wf(2) by auto
  have "updated used (ports_addresses (port # ports)) (ports_addresses (port' # ports')) used2" using updated_both [OF p(2) ps(2) rest(2,1)] by simp
  moreover have "ports_wf hub depth n (port' # ports')" using p(3) ps(3) ports_wf_Cons by blast
  moreover have "poll_ports bus hub depth n (port # ports) (b, used) = Some (port' # ports', c1 @ c2, (b2, used2))" using p(1) ps(1) by simp
  ultimately show ?case using p(4) ps(4,5) by (intro exI [of _ "port' # ports'"] exI [of _ "c1 @ c2"]) auto
qed

lemma polls_device_hub:
  assumes "\<forall>hub. h = Some hub \<longrightarrow> (\<forall>p \<in> set (hb_ports hub). polls_port bus p)"
  shows "polls_device bus (Device a s t d c h)"
  unfolding polls_device_def
proof (intro allI impI)
  fix depth b used
  assume ok: "table_ok used" and sub: "set (device_addresses (Device a s t d c h)) \<subseteq> used_set used" and dist: "distinct (device_addresses (Device a s t d c h))"
    and wf: "device_wf depth (Device a s t d c h)"
  show "\<exists>d' changes b' used'. poll_hub bus depth (Device a s t d c h) (b, used) = Some (d', changes, (b', used')) \<and> updated used (device_addresses (Device a s t d c h)) (device_addresses d') used'
        \<and> device_wf depth d' \<and> dv_address d' = dv_address (Device a s t d c h) \<and> dv_speed d' = dv_speed (Device a s t d c h) \<and> dv_translator d' = dv_translator (Device a s t d c h)
        \<and> (changes = [] \<longrightarrow> device_addresses d' = device_addresses (Device a s t d c h))"
  proof (cases h)
    case None
    then show ?thesis using wf updated_same [OF ok sub dist] by simp
  next
    case (Some hub)
    obtain desc ports where hub: "hub = Hub desc ports" by (cases hub)
    let ?tg = "device_target (Device a s t d c h)"
    have facts: "\<forall>p \<in> set ports. polls_port bus p" "set (ports_addresses ports) \<subseteq> used_set used" "distinct (ports_addresses ports)" "depth < MAX_DEPTH" "ports_wf ?tg depth 1 ports"
      "length ports = unat (hd_ports desc)" "a \<notin> set (ports_addresses ports)" "a \<in> used_set used" "is_hub d c"
      using assms sub dist wf by (auto simp: Some hub)
    obtain ports' changes b' used' where ps: "poll_ports bus ?tg depth 1 ports (b, used) = Some (ports', changes, (b', used'))" "updated used (ports_addresses ports) (ports_addresses ports') used'"
        "ports_wf ?tg depth 1 ports'" "length ports' = length ports" "changes = [] \<longrightarrow> ports_addresses ports' = ports_addresses ports"
      using poll_ports_run [OF facts(1) ok facts(2-5)] by blast
    have "updated used (a # ports_addresses ports) (a # ports_addresses ports') used'" using ps(2) facts(7,8) by (auto simp: updated_def)
    moreover have "ports_wf (device_target (Device a s t d c (Some (Hub desc ports')))) depth 1 ports'"
      using ps(3) by (simp add: device_target_def)
    ultimately show ?thesis using ps facts(4,6,9)
      by (intro exI [of _ "Device a s t d c (Some (Hub desc ports'))"] exI [of _ changes] exI [of _ b'] exI [of _ used']) (auto simp: Some hub)
  qed
qed

lemma forget_run:
  assumes "table_ok used" "set (port_addresses port) \<subseteq> used_set used" "forget port used = (gone, used')"
  shows "updated used (port_addresses port) [] used'" "gone = [] \<longrightarrow> port_addresses port = []"
  using assms free_addresses [OF assms(1)] updated_refl [OF assms(1)] by (auto simp: forget_def port_addresses_def split: port.splits)

lemma added_none: "added p = [] \<Longrightarrow> port_addresses p = []"
  by (cases p) (simp_all add: added_def port_addresses_def)

lemma polls_port_device:
  assumes "\<forall>d. port = PortDevice d \<longrightarrow> polls_device bus d"
  shows "polls_port bus port"
  unfolding polls_port_def
proof (intro allI impI)
  fix hub depth n b used
  assume ok: "table_ok used" and sub: "set (port_addresses port) \<subseteq> used_set used" and dist: "distinct (port_addresses port)" and depth: "depth < MAX_DEPTH" and wf: "ports_wf hub depth n [port]"
  obtain r1 b1 where st: "port_status bus hub n (b, used) = Some (r1, (b1, used))" using keepsD [OF keeps_status] by blast
  show "\<exists>port' changes b' used'. poll_port bus hub depth n port (b, used) = Some (port', changes, (b', used')) \<and> updated used (port_addresses port) (port_addresses port') used'
        \<and> ports_wf hub depth n [port'] \<and> (changes = [] \<longrightarrow> port_addresses port' = port_addresses port)"
  proof (cases "\<exists>status. r1 = Ok status \<and> connection_changed status")
    case False
    show ?thesis
    proof (cases "\<exists>status child. r1 = Ok status \<and> port = PortDevice child")
      case True
      then obtain status child where c: "r1 = Ok status" "port = PortDevice child" by blast
      have ad: "set (device_addresses child) \<subseteq> used_set used" "distinct (device_addresses child)" "device_wf (depth + 1) child"
          "dv_translator child = child_translator hub n (dv_speed child)" using sub dist wf by (auto simp: c(2) port_addresses_def)
      have pd: "polls_device bus child" using assms c(2) by blast
      obtain child' changes b' used' where ch: "poll_hub bus (depth + 1) child (b1, used) = Some (child', changes, (b', used'))" "updated used (device_addresses child) (device_addresses child') used'"
          "device_wf (depth + 1) child'" "dv_speed child' = dv_speed child" "dv_translator child' = dv_translator child" "changes = [] \<longrightarrow> device_addresses child' = device_addresses child"
        using pd [unfolded polls_device_def, rule_format, OF ok ad(1-3), of b1] by blast
      then have "poll_port bus hub depth n port (b, used) = Some (PortDevice child', changes, (b', used'))" using st c False by simp
      then show ?thesis using ch ad(4) by (intro exI [of _ "PortDevice child'"] exI [of _ changes] exI [of _ b'] exI [of _ used']) (simp add: c(2) port_addresses_def)
    next
      case no_child: False
      then have "poll_port bus hub depth n port (b, used) = Some (port, [], (b1, used))" using st False by (cases r1; cases port) simp_all
      then show ?thesis using updated_same [OF ok sub dist] wf by blast
    qed
  next
    case True
    then obtain status where status: "r1 = Ok status" "connection_changed status" by blast
    obtain r2 b2 where c: "control bus hub (clear_port_feature n FEATURE_CONNECTION_CHANGE) [] (b1, used) = Some (r2, (b2, used))" using keepsD [OF keeps_control] by blast
    obtain gone used2 where g: "forget port used = (gone, used2)" by fastforce
    note fg = forget_run [OF ok sub g]
    have ok2: "table_ok used2" using fg(1) by (simp add: updated_def)
    show ?thesis
    proof (cases "connected status")
      case False
      then have "poll_port bus hub depth n port (b, used) = Some (Empty, gone, (b2, used2))" using st status c g by simp
      then show ?thesis using fg by (intro exI [of _ Empty] exI [of _ gone] exI [of _ b2] exI [of _ used2]) (auto simp: port_addresses_def)
    next
      case True
      have "enum_spec (enum_device MAX_DEPTH bus) (depth + 1)" if "depth + 1 < MAX_DEPTH" using enum_device_spec that by simp
      then obtain p b3 used3 where p: "port_with bus (enum_device MAX_DEPTH bus) hub n depth (b2, used2) = Some (p, (b3, used3))" "updated used2 [] (port_addresses p) used3" "ports_wf hub depth n [p]"
        using port_run [OF ok2] by blast
      have "poll_port bus hub depth n port (b, used) = Some (p, gone @ added p, (b3, used3))" using st status c g p(1) True by simp
      moreover have "updated used (port_addresses port) (port_addresses p) used3" using updated_then [OF fg(1) p(2)] .
      moreover have "gone @ added p = [] \<longrightarrow> port_addresses p = port_addresses port" using fg(2) added_none by auto
      ultimately show ?thesis using p(3) by (intro exI [of _ p] exI [of _ "gone @ added p"] exI [of _ b3] exI [of _ used3]) simp
    qed
  qed
qed

lemma poll_all: "polls_device bus d" "\<forall>p \<in> set (hb_ports h). polls_port bus p" "polls_port bus p"
proof (induction d and h and p)
  case (Device a s t d c h)
  then show ?case by (intro polls_device_hub) auto
qed (auto intro!: polls_port_device)

end

subsection \<open>The tree\<close>

definition tree_ok :: "'e tree \<Rightarrow> bool" where
  "tree_ok tree \<longleftrightarrow> table_ok (tr_addresses tree) \<and> distinct (device_addresses (tr_root tree))
     \<and> used_set (tr_addresses tree) = set (device_addresses (tr_root tree)) \<and> device_wf 0 (tr_root tree)"

context usb_bus
begin

lemma enumerate_run: "\<exists>r b'. enumerate_bus bus speed b = Some (r, b') \<and> (\<forall>tree. r = Ok tree \<longrightarrow> tree_ok tree)"
proof -
  have new: "table_ok addresses_new" "used_set addresses_new = {}" by (auto simp: table_ok_def addresses_new_def used_set_def simp del: replicate_Suc)
  have "enum_spec (enum_device MAX_DEPTH bus) 0" by (rule enum_device_spec) (simp_all add: MAX_DEPTH_def)
  then have "post (enum_device MAX_DEPTH bus speed None 0) addresses_new
      (\<lambda>d used'. updated addresses_new [] (device_addresses d) used' \<and> device_wf 0 d \<and> dv_speed d = speed \<and> dv_translator d = None)"
    using new(1) unfolding enum_spec_def by blast
  then obtain r b' used' where "enum_device MAX_DEPTH bus speed None 0 (b, addresses_new) = Some (r, (b', used'))"
      "case r of Err e \<Rightarrow> used' = addresses_new | Ok d \<Rightarrow> updated addresses_new [] (device_addresses d) used' \<and> device_wf 0 d \<and> dv_speed d = speed \<and> dv_translator d = None"
    by (rule postD)
  then show ?thesis using new(2) by (cases r) (auto simp: enumerate_bus_def tree_ok_def updated_def)
qed

lemma poll_changes_run:
  assumes "tree_ok tree"
  shows "\<exists>tree' changes b'. poll_changes bus tree b = Some (tree', changes, b') \<and> tree_ok tree' \<and> dv_address (tr_root tree') = dv_address (tr_root tree)
     \<and> (changes = [] \<longrightarrow> device_addresses (tr_root tree') = device_addresses (tr_root tree))"
proof -
  have ok: "table_ok (tr_addresses tree)" "set (device_addresses (tr_root tree)) \<subseteq> used_set (tr_addresses tree)" "distinct (device_addresses (tr_root tree))" "device_wf 0 (tr_root tree)"
    and all: "used_set (tr_addresses tree) = set (device_addresses (tr_root tree))" using assms by (auto simp: tree_ok_def)
  from poll_all(1) [of "tr_root tree", unfolded polls_device_def, rule_format, OF ok, of b]
  obtain d' changes b' used' where p: "poll_hub bus 0 (tr_root tree) (b, tr_addresses tree) = Some (d', changes, (b', used'))"
      "updated (tr_addresses tree) (device_addresses (tr_root tree)) (device_addresses d') used'" "device_wf 0 d'" "dv_address d' = dv_address (tr_root tree)"
      "changes = [] \<longrightarrow> device_addresses d' = device_addresses (tr_root tree)" by blast
  have "tree_ok \<lparr>tr_root = d', tr_addresses = used'\<rparr>" using p(2,3) all by (auto simp: tree_ok_def updated_def)
  moreover have "poll_changes bus tree b = Some (\<lparr>tr_root = d', tr_addresses = used'\<rparr>, changes, b')" using p(1) by (simp add: poll_changes_def)
  ultimately show ?thesis using p(4,5) by (intro exI [of _ "\<lparr>tr_root = d', tr_addresses = used'\<rparr>"]) simp
qed

end

text \<open>C16: On a bus whose transfers return, with no more bytes than were asked for, enumerating and polling for changes always come to an end without a panic, whatever the devices answer and whatever fails on the way. The
  tree they leave has a different address, from 1 to 127, for every device; the addresses marked as used are exactly those of the tree, so that none is
  lost when a device fails or goes away with all behind it; no device is more than five hubs deep, a device has ports exactly when it is a hub, as many as
  the hub says, and a device behind a hub has the translator its speed and the hub's call for. Polling that reports no change leaves the addresses as they were.\<close>

theorem usb_tree_invariant:
  fixes bus :: "('b, 'e) bus"
  assumes "usb_bus bus"
  shows "(\<exists>r b'. enumerate_bus bus speed b = Some (r, b') \<and> (\<forall>tree. r = Ok tree \<longrightarrow> tree_ok tree)) \<and>
    (\<forall>tree. tree_ok tree \<longrightarrow> (\<exists>tree' changes b'. poll_changes bus tree b = Some (tree', changes, b') \<and> tree_ok tree' \<and> dv_address (tr_root tree') = dv_address (tr_root tree)
       \<and> (changes = [] \<longrightarrow> device_addresses (tr_root tree') = device_addresses (tr_root tree))))"
  using usb_bus.enumerate_run [OF assms] usb_bus.poll_changes_run [OF assms] by blast

text \<open>A pretend bus with one keyboard on it, which answers what it is asked for.\<close>

definition example_device :: "byte list" where
  "example_device = [18, 1, 0x10, 0x01, 0, 0, 0, 8, 0x6D, 0x04, 0x1C, 0xC3, 0x00, 0x01, 1, 2, 0, 1]"

definition example_answer :: "setup_packet \<Rightarrow> byte list" where
  "example_answer req = (if sp_request req = GET_DESCRIPTOR \<and> sp_value req = 0x100 then example_device
     else if sp_request req = GET_DESCRIPTOR \<and> sp_value req = 0x200 then config_bytes 1 [example_keyboard] else [])"

definition example_bus :: "(unit, string) bus" where
  "example_bus = \<lparr>bus_control = (\<lambda>target req bytes b. let answer = take (length bytes) (example_answer req) in (Ok (length answer), overwrite 0 answer bytes, b)),
     bus_delay_ms = (\<lambda>ms b. b)\<rparr>"

interpretation example: usb_bus example_bus
  by unfold_locales (auto simp: example_bus_def Let_def slice_simps)

lemma example_control:
  "control example_bus target req bytes (b, used) =
     Some (Ok (length (take (length bytes) (example_answer req)), overwrite 0 (take (length bytes) (example_answer req)) bytes), (b, used))"
  by (simp add: control_def example_bus_def Let_def)

lemma example_answers:
  "example_answer (get_descriptor DESC_DEVICE 0 n) = example_device"
  "example_answer (get_descriptor DESC_CONFIGURATION 0 n) = config_bytes 1 [example_keyboard]"
  "example_answer (set_address a) = []" "example_answer (set_configuration a) = []"
  by (simp_all add: example_answer_def get_descriptor_def set_address_def set_configuration_def GET_DESCRIPTOR_def SET_ADDRESS_def SET_CONFIGURATION_def
      DESC_DEVICE_def DESC_CONFIGURATION_def)

lemma example_device_parse:
  "max_packet_size (take 8 example_device) = Some (Ok 8)"
  "device_parse example_device = Some (Ok \<lparr>dd_class = 0, dd_subclass = 0, dd_protocol = 0, dd_max_packet_size = 8, dd_vendor = 0x46D, dd_product = 0xC31C, dd_configurations = 1\<rparr>)"
  by (simp_all add: example_device_def max_packet_size_def device_parse_def check_descriptor_def get_at_def u16_le_at_def DESC_DEVICE_def DEVICE_LENGTH_def)

lemma example_head:
  "total_length (take 9 (config_bytes 1 [example_keyboard])) = Some (Ok 34)"
  by (simp add: config_bytes_def example_keyboard_def descriptors_of_def interface_bytes_def endpoint_bytes_def to_le_pair total_length_def check_descriptor_def
      get_at_def u16_le_at_def DESC_CONFIGURATION_def CONFIG_HEADER_def)

lemma example_configuration:
  "configuration_parse (config_bytes 1 [example_keyboard]) = Some (Ok \<lparr>cf_value = 1, cf_interfaces = [fst example_keyboard]\<rparr>)"
  using configuration_back(2) [OF example_keyboard_wf(1), of 1] example_keyboard_wf(2) by simp

lemma overwrite_replicate: "length xs = n \<Longrightarrow> overwrite 0 xs (replicate n x) = xs"
  by (simp add: overwrite_def)

lemma example_asks:
  "example_answer req = [] \<Longrightarrow> control example_bus target req [] (b, used) = Some (Ok (0, []), (b, used))"
  "n \<le> length (example_answer req) \<Longrightarrow> control example_bus target req (replicate n 0) (b, used) = Some (Ok (n, take n (example_answer req)), (b, used))"
  by (simp_all add: example_control overwrite_def)

definition example_tree :: "string tree" where
  "example_tree = \<lparr>tr_root = Device 1 Full None \<lparr>dd_class = 0, dd_subclass = 0, dd_protocol = 0, dd_max_packet_size = 8, dd_vendor = 0x46D, dd_product = 0xC31C, dd_configurations = 1\<rparr>
       \<lparr>cf_value = 1, cf_interfaces = [fst example_keyboard]\<rparr> None, tr_addresses = addresses_new[1 := True]\<rparr>"

lemma example_take: "addresses_take addresses_new = (Some 1, addresses_new[1 := True])"
proof -
  have "[1..<128] = 1 # [2..<128]" by (simp add: upt_conv_Cons)
  then show ?thesis by (simp add: addresses_take_def addresses_new_def MAX_ADDRESS_def del: upt_Suc replicate_Suc upt_rec_numeral)
qed

lemma example_enumerates: "enumerate_bus example_bus Full () = Some (Ok example_tree, ())"
proof -
  have dev: "length example_device = 18" by (simp add: example_device_def)
  have hub: "\<not> is_hub d \<lparr>cf_value = 1, cf_interfaces = [fst example_keyboard]\<rparr>" if "dd_class d = 0" for d
    using that by (simp add: is_hub_def example_keyboard_def CLASS_HUB_def CLASS_HID_def)
  have "device_with example_bus (enum_device 5 example_bus) Full None 0 ((), addresses_new) = Some (Ok (tr_root example_tree), ((), tr_addresses example_tree))"
    by (simp add: device_with_def addressed_with_def Let_def ubind_def uok_def received_def parsing_def delay_def example_take example_asks example_answers dev
      DEVICE_LENGTH_def example_device_parse example_head example_configuration example_keyboard_wf(2) hub example_tree_def
      del: replicate_Suc)
  moreover have "enum_device MAX_DEPTH example_bus = device_with example_bus (enum_device 5 example_bus)" using enum_device.simps(2) [of 5] by (simp add: MAX_DEPTH_def)
  ultimately show ?thesis by (simp add: enumerate_bus_def)
qed

theorem usb_tree_invariant_witness:
  "enumerate_bus example_bus Full () = Some (Ok example_tree, ()) \<and> tree_ok example_tree
   \<and> (\<exists>tree' changes. poll_changes example_bus example_tree () = Some (tree', changes, ()) \<and> tree_ok tree' \<and> dv_address (tr_root tree') = 1)"
proof -
  note all = usb_tree_invariant [OF example.usb_bus_axioms, of Full "()"]
  have ok: "tree_ok example_tree" using all by (auto simp: example_enumerates)
  moreover have "dv_address (tr_root example_tree) = 1" by (simp add: example_tree_def)
  ultimately show ?thesis using all example_enumerates by (metis old.unit.exhaust)
qed

end
