(* ===== verification/Mailbox.thy ===== *)
theory Mailbox
  imports Prelude
begin

text \<open>
  Messages to the GPU firmware, \<open>rustypi-core/src/mailbox/\<close>: a batch of property tags in one buffer of 256 words, handed to the
  firmware and answered in place. A tag type is a value here: its identifier and how many words its request and response take.
  The transport is a parameter, which takes the message to the answered message and the firmware to its next state. An
  index out of range (for \<open>ptr::read\<close>, memory outside the buffer) is the value \<open>None\<close>.
\<close>

subsection \<open>Messages\<close>

definition MESSAGE_WORDS :: nat where "MESSAGE_WORDS = 256"
definition REQUEST :: u32 where "REQUEST = 0"
definition RESPONSE_OK :: u32 where "RESPONSE_OK = 0x80000000"
definition TAG_RESPONSE :: u32 where "TAG_RESPONSE = push_bit 31 1"
definition END_TAG :: u32 where "END_TAG = 0"
definition TAG_HEADER_WORDS :: nat where "TAG_HEADER_WORDS = 3"
definition USIZE_MAX :: nat where "USIZE_MAX = 2 ^ 64 - 1"

type_synonym message = "u32 list"
type_synonym 'f transport = "message \<Rightarrow> 'f \<Rightarrow> message \<times> 'f"

record tag =
  tag_id :: u32
  tag_request :: nat  \<comment> \<open>words of \<open>Request\<close>\<close>
  tag_response :: nat  \<comment> \<open>words of \<open>Response\<close>\<close>
  tag_bytes :: nat  \<comment> \<open>\<open>RESPONSE_BYTES\<close>\<close>

datatype mailbox_error = Firmware u32 | Unanswered u32 | MailTruncated u32 nat nat | ShortResponse u32 nat nat | BatchFull | WrongBatch u32

definition to_arm :: "u32 \<Rightarrow> nat" where
  "to_arm address = unat (address AND 0x3FFFFFFF)"

definition from_arm :: "u64 \<Rightarrow> u32" where
  "from_arm addr = ucast (addr AND 0x3FFFFFFF) OR 0xC0000000"

subsection \<open>Batches\<close>

record batch =
  ba_msg :: message
  ba_len :: nat
  ba_full :: bool

definition batch_new :: batch where
  "batch_new = \<lparr>ba_msg = replicate MESSAGE_WORDS 0, ba_len = 2, ba_full = False\<rparr>"

definition value_words :: "tag \<Rightarrow> nat" where
  "value_words t = max (tag_request t) (tag_response t)"

definition batch_add :: "tag \<Rightarrow> u32 list \<Rightarrow> batch \<Rightarrow> nat \<times> batch" where
  "batch_add t request b =
     (let offset = ba_len b; words = value_words t; at = offset + TAG_HEADER_WORDS
      in if offset + TAG_HEADER_WORDS + words + 1 > MESSAGE_WORDS then (USIZE_MAX, b\<lparr>ba_full := True\<rparr>)
         else (offset, b\<lparr>ba_msg := overwrite at request (overwrite at (replicate words 0)
                                    ((ba_msg b)[offset := tag_id t, offset + 1 := of_nat (words * 4), offset + 2 := REQUEST])),
                         ba_len := at + words\<rparr>))"

record replies =
  re_msg :: message
  re_len :: nat

definition batch_send :: "'f transport \<Rightarrow> batch \<Rightarrow> 'f \<Rightarrow> (replies, mailbox_error) result \<times> 'f" where
  "batch_send call b f =
     (if ba_full b then (Err BatchFull, f)
      else let (msg, f') = call ((ba_msg b)[ba_len b := END_TAG, 0 := of_nat ((ba_len b + 1) * 4), 1 := REQUEST]) f
           in if msg ! 1 \<noteq> RESPONSE_OK then (Err (Firmware (msg ! 1)), f') else (Ok \<lparr>re_msg = msg, re_len = ba_len b\<rparr>, f'))"

definition replies_get :: "tag \<Rightarrow> nat \<Rightarrow> replies \<Rightarrow> (u32 list, mailbox_error) result option" where
  "replies_get t offset r =
     (if min (offset + TAG_HEADER_WORDS) USIZE_MAX > re_len r then Some (Err (WrongBatch (tag_id t)))
      else case get_at (re_msg r) offset of
        None \<Rightarrow> None
      | Some found \<Rightarrow>
          if found \<noteq> tag_id t then Some (Err (WrongBatch (tag_id t)))
          else case (get_at (re_msg r) (offset + 2), get_at (re_msg r) (offset + 1)) of
            (Some code, Some room) \<Rightarrow>
              let len = unat (code AND NOT TAG_RESPONSE); capacity = unat room
              in if code AND TAG_RESPONSE = 0 then Some (Err (Unanswered (tag_id t)))
                 else if len > capacity then Some (Err (MailTruncated (tag_id t) len capacity))
                 else if len < tag_bytes t then Some (Err (ShortResponse (tag_id t) len (tag_bytes t)))
                 else map_option Ok (get_range (re_msg r) (offset + TAG_HEADER_WORDS) (offset + TAG_HEADER_WORDS + tag_response t))
          | _ \<Rightarrow> None)"

definition query :: "'f transport \<Rightarrow> tag \<Rightarrow> u32 list \<Rightarrow> 'f \<Rightarrow> (u32 list, mailbox_error) result option \<times> 'f" where
  "query call t request f =
     (let (handle, b) = batch_add t request batch_new
      in case batch_send call b f of
           (Err e, f') \<Rightarrow> (Some (Err e), f')
         | (Ok r, f') \<Rightarrow> (replies_get t handle r, f'))"

subsection \<open>Tags\<close>

definition whole_tag :: "u32 \<Rightarrow> nat \<Rightarrow> nat \<Rightarrow> tag" where
  \<comment> \<open>a tag whose response is answered in full\<close>
  "whole_tag i request response = \<lparr>tag_id = i, tag_request = request, tag_response = response, tag_bytes = 4 * response\<rparr>"

definition GetFirmwareRevision :: tag where "GetFirmwareRevision = whole_tag 0x00000001 0 1"
definition GetBoardRevision :: tag where "GetBoardRevision = whole_tag 0x00010002 0 1"
definition GetMacAddress :: tag where "GetMacAddress = \<lparr>tag_id = 0x00010003, tag_request = 0, tag_response = 2, tag_bytes = 6\<rparr>"
definition GetArmMemory :: tag where "GetArmMemory = whole_tag 0x00010005 0 2"
definition GetTemperature :: tag where "GetTemperature = whole_tag 0x00030006 1 2"
definition GetClockRate :: tag where "GetClockRate = whole_tag 0x00030002 1 2"
definition SetPowerState :: tag where "SetPowerState = whole_tag 0x00028001 2 2"
definition GetPhysicalSize :: tag where "GetPhysicalSize = whole_tag 0x00040003 0 2"
definition SetPhysicalSize :: tag where "SetPhysicalSize = whole_tag 0x00048003 2 2"
definition SetVirtualSize :: tag where "SetVirtualSize = whole_tag 0x00048004 2 2"
definition SetVirtualOffset :: tag where "SetVirtualOffset = whole_tag 0x00048009 2 2"
definition SetDepth :: tag where "SetDepth = whole_tag 0x00048005 1 1"
definition SetPixelOrder :: tag where "SetPixelOrder = whole_tag 0x00048006 1 1"
definition AllocateBuffer :: tag where "AllocateBuffer = whole_tag 0x00040001 1 2"
definition GetPitch :: tag where "GetPitch = whole_tag 0x00040008 0 1"

record power_state =
  ps_device :: u32
  ps_state :: u32

definition USB_HCD :: u32 where "USB_HCD = 3"
definition POWER_ON :: u32 where "POWER_ON = push_bit 0 1"
definition POWER_WAIT :: u32 where "POWER_WAIT = push_bit 1 1"
definition NO_DEVICE :: u32 where "NO_DEVICE = push_bit 1 1"

definition power_on :: "u32 \<Rightarrow> power_state" where
  "power_on d = \<lparr>ps_device = d, ps_state = POWER_ON OR POWER_WAIT\<rparr>"

definition is_on :: "power_state \<Rightarrow> bool" where
  "is_on p \<longleftrightarrow> ps_state p AND POWER_ON \<noteq> 0 \<and> ps_state p AND NO_DEVICE = 0"

definition power_words :: "power_state \<Rightarrow> u32 list" where
  \<comment> \<open>a \<open>PowerState\<close> in memory\<close>
  "power_words p = [ps_device p, ps_state p]"

definition power_of_words :: "u32 list \<Rightarrow> power_state" where
  "power_of_words ws = \<lparr>ps_device = ws ! 0, ps_state = ws ! 1\<rparr>"

subsection \<open>The layout of a message\<close>

definition tag_words :: "tag \<times> u32 list \<Rightarrow> u32 list" where
  "tag_words x = [tag_id (fst x), of_nat (4 * value_words (fst x)), REQUEST] @ resize (value_words (fst x)) 0 (snd x)"

definition words_needed :: "(tag \<times> u32 list) list \<Rightarrow> nat" where
  "words_needed xs = 2 + (\<Sum>x \<leftarrow> xs. 3 + value_words (fst x))"

definition sized :: "tag \<times> u32 list \<Rightarrow> bool" where
  "sized x \<longleftrightarrow> length (snd x) = tag_request (fst x) \<and> tag_bytes (fst x) \<le> 4 * tag_response (fst x)"

fun adds :: "(tag \<times> u32 list) list \<Rightarrow> batch \<Rightarrow> nat list \<times> batch" where
  "adds [] b = ([], b)"
| "adds (x # xs) b = (let (h, b1) = batch_add (fst x) (snd x) b; (hs, b2) = adds xs b1 in (h # hs, b2))"

definition handles_of :: "(tag \<times> u32 list) list \<Rightarrow> nat list" where
  "handles_of xs = map (\<lambda>i. words_needed (take i xs)) [0..<length xs]"

definition message_of :: "(tag \<times> u32 list) list \<Rightarrow> message" where
  "message_of xs = [of_nat (4 * (words_needed xs + 1)), REQUEST] @ concat (map tag_words xs) @ [END_TAG] @ replicate (MESSAGE_WORDS - words_needed xs - 1) 0"

definition headers_kept :: "(tag \<times> u32 list) list \<Rightarrow> message \<Rightarrow> bool" where
  \<comment> \<open>the firmware answers in place: it leaves identifiers and sizes alone\<close>
  "headers_kept xs msg \<longleftrightarrow> length msg = MESSAGE_WORDS \<and>
     (\<forall>i < length xs. msg ! (handles_of xs ! i) = tag_id (fst (xs ! i)) \<and> msg ! (handles_of xs ! i + 1) = of_nat (4 * value_words (fst (xs ! i))))"

definition answer :: "tag \<Rightarrow> nat \<Rightarrow> message \<Rightarrow> (u32 list, mailbox_error) result" where
  \<comment> \<open>what the words of a tag at \<open>offset\<close> of an answered message mean\<close>
  "answer t offset msg =
     (let code = msg ! (offset + 2); len = unat (code AND NOT TAG_RESPONSE)
      in if code AND TAG_RESPONSE = 0 then Err (Unanswered (tag_id t))
         else if len > 4 * value_words t then Err (MailTruncated (tag_id t) len (4 * value_words t))
         else if len < tag_bytes t then Err (ShortResponse (tag_id t) len (tag_bytes t))
         else Ok (slice (offset + 3) (offset + 3 + tag_response t) msg))"

definition holds :: "(tag \<times> u32 list) list \<Rightarrow> batch \<Rightarrow> bool" where
  "holds xs b \<longleftrightarrow> ba_len b = words_needed xs \<and> words_needed xs < MESSAGE_WORDS
     \<and> ba_msg b = [0, 0] @ concat (map tag_words xs) @ replicate (MESSAGE_WORDS - words_needed xs) 0"

lemma length_tag_words: "length (tag_words x) = 3 + value_words (fst x)"
  by (simp add: tag_words_def)

lemma length_all_tag_words: "2 + length (concat (map tag_words xs)) = words_needed xs"
  by (induction xs) (simp_all add: words_needed_def length_tag_words)

lemma words_needed_simps [simp]: "words_needed [] = 2" "words_needed (xs @ [x]) = words_needed xs + 3 + value_words (fst x)"
  by (simp_all add: words_needed_def)

lemma words_needed_take: "i \<le> j \<Longrightarrow> words_needed (take i xs) \<le> words_needed (take j xs)"
  by (simp add: words_needed_def) (metis (no_types, lifting) append_take_drop_id le_add1 map_append min.absorb1 sum_list_append take_take)

lemma holds_new: "holds [] batch_new"
  by (simp add: holds_def batch_new_def MESSAGE_WORDS_def numeral_eq_Suc)

lemma overwrite_at: "length pre = n \<Longrightarrow> overwrite n ys (pre @ rest) = pre @ ys @ drop (length ys) rest"
  by (simp add: overwrite_def)

lemma holds_add:
  assumes h: "holds xs b" and x: "sized x" and room: "words_needed (xs @ [x]) < MESSAGE_WORDS"
  shows "fst (batch_add (fst x) (snd x) b) = words_needed xs" "holds (xs @ [x]) (snd (batch_add (fst x) (snd x) b))"
    "ba_full (snd (batch_add (fst x) (snd x) b)) = ba_full b"
proof -
  let ?n = "words_needed xs" and ?w = "value_words (fst x)"
  define pre where "pre = [0, 0] @ concat (map tag_words xs)"
  have pre: "length pre = ?n" using length_all_tag_words [of xs] by (simp add: pre_def)
  have msg: "ba_msg b = pre @ replicate (MESSAGE_WORDS - ?n) 0" "ba_len b = ?n" using h by (simp_all add: holds_def pre_def)
  have w: "length (snd x) \<le> ?w" using x by (simp add: sized_def value_words_def)
  obtain k where k: "MESSAGE_WORDS - ?n = Suc (Suc (Suc (?w + k)))" "k = MESSAGE_WORDS - words_needed (xs @ [x])" using room by (fastforce dest: less_imp_Suc_add)
  have head: "(ba_msg b)[?n := tag_id (fst x), ?n + 1 := of_nat (?w * 4), ?n + 2 := REQUEST]
      = (pre @ [tag_id (fst x), of_nat (4 * ?w), REQUEST]) @ replicate (?w + k) 0"
    unfolding msg k(1) by (simp add: list_update_append pre mult.commute numeral_2_eq_2)
  define top where "top = pre @ [tag_id (fst x), of_nat (4 * ?w), REQUEST]"
  have top: "length top = ?n + 3" using pre by (simp add: top_def)
  have "overwrite (?n + 3) (replicate ?w 0) (top @ replicate (?w + k) 0) = top @ replicate ?w 0 @ replicate k 0"
    by (simp add: overwrite_at top)
  moreover have "overwrite (?n + 3) (snd x) (top @ replicate ?w 0 @ replicate k 0) = top @ resize ?w 0 (snd x) @ replicate k 0"
    using w by (simp add: overwrite_at top resize_def)
  ultimately have "overwrite (?n + 3) (snd x) (overwrite (?n + 3) (replicate ?w 0) (top @ replicate (?w + k) 0)) = pre @ tag_words x @ replicate k 0"
    by (simp add: top_def tag_words_def)
  then have "batch_add (fst x) (snd x) b = (?n, b\<lparr>ba_msg := pre @ tag_words x @ replicate k 0, ba_len := ?n + 3 + ?w\<rparr>)"
    using room head by (simp add: batch_add_def Let_def msg(2) TAG_HEADER_WORDS_def top_def)
  then show "fst (batch_add (fst x) (snd x) b) = words_needed xs" "holds (xs @ [x]) (snd (batch_add (fst x) (snd x) b))"
    "ba_full (snd (batch_add (fst x) (snd x) b)) = ba_full b"
    using room k(2) by (simp_all add: holds_def pre_def)
qed

lemma full_stays: "ba_full b \<Longrightarrow> ba_full (snd (adds ys b))"
proof (induction ys arbitrary: b)
  case (Cons y ys)
  have "ba_full (snd (batch_add (fst y) (snd y) b))" using Cons.prems by (simp add: batch_add_def Let_def)
  then show ?case using Cons.IH by (simp add: case_prod_beta)
qed simp

lemma words_needed_append: "words_needed (xs @ ys) = words_needed xs + (\<Sum>y \<leftarrow> ys. 3 + value_words (fst y))"
  by (simp add: words_needed_def)

lemma adds_fit:
  assumes "holds xs b" "\<forall>y \<in> set ys. sized y" "words_needed (xs @ ys) < MESSAGE_WORDS"
  shows "\<exists>b'. adds ys b = (map (\<lambda>i. words_needed (xs @ take i ys)) [0..<length ys], b') \<and> holds (xs @ ys) b' \<and> ba_full b' = ba_full b"
  using assms
proof (induction ys arbitrary: xs b)
  case (Cons y ys)
  have room: "words_needed (xs @ [y]) < MESSAGE_WORDS" using Cons.prems(3) by (simp add: words_needed_append)
  note add = holds_add [OF Cons.prems(1) _ room]
  obtain b1 where b1: "batch_add (fst y) (snd y) b = (words_needed xs, b1)" "holds (xs @ [y]) b1" "ba_full b1 = ba_full b"
    using add Cons.prems(2) by (cases "batch_add (fst y) (snd y) b") auto
  obtain b2 where b2: "adds ys b1 = (map (\<lambda>i. words_needed ((xs @ [y]) @ take i ys)) [0..<length ys], b2)" "holds ((xs @ [y]) @ ys) b2" "ba_full b2 = ba_full b1"
    using Cons.IH [OF b1(2)] Cons.prems(2,3) by auto
  have "map (\<lambda>i. words_needed (xs @ take i (y # ys))) [0..<length (y # ys)] = words_needed xs # map (\<lambda>i. words_needed ((xs @ [y]) @ take i ys)) [0..<length ys]"
    by (simp add: upt_conv_Cons map_Suc_upt [symmetric] comp_def del: upt_Suc)
  then show ?case using b1 b2 by simp
qed simp

lemma adds_too_many:
  assumes "holds xs b" "\<forall>y \<in> set ys. sized y" "words_needed (xs @ ys) \<ge> MESSAGE_WORDS"
  shows "ba_full (snd (adds ys b))"
  using assms
proof (induction ys arbitrary: xs b)
  case Nil
  then show ?case by (simp add: holds_def)
next
  case (Cons y ys)
  obtain h b1 where b1: "batch_add (fst y) (snd y) b = (h, b1)" by fastforce
  show ?case
  proof (cases "words_needed (xs @ [y]) < MESSAGE_WORDS")
    case True
    then have "holds (xs @ [y]) b1" using holds_add(2) [OF Cons.prems(1) _ True] Cons.prems(2) b1 by simp
    then have "ba_full (snd (adds ys b1))" using Cons.IH [of "xs @ [y]" b1] Cons.prems(2,3) by simp
    then show ?thesis using b1 by (simp add: case_prod_beta)
  next
    case False
    then have "ba_full b1" using b1 Cons.prems(1) by (auto simp: batch_add_def Let_def holds_def TAG_HEADER_WORDS_def split: if_splits)
    then show ?thesis using full_stays [of b1 ys] b1 by (simp add: case_prod_beta)
  qed
qed

lemma message_sent:
  assumes "holds xs b"
  shows "(ba_msg b)[ba_len b := END_TAG, 0 := of_nat ((ba_len b + 1) * 4), 1 := REQUEST] = message_of xs"
proof -
  obtain k where k: "MESSAGE_WORDS - words_needed xs = Suc k" using assms by (metis Suc_diff_Suc holds_def)
  have n: "words_needed xs = Suc (Suc (length (concat (map tag_words xs))))" using length_all_tag_words [of xs] by simp
  have "ba_len b = words_needed xs" "ba_msg b = [0, 0] @ concat (map tag_words xs) @ replicate (Suc k) 0" using assms k by (simp_all add: holds_def)
  then show ?thesis using k unfolding message_of_def n by (simp add: list_update_append mult.commute)
qed

lemma batch_sent:
  assumes "holds xs b" "\<not> ba_full b"
  shows "batch_send call b f = (let (msg, f') = call (message_of xs) f
     in if msg ! 1 \<noteq> RESPONSE_OK then (Err (Firmware (msg ! 1)), f') else (Ok \<lparr>re_msg = msg, re_len = words_needed xs\<rparr>, f'))"
proof -
  have "ba_len b = words_needed xs" using assms(1) by (simp add: holds_def)
  then show ?thesis using assms(2) unfolding batch_send_def message_sent [OF assms(1)] by (simp add: case_prod_beta)
qed

lemma reply_read:
  assumes xs: "words_needed xs < MESSAGE_WORDS" and x: "\<forall>x \<in> set xs. sized x" and kept: "headers_kept xs msg" and i: "i < length xs"
  shows "replies_get (fst (xs ! i)) (handles_of xs ! i) \<lparr>re_msg = msg, re_len = words_needed xs\<rparr> = Some (answer (fst (xs ! i)) (handles_of xs ! i) msg)"
proof -
  let ?o = "handles_of xs ! i" and ?w = "value_words (fst (xs ! i))"
  have "words_needed (take (Suc i) xs) \<le> words_needed xs" using words_needed_take [of "Suc i" "length xs" xs] i by simp
  then have o: "?o + 3 + ?w \<le> words_needed xs" using i by (simp add: handles_of_def take_Suc_conv_app_nth)
  have w: "tag_response (fst (xs ! i)) \<le> ?w" by (simp add: value_words_def)
  have m: "length msg = MESSAGE_WORDS" "msg ! ?o = tag_id (fst (xs ! i))" "msg ! Suc ?o = of_nat (4 * ?w)" using kept i by (auto simp: headers_kept_def)
  have room: "unat (of_nat (4 * ?w) :: u32) = 4 * ?w" using o xs by (simp add: unsigned_of_nat take_bit_nat_eq_self MESSAGE_WORDS_def del: of_nat_mult)
  have at: "get_at msg ?o = Some (tag_id (fst (xs ! i)))" "get_at msg (?o + 2) = Some (msg ! (?o + 2))" "get_at msg (?o + 1) = Some (of_nat (4 * ?w))"
    "get_range msg (?o + 3) (?o + 3 + tag_response (fst (xs ! i))) = Some (slice (?o + 3) (?o + 3 + tag_response (fst (xs ! i))) msg)"
    using o w xs m by (auto simp: get_at_def get_range_def)
  have fits: "\<not> min (?o + 3) USIZE_MAX > words_needed xs" using o by (simp add: min_def)
  show ?thesis unfolding replies_get_def answer_def replies.simps TAG_HEADER_WORDS_def using fits
    by (simp add: at room Let_def del: of_nat_mult One_nat_def add_2_eq_Suc')
qed

subsection \<open>Exchanging a batch\<close>

text \<open>C34: A batch of tags is either refused as a whole, without calling the firmware, exactly when it does not fit the message, or sent as one well
  formed message with every tag in its place. When the firmware answers in place, each handle reads exactly its own tag's answer: the words of the response, or
  the error for a tag not answered, answered with more than there is room for or with less than the response type, and nothing outside the message is read.\<close>

theorem batch_exchanged:
  assumes "\<forall>x \<in> set xs. sized x"
  shows "if words_needed xs \<ge> MESSAGE_WORDS
    then batch_send call (snd (adds xs batch_new)) f = (Err BatchFull, f)
    else fst (adds xs batch_new) = handles_of xs \<and>
      (let (msg, f') = call (message_of xs) f
       in if msg ! 1 \<noteq> RESPONSE_OK then batch_send call (snd (adds xs batch_new)) f = (Err (Firmware (msg ! 1)), f')
          else \<exists>r. batch_send call (snd (adds xs batch_new)) f = (Ok r, f') \<and>
            (headers_kept xs msg \<longrightarrow> (\<forall>i < length xs. replies_get (fst (xs ! i)) (handles_of xs ! i) r = Some (answer (fst (xs ! i)) (handles_of xs ! i) msg))))"
proof (cases "words_needed xs \<ge> MESSAGE_WORDS")
  case True
  then show ?thesis using adds_too_many [OF holds_new assms] by (simp add: batch_send_def)
next
  case False
  then obtain b where b: "adds xs batch_new = (handles_of xs, b)" "holds xs b" "\<not> ba_full b"
    using adds_fit [OF holds_new assms] by (auto simp: handles_of_def batch_new_def)
  obtain msg f' where c: "call (message_of xs) f = (msg, f')" by fastforce
  show ?thesis using False c reply_read [OF _ assms] by (simp add: b(1) batch_sent [OF b(2,3)])
qed

text \<open>A firmware that knows the board's revision and its memory.\<close>

definition example_firmware :: "unit transport" where
  "example_firmware msg f = (msg[1 := RESPONSE_OK, 4 := TAG_RESPONSE OR 4, 5 := 0xa020d3, 8 := TAG_RESPONSE OR 8, 9 := 0, 10 := 0x3b400000], f)"

definition example_tags :: "(tag \<times> u32 list) list" where
  "example_tags = [(GetBoardRevision, []), (GetArmMemory, []), (GetTemperature, [7])]"

lemma example_message:
  "words_needed example_tags = 16" "handles_of example_tags = [2, 6, 11]"
  "message_of example_tags = [68, 0, 0x10002, 4, 0, 0, 0x10005, 8, 0, 0, 0, 0x30006, 8, 0, 7, 0, 0] @ replicate 239 0"
  by (simp_all add: words_needed_def handles_of_def message_of_def example_tags_def GetBoardRevision_def GetArmMemory_def GetTemperature_def whole_tag_def value_words_def
      tag_words_def resize_def REQUEST_def END_TAG_def MESSAGE_WORDS_def upt_rec take_Cons' numeral_2_eq_2)

theorem batch_exchanged_witness:
  "\<exists>r. batch_send example_firmware (snd (adds example_tags batch_new)) () = (Ok r, ()) \<and> replies_get GetBoardRevision 2 r = Some (Ok [0xa020d3])
     \<and> replies_get GetArmMemory 6 r = Some (Ok [0, 0x3b400000]) \<and> replies_get GetTemperature 11 r = Some (Err (Unanswered 0x30006))"
proof -
  obtain msg where msg: "example_firmware (message_of example_tags) () = (msg, ())"
    "msg = [68, RESPONSE_OK, 0x10002, 4, TAG_RESPONSE OR 4, 0xa020d3, 0x10005, 8, TAG_RESPONSE OR 8, 0, 0x3b400000, 0x30006, 8, 0, 7, 0, 0] @ replicate 239 0"
    by (simp add: example_firmware_def example_message(3))
  have sized: "\<forall>x \<in> set example_tags. sized x"
    by (simp add: example_tags_def sized_def GetBoardRevision_def GetArmMemory_def GetTemperature_def whole_tag_def)
  have kept: "headers_kept example_tags msg" unfolding headers_kept_def example_message(2)
    by (simp add: msg(2) example_tags_def GetBoardRevision_def GetArmMemory_def GetTemperature_def whole_tag_def value_words_def MESSAGE_WORDS_def less_Suc_eq numeral_3_eq_3)
  obtain r where r: "batch_send example_firmware (snd (adds example_tags batch_new)) () = (Ok r, ())"
    "\<And>i. i < 3 \<Longrightarrow> replies_get (fst (example_tags ! i)) ([2, 6, 11] ! i) r = Some (answer (fst (example_tags ! i)) ([2, 6, 11] ! i) msg)"
  proof -
    have "length example_tags = 3" "\<not> MESSAGE_WORDS \<le> words_needed example_tags" "msg ! 1 = RESPONSE_OK"
      by (simp_all add: example_tags_def example_message(1) [unfolded example_tags_def] MESSAGE_WORDS_def msg(2))
    then have "\<exists>r. batch_send example_firmware (snd (adds example_tags batch_new)) () = (Ok r, ()) \<and>
        (\<forall>i < 3. replies_get (fst (example_tags ! i)) ([2, 6, 11] ! i) r = Some (answer (fst (example_tags ! i)) ([2, 6, 11] ! i) msg))"
      using batch_exchanged [OF sized, of example_firmware "()"] kept msg(1) by (simp only: example_message(2) if_False Let_def prod.case simp_thms)
    then show ?thesis using that by blast
  qed
  show ?thesis using r(1) r(2) [of 0] r(2) [of 1] r(2) [of 2]
    by (simp add: answer_def msg(2) example_tags_def slice_def TAG_RESPONSE_def GetBoardRevision_def GetArmMemory_def GetTemperature_def whole_tag_def value_words_def)
qed

end
