(* ===== verification/Usb_Host.thy ===== *)
theory Usb_Host
  imports Usb_Enum Mailbox
begin

text \<open>
  The USB host controller, \<open>src/drivers/usb.rs\<close>: bringing the DWC2 up, and control, interrupt and bulk transfers on its one channel.

  The hardware is a parameter: what registers read as and what writing them does, the memory of the three DMA buffers as the
  processor sees it, the microsecond clock of \<open>drivers/timer.rs\<close>, sleeping (when other tasks run) and the firmware's mailbox. It has a state
  of its own, which everything may change. Times are microseconds as \<open>nat\<close>: the 64-bit counter lasts half a million years. A loop that waits for
  the hardware may never end, so an operation is a partial function of the state: \<open>None\<close> is a panic or no return.
\<close>

subsection \<open>The hardware\<close>

datatype dma_buffer = ControlBuffer | BulkIn | BulkOut

record 'h hardware =
  hw_read :: "nat \<Rightarrow> 'h \<Rightarrow> u32 \<times> 'h"
  hw_write :: "nat \<Rightarrow> u32 \<Rightarrow> 'h \<Rightarrow> 'h"
  hw_now_us :: "'h \<Rightarrow> nat \<times> 'h"
  hw_delay_us :: "nat \<Rightarrow> 'h \<Rightarrow> 'h"
  hw_sleep_ms :: "nat \<Rightarrow> 'h \<Rightarrow> 'h"
  hw_address :: "dma_buffer \<Rightarrow> u64"
  hw_load :: "dma_buffer \<Rightarrow> nat \<Rightarrow> 'h \<Rightarrow> byte"
  hw_store :: "dma_buffer \<Rightarrow> byte list \<Rightarrow> 'h \<Rightarrow> 'h"
  hw_clean :: "dma_buffer \<Rightarrow> 'h \<Rightarrow> 'h"
  hw_mailbox :: "message \<Rightarrow> 'h \<Rightarrow> message \<times> 'h"

definition PERIPHERAL_BASE :: nat where "PERIPHERAL_BASE = 0x3F000000"
definition USB_BASE :: nat where "USB_BASE = PERIPHERAL_BASE + 0x980000"
definition AHB_CFG :: nat where "AHB_CFG = USB_BASE + 0x008"
definition USB_CFG :: nat where "USB_CFG = USB_BASE + 0x00C"
definition RESET :: nat where "RESET = USB_BASE + 0x010"
definition INT_STATUS :: nat where "INT_STATUS = USB_BASE + 0x014"
definition RX_FIFO_SIZE :: nat where "RX_FIFO_SIZE = USB_BASE + 0x024"
definition NP_TX_FIFO_SIZE :: nat where "NP_TX_FIFO_SIZE = USB_BASE + 0x028"
definition VENDOR_ID :: nat where "VENDOR_ID = USB_BASE + 0x040"
definition HW_CFG2 :: nat where "HW_CFG2 = USB_BASE + 0x048"
definition HOST_PERIODIC_TX_FIFO_SIZE :: nat where "HOST_PERIODIC_TX_FIFO_SIZE = USB_BASE + 0x100"
definition POWER :: nat where "POWER = USB_BASE + 0xE00"
definition HOST_CFG :: nat where "HOST_CFG = USB_BASE + 0x400"
definition HOST_FRAME_NUMBER :: nat where "HOST_FRAME_NUMBER = USB_BASE + 0x408"
definition HOST_PORT :: nat where "HOST_PORT = USB_BASE + 0x440"

definition channel :: "nat \<Rightarrow> nat \<Rightarrow> nat" where
  "channel n register = USB_BASE + 0x500 + n * 0x20 + register"

definition CHAN_CHARACTER :: nat where "CHAN_CHARACTER = 0x00"
definition CHAN_SPLIT :: nat where "CHAN_SPLIT = 0x04"
definition CHAN_INT :: nat where "CHAN_INT = 0x08"
definition CHAN_INT_MASK :: nat where "CHAN_INT_MASK = 0x0C"
definition CHAN_XFER_SIZE :: nat where "CHAN_XFER_SIZE = 0x10"
definition CHAN_DMA :: nat where "CHAN_DMA = 0x14"

definition VENDOR_OT :: u32 where "VENDOR_OT = 0x4F54"
definition AHB_CFG_GLOBAL_INT :: u32 where "AHB_CFG_GLOBAL_INT = push_bit 0 1"
definition AHB_CFG_DMA_ENABLE :: u32 where "AHB_CFG_DMA_ENABLE = push_bit 5 1"
definition AHB_CFG_WAIT_AXI_WRITES :: u32 where "AHB_CFG_WAIT_AXI_WRITES = push_bit 4 1"
definition AHB_CFG_MAX_AXI_BURST :: u32 where "AHB_CFG_MAX_AXI_BURST = push_bit 1 3"
definition USB_CFG_PHYIF :: u32 where "USB_CFG_PHYIF = push_bit 3 1"
definition USB_CFG_ULPI_UTMI_SEL :: u32 where "USB_CFG_ULPI_UTMI_SEL = push_bit 4 1"
definition USB_CFG_ULPI_FSLS :: u32 where "USB_CFG_ULPI_FSLS = push_bit 17 1"
definition USB_CFG_ULPI_CLK_SUS_M :: u32 where "USB_CFG_ULPI_CLK_SUS_M = push_bit 19 1"
definition USB_CFG_ULPI_EXT_VBUS_DRV :: u32 where "USB_CFG_ULPI_EXT_VBUS_DRV = push_bit 20 1"
definition USB_CFG_TERM_SEL_DL_PULSE :: u32 where "USB_CFG_TERM_SEL_DL_PULSE = push_bit 22 1"
definition USB_CFG_FORCE_HOST_MODE :: u32 where "USB_CFG_FORCE_HOST_MODE = push_bit 29 1"
definition RESET_SOFT :: u32 where "RESET_SOFT = push_bit 0 1"
definition RESET_RX_FIFO_FLUSH :: u32 where "RESET_RX_FIFO_FLUSH = push_bit 4 1"
definition RESET_TX_FIFO_FLUSH :: u32 where "RESET_TX_FIFO_FLUSH = push_bit 5 1"
definition RESET_TX_FIFO_ALL :: u32 where "RESET_TX_FIFO_ALL = push_bit 6 0x10"
definition RESET_AHB_IDLE :: u32 where "RESET_AHB_IDLE = push_bit 31 1"
definition INT_STATUS_HOST_MODE :: u32 where "INT_STATUS_HOST_MODE = push_bit 0 1"
definition PORT_CONNECT :: u32 where "PORT_CONNECT = push_bit 0 1"
definition PORT_ENABLE :: u32 where "PORT_ENABLE = push_bit 2 1"
definition PORT_RESET :: u32 where "PORT_RESET = push_bit 8 1"
definition PORT_POWER :: u32 where "PORT_POWER = push_bit 12 1"
definition PORT_WRITE_CLEARS :: u32 where "PORT_WRITE_CLEARS = push_bit 1 1 OR push_bit 2 1 OR push_bit 3 1 OR push_bit 5 1"
definition CHAN_SPLIT_ENABLE :: u32 where "CHAN_SPLIT_ENABLE = push_bit 31 1"
definition CHAN_SPLIT_COMPLETE :: u32 where "CHAN_SPLIT_COMPLETE = push_bit 16 1"
definition CHAN_SPLIT_ALL :: u32 where "CHAN_SPLIT_ALL = 3"
definition CHAR_EP_IN :: u32 where "CHAR_EP_IN = push_bit 15 1"
definition CHAR_LOW_SPEED :: u32 where "CHAR_LOW_SPEED = push_bit 17 1"
definition CHAR_MULTI_COUNT_1 :: u32 where "CHAR_MULTI_COUNT_1 = push_bit 20 1"
definition CHAR_ODD_FRAME :: u32 where "CHAR_ODD_FRAME = push_bit 29 1"
definition CHAR_DISABLE :: u32 where "CHAR_DISABLE = push_bit 30 1"
definition CHAR_ENABLE :: u32 where "CHAR_ENABLE = push_bit 31 1"
definition INT_XFER_COMPLETE :: u32 where "INT_XFER_COMPLETE = push_bit 0 1"
definition INT_HALTED :: u32 where "INT_HALTED = push_bit 1 1"
definition INT_STALL :: u32 where "INT_STALL = push_bit 3 1"
definition INT_NAK :: u32 where "INT_NAK = push_bit 4 1"
definition INT_ACK :: u32 where "INT_ACK = push_bit 5 1"
definition INT_ERRORS :: u32 where "INT_ERRORS = push_bit 2 1 OR push_bit 3 1 OR push_bit 7 1 OR push_bit 8 1 OR push_bit 9 1 OR push_bit 10 1"

datatype pid = Data0 | Data1 | PidSetup

definition pid_code :: "pid \<Rightarrow> u32" where
  "pid_code p = (case p of Data0 \<Rightarrow> 0 | Data1 \<Rightarrow> 2 | PidSetup \<Rightarrow> 3)"

definition toggled :: "pid \<Rightarrow> pid" where
  "toggled p = (case p of Data0 \<Rightarrow> Data1 | _ \<Rightarrow> Data0)"

type_synonym toggle = pid

definition toggle_new :: toggle where "toggle_new = Data0"

record endpoint_target =
  et_target :: target
  et_endpoint :: u8
  et_max_packet :: u16

definition RX_FIFO_WORDS :: u32 where "RX_FIFO_WORDS = 1024"
definition NP_TX_FIFO_WORDS :: u32 where "NP_TX_FIFO_WORDS = 1024"
definition PERIODIC_TX_FIFO_WORDS :: u32 where "PERIODIC_TX_FIFO_WORDS = 1024"
definition CONTROL_CHANNEL :: nat where "CONTROL_CHANNEL = 0"
definition CONNECT_TIMEOUT_MS :: nat where "CONNECT_TIMEOUT_MS = 510"
definition DEBOUNCE_MS :: nat where "DEBOUNCE_MS = 100"
definition RESET_HOLD_MS :: nat where "RESET_HOLD_MS = 50"
definition ROOT_RESET_RECOVERY_MS :: nat where "ROOT_RESET_RECOVERY_MS = 20"
definition TRANSFER_TIMEOUT_US :: nat where "TRANSFER_TIMEOUT_US = 500000"
definition SPLIT_TIMEOUT_US :: nat where "SPLIT_TIMEOUT_US = 1000000"
definition MAX_SPLIT_ERRORS :: nat where "MAX_SPLIT_ERRORS = 3"
definition MAX_NYETS :: nat where "MAX_NYETS = 3"
definition MICROFRAME_US :: nat where "MICROFRAME_US = 125"
definition FRAME_WAIT_US :: nat where "FRAME_WAIT_US = 2000"
definition REGISTER_TIMEOUT_US :: nat where "REGISTER_TIMEOUT_US = 100000"

datatype usb_error = MailboxFailed mailbox_error | NoPower | NotDwc2 u32 | Timeout string | NoDevice | Transfer string u32 | Stalled string | TooLong

subsection \<open>Waiting\<close>

type_synonym ('a, 'h) hw_op = "'h \<Rightarrow> (('a, usb_error) result \<times> 'h) option"

definition hbind :: "('a, 'h) hw_op \<Rightarrow> ('a \<Rightarrow> ('b, 'h) hw_op) \<Rightarrow> ('b, 'h) hw_op" where
  \<comment> \<open>\<open>?\<close>, and a panic or an endless loop stays one\<close>
  "hbind m k h = (case m h of None \<Rightarrow> None | Some (Err e, h') \<Rightarrow> Some (Err e, h') | Some (Ok x, h') \<Rightarrow> k x h')"

definition hok :: "'a \<Rightarrow> ('a, 'h) hw_op" where "hok x h = Some (Ok x, h)"
definition herr :: "usb_error \<Rightarrow> ('a, 'h) hw_op" where "herr e h = Some (Err e, h)"

definition hignore :: "('a, 'h) hw_op \<Rightarrow> (unit, 'h) hw_op" where
  \<comment> \<open>\<open>let _ =\<close>\<close>
  "hignore m h = (case m h of None \<Rightarrow> None | Some (_, h') \<Rightarrow> Some (Ok (), h'))"

definition rd :: "'h hardware \<Rightarrow> nat \<Rightarrow> (u32, 'h) hw_op" where
  "rd hw a h = (case hw_read hw a h of (v, h') \<Rightarrow> Some (Ok v, h'))"

definition wr :: "'h hardware \<Rightarrow> nat \<Rightarrow> u32 \<Rightarrow> (unit, 'h) hw_op" where
  "wr hw a v h = Some (Ok (), hw_write hw a v h)"

definition now_us :: "'h hardware \<Rightarrow> (nat, 'h) hw_op" where
  "now_us hw h = (case hw_now_us hw h of (t, h') \<Rightarrow> Some (Ok t, h'))"

definition delay_us :: "'h hardware \<Rightarrow> nat \<Rightarrow> (unit, 'h) hw_op" where
  "delay_us hw t h = Some (Ok (), hw_delay_us hw t h)"

definition sleep_ms :: "'h hardware \<Rightarrow> nat \<Rightarrow> (unit, 'h) hw_op" where
  "sleep_ms hw ms h = Some (Ok (), hw_sleep_ms hw ms h)"

lemma hbind_mono [partial_function_mono]:
  assumes "\<And>x h'. mono_option (\<lambda>f. K f x h')"
  shows "mono_option (\<lambda>f. hbind m (K f) h)"
  using assms unfolding hbind_def monotone_def fun_ord_def
  by (auto split: option.splits result.splits simp: flat_ord_def)

partial_function (option) wait_loop :: "'h hardware \<Rightarrow> string \<Rightarrow> nat \<Rightarrow> nat \<Rightarrow> ('h \<Rightarrow> bool \<times> 'h) \<Rightarrow> (unit, 'h) hw_op" where
  \<comment> \<open>the loop of \<open>wait_for\<close>\<close>
  "wait_loop hw what timeout start ready h =
     (case ready h of (yes, h1) \<Rightarrow>
        if yes then hok () h1
        else hbind (now_us hw) (\<lambda>now h2. if now - start > timeout then herr (Timeout what) h2 else wait_loop hw what timeout start ready h2) h1)"

definition wait_for :: "'h hardware \<Rightarrow> string \<Rightarrow> nat \<Rightarrow> ('h \<Rightarrow> bool \<times> 'h) \<Rightarrow> (unit, 'h) hw_op" where
  "wait_for hw what timeout ready = hbind (now_us hw) (\<lambda>start. wait_loop hw what timeout start ready)"

definition reads :: "'h hardware \<Rightarrow> nat \<Rightarrow> (u32 \<Rightarrow> bool) \<Rightarrow> 'h \<Rightarrow> bool \<times> 'h" where
  \<comment> \<open>a condition on what a register reads as\<close>
  "reads hw a P h = (case hw_read hw a h of (v, h') \<Rightarrow> (P v, h'))"

subsection \<open>The channel\<close>

datatype transfer_kind = KindControl | KindBulk | KindInterrupt

definition kind_code :: "transfer_kind \<Rightarrow> u32" where
  "kind_code k = (case k of KindControl \<Rightarrow> 0 | KindBulk \<Rightarrow> 2 | KindInterrupt \<Rightarrow> 3)"

record transaction =
  tx_target :: target
  tx_endpoint :: u8
  tx_max_packet :: u16
  tx_kind :: transfer_kind
  tx_direction :: direction
  tx_pid :: pid
  tx_offset :: nat
  tx_length :: nat
  tx_packets :: u32
  tx_split :: u32
  tx_odd_frame :: bool
  tx_buffer :: dma_buffer

definition transaction_control :: "target \<Rightarrow> direction \<Rightarrow> pid \<Rightarrow> nat \<Rightarrow> nat \<Rightarrow> u32 \<Rightarrow> transaction" where
  "transaction_control target d pid offset len packets =
     \<lparr>tx_target = target, tx_endpoint = 0, tx_max_packet = tg_max_packet target, tx_kind = KindControl, tx_direction = d, tx_pid = pid, tx_offset = offset,
      tx_length = len, tx_packets = packets, tx_split = 0, tx_odd_frame = False, tx_buffer = ControlBuffer\<rparr>"

definition buffer_length :: "dma_buffer \<Rightarrow> nat" where
  \<comment> \<open>the sizes of the arrays in \<open>Host\<close>\<close>
  "buffer_length b = (case b of ControlBuffer \<Rightarrow> 512 | BulkIn \<Rightarrow> 4096 | BulkOut \<Rightarrow> 2048)"

definition store_buffer :: "'h hardware \<Rightarrow> dma_buffer \<Rightarrow> byte list \<Rightarrow> (unit, 'h) hw_op" where
  \<comment> \<open>\<open>buffer.0[..n].copy_from_slice(bytes)\<close>\<close>
  "store_buffer hw b bytes h = (if length bytes \<le> buffer_length b then Some (Ok (), hw_store hw b bytes h) else None)"

definition load_buffer :: "'h hardware \<Rightarrow> dma_buffer \<Rightarrow> nat \<Rightarrow> (byte list, 'h) hw_op" where
  \<comment> \<open>\<open>&buffer.0[..n]\<close>\<close>
  "load_buffer hw b n h = (if n \<le> buffer_length b then Some (Ok (map (\<lambda>i. hw_load hw b i h) [0..<n]), h) else None)"

definition clean_buffer :: "'h hardware \<Rightarrow> dma_buffer \<Rightarrow> (unit, 'h) hw_op" where
  "clean_buffer hw b h = Some (Ok (), hw_clean hw b h)"

definition halt_channel :: "'h hardware \<Rightarrow> nat \<Rightarrow> (unit, 'h) hw_op" where
  "halt_channel hw n =
     hbind (rd hw (channel n CHAN_CHARACTER)) (\<lambda>c.
       if c AND CHAR_ENABLE \<noteq> 0 then
         hbind (rd hw (channel n CHAN_CHARACTER)) (\<lambda>c.
         hbind (wr hw (channel n CHAN_CHARACTER) (c OR CHAR_ENABLE OR CHAR_DISABLE)) (\<lambda>_.
           hignore (wait_for hw ''a channel to halt'' REGISTER_TIMEOUT_US (reads hw (channel n CHAN_INT) (\<lambda>v. v AND INT_HALTED \<noteq> 0)))))
       else hok ())"

definition xfer_size_word :: "transaction \<Rightarrow> u32" where
  \<comment> \<open>the transfer size register\<close>
  "xfer_size_word t = of_nat (tx_length t) OR push_bit 19 (tx_packets t) OR push_bit 29 (pid_code (tx_pid t))"

definition character_word :: "transaction \<Rightarrow> u32" where
  \<comment> \<open>the channel characteristics register\<close>
  "character_word t =
     (ucast (tx_max_packet t) AND 0x7FF) OR push_bit 11 (ucast (tx_endpoint t) AND 0xF) OR push_bit 18 (kind_code (tx_kind t)) OR CHAR_MULTI_COUNT_1
     OR push_bit 22 (ucast (tg_address (tx_target t)) AND 0x7F)
     OR (if tx_direction t = In then CHAR_EP_IN else 0)
     OR (if tg_speed (tx_target t) = Low then CHAR_LOW_SPEED else 0)
     OR (if tx_odd_frame t then CHAR_ODD_FRAME else 0)"

definition await_channel :: "'h hardware \<Rightarrow> nat \<Rightarrow> (unit, 'h) hw_op" where
  \<comment> \<open>waits for the channel, and stops it when it gives up\<close>
  "await_channel hw n h =
     (case wait_for hw ''a transfer'' TRANSFER_TIMEOUT_US (reads hw (channel n CHAN_INT) (\<lambda>v. v AND INT_HALTED \<noteq> 0)) h of
        Some (Err e, h1) \<Rightarrow> hbind (halt_channel hw n) (\<lambda>_. herr e) h1
      | r \<Rightarrow> r)"

definition run_channel :: "'h hardware \<Rightarrow> transaction \<Rightarrow> (u32 \<times> nat, 'h) hw_op" where
  "run_channel hw t =
     (let n = CONTROL_CHANNEL; b = tx_buffer t
      in hbind (halt_channel hw n) (\<lambda>_.
         hbind (clean_buffer hw b) (\<lambda>_.
         hbind (wr hw (channel n CHAN_INT) (- 1)) (\<lambda>_.
         hbind (wr hw (channel n CHAN_INT_MASK) 0) (\<lambda>_.
         hbind (wr hw (channel n CHAN_SPLIT) (tx_split t)) (\<lambda>_.
         hbind (wr hw (channel n CHAN_XFER_SIZE) (xfer_size_word t)) (\<lambda>_.
         hbind (wr hw (channel n CHAN_DMA) (from_arm (hw_address hw b) + of_nat (tx_offset t))) (\<lambda>_.
         hbind (wr hw (channel n CHAN_CHARACTER) (character_word t OR CHAR_ENABLE)) (\<lambda>_.
         hbind (await_channel hw n) (\<lambda>_.
         hbind (rd hw (channel n CHAN_INT)) (\<lambda>interrupts.
         hbind (clean_buffer hw b) (\<lambda>_.
         hbind (rd hw (channel n CHAN_XFER_SIZE)) (\<lambda>v.
           hok (interrupts, min (unat (v AND 0x7FFFF)) (tx_length t)))))))))))))))"

subsection \<open>Control transfers\<close>

partial_function (option) direct_loop :: "'h hardware \<Rightarrow> transaction \<Rightarrow> string \<Rightarrow> (nat, 'h) hw_op" where
  \<comment> \<open>the loop of \<open>direct_transfer\<close>\<close>
  "direct_loop hw t stage h =
     hbind (run_channel hw t) (\<lambda>(interrupts, remaining) h1.
       if interrupts AND INT_STALL \<noteq> 0 then herr (Stalled stage) h1
       else if interrupts AND INT_NAK \<noteq> 0 \<and> interrupts AND INT_XFER_COMPLETE = 0
       then hbind (sleep_ms hw 1) (\<lambda>_ h2. direct_loop hw t stage h2) h1
       else if interrupts AND INT_ERRORS \<noteq> 0 \<or> interrupts AND INT_XFER_COMPLETE = 0 then herr (Transfer stage interrupts) h1
       else hok (tx_length t - remaining) h1) h"

definition div_ceil :: "nat \<Rightarrow> nat \<Rightarrow> nat option" where
  \<comment> \<open>\<open>div_ceil\<close>, which panics for a divisor of 0\<close>
  "div_ceil n d = (if d = 0 then None else Some ((n + (d - 1)) div d))"

definition direct_transfer :: "'h hardware \<Rightarrow> target \<Rightarrow> direction \<Rightarrow> pid \<Rightarrow> nat \<Rightarrow> string \<Rightarrow> (nat, 'h) hw_op" where
  "direct_transfer hw target d pid len stage h =
     (case div_ceil len (unat (tg_max_packet target)) of
        None \<Rightarrow> None
      | Some packets \<Rightarrow> direct_loop hw (transaction_control target d pid 0 len (of_nat (max packets 1))) stage h)"

definition split_word :: "translator \<Rightarrow> u32" where
  "split_word tr = CHAN_SPLIT_ENABLE OR push_bit 14 CHAN_SPLIT_ALL OR push_bit 7 (ucast (tt_hub tr) AND 0x7F) OR (ucast (tt_port tr) AND 0x7F)"

partial_function (option) split_loop :: "'h hardware \<Rightarrow> transaction \<Rightarrow> u32 \<Rightarrow> string \<Rightarrow> nat \<Rightarrow> nat \<Rightarrow> nat option \<Rightarrow> (nat, 'h) hw_op" where
  \<comment> \<open>the two loops of \<open>split_packet\<close>: at a start split, or after so many answers that the translator has nothing yet\<close>
  "split_loop hw t split stage started errors nyets h =
     (case nyets of
        None \<Rightarrow>
          hbind (now_us hw) (\<lambda>now h1.
            if now - started > SPLIT_TIMEOUT_US then herr (Timeout ''a split transaction'') h1
            else hbind (run_channel hw (t\<lparr>tx_split := split\<rparr>)) (\<lambda>(interrupts, _) h2.
              if interrupts AND INT_STALL \<noteq> 0 then herr (Stalled stage) h2
              else if interrupts AND INT_ACK = 0 then
                if interrupts AND INT_ERRORS \<noteq> 0 \<and> errors + 1 > MAX_SPLIT_ERRORS then herr (Transfer stage interrupts) h2
                else hbind (delay_us hw MICROFRAME_US)
                       (\<lambda>_ h3. split_loop hw t split stage started (if interrupts AND INT_ERRORS \<noteq> 0 then errors + 1 else errors) None h3) h2
              else split_loop hw t split stage started errors (Some 0) h2) h1) h
      | Some n \<Rightarrow>
          hbind (run_channel hw (t\<lparr>tx_split := split OR CHAN_SPLIT_COMPLETE\<rparr>)) (\<lambda>(interrupts, remaining) h1.
            if interrupts AND INT_STALL \<noteq> 0 then herr (Stalled stage) h1
            else if interrupts AND INT_XFER_COMPLETE \<noteq> 0 then hok (tx_length t - remaining) h1
            else if interrupts AND INT_NAK \<noteq> 0 then hbind (delay_us hw (5 * MICROFRAME_US)) (\<lambda>_ h2. split_loop hw t split stage started errors None h2) h1
            else if interrupts AND INT_ERRORS \<noteq> 0 then
              if errors + 1 > MAX_SPLIT_ERRORS then herr (Transfer stage interrupts) h1
              else split_loop hw t split stage started (errors + 1) None h1
            else if n + 1 > MAX_NYETS then split_loop hw t split stage started errors None h1
            else hbind (delay_us hw (5 * MICROFRAME_US)) (\<lambda>_ h2. split_loop hw t split stage started errors (Some (n + 1)) h2) h1) h)"

definition split_packet :: "'h hardware \<Rightarrow> target \<Rightarrow> translator \<Rightarrow> direction \<Rightarrow> pid \<Rightarrow> nat \<Rightarrow> nat \<Rightarrow> string \<Rightarrow> nat \<Rightarrow> (nat, 'h) hw_op" where
  "split_packet hw target translator d pid offset sz stage started =
     split_loop hw (transaction_control target d pid offset sz 1) (split_word translator) stage started 0 None"

partial_function (option) split_stage :: "'h hardware \<Rightarrow> target \<Rightarrow> translator \<Rightarrow> direction \<Rightarrow> nat \<Rightarrow> string \<Rightarrow> nat \<Rightarrow> nat \<Rightarrow> pid \<Rightarrow> (nat, 'h) hw_op" where
  \<comment> \<open>the loop of \<open>split_transfer\<close>\<close>
  "split_stage hw target translator d len stage started so_far pid h =
     (let sz = min (len - so_far) (unat (tg_max_packet target))
      in hbind (split_packet hw target translator d pid so_far sz stage started) (\<lambda>moved h1.
           if moved < sz \<or> so_far + moved \<ge> len then hok (so_far + moved) h1
           else split_stage hw target translator d len stage started (so_far + moved) (toggled pid) h1) h)"

definition split_transfer :: "'h hardware \<Rightarrow> target \<Rightarrow> translator \<Rightarrow> direction \<Rightarrow> pid \<Rightarrow> nat \<Rightarrow> string \<Rightarrow> (nat, 'h) hw_op" where
  "split_transfer hw target translator d pid len stage = hbind (now_us hw) (\<lambda>started. split_stage hw target translator d len stage started 0 pid)"

definition transfer :: "'h hardware \<Rightarrow> target \<Rightarrow> direction \<Rightarrow> pid \<Rightarrow> nat \<Rightarrow> string \<Rightarrow> (nat, 'h) hw_op" where
  "transfer hw target d pid len stage =
     (case tg_translator target of
        None \<Rightarrow> direct_transfer hw target d pid len stage
      | Some translator \<Rightarrow> split_transfer hw target translator d pid len stage)"

definition control_stages :: "'h hardware \<Rightarrow> target \<Rightarrow> setup_packet \<Rightarrow> byte list \<Rightarrow> (nat, 'h) hw_op" where
  \<comment> \<open>the setup stage, and the data stage up to the bytes received being in the buffer\<close>
  "control_stages hw target req bytes =
     (let len = unat (sp_length req)
      in hbind (store_buffer hw ControlBuffer (setup_to_bytes req)) (\<lambda>_.
         hbind (transfer hw target Out PidSetup 8 ''setup'') (\<lambda>_.
           if len > 0 then
             hbind (if setup_direction req = Out then store_buffer hw ControlBuffer (take len bytes) else hok ()) (\<lambda>_.
               transfer hw target (setup_direction req) Data1 len ''data'')
           else hok 0)))"

definition received_data :: "'h hardware \<Rightarrow> setup_packet \<Rightarrow> nat \<Rightarrow> byte list \<Rightarrow> (byte list, 'h) hw_op" where
  \<comment> \<open>\<open>data[..received].copy_from_slice(&self.buffer.0[..received])\<close>\<close>
  "received_data hw req n bytes =
     (if unat (sp_length req) > 0 \<and> setup_direction req = In
      then hbind (load_buffer hw ControlBuffer n) (\<lambda>got h. if n \<le> length bytes then Some (Ok (overwrite 0 got bytes), h) else None)
      else hok bytes)"

definition control_status :: "'h hardware \<Rightarrow> target \<Rightarrow> setup_packet \<Rightarrow> nat \<Rightarrow> byte list \<Rightarrow> 'h \<Rightarrow> ((nat, usb_error) result \<times> byte list \<times> 'h) option" where
  \<comment> \<open>copying the data out, and the status stage\<close>
  "control_status hw target req n bytes h =
     (case received_data hw req n bytes h of
        None \<Rightarrow> None
      | Some (Err e, h1) \<Rightarrow> Some (Err e, bytes, h1)
      | Some (Ok bytes', h1) \<Rightarrow>
          (case transfer hw target (if unat (sp_length req) > 0 \<and> setup_direction req = In then Out else In) Data1 0 ''status'' h1 of
             None \<Rightarrow> None
           | Some (Err e, h2) \<Rightarrow> Some (Err e, bytes', h2)
           | Some (Ok _, h2) \<Rightarrow> Some (Ok (if setup_direction req = In then n else 0), bytes', h2)))"

definition host_control :: "'h hardware \<Rightarrow> target \<Rightarrow> setup_packet \<Rightarrow> byte list \<Rightarrow> 'h \<Rightarrow> ((nat, usb_error) result \<times> byte list \<times> 'h) option" where
  "host_control hw target req bytes h =
     (if unat (sp_length req) > buffer_length ControlBuffer \<or> unat (sp_length req) > length bytes then Some (Err TooLong, bytes, h)
      else case control_stages hw target req bytes h of
        None \<Rightarrow> None
      | Some (Err e, h1) \<Rightarrow> Some (Err e, bytes, h1)
      | Some (Ok n, h1) \<Rightarrow> control_status hw target req n bytes h1)"

subsection \<open>Interrupt transfers\<close>

definition interrupt_outcome :: "u32 \<Rightarrow> (nat option, 'h) hw_op" where
  "interrupt_outcome interrupts =
     (if interrupts AND INT_STALL \<noteq> 0 then herr (Stalled ''interrupt'')
      else if interrupts AND INT_NAK \<noteq> 0 then hok None
      else herr (Transfer ''interrupt'' interrupts))"

definition frame_number :: "'h hardware \<Rightarrow> (u32, 'h) hw_op" where
  "frame_number hw = hbind (rd hw HOST_FRAME_NUMBER) (\<lambda>v. hok (v AND 0xFFFF))"

definition wait_for_microframe :: "'h hardware \<Rightarrow> u32 \<Rightarrow> (unit, 'h) hw_op" where
  "wait_for_microframe hw microframe = wait_for hw ''a microframe'' FRAME_WAIT_US (reads hw HOST_FRAME_NUMBER (\<lambda>v. (v AND 0xFFFF) AND 7 = microframe))"

definition direct_interrupt :: "'h hardware \<Rightarrow> transaction \<Rightarrow> (nat option, 'h) hw_op" where
  "direct_interrupt hw t =
     hbind (frame_number hw) (\<lambda>now.
     hbind (wait_for hw ''the next frame'' FRAME_WAIT_US (reads hw HOST_FRAME_NUMBER (\<lambda>v. v AND 0xFFFF \<noteq> now))) (\<lambda>_.
     hbind (frame_number hw) (\<lambda>frame.
     hbind (run_channel hw (t\<lparr>tx_odd_frame := frame AND 1 \<noteq> 0\<rparr>)) (\<lambda>(interrupts, remaining).
       if interrupts AND INT_XFER_COMPLETE \<noteq> 0 then hok (Some (tx_length t - remaining)) else interrupt_outcome interrupts))))"

definition complete_split :: "'h hardware \<Rightarrow> transaction \<Rightarrow> u32 \<Rightarrow> u32 \<Rightarrow> (nat option option, 'h) hw_op \<Rightarrow> (nat option option, 'h) hw_op" where
  \<comment> \<open>one complete split of \<open>split_interrupt\<close>, and what to do when the answer is not through yet; \<open>None\<close> is \<open>break\<close>\<close>
  "complete_split hw t split microframe again =
     hbind (wait_for_microframe hw microframe) (\<lambda>_.
     hbind (frame_number hw) (\<lambda>frame.
     hbind (run_channel hw (t\<lparr>tx_split := split OR CHAN_SPLIT_COMPLETE, tx_odd_frame := frame AND 1 \<noteq> 0\<rparr>)) (\<lambda>(interrupts, remaining).
       if interrupts AND INT_XFER_COMPLETE \<noteq> 0 then hok (Some (Some (tx_length t - remaining)))
       else if interrupts AND (INT_NAK OR INT_STALL OR INT_ERRORS) \<noteq> 0 then hbind (interrupt_outcome interrupts) (\<lambda>r. hok (Some r))
       else again)))"

primrec complete_splits :: "'h hardware \<Rightarrow> transaction \<Rightarrow> u32 \<Rightarrow> nat \<Rightarrow> u32 \<Rightarrow> (nat option option, 'h) hw_op" where
  "complete_splits hw t split 0 = (\<lambda>microframe. complete_split hw t split microframe (hok None))"
| "complete_splits hw t split (Suc tries) =
     (\<lambda>microframe. complete_split hw t split microframe (complete_splits hw t split tries ((microframe + 1) AND 7)))"

definition split_attempt :: "'h hardware \<Rightarrow> transaction \<Rightarrow> u32 \<Rightarrow> (nat option option, 'h) hw_op" where
  \<comment> \<open>one turn of the loop in \<open>split_interrupt\<close>; \<open>None\<close> starts the transaction over\<close>
  "split_attempt hw t split =
     hbind (frame_number hw) (\<lambda>now.
       let next = (now + 1) AND 7; next = (if next = 6 then 7 else next)
       in hbind (wait_for_microframe hw next) (\<lambda>_.
          hbind (frame_number hw) (\<lambda>frame.
          hbind (run_channel hw (t\<lparr>tx_split := split, tx_odd_frame := frame AND 1 \<noteq> 0\<rparr>)) (\<lambda>(interrupts, _).
            if interrupts AND INT_ACK = 0 then hbind (interrupt_outcome interrupts) (\<lambda>r. hok (Some r))
            else hbind (complete_splits hw t split (if next = 5 then 2 else 3) ((next + 2) AND 7)) (\<lambda>r.
              case r of
                Some outcome \<Rightarrow> hok (Some outcome)
              | None \<Rightarrow> hbind (delay_us hw (8 * MICROFRAME_US)) (\<lambda>_. hok None))))))"

primrec split_attempts :: "'h hardware \<Rightarrow> transaction \<Rightarrow> u32 \<Rightarrow> nat \<Rightarrow> (nat option, 'h) hw_op" where
  "split_attempts hw t split 0 = herr (Timeout ''a periodic split transaction'')"
| "split_attempts hw t split (Suc n) =
     hbind (split_attempt hw t split) (\<lambda>r. case r of Some outcome \<Rightarrow> hok outcome | None \<Rightarrow> split_attempts hw t split n)"

definition split_interrupt :: "'h hardware \<Rightarrow> transaction \<Rightarrow> translator \<Rightarrow> (nat option, 'h) hw_op" where
  "split_interrupt hw t translator = split_attempts hw t (split_word translator) MAX_SPLIT_ERRORS"

definition interrupt_in :: "'h hardware \<Rightarrow> endpoint_target \<Rightarrow> toggle \<Rightarrow> byte list \<Rightarrow> 'h \<Rightarrow> ((nat option, usb_error) result \<times> toggle \<times> byte list \<times> 'h) option" where
  "interrupt_in hw endpoint toggle bytes h =
     (let len = min (min (unat (et_max_packet endpoint)) (length bytes)) (buffer_length ControlBuffer);
          base = \<lparr>tx_target = et_target endpoint, tx_endpoint = et_endpoint endpoint, tx_max_packet = et_max_packet endpoint, tx_kind = KindInterrupt,
                  tx_direction = In, tx_pid = toggle, tx_offset = 0, tx_length = len, tx_packets = 1, tx_split = 0, tx_odd_frame = False, tx_buffer = ControlBuffer\<rparr>
      in case (case tg_translator (et_target endpoint) of
                 None \<Rightarrow> direct_interrupt hw base h
               | Some translator \<Rightarrow> split_interrupt hw base translator h) of
           None \<Rightarrow> None
         | Some (Err e, h1) \<Rightarrow> Some (Err e, toggle, bytes, h1)
         | Some (Ok None, h1) \<Rightarrow> Some (Ok None, toggle, bytes, h1)
         | Some (Ok (Some count), h1) \<Rightarrow>
             (case load_buffer hw ControlBuffer count h1 of
                None \<Rightarrow> None
              | Some (Err e, h2) \<Rightarrow> Some (Err e, toggle, bytes, h2)
              | Some (Ok got, h2) \<Rightarrow> if count \<le> length bytes then Some (Ok (Some count), toggled toggle, overwrite 0 got bytes, h2) else None))"

subsection \<open>Bulk transfers\<close>

definition channel_pid :: "'h hardware \<Rightarrow> (pid, 'h) hw_op" where
  "channel_pid hw = hbind (rd hw (channel CONTROL_CHANNEL CHAN_XFER_SIZE)) (\<lambda>v. hok (if drop_bit 29 v AND 3 = 2 then Data1 else Data0))"

definition bulk_transaction :: "endpoint_target \<Rightarrow> direction \<Rightarrow> toggle \<Rightarrow> nat \<Rightarrow> nat \<Rightarrow> transaction" where
  "bulk_transaction endpoint d toggle so_far left =
     \<lparr>tx_target = et_target endpoint, tx_endpoint = et_endpoint endpoint, tx_max_packet = et_max_packet endpoint, tx_kind = KindBulk, tx_direction = d,
      tx_pid = toggle, tx_offset = so_far, tx_length = left,
      tx_packets = (let m = max (unat (et_max_packet endpoint)) 1 in of_nat (max ((left + (m - 1)) div m) 1)),
      tx_split = 0, tx_odd_frame = False, tx_buffer = (if d = In then BulkIn else BulkOut)\<rparr>"

definition bulk_step :: "'h hardware \<Rightarrow> endpoint_target \<Rightarrow> direction \<Rightarrow> nat \<Rightarrow> nat \<Rightarrow> nat \<Rightarrow> toggle \<Rightarrow> 'h
    \<Rightarrow> (((nat, usb_error) result \<times> toggle \<times> 'h) + (nat \<times> toggle \<times> 'h)) option" where
  \<comment> \<open>one turn of the loop of \<open>bulk\<close>: a result, or where to carry on\<close>
  "bulk_step hw endpoint d len started so_far toggle h =
     (let left = len - so_far
      in case run_channel hw (bulk_transaction endpoint d toggle so_far left) h of
           None \<Rightarrow> None
         | Some (Err e, h1) \<Rightarrow> Some (Inl (Err e, toggle, h1))
         | Some (Ok (interrupts, remaining), h1) \<Rightarrow>
             (case channel_pid hw h1 of
                None \<Rightarrow> None
              | Some (Err e, h2) \<Rightarrow> Some (Inl (Err e, toggle, h2))
              | Some (Ok toggle', h2) \<Rightarrow>
                  if interrupts AND INT_STALL \<noteq> 0 then Some (Inl (Err (Stalled ''bulk''), toggle', h2))
                  else if interrupts AND INT_XFER_COMPLETE \<noteq> 0 then Some (Inl (Ok (so_far + (left - remaining)), toggle', h2))
                  else if interrupts AND INT_NAK = 0 \<or> interrupts AND INT_ERRORS \<noteq> 0 then Some (Inl (Err (Transfer ''bulk'' interrupts), toggle', h2))
                  else case now_us hw h2 of
                         None \<Rightarrow> None
                       | Some (Err e, h3) \<Rightarrow> Some (Inl (Err e, toggle', h3))
                       | Some (Ok now, h3) \<Rightarrow>
                           if now - started > TRANSFER_TIMEOUT_US then Some (Inl (Err (Timeout ''a bulk transfer''), toggle', h3))
                           else Some (Inr (so_far + (left - remaining), toggle', hw_sleep_ms hw 1 h3))))"

partial_function (option) bulk_loop :: "'h hardware \<Rightarrow> endpoint_target \<Rightarrow> direction \<Rightarrow> nat \<Rightarrow> nat \<Rightarrow> nat \<Rightarrow> toggle \<Rightarrow> 'h
    \<Rightarrow> ((nat, usb_error) result \<times> toggle \<times> 'h) option" where
  "bulk_loop hw endpoint d len started so_far toggle h =
     (case bulk_step hw endpoint d len started so_far toggle h of
        None \<Rightarrow> None
      | Some (Inl z) \<Rightarrow> Some z
      | Some (Inr (so_far', toggle', h')) \<Rightarrow> bulk_loop hw endpoint d len started so_far' toggle' h')"

definition bulk :: "'h hardware \<Rightarrow> endpoint_target \<Rightarrow> direction \<Rightarrow> toggle \<Rightarrow> nat \<Rightarrow> 'h \<Rightarrow> ((nat, usb_error) result \<times> toggle \<times> 'h) option" where
  "bulk hw endpoint d toggle len h =
     (case now_us hw h of
        None \<Rightarrow> None
      | Some (Err e, h1) \<Rightarrow> Some (Err e, toggle, h1)
      | Some (Ok started, h1) \<Rightarrow> bulk_loop hw endpoint d len started 0 toggle h1)"

definition bulk_out :: "'h hardware \<Rightarrow> endpoint_target \<Rightarrow> toggle \<Rightarrow> byte list \<Rightarrow> 'h \<Rightarrow> ((unit, usb_error) result \<times> toggle \<times> 'h) option" where
  "bulk_out hw endpoint toggle bytes h =
     (if length bytes > buffer_length BulkOut then Some (Err TooLong, toggle, h)
      else case store_buffer hw BulkOut bytes h of
        None \<Rightarrow> None
      | Some (_, h1) \<Rightarrow>
          map_option (\<lambda>(r, toggle', h2). (case r of Ok _ \<Rightarrow> Ok () | Err e \<Rightarrow> Err e, toggle', h2)) (bulk hw endpoint Out toggle (length bytes) h1))"

definition bulk_in :: "'h hardware \<Rightarrow> endpoint_target \<Rightarrow> toggle \<Rightarrow> 'h \<Rightarrow> ((byte list, usb_error) result \<times> toggle \<times> 'h) option" where
  "bulk_in hw endpoint toggle h =
     (case bulk hw endpoint In toggle (buffer_length BulkIn) h of
        None \<Rightarrow> None
      | Some (Err e, toggle', h1) \<Rightarrow> Some (Err e, toggle', h1)
      | Some (Ok n, toggle', h1) \<Rightarrow> map_option (\<lambda>(r, h2). (r, toggle', h2)) (load_buffer hw BulkIn n h1))"

subsection \<open>Bringing the controller up\<close>

definition phy_fs_behind_ulpi :: "u32 \<Rightarrow> bool" where
  \<comment> \<open>\<open>ulpi_hs && dedicated_fs\<close>\<close>
  "phy_fs_behind_ulpi cfg2 \<longleftrightarrow> drop_bit 6 cfg2 AND 3 = 2 \<and> drop_bit 8 cfg2 AND 3 = 1"

definition init_core :: "'h hardware \<Rightarrow> u32 \<Rightarrow> (unit, 'h) hw_op" where
  "init_core hw cfg2 =
     hbind (rd hw USB_CFG) (\<lambda>c.
     hbind (wr hw USB_CFG (c AND NOT (USB_CFG_ULPI_EXT_VBUS_DRV OR USB_CFG_TERM_SEL_DL_PULSE))) (\<lambda>_.
     hbind (wait_for hw ''the AHB to go idle'' REGISTER_TIMEOUT_US (reads hw RESET (\<lambda>v. v AND RESET_AHB_IDLE \<noteq> 0))) (\<lambda>_.
     hbind (wr hw RESET RESET_SOFT) (\<lambda>_.
     hbind (wait_for hw ''the core to reset'' REGISTER_TIMEOUT_US (reads hw RESET (\<lambda>v. v AND RESET_SOFT = 0))) (\<lambda>_.
     hbind (sleep_ms hw 100) (\<lambda>_.
     hbind (rd hw USB_CFG) (\<lambda>c.
       let cfg = c AND NOT (USB_CFG_ULPI_UTMI_SEL OR USB_CFG_PHYIF);
           cfg = (if phy_fs_behind_ulpi cfg2 then cfg OR (USB_CFG_ULPI_FSLS OR USB_CFG_ULPI_CLK_SUS_M) else cfg AND NOT (USB_CFG_ULPI_FSLS OR USB_CFG_ULPI_CLK_SUS_M))
       in hbind (wr hw USB_CFG (cfg OR USB_CFG_FORCE_HOST_MODE)) (\<lambda>_.
          hbind (sleep_ms hw 50) (\<lambda>_.
          hbind (wait_for hw ''host mode'' REGISTER_TIMEOUT_US (reads hw INT_STATUS (\<lambda>v. v AND INT_STATUS_HOST_MODE \<noteq> 0))) (\<lambda>_.
          hbind (rd hw AHB_CFG) (\<lambda>a.
            wr hw AHB_CFG ((a AND NOT AHB_CFG_MAX_AXI_BURST) OR AHB_CFG_DMA_ENABLE OR AHB_CFG_WAIT_AXI_WRITES))))))))))))"

definition init_host :: "'h hardware \<Rightarrow> u32 \<Rightarrow> (unit, 'h) hw_op" where
  "init_host hw cfg2 =
     hbind (wr hw POWER 0) (\<lambda>_.
     hbind (rd hw HOST_CFG) (\<lambda>c.
     hbind (wr hw HOST_CFG ((c AND NOT 3) OR (if phy_fs_behind_ulpi cfg2 then 1 else 0))) (\<lambda>_.
     hbind (wr hw RX_FIFO_SIZE RX_FIFO_WORDS) (\<lambda>_.
     hbind (wr hw NP_TX_FIFO_SIZE (RX_FIFO_WORDS OR push_bit 16 NP_TX_FIFO_WORDS)) (\<lambda>_.
     hbind (wr hw HOST_PERIODIC_TX_FIFO_SIZE ((RX_FIFO_WORDS + NP_TX_FIFO_WORDS) OR push_bit 16 PERIODIC_TX_FIFO_WORDS)) (\<lambda>_.
     hbind (wr hw RESET (RESET_TX_FIFO_FLUSH OR RESET_TX_FIFO_ALL)) (\<lambda>_.
     hbind (wait_for hw ''the TX FIFOs to flush'' REGISTER_TIMEOUT_US (reads hw RESET (\<lambda>v. v AND RESET_TX_FIFO_FLUSH = 0))) (\<lambda>_.
     hbind (wr hw RESET RESET_RX_FIFO_FLUSH) (\<lambda>_.
     hbind (wait_for hw ''the RX FIFO to flush'' REGISTER_TIMEOUT_US (reads hw RESET (\<lambda>v. v AND RESET_RX_FIFO_FLUSH = 0))) (\<lambda>_.
     hbind (rd hw HOST_PORT) (\<lambda>p.
       let port = p AND NOT PORT_WRITE_CLEARS
       in if port AND PORT_POWER = 0 then wr hw HOST_PORT (port OR PORT_POWER) else hok ())))))))))))"

definition port_speed :: "u32 \<Rightarrow> speed" where
  "port_speed port = (let s = drop_bit 17 port AND 3 in if s = 0 then High else if s = 1 then Full else Low)"

definition enable_root_port :: "'h hardware \<Rightarrow> (speed, 'h) hw_op" where
  "enable_root_port hw h =
     (case wait_for hw ''a device on the root port'' (CONNECT_TIMEOUT_MS * 1000) (reads hw HOST_PORT (\<lambda>v. v AND PORT_CONNECT \<noteq> 0)) h of
        None \<Rightarrow> None
      | Some (Err _, h1) \<Rightarrow> Some (Err NoDevice, h1)
      | Some (Ok _, h1) \<Rightarrow>
          hbind (sleep_ms hw DEBOUNCE_MS) (\<lambda>_.
          hbind (rd hw HOST_PORT) (\<lambda>p.
          hbind (wr hw HOST_PORT ((p AND NOT PORT_WRITE_CLEARS) OR PORT_RESET)) (\<lambda>_.
          hbind (sleep_ms hw RESET_HOLD_MS) (\<lambda>_.
          hbind (rd hw HOST_PORT) (\<lambda>p.
          hbind (wr hw HOST_PORT (p AND NOT PORT_WRITE_CLEARS AND NOT PORT_RESET)) (\<lambda>_.
          hbind (sleep_ms hw ROOT_RESET_RECOVERY_MS) (\<lambda>_.
          hbind (rd hw HOST_PORT) (\<lambda>p.
            if p AND PORT_ENABLE = 0 then herr (Timeout ''the root port to enable'') else hok (port_speed p))))))))) h1)"

record host =
  ho_version :: u16
  ho_channels :: u32
  ho_speed :: speed

definition power_up :: "'h hardware \<Rightarrow> (power_state, 'h) hw_op" where
  \<comment> \<open>\<open>query::<SetPowerState>\<close>\<close>
  "power_up hw h =
     (case query (hw_mailbox hw) SetPowerState (power_words (power_on USB_HCD)) h of
        (None, h1) \<Rightarrow> None
      | (Some (Err e), h1) \<Rightarrow> Some (Err (MailboxFailed e), h1)
      | (Some (Ok ws), h1) \<Rightarrow> Some (Ok (power_of_words ws), h1))"

definition host_start :: "'h hardware \<Rightarrow> (host, 'h) hw_op" where
  "host_start hw =
     hbind (power_up hw) (\<lambda>power.
       if \<not> is_on power then herr NoPower
       else hbind (rd hw VENDOR_ID) (\<lambda>vendor.
         if drop_bit 16 vendor \<noteq> VENDOR_OT then herr (NotDwc2 vendor)
         else hbind (rd hw HW_CFG2) (\<lambda>cfg2.
              hbind (rd hw AHB_CFG) (\<lambda>a.
              hbind (wr hw AHB_CFG (a AND NOT AHB_CFG_GLOBAL_INT)) (\<lambda>_.
              hbind (init_core hw cfg2) (\<lambda>_.
              hbind (init_host hw cfg2) (\<lambda>_.
              hbind (enable_root_port hw) (\<lambda>port_sp.
                hok \<lparr>ho_version = ucast vendor, ho_channels = (drop_bit 14 cfg2 AND 0xF) + 1, ho_speed = port_sp\<rparr>))))))))"

subsection \<open>The bus\<close>

text \<open>The controller as the bus of enumeration (\<open>impl Bus for Host\<close>). Once a transfer panics or does not return, nothing more happens: the
  state of the bus is then \<open>None\<close>, and so is the error.\<close>

definition host_bus :: "'h hardware \<Rightarrow> ('h option, usb_error option) bus" where
  "host_bus hw =
     \<lparr>bus_control = (\<lambda>target req bytes s.
        case s of
          None \<Rightarrow> (Err None, bytes, None)
        | Some h \<Rightarrow>
            (case host_control hw target req bytes h of
               None \<Rightarrow> (Err None, bytes, None)
             | Some (Ok n, bytes', h') \<Rightarrow> (Ok n, bytes', Some h')
             | Some (Err e, bytes', h') \<Rightarrow> (Err (Some e), bytes', Some h'))),
      bus_delay_ms = (\<lambda>ms s. map_option (hw_sleep_ms hw (unat ms)) s)\<rparr>"

end
