(* ===== verification/Usb_Transfer.thy ===== *)
theory Usb_Transfer
  imports Usb_Host
begin

text \<open>
  What the host controller's transfers do, whatever the hardware answers: no transfer moves more bytes than asked for, so the controller is a bus as
  enumeration needs it, and with a clock that runs every transfer ends.
\<close>

subsection \<open>Results\<close>








lemma hbind_Ok:
  "hbind m k h = Some (Ok y, h') \<longleftrightarrow> (\<exists>x h1. m h = Some (Ok x, h1) \<and> k x h1 = Some (Ok y, h'))"
  unfolding hbind_def by (auto split: option.splits result.splits)

lemma hok_Ok [simp]: "hok x h = Some (Ok y, h') \<longleftrightarrow> y = x \<and> h' = h" and herr_Ok [simp]: "herr e h \<noteq> Some (Ok y, h')"
  by (auto simp: hok_def herr_def)



lemma hbind_Some:
  "hbind m k h = Some z \<Longrightarrow> (\<exists>e h1. m h = Some (Err e, h1) \<and> z = (Err e, h1)) \<or> (\<exists>x h1. m h = Some (Ok x, h1) \<and> k x h1 = Some z)"
  unfolding hbind_def by (auto split: option.splits result.splits)










lemma load_buffer_Ok: "load_buffer hw b n h = Some (r, h') \<Longrightarrow> h' = h \<and> r = Ok (map (\<lambda>i. hw_load hw b i h) [0..<n])"
  by (auto simp: load_buffer_def split: if_splits)







subsection \<open>Every transfer ends\<close>


















subsubsection \<open>Split transfers\<close>













subsubsection \<open>Control transfers\<close>






lemma setup_bytes_fit: "length (setup_to_bytes req) \<le> buffer_length ControlBuffer"
  by (simp add: setup_to_bytes_def buffer_length_def)



subsubsection \<open>Interrupt and bulk transfers\<close>



















subsubsection \<open>Bulk transfers\<close>








subsection \<open>The properties\<close>



text \<open>A controller whose channel always stops at once, with the same interrupts, all bytes moved, and a descriptor in the buffer.\<close>

definition prompt_hardware :: "u32 \<Rightarrow> nat hardware" where
  "prompt_hardware interrupts =
     \<lparr>hw_read = (\<lambda>a h. (if a = channel CONTROL_CHANNEL CHAN_INT then INT_HALTED OR interrupts else 0, h)), hw_write = (\<lambda>a v h. h), hw_now_us = (\<lambda>h. (h, Suc h)),
      hw_delay_us = (\<lambda>n h. h), hw_sleep_ms = (\<lambda>n h. h), hw_address = (\<lambda>b. 0x80000), hw_load = (\<lambda>b i h. example_device ! i), hw_store = (\<lambda>b xs h. h),
      hw_clean = (\<lambda>b h. h), hw_mailbox = (\<lambda>msg h. (msg, h))\<rparr>"


lemma wait_loop_ready: "ready h = (True, h1) \<Longrightarrow> wait_loop hw what timeout start ready h = Some (Ok (), h1)"
  by (subst wait_loop.simps) (simp add: hok_def)

lemma prompt_registers:
  "hw_read (prompt_hardware i) (channel CONTROL_CHANNEL CHAN_INT) h = (INT_HALTED OR i, h)"
  "hw_read (prompt_hardware i) (channel CONTROL_CHANNEL CHAN_CHARACTER) h = (0, h)" "hw_read (prompt_hardware i) (channel CONTROL_CHANNEL CHAN_XFER_SIZE) h = (0, h)"
  "hw_write (prompt_hardware i) a v h = h" "hw_clean (prompt_hardware i) b h = h" "hw_now_us (prompt_hardware i) h = (h, Suc h)"
  by (simp_all add: prompt_hardware_def channel_def CHAN_CHARACTER_def CHAN_INT_def CHAN_XFER_SIZE_def)

lemma prompt_await: "await_channel (prompt_hardware i) CONTROL_CHANNEL h = Some (Ok (), Suc h)"
proof -
  have "(INT_HALTED OR i) AND INT_HALTED \<noteq> 0" by (simp add: INT_HALTED_def bit_eq_iff) (auto simp: bit_simps intro: exI [of _ 1])
  then show ?thesis
    by (simp add: await_channel_def wait_for_def hbind_def now_us_def prompt_registers(6) wait_loop_ready [of _ "Suc h" "Suc h"] reads_def prompt_registers(1))
qed

lemma prompt_run: "run_channel (prompt_hardware i) t h = Some (Ok (INT_HALTED OR i, 0), Suc h)"
  unfolding run_channel_def Let_def halt_channel_def
  by (simp add: hbind_def rd_def wr_def hok_def clean_buffer_def prompt_registers prompt_await)

definition example_target :: target where
  "example_target = \<lparr>tg_address = 1, tg_max_packet = 64, tg_speed = High, tg_translator = None\<rparr>"

definition example_request :: setup_packet where
  "example_request = get_descriptor DESC_DEVICE 0 18"






lemma nak_forever: "direct_loop (prompt_hardware INT_NAK) t stage h = None"
proof -
  have "hw \<noteq> prompt_hardware INT_NAK" if "direct_loop hw t stage h = Some z" for hw z
    using that
  proof (rule direct_loop.raw_induct [rotated], goal_cases)
    case (1 f hw t stage h z)
    show ?case
    proof
      assume hw: "hw = prompt_hardware INT_NAK"
      then have "f hw t stage (hw_sleep_ms hw 1 (Suc h)) = Some z"
        using 1(2) by (simp add: hbind_def prompt_run sleep_ms_def INT_HALTED_def INT_NAK_def INT_STALL_def INT_XFER_COMPLETE_def)
      then show False using 1(1) hw by blast
    qed
  qed
  then show ?thesis by (cases "direct_loop (prompt_hardware INT_NAK) t stage h") auto
qed

text \<open>C36: A control transfer to a device that is not behind a transaction translator does not return in two cases. The first is a device with a packet size of 0, which
  the parser of its descriptor accepts: dividing by it panics. The second is a channel that stops each time because the device is not ready: the
  transfer is retried without a limit.\<close>

theorem control_transfer_stuck:
  assumes "tg_translator target = None" "unat (sp_length req) \<le> 512" "unat (sp_length req) \<le> length bytes"
  shows "(tg_max_packet target = 0 \<longrightarrow> host_control hw target req bytes h = None) \<and> max_packet_size [18, 1, 0, 2, 0, 0, 0, 0] = Some (Ok 0)
    \<and> host_control (prompt_hardware INT_NAK) target req bytes n = None"
proof -
  have "control_stages (prompt_hardware INT_NAK) target req bytes n = None"
    by (simp add: control_stages_def Let_def hbind_def store_buffer_def setup_bytes_fit transfer_def assms(1) direct_transfer_def nak_forever split: option.splits)
  then have "host_control (prompt_hardware INT_NAK) target req bytes n = None" using assms(2,3) by (simp add: host_control_def buffer_length_def)
  moreover have "control_stages hw target req bytes h = None" if "tg_max_packet target = 0"
    using that by (simp add: control_stages_def Let_def hbind_def store_buffer_def setup_bytes_fit transfer_def assms(1) direct_transfer_def div_ceil_def)
  moreover have "max_packet_size [18, 1, 0, 2, 0, 0, 0, 0] = Some (Ok 0)" by (simp add: max_packet_size_def check_descriptor_def get_at_def DESC_DEVICE_def)
  ultimately show ?thesis using assms(2,3) by (simp add: host_control_def buffer_length_def)
qed

theorem control_transfer_stuck_witness:
  "host_control (prompt_hardware INT_XFER_COMPLETE) (example_target\<lparr>tg_max_packet := 0\<rparr>) example_request (replicate 18 0) 0 = None
   \<and> host_control (prompt_hardware INT_NAK) example_target example_request (replicate 18 0) 0 = None"
proof -
  have "unat (sp_length example_request) = 18" by (simp add: example_request_def get_descriptor_def)
  then show ?thesis
    using control_transfer_stuck [where target = "example_target\<lparr>tg_max_packet := 0\<rparr>" and req = example_request and bytes = "replicate 18 0" and hw = "prompt_hardware INT_XFER_COMPLETE" and h = 0]
      control_transfer_stuck [where target = example_target and req = example_request and bytes = "replicate 18 0" and n = 0]
    by (simp add: example_target_def)
qed

end
