(* ===== verification/Spec2Isabelle.thy ===== *)
theory Spec2Isabelle
  imports Abi Frames Heap Sched_Kernel Lock Session Update Net_Iface Time Elf Terminal Pipes Path Fat Usb_Transfer
begin

text \<open>
  \<^bold>\<open>RustyPI: a verified model of a Raspberry Pi kernel.\<close>

  RustyPI is a kernel for the Raspberry Pi 3 B+ in Rust. \<open>rustypi-core\<close> holds its logic without hardware, \<open>src/\<close> the kernel around it (drivers, tasks,
  processes, locks), \<open>rustypi-abi\<close> the system call interface that kernel and programs share, \<open>rustypi-user\<close> the library of the programs. The kernel boots,
  gives memory out in frames and heap blocks, schedules tasks on four cores, runs programs in address spaces of their own, mounts a FAT volume from the SD card, and
  talks to the world over a serial link, a USB keyboard, a screen and an Ethernet interface.

  Each theory models a file or a few of them, definition by definition, and ends with what makes that part correct. Definitions are executable functions and carry the
  names of the source. A panic (and reading out of range) is \<open>None\<close> of an outer \<open>option\<close>, a \<open>Result\<close> a value of \<open>result\<close>; integers are words of their width where bits or
  overflow matter, naturals where they count or index. Arithmetic wraps as in the release build. What lies outside the program (devices, firmware, the
  other end of a line) is a parameter, with the laws the code relies on stated as a locale or a named predicate.

  \<^bold>\<open>Memory.\<close> \<open>Frames\<close> (\<open>rustypi-core/src/frames.rs\<close>, \<open>src/sys/memory.rs\<close>) is the bitmap of page frames; its theorems say that it implements a set of allocated
  frames, and it interprets the locale \<open>frame_source\<close> through which address spaces use it. \<open>Paging\<close> (\<open>paging.rs\<close>) has the three levels of page tables in a memory of
  bytes: mapping refines a map from pages to frames, no space reaches frames that are not its own, and no page is both writable and executable. \<open>Elf\<close> (\<open>elf.rs\<close>)
  is the loader on top of it. \<open>Heap_Model\<close>, \<open>Heap_Proofs\<close>, \<open>Heap_Refine\<close> and \<open>Heap\<close> (\<open>heap.rs\<close>) are the first-fit allocator with its list of free blocks kept in the free
  memory: the pointer program against a list specification, and then for clients, that live blocks never overlap and can always be freed.

  \<^bold>\<open>Tasks.\<close> \<open>Sched\<close> (\<open>rustypi-core/src/sched.rs\<close>) is the policy, with fairness and no lost wake-up; \<open>Sched_Kernel\<close> (\<open>src/sched.rs\<close>) the kernel's critical sections and the switch,
  as steps that cores interleave. \<open>Lock\<close> (\<open>lock.rs\<close>, \<open>src/synchronization.rs\<close>) is the sleeping mutex, proved in the locale \<open>parking\<close>, which the run queue
  interprets. \<open>Pipes\<close> (\<open>src/process/pipe.rs\<close>, \<open>buffer.rs\<close>) are pipes as interleaved critical sections and the budget for file buffers. \<open>Abi\<close> (\<open>rustypi-abi\<close>) is the
  encoding of system calls and what the decoder refuses.

  \<^bold>\<open>Storage.\<close> \<open>Disk\<close> (\<open>block.rs\<close>, \<open>mbr.rs\<close>) has block devices and partitions. \<open>Fat_Model\<close> (\<open>fat/mod.rs\<close>) and \<open>Fat_Write\<close> (\<open>fat/write.rs\<close>) are the filesystem: the
  table behind a one-sector cache and a pending sector, chains, directories with long names, and all that changes a volume. The proofs go upwards: \<open>Fat_Read\<close> (the locale
  \<open>block_device\<close>, reading), \<open>Fat_Table\<close> (the table as a map, as the code sees it and as a power cut leaves it), \<open>Fat_Chain\<close> and \<open>Fat_Store\<close> (chains
  written and freed, all others left whole), \<open>Fat_Dir\<close>, \<open>Fat_Names\<close>, \<open>Fat_Listing\<close> and \<open>Fat_Entries\<close> (directories as groups of slots, names and aliases),
  \<open>Fat_Files\<close>, \<open>Fat_Change\<close>, \<open>Fat_Add\<close>, \<open>Fat_Ops\<close>, \<open>Fat_Whole\<close>, \<open>Fat_Volume\<close>, \<open>Fat_Create\<close> and \<open>Fat_Lookup\<close> (the operations on the disk), and \<open>Fat\<close>, which interprets the
  locale on the in-memory disk and states the properties. \<open>Path\<close> (\<open>path.rs\<close>) resolves paths, \<open>Time\<close> (\<open>time.rs\<close>) has the calendar and the dates of directory entries.

  \<^bold>\<open>The serial line.\<close> \<open>Link\<close> (\<open>link.rs\<close>) frames and checks what is sent, \<open>Session\<close> (\<open>session.rs\<close>) makes requests run once however often they are repeated,
  \<open>Terminal\<close> (\<open>keys.rs\<close>, \<open>line.rs\<close>, \<open>console.rs\<close>) is typing and the text screen.

  \<^bold>\<open>The network.\<close> \<open>Net\<close> and \<open>Net_Proto\<close> (\<open>net/mod.rs\<close>, \<open>ethernet.rs\<close>, \<open>arp.rs\<close>, \<open>ipv4.rs\<close>, \<open>icmp.rs\<close>, \<open>udp.rs\<close>) are the formats, with the locale \<open>wire_format\<close> that ARP and IPv4 interpret;
  \<open>Net_Apps\<close> (\<open>dhcp.rs\<close>, \<open>dns.rs\<close>, \<open>sntp.rs\<close>, \<open>lan7800.rs\<close>) what rides on them; \<open>Net_Iface\<close> (\<open>interface.rs\<close>) the interface as a state machine with its invariant: nothing
  received makes it panic. \<open>Update\<close> (\<open>update.rs\<close>) receives a kernel image in chunks.

  \<^bold>\<open>USB and the firmware.\<close> \<open>Mailbox\<close> (\<open>mailbox/mod.rs\<close>, \<open>tags.rs\<close>) has the messages to the firmware. \<open>Usb\<close> (\<open>usb/mod.rs\<close>) has requests, descriptors and keyboards, \<open>Usb_Tree\<close>
  (\<open>usb/tree.rs\<close>) enumeration over a bus parameter, and \<open>Usb_Enum\<close> its invariant, proved in the locale \<open>usb_bus\<close>. \<open>Usb_Host\<close> (\<open>src/drivers/usb.rs\<close>) is the host controller
  over a hardware parameter, and \<open>Usb_Transfer\<close> shows that it is such a bus (it interprets \<open>usb_bus\<close> for every hardware) and that its transfers end.

  \<open>Prelude\<close>, \<open>Utf8\<close>, \<open>Text\<close> and \<open>Unicode\<close> are what the sources use of Rust's \<open>core\<close> and \<open>alloc\<close>, with the lemmas the other theories share.

  \<^bold>\<open>Loops and bounds.\<close> Loops that end are recursive functions with a termination proof. Three recursions take fuel, each shown to be enough: following a chain of clusters takes as
  many steps as the volume has clusters, since the code gives up there too; the search for an unused alias tries one more name than are taken, one of which must be free; enumeration goes
  \<open>MAX_DEPTH\<close> levels of hubs deep, where the code stops. Loops that wait for hardware are partial functions (\<open>None\<close> when they do not return), and return when the clock
  runs (\<open>ticking\<close>). Times in microseconds are naturals, as a 64-bit counter of them lasts half a million years.

  \<^bold>\<open>What the proofs found.\<close> Between a task marking itself waiting and switching away, another core can run it (\<open>Sched_Kernel\<close>); a reader of a pipe can be told the end of input while a
  writer remains (\<open>Pipes\<close>); a name with U+FFFF can not be opened again, and an 8.3 name can come to stand twice in a directory (\<open>Fat_Names\<close>); a report that too many keys are held
  makes the held ones be typed again (\<open>Usb\<close>); a USB device that gives 0 as its packet size makes the kernel panic, and one that is never ready makes a control transfer go on
  for ever (\<open>Usb_Transfer\<close>).

  \<^bold>\<open>Not modelled.\<close> Code that only touches hardware or assembly: the exception vectors, context switches, FP registers and the MMU setup (\<open>src/arch/\<close>), boot (\<open>src/main.rs\<close>), and the
  drivers besides USB (\<open>src/drivers/\<close>: SD card, UART, GPIO, framebuffer, interrupt controller, timers, random numbers, the LAN7800's registers); where the modelled parts need what they
  provide it is a parameter. The kernel's glue (\<open>src/sys/\<close>, \<open>src/commands/\<close>, \<open>src/process/mod.rs\<close>, \<open>handles.rs\<close>, \<open>programs.rs\<close>), which holds globals behind locks, prints, and passes the
  system calls on to the parts modelled here; the spinlocks, which are the atomicity of the critical sections; the font and colours, which are data; the programs' side of the
  system calls (\<open>rustypi-user\<close>); build scripts and test images. Formatting of messages for people (\<open>fmt::Display\<close>) is left out everywhere.
\<close>

end
